(* ===== verification/Prelude.thy ===== *)
theory Prelude
  imports Main "HOL-Library.Word"
begin

text \<open>
  Shared vocabulary of the development: the machine types of \<^verbatim>\<open>ayla/utypes.h\<close>, C strings as
  byte lists, and the arithmetic, word and list facts that the component theories use.

  A C buffer with a length is a \<^typ>\<open>8 word list\<close>.  A NUL-terminated C string is the byte list
  without its terminator; \<open>cchar\<close> reads it with the terminator in place.  C's integer promotions
  are modelled by computing on \<^typ>\<open>int\<close> (no operand here leaves the range of a 32-bit \<open>int\<close> unless
  the text says so) and by truncating with \<^term>\<open>word_of_int\<close> where the code stores into a narrower
  object.
\<close>

unbundle bit_operations_syntax

type_synonym u8 = "8 word"
type_synonym u16 = "16 word"
type_synonym u32 = "32 word"
type_synonym u64 = "64 word"
type_synonym s16 = "16 word"
type_synonym s32 = "32 word"
type_synonym bytes = "u8 list"

abbreviation MAX_U32 :: u32 where
  "MAX_U32 \<equiv> 0xFFFFFFFF"

named_theorems c_int "C integer operations as arithmetic on int"

section \<open>Strings\<close>

definition str :: "string \<Rightarrow> bytes" where
  "str s = map of_char s"

definition cchar :: "bytes \<Rightarrow> nat \<Rightarrow> u8" where
  "cchar s i = (if i < length s then s ! i else 0)"

definition cstr :: "bytes \<Rightarrow> bytes" where
  "cstr s = takeWhile (\<lambda>c. c \<noteq> 0) s"

lemma cchar_Nil [simp]: "cchar [] i = 0"
  by (simp add: cchar_def)

lemma cchar_Cons_0 [simp]: "cchar (c # s) 0 = c"
  by (simp add: cchar_def)

lemma cchar_Cons_Suc [simp]: "cchar (c # s) (Suc i) = cchar s i"
  by (simp add: cchar_def)

lemma cchar_Cons_numeral [simp]: "cchar (c # s) (numeral k) = cchar s (pred_numeral k)"
  by (simp add: numeral_eq_Suc)

lemma cstr_no_NUL: "0 \<notin> set (cstr s)"
  by (auto simp: cstr_def dest: set_takeWhileD)

lemma cstr_id: "0 \<notin> set s \<Longrightarrow> cstr s = s"
  by (auto simp: cstr_def takeWhile_eq_all_conv)

section \<open>C integer arithmetic\<close>

lemma int_and_mask [c_int]:
  "(x::int) AND 1 = x mod 2" "x AND 3 = x mod 4" "x AND 7 = x mod 8" "x AND 15 = x mod 16"
  "x AND 31 = x mod 32" "x AND 63 = x mod 64" "x AND 255 = x mod 256"
  using take_bit_eq_mask [of 1 x] take_bit_eq_mask [of 2 x] take_bit_eq_mask [of 3 x]
    take_bit_eq_mask [of 4 x] take_bit_eq_mask [of 5 x] take_bit_eq_mask [of 6 x]
    take_bit_eq_mask [of 8 x]
  by (simp_all add: take_bit_eq_mod mask_eq_exp_minus_1)

lemma int_shift [c_int]:
  "push_bit n (x::int) = x * 2 ^ n" "drop_bit n x = x div 2 ^ n"
  by (simp_all add: push_bit_eq_mult drop_bit_eq_div)

lemma uint_u8_bounds [simp]: "0 \<le> uint (x :: u8)" "uint (x :: u8) < 256" "uint (x :: u8) \<le> 255"
  using uint_lt2p [of x] by simp_all

lemma unat_u8_bounds [simp]: "unat (x :: u8) < 256" "unat (x :: u8) \<le> 255"
proof -
  show "unat (x :: u8) < 256"
    using unsigned_less [of x, where ?'a = nat] by simp
  then show "unat (x :: u8) \<le> 255" by linarith
qed

lemma pack_div: "0 \<le> r \<Longrightarrow> r < m \<Longrightarrow> (q * m + r) div m = (q :: int)"
  by simp

lemma pack_mod: "0 \<le> r \<Longrightarrow> r < m \<Longrightarrow> (q * m + r) mod m = (r :: int)"
  by simp

lemma u8_eq_iff_uint: "(x :: u8) = y \<longleftrightarrow> uint x = uint y"
  by (simp add: word_uint_eq_iff)

lemma u8_of_int_uint: "(word_of_int (uint x) :: u8) = x"
  by simp

text \<open>A property of bytes is checked on all 256 of them.\<close>

lemma u8_all_cases:
  assumes "\<forall>n \<in> set [0..<256]. P (word_of_nat n :: u8)"
  shows "P x"
proof -
  have "unat x \<in> set [0..<256]" by simp
  with assms have "P (word_of_nat (unat x) :: u8)" by blast
  then show ?thesis by simp
qed

lemma bounded_all_int:
  fixes x :: int
  assumes "0 \<le> x" "x < int n" "\<forall>k \<in> set [0..<n]. P (int k)"
  shows "P x"
proof -
  have "nat x \<in> set [0..<n]" using assms(1,2) by auto
  with assms(3) have "P (int (nat x))" by blast
  then show ?thesis using assms(1) by simp
qed

end
