(* ===== verification/Base64.thy ===== *)
theory Base64
  imports Prelude
begin

text \<open>
  The Base64 codec of \<^verbatim>\<open>libayla/base64.c\<close>: \<open>ayla_base64_encode\<close>, \<open>ayla_base64_dec_char\<close> and
  \<open>ayla_base64_decode\<close>.  The results are \<^term>\<open>None\<close> for the error return \<open>-1\<close> and
  \<^term>\<open>Some out\<close> for \<open>0\<close>, where \<open>out\<close> are the \<open>*outlen\<close> bytes written (the encoder also writes a
  NUL behind them, for which it requires room).
\<close>

definition base64_codes :: bytes where
  "base64_codes = str ''ABCDEFGHIJKLMNOPQRSTUVWXYZabcdefghijklmnopqrstuvwxyz0123456789+/''"

definition base64_code :: "int \<Rightarrow> u8" where
  "base64_code i = base64_codes ! nat (i AND 0x3F)"

fun base64_enc_groups :: "bytes \<Rightarrow> bytes" where
  "base64_enc_groups (a # b # c # rest) =
     base64_code (drop_bit 2 (uint a)) #
     base64_code (push_bit 4 (uint a AND 3) + drop_bit 4 (uint b)) #
     base64_code (push_bit 2 (uint b AND 0xf) + drop_bit 6 (uint c)) #
     base64_code (uint c) # base64_enc_groups rest"
| "base64_enc_groups [a, b] =
     [base64_code (drop_bit 2 (uint a)),
      base64_code (push_bit 4 (uint a AND 3) + drop_bit 4 (uint b)),
      base64_code (push_bit 2 (uint b AND 0xf)), 61]"
| "base64_enc_groups [a] =
     [base64_code (drop_bit 2 (uint a)),
      base64_code (push_bit 4 (uint a AND 3) + drop_bit 4 0), 61, 61]"
| "base64_enc_groups [] = []"

definition ayla_base64_encode :: "bytes \<Rightarrow> nat \<Rightarrow> bytes option" where
  "ayla_base64_encode inp outlen =
     (let len2 = 4 * ((length inp + 2) div 3) in
      if outlen < len2 + 1 then None else Some (base64_enc_groups inp))"

definition ayla_base64_dec_char :: "u8 \<Rightarrow> int" where
  "ayla_base64_dec_char c =
     (if c \<ge> 65 \<and> c \<le> 90 then uint c - 65
      else if c \<ge> 97 \<and> c \<le> 122 then uint c - 97 + 26
      else if c \<ge> 48 \<and> c \<le> 57 then uint c - 48 + 52
      else if c = 43 then 62
      else if c = 47 then 63
      else if c = 61 then 64
      else - 1)"

text \<open>
  The loop returns the input it has not consumed when it ends (by \<open>break\<close> or because fewer than
  four bytes are left), so that \<open>i != in_len\<close> is \<open>rest \<noteq> []\<close>.
\<close>

fun base64_dec_loop :: "bytes \<Rightarrow> bytes \<Rightarrow> (bytes \<times> bytes) option" where
  "base64_dec_loop (c1 # c2 # c3 # c4 # rest) out =
     (let val1 = ayla_base64_dec_char c1; val2 = ayla_base64_dec_char c2;
          val3 = ayla_base64_dec_char c3; val4 = ayla_base64_dec_char c4 in
      if val1 < 0 \<or> val1 = 64 \<or> val2 < 0 \<or> val2 = 64 \<or> val3 < 0 \<or> val4 < 0 then None
      else
        let b1 = word_of_int (push_bit 2 val1 + drop_bit 4 val2);
            b2 = word_of_int (push_bit 4 (val2 AND 0x0f) + drop_bit 2 val3);
            b3 = word_of_int (push_bit 6 (val3 AND 0x03) + val4) in
        if val3 = 64 then (if val4 \<noteq> 64 then None else Some (rest, out @ [b1]))
        else if val4 = 64 then Some (rest, out @ [b1, b2])
        else base64_dec_loop rest (out @ [b1, b2, b3]))"
| "base64_dec_loop rest out = Some (rest, out)"

definition ayla_base64_decode :: "bytes \<Rightarrow> bytes option" where
  "ayla_base64_decode inp =
     (case base64_dec_loop inp [] of
        None \<Rightarrow> None
      | Some (rest, out) \<Rightarrow> if rest \<noteq> [] then None else Some out)"

section \<open>The alphabet\<close>

lemma dec_char_code_all:
  "\<forall>n \<in> set [0..<64]. ayla_base64_dec_char (base64_codes ! n) = int n"
  by code_simp

lemma dec_char_code: "ayla_base64_dec_char (base64_code i) = i mod 64"
proof -
  have "nat (i mod 64) \<in> set [0..<64]" by simp
  then have "ayla_base64_dec_char (base64_codes ! nat (i mod 64)) = int (nat (i mod 64))"
    using dec_char_code_all by blast
  then show ?thesis by (simp add: base64_code_def c_int)
qed

lemma dec_char_pad: "ayla_base64_dec_char 61 = 64"
  by (simp add: ayla_base64_dec_char_def)

lemma dec_char_range: "- 1 \<le> ayla_base64_dec_char c \<and> ayla_base64_dec_char c \<le> 64"
  by (auto simp: ayla_base64_dec_char_def word_le_def)

section \<open>Round trip\<close>

text \<open>The three bytes of a group, put back together from its four six-bit values.\<close>

lemma six1: "0 \<le> a \<Longrightarrow> a < (256::int) \<Longrightarrow> 0 \<le> a div 4 \<and> a div 4 < 64"
  by linarith

lemma six2:
  "0 \<le> b \<Longrightarrow> b < (256::int) \<Longrightarrow> 0 \<le> a mod 4 * 16 + b div 16 \<and> a mod 4 * 16 + b div 16 < 64"
  using pos_mod_bound [of 4 a] pos_mod_sign [of 4 a] by linarith

lemma six3:
  "0 \<le> c \<Longrightarrow> c < (256::int) \<Longrightarrow> 0 \<le> b mod 16 * 4 + c div 64 \<and> b mod 16 * 4 + c div 64 < 64"
  using pos_mod_bound [of 16 b] pos_mod_sign [of 16 b] by linarith

lemma six4: "0 \<le> (c::int) mod 64 \<and> c mod 64 < 64"
  by simp

lemma six_mod: "0 \<le> v \<and> v < 64 \<Longrightarrow> v mod 64 = (v::int)"
  by simp

lemma unpack2:
  assumes "0 \<le> b" "b < (256::int)"
  shows "(a mod 4 * 16 + b div 16) div 16 = a mod 4" "(a mod 4 * 16 + b div 16) mod 16 = b div 16"
proof -
  have b: "0 \<le> b div 16" "b div 16 < 16" using assms by linarith+
  show "(a mod 4 * 16 + b div 16) div 16 = a mod 4" using b by (rule pack_div)
  show "(a mod 4 * 16 + b div 16) mod 16 = b div 16" using b by (rule pack_mod)
qed

lemma unpack3:
  assumes "0 \<le> c" "c < (256::int)"
  shows "(b mod 16 * 4 + c div 64) div 4 = b mod 16" "(b mod 16 * 4 + c div 64) mod 4 = c div 64"
proof -
  have b: "0 \<le> c div 64" "c div 64 < 4" using assms by linarith+
  show "(b mod 16 * 4 + c div 64) div 4 = b mod 16" using b by (rule pack_div)
  show "(b mod 16 * 4 + c div 64) mod 4 = c div 64" using b by (rule pack_mod)
qed

text \<open>One round of the decoder's loop on four decoded characters.\<close>

lemma dec_loop_full:
  assumes "ayla_base64_dec_char c1 = v1" "ayla_base64_dec_char c2 = v2"
    "ayla_base64_dec_char c3 = v3" "ayla_base64_dec_char c4 = v4"
    "0 \<le> v1 \<and> v1 < 64" "0 \<le> v2 \<and> v2 < 64" "0 \<le> v3 \<and> v3 < 64" "0 \<le> v4 \<and> v4 < 64"
  shows "base64_dec_loop (c1 # c2 # c3 # c4 # rest) out = base64_dec_loop rest
    (out @ [word_of_int (v1 * 4 + v2 div 16), word_of_int (v2 mod 16 * 16 + v3 div 4),
      word_of_int (v3 mod 4 * 64 + v4)])"
  using assms by (simp add: Let_def c_int)

lemma dec_loop_pad1:
  assumes "ayla_base64_dec_char c1 = v1" "ayla_base64_dec_char c2 = v2"
    "ayla_base64_dec_char c3 = v3"
    "0 \<le> v1 \<and> v1 < 64" "0 \<le> v2 \<and> v2 < 64" "0 \<le> v3 \<and> v3 < 64"
  shows "base64_dec_loop (c1 # c2 # c3 # 61 # rest) out =
    Some (rest, out @ [word_of_int (v1 * 4 + v2 div 16), word_of_int (v2 mod 16 * 16 + v3 div 4)])"
  using assms by (simp add: Let_def c_int dec_char_pad)

lemma dec_loop_pad2:
  assumes "ayla_base64_dec_char c1 = v1" "ayla_base64_dec_char c2 = v2"
    "0 \<le> v1 \<and> v1 < 64" "0 \<le> v2 \<and> v2 < 64"
  shows "base64_dec_loop (c1 # c2 # 61 # 61 # rest) out =
    Some (rest, out @ [word_of_int (v1 * 4 + v2 div 16)])"
  using assms by (simp add: Let_def c_int dec_char_pad)

lemma dec_char_six: "0 \<le> v \<and> v < 64 \<Longrightarrow> ayla_base64_dec_char (base64_code v) = v"
  by (simp add: dec_char_code)

lemma dec_char_low6: "ayla_base64_dec_char (base64_code v) = v mod 64"
  by (rule dec_char_code)

lemma dec_loop_groups: "base64_dec_loop (base64_enc_groups s) out = Some ([], out @ s)"
proof (induction s arbitrary: out rule: base64_enc_groups.induct)
  case (1 a b c rest)
  let ?v2 = "uint a mod 4 * 16 + uint b div 16" and ?v3 = "uint b mod 16 * 4 + uint c div 64"
  have "base64_dec_loop (base64_enc_groups (a # b # c # rest)) out =
    base64_dec_loop (base64_enc_groups rest)
      (out @ [word_of_int (uint a div 4 * 4 + ?v2 div 16),
        word_of_int (?v2 mod 16 * 16 + ?v3 div 4), word_of_int (?v3 mod 4 * 64 + uint c mod 64)])"
    unfolding base64_enc_groups.simps int_and_mask int_shift
    by (rule dec_loop_full) (simp_all add: dec_char_six dec_char_low6 six1 six2 six3)
  also have "\<dots> = Some ([], out @ [a, b, c] @ rest)"
    by (simp only: unpack2 [OF uint_u8_bounds(1,2)] unpack3 [OF uint_u8_bounds(1,2)]
        div_mult_mod_eq word_of_int_uint 1 append.simps append_assoc)
  finally show ?case by simp
next
  case (2 a b)
  let ?v2 = "uint a mod 4 * 16 + uint b div 16" and ?v3 = "uint b mod 16 * 4 :: int"
  have "base64_dec_loop (base64_enc_groups [a, b]) out =
    Some ([], out @ [word_of_int (uint a div 4 * 4 + ?v2 div 16),
      word_of_int (?v2 mod 16 * 16 + ?v3 div 4)])"
    unfolding base64_enc_groups.simps int_and_mask int_shift
    by (rule dec_loop_pad1) (use six3 [of 0] in \<open>simp_all add: dec_char_six six1 six2\<close>)
  also have "\<dots> = Some ([], out @ [a, b])"
    by (simp only: unpack2 [OF uint_u8_bounds(1,2)] nonzero_mult_div_cancel_right
        zero_neq_numeral not_False_eq_True div_mult_mod_eq word_of_int_uint)
  finally show ?case .
next
  case (3 a)
  let ?v2 = "uint a mod 4 * 16 :: int"
  have "base64_dec_loop (base64_enc_groups [a]) out =
    Some ([], out @ [word_of_int (uint a div 4 * 4 + ?v2 div 16)])"
    unfolding base64_enc_groups.simps int_and_mask int_shift
    by (rule dec_loop_pad2) (use six2 [of 0] in \<open>simp_all add: dec_char_six six1\<close>)
  then show ?case by simp
qed simp

lemma groups_step: "(n + 5) div 3 = Suc ((n + 2) div 3)" for n :: nat
proof -
  have "n + 5 = (n + 2) + 3" by simp
  then show ?thesis by (metis div_add_self2 add.commute plus_1_eq_Suc zero_neq_numeral)
qed

lemma length_enc_groups: "length (base64_enc_groups s) = 4 * ((length s + 2) div 3)"
proof (induction s rule: base64_enc_groups.induct)
  case (1 a b c rest)
  have "length (a # b # c # rest) + 2 = length rest + 5" by simp
  with 1 show ?case by (simp only: groups_step base64_enc_groups.simps list.size) simp
qed simp_all

text \<open>The only quantum that ends the loop early is a padded one, so nothing is skipped.\<close>

lemma dec_loop_length:
  "base64_dec_loop s out = Some (rest, out') \<Longrightarrow>
   \<exists>n. length s = 4 * n + length rest \<and> length out' \<le> length out + 3 * n"
proof (induction s out rule: base64_dec_loop.induct)
  case (1 c1 c2 c3 c4 rest0 out)
  show ?case
  proof (cases "ayla_base64_dec_char c3 = 64 \<or> ayla_base64_dec_char c4 = 64")
    case True
    with "1.prems" have "rest = rest0 \<and> length out' \<le> length out + 2"
      by (auto simp: Let_def split: if_splits)
    then show ?thesis by (intro exI [of _ 1]) simp
  next
    case False
    with 1 obtain n where "length rest0 = 4 * n + length rest" "length out' \<le> length out + 3 + 3 * n"
      by (fastforce simp: Let_def split: if_splits)
    then show ?thesis by (intro exI [of _ "Suc n"]) simp
  qed
qed auto

section \<open>Properties\<close>

text \<open>
  Round trip.  Whenever the output buffer has room for the encoded text and its NUL, the
  encoder succeeds, writes exactly \<open>4 * ceil(n / 3)\<close> characters, and the decoder gives the input back.
\<close>

theorem base64_roundtrip:
  assumes "4 * ((length s + 2) div 3) + 1 \<le> outlen"
  shows "\<exists>e. ayla_base64_encode s outlen = Some e \<and> length e = 4 * ((length s + 2) div 3) \<and>
    ayla_base64_decode e = Some s"
  using assms dec_loop_groups [of s "[]"]
  by (simp add: ayla_base64_encode_def ayla_base64_decode_def length_enc_groups)

theorem base64_roundtrip_witness:
  "\<exists>e. ayla_base64_encode [77, 0, 255, 110] 9 = Some e \<and> length e = 8 \<and>
    ayla_base64_decode e = Some [77, 0, 255, 110]"
  using base64_roundtrip [of "[77, 0, 255, 110]" 9] by simp

text \<open>
  The decoder takes no output size.  What its callers can rely on: it accepts only whole
  quanta of four characters and writes at most three bytes for each, so a buffer of
  \<open>3 * (in_len / 4)\<close> bytes never overflows.
\<close>

theorem base64_decode_bound:
  assumes "ayla_base64_decode s = Some out"
  shows "length s mod 4 = 0 \<and> length out \<le> 3 * (length s div 4)"
  using assms dec_loop_length [of s "[]" "[]" out]
  by (auto simp: ayla_base64_decode_def split: option.splits if_splits)

theorem base64_decode_bound_witness:
  "length (str ''TWFu'') mod 4 = 0 \<and> length [77, 97, 110 :: u8] \<le> 3 * (length (str ''TWFu'') div 4)"
proof -
  have "ayla_base64_decode (str ''TWFu'') = Some [77, 97, 110]"
    by code_simp
  then show ?thesis by (rule base64_decode_bound)
qed

end
