(* ===== verification/Crc.thy ===== *)
theory Crc
  imports Prelude
begin

text \<open>
  The three table-driven CRCs of \<^verbatim>\<open>libayla/crc.c\<close>, \<^verbatim>\<open>crc16.c\<close> and \<^verbatim>\<open>crc8.c\<close>.  Each handles a byte
  as two nibbles with a 16-entry table.  The locale \<open>nibble_crc\<close> states what such a table has to
  satisfy with respect to a one-bit shift register step, and derives from it that the table-driven
  byte update is eight register steps and that a single damaged byte is always detected; it is
  interpreted on the code's tables.
\<close>

definition crc32_table :: "u32 list" where
  "crc32_table = [
     0, 0x1db71064, 0x3b6e20c8, 0x26d930ac,
     0x76dc4190, 0x6b6b51f4, 0x4db26158, 0x5005713c,
     0xedb88320, 0xf00f9344, 0xd6d6a3e8, 0xcb61b38c,
     0x9b64c2b0, 0x86d3d2d4, 0xa00ae278, 0xbdbdf21c]"

fun crc32 :: "bytes \<Rightarrow> u32 \<Rightarrow> u32" where
  "crc32 [] crc = crc"
| "crc32 (b # bp) crc =
     (let crc = crc XOR ucast b;
          crc = drop_bit 4 crc XOR crc32_table ! unat (crc AND 0xf);
          crc = drop_bit 4 crc XOR crc32_table ! unat (crc AND 0xf)
      in crc32 bp crc)"

definition crc16_table :: "u16 list" where
  "crc16_table = [
     0x0000, 0x1021, 0x2042, 0x3063, 0x4084, 0x50a5, 0x60c6, 0x70e7,
     0x8108, 0x9129, 0xa14a, 0xb16b, 0xc18c, 0xd1ad, 0xe1ce, 0xf1ef]"

fun crc16 :: "bytes \<Rightarrow> u16 \<Rightarrow> u16" where
  "crc16 [] crc = crc"
| "crc16 (b # bp) crc =
     (let crc = crc XOR push_bit 8 (ucast b);
          crc = push_bit 4 crc XOR crc16_table ! unat (drop_bit 12 crc);
          crc = push_bit 4 crc XOR crc16_table ! unat (drop_bit 12 crc)
      in crc16 bp crc)"

definition crc8_table :: "u8 list" where
  "crc8_table = [
     0x00, 0x07, 0x0e, 0x09, 0x1c, 0x1b, 0x12, 0x15,
     0x38, 0x3f, 0x36, 0x31, 0x24, 0x23, 0x2a, 0x2d]"

fun crc8 :: "bytes \<Rightarrow> u8 \<Rightarrow> u8" where
  "crc8 [] crc = crc"
| "crc8 (b # bp) crc =
     (let crc = crc XOR b;
          crc = push_bit 4 crc XOR crc8_table ! unat (drop_bit 4 crc);
          crc = push_bit 4 crc XOR crc8_table ! unat (drop_bit 4 crc)
      in crc8 bp crc)"

section \<open>Shift-register references\<close>

text \<open>One bit of the IEEE CRC-32 register (reflected), of CRC-16-CCITT and of CRC-8 (MSB first).\<close>

definition crc32_bit :: "u32 \<Rightarrow> u32" where
  "crc32_bit r = drop_bit 1 r XOR (if bit r 0 then 0xedb88320 else 0)"

definition crc16_bit :: "u16 \<Rightarrow> u16" where
  "crc16_bit r = push_bit 1 r XOR (if bit r 15 then 0x1021 else 0)"

definition crc8_bit :: "u8 \<Rightarrow> u8" where
  "crc8_bit r = push_bit 1 r XOR (if bit r 7 then 0x07 else 0)"

definition crc32_ref :: "bytes \<Rightarrow> u32 \<Rightarrow> u32" where
  "crc32_ref bp crc = fold (\<lambda>b r. (crc32_bit ^^ 8) (r XOR ucast b)) bp crc"

definition crc16_ref :: "bytes \<Rightarrow> u16 \<Rightarrow> u16" where
  "crc16_ref bp crc = fold (\<lambda>b r. (crc16_bit ^^ 8) (r XOR push_bit 8 (ucast b))) bp crc"

definition crc8_ref :: "bytes \<Rightarrow> u8 \<Rightarrow> u8" where
  "crc8_ref bp crc = fold (\<lambda>b r. (crc8_bit ^^ 8) (r XOR b)) bp crc"

section \<open>What a nibble table has to satisfy\<close>

locale nibble_crc =
  fixes step :: "'a::len word \<Rightarrow> 'a word"
    and tab :: "'a word list"
    and shift :: "'a word \<Rightarrow> 'a word"
    and idx :: "'a word \<Rightarrow> nat"
    and keep :: "'a word \<Rightarrow> 'a word"
    and place :: "nat \<Rightarrow> 'a word"
    and load :: "u8 \<Rightarrow> 'a word"
  assumes linear: "step (x XOR y) = step x XOR step y"
    and split: "keep x XOR place (idx x) = x"
    and idx_bound: "idx x < 16"
    and shifts: "step (step (step (step (keep x)))) = shift x"
    and entries: "n < 16 \<Longrightarrow> step (step (step (step (place n)))) = tab ! n"
    and step_inj: "step x = step y \<Longrightarrow> x = y"
    and load_inj: "load a = load b \<Longrightarrow> a = b"
begin

lemma nibble_step: "shift x XOR tab ! idx x = step (step (step (step x)))"
proof -
  have "step (step (step (step (keep x XOR place (idx x))))) = shift x XOR tab ! idx x"
    by (simp add: linear shifts entries idx_bound)
  then show ?thesis by (simp add: split)
qed

lemma byte_step:
  "shift (shift x XOR tab ! idx x) XOR tab ! idx (shift x XOR tab ! idx x) = (step ^^ 8) x"
  by (simp add: nibble_step numeral_eq_Suc)

lemma steps_inj: "(step ^^ n) x = (step ^^ n) y \<Longrightarrow> x = y"
  by (induction n) (auto dest: step_inj)

lemma fold_inj:
  "fold (\<lambda>b r. (step ^^ 8) (r XOR load b)) q x = fold (\<lambda>b r. (step ^^ 8) (r XOR load b)) q y \<Longrightarrow> x = y"
proof (induction q arbitrary: x y)
  case (Cons b q)
  from Cons.IH Cons.prems have "(step ^^ 8) (x XOR load b) = (step ^^ 8) (y XOR load b)" by simp
  then have "x XOR load b = y XOR load b" by (rule steps_inj)
  then have "(x XOR load b) XOR load b = (y XOR load b) XOR load b" by simp
  then show ?case by (simp add: xor.assoc)
qed simp

lemma damaged_byte:
  assumes "fold (\<lambda>b r. (step ^^ 8) (r XOR load b)) (p @ a # q) c =
    fold (\<lambda>b r. (step ^^ 8) (r XOR load b)) (p @ a' # q) c"
  shows "a = a'"
proof -
  let ?r = "fold (\<lambda>b r. (step ^^ 8) (r XOR load b)) p c"
  from assms have "(step ^^ 8) (?r XOR load a) = (step ^^ 8) (?r XOR load a')"
    by (auto dest: fold_inj)
  then have "?r XOR load a = ?r XOR load a'" by (rule steps_inj)
  then have "?r XOR (?r XOR load a) = ?r XOR (?r XOR load a')" by simp
  then have "load a = load a'" by (simp add: xor.assoc [symmetric])
  then show ?thesis by (rule load_inj)
qed

end

section \<open>The code's tables\<close>

lemma xor_if_bit: "(if P \<noteq> Q then c else 0) = (if P then c else 0) XOR (if Q then c else (0 :: 'a::len word))"
  by simp

lemma and_15_bound: "unat (x AND 15 :: 'a::len word) < 16"
proof -
  have "x AND 15 = take_bit 4 x" by (simp add: take_bit_eq_mask mask_eq_exp_minus_1)
  then have "unat (x AND 15) = take_bit 4 (unat x)" by (simp add: unsigned_take_bit_eq)
  also have "\<dots> < 2 ^ 4" by (rule take_bit_nat_less_exp)
  finally show ?thesis by simp
qed

lemma low_nibble_split: "push_bit 4 (drop_bit 4 x) XOR (x AND 15) = (x :: 'a::len word)"
proof -
  have "x AND 15 = take_bit 4 x" by (simp add: take_bit_eq_mask mask_eq_exp_minus_1)
  moreover have "push_bit 4 (drop_bit 4 x) XOR take_bit 4 x = x"
    by (rule bit_word_eqI) (auto simp: bit_simps)
  ultimately show ?thesis by simp
qed

lemma drop_bit_bound: "x < 2 ^ (n + m) \<Longrightarrow> drop_bit n x < 2 ^ m" for x :: nat
  by (simp add: drop_bit_eq_div less_mult_imp_div_less power_add mult.commute)

lemma high_nibble_bound: "unat (drop_bit 12 (x :: u16)) < 16" "unat (drop_bit 4 (y :: u8)) < 16"
  using drop_bit_bound [of "unat x" 12 4] drop_bit_bound [of "unat y" 4 4]
    unsigned_less [of x, where ?'a = nat] unsigned_less [of y, where ?'a = nat]
  by (simp_all add: unsigned_drop_bit_eq take_bit_nat_eq_self)

lemma bit_left: "bit (push_bit 1 x) n \<longleftrightarrow> 0 < n \<and> n < LENGTH('a) \<and> bit x (n - 1)"
  for x :: "'a::len word"
  by (auto simp: bit_push_bit_iff simp del: push_bit_Suc One_nat_def)

lemma left_drop: "n < 4 \<Longrightarrow> push_bit 1 (drop_bit (Suc n) (push_bit 4 x)) = drop_bit n (push_bit 4 x)"
  for x :: "'a::len word"
  by (rule bit_word_eqI, unfold bit_left)
    (auto simp: bit_push_bit_iff bit_drop_bit_eq bit_simps dest: bit_imp_le_length)

lemma drop_left:
  "n < 4 \<Longrightarrow> drop_bit 1 (push_bit (Suc n) (drop_bit 4 x)) = push_bit n (drop_bit 4 x)"
  for x :: "'a::len word"
  by (rule bit_word_eqI)
    (auto simp: bit_simps Suc_diff_le dest: bit_imp_le_length simp del: push_bit_Suc One_nat_def)

lemma xor_cancel: "x XOR c = y XOR c \<longleftrightarrow> x = (y :: 'a::len word)"
  by (metis xor.assoc xor.right_neutral xor_self_eq)

lemma crc32_entries:
  "\<forall>n \<in> set [0..<16]. crc32_bit (crc32_bit (crc32_bit (crc32_bit (word_of_nat n)))) = crc32_table ! n"
  by code_simp

lemma crc16_entries:
  "\<forall>n \<in> set [0..<16]. crc16_bit (crc16_bit (crc16_bit (crc16_bit (push_bit 12 (word_of_nat n))))) =
    crc16_table ! n"
  by code_simp

lemma crc8_entries:
  "\<forall>n \<in> set [0..<16]. crc8_bit (crc8_bit (crc8_bit (crc8_bit (push_bit 4 (word_of_nat n))))) =
    crc8_table ! n"
  by code_simp

lemma crc32_bit_clear: "\<not> bit x 0 \<Longrightarrow> crc32_bit x = drop_bit 1 x"
  by (simp add: crc32_bit_def)

lemma crc16_bit_clear: "\<not> bit x 15 \<Longrightarrow> crc16_bit x = push_bit 1 x"
  by (simp add: crc16_bit_def)

lemma crc8_bit_clear: "\<not> bit x 7 \<Longrightarrow> crc8_bit x = push_bit 1 x"
  by (simp add: crc8_bit_def)

lemma crc32_shift1: "n < 4 \<Longrightarrow> crc32_bit (push_bit (Suc n) (drop_bit 4 x)) = push_bit n (drop_bit 4 x)"
  by (subst crc32_bit_clear) (auto simp: bit_push_bit_iff drop_left simp del: push_bit_Suc One_nat_def)

lemma crc32_shifts: "crc32_bit (crc32_bit (crc32_bit (crc32_bit (push_bit 4 (drop_bit 4 x))))) = drop_bit 4 x"
  using crc32_shift1 [of 3 x] crc32_shift1 [of 2 x] crc32_shift1 [of 1 x] crc32_shift1 [of 0 x]
  by (simp add: eval_nat_numeral del: push_bit_Suc)

lemma crc16_shift1: "n < 4 \<Longrightarrow> crc16_bit (drop_bit (Suc n) (push_bit 4 x)) = drop_bit n (push_bit 4 x)"
  by (subst crc16_bit_clear)
    (auto simp: bit_simps left_drop dest: bit_imp_le_length simp del: push_bit_Suc One_nat_def)

lemma crc16_shifts: "crc16_bit (crc16_bit (crc16_bit (crc16_bit (drop_bit 4 (push_bit 4 x))))) = push_bit 4 x"
  using crc16_shift1 [of 3 x] crc16_shift1 [of 2 x] crc16_shift1 [of 1 x] crc16_shift1 [of 0 x]
  by (simp add: eval_nat_numeral del: push_bit_Suc)

lemma crc8_shift1: "n < 4 \<Longrightarrow> crc8_bit (drop_bit (Suc n) (push_bit 4 x)) = drop_bit n (push_bit 4 x)"
  by (subst crc8_bit_clear)
    (auto simp: bit_simps left_drop dest: bit_imp_le_length simp del: push_bit_Suc One_nat_def)

lemma crc8_shifts: "crc8_bit (crc8_bit (crc8_bit (crc8_bit (drop_bit 4 (push_bit 4 x))))) = push_bit 4 x"
  using crc8_shift1 [of 3 x] crc8_shift1 [of 2 x] crc8_shift1 [of 1 x] crc8_shift1 [of 0 x]
  by (simp add: eval_nat_numeral del: push_bit_Suc)

lemma high_nibble_split:
  "drop_bit 4 (push_bit 4 x) XOR push_bit 12 (drop_bit 12 x) = (x :: u16)"
  "drop_bit 4 (push_bit 4 y) XOR push_bit 4 (drop_bit 4 y) = (y :: u8)"
  by (rule bit_word_eqI, auto simp: bit_simps dest: bit_imp_le_length)+

lemma crc32_bit_inj: "crc32_bit x = crc32_bit y \<Longrightarrow> x = y"
proof -
  assume eq: "crc32_bit x = crc32_bit y"
  have top: "bit (crc32_bit r) 31 = bit r 0" for r
    using bit_imp_le_length [of r 32] by (auto simp: crc32_bit_def bit_simps)
  from eq have b: "bit x 0 = bit y 0" by (metis top)
  with eq have d: "drop_bit 1 x = drop_bit 1 y"
    unfolding crc32_bit_def by (simp only: xor_cancel)
  show "x = y"
  proof (rule bit_word_eqI)
    fix n assume "n < LENGTH(32)"
    show "bit x n = bit y n"
    proof (cases n)
      case 0 then show ?thesis using b by simp
    next
      case (Suc m)
      from d have "bit (drop_bit 1 x) m = bit (drop_bit 1 y) m" by simp
      with Suc show ?thesis by (simp add: bit_simps)
    qed
  qed
qed

lemma left_shift_inj:
  fixes x y :: "'a::len word"
  assumes "push_bit 1 x = push_bit 1 y" "bit x (LENGTH('a) - 1) = bit y (LENGTH('a) - 1)"
  shows "x = y"
proof (rule bit_word_eqI)
  fix n assume n: "n < LENGTH('a)"
  show "bit x n = bit y n"
  proof (cases "Suc n < LENGTH('a)")
    case True
    from assms(1) have "bit (push_bit 1 x) (Suc n) = bit (push_bit 1 y) (Suc n)" by simp
    with True show ?thesis unfolding bit_left by simp
  next
    case False
    with n have "n = LENGTH('a) - 1" by simp
    with assms(2) show ?thesis by simp
  qed
qed

lemma crc16_bit_inj: "crc16_bit x = crc16_bit y \<Longrightarrow> x = y"
proof -
  assume eq: "crc16_bit x = crc16_bit y"
  have low: "bit (crc16_bit r) 0 = bit r 15" for r
    by (auto simp: crc16_bit_def bit_xor_iff bit_left simp del: push_bit_Suc One_nat_def)
  from eq have top: "bit x 15 = bit y 15" by (metis low)
  with eq have "push_bit 1 x = push_bit 1 y"
    unfolding crc16_bit_def by (simp only: xor_cancel)
  then show "x = y" by (rule left_shift_inj) (simp add: top)
qed

lemma crc8_bit_inj: "crc8_bit x = crc8_bit y \<Longrightarrow> x = y"
proof -
  assume eq: "crc8_bit x = crc8_bit y"
  have low: "bit (crc8_bit r) 0 = bit r 7" for r
    by (auto simp: crc8_bit_def bit_xor_iff bit_left simp del: push_bit_Suc One_nat_def)
  from eq have top: "bit x 7 = bit y 7" by (metis low)
  with eq have "push_bit 1 x = push_bit 1 y"
    unfolding crc8_bit_def by (simp only: xor_cancel)
  then show "x = y" by (rule left_shift_inj) (simp add: top)
qed

lemma ucast_u8_inj: "a = b" if "(ucast a :: u32) = ucast b" for a b :: u8
proof (rule bit_word_eqI)
  fix n assume "n < LENGTH(8)"
  moreover from that have "bit (ucast a :: u32) n = bit (ucast b :: u32) n" by simp
  ultimately show "bit a n = bit b n" by (simp add: bit_simps)
qed

interpretation c32: nibble_crc crc32_bit crc32_table "drop_bit 4" "\<lambda>x. unat (x AND 0xf)"
  "\<lambda>x. push_bit 4 (drop_bit 4 x)" word_of_nat ucast
proof
  show "crc32_bit (x XOR y) = crc32_bit x XOR crc32_bit y" for x y
    by (auto simp: crc32_bit_def bit_simps drop_bit_xor xor.assoc xor.left_commute)
  show "push_bit 4 (drop_bit 4 x) XOR word_of_nat (unat (x AND 0xf)) = x" for x :: u32
    by (simp add: low_nibble_split)
  show "n < 16 \<Longrightarrow> crc32_bit (crc32_bit (crc32_bit (crc32_bit (word_of_nat n)))) = crc32_table ! n" for n
    using crc32_entries by simp
qed (auto intro: and_15_bound crc32_shifts crc32_bit_inj ucast_u8_inj)

interpretation c16: nibble_crc crc16_bit crc16_table "push_bit 4" "\<lambda>x. unat (drop_bit 12 x)"
  "\<lambda>x. drop_bit 4 (push_bit 4 x)" "\<lambda>n. push_bit 12 (word_of_nat n)" "\<lambda>b. push_bit 8 (ucast b)"
proof
  show "crc16_bit (x XOR y) = crc16_bit x XOR crc16_bit y" for x y
    by (auto simp: crc16_bit_def bit_simps push_bit_xor xor.assoc xor.left_commute)
  show "drop_bit 4 (push_bit 4 x) XOR push_bit 12 (word_of_nat (unat (drop_bit 12 x))) = x" for x :: u16
    by (simp add: high_nibble_split)
  show "n < 16 \<Longrightarrow> crc16_bit (crc16_bit (crc16_bit (crc16_bit (push_bit 12 (word_of_nat n))))) = crc16_table ! n" for n
    using crc16_entries by simp
  show "a = b" if "push_bit 8 (ucast a :: u16) = push_bit 8 (ucast b)" for a b :: u8
  proof (rule bit_word_eqI)
    fix n assume "n < LENGTH(8)"
    moreover from that have "bit (push_bit 8 (ucast a :: u16)) (n + 8) = bit (push_bit 8 (ucast b :: u16)) (n + 8)"
      by simp
    ultimately show "bit a n = bit b n" by (simp add: bit_simps)
  qed
qed (auto intro: high_nibble_bound crc16_shifts crc16_bit_inj)

interpretation c8: nibble_crc crc8_bit crc8_table "push_bit 4" "\<lambda>x. unat (drop_bit 4 x)"
  "\<lambda>x. drop_bit 4 (push_bit 4 x)" "\<lambda>n. push_bit 4 (word_of_nat n)" "\<lambda>b. b"
proof
  show "crc8_bit (x XOR y) = crc8_bit x XOR crc8_bit y" for x y
    by (auto simp: crc8_bit_def bit_simps push_bit_xor xor.assoc xor.left_commute)
  show "drop_bit 4 (push_bit 4 x) XOR push_bit 4 (word_of_nat (unat (drop_bit 4 x))) = x" for x :: u8
    by (simp add: high_nibble_split)
  show "n < 16 \<Longrightarrow> crc8_bit (crc8_bit (crc8_bit (crc8_bit (push_bit 4 (word_of_nat n))))) = crc8_table ! n" for n
    using crc8_entries by simp
qed (auto intro: high_nibble_bound crc8_shifts crc8_bit_inj)

lemma crc32_eq_ref: "crc32 bp c = crc32_ref bp c"
  by (induction bp arbitrary: c)
    (simp_all only: crc32_ref_def crc32.simps Let_def c32.byte_step fold.simps o_apply id_apply)

lemma crc16_eq_ref: "crc16 bp c = crc16_ref bp c"
  by (induction bp arbitrary: c)
    (simp_all only: crc16_ref_def crc16.simps Let_def c16.byte_step fold.simps o_apply id_apply)

lemma crc8_eq_ref: "crc8 bp c = crc8_ref bp c"
  by (induction bp arbitrary: c)
    (simp_all only: crc8_ref_def crc8.simps Let_def c8.byte_step fold.simps o_apply id_apply)

section \<open>Properties\<close>

text \<open>
  All three table-driven CRCs compute their bit-by-bit shift registers: CRC-32 with the
  reflected IEEE polynomial, CRC-16-CCITT (polynomial \<open>0x1021\<close>) and CRC-8 (polynomial \<open>7\<close>), the last
  two most significant bit first, for every message and every starting value.
\<close>

theorem crc_table_equivalence:
  "crc32 bp c32 = crc32_ref bp c32 \<and> crc16 bp c16 = crc16_ref bp c16 \<and> crc8 bp c8 = crc8_ref bp c8"
  by (simp only: crc32_eq_ref crc16_eq_ref crc8_eq_ref)

text \<open>
  A message in which one byte was damaged never has the checksum of the original, under any of
  the three CRCs: the configuration and image checks built on them detect every single-byte error.
\<close>

theorem crc_detects_damaged_byte:
  assumes "a \<noteq> a'"
  shows "crc32 (p @ a # q) c32 \<noteq> crc32 (p @ a' # q) c32 \<and>
    crc16 (p @ a # q) c16 \<noteq> crc16 (p @ a' # q) c16 \<and> crc8 (p @ a # q) c8 \<noteq> crc8 (p @ a' # q) c8"
  using assms c32.damaged_byte [of p a q c32 a'] c16.damaged_byte [of p a q c16 a']
    c8.damaged_byte [of p a q c8 a']
  by (auto simp only: crc32_eq_ref crc16_eq_ref crc8_eq_ref crc32_ref_def crc16_ref_def crc8_ref_def)

theorem crc_detects_damaged_byte_witness:
  "crc32 ([1, 2] @ 3 # [4]) 0xFFFFFFFF \<noteq> crc32 ([1, 2] @ 7 # [4]) 0xFFFFFFFF \<and>
    crc16 ([1, 2] @ 3 # [4]) 0 \<noteq> crc16 ([1, 2] @ 7 # [4]) 0 \<and>
    crc8 ([1, 2] @ 3 # [4]) 0 \<noteq> crc8 ([1, 2] @ 7 # [4]) 0"
  by (rule crc_detects_damaged_byte) simp

end
