(* ===== verification/Uri.thy ===== *)
theory Uri
  imports Prelude
begin

text \<open>
  Percent encoding: \<^verbatim>\<open>libayla/uri_encode.c\<close>, \<^verbatim>\<open>uri_decode.c\<close> and the bitmap of
  \<^verbatim>\<open>uri_arg_allowed_map.c\<close>.  A result \<^term>\<open>None\<close> is the return value \<open>-1\<close>; otherwise the result
  is the text written to \<open>dest\<close> without the terminating NUL, whose length is the return value.
\<close>

section \<open>Encoding\<close>

definition BIT :: "nat \<Rightarrow> u32" where
  "BIT n = push_bit n 1"

definition uri_arg_allowed_map :: "u32 list" where
  "uri_arg_allowed_map =
    [0,
     BIT (48 - 32) OR BIT (49 - 32) OR BIT (50 - 32) OR BIT (51 - 32) OR BIT (52 - 32) OR
     BIT (53 - 32) OR BIT (54 - 32) OR BIT (55 - 32) OR BIT (56 - 32) OR BIT (57 - 32) OR
     BIT (45 - 32) OR BIT (46 - 32) OR BIT (47 - 32) OR BIT (63 - 32),
     0x87fffffe,
     0x47fffffe,
     0, 0, 0, 0]"

definition nibble_to_ascii :: "u8 \<Rightarrow> u8" where
  "nibble_to_ascii c = (let c = c AND 0xf in if c > 9 then c - 10 + 65 else c + 48)"

definition uri_allowed :: "u32 list \<Rightarrow> u8 \<Rightarrow> bool" where
  "uri_allowed allowed_map c \<longleftrightarrow> allowed_map ! (unat c div 32) AND BIT (unat c mod 32) \<noteq> 0"

fun uri_encode :: "nat \<Rightarrow> bytes \<Rightarrow> u32 list \<Rightarrow> bytes option" where
  "uri_encode dest_len [] allowed_map = (if dest_len < 1 then None else Some [])"
| "uri_encode dest_len (c # src) allowed_map =
     (if uri_allowed allowed_map c then
        (if dest_len < 1 then None
         else map_option (\<lambda>out. c # out) (uri_encode (dest_len - 1) src allowed_map))
      else
        (if dest_len < 3 then None
         else map_option (\<lambda>out. 37 # nibble_to_ascii (drop_bit 4 c) # nibble_to_ascii c # out)
                (uri_encode (dest_len - 3) src allowed_map)))"

section \<open>Decoding\<close>

definition uri_hex_val :: "u8 \<Rightarrow> int" where
  "uri_hex_val c =
     (if c \<ge> 48 \<and> c \<le> 57 then uint c - 48
      else if c \<ge> 65 \<and> c \<le> 70 then uint c - 65 + 10
      else if c \<ge> 97 \<and> c \<le> 102 then uint c - 97 + 10
      else - 1)"

text \<open>
  The source is a C string with a length limit: the loop ends at the NUL (the end of the list), or
  when \<open>src_len\<close> is used up.  The two digits after a percent sign are read without looking for the
  NUL, but a NUL is no hexadecimal digit; \<open>cchar\<close> supplies it at the end of the list.
  \<open>dest_len\<close> is the room left; the NUL is written only if there is some.
\<close>

function uri_decode_n :: "nat \<Rightarrow> bytes \<Rightarrow> nat \<Rightarrow> bytes option" where
  "uri_decode_n dest_len src src_len =
     (if cchar src 0 = 0 \<or> src_len = 0 then Some []
      else if cchar src 0 = 37 then
        (if src_len - 1 < 2 then None
         else
           let hi = uri_hex_val (cchar src 1); lo = uri_hex_val (cchar src 2) in
           if hi < 0 then None
           else if lo < 0 then None
           else if dest_len = 0 then None
           else map_option (\<lambda>out. word_of_int (push_bit 4 hi OR lo) # out)
                  (uri_decode_n (dest_len - 1) (drop 3 src) (src_len - 3)))
      else if dest_len = 0 then None
      else map_option (\<lambda>out. (if cchar src 0 = 43 then 32 else cchar src 0) # out)
             (uri_decode_n (dest_len - 1) (drop 1 src) (src_len - 1)))"
  by pat_completeness auto
termination
  by (relation "measure (\<lambda>(d, s, n). n)") auto

declare uri_decode_n.simps [simp del]

definition uri_decode :: "nat \<Rightarrow> bytes \<Rightarrow> bytes option" where
  "uri_decode dest_len src = uri_decode_n dest_len src 0xFFFFFFFF"

section \<open>Hexadecimal digits\<close>

lemma hex_digits_all:
  "\<forall>n \<in> set [0..<256]. uri_hex_val (nibble_to_ascii (word_of_nat n)) = int (n mod 16)"
  by code_simp

lemma hex_val_nibble: "uri_hex_val (nibble_to_ascii c) = uint c mod 16"
proof -
  have "unat c \<in> set [0..<256]" by simp
  then have "uri_hex_val (nibble_to_ascii (word_of_nat (unat c))) = int (unat c mod 16)"
    using hex_digits_all by blast
  then show ?thesis by (simp add: zmod_int)
qed

lemma nibble_bytes_all:
  "\<forall>n \<in> set [0..<256]. nibble_to_ascii (word_of_nat n) \<noteq> 0 \<and>
    push_bit 4 (uint (drop_bit 4 (word_of_nat n :: u8)) mod 16) OR (uint (word_of_nat n :: u8) mod 16) = int n"
  by code_simp

lemma nibbles_join: "(word_of_int (push_bit 4 (uint (drop_bit 4 c) mod 16) OR (uint c mod 16)) :: u8) = c"
proof -
  have "unat c \<in> set [0..<256]" by simp
  then have "push_bit 4 (uint (drop_bit 4 (word_of_nat (unat c) :: u8)) mod 16) OR
      (uint (word_of_nat (unat c) :: u8) mod 16) = int (unat c)"
    using nibble_bytes_all by blast
  then show ?thesis by simp
qed

section \<open>Properties\<close>

text \<open>What the encoder's bitmap has to leave out for the decoder to be its inverse.\<close>

definition decodable_map :: "u32 list \<Rightarrow> bool" where
  "decodable_map m \<longleftrightarrow> \<not> uri_allowed m 0 \<and> \<not> uri_allowed m 37 \<and> \<not> uri_allowed m 43"

lemma arg_map_decodable: "decodable_map uri_arg_allowed_map"
  unfolding decodable_map_def by code_simp

lemma decode_plain:
  "c \<noteq> 0 \<Longrightarrow> c \<noteq> 37 \<Longrightarrow> c \<noteq> 43 \<Longrightarrow>
    uri_decode_n (Suc d) (c # s) (Suc k) = map_option (\<lambda>out. c # out) (uri_decode_n d s k)"
  by (subst uri_decode_n.simps) simp

lemma mod16_nonneg: "\<not> (z :: int) mod 16 < 0"
  using pos_mod_sign [of 16 z] by linarith

lemma decode_escape:
  "uri_decode_n (Suc d) (37 # nibble_to_ascii (drop_bit 4 c) # nibble_to_ascii c # s) (Suc (Suc (Suc k))) =
    map_option (\<lambda>out. c # out) (uri_decode_n d s k)"
  by (subst uri_decode_n.simps) (simp add: hex_val_nibble nibbles_join Let_def mod16_nonneg)

lemma uri_decode_encode:
  assumes "decodable_map m" "uri_encode n s m = Some e" "length e \<le> k" "length s \<le> d"
  shows "uri_decode_n d e k = Some s \<and> length e < n \<and> 0 \<notin> set e"
  using assms(2-)
proof (induction s arbitrary: n e k d)
  case Nil
  then show ?case by (simp add: uri_decode_n.simps split: if_splits)
next
  case (Cons c s)
  from Cons.prems(3) obtain d' where d: "d = Suc d'" "length s \<le> d'" by (cases d) auto
  show ?case
  proof (cases "uri_allowed m c")
    case True
    with Cons.prems(1) obtain e' where e': "uri_encode (n - 1) s m = Some e'" "e = c # e'" "1 \<le> n"
      by (auto split: if_splits)
    then obtain k' where k: "k = Suc k'" "length e' \<le> k'" using Cons.prems(2) by (cases k) auto
    have c: "c \<noteq> 0" "c \<noteq> 37" "c \<noteq> 43" using True assms(1) by (auto simp: decodable_map_def)
    from Cons.IH [OF e'(1) k(2) d(2)] show ?thesis
      using e' c d k by (auto simp: decode_plain)
  next
    case False
    with Cons.prems(1) obtain e' where e': "uri_encode (n - 3) s m = Some e'"
        "e = 37 # nibble_to_ascii (drop_bit 4 c) # nibble_to_ascii c # e'" "3 \<le> n"
      by (auto split: if_splits)
    then obtain k' where k: "k = Suc (Suc (Suc k'))" "length e' \<le> k'"
      using Cons.prems(2) by (cases k; cases "k - 1"; cases "k - 2") auto
    have nz: "nibble_to_ascii x \<noteq> 0" for x
    proof -
      have "unat x \<in> set [0..<256]" by simp
      then have "nibble_to_ascii (word_of_nat (unat x)) \<noteq> 0" using nibble_bytes_all by blast
      then show ?thesis by simp
    qed
    from Cons.IH [OF e'(1) k(2) d(2)] show ?thesis
      using e' d k nz by (auto simp: decode_escape)
  qed
qed

lemma uri_encode_room:
  "3 * length s < n \<Longrightarrow> \<exists>e. uri_encode n s m = Some e \<and> length e \<le> 3 * length s"
proof (induction s arbitrary: n)
  case (Cons c s)
  then have "3 * length s < n - 3" "3 * length s < n - 1" by simp_all
  from Cons.IH [OF this(1)] Cons.IH [OF this(2)] Cons.prems show ?case by auto
qed simp

text \<open>
  Round trip of percent encoding with the library's bitmap: any byte string, NULs and percent
  signs included, is encoded into a buffer of \<open>3 * n + 1\<close> bytes, the encoding is a C string that fits
  there with its NUL, and decoding it into a buffer of \<open>n\<close> bytes gives the string back.
\<close>

theorem uri_roundtrip:
  assumes "3 * length s < n" "length s \<le> d" "3 * length s < 2 ^ 32"
  shows "\<exists>e. uri_encode n s uri_arg_allowed_map = Some e \<and> length e < n \<and> 0 \<notin> set e \<and>
    uri_decode d e = Some s"
proof -
  from uri_encode_room [OF assms(1)] obtain e
    where e: "uri_encode n s uri_arg_allowed_map = Some e" "length e \<le> 3 * length s" by blast
  with assms(3) have "length e \<le> 0xFFFFFFFF" by simp
  from uri_decode_encode [OF arg_map_decodable e(1) this assms(2)] e(1) show ?thesis
    by (simp add: uri_decode_def)
qed

theorem uri_roundtrip_witness:
  "\<exists>e. uri_encode 13 [0, 37, 65, 255] uri_arg_allowed_map = Some e \<and> length e < 13 \<and> 0 \<notin> set e \<and>
    uri_decode 4 e = Some [0, 37, 65, 255]"
  by (rule uri_roundtrip) simp_all

text \<open>The decoder never writes more bytes than the destination has.\<close>

theorem uri_decode_bound:
  assumes "uri_decode_n d s k = Some out"
  shows "length out \<le> d \<and> length out \<le> k"
  using assms
proof (induction d s k arbitrary: out rule: uri_decode_n.induct)
  case (1 d s k)
  show ?case
  proof (cases "cchar s 0 = 0 \<or> k = 0")
    case True
    with "1.prems" show ?thesis by (simp add: uri_decode_n.simps [of d s k])
  next
    case False
    with 1 show ?thesis
      by (fastforce simp: uri_decode_n.simps [of d s k] Let_def split: if_splits)
  qed
qed

theorem uri_decode_bound_witness:
  "length (str ''a b'') \<le> 3 \<and> length (str ''a b'') \<le> 5"
proof -
  have "uri_decode_n 3 (str ''a%20b'') 5 = Some (str ''a b'')"
    by code_simp
  then show ?thesis by (rule uri_decode_bound)
qed

end
