(* ===== verification/Utf8.thy ===== *)
theory Utf8
  imports Prelude
begin

text \<open>
  UTF-8 coding: \<^verbatim>\<open>libayla/utf8.c\<close>.  A buffer is a byte list with its length; the functions return a
  C integer and, through a pointer, a code point or bytes, which the model returns as a sum: \<^term>\<open>Inl\<close>
  of the negative return value, or \<^term>\<open>Inr\<close> of what was stored (with the number of bytes used).
\<close>

abbreviation MAX_UTF8 :: u32 where
  "MAX_UTF8 \<equiv> 0x10ffff"

section \<open>Decoding\<close>

text \<open>The first byte: the number of bytes of the sequence and the bits of the code point in it.\<close>

definition utf8_first :: "u8 \<Rightarrow> (nat \<times> u32) option" where
  "utf8_first c =
     (if c < 0x80 then Some (1, ucast c)
      else if c < 0xc2 then None
      else if c < 0xe0 then Some (2, ucast (c AND 0x1f))
      else if c < 0xf0 then Some (3, ucast (c AND 0xf))
      else if c < 0xf8 then Some (4, ucast (c AND 0x7))
      else if c < 0xfc then Some (5, ucast (c AND 0x3))
      else if c < 0xfe then Some (6, ucast (c AND 0x1))
      else None)"

text \<open>The continuation bytes, as many as \<open>n\<close> says.\<close>

fun utf8_rest :: "nat \<Rightarrow> bytes \<Rightarrow> u32 \<Rightarrow> u32 option" where
  "utf8_rest 0 src r = Some r"
| "utf8_rest (Suc n) [] r = None"
| "utf8_rest (Suc n) (c # src) r =
     (if c AND 0xc0 \<noteq> 0x80 then None
      else utf8_rest n src (push_bit 6 r OR ucast (c AND 0x3f)))"

definition utf8_decode :: "bytes \<Rightarrow> int + (nat \<times> u32)" where
  "utf8_decode src =
     (case utf8_first (cchar src 0) of
        None \<Rightarrow> Inl (- 1)
      | Some (len_needed, r) \<Rightarrow>
          if len_needed > length src then Inl (- 2)
          else (case utf8_rest (len_needed - 1) (drop 1 src) r of
                  None \<Rightarrow> Inl (- 3)
                | Some r \<Rightarrow> Inr (len_needed, r)))"

section \<open>Encoding\<close>

text \<open>Length and marker of the first byte for a code point.\<close>

definition utf8_marker :: "u32 \<Rightarrow> (nat \<times> u8) option" where
  "utf8_marker code =
     (if code < 0x80 then Some (1, ucast code)
      else if code < push_bit (5 + 6) 1 then Some (2, 0xc0)
      else if code < push_bit (4 + 6 * 2) 1 then Some (3, 0xe0)
      else if code < push_bit (3 + 6 * 3) 1 then Some (4, 0xf0)
      else if code < push_bit (2 + 6 * 4) 1 then Some (5, 0xf8)
      else if code < push_bit (1 + 6 * 5) 1 then Some (6, 0xfc)
      else None)"

text \<open>The loop that writes \<open>n\<close> bytes, the last one with shift 0.\<close>

fun utf8_put :: "nat \<Rightarrow> u8 \<Rightarrow> u32 \<Rightarrow> bytes" where
  "utf8_put 0 b code = []"
| "utf8_put (Suc n) b code =
     (b OR ucast (drop_bit (6 * n) code AND 0x3f)) # utf8_put n 0x80 code"

definition utf8_encode :: "nat \<Rightarrow> u32 \<Rightarrow> bytes option" where
  "utf8_encode len code =
     (if code > MAX_UTF8 then None
      else (case utf8_marker code of
              None \<Rightarrow> None
            | Some (len_needed, b) \<Rightarrow>
                if len < len_needed then None else Some (utf8_put len_needed b code)))"

section \<open>Tokens\<close>

definition utf8_get_first :: "u8 \<Rightarrow> (u32 \<times> nat) option" where
  "utf8_get_first c =
     (if c AND 0xf8 = 0xf0 then Some (ucast (c AND 7), 4)
      else if c AND 0xf0 = 0xe0 then Some (ucast (c AND 0xf), 3)
      else if c AND 0xe0 = 0xc0 then
        (if c = 0xc0 \<or> c = 0xc1 then None else Some (ucast (c AND 0x1f), 2))
      else if c AND 0xc0 = 0x80 then None
      else Some (0, 0))"

text \<open>
  \<open>utf8_get\<close> returns 0 for an invalid code.  Its check against over-long forms encodes the value again
  into four bytes and compares the lengths; a failed encoding has length \<open>-1\<close>, which never equals
  the unsigned \<open>rlen\<close>.
\<close>

definition utf8_get :: "bytes \<Rightarrow> (nat \<times> u32) option" where
  "utf8_get buf =
     (case buf of
        [] \<Rightarrow> None
      | c # rest \<Rightarrow>
          if c < 0x80 then Some (1, ucast c)
          else (case utf8_get_first c of
                  None \<Rightarrow> None
                | Some (val, rlen) \<Rightarrow>
                    if length buf < rlen then None
                    else (case utf8_rest (rlen - 1) rest val of
                            None \<Rightarrow> None
                          | Some val \<Rightarrow>
                              (case utf8_encode 4 val of
                                 None \<Rightarrow> None
                               | Some test \<Rightarrow> if length test \<noteq> rlen then None else Some (rlen, val)))))"

text \<open>\<open>utf8_gets\<close>: at most \<open>rcount\<close> code points, which have to use up the buffer.\<close>

fun utf8_gets :: "nat \<Rightarrow> bytes \<Rightarrow> u32 list option" where
  "utf8_gets 0 buf = (if buf = [] then Some [] else None)"
| "utf8_gets (Suc rcount) buf =
     (if buf = [] then Some []
      else (case utf8_get buf of
              None \<Rightarrow> None
            | Some (tlen, val) \<Rightarrow> map_option (\<lambda>r. val # r) (utf8_gets rcount (drop tlen buf))))"

section \<open>Continuation bytes\<close>

lemma and_3f: "(x :: 'a::len word) AND 63 = take_bit 6 x"
  by (simp add: take_bit_eq_mask mask_eq_exp_minus_1)

lemma cont_bytes_all:
  "\<forall>n \<in> set [0..<64]. (0x80 OR word_of_nat n :: u8) AND 0xc0 = 0x80 \<and>
    (0x80 OR word_of_nat n :: u8) AND 0x3f = word_of_nat n"
  by code_simp

lemma cont_byte:
  fixes x :: u32
  shows "(0x80 OR ucast (x AND 0x3f) :: u8) AND 0xc0 = 0x80"
    "(ucast ((0x80 OR ucast (x AND 0x3f) :: u8) AND 0x3f) :: u32) = x AND 0x3f"
proof -
  have "x AND 0x3f = take_bit 6 x" by (rule and_3f)
  then have "unat (x AND 0x3f) = take_bit 6 (unat x)" by (simp add: unsigned_take_bit_eq)
  also have "\<dots> < 2 ^ 6" by (rule take_bit_nat_less_exp)
  finally have n: "unat (x AND 0x3f) \<in> set [0..<64]" by simp
  have u: "(ucast (x AND 0x3f) :: u8) = word_of_nat (unat (x AND 0x3f))" by simp
  from n cont_bytes_all have c: "(0x80 OR word_of_nat (unat (x AND 0x3f)) :: u8) AND 0xc0 = 0x80"
    "(0x80 OR word_of_nat (unat (x AND 0x3f)) :: u8) AND 0x3f = word_of_nat (unat (x AND 0x3f))"
    by blast+
  from c(1) show "(0x80 OR ucast (x AND 0x3f) :: u8) AND 0xc0 = 0x80" unfolding u .
  have x80: "bit (0x80 :: u8) k \<longleftrightarrow> k = 7" for k
    using bit_push_bit_iff [of 7 "1 :: u8" k] by (auto simp: bit_1_iff)
  show "(ucast ((0x80 OR ucast (x AND 0x3f) :: u8) AND 0x3f) :: u32) = x AND 0x3f"
    unfolding and_3f by (rule bit_word_eqI) (auto simp: bit_simps x80)
qed

lemma join_low:
  "push_bit (6 * n) (push_bit 6 r OR (drop_bit (6 * n) x AND 0x3f)) OR take_bit (6 * n) x =
    push_bit (6 * n + 6) r OR take_bit (6 * n + 6) (x :: u32)"
  unfolding and_3f by (rule bit_word_eqI) (auto simp: bit_simps)

lemma rest_put:
  "utf8_rest n (utf8_put n 0x80 code @ src) r = Some (push_bit (6 * n) r OR take_bit (6 * n) code)"
proof (induction n arbitrary: r)
  case (Suc n)
  have "6 * Suc n = 6 * n + 6" by simp
  then show ?case
    unfolding utf8_put.simps append_Cons utf8_rest.simps cont_byte Suc
    by (simp only: join_low) simp
qed simp

lemma cont_split_all: "\<forall>n \<in> set [0..<256]. (word_of_nat n :: u8) AND 0xc0 = 0x80 \<longrightarrow>
    0x80 OR ((word_of_nat n :: u8) AND 0x3f) = word_of_nat n"
  by code_simp

lemma cont_split: "c AND 0xc0 = 0x80 \<Longrightarrow> 0x80 OR (c AND 0x3f) = (c :: u8)"
proof -
  have "unat c \<in> set [0..<256]" by simp
  with cont_split_all have "(word_of_nat (unat c) :: u8) AND 0xc0 = 0x80 \<longrightarrow>
    0x80 OR ((word_of_nat (unat c) :: u8) AND 0x3f) = word_of_nat (unat c)" by blast
  then show "c AND 0xc0 = 0x80 \<Longrightarrow> 0x80 OR (c AND 0x3f) = c" by simp
qed

lemma ucast_down_up: "(ucast (ucast (x :: u8) :: u32) :: u8) = x"
  by (rule bit_word_eqI) (auto simp: bit_simps)

lemma push_drop6: "drop_bit 26 r = 0 \<Longrightarrow> drop_bit 6 (push_bit 6 r OR ucast (c AND 0x3f)) = (r :: u32)"
  "(push_bit 6 r OR ucast (c AND 0x3f :: u8)) AND 0x3f = (ucast (c AND 0x3f) :: u32)"
proof -
  assume "drop_bit 26 r = 0"
  then have "\<not> bit r (26 + n)" for n by (metis bit_drop_bit_eq bit_0_eq bot_apply bot_bool_def comp_apply)
  then have hi: "bit r n \<Longrightarrow> n < 26" for n by (metis le_Suc_ex not_less)
  show "drop_bit 6 (push_bit 6 r OR ucast (c AND 0x3f)) = r"
    by (rule bit_word_eqI) (auto simp: and_3f bit_simps dest: hi)
next
  show "(push_bit 6 r OR ucast (c AND 0x3f :: u8)) AND 0x3f = (ucast (c AND 0x3f) :: u32)"
    unfolding and_3f by (rule bit_word_eqI) (auto simp: bit_simps)
qed

lemma high_bits: "bit r n \<Longrightarrow> n < k" if "drop_bit k r = 0" for r :: u32
proof -
  have "\<not> bit r (k + m)" for m
  proof -
    have "bit (drop_bit k r) m = bit (0 :: u32) m" using that by simp
    then show ?thesis by (simp add: bit_drop_bit_eq)
  qed
  then show "bit r n \<Longrightarrow> n < k" by (metis le_Suc_ex not_less)
qed

lemma high_bits_conv: "drop_bit k r = (0 :: u32)" if "\<And>n. bit r n \<Longrightarrow> n < k"
proof (rule bit_word_eqI)
  fix n
  have "\<not> bit r (k + n)" using that [of "k + n"] by auto
  then show "bit (drop_bit k r) n = bit 0 n" by (simp add: bit_drop_bit_eq)
qed

text \<open>What the continuation loop accepts is what the encoder writes.\<close>

lemma rest_inv:
  assumes "utf8_rest n src r = Some v" "drop_bit (32 - 6 * n) r = 0" "6 * n \<le> 32"
  shows "n \<le> length src \<and> take n src = utf8_put n 0x80 v \<and> drop_bit (6 * n) v = r"
  using assms
proof (induction n src r rule: utf8_rest.induct)
  case (3 n c src r)
  let ?r = "push_bit 6 r OR ucast (c AND 0x3f) :: u32"
  from "3.prems"(1) have c: "c AND 0xc0 = 0x80" and v: "utf8_rest n src ?r = Some v"
    by (auto split: if_splits)
  have hi: "bit r k \<Longrightarrow> k < 26 - 6 * n" for k
    using high_bits [OF "3.prems"(2)] by simp
  have r26: "drop_bit 26 r = 0" by (rule high_bits_conv) (use hi in fastforce)
  have "drop_bit (32 - 6 * n) ?r = 0"
    by (rule high_bits_conv) (use hi "3.prems"(3) in \<open>fastforce simp: and_3f bit_simps\<close>)
  with "3.IH" c v "3.prems"(3) have IH: "n \<le> length src" "take n src = utf8_put n 0x80 v" "drop_bit (6 * n) v = ?r"
    by simp_all
  have e: "6 * Suc n = 6 + 6 * n" by simp
  have "drop_bit (6 * Suc n) v = drop_bit 6 (drop_bit (6 * n) v)"
    unfolding e drop_bit_drop_bit ..
  also have "\<dots> = r" unfolding IH(3) by (rule push_drop6(1) [OF r26])
  finally have d: "drop_bit (6 * Suc n) v = r" .
  have "0x80 OR ucast (?r AND 0x3f) = (0x80 OR (c AND 0x3f) :: u8)"
    unfolding push_drop6(2) by (simp only: ucast_down_up)
  also have "\<dots> = c" by (rule cont_split [OF c])
  finally show ?case using IH d by simp
qed simp_all

section \<open>First bytes\<close>

lemma first2: "\<forall>n \<in> set [2..<32]. utf8_first (0xc0 OR word_of_nat n) = Some (2, word_of_nat n) \<and>
    utf8_get_first (0xc0 OR word_of_nat n) = Some (word_of_nat n, 2) \<and> \<not> (0xc0 OR word_of_nat n :: u8) < 0x80"
  by code_simp

lemma first3: "\<forall>n \<in> set [0..<16]. utf8_first (0xe0 OR word_of_nat n) = Some (3, word_of_nat n) \<and>
    utf8_get_first (0xe0 OR word_of_nat n) = Some (word_of_nat n, 3) \<and> \<not> (0xe0 OR word_of_nat n :: u8) < 0x80"
  by code_simp

lemma first4: "\<forall>n \<in> set [0..<8]. utf8_first (0xf0 OR word_of_nat n) = Some (4, word_of_nat n) \<and>
    utf8_get_first (0xf0 OR word_of_nat n) = Some (word_of_nat n, 4) \<and> \<not> (0xf0 OR word_of_nat n :: u8) < 0x80"
  by code_simp

lemma first1: "\<forall>n \<in> set [0..<128]. utf8_first (word_of_nat n) = Some (1, word_of_nat n) \<and> (word_of_nat n :: u8) < 0x80"
  by code_simp

definition marker_of :: "nat \<Rightarrow> u8" where
  "marker_of L = (if L = 2 then 0xc0 else if L = 3 then 0xe0 else 0xf0)"

lemma get_first_inv_all: "\<forall>n \<in> set [128..<256]. (case utf8_get_first (word_of_nat n) of None \<Rightarrow> True
    | Some (val, L) \<Rightarrow> L = 0 \<or> (L \<in> set [2, 3, 4] \<and> marker_of L OR ucast val = word_of_nat n \<and> unat val < 32))"
  by code_simp

text \<open>The first byte of an encoding of two, three or four bytes, for the top bits \<open>t\<close> of the code.\<close>

lemma first_byte:
  assumes "L = 2 \<and> 2 \<le> unat t \<and> unat t < 32 \<or> L = 3 \<and> unat t < 16 \<or> L = 4 \<and> unat t < 8"
  shows "utf8_first (marker_of L OR ucast t) = Some (L, t) \<and> utf8_get_first (marker_of L OR ucast t) = Some (t, L) \<and>
    \<not> marker_of L OR ucast (t :: u32) < 0x80 \<and> t AND 0x3f = t"
proof -
  have u: "(ucast t :: u8) = word_of_nat (unat t)" "word_of_nat (unat t) = t" by simp_all
  have "unat t < 2 ^ 6" using assms by auto
  then have "take_bit 6 (unat t) = unat t" by (rule take_bit_nat_eq_self)
  then have "unat (take_bit 6 t) = unat t" by (simp only: unsigned_take_bit_eq)
  then have "take_bit 6 t = t" by (simp only: word_unat_eq_iff)
  then have m: "t AND 0x3f = t" by (simp add: and_3f)
  from assms consider "L = 2" "unat t \<in> set [2..<32]" | "L = 3" "unat t \<in> set [0..<16]" | "L = 4" "unat t \<in> set [0..<8]"
    by (auto simp only: set_upt atLeastLessThan_iff)
  then show ?thesis
  proof cases
    case 1
    with first2 have "utf8_first (0xc0 OR word_of_nat (unat t)) = Some (2, word_of_nat (unat t)) \<and>
      utf8_get_first (0xc0 OR word_of_nat (unat t)) = Some (word_of_nat (unat t), 2) \<and>
      \<not> (0xc0 OR word_of_nat (unat t) :: u8) < 0x80" by blast
    with 1 m show ?thesis by (simp only: marker_of_def u) simp
  next
    case 2
    with first3 have "utf8_first (0xe0 OR word_of_nat (unat t)) = Some (3, word_of_nat (unat t)) \<and>
      utf8_get_first (0xe0 OR word_of_nat (unat t)) = Some (word_of_nat (unat t), 3) \<and>
      \<not> (0xe0 OR word_of_nat (unat t) :: u8) < 0x80" by blast
    with 2 m show ?thesis by (simp only: marker_of_def u) simp
  next
    case 3
    with first4 have "utf8_first (0xf0 OR word_of_nat (unat t)) = Some (4, word_of_nat (unat t)) \<and>
      utf8_get_first (0xf0 OR word_of_nat (unat t)) = Some (word_of_nat (unat t), 4) \<and>
      \<not> (0xf0 OR word_of_nat (unat t) :: u8) < 0x80" by blast
    with 3 m show ?thesis by (simp only: marker_of_def u) simp
  qed
qed

lemma top_bits: "unat (drop_bit k code) = unat code div 2 ^ k" for code :: u32
proof -
  have "take_bit 32 (unat code) = unat code"
    by (rule take_bit_nat_eq_self) (use unsigned_less [of code, where ?'a = nat] in simp)
  then show ?thesis by (simp only: unsigned_drop_bit_eq len_bit0 len_num1) (simp add: drop_bit_eq_div)
qed

lemma length_put [simp]: "length (utf8_put n b code) = n"
  by (induction n b code rule: utf8_put.induct) simp_all

text \<open>The shape of an encoding.\<close>

lemma encode_cases:
  assumes "utf8_encode len code = Some e"
  obtains (ascii) "code < 0x80" "e = [ucast code]" "1 \<le> len"
  | (multi) L where "L = 2 \<or> L = 3 \<or> L = 4" "e = utf8_put L (marker_of L) code" "L \<le> len" "\<not> code < 0x80"
      "let t = unat (drop_bit (6 * (L - 1)) code) in
        L = 2 \<and> 2 \<le> t \<and> t < 32 \<or> L = 3 \<and> t < 16 \<or> L = 4 \<and> t < 8"
proof -
  from assms have le: "code \<le> 0x10ffff" by (simp add: utf8_encode_def split: if_splits)
  have n: "unat code \<le> 0x10ffff" using le by (simp add: word_le_nat_alt)
  have d: "\<not> MAX_UTF8 < code" using le by simp
  consider (1) "code < 0x80" | (2) "\<not> code < 0x80" "code < 0x800"
    | (3) "\<not> code < 0x80" "\<not> code < 0x800" "code < 0x10000"
    | (4) "\<not> code < 0x80" "\<not> code < 0x800" "\<not> code < 0x10000"
    by blast
  then show thesis
  proof cases
    case 1
    have k: "bit code k \<Longrightarrow> k < 7" for k
    proof -
      have "unat code < 128" using 1 by (simp add: word_less_nat_alt)
      then have "drop_bit 7 code = 0" by (simp add: word_unat_eq_iff top_bits)
      then show "bit code k \<Longrightarrow> k < 7" by (rule high_bits)
    qed
    have "ucast code OR ucast (code AND 0x3f) = (ucast code :: u8)"
      unfolding and_3f by (rule bit_word_eqI) (auto simp: bit_simps)
    with assms 1 d have "e = [ucast code]" "1 \<le> len"
      by (auto simp: utf8_encode_def utf8_marker_def split: if_splits)
    with 1 ascii show ?thesis by blast
  next
    case 2
    then have "utf8_marker code = Some (2, marker_of 2)"
      by (simp add: utf8_marker_def marker_of_def)
    with assms d have e: "e = utf8_put 2 (marker_of 2) code" "2 \<le> len"
      by (auto simp: utf8_encode_def split: if_splits)
    from 2 have "128 \<le> unat code" "unat code < 2048" by (simp_all add: word_less_nat_alt)
    then have t: "2 \<le> unat code div 64" "unat code div 64 < 32" by simp_all
    show ?thesis by (rule multi [of 2]) (use e 2(1) t in \<open>simp_all add: top_bits\<close>)
  next
    case 3
    then have "utf8_marker code = Some (3, marker_of 3)"
      by (simp add: utf8_marker_def marker_of_def)
    with assms d have e: "e = utf8_put 3 (marker_of 3) code" "3 \<le> len"
      by (auto simp: utf8_encode_def split: if_splits)
    from 3 have "unat code < 65536" by (simp add: word_less_nat_alt)
    then have t: "unat code div 4096 < 16" by simp
    show ?thesis by (rule multi [of 3]) (use e 3(1) t in \<open>simp_all add: top_bits\<close>)
  next
    case 4
    have "code < 0x200000" using n by (simp add: word_less_nat_alt)
    with 4 have "utf8_marker code = Some (4, marker_of 4)"
      by (simp add: utf8_marker_def marker_of_def)
    with assms d have e: "e = utf8_put 4 (marker_of 4) code" "4 \<le> len"
      by (auto simp: utf8_encode_def split: if_splits)
    have t: "unat code div 262144 < 8" using n by simp
    show ?thesis by (rule multi [of 4]) (use e 4(1) t in \<open>simp_all add: top_bits\<close>)
  qed
qed

lemma unat_ucast_u8: "unat (code :: u32) < 256 \<Longrightarrow> unat (ucast code :: u8) = unat code"
proof -
  assume "unat code < 256"
  then have "take_bit 8 (unat code) = unat code" by (intro take_bit_nat_eq_self) simp
  then show ?thesis by (simp add: unsigned_ucast_eq unsigned_take_bit_eq)
qed

lemma unat_ucast_u32: "unat (ucast (c :: u8) :: u32) = unat c"
proof -
  have "unat c < 2 ^ 32" by (rule less_trans [OF unat_u8_bounds(1)]) simp
  then have "take_bit 32 (unat c) = unat c" by (rule take_bit_nat_eq_self)
  then show ?thesis by (simp add: unsigned_ucast_eq unsigned_take_bit_eq)
qed

lemma encode_four: "utf8_encode len code = Some e \<Longrightarrow> utf8_encode 4 code = Some e \<and> 1 \<le> length e \<and> length e \<le> 4"
proof -
  assume a: "utf8_encode len code = Some e"
  then have l: "1 \<le> length e \<and> length e \<le> 4" by (cases rule: encode_cases) auto
  from a obtain n b where "code \<le> MAX_UTF8" "utf8_marker code = Some (n, b)" "e = utf8_put n b code"
    by (auto simp: utf8_encode_def split: if_splits option.splits)
  with l show ?thesis by (simp add: utf8_encode_def)
qed

lemma encode_total: "code \<le> MAX_UTF8 \<longleftrightarrow> (\<exists>e. utf8_encode 4 code = Some e)"
proof
  assume le: "code \<le> MAX_UTF8"
  then have "code < 0x200000" by (simp add: word_less_nat_alt word_le_nat_alt)
  with le show "\<exists>e. utf8_encode 4 code = Some e" by (auto simp: utf8_encode_def utf8_marker_def)
qed (auto simp: utf8_encode_def split: if_splits)

lemma join_top: "push_bit k (drop_bit k x) OR take_bit k x = (x :: u32)"
  by (rule bit_word_eqI) (auto simp: bit_simps)

lemma multi_decode:
  assumes L: "L = 2 \<or> L = 3 \<or> L = 4"
    and t: "let t = unat (drop_bit (6 * (L - 1)) code) in
        L = 2 \<and> 2 \<le> t \<and> t < 32 \<or> L = 3 \<and> t < 16 \<or> L = 4 \<and> t < 8"
  obtains c where "utf8_put L (marker_of L) code = c # utf8_put (L - 1) 0x80 code"
    "utf8_first c = Some (L, drop_bit (6 * (L - 1)) code)"
    "utf8_get_first c = Some (drop_bit (6 * (L - 1)) code, L)" "\<not> c < 0x80"
    "utf8_rest (L - 1) (utf8_put (L - 1) 0x80 code @ src) (drop_bit (6 * (L - 1)) code) = Some code"
proof -
  let ?t = "drop_bit (6 * (L - 1)) code"
  obtain n where n: "L = Suc n" using L by (cases L) auto
  have f: "utf8_first (marker_of L OR ucast ?t) = Some (L, ?t)"
    "utf8_get_first (marker_of L OR ucast ?t) = Some (?t, L)"
    "\<not> marker_of L OR ucast ?t < 0x80" "?t AND 0x3f = ?t"
    using first_byte [OF t [unfolded Let_def]] by blast+
  have p: "utf8_put L (marker_of L) code = (marker_of L OR ucast ?t) # utf8_put (L - 1) 0x80 code"
    using f(4) unfolding n by simp
  show thesis
    by (rule that [OF p f(1-3)]) (simp only: rest_put join_top)
qed

section \<open>Round trips\<close>

lemma encode_read:
  assumes "utf8_encode len code = Some e"
  shows "utf8_decode (e @ src) = Inr (length e, code) \<and> utf8_get (e @ src) = Some (length e, code)"
  using assms
proof (cases rule: encode_cases)
  case ascii
  have "unat (ucast code :: u8) = unat code"
    by (rule unat_ucast_u8) (use ascii(1) in \<open>simp add: word_less_nat_alt\<close>)
  then have u: "(ucast code :: u8) < 0x80" "ucast (ucast code :: u8) = code"
    using ascii(1) by (simp_all add: word_less_nat_alt word_unat_eq_iff unat_ucast_u32)
  with ascii show ?thesis by (simp add: utf8_decode_def utf8_get_def utf8_first_def)
next
  case (multi L)
  obtain c where c: "utf8_put L (marker_of L) code = c # utf8_put (L - 1) 0x80 code"
    "utf8_first c = Some (L, drop_bit (6 * (L - 1)) code)"
    "utf8_get_first c = Some (drop_bit (6 * (L - 1)) code, L)" "\<not> c < 0x80"
    "utf8_rest (L - 1) (utf8_put (L - 1) 0x80 code @ src) (drop_bit (6 * (L - 1)) code) = Some code"
    using multi(1,5) by (rule multi_decode)
  have e: "e = c # utf8_put (L - 1) 0x80 code" using multi(2) c(1) by simp
  have l: "length e = L" using multi(2) by simp
  have L: "\<not> length (c # utf8_put (L - 1) 0x80 code @ src) < L" using multi(1) by auto
  from encode_four [OF assms] have e4: "utf8_encode 4 code = Some e" by simp
  show ?thesis using c L l e4 by (simp add: e utf8_decode_def utf8_get_def del: utf8_rest.simps)
qed

text \<open>
  A code point that utf8_encode encodes is given back, with the number of bytes, by utf8_decode
  and by utf8_get, whatever follows it in the buffer.
\<close>

theorem utf8_roundtrip:
  assumes "utf8_encode len code = Some e"
  shows "utf8_decode (e @ src) = Inr (length e, code) \<and> utf8_get (e @ src) = Some (length e, code)"
  using assms by (rule encode_read)

text \<open>A two-byte character (e acute) followed by a letter.\<close>

theorem utf8_roundtrip_witness:
  "utf8_decode ([0xc3, 0xa9] @ [0x41]) = Inr (2, 0xe9) \<and> utf8_get ([0xc3, 0xa9] @ [0x41]) = Some (2, 0xe9)"
proof -
  have "utf8_encode 4 0xe9 = Some [0xc3, 0xa9]" by code_simp
  from utf8_roundtrip [OF this, of "[0x41]"] show ?thesis by simp
qed

lemma get_canonical:
  assumes "utf8_get buf = Some (n, v)"
  shows "utf8_encode 4 v = Some (take n buf) \<and> 1 \<le> n \<and> n \<le> length buf"
proof (cases buf)
  case Nil
  with assms show ?thesis by (simp add: utf8_get_def)
next
  case (Cons c rest)
  show ?thesis
  proof (cases "c < 0x80")
    case True
    with assms Cons have v: "n = 1" "v = ucast c" by (simp_all add: utf8_get_def)
    then have "v < 0x80" "\<not> v > MAX_UTF8" using True by (simp_all add: word_less_nat_alt unsigned_ucast_eq take_bit_nat_eq_self)
    moreover have "ucast v OR ucast (v AND 0x3f) = c"
      unfolding and_3f v by (rule bit_word_eqI) (auto simp: bit_simps)
    ultimately show ?thesis using Cons v(1) by (simp add: utf8_encode_def utf8_marker_def)
  next
    case False
    from False Cons have "utf8_get buf = (case utf8_get_first c of None \<Rightarrow> None
        | Some (val, rlen) \<Rightarrow> if length buf < rlen then None
          else (case utf8_rest (rlen - 1) rest val of None \<Rightarrow> None
            | Some val \<Rightarrow> (case utf8_encode 4 val of None \<Rightarrow> None
              | Some test \<Rightarrow> if length test \<noteq> rlen then None else Some (rlen, val))))"
      unfolding utf8_get_def by (simp del: utf8_rest.simps)
    note eq = this
    from assms eq obtain p where p: "utf8_get_first c = Some p" by (cases "utf8_get_first c") simp_all
    obtain val L where "p = (val, L)" by (cases p)
    with p have g1: "utf8_get_first c = Some (val, L)" by simp
    note eq = eq [unfolded g1 option.case prod.case assms]
    then have g2: "L \<le> length buf" by (cases "length buf < L") simp_all
    with eq obtain v' where g3: "utf8_rest (L - 1) rest val = Some v'" by (cases "utf8_rest (L - 1) rest val") auto
    with eq g2 obtain test where g4: "utf8_encode 4 v' = Some test" by (cases "utf8_encode 4 v'") auto
    have "length test = L" "n = L" "v' = v" using eq g2 unfolding g3 g4 option.case by (simp_all split: if_splits)
    with g1 g2 g3 g4 have g: "utf8_get_first c = Some (val, L)" "L \<le> length buf"
      "utf8_rest (L - 1) rest val = Some v" "utf8_encode 4 v = Some test" "length test = L" "n = L"
      by simp_all
    have L1: "L \<noteq> 0" using encode_four [OF g(4)] g(5) by linarith
    have "128 \<le> unat c" "unat c < 256" using False by (simp_all add: word_less_nat_alt)
    then have "unat c \<in> set [128..<256]" by (simp only: set_upt atLeastLessThan_iff)
    from get_first_inv_all [rule_format, OF this] g(1) L1
    have m: "L \<in> set [2, 3, 4]" "marker_of L OR ucast val = c" "unat val < 32" by simp_all
    have "drop_bit (32 - 6 * (L - 1)) val = 0"
    proof (rule high_bits_conv)
      have "drop_bit 5 val = 0" using m(3) by (simp add: word_unat_eq_iff top_bits)
      from high_bits [OF this] show "bit val k \<Longrightarrow> k < 32 - 6 * (L - 1)" for k using m(1) by force
    qed
    from rest_inv [OF g(3) this] m(1)
    have r: "take (L - 1) rest = utf8_put (L - 1) 0x80 v" "drop_bit (6 * (L - 1)) v = val" by auto
    from g(4) have "test = take n buf"
    proof (cases rule: encode_cases)
      case ascii
      with g(5) m(1) show ?thesis by simp
    next
      case (multi L')
      with g(5) have L: "L' = L" by simp
      obtain k where "L = Suc k" using L1 by (cases L) auto
      then have "utf8_put L (marker_of L) v = (marker_of L OR ucast (val AND 0x3f)) # utf8_put (L - 1) 0x80 v"
        using r(2) by simp
      moreover have "val AND 0x3f = val"
        using m(3) by (simp add: and_3f word_unat_eq_iff unsigned_take_bit_eq take_bit_nat_eq_self)
      ultimately show ?thesis using multi(2) L m(2) r(1) g(6) Cons L1 by (cases L) simp_all
    qed
    with g L1 show ?thesis by simp
  qed
qed

text \<open>
  The multi-character reader utf8_gets accepts exactly the concatenations of the encodings of at
  most rcount code points up to 0x10ffff, and returns these code points: over-long forms, truncated
  characters, stray continuation bytes and trailing bytes are all refused.
\<close>

theorem utf8_gets_exact:
  "utf8_gets rcount buf = Some vs \<longleftrightarrow>
     length vs \<le> rcount \<and> list_all (\<lambda>v. v \<le> MAX_UTF8) vs \<and> buf = concat (map (\<lambda>v. the (utf8_encode 4 v)) vs)"
proof (induction rcount buf arbitrary: vs rule: utf8_gets.induct)
  case (2 rcount buf)
  show ?case
  proof (cases "buf = []")
    case True
    have "the (utf8_encode 4 v) \<noteq> []" if "v \<le> MAX_UTF8" for v
      using that encode_total [of v] encode_four [of 4 v] by fastforce
    with True show ?thesis by (cases vs) auto
  next
    case False
    show ?thesis
    proof
      assume "utf8_gets (Suc rcount) buf = Some vs"
      with False obtain n v ws where g: "utf8_get buf = Some (n, v)" "utf8_gets rcount (drop n buf) = Some ws"
        "vs = v # ws"
        by (auto split: option.splits)
      from get_canonical [OF g(1)] have e: "utf8_encode 4 v = Some (take n buf)" by simp
      then have "v \<le> MAX_UTF8" using encode_total [of v] by blast
      moreover from "2.IH" [OF False g(1) refl, of ws] g(2)
      have "length ws \<le> rcount \<and> list_all (\<lambda>v. v \<le> MAX_UTF8) ws \<and> drop n buf = concat (map (\<lambda>v. the (utf8_encode 4 v)) ws)"
        by simp
      moreover have "buf = take n buf @ drop n buf" by simp
      ultimately show "length vs \<le> Suc rcount \<and> list_all (\<lambda>v. v \<le> MAX_UTF8) vs \<and> buf = concat (map (\<lambda>v. the (utf8_encode 4 v)) vs)"
        unfolding g(3) using e by simp
    next
      assume a: "length vs \<le> Suc rcount \<and> list_all (\<lambda>v. v \<le> MAX_UTF8) vs \<and> buf = concat (map (\<lambda>v. the (utf8_encode 4 v)) vs)"
      with False obtain v ws where v: "vs = v # ws" by (cases vs) auto
      with a encode_total [of v] obtain e where e: "utf8_encode 4 v = Some e" by auto
      let ?src = "concat (map (\<lambda>v. the (utf8_encode 4 v)) ws)"
      have buf: "buf = e @ ?src" using a v e by simp
      from encode_read [OF e, of ?src] have g: "utf8_get buf = Some (length e, v)" using buf by simp
      have d: "drop (length e) buf = ?src" using buf by simp
      from "2.IH" [OF False g refl, of ws] a v d have "utf8_gets rcount ?src = Some ws" by simp
      with False g d v show "utf8_gets (Suc rcount) buf = Some vs" by simp
    qed
  qed
qed auto

end
