(* ===== verification/Json.thy ===== *)
theory Json
  imports Utf8
begin

text \<open>
  JSON string escaping: \<^verbatim>\<open>libayla/json_format_string.c\<close>.  The pair \<open>dest\<close>, \<open>buf_len\<close> and the two
  optional results form a record: the bytes stored so far (\<^term>\<open>None\<close> for a null buffer, where only the
  size is computed), the room left, the source bytes consumed and the limit flag.  The parameter
  \<open>lim\<close> says whether the caller passed a place for the limit flag.
\<close>

section \<open>Escaping\<close>

record json_out =
  jo_ret :: int
  jo_dest :: "bytes option"
  jo_left :: nat
  jo_consumed :: nat
  jo_limit :: bool

definition json_set_if_not_null :: "bool \<Rightarrow> json_out \<Rightarrow> json_out" where
  "json_set_if_not_null lim s = (if lim then s\<lparr>jo_limit := True\<rparr> else s)"

definition json_store :: "bytes \<Rightarrow> json_out \<Rightarrow> json_out" where
  "json_store bs s =
     s\<lparr>jo_dest := map_option (\<lambda>d. d @ bs) (jo_dest s), jo_left := jo_left s - length bs\<rparr>"

definition hex_digit :: "nat \<Rightarrow> u8" where
  "hex_digit n = (if n < 10 then word_of_nat (48 + n) else word_of_nat (87 + n))"

text \<open>The text of the format \<^verbatim>\<open>\u%4.4x\<close> for a byte.\<close>

definition json_u_escape :: "u8 \<Rightarrow> bytes" where
  "json_u_escape c = [0x5c, 0x75, 0x30, 0x30, hex_digit (unat c div 16), hex_digit (unat c mod 16)]"

text \<open>The letter of a two-byte escape.\<close>

definition json_short_escape :: "u8 \<Rightarrow> u8 option" where
  "json_short_escape c =
     (if c = 0x0a then Some 0x6e
      else if c = 0x0d then Some 0x72
      else if c = 0x09 then Some 0x74
      else if c = 0x5c \<or> c = 0x22 then Some c
      else None)"

text \<open>
  \<open>snprintf\<close> stores at most \<open>buf_len - 1\<close> characters and a NUL; it returns the length of the whole text,
  by which the code advances.
\<close>

definition json_put_byte :: "bool \<Rightarrow> bool \<Rightarrow> u8 \<Rightarrow> json_out \<Rightarrow> int \<times> json_out" where
  "json_put_byte lim allow c s =
     (if jo_dest s \<noteq> None \<and> jo_left s = 0 then (0, json_set_if_not_null lim s)
      else if c < 0x20 \<or> c = 0x5c \<or> c = 0x22 \<or> c \<ge> 0x80 then
        (case json_short_escape c of
           Some e \<Rightarrow>
             if jo_dest s = None then (2, s)
             else if jo_left s < 2 then (0, json_set_if_not_null lim s)
             else (2, json_store [0x5c, e] s)
         | None \<Rightarrow>
             if \<not> allow then (- 2, s)
             else if jo_dest s = None then (6, s)
             else if jo_left s < 6 then (0, json_set_if_not_null lim s)
             else (6, json_store (if jo_left s = 6 then take 5 (json_u_escape c) @ [0] else json_u_escape c) s))
      else if jo_dest s \<noteq> None then (1, json_store [c] s)
      else (1, s))"

text \<open>The token at the front of the source: a multi-byte character, or one byte.\<close>

definition json_token :: "bytes \<Rightarrow> nat" where
  "json_token src = (case utf8_decode src of Inr (n, code) \<Rightarrow> if n \<le> 1 then 1 else n | Inl e \<Rightarrow> 1)"

lemma json_token_pos [simp]: "0 < json_token src"
  by (simp add: json_token_def split: sum.split)

text \<open>The loop; \<^term>\<open>Inl\<close> is the return of a negative value from the middle of it.\<close>

function json_loop :: "bool \<Rightarrow> bool \<Rightarrow> bytes \<Rightarrow> json_out \<Rightarrow> json_out + json_out" where
  "json_loop lim allow src s =
     (if src = [] \<or> jo_dest s \<noteq> None \<and> jo_left s = 0 then Inr s
      else let code_len = json_token src in
        if code_len = 1 then
          (let (put_len, s') = json_put_byte lim allow (hd src) s in
           if put_len < 0 then Inl (s'\<lparr>jo_ret := put_len\<rparr>)
           else if jo_limit s' then Inr s'
           else json_loop lim allow (drop 1 src)
                  (s'\<lparr>jo_ret := jo_ret s + put_len, jo_consumed := jo_consumed s + 1\<rparr>))
        else if jo_dest s \<noteq> None \<and> jo_left s < code_len then Inr (json_set_if_not_null lim s)
        else json_loop lim allow (drop code_len src)
               ((if jo_dest s \<noteq> None then json_store (take code_len src) s else s)
                \<lparr>jo_ret := jo_ret s + int code_len, jo_consumed := jo_consumed s + code_len\<rparr>))"
  by auto
termination
  by (relation "measure (\<lambda>(lim, allow, src, s). length src)") auto

declare json_loop.simps [simp del]

definition json_format_bytes :: "bool \<Rightarrow> bool \<Rightarrow> bytes option \<Rightarrow> nat \<Rightarrow> bytes \<Rightarrow> json_out" where
  "json_format_bytes lim allow buf buf_len src =
     (case json_loop lim allow src
             \<lparr>jo_ret = 0, jo_dest = buf, jo_left = buf_len, jo_consumed = 0, jo_limit = False\<rparr> of
        Inl s \<Rightarrow> s
      | Inr s \<Rightarrow>
          if jo_dest s = None then s
          else if jo_left s > 0 then json_store [0] s
          else json_set_if_not_null lim s)"

text \<open>
  The string functions return \<^term>\<open>None\<close> for NULL, or the bytes of the buffer up to and with the
  terminator; a buffer of size 0 is left as it is.
\<close>

definition json_format_string_with_len :: "nat \<Rightarrow> bytes \<Rightarrow> bool \<Rightarrow> bytes option" where
  "json_format_string_with_len buf_len src allow =
     (if buf_len = 0 then Some []
      else let s = json_format_bytes False allow (Some []) (buf_len - 1) src in
        if jo_ret s < 0 then None
        else Some (the (jo_dest s) @ (if jo_left s = 0 then [0] else [])))"

definition json_format_string :: "nat \<Rightarrow> bytes \<Rightarrow> nat \<Rightarrow> bool \<Rightarrow> bytes option" where
  "json_format_string buf_len src str_max_len allow =
     json_format_string_with_len buf_len (cstr (take str_max_len src)) allow"

section \<open>Specification\<close>

text \<open>The escaped form of a source: what the functions store when there is room.\<close>

definition json_esc_byte :: "bool \<Rightarrow> u8 \<Rightarrow> bytes option" where
  "json_esc_byte allow c =
     (case json_short_escape c of
        Some e \<Rightarrow> Some [0x5c, e]
      | None \<Rightarrow>
          if 0x20 \<le> c \<and> c < 0x80 then Some [c]
          else if allow then Some (json_u_escape c) else None)"

function json_escape :: "bool \<Rightarrow> bytes \<Rightarrow> bytes option" where
  "json_escape allow src =
     (if src = [] then Some []
      else let n = json_token src in
        case (if n = 1 then json_esc_byte allow (hd src) else Some (take n src)) of
          None \<Rightarrow> None
        | Some bs \<Rightarrow> map_option (\<lambda>out. bs @ out) (json_escape allow (drop n src)))"
  by auto
termination
  by (relation "measure (\<lambda>(allow, src). length src)") auto

declare json_escape.simps [simp del]

lemma short_escape_range: "json_short_escape c = Some e \<Longrightarrow> c < 0x20 \<or> c = 0x5c \<or> c = 0x22"
  by (auto simp: json_short_escape_def split: if_splits)

lemma not_short_range: "json_short_escape c = None \<Longrightarrow> c \<noteq> 0x5c \<and> c \<noteq> 0x22"
  by (auto simp: json_short_escape_def split: if_splits)

text \<open>One byte, by its escaped form.\<close>

lemma put_byte_null:
  assumes "jo_dest s = None"
  shows "json_put_byte lim allow c s =
    (case json_esc_byte allow c of None \<Rightarrow> (- 2, s) | Some bs \<Rightarrow> (int (length bs), s))"
  using assms short_escape_range [of c] not_short_range [of c]
  by (auto simp: json_put_byte_def json_esc_byte_def json_u_escape_def not_less not_le split: option.splits)

lemma put_byte_room:
  assumes "jo_dest s = Some d" "jo_left s > 0"
    "\<forall>bs. json_esc_byte allow c = Some bs \<longrightarrow> length bs < jo_left s"
  shows "json_put_byte lim allow c s =
    (case json_esc_byte allow c of None \<Rightarrow> (- 2, s) | Some bs \<Rightarrow> (int (length bs), json_store bs s))"
proof (cases "json_short_escape c")
  case None
  with assms not_short_range [of c] show ?thesis
    by (cases "0x20 \<le> c \<and> c < 0x80")
      (auto simp: json_put_byte_def json_esc_byte_def json_u_escape_def not_less not_le)
next
  case (Some e)
  with assms short_escape_range [of c e] show ?thesis
    by (auto simp: json_put_byte_def json_esc_byte_def)
qed

text \<open>With room for the whole escaped text, the loop is the specification.\<close>

definition json_room :: "json_out \<Rightarrow> nat \<Rightarrow> bool" where
  "json_room s n \<longleftrightarrow> jo_dest s = None \<or> n < jo_left s"

lemma token_le: "src \<noteq> [] \<Longrightarrow> json_token src \<le> length src"
  by (cases src) (auto simp: json_token_def utf8_decode_def split: option.splits sum.splits if_splits)

definition json_step :: "bytes \<Rightarrow> nat \<Rightarrow> json_out \<Rightarrow> json_out" where
  "json_step bs n s = (if jo_dest s \<noteq> None then json_store bs s else s)
    \<lparr>jo_ret := jo_ret s + int (length bs), jo_consumed := jo_consumed s + n\<rparr>"

lemma json_step_fields [simp]:
  "jo_ret (json_step bs n s) = jo_ret s + int (length bs)"
  "jo_dest (json_step bs n s) = map_option (\<lambda>d. d @ bs) (jo_dest s)"
  "jo_left (json_step bs n s) = (if jo_dest s = None then jo_left s else jo_left s - length bs)"
  "jo_consumed (json_step bs n s) = jo_consumed s + n"
  "jo_limit (json_step bs n s) = jo_limit s"
  by (auto simp: json_step_def json_store_def)

lemma put_byte_escaped:
  assumes "json_esc_byte allow c = Some bs" "json_room s (length bs)"
  shows "json_put_byte lim allow c s = (int (length bs), if jo_dest s \<noteq> None then json_store bs s else s)"
proof (cases "jo_dest s")
  case None
  then show ?thesis using assms(1) by (simp add: put_byte_null)
next
  case (Some d)
  then have "length bs < jo_left s" using assms(2) by (simp add: json_room_def)
  with Some assms(1) show ?thesis by (subst put_byte_room) auto
qed

lemma loop_step:
  assumes "src \<noteq> []" "json_room s (length bs)" "\<not> jo_limit s"
    "(if json_token src = 1 then json_esc_byte allow (hd src) else Some (take (json_token src) src)) = Some bs"
  shows "json_loop lim allow src s = json_loop lim allow (drop (json_token src) src) (json_step bs (json_token src) s)"
proof (cases "json_token src = 1")
  case True
  with assms(4) have e: "json_esc_byte allow (hd src) = Some bs" by simp
  note put_byte_escaped [OF e assms(2), of lim]
  with True assms(1,2,3) show ?thesis
    by (subst json_loop.simps) (auto simp: json_room_def json_step_def json_store_def)
next
  case False
  with assms(4) have bs: "bs = take (json_token src) src" by simp
  then have "length bs = json_token src" using token_le [OF assms(1)] by simp
  with False assms(1,2) bs show ?thesis
    by (subst json_loop.simps) (auto simp: json_room_def json_step_def Let_def)
qed

lemma escape_step:
  assumes "json_escape allow src = Some out" "src \<noteq> []"
  obtains bs out' where
    "(if json_token src = 1 then json_esc_byte allow (hd src) else Some (take (json_token src) src)) = Some bs"
    "json_escape allow (drop (json_token src) src) = Some out'" "out = bs @ out'"
  using assms(1) by (subst (asm) json_escape.simps) (use assms(2) in \<open>auto simp: Let_def split: option.splits\<close>)

lemma loop_escape:
  assumes "json_escape allow src = Some out" "json_room s (length out)" "\<not> jo_limit s"
  shows "json_loop lim allow src s = Inr
    \<lparr>jo_ret = jo_ret s + int (length out), jo_dest = map_option (\<lambda>d. d @ out) (jo_dest s),
     jo_left = (if jo_dest s = None then jo_left s else jo_left s - length out),
     jo_consumed = jo_consumed s + length src, jo_limit = False\<rparr>"
  using assms
proof (induction "length src" arbitrary: src s out rule: less_induct)
  case less
  show ?case
  proof (cases "src = []")
    case True
    with less.prems show ?thesis
      by (cases s) (simp add: json_escape.simps [of _ "[]"] json_loop.simps [of _ _ "[]"] option.map_ident)
  next
    case False
    let ?n = "json_token src"
    obtain bs out' where
      bs: "(if ?n = 1 then json_esc_byte allow (hd src) else Some (take ?n src)) = Some bs" and
      out': "json_escape allow (drop ?n src) = Some out'" and out: "out = bs @ out'"
      using less.prems(1) False by (rule escape_step)
    have r: "json_room s (length bs)" "json_room (json_step bs ?n s) (length out')"
      using less.prems(2) out by (auto simp: json_room_def)
    have n: "?n \<le> length src" "length (drop ?n src) < length src"
      using token_le [OF False] False by simp_all
    from less.hyps [OF n(2) out' r(2)] less.prems(3)
    show ?thesis unfolding loop_step [OF False r(1) less.prems(3) bs]
      using n(1) by (auto simp: out option.map_comp comp_def)
  qed
qed

lemma loop_refused:
  assumes "json_escape allow src = None" "jo_dest s = None" "\<not> jo_limit s"
  shows "\<exists>s'. json_loop lim allow src s = Inl s' \<and> jo_ret s' = - 2 \<and> jo_dest s' = None"
  using assms
proof (induction "length src" arbitrary: src s rule: less_induct)
  case less
  let ?n = "json_token src"
  have ne: "src \<noteq> []" using less.prems(1) by (auto simp: json_escape.simps)
  show ?case
  proof (cases "if ?n = 1 then json_esc_byte allow (hd src) else Some (take ?n src)")
    case None
    then have n: "?n = 1" "json_esc_byte allow (hd src) = None" by (auto split: if_splits)
    then show ?thesis
      using less.prems ne by (subst json_loop.simps) (simp add: put_byte_null)
  next
    case (Some bs)
    then have e: "json_escape allow (drop ?n src) = None"
      using less.prems(1) ne by (subst (asm) json_escape.simps) (auto simp: Let_def split: option.splits)
    have r: "json_room s (length bs)" using less.prems(2) by (simp add: json_room_def)
    have "length (drop ?n src) < length src" using ne by simp
    from less.hyps [OF this e] less.prems(2,3) show ?thesis
      unfolding loop_step [OF ne r less.prems(3) Some] by simp
  qed
qed

section \<open>Size and contents\<close>

text \<open>
  json_format_bytes with a null buffer computes the size of the escaped form, and refuses with -2
  exactly the sources that have none; with a buffer larger than the escaped form it stores it with a
  terminator, returns its length, consumes the source and does not report the limit.
\<close>

theorem json_format_bytes_correct:
  "jo_ret (json_format_bytes lim allow None 0 src) =
     (case json_escape allow src of None \<Rightarrow> - 2 | Some out \<Rightarrow> int (length out)) \<and>
   (json_escape allow src = Some out \<longrightarrow> length out < buf_len \<longrightarrow>
     json_format_bytes lim allow (Some []) buf_len src =
       \<lparr>jo_ret = int (length out), jo_dest = Some (out @ [0]), jo_left = buf_len - length out - 1,
        jo_consumed = length src, jo_limit = False\<rparr>)"
proof (intro conjI impI)
  let ?s = "\<lparr>jo_ret = 0, jo_dest = None, jo_left = 0, jo_consumed = 0, jo_limit = False\<rparr>"
  show "jo_ret (json_format_bytes lim allow None 0 src) =
     (case json_escape allow src of None \<Rightarrow> - 2 | Some out \<Rightarrow> int (length out))"
  proof (cases "json_escape allow src")
    case None
    from loop_refused [OF this, of ?s lim] show ?thesis by (auto simp: json_format_bytes_def None)
  next
    case (Some out)
    from loop_escape [OF this, of ?s lim] show ?thesis by (simp add: json_format_bytes_def json_room_def Some)
  qed
next
  assume "json_escape allow src = Some out" "length out < buf_len"
  then show "json_format_bytes lim allow (Some []) buf_len src =
       \<lparr>jo_ret = int (length out), jo_dest = Some (out @ [0]), jo_left = buf_len - length out - 1,
        jo_consumed = length src, jo_limit = False\<rparr>"
    by (simp add: json_format_bytes_def loop_escape json_room_def json_store_def)
qed

text \<open>A quote, a letter and a control character.\<close>

theorem json_format_bytes_correct_witness:
  "json_format_bytes True True (Some []) 10 [0x22, 0x61, 0x01] =
     \<lparr>jo_ret = 9, jo_dest = Some ([0x5c, 0x22, 0x61, 0x5c, 0x75, 0x30, 0x30, 0x30, 0x31] @ [0]), jo_left = 0,
      jo_consumed = 3, jo_limit = False\<rparr>"
proof -
  have "json_escape True [0x22, 0x61, 0x01] = Some [0x5c, 0x22, 0x61, 0x5c, 0x75, 0x30, 0x30, 0x30, 0x31]"
    by code_simp
  with json_format_bytes_correct [of True True "[0x22, 0x61, 0x01]" "[0x5c, 0x22, 0x61, 0x5c, 0x75, 0x30, 0x30, 0x30, 0x31]" 10]
  show ?thesis by simp
qed

section \<open>Bounds\<close>

text \<open>The bytes stored and the room left add up to the size of the buffer, on every path.\<close>

definition json_fits :: "nat \<Rightarrow> json_out \<Rightarrow> bool" where
  "json_fits n s \<longleftrightarrow> (\<exists>d. jo_dest s = Some d \<and> length d + jo_left s = n)"

lemma json_fits_store: "json_fits n s \<Longrightarrow> length bs \<le> jo_left s \<Longrightarrow> json_fits n (json_store bs s)"
  by (auto simp: json_fits_def json_store_def)

lemma json_fits_fields [simp]:
  "json_fits n (s\<lparr>jo_ret := r\<rparr>) = json_fits n s" "json_fits n (s\<lparr>jo_consumed := k\<rparr>) = json_fits n s"
  "json_fits n (json_set_if_not_null lim s) = json_fits n s"
  by (simp_all add: json_fits_def json_set_if_not_null_def)

lemma json_fits_put:
  assumes "json_fits n s"
  shows "json_fits n (snd (json_put_byte lim allow c s))"
  using assms
  by (auto simp: json_put_byte_def json_u_escape_def split: option.splits intro!: json_fits_store)

lemma json_fits_loop:
  assumes "json_fits n s"
  shows "case json_loop lim allow src s of Inl s' \<Rightarrow> json_fits n s' | Inr s' \<Rightarrow> json_fits n s'"
  using assms
proof (induction lim allow src s rule: json_loop.induct)
  case (1 lim allow src s)
  show ?case
  proof (cases "src = [] \<or> jo_dest s \<noteq> None \<and> jo_left s = 0")
    case True
    with "1.prems" show ?thesis by (subst json_loop.simps) simp
  next
    case go: False
    show ?thesis
    proof (cases "json_token src = 1")
      case True
      obtain p s' where p: "json_put_byte lim allow (hd src) s = (p, s')" by fastforce
      have f: "json_fits n s'" using json_fits_put [OF "1.prems", of lim allow "hd src"] p by simp
      with go True p "1.IH"(1) [OF go refl True p [symmetric] refl] show ?thesis
        by (subst json_loop.simps) auto
    next
      case False
      have len: "length (take (json_token src) src) = json_token src"
        using go token_le [of src] by simp
      have f: "json_fits n ((if jo_dest s \<noteq> None then json_store (take (json_token src) src) s else s)
          \<lparr>jo_ret := r, jo_consumed := k\<rparr>)" if "\<not> (jo_dest s \<noteq> None \<and> jo_left s < json_token src)" for r k
        using that "1.prems" json_fits_store [OF "1.prems", of "take (json_token src) src"] len by auto
      show ?thesis
      proof (cases "jo_dest s \<noteq> None \<and> jo_left s < json_token src")
        case True
        with go False "1.prems" show ?thesis by (subst json_loop.simps) (simp add: Let_def)
      next
        case room: False
        with go False "1.prems" "1.IH"(2) [OF go refl False room f [OF room]] show ?thesis
          by (subst json_loop.simps) (simp add: Let_def)
      qed
    qed
  qed
qed

text \<open>
  Whatever the source and the size of the buffer, json_format_bytes stores at most buf_len bytes,
  the terminator included, so it never writes outside the buffer.
\<close>

theorem json_format_bytes_bound:
  "\<exists>d. jo_dest (json_format_bytes lim allow (Some []) buf_len src) = Some d \<and> length d \<le> buf_len"
proof -
  let ?s = "\<lparr>jo_ret = 0, jo_dest = Some [], jo_left = buf_len, jo_consumed = 0, jo_limit = False\<rparr>"
  have "json_fits buf_len ?s" by (simp add: json_fits_def)
  from json_fits_loop [OF this, of lim allow src]
  have "json_fits buf_len (json_format_bytes lim allow (Some []) buf_len src)"
    by (auto simp: json_format_bytes_def json_fits_store split: sum.splits)
  then show ?thesis by (auto simp: json_fits_def)
qed

lemma token_ascii: "c < 0x80 \<Longrightarrow> json_token (c # src) = 1"
  by (auto simp: json_token_def utf8_decode_def utf8_first_def)

lemma put_skip:
  assumes "json_short_escape c = Some e" "jo_dest s = Some d" "jo_left s = 1"
  shows "json_put_byte lim allow c s = (0, json_set_if_not_null lim s)"
  using assms short_escape_range [OF assms(1)] by (auto simp: json_put_byte_def)

lemma put_plain:
  assumes "0x20 \<le> d" "d < 0x80" "d \<noteq> 0x5c" "d \<noteq> 0x22" "jo_dest s = Some w" "0 < jo_left s"
  shows "json_put_byte lim allow d s = (1, json_store [d] s)"
proof -
  have "\<not> (d < 0x20 \<or> d = 0x5c \<or> d = 0x22 \<or> d \<ge> 0x80)" using assms(1-4) by (simp add: not_le not_less)
  with assms(5,6) show ?thesis unfolding json_put_byte_def by (simp only:) simp
qed

text \<open>A control character at the end of the room: the last digit of its escape is lost.\<close>

lemma json_u_escape_cut:
  assumes "json_short_escape c = None" "c < 0x20"
  shows "jo_dest (json_format_bytes lim True (Some []) 6 [c]) = Some (take 5 (json_u_escape c) @ [0])"
    "jo_ret (json_format_bytes lim True (Some []) 6 [c]) = 6"
proof -
  have c: "c < 0x80" using assms(2) by (simp add: word_less_nat_alt)
  note token_ascii [OF c, of "[]"]
  with assms show "jo_dest (json_format_bytes lim True (Some []) 6 [c]) = Some (take 5 (json_u_escape c) @ [0])"
    "jo_ret (json_format_bytes lim True (Some []) 6 [c]) = 6"
    by (simp_all add: json_format_bytes_def json_loop.simps [of _ _ "[c]"] json_loop.simps [of _ _ "[]"]
      json_put_byte_def json_store_def json_set_if_not_null_def json_u_escape_def)
qed

text \<open>
  When the caller passes no place for the limit flag (as json_format_string does), an escape that
  no longer fits is skipped and the loop goes on: a byte after it is stored in its place, so that the
  truncated text is not a prefix of the escaped text.
\<close>

theorem json_format_bytes_skips:
  assumes "json_short_escape c = Some e" "0x20 \<le> d" "d < 0x80" "d \<noteq> 0x5c" "d \<noteq> 0x22"
  shows "jo_dest (json_format_bytes False allow (Some []) 1 (c # d # src)) = Some [d]"
proof -
  have c: "c < 0x80"
    using short_escape_range [OF assms(1)] by (auto simp: word_less_nat_alt)
  have s1: "json_loop False allow (c # d # src) s = json_loop False allow (d # src) (s\<lparr>jo_ret := jo_ret s, jo_consumed := jo_consumed s + 1\<rparr>)"
    if "jo_dest s = Some w" "jo_left s = 1" "\<not> jo_limit s" for s :: json_out and w
    using that token_ascii [OF c, of "d # src"] put_skip [OF assms(1) that(1,2)]
    by (subst json_loop.simps) (simp add: json_set_if_not_null_def)
  have s2: "json_loop False allow (d # src) s = Inr ((json_store [d] s)\<lparr>jo_ret := jo_ret s + 1, jo_consumed := jo_consumed s + 1\<rparr>)"
    if "jo_dest s = Some w" "jo_left s = 1" "\<not> jo_limit s" for s :: json_out and w
    using that token_ascii [OF assms(3), of src] put_plain [OF assms(2-5) that(1)]
    by (subst json_loop.simps) (simp add: json_loop.simps [of _ _ src] json_store_def)
  show ?thesis
    by (simp add: json_format_bytes_def s1 s2 json_store_def json_set_if_not_null_def)
qed

text \<open>A newline and a letter with one byte of room: the letter is stored.\<close>

theorem json_format_bytes_skips_witness:
  "jo_dest (json_format_bytes False True (Some []) 1 [0x0a, 0x61]) = Some [0x61]"
  using json_format_bytes_skips [of "0x0a" "0x6e" "0x61" True "[]"] by (simp add: json_short_escape_def)

section \<open>The escaped form is a JSON string\<close>

text \<open>
  The reading of a JSON string body (without its quotes) as RFC 8259 has it, with the escapes the
  formatter uses; \<^verbatim>\<open>\u00XX\<close> stands for the byte it was made from.
\<close>

definition json_unhex :: "u8 \<Rightarrow> nat option" where
  "json_unhex c =
     (if 0x30 \<le> c \<and> c \<le> 0x39 then Some (unat c - 48)
      else if 0x61 \<le> c \<and> c \<le> 0x66 then Some (unat c - 87) else None)"

definition json_unshort :: "u8 \<Rightarrow> u8 option" where
  "json_unshort e =
     (if e = 0x6e then Some 0x0a else if e = 0x72 then Some 0x0d else if e = 0x74 then Some 0x09
      else if e = 0x5c \<or> e = 0x22 then Some e else None)"

definition json_unu :: "u8 \<Rightarrow> u8 \<Rightarrow> u8 \<Rightarrow> u8 \<Rightarrow> u8 option" where
  "json_unu a b h l =
     (if a = 0x30 \<and> b = 0x30 then
        (case (json_unhex h, json_unhex l) of
           (Some x, Some y) \<Rightarrow> Some (word_of_nat (16 * x + y)) | _ \<Rightarrow> None)
      else None)"

fun json_unescape :: "bytes \<Rightarrow> bytes option" where
  "json_unescape [] = Some []"
| "json_unescape (c # cs) =
     (if c \<noteq> 0x5c then
        (if c < 0x20 \<or> c = 0x22 then None else map_option (\<lambda>r. c # r) (json_unescape cs))
      else (case cs of
              a # e # h # l # m # r \<Rightarrow>
                if a = 0x75 then
                  (case json_unu e h l m of None \<Rightarrow> None | Some b \<Rightarrow> map_option (\<lambda>w. b # w) (json_unescape r))
                else (case json_unshort a of None \<Rightarrow> None
                        | Some b \<Rightarrow> map_option (\<lambda>w. b # w) (json_unescape (e # h # l # m # r)))
            | a # r \<Rightarrow>
                (case json_unshort a of None \<Rightarrow> None | Some b \<Rightarrow> map_option (\<lambda>w. b # w) (json_unescape r))
            | [] \<Rightarrow> None))"

lemma unescape_letter:
  "a \<noteq> 0x75 \<Longrightarrow> json_unescape (0x5c # a # r) =
    (case json_unshort a of None \<Rightarrow> None | Some b \<Rightarrow> map_option (\<lambda>w. b # w) (json_unescape r))"
  by (simp split: list.split del: json_unescape.simps(1)) (simp split: option.split)

lemma unescape_short:
  assumes "json_unshort e = Some c"
  shows "json_unescape (0x5c # e # r) = map_option (\<lambda>w. c # w) (json_unescape r)"
proof -
  have "e \<noteq> 0x75" using assms by (auto simp: json_unshort_def split: if_splits)
  from unescape_letter [OF this] assms show ?thesis by (simp only: option.case)
qed

lemma short_inv: "json_short_escape c = Some e \<Longrightarrow> json_unshort e = Some c"
  by (auto simp: json_short_escape_def json_unshort_def split: if_splits)

lemma unhex_all: "\<forall>n \<in> set [0..<16]. json_unhex (hex_digit n) = Some n"
  by code_simp

lemma unhex_digit: "n < 16 \<Longrightarrow> json_unhex (hex_digit n) = Some n"
  using unhex_all by simp

lemma unu_all: "json_unu 0x30 0x30 (hex_digit (unat c div 16)) (hex_digit (unat c mod 16)) = Some c"
proof -
  have "unat c div 16 < 16"
    using unat_u8_bounds(1) [of c] unfolding less_mult_imp_div_less by (intro less_mult_imp_div_less) simp
  then show ?thesis by (simp add: json_unu_def unhex_digit del: word_of_nat_eq_iff)
qed

lemma unescape_u: "json_unescape (json_u_escape c @ r) = map_option (\<lambda>w. c # w) (json_unescape r)"
  by (simp add: json_u_escape_def unu_all)

lemma unescape_byte:
  assumes "json_esc_byte allow c = Some bs"
  shows "json_unescape (bs @ r) = map_option (\<lambda>w. c # w) (json_unescape r)"
proof (cases "json_short_escape c")
  case None
  with assms not_short_range [OF None] show ?thesis
    by (auto simp: json_esc_byte_def unescape_u split: if_splits)
next
  case (Some e)
  with assms have "bs = [0x5c, e]" by (simp add: json_esc_byte_def)
  with unescape_short [OF short_inv [OF Some], of r] show ?thesis by (simp only: append_Cons append_Nil)
qed

lemma unescape_high:
  "list_all (\<lambda>c. 0x80 \<le> c) bs \<Longrightarrow> json_unescape (bs @ r) = map_option (\<lambda>w. bs @ w) (json_unescape r)"
proof (induction bs)
  case (Cons c bs)
  have "c \<noteq> 0x5c" "\<not> c < 0x20" "c \<noteq> 0x22" using Cons.prems by (auto simp: word_less_nat_alt word_le_nat_alt)
  with Cons show ?case by (simp add: option.map_comp comp_def)
qed (simp add: append_Nil [abs_def] option.map_ident)

lemma rest_high: "utf8_rest n src r = Some v \<Longrightarrow> list_all (\<lambda>c. 0x80 \<le> c) (take n src)"
proof (induction n src r rule: utf8_rest.induct)
  case (3 n c src r)
  have "c AND 0xc0 = 0x80 \<longrightarrow> 0x80 \<le> c" by (rule u8_all_cases) code_simp
  with 3 show ?case by (auto split: if_splits)
qed simp_all

lemma token_high:
  assumes "src \<noteq> []" "json_token src \<noteq> 1"
  shows "list_all (\<lambda>c. 0x80 \<le> c) (take (json_token src) src)"
proof (cases src)
  case (Cons c cs)
  with assms obtain n r v where u: "utf8_first c = Some (n, r)" "utf8_rest (n - 1) cs r = Some v"
    "json_token src = n" "n \<noteq> 1" "0 < n"
    by (auto simp: json_token_def utf8_decode_def split: option.splits if_splits sum.splits)
  then have "0x80 \<le> c" by (auto simp: utf8_first_def not_less split: if_splits)
  with rest_high [OF u(2)] u(3,5) Cons show ?thesis by (cases n) auto
qed (use assms in simp)

text \<open>
  The escaped form that json_format_bytes produces is a well-formed JSON string body, and a JSON
  reader gets the source bytes back from it.
\<close>

theorem json_escape_roundtrip:
  assumes "json_escape allow src = Some out"
  shows "jo_dest (json_format_bytes lim allow (Some []) (length out + 1) src) = Some (out @ [0]) \<and>
    json_unescape out = Some src"
proof -
  have "json_unescape out = Some src"
    using assms
  proof (induction "length src" arbitrary: src out rule: less_induct)
    case less
    show ?case
    proof (cases "src = []")
      case True
      with less.prems show ?thesis by (simp add: json_escape.simps)
    next
      case False
      let ?n = "json_token src"
      obtain bs out' where
        bs: "(if ?n = 1 then json_esc_byte allow (hd src) else Some (take ?n src)) = Some bs" and
        out': "json_escape allow (drop ?n src) = Some out'" and out: "out = bs @ out'"
        using less.prems(1) False by (rule escape_step)
      have "length (drop ?n src) < length src" using False by simp
      from less.hyps [OF this out'] have IH: "json_unescape out' = Some (drop ?n src)" .
      show ?thesis
      proof (cases "?n = 1")
        case True
        with bs unescape_byte [of allow "hd src" bs out'] IH False show ?thesis
          by (cases src) (simp_all add: out)
      next
        case n: False
        with bs unescape_high [OF token_high [OF False n], of out'] IH show ?thesis by (simp add: out) (metis append_take_drop_id)
      qed
    qed
  qed
  moreover have "jo_dest (json_format_bytes lim allow (Some []) (length out + 1) src) = Some (out @ [0])"
    using assms by (simp add: json_format_bytes_def loop_escape json_room_def json_store_def)
  ultimately show ?thesis by simp
qed

text \<open>A quote followed by a two-byte character.\<close>

theorem json_escape_roundtrip_witness:
  "jo_dest (json_format_bytes True False (Some []) 5 [0x22, 0xc3, 0xa9]) = Some ([0x5c, 0x22, 0xc3, 0xa9] @ [0]) \<and>
    json_unescape [0x5c, 0x22, 0xc3, 0xa9] = Some [0x22, 0xc3, 0xa9]"
proof -
  have "json_escape False [0x22, 0xc3, 0xa9] = Some [0x5c, 0x22, 0xc3, 0xa9]" by code_simp
  from json_escape_roundtrip [OF this, of True] show ?thesis
    by (simp only: list.size add_Suc_right add_0_right numeral_eq_Suc pred_numeral_simps One_nat_def BitM.simps)
qed

end
