(* ===== verification/CString.thy ===== *)
theory CString
  imports Prelude
begin

text \<open>
  The functions of the C library that the string code calls: \<open>strtoul\<close> and its variants, in the C
  locale, and the caseless comparison.  A string is given without its terminator; the number of bytes
  that the conversion used stands for the pointer that it stores.
\<close>

section \<open>Numbers\<close>

definition c_isspace :: "u8 \<Rightarrow> bool" where
  "c_isspace c \<longleftrightarrow> c = 0x20 \<or> 0x09 \<le> c \<and> c \<le> 0x0d"

text \<open>The value of a digit or letter, in any base up to 36.\<close>

definition c_digit :: "nat \<Rightarrow> u8 \<Rightarrow> nat option" where
  "c_digit base c =
     (let v = (if 0x30 \<le> c \<and> c \<le> 0x39 then Some (unat c - 0x30)
               else if 0x61 \<le> c \<and> c \<le> 0x7a then Some (unat c - 0x57)
               else if 0x41 \<le> c \<and> c \<le> 0x5a then Some (unat c - 0x37) else None)
      in case v of None \<Rightarrow> None | Some d \<Rightarrow> if d < base then Some d else None)"

definition is_digit :: "nat \<Rightarrow> u8 \<Rightarrow> bool" where
  "is_digit base c \<longleftrightarrow> c_digit base c \<noteq> None"

definition digits_value :: "nat \<Rightarrow> bytes \<Rightarrow> nat" where
  "digits_value base ds = foldl (\<lambda>v c. v * base + the (c_digit base c)) 0 ds"

text \<open>White space, sign and prefix before the digits: a minus sign, and how many bytes.\<close>

definition c_sign :: "bytes \<Rightarrow> bool \<times> nat" where
  "c_sign s = (if cchar s 0 = 0x2d then (True, 1) else if cchar s 0 = 0x2b then (False, 1) else (False, 0))"

definition hex_prefix :: "bytes \<Rightarrow> nat" where
  "hex_prefix s =
     (if cchar s 0 = 0x30 \<and> (cchar s 1 = 0x78 \<or> cchar s 1 = 0x58) \<and> is_digit 16 (cchar s 2) then 2 else 0)"

text \<open>Sign, magnitude and number of bytes used (0 when there is no number).\<close>

definition c_number :: "nat \<Rightarrow> bytes \<Rightarrow> (bool \<times> nat) \<times> nat" where
  "c_number base s =
     (let ws = length (takeWhile c_isspace s);
          (neg, sg) = c_sign (drop ws s);
          pre = ws + sg;
          pre = pre + (if base = 16 then hex_prefix (drop pre s) else 0);
          ds = takeWhile (is_digit base) (drop pre s)
      in if ds = [] then ((False, 0), 0) else ((neg, digits_value base ds), pre + length ds))"

text \<open>\<open>strtoul\<close> for an \<^verbatim>\<open>unsigned long\<close> of 32 bits: saturation, and a minus sign negates modulo 2^32.\<close>

definition strtoul :: "nat \<Rightarrow> bytes \<Rightarrow> u32 \<times> nat" where
  "strtoul base s =
     (let ((neg, v), n) = c_number base s
      in (if v \<ge> 2 ^ 32 then MAX_U32 else if neg then - word_of_nat v else word_of_nat v, n))"

definition strtoull :: "nat \<Rightarrow> bytes \<Rightarrow> u64 \<times> nat" where
  "strtoull base s =
     (let ((neg, v), n) = c_number base s
      in (if v \<ge> 2 ^ 64 then - 1 else if neg then - word_of_nat v else word_of_nat v, n))"

definition strtol :: "nat \<Rightarrow> bytes \<Rightarrow> int \<times> nat" where
  "strtol base s =
     (let ((neg, v), n) = c_number base s
      in (if neg then (if v > 2 ^ 31 then - (2 ^ 31) else - int v)
          else (if v \<ge> 2 ^ 31 then 2 ^ 31 - 1 else int v), n))"

lemma digit_not_space_all:
  "\<forall>n \<in> set [0..<256]. is_digit 10 (word_of_nat n) \<longrightarrow>
    \<not> c_isspace (word_of_nat n) \<and> (word_of_nat n :: u8) \<notin> {0x2d, 0x2b, 0}"
  by code_simp

lemma digit_not_space: "is_digit 10 c \<Longrightarrow> \<not> c_isspace c \<and> c \<noteq> 0x2d \<and> c \<noteq> 0x2b \<and> c \<noteq> 0"
  using u8_all_cases [OF digit_not_space_all, of c] by simp

text \<open>A string that begins with decimal digits.\<close>

lemma c_number_decimal:
  assumes "ds \<noteq> []" "list_all (is_digit 10) ds" "rest = [] \<or> \<not> is_digit 10 (hd rest)"
  shows "c_number 10 (ds @ rest) = ((False, digits_value 10 ds), length ds)"
proof -
  obtain d ds' where ds: "ds = d # ds'" using assms(1) by (cases ds) auto
  then have d: "\<not> c_isspace d" "d \<noteq> 0x2d" "d \<noteq> 0x2b" using assms(2) digit_not_space [of d] by auto
  have t: "takeWhile (is_digit 10) (ds @ rest) = ds"
    using assms(2,3) by (cases rest) (auto simp: list_all_iff takeWhile_append2)
  from ds d have "takeWhile c_isspace (ds @ rest) = []" "c_sign (ds @ rest) = (False, 0)"
    by (simp_all add: c_sign_def)
  with t assms(1) show ?thesis by (simp add: c_number_def)
qed

lemma strtoul_decimal:
  assumes "ds \<noteq> []" "list_all (is_digit 10) ds" "rest = [] \<or> \<not> is_digit 10 (hd rest)" "digits_value 10 ds < 2 ^ 32"
  shows "strtoul 10 (ds @ rest) = (word_of_nat (digits_value 10 ds), length ds)"
  using assms(4) by (simp add: strtoul_def c_number_decimal [OF assms(1-3)])

lemma strtoul_none:
  "s = [] \<or> \<not> c_isspace (hd s) \<and> hd s \<noteq> 0x2d \<and> hd s \<noteq> 0x2b \<and> \<not> is_digit 10 (hd s) \<Longrightarrow> strtoul 10 s = (0, 0)"
  by (cases s) (auto simp: strtoul_def c_number_def c_sign_def is_digit_def c_digit_def cchar_def)

section \<open>Caseless comparison\<close>

definition c_tolower :: "u8 \<Rightarrow> u8" where
  "c_tolower c = (if 0x41 \<le> c \<and> c \<le> 0x5a then c + 0x20 else c)"

definition strcaseeq :: "bytes \<Rightarrow> bytes \<Rightarrow> bool" where
  "strcaseeq a b \<longleftrightarrow> map c_tolower a = map c_tolower b"

lemma strcaseeq_refl [simp]: "strcaseeq a a"
  by (simp add: strcaseeq_def)

section \<open>Strings in a buffer\<close>

text \<open>The string that a pointer to offset \<open>k\<close> of a character array denotes.\<close>

definition string_at :: "bytes \<Rightarrow> nat \<Rightarrow> bytes" where
  "string_at buf k = cstr (drop k buf)"

text \<open>Strings stored one after the other, each with its terminator, and where they begin.\<close>

definition packed :: "bytes list \<Rightarrow> bytes" where
  "packed strs = concat (map (\<lambda>t. t @ [0]) strs)"

fun offsets :: "nat \<Rightarrow> bytes list \<Rightarrow> nat list" where
  "offsets k [] = []"
| "offsets k (t # ts) = k # offsets (k + length t + 1) ts"

lemma packed_simps [simp]: "packed [] = []" "packed (t # ts) = t @ 0 # packed ts" "packed (ss @ ts) = packed ss @ packed ts"
  by (simp_all add: packed_def)

lemma offsets_append [simp]: "offsets k (ss @ ts) = offsets k ss @ offsets (k + length (packed ss)) ts"
  by (induction ss arbitrary: k) (simp_all add: add.assoc)

lemma length_offsets [simp]: "length (offsets k ts) = length ts"
  by (induction ts arbitrary: k) simp_all

lemma cstr_front: "0 \<notin> set t \<Longrightarrow> cstr (t @ 0 # r) = t"
  unfolding cstr_def by (induction t) auto

lemma strings_packed:
  assumes "list_all (\<lambda>t. 0 \<notin> set t) ts" "buf = pre @ packed ts @ post"
  shows "map (string_at buf) (offsets (length pre) ts) = ts"
  using assms
proof (induction ts arbitrary: pre)
  case (Cons t ts)
  have "string_at buf (length pre) = t"
    using Cons.prems by (simp add: string_at_def cstr_front)
  moreover have "map (string_at buf) (offsets (length (pre @ t @ [0])) ts) = ts"
    by (rule Cons.IH) (use Cons.prems in simp_all)
  ultimately show ?case by simp
qed simp

end
