(* ===== verification/Parse.thy ===== *)
theory Parse
  imports CString
begin

text \<open>
  The small parsers and formatters: \<^verbatim>\<open>parse_hex.c\<close>, \<^verbatim>\<open>parse_mac.c\<close>, \<^verbatim>\<open>format_mac.c\<close>,
  \<^verbatim>\<open>hostname_valid.c\<close>, \<^verbatim>\<open>format_string.c\<close>, \<^verbatim>\<open>parse_argv.c\<close>, the lookup tables of
  \<^verbatim>\<open>lookup_by_name.c\<close> and \<^verbatim>\<open>lookup_by_val.c\<close>, and the command dispatch of \<^verbatim>\<open>cmd_handle.c\<close>.  A
  \<^verbatim>\<open>char\<close> is unsigned, as on ARM.  Strings that are edited in place are buffers without their
  terminator; positions are offsets, and the byte after the end reads as NUL.
\<close>

unbundle bit_operations_syntax

section \<open>Hexadecimal\<close>

definition hex_char :: "u8 \<Rightarrow> u8 option" where
  "hex_char c =
     (if 0x30 \<le> c \<and> c \<le> 0x39 then Some (c - 0x30)
      else if 0x61 \<le> c \<and> c \<le> 0x66 then Some (c + (10 - 0x61))
      else if 0x41 \<le> c \<and> c \<le> 0x46 then Some (c + (10 - 0x41))
      else None)"

text \<open>The result is the value returned and the bytes stored, which an error leaves in the buffer.\<close>

fun hex_loop :: "nat \<Rightarrow> bytes \<Rightarrow> nat \<Rightarrow> nat \<Rightarrow> u8 \<Rightarrow> bytes \<Rightarrow> int \<times> bytes" where
  "hex_loop len [] hex_len i byte dest = (if odd i then - 1 else int (length dest), dest)"
| "hex_loop len (c # cs) hex_len i byte dest =
     (if c = 0 \<or> hex_len = 0 then (if odd i then - 1 else int (length dest), dest)
      else (case hex_char c of
          None \<Rightarrow> (- 1, dest)
        | Some d \<Rightarrow>
            let byte = push_bit 4 byte OR d in
            if odd i then
              if length dest \<ge> len then (- 1, dest)
              else hex_loop len cs (hex_len - 1) (i + 1) 0 (dest @ [byte])
            else hex_loop len cs (hex_len - 1) (i + 1) byte dest))"

definition parse_hex :: "nat \<Rightarrow> bytes \<Rightarrow> nat \<Rightarrow> int \<times> bytes" where
  "parse_hex len hex hex_len = hex_loop len hex hex_len 0 0 []"

section \<open>MAC addresses\<close>

definition hex_lower :: "u8 \<Rightarrow> u8" where
  "hex_lower d = (if d < 10 then 0x30 + d else 0x61 + (d - 10))"

text \<open>\<^verbatim>\<open>snprintf(buf, buf_len, ...)\<close> with the result in \<open>text\<close>: truncated, with a NUL if there is room for one.\<close>

definition snprintf_bytes :: "nat \<Rightarrow> bytes \<Rightarrow> bytes" where
  "snprintf_bytes buf_len t = (if buf_len = 0 then [] else take (buf_len - 1) t @ [0])"

definition hex2 :: "u8 \<Rightarrow> bytes" where
  "hex2 b = [hex_lower (drop_bit 4 b), hex_lower (b AND 0xf)]"

definition format_mac :: "bytes \<Rightarrow> nat \<Rightarrow> bytes" where
  "format_mac mac buf_len =
     snprintf_bytes buf_len
       (hex2 (mac ! 0) @ 0x3a # hex2 (mac ! 1) @ 0x3a # hex2 (mac ! 2) @ 0x3a #
        hex2 (mac ! 3) @ 0x3a # hex2 (mac ! 4) @ 0x3a # hex2 (mac ! 5))"

text \<open>The bytes after the first: \<open>k\<close> are left, \<open>s\<close> is what \<^verbatim>\<open>endptr\<close> points to.\<close>

fun mac_loop :: "nat \<Rightarrow> u64 \<Rightarrow> bytes \<Rightarrow> (u64 \<times> bytes) option" where
  "mac_loop 0 addr s = Some (addr, s)"
| "mac_loop (Suc k) addr s =
     (let colon = cchar s 0 = 0x25 \<and> cchar s 1 = 0x33 \<and> (cchar s 2 = 0x41 \<or> cchar s 2 = 0x61) in
      if \<not> colon \<and> cchar s 0 \<noteq> 0x3a then None
      else
        let cp = drop (if colon then 3 else 1) s;
            (byte, n) = strtoull 16 cp
        in if byte > 0xff \<or> n > 2 then None else mac_loop k (push_bit 8 addr OR byte) (drop n cp))"

fun mac_bytes :: "nat \<Rightarrow> u64 \<Rightarrow> bytes" where
  "mac_bytes 0 addr = []"
| "mac_bytes (Suc k) addr = mac_bytes k (drop_bit 8 addr) @ [ucast addr]"

definition parse_mac :: "bytes \<Rightarrow> bytes option" where
  "parse_mac arg =
     (let (addr, n) = strtoull 16 arg; s = drop n arg in
      if n > 12 then None
      else
        (case (if (cchar s 0 = 0x3a \<or> cchar s 0 = 0x25) \<and> addr \<le> 0xff then mac_loop 5 addr s else Some (addr, s)) of
           None \<Rightarrow> None
         | Some (addr, s) \<Rightarrow>
             if cchar s 0 \<noteq> 0 \<or> addr > push_bit 48 1 then None else Some (mac_bytes 6 addr)))"

section \<open>Strings\<close>

definition c_isalnum :: "u8 \<Rightarrow> bool" where
  "c_isalnum c \<longleftrightarrow> 0x30 \<le> c \<and> c \<le> 0x39 \<or> 0x41 \<le> c \<and> c \<le> 0x5a \<or> 0x61 \<le> c \<and> c \<le> 0x7a"

definition hostname_valid :: "bytes \<Rightarrow> bool" where
  "hostname_valid src \<longleftrightarrow> cchar src 0 \<noteq> 0x2d \<and> list_all (\<lambda>c. c_isalnum c \<or> c = 0x2d) src"

fun format_string :: "nat \<Rightarrow> bytes \<Rightarrow> bytes" where
  "format_string rlen [] = [0]"
| "format_string rlen (c # buf) =
     (if rlen > 1 then (if c < 0x20 then 0x2e else c) # format_string (rlen - 1) buf else [0])"

type_synonym name_val = "(bytes \<times> int) list"

text \<open>A table ends with an entry that has no name, whose value is \<open>final\<close>.\<close>

fun lookup_by_name :: "name_val \<Rightarrow> int \<Rightarrow> bytes \<Rightarrow> int" where
  "lookup_by_name [] final name = final"
| "lookup_by_name ((n, v) # table) final name = (if strcaseeq n name then v else lookup_by_name table final name)"

fun lookup_by_val :: "name_val \<Rightarrow> int \<Rightarrow> bytes option" where
  "lookup_by_val [] val = None"
| "lookup_by_val ((n, v) # table) val = (if v = val then Some n else lookup_by_val table val)"

section \<open>Arguments\<close>

definition blank :: "u8 \<Rightarrow> bool" where
  "blank c \<longleftrightarrow> c = 0x20 \<or> c = 0x09"

definition quote_char :: "u8 \<Rightarrow> bool" where
  "quote_char c \<longleftrightarrow> c = 0x27 \<or> c = 0x22"

definition skip_blanks :: "bytes \<Rightarrow> nat \<Rightarrow> nat" where
  "skip_blanks buf cp = cp + length (takeWhile blank (drop cp buf))"

lemma cchar_end: "cchar buf cp \<noteq> 0 \<Longrightarrow> cp < length buf"
  by (auto simp: cchar_def split: if_splits)

text \<open>The copy loop: the buffer, where it stopped, and where the argument ends.\<close>

function arg_loop :: "bytes \<Rightarrow> nat \<Rightarrow> nat \<Rightarrow> u8 \<Rightarrow> bytes \<times> nat \<times> nat" where
  "arg_loop buf cp dest quote =
     (let c = cchar buf cp in
      if c = 0 then (buf, cp, dest)
      else if quote \<noteq> 0 then
        if c = quote then arg_loop buf (cp + 1) dest 0
        else arg_loop (buf[dest := c]) (cp + 1) (dest + 1) quote
      else if quote_char c then arg_loop buf (cp + 1) dest c
      else if blank c then (buf, cp, dest)
      else arg_loop (buf[dest := c]) (cp + 1) (dest + 1) 0)"
  by pat_completeness auto
termination by (relation "measure (\<lambda>(buf, cp, _). length buf - cp)") (auto dest: cchar_end)

declare arg_loop.simps [simp del]

function argv_loop :: "nat \<Rightarrow> nat list \<Rightarrow> bytes \<Rightarrow> nat \<Rightarrow> nat list \<times> bytes" where
  "argv_loop argv_len argv buf cp =
     (if length argv < argv_len \<and> cchar buf cp \<noteq> 0 then
        let cp = skip_blanks buf cp in
        if cchar buf cp = 0 then (argv, buf)
        else
          let (buf', cp', dest) = arg_loop buf cp cp 0;
              c = cchar buf' cp';
              buf' = buf'[dest := 0]
          in if c = 0 then (argv @ [cp], buf') else argv_loop argv_len (argv @ [cp]) buf' (cp' + 1)
      else (argv, buf))"
  by pat_completeness auto
termination by (relation "measure (\<lambda>(argv_len, argv, _). argv_len - length argv)") auto

declare argv_loop.simps [simp del]

text \<open>\<open>argc\<close>, the offsets in \<open>argv\<close> (followed by a null pointer if there is room), and the buffer.\<close>

definition parse_argv :: "nat \<Rightarrow> bytes \<Rightarrow> nat \<times> nat option list \<times> bytes" where
  "parse_argv argv_len buf =
     (let (argv, buf) = argv_loop argv_len [] buf 0 in
      (length argv, map Some argv @ (if length argv < argv_len then [None] else []), buf))"

text \<open>
  Commands: a table of names, and the handler that is called, by its index.  When no name matches,
  the loop ends at the entry without a name, and the handler of that entry is called.
\<close>

definition CMD_ARGV_LIMIT :: nat where "CMD_ARGV_LIMIT = 20"

fun cmd_find :: "bytes list \<Rightarrow> nat \<Rightarrow> bytes \<Rightarrow> nat" where
  "cmd_find [] i name = i"
| "cmd_find (n # cmds) i name = (if n = name then i else cmd_find cmds (i + 1) name)"

definition cmd_handle_argv :: "bytes list \<Rightarrow> bytes list \<Rightarrow> (nat \<times> bytes list) option" where
  "cmd_handle_argv cmds argv = (if argv \<noteq> [] then Some (cmd_find cmds 0 (argv ! 0), argv) else None)"

definition cmd_handle :: "bytes list \<Rightarrow> bytes \<Rightarrow> int \<times> (nat \<times> bytes list) option" where
  "cmd_handle cmds buf =
     (let (argc, argv, buf) = parse_argv CMD_ARGV_LIMIT buf in
      if argc \<ge> CMD_ARGV_LIMIT - 1 then (- 1, None)
      else (0, cmd_handle_argv cmds (map (\<lambda>p. string_at buf (the p)) (take argc argv))))"

section \<open>Hexadecimal strings\<close>

text \<open>The bytes that pairs of digits denote, and the part of the input that \<open>parse_hex\<close> reads.\<close>

fun hex_pairs :: "bytes \<Rightarrow> bytes" where
  "hex_pairs (a # b # t) = (push_bit 4 (the (hex_char a)) OR the (hex_char b)) # hex_pairs t"
| "hex_pairs t = []"

definition hex_input :: "bytes \<Rightarrow> nat \<Rightarrow> bytes" where
  "hex_input hex hex_len = cstr (take hex_len hex)"

definition hex_ok :: "bytes \<Rightarrow> bool" where
  "hex_ok t \<longleftrightarrow> list_all (\<lambda>c. hex_char c \<noteq> None) t \<and> even (length t)"

lemma length_hex_pairs: "length (hex_pairs t) = length t div 2"
  by (induction t rule: hex_pairs.induct) auto

lemma hex_input_simps [simp]:
  "hex_input [] n = []" "hex_input (c # cs) 0 = []"
  "hex_input (c # cs) (Suc n) = (if c = 0 then [] else c # hex_input cs n)"
  by (simp_all add: hex_input_def cstr_def)

lemma hex_input_single: "hex_input [a] n = (if a = 0 \<or> n = 0 then [] else [a])"
  by (cases n) simp_all

lemma hex_loop_correct:
  assumes "even i" "length dest \<le> len"
  shows "if hex_ok (hex_input hex n) \<and> length dest + length (hex_input hex n) div 2 \<le> len
    then hex_loop len hex n i 0 dest = (int (length dest + length (hex_input hex n) div 2), dest @ hex_pairs (hex_input hex n))
    else fst (hex_loop len hex n i 0 dest) = - 1"
  using assms
proof (induction hex arbitrary: n i dest rule: hex_pairs.induct)
  case (1 a b t)
  show ?case
  proof (cases "a = 0 \<or> n = 0 \<or> hex_char a = None")
    case True
    then show ?thesis using "1.prems" by (cases n) (auto simp: hex_ok_def)
  next
    case False
    then obtain m d where n: "n = Suc m" "a \<noteq> 0" "hex_char a = Some d" by (cases n) auto
    show ?thesis
    proof (cases "b = 0 \<or> m = 0 \<or> hex_char b = None")
      case True
      then show ?thesis using n "1.prems" by (cases m) (auto simp: hex_ok_def)
    next
      case F: False
      then obtain k e where m: "m = Suc k" "b \<noteq> 0" "hex_char b = Some e" by (cases m) auto
      have i: "even (i + 1 + 1)" using "1.prems" by simp
      show ?thesis
      proof (cases "length dest < len")
        case True
        then have "length (dest @ [push_bit 4 d OR e]) \<le> len" by simp
        note IH = "1.IH" [OF i this, of k]
        with True IH n m "1.prems" show ?thesis by (auto simp: hex_ok_def)
      next
        case False
        with n m "1.prems" show ?thesis by (auto simp: hex_ok_def)
      qed
    qed
  qed
qed (auto simp: hex_ok_def hex_input_single split: option.splits)

text \<open>
  \<open>parse_hex\<close> reads up to a NUL or the given length.  When what it reads is an even number of
  hexadecimal digits that denote at most \<open>len\<close> bytes, it stores these bytes and returns how many;
  otherwise it returns -1.
\<close>

theorem parse_hex_correct:
  "if hex_ok (hex_input hex n) \<and> length (hex_input hex n) div 2 \<le> len
   then parse_hex len hex n = (int (length (hex_input hex n) div 2), hex_pairs (hex_input hex n))
   else fst (parse_hex len hex n) = - 1"
  using hex_loop_correct [of 0 "[]" len hex n] by (simp add: parse_hex_def)

section \<open>Round trip of MAC addresses\<close>

lemma hex_lower_all:
  "list_all (\<lambda>n. let d = hex_lower (word_of_nat n) in c_digit 16 d = Some n \<and> \<not> c_isspace d \<and> d \<notin> {0x2d, 0x2b, 0x78, 0x58, 0})
     [0..<16]"
  by code_simp

lemma hex_lower_nibble:
  assumes "unat x < 16"
  shows "c_digit 16 (hex_lower x) = Some (unat x)" "\<not> c_isspace (hex_lower x)" "hex_lower x \<notin> {0x2d, 0x2b, 0x78, 0x58, 0}"
proof -
  have "unat x \<in> set [0..<16]" using assms by simp
  with hex_lower_all have "let d = hex_lower (word_of_nat (unat x)) in
      c_digit 16 d = Some (unat x) \<and> \<not> c_isspace d \<and> d \<notin> {0x2d, 0x2b, 0x78, 0x58, 0}"
    unfolding list_all_iff by blast
  then show "c_digit 16 (hex_lower x) = Some (unat x)" "\<not> c_isspace (hex_lower x)" "hex_lower x \<notin> {0x2d, 0x2b, 0x78, 0x58, 0}"
    by (simp_all add: Let_def)
qed

lemma nibbles: "unat (drop_bit 4 (b :: u8)) = unat b div 16" "unat (b AND 0xf) = unat b mod 16"
proof -
  show "unat (drop_bit 4 b) = unat b div 16" by (subst unat_drop_bit_eq) (simp add: drop_bit_eq_div)
  have t: "b AND 0xf = take_bit 4 b" using take_bit_eq_mask [of 4 b] by (simp add: mask_eq_exp_minus_1)
  show "unat (b AND 0xf) = unat b mod 16" unfolding t by (subst unsigned_take_bit_eq) (simp add: take_bit_eq_mod)
qed

lemma hex2_digits:
  "c_digit 16 (hex_lower (drop_bit 4 b)) = Some (unat b div 16)" "c_digit 16 (hex_lower (b AND 0xf)) = Some (unat b mod 16)"
  "\<not> c_isspace (hex_lower (drop_bit 4 b))" "hex_lower (drop_bit 4 b) \<noteq> 0x2d" "hex_lower (drop_bit 4 b) \<noteq> 0x2b"
  "hex_lower (b AND 0xf) \<noteq> 0x78" "hex_lower (b AND 0xf) \<noteq> 0x58" "0 \<notin> set (hex2 b)"
proof -
  have "unat b div 16 < 16" by (rule less_mult_imp_div_less) (use unat_u8_bounds(1) [of b] in linarith)
  then have d: "unat (drop_bit 4 b) < 16" "unat (b AND 0xf) < 16" unfolding nibbles by simp_all
  show "c_digit 16 (hex_lower (drop_bit 4 b)) = Some (unat b div 16)" "c_digit 16 (hex_lower (b AND 0xf)) = Some (unat b mod 16)"
    "\<not> c_isspace (hex_lower (drop_bit 4 b))" "hex_lower (drop_bit 4 b) \<noteq> 0x2d" "hex_lower (drop_bit 4 b) \<noteq> 0x2b"
    "hex_lower (b AND 0xf) \<noteq> 0x78" "hex_lower (b AND 0xf) \<noteq> 0x58"
    using hex_lower_nibble [OF d(1)] hex_lower_nibble [OF d(2)] by (simp_all add: nibbles)
  show "0 \<notin> set (hex2 b)"
    using hex_lower_nibble(3) [OF d(1)] hex_lower_nibble(3) [OF d(2)] by (auto simp: hex2_def)
qed

lemma strtoull_hex2:
  assumes "r = [] \<or> \<not> is_digit 16 (hd r)"
  shows "strtoull 16 (hex2 b @ r) = (ucast b, 2)"
proof -
  let ?d = "hex_lower (drop_bit 4 b)" and ?e = "hex_lower (b AND 0xf)"
  have t: "takeWhile (is_digit 16) (?d # ?e # r) = [?d, ?e]"
    using assms hex2_digits [of b] by (cases r) (auto simp: is_digit_def)
  have "digits_value 16 [?d, ?e] = unat b"
    using hex2_digits [of b] by (simp add: digits_value_def)
  moreover have "c_sign (?d # ?e # r) = (False, 0)" "takeWhile c_isspace (?d # ?e # r) = []" "hex_prefix (?d # ?e # r) = 0"
    using hex2_digits [of b] by (simp_all add: c_sign_def hex_prefix_def)
  ultimately have "c_number 16 (hex2 b @ r) = ((False, unat b), 2)"
    using t by (simp add: c_number_def hex2_def)
  moreover have "unat b < 2 ^ 64" by (rule less_le_trans [OF unat_u8_bounds(1)]) simp
  ultimately show ?thesis by (simp add: strtoull_def)
qed

lemma unat_ucast_u64: "unat (ucast (b :: u8) :: u64) = unat b"
proof -
  have "unat b < 2 ^ 64" by (rule less_le_trans [OF unat_u8_bounds(1)]) simp
  then show ?thesis by (simp add: unsigned_ucast_eq take_bit_nat_eq_self)
qed

lemma mac_loop_step:
  assumes "r = [] \<or> \<not> is_digit 16 (hd r)"
  shows "mac_loop (Suc k) addr (0x3a # hex2 b @ r) = mac_loop k (push_bit 8 addr OR ucast b) r"
proof -
  have "\<not> (0xff :: u64) < ucast b" using unat_u8_bounds(2) [of b] by (simp add: word_less_nat_alt unat_ucast_u64 not_less)
  moreover have "drop 2 (hex2 b @ r) = r" by (simp add: hex2_def)
  ultimately show ?thesis
    using strtoull_hex2 [OF assms, of b] by (simp add: Let_def)
qed

lemma colon_stops: "\<not> is_digit 16 0x3a" "\<not> is_digit 16 0"
  by code_simp+

definition mac_word :: "u8 \<Rightarrow> u8 \<Rightarrow> u8 \<Rightarrow> u8 \<Rightarrow> u8 \<Rightarrow> u8 \<Rightarrow> u64" where
  "mac_word a b c d e f =
     push_bit 8 (push_bit 8 (push_bit 8 (push_bit 8 (push_bit 8 (ucast a) OR ucast b) OR ucast c) OR ucast d) OR ucast e) OR ucast f"

lemma mac_word_bytes: "mac_bytes 6 (mac_word a b c d e f) = [a, b, c, d, e, f]"
proof -
  have "ucast (mac_word a b c d e f) = f" "ucast (drop_bit 8 (mac_word a b c d e f)) = e"
    "ucast (drop_bit 16 (mac_word a b c d e f)) = d" "ucast (drop_bit 24 (mac_word a b c d e f)) = c"
    "ucast (drop_bit 32 (mac_word a b c d e f)) = b" "ucast (drop_bit 40 (mac_word a b c d e f)) = a"
    unfolding mac_word_def by (rule bit_word_eqI, auto simp: bit_simps dest: bit_imp_le_length)+
  then show ?thesis by (simp add: numeral_eq_Suc)
qed

lemma byte_bound:
  "take_bit k x = x \<Longrightarrow> take_bit (k + 8) (push_bit 8 x OR ucast (b :: u8)) = push_bit 8 x OR (ucast b :: u64)"
proof -
  assume "take_bit k x = x"
  then have "take_bit (k + 8) (push_bit 8 x) = push_bit 8 x" by (simp add: take_bit_push_bit)
  moreover have "take_bit (k + 8) (ucast b :: u64) = ucast b"
    by (rule bit_word_eqI) (auto simp: bit_simps dest: bit_imp_le_length)
  ultimately show "take_bit (k + 8) (push_bit 8 x OR ucast b) = push_bit 8 x OR (ucast b :: u64)" by (simp add: take_bit_or)
qed

lemma mac_word_bound: "mac_word a b c d e f \<le> push_bit 48 1"
proof -
  have "take_bit 8 (ucast a :: u64) = ucast a"
    by (rule bit_word_eqI) (auto simp: bit_simps dest: bit_imp_le_length)
  then have t: "take_bit (8 + 8 + 8 + 8 + 8 + 8) (mac_word a b c d e f) = mac_word a b c d e f"
    unfolding mac_word_def by (intro byte_bound)
  have "unat (mac_word a b c d e f) < 2 ^ 48"
    using arg_cong [OF t, of unat] take_bit_nat_less_exp [of 48 "unat (mac_word a b c d e f)"] by (simp add: unsigned_take_bit_eq)
  then show ?thesis by (simp add: push_bit_eq_mult word_le_nat_alt)
qed

text \<open>
  A MAC address that \<open>format_mac\<close> writes into a buffer of at least 18 bytes is read back by
  \<open>parse_mac\<close>.
\<close>

theorem mac_roundtrip:
  assumes "length mac = 6" "18 \<le> buf_len"
  shows "parse_mac (cstr (format_mac mac buf_len)) = Some mac"
proof -
  obtain a b c d e f where mac: "mac = [a, b, c, d, e, f]"
    using assms(1) by (auto simp: numeral_eq_Suc length_Suc_conv)
  let ?t = "hex2 a @ 0x3a # hex2 b @ 0x3a # hex2 c @ 0x3a # hex2 d @ 0x3a # hex2 e @ 0x3a # hex2 f"
  define t where "t = ?t"
  have l: "length t = 17" by (simp add: t_def hex2_def)
  have "format_mac mac buf_len = snprintf_bytes buf_len t" by (simp add: format_mac_def mac t_def)
  also have "\<dots> = t @ 0 # []" using assms(2) l by (simp add: snprintf_bytes_def)
  finally have "format_mac mac buf_len = t @ 0 # []" .
  moreover have "0 \<notin> set t" using hex2_digits(8) by (simp add: t_def)
  from cstr_front [OF this] have "cstr (t @ 0 # []) = t" .
  ultimately have t: "cstr (format_mac mac buf_len) = ?t" by (simp only: t_def)
  have f: "mac_loop (Suc 0) addr (0x3a # hex2 f) = Some (push_bit 8 addr OR ucast f, [])" for addr
    using mac_loop_step [of "[]" 0 addr f] by simp
  have "mac_loop 5 (ucast a) (0x3a # hex2 b @ 0x3a # hex2 c @ 0x3a # hex2 d @ 0x3a # hex2 e @ 0x3a # hex2 f) =
      Some (mac_word a b c d e f, [])"
  proof -
    have "mac_loop (Suc (Suc (Suc (Suc (Suc 0))))) (ucast a)
        (0x3a # hex2 b @ 0x3a # hex2 c @ 0x3a # hex2 d @ 0x3a # hex2 e @ 0x3a # hex2 f) = Some (mac_word a b c d e f, [])"
      by (simp only: mac_loop_step list.sel colon_stops not_False_eq_True simp_thms f mac_word_def)
    then show ?thesis by (simp only: numeral_eq_Suc pred_numeral_simps BitM.simps One_nat_def)
  qed
  moreover define r where "r = 0x3a # hex2 b @ 0x3a # hex2 c @ 0x3a # hex2 d @ 0x3a # hex2 e @ 0x3a # hex2 f"
  ultimately have loop: "mac_loop 5 (ucast a) r = Some (mac_word a b c d e f, [])" by simp
  have r: "drop 2 (hex2 a @ r) = r" "cchar r 0 = 0x3a" by (simp_all add: hex2_def r_def)
  have "r = [] \<or> \<not> is_digit 16 (hd r)" by (simp add: r_def colon_stops)
  then have "strtoull 16 (hex2 a @ r) = (ucast a, 2)" by (rule strtoull_hex2)
  moreover have "(ucast a :: u64) \<le> 0xff" using unat_u8_bounds(2) [of a] by (simp add: word_le_nat_alt unat_ucast_u64)
  ultimately have "parse_mac (hex2 a @ r) = Some (mac_bytes 6 (mac_word a b c d e f))"
    using mac_word_bound [of a b c d e f] loop
    unfolding parse_mac_def by (simp only: Let_def prod.case r) (simp add: not_less)
  then show ?thesis unfolding t by (simp add: mac mac_word_bytes r_def)
qed

theorem mac_roundtrip_witness: "parse_mac (cstr (format_mac [0xa1, 2, 0x30, 4, 0xff, 0] 18)) = Some [0xa1, 2, 0x30, 4, 0xff, 0]"
  by (rule mac_roundtrip) simp_all

section \<open>Argument lists\<close>

text \<open>
  The reference: an argument is read up to an unquoted blank, without the quotes; a list of at most
  \<open>n\<close> arguments.
\<close>

fun arg_text :: "u8 \<Rightarrow> bytes \<Rightarrow> bytes \<times> bytes" where
  "arg_text q [] = ([], [])"
| "arg_text q (c # s) =
     (if q \<noteq> 0 then
        if c = q then arg_text 0 s else (let (a, r) = arg_text q s in (c # a, r))
      else if quote_char c then arg_text c s
      else if blank c then ([], c # s)
      else (let (a, r) = arg_text 0 s in (c # a, r)))"

fun arg_list :: "nat \<Rightarrow> bytes \<Rightarrow> bytes list" where
  "arg_list 0 s = []"
| "arg_list (Suc n) s =
     (let s = dropWhile blank s in
      if s = [] then [] else (let (a, r) = arg_text 0 s in a # (if r = [] then [] else arg_list n (tl r))))"

lemma not_blank_0 [simp]: "\<not> blank 0" "\<not> quote_char 0"
  by (simp_all add: blank_def quote_char_def)

lemma arg_text_set: "set (fst (arg_text q s)) \<union> set (snd (arg_text q s)) \<subseteq> set s"
  by (induction q s rule: arg_text.induct) (auto split: prod.splits)

lemma drop_ConsD: "drop n xs = c # s \<Longrightarrow> n < length xs \<and> xs ! n = c \<and> drop (n + 1) xs = s"
  by (cases "n < length xs") (simp_all add: Cons_nth_drop_Suc [symmetric])

lemma take_store: "d < length xs \<Longrightarrow> take (d + 1) (xs[d := c]) = take d xs @ [c]"
  by (simp add: take_Suc_conv_app_nth)

lemma arg_loop_correct:
  assumes "drop cp buf = s" "0 \<notin> set s" "dest \<le> cp" "arg_text q s = (a, r)" "arg_loop buf cp dest q = (buf', cp', dest')"
  shows "drop cp' buf' = r \<and> take dest' buf' = take dest buf @ a \<and> dest \<le> dest' \<and> dest' \<le> cp' \<and> cp \<le> cp' \<and>
    length buf' = length buf \<and> (r = [] \<or> blank (hd r))"
  using assms
proof (induction q s arbitrary: buf cp dest a rule: arg_text.induct)
  case (1 q)
  then have "cchar buf cp = 0" by (simp add: cchar_def)
  with 1 show ?case by (subst (asm) arg_loop.simps) auto
next
  case (2 q c s)
  then have cp: "cp < length buf" "cchar buf cp = c" "c \<noteq> 0" "drop (cp + 1) buf = s"
    using drop_ConsD [OF "2.prems"(1)] by (auto simp: cchar_def)
  have st: "drop (cp + 1) (buf[dest := c]) = s" "take (dest + 1) (buf[dest := c]) = take dest buf @ [c]"
    using cp(1,4) "2.prems"(3) by (simp, simp only: take_store)
  have s0: "0 \<notin> set s" "dest \<le> cp + 1" "dest + 1 \<le> cp + 1" using "2.prems"(2,3) by simp_all
  note loop = "2.prems"(5) [unfolded arg_loop.simps [of buf cp dest q] Let_def cp(2)]
  consider "q \<noteq> 0" "c = q" | "q \<noteq> 0" "c \<noteq> q" | "q = 0" "quote_char c" | "q = 0" "\<not> quote_char c" "blank c"
    | "q = 0" "\<not> quote_char c" "\<not> blank c" by blast
  then show ?case
  proof cases
    case 1
    then have "arg_text 0 s = (a, r)" "arg_loop buf (cp + 1) dest 0 = (buf', cp', dest')"
      using "2.prems"(4) loop cp(3) by simp_all
    from "2.IH"(1) [OF 1 cp(4) s0(1,2) this] show ?thesis by auto
  next
    case 2
    then obtain a' where a': "arg_text q s = (a', r)" "a = c # a'" using "2.prems"(4) by (auto split: prod.splits)
    have "arg_loop (buf[dest := c]) (cp + 1) (dest + 1) q = (buf', cp', dest')" using 2 loop cp(3) by simp
    from "2.IH"(2) [OF 2 st(1) s0(1,3) a'(1) this] show ?thesis unfolding a'(2) st(2) by auto
  next
    case 3
    then have "arg_text c s = (a, r)" "arg_loop buf (cp + 1) dest c = (buf', cp', dest')"
      using "2.prems"(4) loop cp(3) by simp_all
    from "2.IH"(3) [OF _ 3(2) cp(4) s0(1,2) this] 3 show ?thesis by auto
  next
    case 4
    then have "a = []" "r = c # s" "buf' = buf" "cp' = cp" "dest' = dest" using "2.prems"(4) loop cp(3) by simp_all
    with "2.prems"(1,3) 4 show ?thesis by simp
  next
    case 5
    then obtain a' where a': "arg_text 0 s = (a', r)" "a = c # a'" using "2.prems"(4) by (auto split: prod.splits)
    have "arg_loop (buf[dest := c]) (cp + 1) (dest + 1) 0 = (buf', cp', dest')" using 5 loop cp(3) by simp
    from "2.IH"(4) [OF _ 5(2,3) st(1) s0(1,3) a'(1) this] 5 show ?thesis unfolding a'(2) st(2) by auto
  qed
qed

lemma skip_blanks_drop: "drop (skip_blanks buf cp) buf = dropWhile blank (drop cp buf)"
  by (simp add: skip_blanks_def dropWhile_eq_drop add.commute)

lemma cchar_drop_0: "0 \<notin> set (drop cp buf) \<Longrightarrow> cchar buf cp = 0 \<longleftrightarrow> drop cp buf = []"
  by (cases "cp < length buf") (auto simp: cchar_def Cons_nth_drop_Suc [symmetric])

text \<open>A string in a buffer is determined by the bytes up to its terminator.\<close>

lemma string_at_prefix:
  assumes "take (m + 1) buf' = take (m + 1) buf" "k \<le> m" "m < length buf" "buf ! m = 0" "length buf' = length buf"
  shows "string_at buf' k = string_at buf k"
proof -
  have s: "string_at b k = cstr (drop k (take (m + 1) b))" if "m < length b" "b ! m = 0" for b
  proof -
    have "drop k b = drop k (take m b) @ 0 # drop (m + 1) b"
      using that assms(2) by (metis Suc_eq_plus1 append_take_drop_id Cons_nth_drop_Suc drop_append drop_take length_take
          less_imp_le_nat min.absorb2 diff_is_0_eq drop0)
    moreover have "drop k (take (m + 1) b) = drop k (take m b) @ 0 # []"
      using that assms(2) by (simp add: take_Suc_conv_app_nth)
    moreover have "cstr (xs @ 0 # ys) = cstr (xs @ 0 # [])" for xs ys
      unfolding cstr_def by (induction xs) auto
    ultimately show ?thesis unfolding string_at_def by metis
  qed
  have "buf' ! m = 0" using assms by (metis Suc_eq_plus1 lessI nth_take)
  with s [of buf] s [of buf'] assms show ?thesis by simp
qed

lemma argv_loop_correct:
  assumes "drop cp buf = s" "0 \<notin> set s" "argv_loop n argv buf cp = (argv', buf')"
  shows "\<exists>new. argv' = argv @ new \<and> map (string_at buf') new = arg_list (n - length argv) s \<and>
    take cp buf' = take cp buf \<and> length buf' = length buf"
  using assms
proof (induction "n - length argv" s arbitrary: argv buf cp rule: arg_list.induct)
  case (1 s)
  then have "argv_loop n argv buf cp = (argv, buf)" by (subst argv_loop.simps) simp
  with 1 show ?case by simp
next
  case (2 k s)
  define t where "t = dropWhile blank s"
  define p where "p = skip_blanks buf cp"
  have n: "length argv < n" "n - length argv = Suc k" using "2.hyps"(2) by simp_all
  have p: "drop p buf = t" "cp \<le> p" using skip_blanks_drop [of buf cp] "2.prems"(1) by (simp_all add: p_def t_def skip_blanks_def)
  have t0: "0 \<notin> set t" using "2.prems"(2) set_dropWhileD by (fastforce simp: t_def)
  have cp0: "cchar buf cp = 0 \<longleftrightarrow> s = []" using cchar_drop_0 [of cp buf] "2.prems"(1,2) by simp
  have p0: "cchar buf p = 0 \<longleftrightarrow> t = []" using cchar_drop_0 [of p buf] p(1) t0 by simp
  show ?case
  proof (cases "t = []")
    case True
    then have "argv_loop n argv buf cp = (argv, buf)" using p0 n by (subst argv_loop.simps) (simp add: Let_def flip: p_def)
    moreover have "arg_list (Suc k) s = []" using True by (simp add: t_def)
    ultimately show ?thesis using "2.prems"(3) n by simp
  next
    case False
    then have "s \<noteq> []" by (auto simp: t_def)
    obtain a r where ar: "arg_text 0 t = (a, r)" by (cases "arg_text 0 t")
    obtain b e d where l: "arg_loop buf p p 0 = (b, e, d)" by (metis prod_cases3)
    note al = arg_loop_correct [OF p(1) t0 order_refl ar l]
    have ar0: "0 \<notin> set a" "0 \<notin> set r" using arg_text_set [of 0 t] t0 ar by auto
    define b' where "b' = b[d := 0]"
    have e: "drop e b = r" "length b' = length buf" "d \<le> e" "p \<le> d" using al by (simp_all add: b'_def)
    have e0: "cchar b e = 0 \<longleftrightarrow> r = []" using cchar_drop_0 [of e b] e(1) ar0(2) by simp
    have plen: "p < length buf" using False p(1) by (metis drop_eq_Nil not_le)
    have tk: "take d b' = take p buf @ a" using al by (simp add: b'_def)
    then have tp: "take p b' = take p buf" using plen e(4) by (metis append_eq_conv_conj length_take less_imp_le min.absorb2 take_take min.absorb1)
    have sp: "string_at b' p = a"
    proof (cases "d < length b")
      case True
      then have "b' = take d b' @ 0 # drop (d + 1) b'" by (simp add: b'_def id_take_nth_drop [symmetric] upd_conv_take_nth_drop)
      then have "drop p b' = a @ 0 # drop (d + 1) b'" using tk plen by (metis append_assoc append_eq_conv_conj length_take less_imp_le min.absorb2)
      then show ?thesis using ar0(1) by (simp add: string_at_def cstr_front)
    next
      case F: False
      then have "b' = take p buf @ a" using tk al by (simp add: b'_def)
      then have "drop p b' = a" using plen by simp
      then show ?thesis using ar0(1) by (simp add: string_at_def cstr_id)
    qed
    have step: "argv_loop n argv buf cp =
        (if r = [] then (argv @ [p], b') else argv_loop n (argv @ [p]) b' (e + 1))"
      using n \<open>s \<noteq> []\<close> cp0 p0 e0 False l by (subst argv_loop.simps) (simp add: Let_def b'_def flip: p_def)
    have al': "arg_list (Suc k) s = a # (if r = [] then [] else arg_list k (tl r))"
      using False ar by (simp add: t_def)
    show ?thesis
    proof (cases "r = []")
      case True
      with step "2.prems"(3) have "argv' = argv @ [p]" "buf' = b'" by simp_all
      moreover have "take cp b' = take cp buf" using tp p(2) by (metis min.absorb1 take_take)
      ultimately show ?thesis using True al' n sp e(2) by simp
    next
      case rne: False
      have elen: "e < length b" using rne e(1) by (metis drop_eq_Nil not_le)
      have "drop e b = hd r # tl r" using e(1) rne by simp
      from drop_ConsD [OF this] have dr: "drop (e + 1) b' = tl r" using e(3) by (simp add: b'_def)
      have k: "k = n - length (argv @ [p])" using n by simp
      have lp: "argv_loop n (argv @ [p]) b' (e + 1) = (argv', buf')" using step rne "2.prems"(3) by simp
      have "0 \<notin> set (tl r)" using ar0(2) rne by (cases r) auto
      from "2.hyps"(1) [OF t_def False ar [symmetric] refl rne k dr this lp] obtain new where
        new: "argv' = (argv @ [p]) @ new" "map (string_at buf') new = arg_list (n - length (argv @ [p])) (tl r)"
          "take (e + 1) buf' = take (e + 1) b'" "length buf' = length b'" by blast
      have up: "take m buf' = take m b'" if "m \<le> e + 1" for m
        using new(3) that by (metis min.absorb1 take_take)
      have "string_at buf' p = string_at b' p"
        by (rule string_at_prefix [where m = d]) (use up [of "d + 1"] e elen new(4) al in \<open>auto simp: b'_def\<close>)
      moreover have "take cp buf' = take cp buf"
        using up [of cp] tp p(2) e(3,4) by (metis le_add1 min.absorb1 order_trans take_take)
      moreover have "arg_list (n - length argv) s = a # arg_list (n - length (argv @ [p])) (tl r)"
        using al' rne n(2) k by simp
      ultimately show ?thesis using new(1,2,4) sp e(2) by simp
    qed
  qed
qed

text \<open>
  C33. \<open>parse_argv\<close>, which edits the string in place, returns the number of arguments and pointers to
  them, and the strings at the pointers are the arguments of the reference: split at unquoted blanks,
  the quotes removed, at most \<open>argv_len\<close>.
\<close>

theorem parse_argv_correct:
  assumes "0 \<notin> set s" "parse_argv argv_len s = (argc, argv, buf)"
  shows "argc = length (arg_list argv_len s) \<and> map (\<lambda>p. string_at buf (the p)) (take argc argv) = arg_list argv_len s \<and>
    (argc < argv_len \<longrightarrow> argv ! argc = None) \<and> length buf = length s"
proof -
  obtain ps where l: "argv_loop argv_len [] s 0 = (ps, buf)" "argc = length ps"
      "argv = map Some ps @ (if length ps < argv_len then [None] else [])"
    using assms(2) by (auto simp: parse_argv_def split: prod.splits)
  from argv_loop_correct [OF _ assms(1) l(1)] have "map (string_at buf) ps = arg_list argv_len s" "length buf = length s" by auto
  moreover from this(1) have "length ps = length (arg_list argv_len s)" by (metis length_map)
  ultimately show ?thesis using l(2,3) by (simp add: nth_append comp_def)
qed

theorem parse_argv_correct_witness:
  "\<exists>argv buf. parse_argv 8 (str ''a  'b c'd'') = (2, argv, buf) \<and>
    map (\<lambda>p. string_at buf (the p)) (take 2 argv) = [str ''a'', str ''b cd'']"
proof -
  obtain argc argv buf where p: "parse_argv 8 (str ''a  'b c'd'') = (argc, argv, buf)" by (metis prod_cases3)
  have "0 \<notin> set (str ''a  'b c'd'')" by code_simp
  note c = parse_argv_correct [OF this p]
  have r: "arg_list 8 (str ''a  'b c'd'') = [str ''a'', str ''b cd'']" by code_simp
  then have "argc = 2" using c by simp
  with p c r show ?thesis by auto
qed

text \<open>What the command table does with the arguments.\<close>

lemma cmd_find_correct:
  "cmd_find cmds i name = i + length (takeWhile (\<lambda>n. n \<noteq> name) cmds)"
  by (induction cmds arbitrary: i) auto

text \<open>
  \<open>cmd_handle\<close> refuses a line of 19 or more arguments, does nothing for a line without arguments,
  and otherwise calls the handler of the first entry with the name of the first argument, or the one
  of the final entry when there is none, with the arguments of the line.
\<close>

theorem cmd_handle_correct:
  assumes "0 \<notin> set s"
  shows "cmd_handle cmds s =
    (let args = arg_list CMD_ARGV_LIMIT s in
     if length args \<ge> CMD_ARGV_LIMIT - 1 then (- 1, None)
     else (0, if args = [] then None else Some (length (takeWhile (\<lambda>n. n \<noteq> hd args) cmds), args)))"
proof -
  obtain argc argv buf where p: "parse_argv CMD_ARGV_LIMIT s = (argc, argv, buf)" by (metis prod_cases3)
  obtain ps where l: "argv_loop CMD_ARGV_LIMIT [] s 0 = (ps, buf)" "argc = length ps"
      "take argc argv = map Some ps"
    using p by (auto simp: parse_argv_def split: prod.splits)
  from argv_loop_correct [OF _ assms l(1)] have m: "map (string_at buf) ps = arg_list CMD_ARGV_LIMIT s" by auto
  then have n: "argc = length (arg_list CMD_ARGV_LIMIT s)" using l(2) by (metis length_map)
  have "map (\<lambda>p. string_at buf (the p)) (take argc argv) = arg_list CMD_ARGV_LIMIT s"
    using m l(3) by (simp add: comp_def)
  then show ?thesis
    by (simp add: cmd_handle_def p n Let_def cmd_handle_argv_def cmd_find_correct hd_conv_nth)
qed

theorem cmd_handle_correct_witness:
  "cmd_handle [str ''log'', str ''conf''] (str ''conf get x'') = (0, Some (1, [str ''conf'', str ''get'', str ''x'']))"
proof -
  have "0 \<notin> set (str ''conf get x'')" by code_simp
  from cmd_handle_correct [OF this] have "cmd_handle [str ''log'', str ''conf''] (str ''conf get x'') =
    (let args = arg_list CMD_ARGV_LIMIT (str ''conf get x'') in
     if length args \<ge> CMD_ARGV_LIMIT - 1 then (- 1, None)
     else (0, if args = [] then None
       else Some (length (takeWhile (\<lambda>n. n \<noteq> hd args) [str ''log'', str ''conf'']), args)))" .
  also have "\<dots> = (0, Some (1, [str ''conf'', str ''get'', str ''x'']))" by code_simp
  finally show ?thesis .
qed

end
