(* ===== verification/JsmnGet.thy ===== *)
theory JsmnGet
  imports CString
begin

text \<open>
  Access to parsed JSON: \<^verbatim>\<open>jsmn_get.c\<close> and \<^verbatim>\<open>jsmn_iterate.c\<close>.  The parser itself (\<^verbatim>\<open>ext/jsmn\<close>) is
  third-party code; its result is the token array, in the order of the opening characters, with the
  span of each token in the text.  A pointer to a token is its index.
\<close>

section \<open>Tokens\<close>

datatype jsmntype = JSMN_PRIMITIVE | JSMN_OBJECT | JSMN_ARRAY | JSMN_STRING

record jsmntok =
  jt_type :: jsmntype
  jt_start :: int
  jt_end :: int

record jsmn_parser =
  jp_js :: bytes
  jp_tokens :: "jsmntok list"

text \<open>\<open>n\<close> bytes of the text, from a position.\<close>

definition js_text :: "jsmn_parser \<Rightarrow> int \<Rightarrow> nat \<Rightarrow> bytes" where
  "js_text p k n = take n (drop (nat k) (jp_js p))"

section \<open>Members of an object\<close>

text \<open>The loop over the tokens after the object; \<open>i\<close> is the index of the first of \<open>toks\<close>.\<close>

fun get_val_loop ::
  "jsmn_parser \<Rightarrow> jsmntok \<Rightarrow> bytes \<Rightarrow> nat \<Rightarrow> jsmntok list \<Rightarrow> int \<Rightarrow> jsmntok option \<Rightarrow> nat option" where
  "get_val_loop p obj name i [] next_start obj_name = None"
| "get_val_loop p obj name i (tok # toks) next_start obj_name =
     (if jt_start tok > jt_end obj then None
      else if jt_start tok < next_start then get_val_loop p obj name (i + 1) toks next_start obj_name
      else
        (case obj_name of
          None \<Rightarrow>
            if jt_type tok \<noteq> JSMN_STRING \<or> jt_start tok < jt_start obj \<or> jt_end tok > jt_end obj then None
            else get_val_loop p obj name (i + 1) toks next_start (Some tok)
        | Some nm \<Rightarrow>
            if jt_end nm - jt_start nm = int (length name) \<and> js_text p (jt_start nm) (length name) = name \<and>
               jt_start tok \<ge> jt_start obj \<and> jt_end tok \<le> jt_end obj
            then Some i
            else
              let next_start = (if jt_type tok = JSMN_OBJECT then jt_end tok else next_start)
              in get_val_loop p obj name (i + 1) toks next_start None))"

definition jsmn_get_val :: "jsmn_parser \<Rightarrow> nat option \<Rightarrow> bytes \<Rightarrow> nat option" where
  "jsmn_get_val p parent name =
     (let i = (case parent of Some i \<Rightarrow> i | None \<Rightarrow> 0);
          obj = jp_tokens p ! i
      in if jt_type obj \<noteq> JSMN_OBJECT then None
         else get_val_loop p obj name (i + 1) (drop (i + 1) (jp_tokens p)) (jt_start obj) None)"

section \<open>Values\<close>

definition jsmn_parse_ulong :: "jsmn_parser \<Rightarrow> nat option \<Rightarrow> u32 option" where
  "jsmn_parse_ulong p obj =
     (case obj of
        None \<Rightarrow> None
      | Some i \<Rightarrow>
          let tok = jp_tokens p ! i in
          if jt_type tok \<noteq> JSMN_PRIMITIVE then None
          else
            let (val, n) = strtoul 10 (cstr (drop (nat (jt_start tok)) (jp_js p)))
            in if jt_start tok + int n < jt_end tok then None else Some val)"

definition jsmn_get_ulong :: "jsmn_parser \<Rightarrow> nat option \<Rightarrow> bytes \<Rightarrow> u32 option" where
  "jsmn_get_ulong p parent name = jsmn_parse_ulong p (jsmn_get_val p parent name)"

definition jsmn_parse_long :: "jsmn_parser \<Rightarrow> nat option \<Rightarrow> int option" where
  "jsmn_parse_long p obj =
     (case obj of
        None \<Rightarrow> None
      | Some i \<Rightarrow>
          let tok = jp_tokens p ! i in
          if jt_type tok \<noteq> JSMN_PRIMITIVE then None
          else
            let (val, n) = strtol 10 (cstr (drop (nat (jt_start tok)) (jp_js p)))
            in if jt_start tok + int n < jt_end tok then None else Some val)"

definition jsmn_get_long :: "jsmn_parser \<Rightarrow> nat option \<Rightarrow> bytes \<Rightarrow> int option" where
  "jsmn_get_long p parent name = jsmn_parse_long p (jsmn_get_val p parent name)"

text \<open>The length and the position of the string; a failure is the length -1.\<close>

definition jsmn_get_string_ptr :: "jsmn_parser \<Rightarrow> nat option \<Rightarrow> bytes \<Rightarrow> int \<times> int" where
  "jsmn_get_string_ptr p parent name =
     (case jsmn_get_val p parent name of
        None \<Rightarrow> (- 1, 0)
      | Some i \<Rightarrow>
          let obj = jp_tokens p ! i in
          if jt_type obj = JSMN_STRING \<or> jt_type obj = JSMN_PRIMITIVE
          then (jt_end obj - jt_start obj, jt_start obj)
          else (- 1, 0))"

text \<open>The result and what is stored, with the final NUL.\<close>

definition jsmn_get_string :: "jsmn_parser \<Rightarrow> nat option \<Rightarrow> bytes \<Rightarrow> nat \<Rightarrow> int \<times> bytes" where
  "jsmn_get_string p parent name len =
     (let (rc, ptr) = jsmn_get_string_ptr p parent name in
      if rc < 0 \<or> rc \<ge> int len then (- 1, [])
      else (rc, js_text p ptr (nat rc) @ [0]))"

definition jsmn_parse_bool :: "jsmn_parser \<Rightarrow> nat option \<Rightarrow> u8 option" where
  "jsmn_parse_bool p obj =
     (case obj of
        None \<Rightarrow> None
      | Some i \<Rightarrow>
          let tok = jp_tokens p ! i; len = jt_end tok - jt_start tok in
          if jt_type tok \<noteq> JSMN_PRIMITIVE then None
          else if len = 5 \<and> js_text p (jt_start tok) 5 = str ''false'' then Some 0
          else if len = 4 \<and> js_text p (jt_start tok) 4 = str ''true'' then Some 1
          else
            (case jsmn_parse_ulong p obj of
               None \<Rightarrow> None
             | Some uv \<Rightarrow> if uv > 1 then None else Some (ucast uv)))"

definition jsmn_get_bool :: "jsmn_parser \<Rightarrow> nat option \<Rightarrow> bytes \<Rightarrow> u8 option" where
  "jsmn_get_bool p parent name = jsmn_parse_bool p (jsmn_get_val p parent name)"

section \<open>Elements of an array\<close>

text \<open>The function called for each element works on a state; a non-zero result ends the iteration.\<close>

fun iterate_loop ::
  "(nat \<Rightarrow> 's \<Rightarrow> int \<times> 's) \<Rightarrow> jsmntok \<Rightarrow> nat \<Rightarrow> jsmntok list \<Rightarrow> int \<Rightarrow> 's \<Rightarrow> int \<times> 's" where
  "iterate_loop f obj i [] next_start st = (0, st)"
| "iterate_loop f obj i (tok # toks) next_start st =
     (if jt_end tok > jt_end obj then (0, st)
      else if jt_start tok < next_start then iterate_loop f obj (i + 1) toks next_start st
      else
        (let (rc, st) = f i st in
         if rc \<noteq> 0 then (rc, st) else iterate_loop f obj (i + 1) toks (jt_end tok) st))"

definition jsmn_array_iterate ::
  "jsmn_parser \<Rightarrow> nat \<Rightarrow> (nat \<Rightarrow> 's \<Rightarrow> int \<times> 's) \<Rightarrow> 's \<Rightarrow> int \<times> 's" where
  "jsmn_array_iterate p i f st =
     (let obj = jp_tokens p ! i in
      if jt_type obj \<noteq> JSMN_ARRAY then (- 1, st)
      else iterate_loop f obj (i + 1) (drop (i + 1) (jp_tokens p)) (jt_start obj) st)"

section \<open>JSON values and their tokens\<close>

text \<open>
  A value with its spans.  A member of an object has the span of its name.  The end of an object or an
  array is the position after its closing bracket; a string's span is what is between the quotes.
\<close>

datatype jval =
    JPrim int int
  | JStr int int
  | JArr int int "jval list"
  | JObj int int "((int \<times> int) \<times> jval) list"

fun jstart :: "jval \<Rightarrow> int" where
  "jstart (JPrim s e) = s" | "jstart (JStr s e) = s" | "jstart (JArr s e vs) = s" | "jstart (JObj s e ms) = s"

fun jend :: "jval \<Rightarrow> int" where
  "jend (JPrim s e) = e" | "jend (JStr s e) = e" | "jend (JArr s e vs) = e" | "jend (JObj s e ms) = e"

fun jtype :: "jval \<Rightarrow> jsmntype" where
  "jtype (JPrim s e) = JSMN_PRIMITIVE" | "jtype (JStr s e) = JSMN_STRING"
| "jtype (JArr s e vs) = JSMN_ARRAY" | "jtype (JObj s e ms) = JSMN_OBJECT"

definition jtok :: "jval \<Rightarrow> jsmntok" where
  "jtok v = \<lparr>jt_type = jtype v, jt_start = jstart v, jt_end = jend v\<rparr>"

definition name_tok :: "int \<times> int \<Rightarrow> jsmntok" where
  "name_tok k = \<lparr>jt_type = JSMN_STRING, jt_start = fst k, jt_end = snd k\<rparr>"

fun jtoks :: "jval \<Rightarrow> jsmntok list" where
  "jtoks (JArr s e vs) = jtok (JArr s e vs) # concat (map jtoks vs)"
| "jtoks (JObj s e ms) = jtok (JObj s e ms) # concat (map (\<lambda>(k, v). name_tok k # jtoks v) ms)"
| "jtoks v = [jtok v]"

text \<open>Spans are inside each other and in order, as in a text.\<close>

fun jfits :: "int \<Rightarrow> int \<Rightarrow> jval \<Rightarrow> bool" where
  "jfits lo hi (JArr s e vs) =
     (lo \<le> s \<and> s < e \<and> e \<le> hi \<and> (\<forall>v \<in> set vs. jfits (s + 1) (e - 1) v) \<and> sorted_wrt (\<lambda>v w. jend v < jstart w) vs)"
| "jfits lo hi (JObj s e ms) =
     (lo \<le> s \<and> s < e \<and> e \<le> hi \<and>
      (\<forall>(k, v) \<in> set ms. s < fst k \<and> fst k \<le> snd k \<and> snd k < jstart v \<and> jfits (s + 1) (e - 1) v) \<and>
      sorted_wrt (\<lambda>m n. jend (snd m) < fst (fst n)) ms)"
| "jfits lo hi v = (lo \<le> jstart v \<and> jstart v \<le> jend v \<and> jend v \<le> hi)"

definition jname :: "jsmn_parser \<Rightarrow> int \<times> int \<Rightarrow> bytes \<Rightarrow> bool" where
  "jname p k name \<longleftrightarrow> snd k - fst k = int (length name) \<and> js_text p (fst k) (length name) = name"

lemma jtoks_Cons: "\<exists>ts. jtoks v = jtok v # ts"
  by (cases v) auto

lemma jtok_simps [simp]:
  "jt_type (jtok v) = jtype v" "jt_start (jtok v) = jstart v" "jt_end (jtok v) = jend v"
  "jt_type (name_tok k) = JSMN_STRING" "jt_start (name_tok k) = fst k" "jt_end (name_tok k) = snd k"
  by (simp_all add: jtok_def name_tok_def)

lemma jfits_span: "jfits lo hi v \<Longrightarrow> lo \<le> jstart v \<and> jstart v \<le> jend v \<and> jend v \<le> hi"
  by (cases v) auto

lemma jtoks_span: "jfits lo hi v \<Longrightarrow> t \<in> set (jtoks v) \<Longrightarrow> jstart v \<le> jt_start t \<and> jt_end t \<le> jend v \<and> jt_start t \<le> jt_end t"
proof (induction v arbitrary: lo hi t rule: jtoks.induct)
  case (1 s e vs)
  show ?case
  proof (cases "t = jtok (JArr s e vs)")
    case False
    then obtain v where v: "v \<in> set vs" "t \<in> set (jtoks v)" using "1.prems"(2) by auto
    then have f: "jfits (s + 1) (e - 1) v" using "1.prems"(1) by auto
    have "jstart v \<le> jt_start t \<and> jt_end t \<le> jend v \<and> jt_start t \<le> jt_end t" by (rule "1.IH" [OF v(1) f v(2)])
    with jfits_span [OF f] show ?thesis by simp
  qed (use "1.prems" in auto)
next
  case (2 s e ms)
  show ?case
  proof (cases "t = jtok (JObj s e ms)")
    case False
    then obtain k v where v: "(k, v) \<in> set ms" "t = name_tok k \<or> t \<in> set (jtoks v)" using "2.prems"(2) by auto
    then have f: "jfits (s + 1) (e - 1) v" "s < fst k" "fst k \<le> snd k" "snd k < jstart v" using "2.prems"(1) by auto
    show ?thesis
    proof (cases "t = name_tok k")
      case True
      with f jfits_span [OF f(1)] show ?thesis by auto
    next
      case False
      with v have "t \<in> set (jtoks v)" by simp
      then have "jstart v \<le> jt_start t \<and> jt_end t \<le> jend v \<and> jt_start t \<le> jt_end t" by (rule "2.IH" [OF v(1) refl f(1)])
      with jfits_span [OF f(1)] show ?thesis by simp
    qed
  qed (use "2.prems" in auto)
qed auto

text \<open>Inside a value, every token but the first starts before the end of the value.\<close>

lemma jtoks_inside:
  assumes "jfits lo hi (JObj s e ms)" "t \<in> set (concat (map (\<lambda>(k, v). name_tok k # jtoks v) ms))"
  shows "s < jt_start t \<and> jt_start t < e"
proof -
  from assms(2) obtain k v where v: "(k, v) \<in> set ms" "t = name_tok k \<or> t \<in> set (jtoks v)" by auto
  with assms(1) have f: "jfits (s + 1) (e - 1) v" "s < fst k" "fst k \<le> snd k" "snd k < jstart v" by auto
  with v jtoks_span [OF f(1), of t] jfits_span [OF f(1)] show ?thesis by auto
qed

section \<open>Finding a member\<close>

text \<open>The reference: the index of the value of the first member with the name.\<close>

fun find_member :: "jsmn_parser \<Rightarrow> bytes \<Rightarrow> nat \<Rightarrow> ((int \<times> int) \<times> jval) list \<Rightarrow> nat option" where
  "find_member p name i [] = None"
| "find_member p name i ((k, v) # ms) =
     (if jname p k name then Some (i + 1) else find_member p name (i + 1 + length (jtoks v)) ms)"

abbreviation member_toks :: "((int \<times> int) \<times> jval) list \<Rightarrow> jsmntok list" where
  "member_toks ms \<equiv> concat (map (\<lambda>(k, v). name_tok k # jtoks v) ms)"

lemma loop_skip:
  "\<forall>t \<in> set ts. jt_start t < next \<and> jt_start t \<le> jt_end obj \<Longrightarrow>
   get_val_loop p obj name i (ts @ rest) next nm = get_val_loop p obj name (i + length ts) rest next nm"
  by (induction ts arbitrary: i) auto

lemma loop_none:
  "\<forall>t \<in> set post. jt_start t < next \<or> jt_end obj < jt_start t \<Longrightarrow> get_val_loop p obj name i post next nm = None"
  by (induction post arbitrary: i) auto

text \<open>One member: the name and the value are read, and a value that is an object is passed over.\<close>

lemma loop_member:
  assumes "jt_start obj = s" "jt_end obj = e" "jfits lo hi (JObj s e ((k, v) # ms))" "next \<le> fst k"
  shows "get_val_loop p obj name i (name_tok k # jtoks v @ rest) next None =
    (if jname p k name then Some (i + 1)
     else if jtype v = JSMN_ARRAY then get_val_loop p obj name (i + 2) (tl (jtoks v) @ rest) next None
     else get_val_loop p obj name (i + 1 + length (jtoks v)) rest (if jtype v = JSMN_OBJECT then jend v else next) None)"
proof -
  from assms(3) have f: "jfits (s + 1) (e - 1) v" "s < fst k" "fst k \<le> snd k" "snd k < jstart v" by auto
  note sp = jfits_span [OF f(1)]
  obtain ts where ts: "jtoks v = jtok v # ts" using jtoks_Cons by blast
  have k: "get_val_loop p obj name i (name_tok k # jtoks v @ rest) next None =
      get_val_loop p obj name (i + 1) (jtok v # ts @ rest) next (Some (name_tok k))"
    using assms f sp ts by simp
  have jn: "(jt_end (name_tok k) - jt_start (name_tok k) = int (length name) \<and>
      js_text p (jt_start (name_tok k)) (length name) = name) \<longleftrightarrow> jname p k name"
    by (simp add: jname_def)
  show ?thesis
  proof (cases "jname p k name")
    case True
    with k jn assms f sp show ?thesis by simp
  next
    case False
    then have g: "get_val_loop p obj name (i + 1) (jtok v # ts @ rest) next (Some (name_tok k)) =
        get_val_loop p obj name (i + 2) (ts @ rest) (if jtype v = JSMN_OBJECT then jend v else next) None"
      using jn assms f sp by (auto simp: Let_def)
    note c = trans [OF k g]
    show ?thesis
    proof (cases v)
      case (JObj s' e' ms')
      have "\<forall>t \<in> set ts. jt_start t < jend v \<and> jt_start t \<le> jt_end obj"
      proof
        fix t assume "t \<in> set ts"
        then have "s' < jt_start t \<and> jt_start t < e'" using jtoks_inside [of "s + 1" "e - 1" s' e' ms' t] f(1) ts JObj by auto
        then show "jt_start t < jend v \<and> jt_start t \<le> jt_end obj" using sp assms(2) JObj by simp
      qed
      then have "get_val_loop p obj name (i + 2) (ts @ rest) (jend v) None =
          get_val_loop p obj name (i + 2 + length ts) rest (jend v) None" by (rule loop_skip)
      with c False ts JObj show ?thesis by (simp del: get_val_loop.simps)
    qed (use c False ts in \<open>simp_all del: get_val_loop.simps\<close>)
  qed
qed

definition no_array :: "(int \<times> int) \<times> jval \<Rightarrow> bool" where
  "no_array m \<longleftrightarrow> jtype (snd m) \<noteq> JSMN_ARRAY"

lemma jfits_tail: "jfits lo hi (JObj s e (m # ms)) \<Longrightarrow> jfits lo hi (JObj s e ms)"
  by auto

text \<open>The members up to a point, none of them an array and none with the name.\<close>

lemma loop_members:
  assumes "jt_start obj = s" "jt_end obj = e" "jfits lo hi (JObj s e (ms @ ms'))" "list_all no_array ms"
    "next \<le> s \<or> ms @ ms' = [] \<or> next \<le> fst (fst (hd (ms @ ms')))" "\<forall>m \<in> set ms. \<not> jname p (fst m) name" "next \<le> e"
  shows "\<exists>next'. get_val_loop p obj name i (member_toks ms @ rest) next None =
    get_val_loop p obj name (i + length (member_toks ms)) rest next' None \<and>
    (next' \<le> s \<or> ms' = [] \<or> next' \<le> fst (fst (hd ms'))) \<and> next' \<le> e \<and> next \<le> next'"
  using assms
proof (induction ms arbitrary: i "next")
  case Nil
  then show ?case by auto
next
  case (Cons m ms)
  obtain k v where m: "m = (k, v)" by (cases m)
  from Cons.prems(3) have fit: "jfits lo hi (JObj s e ((k, v) # ms @ ms'))" by (simp only: m append_Cons)
  then have f: "jfits (s + 1) (e - 1) v" "s < fst k" "fst k \<le> snd k" "snd k < jstart v"
    and later: "\<forall>n \<in> set (ms @ ms'). jend v < fst (fst n)" by auto
  note sp = jfits_span [OF f(1)]
  have nk: "next \<le> fst k" using Cons.prems(5) f(2) m by auto
  have na: "\<not> jname p k name" "jtype v \<noteq> JSMN_ARRAY" using Cons.prems(4,6) m by (auto simp: no_array_def)
  define nx where "nx = (if jtype v = JSMN_OBJECT then jend v else next)"
  have step: "get_val_loop p obj name i (member_toks (m # ms) @ rest) next None =
      get_val_loop p obj name (i + 1 + length (jtoks v)) (member_toks ms @ rest) nx None"
    using loop_member [OF Cons.prems(1,2) fit nk] na by (simp add: m nx_def)
  have nx: "nx \<le> s \<or> ms @ ms' = [] \<or> nx \<le> fst (fst (hd (ms @ ms')))" "nx \<le> e" "next \<le> nx"
  proof -
    have "nx \<le> jend v" using nk f sp by (simp add: nx_def)
    then show "nx \<le> s \<or> ms @ ms' = [] \<or> nx \<le> fst (fst (hd (ms @ ms')))" using later by (cases "ms @ ms'") auto
    show "nx \<le> e" using \<open>nx \<le> jend v\<close> sp by simp
    show "next \<le> nx" using nk f sp by (simp add: nx_def)
  qed
  have "list_all no_array ms" "\<forall>m \<in> set ms. \<not> jname p (fst m) name" using Cons.prems(4,6) by auto
  from Cons.IH [OF Cons.prems(1,2) jfits_tail [OF fit] this(1) nx(1) this(2) nx(2), of "i + 1 + length (jtoks v)"]
  show ?case using step nx(3) by (auto simp: m add.assoc)
qed

lemma find_member_append:
  "\<forall>m \<in> set ms. \<not> jname p (fst m) name \<Longrightarrow> find_member p name i (ms @ ms') = find_member p name (i + length (member_toks ms)) ms'"
  by (induction ms arbitrary: i) (auto simp: add.assoc)

text \<open>
  C32. On the tokens of an object, \<open>jsmn_get_val\<close> gives the value of the first member with the name, or
  fails if there is none, provided no member before it has an array for its value.
\<close>

theorem jsmn_get_val_correct:
  assumes "jp_tokens p = pre @ jtoks (JObj s e ms) @ post" "jfits lo hi (JObj s e ms)" "0 \<le> s"
    "\<forall>t \<in> set post. jt_start t < 0 \<or> e < jt_start t"
    "list_all no_array (takeWhile (\<lambda>m. \<not> jname p (fst m) name) ms)"
  shows "jsmn_get_val p (Some (length pre)) name = find_member p name (length pre + 1) ms"
proof -
  let ?obj = "jtok (JObj s e ms)"
  define ms1 where "ms1 = takeWhile (\<lambda>m. \<not> jname p (fst m) name) ms"
  define ms2 where "ms2 = dropWhile (\<lambda>m. \<not> jname p (fst m) name) ms"
  have ms: "ms = ms1 @ ms2" by (simp add: ms1_def ms2_def)
  have n1: "\<forall>m \<in> set ms1. \<not> jname p (fst m) name" by (auto simp: ms1_def dest: set_takeWhileD)
  have o: "jsmn_get_val p (Some (length pre)) name =
      get_val_loop p ?obj name (length pre + 1) (member_toks ms1 @ member_toks ms2 @ post) s None"
    using assms(1) by (simp add: jsmn_get_val_def nth_append ms Let_def)
  have se: "s < e" using assms(2) by simp
  have "jfits lo hi (JObj s e (ms1 @ ms2))" using assms(2) ms by simp
  from loop_members [of ?obj, OF _ _ this _ _ n1, of s "length pre + 1" "member_toks ms2 @ post"] assms(5) se
  obtain nx where nx: "get_val_loop p ?obj name (length pre + 1) (member_toks ms1 @ member_toks ms2 @ post) s None =
      get_val_loop p ?obj name (length pre + 1 + length (member_toks ms1)) (member_toks ms2 @ post) nx None"
    "nx \<le> s \<or> ms2 = [] \<or> nx \<le> fst (fst (hd ms2))" "s \<le> nx" "nx \<le> e"
    by (auto simp: ms1_def)
  have "get_val_loop p ?obj name (length pre + 1 + length (member_toks ms1)) (member_toks ms2 @ post) nx None =
      find_member p name (length pre + 1 + length (member_toks ms1)) ms2"
  proof (cases ms2)
    case Nil
    have "get_val_loop p ?obj name j post nx None = None" for j
      by (rule loop_none) (use assms(3,4) nx(3) in fastforce)
    with Nil show ?thesis by simp
  next
    case (Cons m ms3)
    obtain k v where m: "m = (k, v)" by (cases m)
    have j: "jname p k name" using Cons m unfolding ms2_def by (metis dropWhile_eq_Cons_conv fst_conv)
    have "jfits lo hi (JObj s e ((k, v) # ms3))" using assms(2) ms Cons m by (auto simp: sorted_wrt_append)
    moreover have "nx \<le> fst k" using nx(2) Cons m calculation by auto
    ultimately show ?thesis
      using loop_member [of ?obj s e lo hi k v ms3 nx p name _ "member_toks ms3 @ post"] j Cons m by simp
  qed
  then show ?thesis using o nx(1) find_member_append [OF n1, of "length pre + 1" ms2] ms by simp
qed

definition demo_obj :: jval where
  "demo_obj = JObj 0 19 [((2, 3), JObj 5 12 [((7, 8), JPrim 10 11)]), ((14, 15), JPrim 17 18)]"

definition demo_parser :: jsmn_parser where
  "demo_parser = \<lparr>jp_js = str ''{.a.:{.b.:1},.c.:2}'', jp_tokens = jtoks demo_obj\<rparr>"

theorem jsmn_get_val_correct_witness:
  "jsmn_get_val demo_parser (Some 0) (str ''c'') = Some 6"
proof -
  have n: "jname demo_parser (2, 3) (str ''c'') = False" "jname demo_parser (14, 15) (str ''c'') = True"
    by code_simp+
  have "jsmn_get_val demo_parser (Some (length ([] :: jsmntok list))) (str ''c'') =
      find_member demo_parser (str ''c'') (length ([] :: jsmntok list) + 1)
        [((2, 3), JObj 5 12 [((7, 8), JPrim 10 11)]), ((14, 15), JPrim 17 18)]"
    by (rule jsmn_get_val_correct [where e = 19 and s = 0 and post = "[]" and lo = 0 and hi = 19])
      (simp_all add: demo_parser_def demo_obj_def n [unfolded demo_parser_def] no_array_def)
  then show ?thesis by (simp add: n)
qed

text \<open>
  A member whose value is an array is not passed over: the first element of the array is taken for
  the next name.  If it is not a string, the members after the array are not found.
\<close>

theorem jsmn_get_val_after_array:
  assumes "jp_tokens p = pre @ jtoks (JObj s e (ms1 @ (k, JArr a b (v # vs)) # ms2)) @ post"
    "jfits lo hi (JObj s e (ms1 @ (k, JArr a b (v # vs)) # ms2))" "list_all no_array ms1" "jtype v \<noteq> JSMN_STRING"
    "\<forall>m \<in> set ms1. \<not> jname p (fst m) name" "\<not> jname p k name"
  shows "jsmn_get_val p (Some (length pre)) name = None"
proof -
  define ms where "ms = ms1 @ (k, JArr a b (v # vs)) # ms2"
  let ?obj = "jtok (JObj s e ms)"
  have fit: "jfits lo hi (JObj s e (ms1 @ (k, JArr a b (v # vs)) # ms2))" by (rule assms(2))
  then have se: "s < e" by simp
  let ?rest = "member_toks ((k, JArr a b (v # vs)) # ms2) @ post"
  have o: "jsmn_get_val p (Some (length pre)) name = get_val_loop p ?obj name (length pre + 1) (member_toks ms1 @ ?rest) s None"
    using assms(1) by (simp add: jsmn_get_val_def nth_append Let_def ms_def)
  from loop_members [of ?obj, OF _ _ fit assms(3) _ assms(5), of s "length pre + 1" ?rest] se
  obtain nx where nx: "get_val_loop p ?obj name (length pre + 1) (member_toks ms1 @ ?rest) s None =
      get_val_loop p ?obj name (length pre + 1 + length (member_toks ms1)) ?rest nx None"
    "nx \<le> s \<or> nx \<le> fst k" by (auto simp: ms_def)
  have fit2: "jfits lo hi (JObj s e ((k, JArr a b (v # vs)) # ms2))" using fit by (auto simp: sorted_wrt_append)
  then have nk: "nx \<le> fst k" using nx(2) by auto
  have f: "s < fst k" "fst k < a" "s < a" "jfits (a + 1) (b - 1) v" "b < e" using fit2 by auto
  note sp = jfits_span [OF f(4)]
  obtain ts where ts: "jtoks v = jtok v # ts" using jtoks_Cons by blast
  have "get_val_loop p ?obj name i ?rest nx None =
      get_val_loop p ?obj name (i + 2) (jtok v # ts @ concat (map jtoks vs) @ member_toks ms2 @ post) nx None" for i
    using loop_member [of ?obj s e lo hi k "JArr a b (v # vs)" ms2 nx p name i "member_toks ms2 @ post"] fit2 nk assms(6) ts
    by (simp add: ms_def)
  moreover have "get_val_loop p ?obj name i (jtok v # r) nx None = None" for i r
    using assms(4) sp f nk by simp
  ultimately show ?thesis using o nx(1) by simp
qed

theorem jsmn_get_val_after_array_witness:
  "jsmn_get_val \<lparr>jp_js = str ''{.a.:[1],.c.:2}'',
      jp_tokens = jtoks (JObj 0 15 [((2, 3), JArr 5 8 [JPrim 6 7]), ((10, 11), JPrim 13 14)])\<rparr> (Some 0) (str ''c'') = None"
    (is "jsmn_get_val ?p _ _ = _")
proof -
  have n: "jname ?p (2, 3) (str ''c'') = False" by code_simp
  have "jsmn_get_val ?p (Some (length ([] :: jsmntok list))) (str ''c'') = None"
    by (rule jsmn_get_val_after_array [where s = 0 and e = 15 and lo = 0 and hi = 15 and post = "[]" and k = "(2, 3)" and
          a = 5 and b = 8 and v = "JPrim 6 7" and vs = "[]" and ?ms1.0 = "[]" and ?ms2.0 = "[((10, 11), JPrim 13 14)]"])
      (use n in simp_all)
  then show ?thesis by simp
qed

end
