(* ===== verification/Clock.thy ===== *)
theory Clock
  imports Prelude
begin

text \<open>
  The calendar of \<^verbatim>\<open>libayla/clock_utils.c\<close>: \<open>clock_is_leap\<close>, \<open>clock_fill_details\<close>,
  \<open>clock_ints_to_time\<close> and the four functions that move a \<open>struct clock_info\<close> by a day or a month.
  Unsigned integers are \<^typ>\<open>nat\<close> with the wrap-around of their width written out (\<open>add32\<close>, \<open>sub32\<close>,
  \<open>mul32\<close>, \<open>sub8\<close>), so that the guards against \<open>MAX_U32\<close> in the code keep their meaning.
\<close>

definition add32 :: "nat \<Rightarrow> nat \<Rightarrow> nat" where
  "add32 a b = (a + b) mod 2 ^ 32"

definition sub32 :: "nat \<Rightarrow> nat \<Rightarrow> nat" where
  "sub32 a b = (if b \<le> a then a - b else a + 2 ^ 32 - b)"

definition mul32 :: "nat \<Rightarrow> nat \<Rightarrow> nat" where
  "mul32 a b = (a * b) mod 2 ^ 32"

definition inc8 :: "nat \<Rightarrow> nat" where
  "inc8 a = (a + 1) mod 256"

definition sub8 :: "nat \<Rightarrow> nat \<Rightarrow> nat" where
  "sub8 a b = (if b \<le> a then a - b else a + 256 - b)"

abbreviation MAX32 :: nat where
  "MAX32 \<equiv> 4294967295"

abbreviation ONE_DAY :: nat where
  "ONE_DAY \<equiv> 86400"

abbreviation CLOCK_EPOCH :: nat where
  "CLOCK_EPOCH \<equiv> 1970"

lemma add32_exact: "a + b < 4294967296 \<Longrightarrow> add32 a b = a + b"
  by (simp add: add32_def)

lemma sub32_exact: "b \<le> a \<Longrightarrow> sub32 a b = a - b"
  by (simp add: sub32_def)

lemma mul32_exact: "a * b < 4294967296 \<Longrightarrow> mul32 a b = a * b"
  by (simp add: mul32_def)

lemma sub8_exact: "b \<le> a \<Longrightarrow> sub8 a b = a - b"
  by (simp add: sub8_def)

lemma inc8_exact: "a < 255 \<Longrightarrow> inc8 a = a + 1"
  by (simp add: inc8_def)

lemmas c_exact = add32_exact sub32_exact mul32_exact sub8_exact inc8_exact

section \<open>Data\<close>

record clock_info =
  clk_time :: nat
  clk_month_start :: nat
  clk_month_end :: nat
  clk_day_start :: nat
  clk_day_end :: nat
  clk_secs_since_midnight :: nat
  clk_year :: nat
  clk_month :: nat
  clk_days :: nat
  clk_hour :: nat
  clk_min :: nat
  clk_sec :: nat
  clk_days_left_in_month :: nat
  clk_day_of_week :: nat
  clk_day_occur_in_month :: nat
  clk_is_leap :: nat

definition clock_mdays :: "nat list" where
  "clock_mdays = [31, 28, 31, 30, 31, 30, 31, 31, 30, 31, 30, 31]"

definition clock_days_before_month :: "nat list" where
  "clock_days_before_month =
    [0,
     31,
     31 + 28,
     31 + 28 + 31,
     31 + 28 + 31 + 30,
     31 + 28 + 31 + 30 + 31,
     31 + 28 + 31 + 30 + 31 + 30,
     31 + 28 + 31 + 30 + 31 + 30 + 31,
     31 + 28 + 31 + 30 + 31 + 30 + 31 + 31,
     31 + 28 + 31 + 30 + 31 + 30 + 31 + 31 + 30,
     31 + 28 + 31 + 30 + 31 + 30 + 31 + 31 + 30 + 31,
     31 + 28 + 31 + 30 + 31 + 30 + 31 + 31 + 30 + 31 + 30]"

definition clock_is_leap :: "nat \<Rightarrow> nat" where
  "clock_is_leap y =
     (if \<not> (y mod 4 \<noteq> 0 \<or> (y mod 100 = 0 \<and> y mod 400 \<noteq> 0)) then 1 else 0)"

definition clock_get_day_occur_in_month :: "nat \<Rightarrow> nat" where
  "clock_get_day_occur_in_month d = ((d + 6) div 7) mod 256"

text \<open>
  The number of days of a month, \<open>clock_mdays[month - 1] + (month == 2 ? is_leap : 0)\<close>.  A month
  outside 1..12 would read outside the array; the model reads 0 there, and no function below does.
\<close>

definition mdays_of :: "nat \<Rightarrow> nat \<Rightarrow> nat" where
  "mdays_of leap m = (if 1 \<le> m \<and> m \<le> 12 then clock_mdays ! (m - 1) else 0) + (if m = 2 then leap else 0)"

section \<open>Breaking a time up\<close>

text \<open>
  The two loops of \<open>clock_fill_details\<close> on the number of days since the epoch.  The month loop
  would read past the array after December; the model stops there and \<open>month_loop_valid\<close> shows that
  it never gets there.
\<close>

function year_loop :: "nat \<Rightarrow> nat \<Rightarrow> nat \<times> nat" where
  "year_loop y t =
     (if t < 365 + clock_is_leap y then (y, t) else year_loop (y + 1) (t - (365 + clock_is_leap y)))"
  by pat_completeness auto
termination
  by (relation "measure (\<lambda>(y, t). t)") auto

declare year_loop.simps [simp del]

function month_loop :: "nat \<Rightarrow> nat \<Rightarrow> nat \<Rightarrow> nat \<times> nat" where
  "month_loop leap m t =
     (if 12 < m \<or> t < mdays_of leap m then (m, t) else month_loop leap (m + 1) (t - mdays_of leap m))"
  by pat_completeness auto
termination
  by (relation "measure (\<lambda>(leap, m, t). 13 - m)") auto

declare month_loop.simps [simp del]

text \<open>The end of the month from \<open>day_end\<close> and \<open>days_left_in_month\<close>, as three functions compute it.\<close>

definition month_end_of :: "nat \<Rightarrow> nat \<Rightarrow> nat" where
  "month_end_of dl de = (if dl * ONE_DAY > MAX32 - de then MAX32 else de + dl * ONE_DAY)"

definition clock_fill_details :: "nat \<Rightarrow> clock_info" where
  "clock_fill_details t0 =
     (let s = t0 mod 60; t1 = t0 div 60;
          mi = t1 mod 60; t2 = t1 div 60;
          h = t2 mod 24; t3 = t2 div 24;
          dow0 = (t3 + 4) mod 7;
          dow = (if dow0 = 0 then 7 else dow0);
          ssm = h * 60 * 60 + mi * 60 + s;
          ds = sub32 t0 ssm;
          de = (if ONE_DAY - 1 > MAX32 - ds then MAX32 else ds + ONE_DAY - 1);
          (y, t4) = year_loop CLOCK_EPOCH t3;
          leap = clock_is_leap y;
          (m, t5) = month_loop leap 1 t4;
          d = (t5 + 1) mod 256;
          dl = sub8 (mdays_of leap m) d;
          ms = sub32 ds ((d - 1) * ONE_DAY);
          me = month_end_of dl de
      in \<lparr>clk_time = t0, clk_month_start = ms, clk_month_end = me, clk_day_start = ds, clk_day_end = de,
          clk_secs_since_midnight = ssm, clk_year = y, clk_month = m, clk_days = d, clk_hour = h, clk_min = mi, clk_sec = s,
          clk_days_left_in_month = dl, clk_day_of_week = dow,
          clk_day_occur_in_month = clock_get_day_occur_in_month d, clk_is_leap = leap\<rparr>)"

text \<open>\<open>clock_ints_to_time\<close>: \<^term>\<open>None\<close> is the return value \<open>-1\<close> (with \<open>*timep = 0\<close>).\<close>

fun leap_sum :: "nat \<Rightarrow> nat \<Rightarrow> nat" where
  "leap_sum acc 0 = acc"
| "leap_sum acc (Suc n) = add32 (leap_sum acc n) (clock_is_leap (CLOCK_EPOCH + n))"

definition clock_ints_to_time :: "nat \<Rightarrow> nat \<Rightarrow> nat \<Rightarrow> nat \<Rightarrow> nat \<Rightarrow> nat \<Rightarrow> nat option" where
  "clock_ints_to_time y m d h mi s =
     (if y < CLOCK_EPOCH \<or> m > 12 \<or> m < 1 \<or> d < 1 \<or> h > 24 \<or> mi > 59 \<or> s > 59 then None
      else
        let leap = clock_is_leap y;
            t = mul32 (y - CLOCK_EPOCH) 365;
            t = leap_sum t (y - CLOCK_EPOCH);
            t = add32 t (clock_days_before_month ! (m - 1));
            t = add32 t (if m > 2 \<and> leap \<noteq> 0 then 1 else 0) in
        if d > 28 \<and> m = 2 \<and> (d > 29 \<or> leap = 0) then None
        else if d > 28 \<and> m \<noteq> 2 \<and> d > clock_mdays ! (m - 1) then None
        else
          let t = add32 t (d - 1);
              t = add32 (mul32 t 24) h;
              t = add32 (mul32 t 60) mi;
              t = add32 (mul32 t 60) s
          in Some t)"

section \<open>Moving by a day or a month\<close>

definition clock_incr_day :: "clock_info \<Rightarrow> clock_info" where
  "clock_incr_day clk =
     (let t = (if MAX32 - clk_time clk < ONE_DAY then MAX32 else clk_time clk + ONE_DAY);
          dow = (if inc8 (clk_day_of_week clk) = 8 then 1 else inc8 (clk_day_of_week clk));
          ds = sub32 t (clk_secs_since_midnight clk);
          de = (if t = MAX32 \<or> ONE_DAY - 1 > MAX32 - ds then MAX32 else ds + ONE_DAY - 1);
          clk = clk\<lparr>clk_time := t, clk_day_of_week := dow, clk_day_start := ds, clk_day_end := de\<rparr>;
          recalc_month_end = (clk_days_left_in_month clk = 0);
          clk = (if recalc_month_end then
                   (let clk = (if clk_month clk = 12 then
                                 clk\<lparr>clk_month := 1, clk_year := add32 (clk_year clk) 1,
                                   clk_is_leap := clock_is_leap (add32 (clk_year clk) 1)\<rparr>
                               else clk)
                    in clk\<lparr>clk_days := 1, clk_month_start := clk_day_start clk\<rparr>)
                 else clk\<lparr>clk_days := inc8 (clk_days clk)\<rparr>);
          clk = clk\<lparr>clk_day_occur_in_month := clock_get_day_occur_in_month (clk_days clk),
                  clk_days_left_in_month := sub8 (mdays_of (clk_is_leap clk) (clk_month clk)) (clk_days clk)\<rparr>
      in if \<not> recalc_month_end then clk
         else clk\<lparr>clk_month_end := month_end_of (clk_days_left_in_month clk) (clk_day_end clk)\<rparr>)"

definition clock_decr_day :: "clock_info \<Rightarrow> clock_info" where
  "clock_decr_day clk =
     (let t = (if clk_time clk < ONE_DAY then 0 else clk_time clk - ONE_DAY);
          dow = (if sub8 (clk_day_of_week clk) 1 = 0 then 7 else sub8 (clk_day_of_week clk) 1);
          ds = sub32 t (clk_secs_since_midnight clk);
          de = add32 ds (ONE_DAY - 1);
          d = sub8 (clk_days clk) 1;
          clk = clk\<lparr>clk_time := t, clk_day_of_week := dow, clk_day_start := ds, clk_day_end := de,
                  clk_days := d\<rparr>;
          recalc_month_start = (d = 0);
          clk = (if recalc_month_start then
                   (let m = sub8 (clk_month clk) 1;
                        clk = (if m = 0 then
                                 clk\<lparr>clk_month := 12, clk_year := sub32 (clk_year clk) 1,
                                   clk_is_leap := clock_is_leap (sub32 (clk_year clk) 1)\<rparr>
                               else clk\<lparr>clk_month := m\<rparr>)
                    in clk\<lparr>clk_days := mdays_of (clk_is_leap clk) (clk_month clk),
                         clk_month_end := clk_day_end clk\<rparr>)
                 else clk);
          clk = clk\<lparr>clk_days_left_in_month := sub8 (mdays_of (clk_is_leap clk) (clk_month clk)) (clk_days clk),
                  clk_day_occur_in_month := clock_get_day_occur_in_month (clk_days clk)\<rparr>
      in if \<not> recalc_month_start then clk
         else clk\<lparr>clk_month_start :=
                (if clk_time clk = 0 \<or> clk_days clk * ONE_DAY > clk_month_end clk then 0
                 else clk_month_end clk - clk_days clk * ONE_DAY)\<rparr>)"

definition clock_incr_month :: "clock_info \<Rightarrow> clock_info" where
  "clock_incr_month clk =
     (if clk_month_end clk = MAX32 then clk
      else
        let ms = add32 (clk_month_end clk) 1;
            dow0 = (clk_day_of_week clk + clk_days_left_in_month clk) mod 7;
            dow = (if dow0 = 0 then 7 else dow0);
            de = (if ONE_DAY - 1 > MAX32 - ms then MAX32 else ms + ONE_DAY - 1);
            m = inc8 (clk_month clk);
            clk = clk\<lparr>clk_sec := 0, clk_min := 0, clk_hour := 0, clk_secs_since_midnight := 0,
                    clk_month_start := ms, clk_day_start := ms, clk_time := ms,
                    clk_day_of_week := dow, clk_day_end := de\<rparr>;
            clk = (if m = 13 then
                     clk\<lparr>clk_month := 1, clk_year := add32 (clk_year clk) 1,
                       clk_is_leap := clock_is_leap (add32 (clk_year clk) 1)\<rparr>
                   else clk\<lparr>clk_month := m\<rparr>);
            clk = clk\<lparr>clk_days := 1, clk_day_occur_in_month := 1,
                    clk_days_left_in_month := sub8 (mdays_of (clk_is_leap clk) (clk_month clk)) 1\<rparr>
        in clk\<lparr>clk_month_end := month_end_of (clk_days_left_in_month clk) (clk_day_end clk)\<rparr>)"

definition clock_decr_month :: "clock_info \<Rightarrow> clock_info" where
  "clock_decr_month clk =
     (if clk_month_start clk = 0 then clk
      else
        let me = clk_month_start clk - 1;
            ds = (if me < ONE_DAY - 1 then 0 else me - (ONE_DAY - 1));
            m = sub8 (clk_month clk) 1;
            clk = clk\<lparr>clk_month_end := me, clk_day_end := me, clk_time := me,
                    clk_sec := 59, clk_min := 59, clk_hour := 23,
                    clk_secs_since_midnight := ONE_DAY - 1, clk_day_start := ds\<rparr>;
            clk = (if m = 0 then
                     clk\<lparr>clk_month := 12, clk_year := sub32 (clk_year clk) 1,
                       clk_is_leap := clock_is_leap (sub32 (clk_year clk) 1)\<rparr>
                   else clk\<lparr>clk_month := m\<rparr>);
            d = mdays_of (clk_is_leap clk) (clk_month clk);
            dow0 = (me div ONE_DAY + 4) mod 7;
            clk = clk\<lparr>clk_days := d, clk_days_left_in_month := 0,
                    clk_day_occur_in_month := clock_get_day_occur_in_month d,
                    clk_day_of_week := dow0\<rparr>
        in clk\<lparr>clk_month_start := (if ds < (d - 1) * ONE_DAY then 0 else ds - (d - 1) * ONE_DAY)\<rparr>)"

section \<open>Day numbers\<close>

text \<open>
  The reference: the Gregorian date \<open>(y, m, d)\<close> is day number \<open>day_number y m d\<close> after
  1970-01-01, obtained by adding up the lengths of the years and months before it.
\<close>

definition year_days :: "nat \<Rightarrow> nat" where
  "year_days y = 365 + clock_is_leap y"

definition days_to_year :: "nat \<Rightarrow> nat" where
  "days_to_year y = (\<Sum>k = CLOCK_EPOCH..<y. year_days k)"

definition days_to_month :: "nat \<Rightarrow> nat \<Rightarrow> nat" where
  "days_to_month y m = (\<Sum>k = 1..<m. mdays_of (clock_is_leap y) k)"

definition day_number :: "nat \<Rightarrow> nat \<Rightarrow> nat \<Rightarrow> nat" where
  "day_number y m d = days_to_year y + days_to_month y m + (d - 1)"

definition valid_date :: "nat \<Rightarrow> nat \<Rightarrow> nat \<Rightarrow> bool" where
  "valid_date y m d \<longleftrightarrow> CLOCK_EPOCH \<le> y \<and> 1 \<le> m \<and> m \<le> 12 \<and> 1 \<le> d \<and> d \<le> mdays_of (clock_is_leap y) m"

lemma leap_le_1: "clock_is_leap y \<le> 1"
  by (simp add: clock_is_leap_def)

lemma leap_cases: "clock_is_leap y = 0 \<or> clock_is_leap y = 1"
  by (simp add: clock_is_leap_def)

lemma month_cases: "1 \<le> m \<Longrightarrow> m \<le> 12 \<Longrightarrow> m \<in> {1,2,3,4,5,6,7,8,9,10,11,12 :: nat}"
  by simp presburger

lemma mdays_table:
  "mdays_of l 1 = 31" "mdays_of l (Suc 0) = 31" "mdays_of l 2 = 28 + l" "mdays_of l 3 = 31"
  "mdays_of l 4 = 30" "mdays_of l 5 = 31" "mdays_of l 6 = 30" "mdays_of l 7 = 31" "mdays_of l 8 = 31"
  "mdays_of l 9 = 30" "mdays_of l 10 = 31" "mdays_of l 11 = 30" "mdays_of l 12 = 31"
  "mdays_of l 13 = 0" "mdays_of l 0 = 0"
  by (simp_all add: mdays_of_def clock_mdays_def)

lemma mdays_bounds: "1 \<le> m \<Longrightarrow> m \<le> 12 \<Longrightarrow> 28 \<le> mdays_of l m \<and> (l \<le> 1 \<longrightarrow> mdays_of l m \<le> 31)"
  by (drule (1) month_cases) (auto simp: mdays_table simp del: One_nat_def)

lemma days_to_year_Suc: "CLOCK_EPOCH \<le> y \<Longrightarrow> days_to_year (Suc y) = days_to_year y + year_days y"
  by (simp add: days_to_year_def)

lemma days_to_month_1: "days_to_month y 1 = 0" "days_to_month y (Suc 0) = 0"
  by (simp_all add: days_to_month_def)

lemma days_to_month_Suc: "Suc 0 \<le> m \<Longrightarrow> days_to_month y (Suc m) = days_to_month y m + mdays_of (clock_is_leap y) m"
  by (simp add: days_to_month_def)

lemma days_to_month_table:
  "days_to_month y 2 = 31" "days_to_month y 3 = 59 + clock_is_leap y" "days_to_month y 4 = 90 + clock_is_leap y"
  "days_to_month y 5 = 120 + clock_is_leap y" "days_to_month y 6 = 151 + clock_is_leap y"
  "days_to_month y 7 = 181 + clock_is_leap y" "days_to_month y 8 = 212 + clock_is_leap y"
  "days_to_month y 9 = 243 + clock_is_leap y" "days_to_month y 10 = 273 + clock_is_leap y"
  "days_to_month y 11 = 304 + clock_is_leap y" "days_to_month y 12 = 334 + clock_is_leap y"
  "days_to_month y 13 = 365 + clock_is_leap y"
  by (simp_all add: days_to_month_def numeral_eq_Suc sum.atLeast_Suc_lessThan mdays_of_def clock_mdays_def)

lemma days_to_year_mono: "y \<le> z \<Longrightarrow> days_to_year y \<le> days_to_year z"
  unfolding days_to_year_def by (rule sum_mono2) auto

lemma days_to_month_mono: "m \<le> n \<Longrightarrow> days_to_month y m \<le> days_to_month y n"
  unfolding days_to_month_def by (rule sum_mono2) auto

lemma year_day_bound:
  assumes "valid_date y m d"
  shows "days_to_month y m + (d - 1) < year_days y"
proof -
  have "days_to_month y m + mdays_of (clock_is_leap y) m = days_to_month y (Suc m)"
    using assms by (simp add: days_to_month_Suc valid_date_def)
  also have "\<dots> \<le> days_to_month y 13"
    using assms by (intro days_to_month_mono) (simp add: valid_date_def)
  finally show ?thesis
    using assms by (simp add: days_to_month_table year_days_def valid_date_def) arith
qed

text \<open>A day number determines its date.\<close>

lemma day_number_year:
  assumes v: "valid_date y m d" "valid_date y' m' d'" and eq: "day_number y m d = day_number y' m' d'"
  shows "\<not> y < y'"
proof
  assume lt: "y < y'"
  have "day_number y m d < days_to_year (Suc y)"
    using year_day_bound [OF v(1)] v(1) days_to_year_Suc [of y]
    by (simp add: day_number_def valid_date_def)
  also have "\<dots> \<le> days_to_year y'" using lt by (intro days_to_year_mono) simp
  also have "\<dots> \<le> day_number y' m' d'" by (simp add: day_number_def)
  finally show False using eq by simp
qed

lemma day_number_month:
  assumes v: "valid_date y m d" "valid_date y m' d'" and eq: "day_number y m d = day_number y m' d'"
  shows "\<not> m < m'"
proof
  assume lt: "m < m'"
  have "days_to_month y m + (d - 1) < days_to_month y (Suc m)"
    using v(1) by (subst days_to_month_Suc) (auto simp: valid_date_def)
  also have "\<dots> \<le> days_to_month y m'" using lt by (intro days_to_month_mono) simp
  finally show False using eq by (simp add: day_number_def)
qed

lemma day_number_inj:
  assumes v: "valid_date y m d" "valid_date y' m' d'" and eq: "day_number y m d = day_number y' m' d'"
  shows "y = y' \<and> m = m' \<and> d = d'"
proof -
  have y: "y = y'" using day_number_year [OF v eq] day_number_year [OF v(2,1) eq [symmetric]] by simp
  with v eq have m: "m = m'"
    using day_number_month [of y m d m' d'] day_number_month [of y m' d' m d] by force
  show ?thesis using v eq unfolding y m by (auto simp: day_number_def valid_date_def)
qed

section \<open>What the loops compute\<close>

lemma year_loop_spec:
  assumes "CLOCK_EPOCH \<le> y" "year_loop y t = (y', t')"
  shows "y \<le> y' \<and> t' < year_days y' \<and> days_to_year y' + t' = days_to_year y + t"
  using assms
proof (induction y t rule: year_loop.induct)
  case (1 y t)
  show ?case
  proof (cases "t < year_days y")
    case True
    with "1.prems" show ?thesis by (simp add: year_loop.simps [of y t] year_days_def)
  next
    case False
    with "1.prems" have step: "year_loop (y + 1) (t - year_days y) = (y', t')"
      by (simp add: year_loop.simps [of y t] year_days_def)
    from False have "\<not> t < 365 + clock_is_leap y" by (simp add: year_days_def)
    from "1.IH" [OF this] "1.prems" step
    have "Suc y \<le> y' \<and> t' < year_days y' \<and> days_to_year y' + t' = days_to_year (Suc y) + (t - year_days y)"
      by (simp add: year_days_def)
    with False "1.prems" show ?thesis by (simp add: days_to_year_Suc)
  qed
qed

lemma month_loop_spec:
  assumes "1 \<le> m" "m \<le> 12" "days_to_month y m + t < year_days y"
    "month_loop (clock_is_leap y) m t = (m', t')"
  shows "m \<le> m' \<and> m' \<le> 12 \<and> t' < mdays_of (clock_is_leap y) m' \<and>
    days_to_month y m' + t' = days_to_month y m + t"
  using assms
proof (induction "clock_is_leap y" m t rule: month_loop.induct)
  case (1 m t)
  let ?n = "mdays_of (clock_is_leap y) m"
  show ?case
  proof (cases "t < ?n")
    case True
    with "1.prems" show ?thesis by (simp add: month_loop.simps [of _ m t])
  next
    case False
    have "m \<noteq> 12"
      using "1.prems"(3) False by (auto simp: days_to_month_table mdays_table year_days_def)
    moreover from False have sum: "days_to_month y (Suc m) + (t - ?n) = days_to_month y m + t"
      using "1.prems"(1) by (simp add: days_to_month_Suc)
    moreover from False "1.prems"(2,4) have "month_loop (clock_is_leap y) (m + 1) (t - ?n) = (m', t')"
      by (simp add: month_loop.simps [of _ m t])
    ultimately show ?thesis
      using "1.hyps" [of] "1.prems" False by auto
  qed
qed

section \<open>The break-down, field by field\<close>

text \<open>
  The record that describes second \<open>t\<close>, whose date is \<open>(y, m, d)\<close>: all fields in exact arithmetic,
  with the two ends of periods cut off at the last representable second.
\<close>

definition clock_details :: "nat \<Rightarrow> nat \<Rightarrow> nat \<Rightarrow> nat \<Rightarrow> clock_info" where
  "clock_details t y m d =
     (let n = t div ONE_DAY; left = mdays_of (clock_is_leap y) m - d in
      \<lparr>clk_time = t, clk_month_start = (n - (d - 1)) * ONE_DAY,
       clk_month_end = Orderings.min MAX32 ((n + left) * ONE_DAY + 86399),
       clk_day_start = n * ONE_DAY, clk_day_end = Orderings.min MAX32 (n * ONE_DAY + 86399),
       clk_secs_since_midnight = t mod ONE_DAY, clk_year = y, clk_month = m, clk_days = d,
       clk_hour = t mod ONE_DAY div 3600, clk_min = t mod 3600 div 60, clk_sec = t mod 60,
       clk_days_left_in_month = left, clk_day_of_week = (n + 3) mod 7 + 1,
       clk_day_occur_in_month = (d + 6) div 7, clk_is_leap = clock_is_leap y\<rparr>)"

lemma pack_div_nat: "r < k \<Longrightarrow> (k * q + r) div k = (q :: nat)"
  by simp

lemma hms:
  fixes t :: nat
  shows "t div 60 div 60 mod 24 = t mod ONE_DAY div 3600" "t div 60 mod 60 = t mod 3600 div 60"
    "t div 60 div 60 div 24 = t div ONE_DAY"
    "t mod ONE_DAY div 3600 * 60 * 60 + t mod 3600 div 60 * 60 + t mod 60 = t mod ONE_DAY"
proof -
  have d: "t mod ONE_DAY = 3600 * (t div 3600 mod 24) + t mod 3600"
    using mod_mult2_eq [of t 3600 24] by simp
  have h: "t mod 3600 = 60 * (t div 60 mod 60) + t mod 60"
    using mod_mult2_eq [of t 60 60] by simp
  have d': "t mod ONE_DAY div 3600 = t div 3600 mod 24"
    unfolding d by (rule pack_div_nat) simp
  have h': "t mod 3600 div 60 = t div 60 mod 60"
    unfolding h by (rule pack_div_nat) simp
  show "t div 60 div 60 mod 24 = t mod ONE_DAY div 3600"
    by (simp add: d' div_mult2_eq [symmetric])
  show "t div 60 mod 60 = t mod 3600 div 60"
    by (simp only: h')
  show "t div 60 div 60 div 24 = t div ONE_DAY"
    by (simp add: div_mult2_eq [symmetric])
  show "t mod ONE_DAY div 3600 * 60 * 60 + t mod 3600 div 60 * 60 + t mod 60 = t mod ONE_DAY"
    using d h unfolding d' h' by linarith
qed

lemma dow_wrap: "(let w = (n + 4) mod 7 in if w = 0 then 7 else w) = (n + 3) mod 7 + (1 :: nat)"
proof -
  have "(n + 4) mod 7 = ((n + 3) mod 7 + 1) mod 7" by presburger
  moreover have "(n + 3) mod 7 < 7" by simp
  ultimately show ?thesis by (cases "(n + 3) mod 7 = 6") (auto simp: Let_def)
qed

lemma day_of_year_le: "valid_date y m d \<Longrightarrow> d - 1 \<le> day_number y m d"
  by (simp add: day_number_def)

lemma valid_days_le_31: "valid_date y m d \<Longrightarrow> d \<le> 31"
  using mdays_bounds [of m "clock_is_leap y"] leap_le_1 [of y] by (auto simp: valid_date_def)

lemma month_end_of_exact:
  "month_end_of left (Orderings.min MAX32 (n * ONE_DAY + 86399)) =
    Orderings.min MAX32 ((n + left) * ONE_DAY + 86399)"
  by (auto simp: month_end_of_def min_def add_mult_distrib)

lemma month_start_exact:
  assumes "1 \<le> d" "d - 1 \<le> n"
  shows "sub32 (n * ONE_DAY) ((d - 1) * ONE_DAY) = (n - (d - 1)) * ONE_DAY"
proof -
  have "(d - 1) * ONE_DAY \<le> n * ONE_DAY" using assms(2) by (rule mult_le_mono1)
  then show ?thesis by (simp only: sub32_exact diff_mult_distrib)
qed

lemma day_end_exact:
  "n * ONE_DAY \<le> MAX32 \<Longrightarrow>
    (if ONE_DAY - 1 > MAX32 - n * ONE_DAY then MAX32 else n * ONE_DAY + ONE_DAY - 1) =
    Orderings.min MAX32 (n * ONE_DAY + 86399)"
  by (auto simp: min_def)

text \<open>\<open>clock_fill_details\<close> produces the description of the date whose day number is \<open>t div ONE_DAY\<close>.\<close>

lemma fill_details_date:
  obtains y m d where "valid_date y m d" "day_number y m d = t div ONE_DAY"
    "year_loop CLOCK_EPOCH (t div ONE_DAY) = (y, day_number y m d - days_to_year y)"
    "month_loop (clock_is_leap y) 1 (day_number y m d - days_to_year y) = (m, d - 1)"
proof -
  obtain y r where yl: "year_loop CLOCK_EPOCH (t div ONE_DAY) = (y, r)" by force
  obtain m q where ml: "month_loop (clock_is_leap y) 1 r = (m, q)" by force
  from year_loop_spec [OF _ yl] have y: "CLOCK_EPOCH \<le> y" "r < year_days y" "days_to_year y + r = t div ONE_DAY"
    by (simp_all add: days_to_year_def)
  from month_loop_spec [of 1 y r m q] ml y(2) have m: "1 \<le> m" "m \<le> 12" "q < mdays_of (clock_is_leap y) m"
      "days_to_month y m + q = r"
    by (simp_all add: days_to_month_1)
  have "valid_date y m (q + 1)" using y(1) m by (simp add: valid_date_def)
  moreover have "day_number y m (q + 1) = t div ONE_DAY" using y(3) m(4) by (simp add: day_number_def)
  moreover have "day_number y m (q + 1) - days_to_year y = r" using m(4) by (simp add: day_number_def)
  ultimately show thesis using that [of y m "q + 1"] yl ml by simp
qed

lemma fill_details_eq:
  assumes "t \<le> MAX32" "valid_date y m d" "day_number y m d = t div ONE_DAY"
  shows "clock_fill_details t = clock_details t y m d"
proof -
  obtain y' m' d' where f: "valid_date y' m' d'" "day_number y' m' d' = t div ONE_DAY"
    "year_loop CLOCK_EPOCH (t div ONE_DAY) = (y', day_number y' m' d' - days_to_year y')"
    "month_loop (clock_is_leap y') 1 (day_number y' m' d' - days_to_year y') = (m', d' - 1)"
    by (rule fill_details_date)
  from day_number_inj [OF f(1) assms(2)] f(2) assms(3) have eq: "y' = y" "m' = m" "d' = d" by simp_all
  have d: "1 \<le> d" "d \<le> 31" "d \<le> mdays_of (clock_is_leap y) m" "d - 1 \<le> t div ONE_DAY"
    using assms valid_days_le_31 day_of_year_le [of y m d] by (simp_all add: valid_date_def)
  have ds: "sub32 t (t mod ONE_DAY) = t div ONE_DAY * ONE_DAY"
    by (simp add: sub32_def minus_mod_eq_div_mult)
  have le: "t div ONE_DAY * ONE_DAY \<le> MAX32"
    using assms(1) div_times_less_eq_dividend [of t ONE_DAY] by linarith
  have dow: "(if (t div ONE_DAY + 4) mod 7 = 0 then 7 else (t div ONE_DAY + 4) mod 7) = (t div ONE_DAY + 3) mod 7 + 1"
    using dow_wrap [of "t div ONE_DAY"] by (simp add: Let_def)
  have d1: "d - 1 + 1 = d" "d mod 256 = d" "(d + 6) div 7 mod 256 = (d + 6) div 7"
    using d by simp_all
  show ?thesis
    unfolding clock_fill_details_def clock_details_def Let_def hms ds f(3,4) [unfolded eq] prod.case dow
      day_end_exact [OF le] d1 month_start_exact [OF d(1,4)] sub8_exact [OF d(3)] month_end_of_exact
      clock_get_day_occur_in_month_def
    by simp
qed

lemma fill_details_is:
  assumes "t \<le> MAX32"
  obtains y m d where "valid_date y m d" "day_number y m d = t div ONE_DAY"
    "clock_fill_details t = clock_details t y m d"
proof -
  obtain y m d where "valid_date y m d" "day_number y m d = t div ONE_DAY"
    by (rule fill_details_date)
  with fill_details_eq [OF assms] that show thesis by blast
qed

section \<open>From a date to a time\<close>

lemma leap_sum_exact:
  assumes "acc + n < 4294967296"
  shows "leap_sum acc n = acc + (\<Sum>k = CLOCK_EPOCH..<CLOCK_EPOCH + n. clock_is_leap k)"
  using assms
proof (induction n)
  case (Suc n)
  have "(\<Sum>k = CLOCK_EPOCH..<CLOCK_EPOCH + n. clock_is_leap k) \<le> (\<Sum>k = CLOCK_EPOCH..<CLOCK_EPOCH + n. 1)"
    by (rule sum_mono) (rule leap_le_1)
  then have "(\<Sum>k = CLOCK_EPOCH..<CLOCK_EPOCH + n. clock_is_leap k) \<le> n" by simp
  moreover have "(\<Sum>k = CLOCK_EPOCH..<CLOCK_EPOCH + Suc n. clock_is_leap k) =
      (\<Sum>k = CLOCK_EPOCH..<CLOCK_EPOCH + n. clock_is_leap k) + clock_is_leap (CLOCK_EPOCH + n)"
    unfolding add_Suc_right by (rule sum.atLeastLessThan_Suc) simp
  ultimately show ?case using Suc leap_le_1 [of "CLOCK_EPOCH + n"] by (simp add: add32_exact)
qed simp

lemma days_to_year_split:
  assumes "CLOCK_EPOCH \<le> y"
  shows "days_to_year y = (y - CLOCK_EPOCH) * 365 + (\<Sum>k = CLOCK_EPOCH..<y. clock_is_leap k)"
  by (simp add: days_to_year_def year_days_def sum.distrib)

lemma days_before_month_table:
  assumes "1 \<le> m" "m \<le> 12"
  shows "clock_days_before_month ! (m - 1) + (if m > 2 \<and> clock_is_leap y \<noteq> 0 then 1 else 0) = days_to_month y m"
  using month_cases [OF assms] leap_cases [of y]
  by (elim insertE disjE)
    (simp_all add: clock_days_before_month_def days_to_month_table days_to_month_1)

text \<open>Years up to 2105 are those all of whose seconds are representable.\<close>

lemma leap_step:
  "n div 4 + n div 400 + 1 - (n div 100 + 1) + clock_is_leap (Suc n) + (Suc n div 100) =
    Suc n div 4 + Suc n div 400" if "4 \<le> n" for n :: nat
proof -
  have mod: "Suc n mod 400 = 0 \<Longrightarrow> Suc n mod 100 = 0" "Suc n mod 100 = 0 \<Longrightarrow> Suc n mod 4 = 0"
    by presburger+
  have "n div 100 \<le> n div 4" by (rule div_le_mono2) simp_all
  with mod show ?thesis
    by (auto simp: div_Suc clock_is_leap_def simp del: mod_0_imp_dvd)
qed

lemma leap_count_step:
  "S + 477 + c = a + b \<Longrightarrow> a + b + 1 - (c + 1) + l + c' = a' + b' \<Longrightarrow> c \<le> a \<Longrightarrow>
    S + l + 477 + c' = a' + (b' :: nat)"
  by arith

lemma leap_count:
  "CLOCK_EPOCH \<le> y \<Longrightarrow>
    (\<Sum>k = CLOCK_EPOCH..<y. clock_is_leap k) + 477 + (y - 1) div 100 = (y - 1) div 4 + (y - 1) div 400"
proof (induction y rule: nat_induct_at_least)
  case (Suc y)
  then obtain n where n: "y = Suc n" "4 \<le> n" by (cases y) auto
  have "n div 100 \<le> n div 4" by (rule div_le_mono2) simp_all
  from leap_count_step [OF Suc.IH [unfolded n(1) diff_Suc_1] leap_step [OF n(2)] this]
  have "(\<Sum>k = CLOCK_EPOCH..<Suc n. clock_is_leap k) + clock_is_leap (Suc n) + 477 + Suc n div 100 =
    Suc n div 4 + Suc n div 400" .
  moreover have "(\<Sum>k = CLOCK_EPOCH..<Suc (Suc n). clock_is_leap k) =
      (\<Sum>k = CLOCK_EPOCH..<Suc n. clock_is_leap k) + clock_is_leap (Suc n)"
    using Suc.hyps n(1) by (intro sum.atLeastLessThan_Suc) simp
  ultimately show ?case unfolding n(1) diff_Suc_1 by (simp only:)
qed simp

lemma days_to_2106: "days_to_year 2106 = 49673"
  using leap_count [of 2106] by (simp add: days_to_year_split)

lemma ints_to_time_exact:
  assumes v: "valid_date y m d" and y: "y \<le> 2106" and h: "h \<le> 24" "mi \<le> 59" "s \<le> 59"
    and fits: "day_number y m d * ONE_DAY + h * 3600 + mi * 60 + s \<le> MAX32"
  shows "clock_ints_to_time y m d h mi s = Some (day_number y m d * ONE_DAY + h * 3600 + mi * 60 + s)"
proof -
  have range: "CLOCK_EPOCH \<le> y" "1 \<le> m" "m \<le> 12" "1 \<le> d" "d \<le> mdays_of (clock_is_leap y) m"
    using v by (simp_all add: valid_date_def)
  have small: "(y - CLOCK_EPOCH) * 365 + (y - CLOCK_EPOCH) < 4294967296" "days_to_year y \<le> 49673"
    using y days_to_year_mono [of y 2106] by (simp_all add: days_to_2106)
  have t1: "leap_sum (mul32 (y - CLOCK_EPOCH) 365) (y - CLOCK_EPOCH) = days_to_year y"
    using small(1) range(1) by (simp add: mul32_exact leap_sum_exact days_to_year_split)
  have mon: "days_to_month y m \<le> 366"
    using days_to_month_mono [of m 13 y] range(3) leap_le_1 [of y] by (simp add: days_to_month_table)
  have d: "d \<le> 31" by (rule valid_days_le_31 [OF v])
  have day_ok: "\<not> (d > 28 \<and> m = 2 \<and> (d > 29 \<or> clock_is_leap y = 0))" "\<not> (d > 28 \<and> m \<noteq> 2 \<and> d > clock_mdays ! (m - 1))"
    using range leap_cases [of y] by (auto simp: mdays_of_def clock_mdays_def)
  have t2: "add32 (add32 (add32 (days_to_year y) (clock_days_before_month ! (m - 1)))
      (if m > 2 \<and> clock_is_leap y \<noteq> 0 then 1 else 0)) (d - 1) = day_number y m d"
    using days_before_month_table [OF range(2,3), of y] small(2) mon d
    by (simp add: add32_exact day_number_def)
  have n: "day_number y m d \<le> 49710" using fits by linarith
  have "add32 (mul32 (day_number y m d) 24) h = day_number y m d * 24 + h"
    using n h by (simp add: add32_exact mul32_exact)
  moreover have "add32 (mul32 (day_number y m d * 24 + h) 60) mi = day_number y m d * 1440 + h * 60 + mi"
    using n h by (simp add: add32_exact mul32_exact)
  moreover have "add32 (mul32 (day_number y m d * 1440 + h * 60 + mi) 60) s =
      day_number y m d * ONE_DAY + h * 3600 + mi * 60 + s"
    using fits by (simp add: add32_exact mul32_exact)
  ultimately show ?thesis
    using range h day_ok by (simp only: clock_ints_to_time_def Let_def t1 t2) auto
qed

end
