(* ===== verification/ClockMove.thy ===== *)
theory ClockMove
  imports Clock
begin

text \<open>
  What \<open>clock_fill_details\<close>, \<open>clock_ints_to_time\<close> and the four moving functions of
  \<^verbatim>\<open>clock_utils.c\<close> achieve: the two conversions are inverse to each other, and each move is compared
  with the fresh break-down of the time it ends at.
\<close>

section \<open>Conversions\<close>

lemma year_le_2106:
  assumes "t \<le> MAX32" "day_number y m d = t div ONE_DAY"
  shows "y \<le> 2106"
proof (rule ccontr)
  assume "\<not> y \<le> 2106"
  then have "days_to_year 2107 \<le> days_to_year y" by (intro days_to_year_mono) simp
  moreover have "days_to_year 2107 = 50038" using days_to_2106 days_to_year_Suc [of 2106]
    by (simp add: year_days_def clock_is_leap_def)
  ultimately show False using assms by (simp add: day_number_def)
qed

text \<open>
  C40. For every representable second \<open>t\<close>, the break-down is a valid Gregorian date and clock time
  with consistent secondary fields, and \<open>clock_ints_to_time\<close> of its fields is \<open>t\<close> again.
\<close>

theorem clock_fill_ints_roundtrip:
  assumes "t \<le> MAX32"
  shows "let c = clock_fill_details t in
    valid_date (clk_year c) (clk_month c) (clk_days c) \<and> clk_hour c < 24 \<and> clk_min c < 60 \<and> clk_sec c < 60 \<and>
    clk_days c + clk_days_left_in_month c = mdays_of (clk_is_leap c) (clk_month c) \<and>
    clk_day_start c + clk_secs_since_midnight c = t \<and>
    clock_ints_to_time (clk_year c) (clk_month c) (clk_days c) (clk_hour c) (clk_min c) (clk_sec c) = Some t"
proof -
  obtain y m d where v: "valid_date y m d" and n: "day_number y m d = t div ONE_DAY"
    and c: "clock_fill_details t = clock_details t y m d"
    by (rule fill_details_is [OF assms])
  have y: "y \<le> 2106" by (rule year_le_2106 [OF assms n])
  have hms': "t div ONE_DAY * ONE_DAY + t mod ONE_DAY div 3600 * 3600 + t mod 3600 div 60 * 60 + t mod 60 = t"
    using hms(4) [of t] div_mult_mod_eq [of t ONE_DAY] by linarith
  have "clock_ints_to_time y m d (t mod ONE_DAY div 3600) (t mod 3600 div 60) (t mod 60) = Some t"
    using ints_to_time_exact [OF v y, of "t mod ONE_DAY div 3600" "t mod 3600 div 60" "t mod 60"]
    unfolding n hms' using assms by (simp add: less_mult_imp_div_less)
  moreover have "t mod ONE_DAY div 3600 < 24" "t mod 3600 div 60 < 60"
    by (simp_all add: less_mult_imp_div_less)
  ultimately show ?thesis
    using v by (simp add: c clock_details_def valid_date_def Let_def div_mult_mod_eq)
qed

theorem clock_fill_ints_roundtrip_witness:
  "let c = clock_fill_details 1483228800 in
    valid_date (clk_year c) (clk_month c) (clk_days c) \<and> clk_hour c < 24 \<and> clk_min c < 60 \<and> clk_sec c < 60 \<and>
    clk_days c + clk_days_left_in_month c = mdays_of (clk_is_leap c) (clk_month c) \<and>
    clk_day_start c + clk_secs_since_midnight c = 1483228800 \<and>
    clock_ints_to_time (clk_year c) (clk_month c) (clk_days c) (clk_hour c) (clk_min c) (clk_sec c) =
      Some 1483228800"
  by (rule clock_fill_ints_roundtrip) simp

text \<open>
  Conversely, for every valid date from 1970 to 2105 and every clock time before midnight,
  \<open>clock_ints_to_time\<close> returns a time whose break-down is that date and clock time.
\<close>

theorem clock_ints_fill_roundtrip:
  assumes "valid_date y m d" "y \<le> 2105" "h < 24" "mi < 60" "s < 60"
  shows "\<exists>t. clock_ints_to_time y m d h mi s = Some t \<and> t \<le> MAX32 \<and>
    (let c = clock_fill_details t in clk_year c = y \<and> clk_month c = m \<and> clk_days c = d \<and>
      clk_hour c = h \<and> clk_min c = mi \<and> clk_sec c = s)"
proof -
  let ?t = "day_number y m d * ONE_DAY + (h * 3600 + (mi * 60 + s))"
  have "day_number y m d < days_to_year (Suc y)"
    using year_day_bound [OF assms(1)] days_to_year_Suc [of y] assms(1)
    by (simp add: day_number_def valid_date_def)
  also have "\<dots> \<le> 49673" using days_to_year_mono [of "Suc y" 2106] assms(2) by (simp add: days_to_2106)
  finally have n: "day_number y m d < 49673" .
  with assms have le: "?t \<le> MAX32" by linarith
  have r: "h * 3600 + (mi * 60 + s) < ONE_DAY" "mi * 60 + s < 3600" using assms by linarith+
  have t: "?t div ONE_DAY = day_number y m d" "?t mod ONE_DAY = h * 3600 + (mi * 60 + s)"
    using r by simp_all
  have "?t mod 3600 = mi * 60 + s"
    using r(2) mod_mod_cancel [of 3600 ONE_DAY ?t] t(2) by simp
  moreover have "?t mod 60 = s"
    using mod_mod_cancel [of 60 3600 ?t] \<open>?t mod 3600 = mi * 60 + s\<close> assms by simp
  moreover have "clock_fill_details ?t = clock_details ?t y m d"
    using fill_details_eq [OF le assms(1)] t(1) by simp
  moreover have "clock_ints_to_time y m d h mi s = Some ?t"
    using ints_to_time_exact [OF assms(1)] assms le by (simp add: add.assoc)
  ultimately show ?thesis
    using le t r assms by (simp add: clock_details_def Let_def)
qed

theorem clock_ints_fill_roundtrip_witness:
  "\<exists>t. clock_ints_to_time 2000 2 29 23 59 59 = Some t \<and> t \<le> MAX32 \<and>
    (let c = clock_fill_details t in clk_year c = 2000 \<and> clk_month c = 2 \<and> clk_days c = 29 \<and>
      clk_hour c = 23 \<and> clk_min c = 59 \<and> clk_sec c = 59)"
  by (rule clock_ints_fill_roundtrip)
    (simp_all add: valid_date_def mdays_of_def clock_mdays_def clock_is_leap_def)

section \<open>The neighbouring days\<close>

lemma next_day_number:
  "valid_date y m d \<Longrightarrow> d < mdays_of (clock_is_leap y) m \<Longrightarrow>
    valid_date y m (Suc d) \<and> day_number y m (Suc d) = Suc (day_number y m d)"
  by (auto simp: valid_date_def day_number_def)

lemma next_month_number:
  assumes "valid_date y m d" "d = mdays_of (clock_is_leap y) m" "m < 12"
  shows "valid_date y (Suc m) 1 \<and> day_number y (Suc m) 1 = Suc (day_number y m d)"
  using assms mdays_bounds [of "Suc m" "clock_is_leap y"] days_to_month_Suc [of m y]
  by (auto simp: valid_date_def day_number_def)

lemma next_year_number:
  assumes "valid_date y 12 d" "d = mdays_of (clock_is_leap y) 12"
  shows "valid_date (Suc y) 1 1 \<and> day_number (Suc y) 1 1 = Suc (day_number y 12 d)"
  using assms days_to_year_Suc [of y]
  by (auto simp: valid_date_def day_number_def days_to_month_table days_to_month_1 mdays_table year_days_def)

lemma day_later:
  "(t + ONE_DAY) div ONE_DAY = Suc (t div ONE_DAY)" "(t + ONE_DAY) mod ONE_DAY = t mod ONE_DAY"
  "(t + ONE_DAY) mod 3600 = t mod 3600" "(t + ONE_DAY) mod 60 = t mod 60"
proof -
  show "(t + ONE_DAY) mod 3600 = t mod 3600"
    using mod_add_right_eq [of t ONE_DAY 3600] by simp
  show "(t + ONE_DAY) mod 60 = t mod 60"
    using mod_add_right_eq [of t ONE_DAY 60] by simp
qed simp_all

lemma dow_next: "(if inc8 (n mod 7 + 1) = 8 then 1 else inc8 (n mod 7 + 1)) = Suc n mod 7 + 1"
proof -
  have "n mod 7 < 7" by simp
  then show ?thesis by (auto simp: inc8_def mod_Suc)
qed

lemma start_of_next_day:
  assumes "t + ONE_DAY \<le> MAX32"
  shows "sub32 (t + ONE_DAY) (t mod ONE_DAY) = Suc (t div ONE_DAY) * ONE_DAY"
proof -
  have "t div ONE_DAY * ONE_DAY + t mod ONE_DAY = t" by (rule div_mult_mod_eq)
  then have "t + ONE_DAY = Suc (t div ONE_DAY) * ONE_DAY + t mod ONE_DAY" by simp
  moreover have "sub32 (a + b) b = a" for a b by (simp add: sub32_def)
  ultimately show ?thesis by (simp only:)
qed

lemma end_of_next_day:
  assumes "t + ONE_DAY \<le> MAX32"
  shows "(if t + ONE_DAY = MAX32 \<or> ONE_DAY - 1 > MAX32 - Suc (t div ONE_DAY) * ONE_DAY then MAX32
    else Suc (t div ONE_DAY) * ONE_DAY + ONE_DAY - 1) =
    Orderings.min MAX32 (Suc (t div ONE_DAY) * ONE_DAY + 86399)"
proof -
  have "t div ONE_DAY * ONE_DAY + t mod ONE_DAY = t" "t mod ONE_DAY < ONE_DAY"
    by (rule div_mult_mod_eq) simp
  then have "Suc (t div ONE_DAY) * ONE_DAY \<le> t + ONE_DAY" "t < Suc (t div ONE_DAY) * ONE_DAY"
    by simp_all
  then show ?thesis using assms by (auto simp: min_def)
qed

lemmas detail_simps = clock_details_def Let_def day_later

text \<open>The branches of \<open>clock_incr_day\<close> as updates of the record they start from.\<close>

lemma incr_day_inside:
  assumes "\<not> MAX32 - clk_time clk < ONE_DAY" "clk_days_left_in_month clk \<noteq> 0"
  shows "clock_incr_day clk =
    (let t = clk_time clk + ONE_DAY; ds = sub32 t (clk_secs_since_midnight clk); d = inc8 (clk_days clk) in
     clk\<lparr>clk_time := t, clk_day_start := ds,
       clk_day_of_week := if inc8 (clk_day_of_week clk) = 8 then 1 else inc8 (clk_day_of_week clk),
       clk_day_end := if t = MAX32 \<or> ONE_DAY - 1 > MAX32 - ds then MAX32 else ds + ONE_DAY - 1,
       clk_days := d, clk_day_occur_in_month := clock_get_day_occur_in_month d,
       clk_days_left_in_month := sub8 (mdays_of (clk_is_leap clk) (clk_month clk)) d\<rparr>)"
  using assms by (simp add: clock_incr_day_def Let_def)

lemma incr_day_last:
  assumes "\<not> MAX32 - clk_time clk < ONE_DAY" "clk_days_left_in_month clk = 0"
    "m = (if clk_month clk = 12 then 1 else clk_month clk)"
    "y = (if clk_month clk = 12 then add32 (clk_year clk) 1 else clk_year clk)"
    "l = (if clk_month clk = 12 then clock_is_leap y else clk_is_leap clk)"
  shows "clock_incr_day clk =
    (let t = clk_time clk + ONE_DAY; ds = sub32 t (clk_secs_since_midnight clk);
         de = (if t = MAX32 \<or> ONE_DAY - 1 > MAX32 - ds then MAX32 else ds + ONE_DAY - 1);
         left = sub8 (mdays_of l m) 1 in
     clk\<lparr>clk_time := t, clk_day_start := ds, clk_day_end := de,
       clk_day_of_week := if inc8 (clk_day_of_week clk) = 8 then 1 else inc8 (clk_day_of_week clk),
       clk_month := m, clk_year := y, clk_is_leap := l, clk_month_start := ds,
       clk_days := 1, clk_day_occur_in_month := clock_get_day_occur_in_month 1,
       clk_days_left_in_month := left, clk_month_end := month_end_of left de\<rparr>)"
  using assms by (simp add: clock_incr_day_def Let_def)

lemma incr_day_step:
  assumes "t + ONE_DAY \<le> MAX32"
    "clk_days_left_in_month (clock_fill_details t) \<noteq> 0 \<or> clk_month (clock_fill_details t) = 12"
  shows "clock_incr_day (clock_fill_details t) = clock_fill_details (t + ONE_DAY)"
proof -
  have t: "t \<le> MAX32" "\<not> MAX32 - t < ONE_DAY" using assms(1) by simp_all
  obtain y m d where v: "valid_date y m d" and n: "day_number y m d = t div ONE_DAY"
    and c: "clock_fill_details t = clock_details t y m d"
    by (rule fill_details_is [OF t(1)])
  note next_time = start_of_next_day [OF assms(1)] end_of_next_day [OF assms(1)] dow_next
  have d: "1 \<le> d" "d \<le> 31" "d \<le> mdays_of (clock_is_leap y) m" using v valid_days_le_31 by (auto simp: valid_date_def)
  have "mdays_of (clock_is_leap y) m - d \<noteq> 0 \<or> m = 12"
    using assms(2) by (simp add: c clock_details_def Let_def)
  with d(3) consider (inside) "d < mdays_of (clock_is_leap y) m"
    | (december) "d = mdays_of (clock_is_leap y) m" "m = 12"
    by linarith
  then show ?thesis
  proof cases
    case inside
    from fill_details_eq [OF assms(1), of y m "Suc d"] next_day_number [OF v inside]
    have f: "clock_fill_details (t + ONE_DAY) = clock_details (t + ONE_DAY) y m (Suc d)"
      by (simp add: n)
    have i: "inc8 d = Suc d" "sub8 (mdays_of (clock_is_leap y) m) (Suc d) = mdays_of (clock_is_leap y) m - Suc d"
      "(Suc d + 6) div 7 mod 256 = (Suc d + 6) div 7"
      using d inside by (simp_all add: inc8_def sub8_def)
    have e: "t div ONE_DAY + (mdays_of (clock_is_leap y) m - d) =
        Suc (t div ONE_DAY) + (mdays_of (clock_is_leap y) m - Suc d)" "t div ONE_DAY - (d - 1) = Suc (t div ONE_DAY) - (Suc d - 1)"
      using inside d by simp_all
    have w: "Suc (t div ONE_DAY) + 3 = Suc (t div ONE_DAY + 3)" by simp
    have "clk_days_left_in_month (clock_details t y m d) \<noteq> 0" "\<not> MAX32 - clk_time (clock_details t y m d) < ONE_DAY"
      using inside t(2) by (simp_all add: clock_details_def Let_def)
    from incr_day_inside [OF this(2,1)] show ?thesis
      unfolding c f clock_details_def Let_def day_later w
      by (simp only: clock_info.simps next_time i e clock_get_day_occur_in_month_def)
  next
    case december
    have ny: "valid_date (Suc y) 1 1 \<and> day_number (Suc y) 1 1 = Suc (day_number y 12 d)"
      by (rule next_year_number) (use v december in simp_all)
    have f: "clock_fill_details (t + ONE_DAY) = clock_details (t + ONE_DAY) (Suc y) 1 1"
      by (rule fill_details_eq [OF assms(1)]) (use ny n december(2) in \<open>simp_all add: day_later\<close>)
    have y: "add32 y 1 = Suc y"
      using year_le_2106 [OF t(1) n] by (simp add: add32_exact)
    have w: "Suc (t div ONE_DAY) + 3 = Suc (t div ONE_DAY + 3)" by simp
    have z: "sub8 (mdays_of l 1) 1 = 30" "mdays_of l 1 - 1 = 30" "clock_get_day_occur_in_month 1 = (1 + 6) div 7"
      "x - (1 - 1) = x" for l x :: nat
      by (simp_all add: mdays_table sub8_def clock_get_day_occur_in_month_def)
    have "clk_days_left_in_month (clock_details t y m d) = 0" "\<not> MAX32 - clk_time (clock_details t y m d) < ONE_DAY"
      "1 = (if clk_month (clock_details t y m d) = 12 then 1 else clk_month (clock_details t y m d))"
      "Suc y = (if clk_month (clock_details t y m d) = 12 then add32 (clk_year (clock_details t y m d)) 1
        else clk_year (clock_details t y m d))"
      "clock_is_leap (Suc y) = (if clk_month (clock_details t y m d) = 12 then clock_is_leap (Suc y)
        else clk_is_leap (clock_details t y m d))"
      using december t(2) y by (simp_all add: clock_details_def Let_def)
    from incr_day_last [OF this(2,1,3,4,5)] show ?thesis
      unfolding c f clock_details_def Let_def day_later w
      by (simp only: clock_info.simps next_time z month_end_of_exact)
  qed
qed

text \<open>
  \<open>clock_incr_day\<close> is right inside a month and at the end of December: the moved record is, in
  every field, the break-down of the second 24 hours later, as long as that second is representable.
\<close>

theorem clock_incr_day_correct:
  assumes "t + ONE_DAY \<le> MAX32"
    "clk_days_left_in_month (clock_fill_details t) \<noteq> 0 \<or> clk_month (clock_fill_details t) = 12"
  shows "clock_incr_day (clock_fill_details t) = clock_fill_details (t + ONE_DAY)"
  using assms by (rule incr_day_step)

text \<open>
  At the end of any other month \<open>clock_incr_day\<close> does not advance the month: it goes from the
  last day of month \<open>m\<close> back to the first day of the same month, where the next day is the first
  of \<open>m + 1\<close>.  (The month is incremented only in the branch for December.)
\<close>

theorem clock_incr_day_month_end:
  assumes "t + ONE_DAY \<le> MAX32" "clk_days_left_in_month (clock_fill_details t) = 0"
    "clk_month (clock_fill_details t) \<noteq> 12"
  shows "let c = clock_fill_details t; stepped = clock_incr_day c; next = clock_fill_details (t + ONE_DAY) in
    clk_time stepped = clk_time next \<and> clk_days stepped = 1 \<and> clk_days next = 1 \<and>
    clk_month stepped = clk_month c \<and> clk_month next = clk_month c + 1"
proof -
  have t: "t \<le> MAX32" "\<not> MAX32 - t < ONE_DAY" using assms(1) by simp_all
  obtain y m d where v: "valid_date y m d" and n: "day_number y m d = t div ONE_DAY"
    and c: "clock_fill_details t = clock_details t y m d"
    by (rule fill_details_is [OF t(1)])
  have "mdays_of (clock_is_leap y) m - d = 0" and m: "m \<noteq> 12"
    using assms(2,3) by (simp_all add: c clock_details_def Let_def)
  then have last: "d = mdays_of (clock_is_leap y) m" "m < 12" using v by (simp_all add: valid_date_def)
  from fill_details_eq [OF assms(1), of y "Suc m" 1] next_month_number [OF v last]
  have f: "clock_fill_details (t + ONE_DAY) = clock_details (t + ONE_DAY) y (Suc m) 1"
    by (simp add: n day_later)
  have "\<not> MAX32 - clk_time (clock_details t y m d) < ONE_DAY" "clk_days_left_in_month (clock_details t y m d) = 0"
    "m = (if clk_month (clock_details t y m d) = 12 then 1 else clk_month (clock_details t y m d))"
    "y = (if clk_month (clock_details t y m d) = 12 then add32 (clk_year (clock_details t y m d)) 1
      else clk_year (clock_details t y m d))"
    "clock_is_leap y = (if clk_month (clock_details t y m d) = 12 then clock_is_leap y
      else clk_is_leap (clock_details t y m d))"
    using last t(2) m by (simp_all add: clock_details_def Let_def)
  from incr_day_last [OF this] show ?thesis
    unfolding c f by (simp add: clock_details_def Let_def)
qed

theorem clock_incr_day_month_end_witness:
  "let c = clock_fill_details 1359590400; stepped = clock_incr_day c;
       next = clock_fill_details (1359590400 + ONE_DAY) in
    clk_time stepped = clk_time next \<and> clk_days stepped = 1 \<and> clk_days next = 1 \<and>
    clk_month stepped = clk_month c \<and> clk_month next = clk_month c + 1"
proof (rule clock_incr_day_month_end)
  have "valid_date 2013 1 31" "day_number 2013 1 31 = 1359590400 div ONE_DAY"
    using leap_count [of 2013]
    by (simp_all add: valid_date_def mdays_table day_number_def days_to_month_1 days_to_year_split)
  then have "clock_fill_details 1359590400 = clock_details 1359590400 2013 1 31"
    by (intro fill_details_eq) simp_all
  then show "clk_days_left_in_month (clock_fill_details 1359590400) = 0" "clk_month (clock_fill_details 1359590400) \<noteq> 12"
    by (simp_all add: clock_details_def Let_def mdays_table)
qed simp

theorem clock_incr_day_correct_witness:
  "clock_incr_day (clock_fill_details 1388448000) = clock_fill_details (1388448000 + ONE_DAY)"
proof (rule clock_incr_day_correct)
  have "valid_date 2013 12 31" "day_number 2013 12 31 = 1388448000 div ONE_DAY"
    using leap_count [of 2013]
    by (simp_all add: valid_date_def mdays_table day_number_def days_to_month_table days_to_year_split
        clock_is_leap_def)
  then have "clock_fill_details 1388448000 = clock_details 1388448000 2013 12 31"
    by (intro fill_details_eq) simp_all
  then show "clk_days_left_in_month (clock_fill_details 1388448000) \<noteq> 0 \<or> clk_month (clock_fill_details 1388448000) = 12"
    by (simp add: clock_details_def Let_def)
qed simp

section \<open>The preceding day\<close>

text \<open>The branches of \<open>clock_decr_day\<close>.\<close>

lemma decr_day_inside:
  assumes "\<not> clk_time clk < ONE_DAY" "sub8 (clk_days clk) 1 \<noteq> 0"
  shows "clock_decr_day clk =
    (let t = clk_time clk - ONE_DAY; ds = sub32 t (clk_secs_since_midnight clk); d = sub8 (clk_days clk) 1 in
     clk\<lparr>clk_time := t, clk_day_start := ds, clk_day_end := add32 ds 86399,
       clk_day_of_week := if sub8 (clk_day_of_week clk) 1 = 0 then 7 else sub8 (clk_day_of_week clk) 1,
       clk_days := d, clk_day_occur_in_month := clock_get_day_occur_in_month d,
       clk_days_left_in_month := sub8 (mdays_of (clk_is_leap clk) (clk_month clk)) d\<rparr>)"
  using assms by (simp add: clock_decr_day_def Let_def)

lemma decr_day_first_same:
  assumes "\<not> clk_time clk < ONE_DAY" "sub8 (clk_days clk) 1 = 0" "sub8 (clk_month clk) 1 = m" "m \<noteq> 0"
  shows "clock_decr_day clk =
    (let t = clk_time clk - ONE_DAY; ds = sub32 t (clk_secs_since_midnight clk); de = add32 ds 86399;
         d = mdays_of (clk_is_leap clk) m in
     clk\<lparr>clk_time := t, clk_day_start := ds, clk_day_end := de,
       clk_day_of_week := if sub8 (clk_day_of_week clk) 1 = 0 then 7 else sub8 (clk_day_of_week clk) 1,
       clk_month := m,
       clk_days := d, clk_day_occur_in_month := clock_get_day_occur_in_month d,
       clk_days_left_in_month := sub8 d d, clk_month_end := de,
       clk_month_start := if t = 0 \<or> d * ONE_DAY > de then 0 else de - d * ONE_DAY\<rparr>)"
  using assms by (simp add: clock_decr_day_def Let_def)

lemma decr_day_first_jan:
  assumes "\<not> clk_time clk < ONE_DAY" "sub8 (clk_days clk) 1 = 0" "sub8 (clk_month clk) 1 = 0" "sub32 (clk_year clk) 1 = y"
  shows "clock_decr_day clk =
    (let t = clk_time clk - ONE_DAY; ds = sub32 t (clk_secs_since_midnight clk); de = add32 ds 86399;
         d = mdays_of (clock_is_leap y) 12 in
     clk\<lparr>clk_time := t, clk_day_start := ds, clk_day_end := de,
       clk_day_of_week := if sub8 (clk_day_of_week clk) 1 = 0 then 7 else sub8 (clk_day_of_week clk) 1,
       clk_month := 12, clk_year := y, clk_is_leap := clock_is_leap y,
       clk_days := d, clk_day_occur_in_month := clock_get_day_occur_in_month d,
       clk_days_left_in_month := sub8 d d, clk_month_end := de,
       clk_month_start := if t = 0 \<or> d * ONE_DAY > de then 0 else de - d * ONE_DAY\<rparr>)"
  using assms by (simp add: clock_decr_day_def Let_def)

lemma prev_day_time:
  assumes "t + ONE_DAY \<le> MAX32"
  shows "sub32 t (t mod ONE_DAY) = t div ONE_DAY * ONE_DAY"
    "add32 (t div ONE_DAY * ONE_DAY) 86399 = t div ONE_DAY * ONE_DAY + 86399"
    "Orderings.min MAX32 (t div ONE_DAY * ONE_DAY + 86399) = t div ONE_DAY * ONE_DAY + 86399"
proof -
  have "t div ONE_DAY * ONE_DAY + t mod ONE_DAY = t" by (rule div_mult_mod_eq)
  then show "sub32 t (t mod ONE_DAY) = t div ONE_DAY * ONE_DAY"
    "add32 (t div ONE_DAY * ONE_DAY) 86399 = t div ONE_DAY * ONE_DAY + 86399"
    "Orderings.min MAX32 (t div ONE_DAY * ONE_DAY + 86399) = t div ONE_DAY * ONE_DAY + 86399"
    using assms by (simp_all add: sub32_def add32_def minus_mod_eq_div_mult)
qed

lemma month_start_early:
  assumes "d - 1 \<le> t div ONE_DAY" "28 \<le> d"
  shows "(if t = 0 \<or> d * ONE_DAY > t div ONE_DAY * ONE_DAY + 86399 then 0
    else t div ONE_DAY * ONE_DAY + 86399 - d * ONE_DAY) = (t div ONE_DAY - (d - 1)) * ONE_DAY - 1"
proof -
  have "t \<noteq> 0" using assms by auto
  moreover obtain k where "t div ONE_DAY = k + (d - 1)" using assms(1) by (metis add.commute le_iff_add)
  ultimately show ?thesis using assms(2) by (cases k) (auto simp: algebra_simps diff_mult_distrib2)
qed

lemma dow_prev: "(if sub8 (Suc n mod 7 + 1) 1 = 0 then 7 else sub8 (Suc n mod 7 + 1) 1) = n mod 7 + 1"
proof -
  have "n mod 7 < 7" by simp
  then show ?thesis by (auto simp: sub8_def mod_Suc)
qed

lemma decr_day_step:
  assumes "t + ONE_DAY \<le> MAX32"
  shows "let c = clock_fill_details t; next = clock_fill_details (t + ONE_DAY) in
    clock_decr_day next =
      (if clk_days next = 1 then c\<lparr>clk_month_start := clk_month_start c - 1\<rparr> else c)"
proof -
  have t: "t \<le> MAX32" using assms(1) by simp
  obtain y m d where v: "valid_date y m d" and n: "day_number y m d = t div ONE_DAY"
    and c: "clock_fill_details t = clock_details t y m d"
    by (rule fill_details_is [OF t])
  have d: "1 \<le> d" "d \<le> 31" "d \<le> mdays_of (clock_is_leap y) m" "1 \<le> m" "m \<le> 12"
    using v valid_days_le_31 by (auto simp: valid_date_def)
  have dn: "d - 1 \<le> t div ONE_DAY" using n by (simp add: day_number_def)
  have w: "Suc (t div ONE_DAY) + 3 = Suc (t div ONE_DAY + 3)" "t + ONE_DAY - ONE_DAY = t" by simp_all
  have d28: "28 \<le> d" if "d = mdays_of (clock_is_leap y) m"
    using mdays_bounds [OF d(4,5)] that by simp
  note rev = prev_day_time [OF assms] dow_prev
  have z: "sub8 d d = 0" "d - d = 0" "clock_get_day_occur_in_month d = (d + 6) div 7"
    using d(2) by (simp_all add: sub8_def clock_get_day_occur_in_month_def)
  consider (inside) "d < mdays_of (clock_is_leap y) m"
    | (ends) "d = mdays_of (clock_is_leap y) m" "m < 12" | (december) "d = mdays_of (clock_is_leap y) m" "m = 12"
    using d(3,5) by (cases "d < mdays_of (clock_is_leap y) m"; cases "m < 12") auto
  then show ?thesis
  proof cases
    case inside
    have f: "clock_fill_details (t + ONE_DAY) = clock_details (t + ONE_DAY) y m (Suc d)"
      using next_day_number [OF v inside] n by (intro fill_details_eq [OF assms]) (simp_all add: day_later)
    have i: "sub8 (Suc d) 1 = d" "sub8 (mdays_of (clock_is_leap y) m) d = mdays_of (clock_is_leap y) m - d"
      "(d + 6) div 7 mod 256 = (d + 6) div 7"
      using d by (simp_all add: sub8_def)
    have e: "Suc (t div ONE_DAY) + (mdays_of (clock_is_leap y) m - Suc d) =
        t div ONE_DAY + (mdays_of (clock_is_leap y) m - d)" "Suc (t div ONE_DAY) - (Suc d - 1) = t div ONE_DAY - (d - 1)"
      using inside d by simp_all
    let ?c = "clock_details (t + ONE_DAY) y m (Suc d)"
    have "\<not> clk_time ?c < ONE_DAY" "sub8 (clk_days ?c) 1 \<noteq> 0" "clk_days ?c \<noteq> 1"
      using i(1) d(1) by (simp_all add: clock_details_def Let_def)
    then show ?thesis
      unfolding Let_def c f using decr_day_inside [of ?c]
      by (simp only: if_False clock_details_def Let_def clock_info.simps day_later w rev i e
          clock_get_day_occur_in_month_def simp_thms)
  next
    case ends
    have f: "clock_fill_details (t + ONE_DAY) = clock_details (t + ONE_DAY) y (Suc m) 1"
      using next_month_number [OF v ends] n by (intro fill_details_eq [OF assms]) (simp_all add: day_later)
    let ?c = "clock_details (t + ONE_DAY) y (Suc m) 1"
    have "\<not> clk_time ?c < ONE_DAY" "sub8 (clk_days ?c) 1 = 0" "sub8 (clk_month ?c) 1 = m" "m \<noteq> 0"
      "clk_days ?c = 1" "clk_is_leap ?c = clock_is_leap y"
      using d by (simp_all add: clock_details_def Let_def sub8_def)
    then show ?thesis
      unfolding Let_def c f using decr_day_first_same [of ?c m] ends(1) [symmetric]
      by (simp only: if_True clock_details_def Let_def clock_info.simps day_later w rev(1,2) dow_prev z simp_thms
          add_0_right prev_day_time(3) [OF assms] month_start_early [OF dn d28 [OF ends(1)]])
  next
    case december
    have ny: "valid_date (Suc y) 1 1 \<and> day_number (Suc y) 1 1 = Suc (day_number y 12 d)"
      by (rule next_year_number) (use v december in simp_all)
    have f: "clock_fill_details (t + ONE_DAY) = clock_details (t + ONE_DAY) (Suc y) 1 1"
      by (rule fill_details_eq [OF assms(1)]) (use ny n december(2) in \<open>simp_all add: day_later\<close>)
    let ?c = "clock_details (t + ONE_DAY) (Suc y) 1 1"
    have "\<not> clk_time ?c < ONE_DAY" "sub8 (clk_days ?c) 1 = 0" "sub8 (clk_month ?c) 1 = 0"
      "sub32 (clk_year ?c) 1 = y" "clk_days ?c = 1"
      by (simp_all add: clock_details_def Let_def sub8_def sub32_def)
    then show ?thesis
      unfolding Let_def c f using decr_day_first_jan [of ?c y] december [symmetric]
      by (simp only: if_True clock_details_def Let_def clock_info.simps day_later w rev(1,2) dow_prev z simp_thms
          add_0_right prev_day_time(3) [OF assms] month_start_early [OF dn d28 [OF december(1)]])
  qed
qed

text \<open>
  \<open>clock_decr_day\<close> from a second one day after \<open>t\<close> gives the break-down of \<open>t\<close> in every field but
  one: when it crosses into the previous month (the day was the first), \<open>month_start\<close> is set to
  \<open>month_end - days * ONE_DAY\<close>, one second before the month begins, except for January 1970.
\<close>

theorem clock_decr_day_correct:
  assumes "t + ONE_DAY \<le> MAX32"
  shows "let c = clock_fill_details t; next = clock_fill_details (t + ONE_DAY) in
    clock_decr_day next =
      (if clk_days next = 1 then c\<lparr>clk_month_start := clk_month_start c - 1\<rparr> else c)"
  using assms by (rule decr_day_step)

theorem clock_decr_day_correct_witness:
  "let c = clock_fill_details 1359590400; next = clock_fill_details (1359590400 + ONE_DAY) in
    clock_decr_day next =
      (if clk_days next = 1 then c\<lparr>clk_month_start := clk_month_start c - 1\<rparr> else c)"
  by (rule clock_decr_day_correct) simp

section \<open>The neighbouring months\<close>

lemma month_last_day:
  assumes "valid_date y m d"
  shows "valid_date y m (mdays_of (clock_is_leap y) m) \<and>
    day_number y m (mdays_of (clock_is_leap y) m) = day_number y m d + (mdays_of (clock_is_leap y) m - d)"
  using assms by (simp add: valid_date_def day_number_def)

lemma incr_month_same:
  assumes "clk_month_end clk \<noteq> MAX32" "add32 (clk_month_end clk) 1 = t" "inc8 (clk_month clk) = m" "m \<noteq> 13"
  shows "clock_incr_month clk =
    (let dow0 = (clk_day_of_week clk + clk_days_left_in_month clk) mod 7;
         de = (if ONE_DAY - 1 > MAX32 - t then MAX32 else t + ONE_DAY - 1);
         left = sub8 (mdays_of (clk_is_leap clk) m) 1 in
     clk\<lparr>clk_sec := 0, clk_min := 0, clk_hour := 0, clk_secs_since_midnight := 0,
       clk_month_start := t, clk_day_start := t, clk_time := t,
       clk_day_of_week := (if dow0 = 0 then 7 else dow0), clk_day_end := de, clk_month := m,
       clk_days := 1, clk_day_occur_in_month := 1, clk_days_left_in_month := left,
       clk_month_end := month_end_of left de\<rparr>)"
  using assms by (simp add: clock_incr_month_def Let_def)

lemma incr_month_jan:
  assumes "clk_month_end clk \<noteq> MAX32" "add32 (clk_month_end clk) 1 = t" "inc8 (clk_month clk) = 13"
    "add32 (clk_year clk) 1 = y"
  shows "clock_incr_month clk =
    (let dow0 = (clk_day_of_week clk + clk_days_left_in_month clk) mod 7;
         de = (if ONE_DAY - 1 > MAX32 - t then MAX32 else t + ONE_DAY - 1);
         left = sub8 (mdays_of (clock_is_leap y) 1) 1 in
     clk\<lparr>clk_sec := 0, clk_min := 0, clk_hour := 0, clk_secs_since_midnight := 0,
       clk_month_start := t, clk_day_start := t, clk_time := t,
       clk_day_of_week := (if dow0 = 0 then 7 else dow0), clk_day_end := de, clk_month := 1,
       clk_year := y, clk_is_leap := clock_is_leap y,
       clk_days := 1, clk_day_occur_in_month := 1, clk_days_left_in_month := left,
       clk_month_end := month_end_of left de\<rparr>)"
  using assms by (simp add: clock_incr_month_def Let_def)

lemma dow_sum: "(if (a mod 7 + 1 + l) mod 7 = 0 then 7 else (a mod 7 + 1 + l) mod 7) = (a + l) mod 7 + (1 :: nat)"
proof -
  have "(a mod 7 + (1 + l)) mod 7 = (a + (1 + l)) mod 7" by (rule mod_add_left_eq)
  moreover have "((a + l) mod 7 + 1) mod 7 = (a + l + 1) mod 7" by (rule mod_add_left_eq)
  ultimately have "(a mod 7 + 1 + l) mod 7 = ((a + l) mod 7 + 1) mod 7" by (simp add: ac_simps)
  moreover have "(a + l) mod 7 < 7" by simp
  ultimately show ?thesis by (cases "(a + l) mod 7 = 6") auto
qed

lemma incr_month_step:
  assumes "t \<le> MAX32" "clk_month_end (clock_fill_details t) \<noteq> MAX32"
  shows "let c = clock_fill_details t in
    clock_incr_month c = (clock_fill_details (clk_month_end c + 1))
      \<lparr>clk_day_of_week := clk_day_of_week (clock_fill_details (clk_month_end c))\<rparr>"
proof -
  obtain y m d where v: "valid_date y m d" and n: "day_number y m d = t div ONE_DAY"
    and c: "clock_fill_details t = clock_details t y m d"
    by (rule fill_details_is [OF assms(1)])
  define left where "left = mdays_of (clock_is_leap y) m - d"
  define q where "q = t div ONE_DAY + left"
  define E where "E = q * ONE_DAY + 86399"
  have E: "clk_month_end (clock_details t y m d) = E" "E < MAX32"
  proof -
    have "clk_month_end (clock_details t y m d) = Orderings.min MAX32 E"
      by (simp only: clock_details_def Let_def clock_info.simps E_def q_def left_def)
    with assms(2) show "clk_month_end (clock_details t y m d) = E" "E < MAX32"
      unfolding c by (auto simp: min_def split: if_splits)
  qed
  have d: "1 \<le> m" "m \<le> 12" "d \<le> mdays_of (clock_is_leap y) m" using v by (auto simp: valid_date_def)
  have dE: "E div ONE_DAY = q" "(E + 1) div ONE_DAY = Suc q" "(E + 1) mod ONE_DAY = 0"
    "(E + 1) mod 3600 = 0" "(E + 1) mod 60 = 0" "Suc q * ONE_DAY = E + 1" "add32 E 1 = E + 1"
    unfolding E_def using E(2) by (auto simp: add32_def E_def)
  have lastday: "valid_date y m (mdays_of (clock_is_leap y) m)" "day_number y m (mdays_of (clock_is_leap y) m) = q"
    using month_last_day [OF v] n by (simp_all add: q_def left_def)
  have fE: "clock_fill_details E = clock_details E y m (mdays_of (clock_is_leap y) m)"
    by (rule fill_details_eq) (use lastday dE E in simp_all)
  have w: "clk_day_of_week (clock_details E y m (mdays_of (clock_is_leap y) m)) = (q + 3) mod 7 + 1"
    by (simp add: clock_details_def Let_def dE)
  have dow: "(if ((t div ONE_DAY + 3) mod 7 + 1 + left) mod 7 = 0 then 7 else ((t div ONE_DAY + 3) mod 7 + 1 + left) mod 7) =
      (q + 3) mod 7 + 1"
  proof -
    have "t div ONE_DAY + 3 + left = q + 3" by (simp add: q_def)
    then show ?thesis unfolding dow_sum by (simp only:)
  qed
  let ?c = "clock_details t y m d"
  have f: "clk_month_end ?c \<noteq> MAX32" "add32 (clk_month_end ?c) 1 = E + 1" "inc8 (clk_month ?c) = Suc m"
    "clk_is_leap ?c = clock_is_leap y" "clk_year ?c = y" "clk_day_of_week ?c = (t div ONE_DAY + 3) mod 7 + 1"
    "clk_days_left_in_month ?c = left"
    using E dE(7) d by (simp_all add: inc8_def, simp_all add: clock_details_def Let_def left_def inc8_def)
  have le: "E + 1 \<le> MAX32" using E(2) by simp
  have de: "(if ONE_DAY - 1 > MAX32 - (E + 1) then MAX32 else E + 1 + ONE_DAY - 1) =
      Orderings.min MAX32 (Suc q * ONE_DAY + 86399)"
    using day_end_exact [of "Suc q"] le unfolding dE(6) .
  have z: "0 div 3600 = (0::nat)" "0 div 60 = (0::nat)" "1 - 1 = (0::nat)" "(1 + 6) div 7 = (1::nat)" "x - 0 = x" for x :: nat
    by simp_all
  show ?thesis
  proof (cases "m = 12")
    case False
    then have m: "m < 12" "Suc m \<noteq> 13" using d by simp_all
    have g: "clock_fill_details (E + 1) = clock_details (E + 1) y (Suc m) 1"
      by (rule fill_details_eq [OF le]) (use next_month_number [OF lastday(1) refl m(1)] lastday dE in simp_all)
    have s1: "sub8 (mdays_of (clock_is_leap y) (Suc m)) 1 = mdays_of (clock_is_leap y) (Suc m) - 1"
      using mdays_bounds [of "Suc m" "clock_is_leap y"] m by (simp add: sub8_def)
    show ?thesis
      unfolding Let_def c E(1) g fE w using incr_month_same [OF f(1,2,3) m(2)]
      unfolding Let_def f(4-7) dow de s1 month_end_of_exact
      by (simp only: clock_details_def Let_def clock_info.simps dE z)
  next
    case True
    have ny: "valid_date (Suc y) 1 1 \<and> day_number (Suc y) 1 1 = Suc q"
      using next_year_number [of y "mdays_of (clock_is_leap y) 12"] lastday True by simp
    have g: "clock_fill_details (E + 1) = clock_details (E + 1) (Suc y) 1 1"
      by (rule fill_details_eq [OF le]) (use ny dE in simp_all)
    have y: "add32 y 1 = Suc y"
      using year_le_2106 [OF assms(1) n] by (simp add: add32_exact)
    have s1: "sub8 (mdays_of (clock_is_leap (Suc y)) 1) 1 = mdays_of (clock_is_leap (Suc y)) 1 - 1"
      by (simp add: mdays_table sub8_def)
    have "inc8 (clk_month ?c) = 13" "add32 (clk_year ?c) 1 = Suc y" using f True y by simp_all
    from incr_month_jan [OF f(1,2) this] show ?thesis
      unfolding Let_def c E(1) g fE w
      unfolding Let_def f(4-7) dow de s1 month_end_of_exact
      by (simp only: clock_details_def Let_def clock_info.simps dE z)
  qed
qed

text \<open>
  \<open>clock_incr_month\<close> moves to midnight of the first day of the next month whenever that instant is
  representable: the result is its break-down in every field except the day of the week, which is
  that of the last day of the month left, one day short (the code adds \<open>days_left_in_month\<close> where
  \<open>days_left_in_month + 1\<close> days pass).
\<close>

theorem clock_incr_month_correct:
  assumes "t \<le> MAX32" "clk_month_end (clock_fill_details t) \<noteq> MAX32"
  shows "let c = clock_fill_details t in
    clock_incr_month c = (clock_fill_details (clk_month_end c + 1))
      \<lparr>clk_day_of_week := clk_day_of_week (clock_fill_details (clk_month_end c))\<rparr>"
  using assms by (rule incr_month_step)

theorem clock_incr_month_correct_witness:
  "let c = clock_fill_details 1359590400 in
    clock_incr_month c = (clock_fill_details (clk_month_end c + 1))
      \<lparr>clk_day_of_week := clk_day_of_week (clock_fill_details (clk_month_end c))\<rparr>"
proof (rule clock_incr_month_correct)
  have "valid_date 2013 1 31" "day_number 2013 1 31 = 1359590400 div ONE_DAY"
    using leap_count [of 2013]
    by (simp_all add: valid_date_def mdays_table day_number_def days_to_month_1 days_to_year_split)
  then have "clock_fill_details 1359590400 = clock_details 1359590400 2013 1 31"
    by (intro fill_details_eq) simp_all
  then show "clk_month_end (clock_fill_details 1359590400) \<noteq> MAX32"
    by (simp add: clock_details_def Let_def mdays_table)
qed simp

lemma decr_month_same:
  assumes "clk_month_start clk \<noteq> 0" "clk_month_start clk - 1 = t" "sub8 (clk_month clk) 1 = m" "m \<noteq> 0"
  shows "clock_decr_month clk =
    (let ds = (if t < ONE_DAY - 1 then 0 else t - (ONE_DAY - 1)); d = mdays_of (clk_is_leap clk) m in
     clk\<lparr>clk_month_end := t, clk_day_end := t, clk_time := t, clk_sec := 59, clk_min := 59, clk_hour := 23,
       clk_secs_since_midnight := ONE_DAY - 1, clk_day_start := ds, clk_month := m,
       clk_days := d, clk_days_left_in_month := 0,
       clk_day_occur_in_month := clock_get_day_occur_in_month d,
       clk_day_of_week := (t div ONE_DAY + 4) mod 7,
       clk_month_start := (if ds < (d - 1) * ONE_DAY then 0 else ds - (d - 1) * ONE_DAY)\<rparr>)"
  using assms by (simp add: clock_decr_month_def Let_def)

lemma decr_month_jan:
  assumes "clk_month_start clk \<noteq> 0" "clk_month_start clk - 1 = t" "sub8 (clk_month clk) 1 = 0"
    "sub32 (clk_year clk) 1 = y"
  shows "clock_decr_month clk =
    (let ds = (if t < ONE_DAY - 1 then 0 else t - (ONE_DAY - 1)); d = mdays_of (clock_is_leap y) 12 in
     clk\<lparr>clk_month_end := t, clk_day_end := t, clk_time := t, clk_sec := 59, clk_min := 59, clk_hour := 23,
       clk_secs_since_midnight := ONE_DAY - 1, clk_day_start := ds, clk_month := 12, clk_year := y,
       clk_is_leap := clock_is_leap y, clk_days := d, clk_days_left_in_month := 0,
       clk_day_occur_in_month := clock_get_day_occur_in_month d,
       clk_day_of_week := (t div ONE_DAY + 4) mod 7,
       clk_month_start := (if ds < (d - 1) * ONE_DAY then 0 else ds - (d - 1) * ONE_DAY)\<rparr>)"
  using assms by (simp add: clock_decr_month_def Let_def)

lemma dow_unfixed: "(q + 4) mod 7 = ((q + 3) mod 7 + 1) mod (7 :: nat)"
  by presburger

lemma decr_month_step:
  assumes "t \<le> MAX32" "clk_month_start (clock_fill_details t) \<noteq> 0"
  shows "let c = clock_fill_details t; last = clock_fill_details (clk_month_start c - 1) in
    clock_decr_month c = last\<lparr>clk_day_of_week := clk_day_of_week last mod 7\<rparr>"
proof -
  obtain y m d where v: "valid_date y m d" and n: "day_number y m d = t div ONE_DAY"
    and c: "clock_fill_details t = clock_details t y m d"
    by (rule fill_details_is [OF assms(1)])
  have "clk_month_start (clock_details t y m d) = (t div ONE_DAY - (d - 1)) * ONE_DAY"
    by (simp only: clock_details_def Let_def clock_info.simps)
  with assms(2) obtain q where q: "t div ONE_DAY - (d - 1) = Suc q"
    unfolding c by (cases "t div ONE_DAY - (d - 1)") auto
  define E where "E = q * ONE_DAY + 86399"
  have E: "clk_month_start (clock_details t y m d) - 1 = E"
    by (simp only: clock_details_def Let_def clock_info.simps q E_def) simp
  have d: "1 \<le> m" "m \<le> 12" "1 \<le> d" using v by (auto simp: valid_date_def)
  have one: "valid_date y m 1" "day_number y m 1 = Suc q"
    using v n q by (auto simp: valid_date_def day_number_def)
  have "Suc q * ONE_DAY \<le> t div ONE_DAY * ONE_DAY" using q by (intro mult_le_mono1) simp
  then have le: "E \<le> MAX32" using assms(1) div_times_less_eq_dividend [of t ONE_DAY] by (simp add: E_def)
  have parts: "E = (q * 24 + 23) * 3600 + 3599" "E = (q * 1440 + 1439) * 60 + 59"
    by (simp_all add: E_def)
  have dm: "E mod 3600 = 3599" unfolding parts(1) mod_mult_self3 by simp
  have dm': "E mod 60 = 59" unfolding parts(2) mod_mult_self3 by simp
  have de: "E div ONE_DAY = q" "E mod ONE_DAY = 86399"
    "(if E < ONE_DAY - 1 then 0 else E - (ONE_DAY - 1)) = q * ONE_DAY" "Orderings.min MAX32 E = E"
    "q * ONE_DAY + 86399 = E"
    using le unfolding E_def by simp_all
  note dE = de(1,2) dm dm' de(3-)
  let ?c = "clock_details t y m d"
  have f: "clk_month_start ?c \<noteq> 0" "clk_is_leap ?c = clock_is_leap y" "clk_month ?c = m" "clk_year ?c = y"
    using assms(2) unfolding c by (simp, simp_all only: clock_details_def Let_def clock_info.simps)
  have z: "86399 div 3600 = (23::nat)" "3599 div 60 = (59::nat)" "ONE_DAY - 1 = 86399" "x + 0 = x" "x - x = 0" for x :: nat
    by simp_all
  show ?thesis
  proof (cases "m = 1")
    case False
    then obtain k where m: "m = Suc k" "1 \<le> k" "k < 12" using d by (cases m) auto
    let ?d = "mdays_of (clock_is_leap y) k"
    have kd: "28 \<le> ?d" "?d \<le> 31" using mdays_bounds [of k "clock_is_leap y"] m leap_le_1 [of y] by simp_all
    have pv: "valid_date y k ?d" using m kd one by (simp add: valid_date_def)
    have pn: "day_number y k ?d = q" using next_month_number [OF pv refl m(3)] one(2) m(1) by simp
    have g: "clock_fill_details E = clock_details E y k ?d"
      by (rule fill_details_eq [OF le pv]) (simp add: pn dE)
    have ms: "(if q * ONE_DAY < (?d - 1) * ONE_DAY then 0 else q * ONE_DAY - (?d - 1) * ONE_DAY) = (q - (?d - 1)) * ONE_DAY"
      by (simp add: diff_mult_distrib)
    have occ: "clock_get_day_occur_in_month ?d = (?d + 6) div 7"
      using kd by (simp add: clock_get_day_occur_in_month_def)
    have "sub8 (clk_month ?c) 1 = k" "k \<noteq> 0" using f m by (simp_all add: sub8_def)
    from decr_month_same [OF f(1) E this] show ?thesis
      unfolding Let_def c E g unfolding f(2) dE(5) ms occ
      by (simp only: clock_details_def Let_def clock_info.simps dE z dow_unfixed)
  next
    case True
    have "y \<noteq> CLOCK_EPOCH" using one(2) True by (auto simp: day_number_def days_to_month_1 days_to_year_def)
    then obtain x where x: "y = Suc x" "CLOCK_EPOCH \<le> x" using v by (cases y) (auto simp: valid_date_def)
    let ?d = "mdays_of (clock_is_leap x) 12"
    have kd: "?d = 31" by (simp add: mdays_table)
    have pv: "valid_date x 12 ?d" using x by (simp add: valid_date_def mdays_table)
    have pn: "day_number x 12 ?d = q" using next_year_number [OF pv refl] one(2) x(1) True by simp
    have g: "clock_fill_details E = clock_details E x 12 ?d"
      by (rule fill_details_eq [OF le pv]) (simp add: pn dE)
    have ms: "(if q * ONE_DAY < (?d - 1) * ONE_DAY then 0 else q * ONE_DAY - (?d - 1) * ONE_DAY) = (q - (?d - 1)) * ONE_DAY"
      by (simp add: diff_mult_distrib)
    have occ: "clock_get_day_occur_in_month ?d = (?d + 6) div 7"
      by (simp add: kd clock_get_day_occur_in_month_def)
    have "sub8 (clk_month ?c) 1 = 0" "sub32 (clk_year ?c) 1 = x" using f x True by (simp_all add: sub8_def sub32_def)
    from decr_month_jan [OF f(1) E this] show ?thesis
      unfolding Let_def c E g unfolding f(2) dE(5) ms occ
      by (simp only: clock_details_def Let_def clock_info.simps dE z dow_unfixed)
  qed
qed

text \<open>
  \<open>clock_decr_month\<close> moves to the last second of the previous month: its result is the break-down
  of that second, except that a Sunday is numbered 0 instead of 7 (the day of the week is left as a
  remainder modulo 7, where every other function maps 0 to 7).
\<close>

theorem clock_decr_month_correct:
  assumes "t \<le> MAX32" "clk_month_start (clock_fill_details t) \<noteq> 0"
  shows "let c = clock_fill_details t; last = clock_fill_details (clk_month_start c - 1) in
    clock_decr_month c = last\<lparr>clk_day_of_week := clk_day_of_week last mod 7\<rparr>"
  using assms by (rule decr_month_step)

theorem clock_decr_month_correct_witness:
  "let c = clock_fill_details 1359590400; last = clock_fill_details (clk_month_start c - 1) in
    clock_decr_month c = last\<lparr>clk_day_of_week := clk_day_of_week last mod 7\<rparr>"
proof (rule clock_decr_month_correct)
  have "valid_date 2013 1 31" "day_number 2013 1 31 = 1359590400 div ONE_DAY"
    using leap_count [of 2013]
    by (simp_all add: valid_date_def mdays_table day_number_def days_to_month_1 days_to_year_split)
  then have "clock_fill_details 1359590400 = clock_details 1359590400 2013 1 31"
    by (intro fill_details_eq) simp_all
  then show "clk_month_start (clock_fill_details 1359590400) \<noteq> 0"
    by (simp add: clock_details_def Let_def mdays_table)
qed simp

end
