(* ===== verification/ClockLocal.thy ===== *)
theory ClockLocal
  imports Clock
begin

text \<open>
  Local time: \<open>clock_local\<close> and \<open>clock_local_to_utc\<close> of \<^verbatim>\<open>libayla/clock_utils.c\<close>.  The two
  global settings are one record; minutes west of UTC are signed, times are 32-bit.  The caller of
  \<open>clock_local\<close> passes a time (the code falls back to the current time for a null pointer).
\<close>

record clock_zone =
  tz_valid :: bool
  tz_mins :: int
  dl_valid :: bool
  dl_active :: nat
  dl_change :: nat

abbreviation DAYLIGHT_OFFSET :: nat where
  "DAYLIGHT_OFFSET \<equiv> 3600"

text \<open>Conversion of a C integer to \<open>u32\<close>.\<close>

definition to32 :: "int \<Rightarrow> nat" where
  "to32 x = nat (x mod 2 ^ 32)"

definition clock_local :: "clock_zone \<Rightarrow> nat \<Rightarrow> nat" where
  "clock_local z utc =
     (if \<not> tz_valid z then utc
      else
        let local_time = to32 (int utc - tz_mins z * 60) in
        if dl_valid z \<and> dl_active z = (if utc < dl_change z then 1 else 0)
        then add32 local_time DAYLIGHT_OFFSET else local_time)"

definition clock_local_to_utc :: "clock_zone \<Rightarrow> nat \<Rightarrow> nat \<Rightarrow> nat" where
  "clock_local_to_utc z local skip =
     (if \<not> tz_valid z then local
      else
        let utc = to32 (int local + tz_mins z * 60);
            change_end = add32 (dl_change z) DAYLIGHT_OFFSET in
        if local = MAX32 \<or> tz_mins z > 0 \<and> int (MAX32 - local) < tz_mins z * 60 then MAX32
        else if \<not> dl_valid z then utc
        else if dl_active z \<noteq> 0 then
          (let utc = (if utc < dl_change z then sub32 utc DAYLIGHT_OFFSET else utc)
           in if skip = 0 \<and> utc \<ge> dl_change z \<and> utc < change_end then sub32 utc DAYLIGHT_OFFSET else utc)
        else if utc \<ge> dl_change z \<and> utc < change_end \<and> skip = 2 then utc
        else if utc \<ge> dl_change z \<and> utc < change_end \<and> skip = 1 then dl_change z
        else if utc \<ge> dl_change z \<and> utc < change_end \<and> skip = 0 then sub32 (dl_change z) 1
        else if utc \<ge> dl_change z then sub32 utc DAYLIGHT_OFFSET
        else utc)"

section \<open>Round trips\<close>

lemma to32_exact: "0 \<le> x \<Longrightarrow> x < 4294967296 \<Longrightarrow> to32 x = nat x"
  by (simp add: to32_def)

text \<open>
  The range in which nothing wraps: the time and the change of daylight saving are at least an hour
  away from the ends of the 32-bit range, also after the shift by the time zone.
\<close>

definition zone_ok :: "clock_zone \<Rightarrow> nat \<Rightarrow> bool" where
  "zone_ok z utc \<longleftrightarrow>
     0 \<le> int utc - tz_mins z * 60 \<and> int utc - tz_mins z * 60 + 3600 < int MAX32 \<and>
     3600 \<le> utc \<and> utc + 3600 \<le> MAX32 \<and>
     3600 \<le> dl_change z \<and> dl_change z + 3600 \<le> MAX32 \<and> dl_active z \<le> 1"

text \<open>The shift of local time against UTC, with daylight saving.\<close>

definition shift :: "clock_zone \<Rightarrow> nat \<Rightarrow> int" where
  "shift z utc = - tz_mins z * 60 + (if dl_valid z \<and> dl_active z = (if utc < dl_change z then 1 else 0) then 3600 else 0)"

lemma clock_local_shift:
  assumes "zone_ok z utc" "tz_valid z"
  shows "int (clock_local z utc) = int utc + shift z utc"
  using assms by (auto simp: clock_local_def zone_ok_def shift_def to32_exact add32_def Let_def)

lemma local_to_utc_exact:
  assumes "tz_valid z" "0 \<le> int local + tz_mins z * 60" "int local + tz_mins z * 60 \<le> int MAX32" "local < MAX32"
    "dl_change z + 3600 \<le> MAX32" "3600 \<le> dl_change z" "int local + tz_mins z * 60 = int x"
  shows "clock_local_to_utc z local skip =
    (if \<not> dl_valid z then x
     else if dl_active z \<noteq> 0 then
       (let utc = (if x < dl_change z then sub32 x 3600 else x)
        in if skip = 0 \<and> utc \<ge> dl_change z \<and> utc < dl_change z + 3600 then utc - 3600 else utc)
     else if x \<ge> dl_change z \<and> x < dl_change z + 3600 then
       (if skip = 2 then x else if skip = 1 then dl_change z else if skip = 0 then dl_change z - 1 else x - 3600)
     else if x \<ge> dl_change z then x - 3600 else x)"
proof -
  have t: "to32 (int local + tz_mins z * 60) = x" using assms by (simp add: to32_exact)
  have c: "add32 (dl_change z) 3600 = dl_change z + 3600" using assms(5) by (simp add: add32_exact)
  have m: "(local = MAX32 \<or> tz_mins z > 0 \<and> int (MAX32 - local) < tz_mins z * 60) = False"
    using assms(3,4) by (auto simp: of_nat_diff)
  show ?thesis
    unfolding clock_local_to_utc_def t c Let_def m if_False using assms(1,5,6)
    by (simp add: sub32_exact)
qed

text \<open>
  Converting a time to local time and back gives the time again, except in the hour that repeats
  when daylight saving ends, where the flag chooses the first (flag 0) or the second of the two times
  that have the same local time.
\<close>

theorem clock_local_roundtrip:
  assumes "tz_valid z \<longrightarrow> zone_ok z utc"
  shows "clock_local_to_utc z (clock_local z utc) skip =
    (if tz_valid z \<and> dl_valid z \<and> dl_active z = 1 then
       (if skip = 0 \<and> dl_change z \<le> utc \<and> utc < dl_change z + 3600 then utc - 3600
        else if skip \<noteq> 0 \<and> dl_change z - 3600 \<le> utc \<and> utc < dl_change z then utc + 3600
        else utc)
     else utc)"
proof (cases "tz_valid z")
  case True
  with assms have ok: "zone_ok z utc" by simp
  let ?x = "nat (int utc + shift z utc + tz_mins z * 60)"
  have s: "shift z utc + tz_mins z * 60 = 0 \<or> shift z utc + tz_mins z * 60 = 3600" by (auto simp: shift_def)
  have x: "int (clock_local z utc) + tz_mins z * 60 = int ?x"
    using s ok clock_local_shift [OF ok True] by (auto simp: zone_ok_def)
  have l: "int (clock_local z utc) < int MAX32" "0 \<le> int (clock_local z utc) + tz_mins z * 60"
      "int (clock_local z utc) + tz_mins z * 60 \<le> int MAX32"
    using ok clock_local_shift [OF ok True] s by (auto simp: zone_ok_def shift_def)
  have e: "?x = utc + (if dl_valid z \<and> dl_active z = (if utc < dl_change z then 1 else 0) then 3600 else 0)"
    by (auto simp: shift_def nat_add_distrib)
  have a: "dl_active z = 0 \<or> dl_active z = 1" using ok by (auto simp: zone_ok_def)
  show ?thesis
    using local_to_utc_exact [OF True l(2,3) _ _ _ x, of skip] l(1) ok a True
    unfolding e by (auto simp: zone_ok_def Let_def sub32_def)
qed (use assms in \<open>simp add: clock_local_def clock_local_to_utc_def\<close>)

text \<open>Eight hours west of UTC, in the hour after the end of daylight saving.\<close>

theorem clock_local_roundtrip_witness:
  "let z = \<lparr>tz_valid = True, tz_mins = 480, dl_valid = True, dl_active = 1, dl_change = 1383469200\<rparr> in
     clock_local_to_utc z (clock_local z 1383469300) 0 = 1383465700 \<and>
     clock_local_to_utc z (clock_local z 1383469300) 1 = 1383469300"
  using clock_local_roundtrip [of "\<lparr>tz_valid = True, tz_mins = 480, dl_valid = True, dl_active = 1, dl_change = 1383469200\<rparr>" 1383469300 0]
    clock_local_roundtrip [of "\<lparr>tz_valid = True, tz_mins = 480, dl_valid = True, dl_active = 1, dl_change = 1383469200\<rparr>" 1383469300 1]
  by (simp add: zone_ok_def)

text \<open>
  When daylight saving begins, an hour of local time does not exist: no time has a local time in
  it, and the conversion to UTC answers for it by the flag, the last second before the change (0), the
  change itself (1) or the plain shift (2).
\<close>

theorem clock_spring_gap:
  assumes "tz_valid z" "dl_valid z" "dl_active z = 0" "zone_ok z utc"
    "dl_change z \<le> x" "x < dl_change z + 3600" "int local = int x - tz_mins z * 60" "local < MAX32"
  shows "clock_local z utc \<noteq> local \<and> clock_local_to_utc z local 0 = dl_change z - 1 \<and>
    clock_local_to_utc z local 1 = dl_change z \<and> clock_local_to_utc z local 2 = x"
proof -
  have "int (clock_local z utc) \<noteq> int local"
    using clock_local_shift [OF assms(4,1)] assms(2,3,5-7) by (auto simp: shift_def)
  moreover have "x \<le> MAX32" "dl_change z + 3600 \<le> MAX32" "3600 \<le> dl_change z"
    using assms(4,6) by (auto simp: zone_ok_def)
  ultimately show ?thesis
    using local_to_utc_exact [OF assms(1) _ _ assms(8), of x] assms by auto
qed

theorem clock_spring_gap_witness:
  "let z = \<lparr>tz_valid = True, tz_mins = 480, dl_valid = True, dl_active = 0, dl_change = 1362909600\<rparr> in
     clock_local z 1362909600 \<noteq> 1362880900 \<and> clock_local_to_utc z 1362880900 0 = 1362909599"
  using clock_spring_gap [of "\<lparr>tz_valid = True, tz_mins = 480, dl_valid = True, dl_active = 0, dl_change = 1362909600\<rparr>"
      1362909600 1362909700 1362880900]
  by (simp add: zone_ok_def)

end
