(* ===== verification/Timer.thy ===== *)
theory Timer
  imports Prelude
begin

text \<open>
  The timer queue: \<^verbatim>\<open>libayla/timer.c\<close> with the inline functions of \<^verbatim>\<open>ayla/timer.h\<close> and
  \<open>clock_gt\<close> of \<^verbatim>\<open>ayla/clock.h\<close>.  A timer is a node of a singly linked list that the code edits
  through a pointer to the previous link, so the model has an explicit store: timers are addresses,
  \<open>th_timer\<close> is the memory, \<open>link\<close> is the \<^verbatim>\<open>struct timer **prev\<close> of the loops.  A walk along a
  cyclic list would not return; it is a \<^theory_text>\<open>partial_function (option)\<close>, and the theorems show that
  on the queues the code builds it returns.  Time is the field \<open>th_now\<close>, which only handlers
  (the rest of the program) change; \<open>th_world\<close> stands for their state.
\<close>

section \<open>Store\<close>

type_synonym tid = nat

record timer =
  tm_next :: "tid option"
  tm_time :: u32
  tm_handler :: nat

record 'w tstate =
  th_first :: "tid option"
  th_timer :: "tid \<Rightarrow> timer"
  th_now :: u32
  th_world :: 'w

datatype link = First | Next tid

definition clock_gt :: "u32 \<Rightarrow> u32 \<Rightarrow> bool" where
  "clock_gt a b \<longleftrightarrow> sint (a - b) > 0"

definition time_of :: "'w tstate \<Rightarrow> tid \<Rightarrow> u32" where
  "time_of s t = tm_time (th_timer s t)"

definition timer_active :: "'w tstate \<Rightarrow> tid \<Rightarrow> bool" where
  "timer_active s t \<longleftrightarrow> time_of s t \<noteq> 0"

definition get_link :: "'w tstate \<Rightarrow> link \<Rightarrow> tid option" where
  "get_link s l = (case l of First \<Rightarrow> th_first s | Next t \<Rightarrow> tm_next (th_timer s t))"

definition upd_timer :: "tid \<Rightarrow> (timer \<Rightarrow> timer) \<Rightarrow> 'w tstate \<Rightarrow> 'w tstate" where
  "upd_timer t f s = s\<lparr>th_timer := (th_timer s)(t := f (th_timer s t))\<rparr>"

definition set_link :: "link \<Rightarrow> tid option \<Rightarrow> 'w tstate \<Rightarrow> 'w tstate" where
  "set_link l v s =
     (case l of First \<Rightarrow> s\<lparr>th_first := v\<rparr> | Next t \<Rightarrow> upd_timer t (\<lambda>x. x\<lparr>tm_next := v\<rparr>) s)"

definition set_time :: "tid \<Rightarrow> u32 \<Rightarrow> 'w tstate \<Rightarrow> 'w tstate" where
  "set_time t time s = upd_timer t (\<lambda>x. x\<lparr>tm_time := time\<rparr>) s"

section \<open>Operations\<close>

definition TIMER_DELAY_MAX :: u32 where
  "TIMER_DELAY_MAX = 0x7fffffff"

definition timer_init :: "tid \<Rightarrow> nat \<Rightarrow> 'w tstate \<Rightarrow> 'w tstate" where
  "timer_init t handler s = upd_timer t (\<lambda>x. x\<lparr>tm_next := None, tm_time := 0, tm_handler := handler\<rparr>) s"

partial_function (option) cancel_walk :: "link \<Rightarrow> tid \<Rightarrow> 'w tstate \<Rightarrow> 'w tstate option" where
  "cancel_walk prev t s =
     (case get_link s prev of
        None \<Rightarrow> Some s
      | Some node \<Rightarrow>
          if node = t then Some (set_time node 0 (set_link prev (tm_next (th_timer s node)) s))
          else cancel_walk (Next node) t s)"

definition timer_cancel :: "tid \<Rightarrow> 'w tstate \<Rightarrow> 'w tstate option" where
  "timer_cancel t s = cancel_walk First t s"

partial_function (option) set_walk :: "link \<Rightarrow> tid \<Rightarrow> u32 \<Rightarrow> 'w tstate \<Rightarrow> 'w tstate option" where
  "set_walk prev t time s =
     (case get_link s prev of
        None \<Rightarrow> Some (set_link (Next t) None (set_link prev (Some t) s))
      | Some node \<Rightarrow>
          if clock_gt (time_of s node) time then Some (set_link (Next t) (Some node) (set_link prev (Some t) s))
          else set_walk (Next node) t time s)"

definition timer_deadline :: "u32 \<Rightarrow> u32 \<Rightarrow> u32" where
  "timer_deadline now ms =
     (let ms = (if ms > TIMER_DELAY_MAX then TIMER_DELAY_MAX else ms);
          time = now + ms
      in if time = 0 then time - 1 else time)"

definition timer_set :: "tid \<Rightarrow> u32 \<Rightarrow> 'w tstate \<Rightarrow> 'w tstate option" where
  "timer_set t ms s =
     (let time = timer_deadline (th_now s) ms in
      case (if timer_active s t then timer_cancel t s else Some s) of
        None \<Rightarrow> None
      | Some s \<Rightarrow> set_walk First t time (set_time t time s))"

definition timer_reset :: "tid \<Rightarrow> nat \<Rightarrow> u32 \<Rightarrow> 'w tstate \<Rightarrow> 'w tstate option" where
  "timer_reset t handler ms s =
     (case (if timer_active s t then timer_cancel t s else Some s) of
        None \<Rightarrow> None
      | Some s \<Rightarrow> timer_set t ms (timer_init t handler s))"

definition timer_delay_get_ms :: "tid \<Rightarrow> 'w tstate \<Rightarrow> u32" where
  "timer_delay_get_ms t s = (if time_of s t = 0 then 0 else time_of s t - th_now s)"

definition timer_first_dequeue :: "'w tstate \<Rightarrow> tid option \<times> 'w tstate" where
  "timer_first_dequeue s =
     (case th_first s of
        None \<Rightarrow> (None, s)
      | Some t \<Rightarrow> (Some t, set_time t 0 (s\<lparr>th_first := tm_next (th_timer s t)\<rparr>)))"

type_synonym 'w handler = "nat \<Rightarrow> tid \<Rightarrow> 'w tstate \<Rightarrow> 'w tstate"

definition timer_run :: "'w handler \<Rightarrow> tid \<Rightarrow> 'w tstate \<Rightarrow> 'w tstate" where
  "timer_run h t s =
     (let s = upd_timer t (\<lambda>x. x\<lparr>tm_next := None, tm_time := 0\<rparr>) s
      in h (tm_handler (th_timer s t)) t s)"

partial_function (option) timer_advance :: "'w handler \<Rightarrow> 'w tstate \<Rightarrow> (int \<times> 'w tstate) option" where
  "timer_advance h s =
     (case th_first s of
        None \<Rightarrow> Some (- 1, s)
      | Some node \<Rightarrow>
          if clock_gt (time_of s node) (th_now s) then Some (sint (time_of s node - th_now s), s)
          else timer_advance h (timer_run h node (s\<lparr>th_first := tm_next (th_timer s node)\<rparr>)))"

definition timer_delta_get :: "'w tstate \<Rightarrow> int" where
  "timer_delta_get s =
     (case th_first s of
        None \<Rightarrow> - 1
      | Some t \<Rightarrow>
          if time_of s t = 0 then - 1
          else let delta = sint (time_of s t - th_now s) in if delta < 0 then 0 else delta)"

section \<open>Linked lists\<close>

text \<open>The nodes reached from a link, in order.\<close>

fun chain :: "'w tstate \<Rightarrow> link \<Rightarrow> tid list \<Rightarrow> bool" where
  "chain s l [] = (get_link s l = None)"
| "chain s l (n # ns) = (get_link s l = Some n \<and> chain s (Next n) ns)"

text \<open>
  The abstraction: the queue holds exactly the timers \<open>ns\<close>, in this order, and a timer is in it iff
  it is active.
\<close>

definition queue_is :: "'w tstate \<Rightarrow> tid list \<Rightarrow> bool" where
  "queue_is s ns \<longleftrightarrow> chain s First ns \<and> distinct ns \<and> (\<forall>t. timer_active s t \<longleftrightarrow> t \<in> set ns)"

lemma get_set_link [simp]:
  "get_link (set_link l v s) l' = (if l' = l then v else get_link s l')"
  by (auto simp: get_link_def set_link_def upd_timer_def split: link.splits)

lemma get_link_set_time [simp]: "get_link (set_time t x s) l = get_link s l"
  by (auto simp: get_link_def set_time_def upd_timer_def split: link.splits)

lemma time_of_set_time [simp]: "time_of (set_time t x s) u = (if u = t then x else time_of s u)"
  by (simp add: time_of_def set_time_def upd_timer_def)

lemma time_of_set_link [simp]: "time_of (set_link l v s) u = time_of s u"
  by (auto simp: time_of_def set_link_def upd_timer_def split: link.splits)

lemma now_world [simp]:
  "th_now (set_time t x s) = th_now s" "th_world (set_time t x s) = th_world s"
  "th_now (set_link l v s) = th_now s" "th_world (set_link l v s) = th_world s"
  by (auto simp: set_time_def set_link_def upd_timer_def split: link.splits)

lemma chain_set_time [simp]: "chain (set_time t x s) l ns = chain s l ns"
  by (induction ns arbitrary: l) simp_all

lemma chain_frame: "l' \<noteq> l \<Longrightarrow> l' \<notin> Next ` set ns \<Longrightarrow> chain (set_link l' v s) l ns = chain s l ns"
  by (induction ns arbitrary: l) auto

lemma chain_unique: "chain s l ns \<Longrightarrow> chain s l ms \<Longrightarrow> ns = ms"
  by (induction ns arbitrary: l ms; case_tac ms) auto

section \<open>Walks\<close>

lemma cancel_walk_chain:
  assumes "chain s l ns" "distinct ns" "l \<notin> Next ` set ns"
  shows "\<exists>s'. cancel_walk l t s = Some s' \<and> chain s' l (remove1 t ns) \<and>
    (\<forall>u. time_of s' u = (if u = t \<and> t \<in> set ns then 0 else time_of s u)) \<and>
    (\<forall>k. k \<noteq> l \<longrightarrow> k \<notin> Next ` set ns \<longrightarrow> get_link s' k = get_link s k) \<and>
    th_now s' = th_now s \<and> th_world s' = th_world s"
  using assms
proof (induction ns arbitrary: l)
  case Nil
  then show ?case by (subst cancel_walk.simps) simp
next
  case (Cons n ns)
  show ?case
  proof (cases "n = t")
    case True
    have "get_link s (Next n) = tm_next (th_timer s n)" by (simp add: get_link_def)
    moreover have "chain s (Next n) ns" using Cons.prems by simp
    then have "chain (set_link l (tm_next (th_timer s n)) s) l ns"
      using Cons.prems(2,3) calculation by (cases ns) (auto simp: chain_frame)
    ultimately show ?thesis using Cons.prems True
      by (subst cancel_walk.simps) auto
  next
    case False
    from Cons.prems have "chain s (Next n) ns" "distinct ns" "Next n \<notin> Next ` set ns" by auto
    from Cons.IH [OF this] obtain s' where s': "cancel_walk (Next n) t s = Some s'"
      "chain s' (Next n) (remove1 t ns)"
      "\<forall>u. time_of s' u = (if u = t \<and> t \<in> set ns then 0 else time_of s u)"
      "\<forall>k. k \<noteq> Next n \<longrightarrow> k \<notin> Next ` set ns \<longrightarrow> get_link s' k = get_link s k"
      "th_now s' = th_now s" "th_world s' = th_world s"
      by blast
    have "get_link s' l = Some n" using s'(4) Cons.prems by auto
    with s' Cons.prems False show ?thesis
      by (subst cancel_walk.simps) auto
  qed
qed

text \<open>Where \<open>timer_set\<close> puts a timer with deadline \<open>time\<close>.\<close>

definition insert_at :: "(tid \<Rightarrow> u32) \<Rightarrow> tid \<Rightarrow> u32 \<Rightarrow> tid list \<Rightarrow> tid list" where
  "insert_at f t time ns =
     takeWhile (\<lambda>n. \<not> clock_gt (f n) time) ns @ t # dropWhile (\<lambda>n. \<not> clock_gt (f n) time) ns"

lemma set_walk_chain:
  assumes "chain s l ns" "distinct ns" "l \<notin> Next ` set ns" "t \<notin> set ns" "l \<noteq> Next t"
  shows "\<exists>s'. set_walk l t time s = Some s' \<and> chain s' l (insert_at (time_of s) t time ns) \<and>
    (\<forall>u. time_of s' u = time_of s u) \<and>
    (\<forall>k. k \<noteq> l \<longrightarrow> k \<noteq> Next t \<longrightarrow> k \<notin> Next ` set ns \<longrightarrow> get_link s' k = get_link s k) \<and>
    th_now s' = th_now s \<and> th_world s' = th_world s"
  using assms
proof (induction ns arbitrary: l)
  case Nil
  then show ?case by (subst set_walk.simps) (auto simp: insert_at_def)
next
  case (Cons n ns)
  show ?case
  proof (cases "clock_gt (time_of s n) time")
    case True
    have "chain (set_link (Next t) (Some n) (set_link l (Some t) s)) (Next n) ns"
      using Cons.prems by (subst chain_frame) (auto simp: chain_frame)
    with True Cons.prems show ?thesis
      by (subst set_walk.simps) (auto simp: insert_at_def)
  next
    case False
    from Cons.prems have "chain s (Next n) ns" "distinct ns" "Next n \<notin> Next ` set ns" "t \<notin> set ns" "Next n \<noteq> Next t"
      by auto
    from Cons.IH [OF this] obtain s' where s': "set_walk (Next n) t time s = Some s'"
      "chain s' (Next n) (insert_at (time_of s) t time ns)" "\<forall>u. time_of s' u = time_of s u"
      "\<forall>k. k \<noteq> Next n \<longrightarrow> k \<noteq> Next t \<longrightarrow> k \<notin> Next ` set ns \<longrightarrow> get_link s' k = get_link s k"
      "th_now s' = th_now s" "th_world s' = th_world s"
      by blast
    have "get_link s' l = Some n" using s'(4) Cons.prems by auto
    with s' Cons.prems False show ?thesis
      by (subst set_walk.simps) (auto simp: insert_at_def)
  qed
qed

section \<open>Deadlines\<close>

text \<open>The time until a deadline, negative for a timer that is overdue.\<close>

definition offset :: "u32 \<Rightarrow> u32 \<Rightarrow> int" where
  "offset now time = sint (time - now)"

lemma sint_sub_self: "- (2 ^ 31) \<le> sint a - sint b \<Longrightarrow> sint a - sint b < 2 ^ 31 \<Longrightarrow> sint (a - b) = sint a - sint (b :: u32)"
  by (simp add: sint_word_ariths signed_take_bit_int_eq_self)

text \<open>Within a span of 2^31 ms, \<open>clock_gt\<close> compares the offsets.\<close>

lemma clock_gt_offset:
  assumes "- (2 ^ 31) \<le> offset now a - offset now b" "offset now a - offset now b < 2 ^ 31"
  shows "clock_gt a b \<longleftrightarrow> offset now a > offset now b"
proof -
  have "a - b = (a - now) - (b - now)" by simp
  also have "sint \<dots> = offset now a - offset now b"
    unfolding offset_def by (rule sint_sub_self) (use assms in \<open>simp_all add: offset_def\<close>)
  finally show ?thesis by (simp add: clock_gt_def)
qed

lemma deadline_not_zero: "timer_deadline now ms \<noteq> 0"
  by (simp add: timer_deadline_def Let_def)

lemma sint_small: "uint m \<le> 0x7fffffff \<Longrightarrow> sint (m :: u32) = uint m"
proof -
  assume "uint m \<le> 0x7fffffff"
  moreover have "- 2147483648 \<le> uint m" using uint_ge_0 [of m] by linarith
  ultimately show ?thesis
    unfolding sint_uint by (intro signed_take_bit_int_eq_self) simp_all
qed

lemma deadline_offset: "- 1 \<le> offset now (timer_deadline now ms) \<and> offset now (timer_deadline now ms) \<le> uint ms"
proof -
  define m where "m = (if ms > TIMER_DELAY_MAX then TIMER_DELAY_MAX else ms)"
  then have "m \<le> 0x7fffffff" "m \<le> ms" by (auto simp: TIMER_DELAY_MAX_def)
  then have m: "uint m \<le> 0x7fffffff" "uint m \<le> uint ms" "0 \<le> uint m" by (simp_all only: word_le_def) simp_all
  have s: "sint m = uint m" using m(1) by (rule sint_small)
  have s1: "sint (m - 1) = uint m - 1"
    using sint_sub_self [of m 1] s m(1,3) by simp
  have "timer_deadline now ms - now = m \<or> timer_deadline now ms - now = m - 1"
  proof -
    have "now + m - now = m" "now + m - 1 - now = m - 1" by simp_all
    moreover have "timer_deadline now ms = (if now + m = 0 then now + m - 1 else now + m)"
      by (simp only: timer_deadline_def Let_def m_def)
    ultimately show ?thesis by presburger
  qed
  then have "offset now (timer_deadline now ms) = uint m \<or> offset now (timer_deadline now ms) = uint m - 1"
    unfolding offset_def using s s1 by metis
  then show ?thesis using m by linarith
qed

section \<open>The queue\<close>

lemma cancel_queue:
  assumes "queue_is s ns"
  shows "\<exists>s'. timer_cancel t s = Some s' \<and> queue_is s' (remove1 t ns) \<and>
    (\<forall>u. time_of s' u = (if u = t then 0 else time_of s u)) \<and> th_now s' = th_now s \<and> th_world s' = th_world s"
proof -
  from assms have a: "chain s First ns" "distinct ns" "First \<notin> Next ` set ns" "\<And>t. timer_active s t \<longleftrightarrow> t \<in> set ns"
    by (auto simp: queue_is_def)
  from cancel_walk_chain [OF a(1-3), of t] obtain s' where s': "timer_cancel t s = Some s'"
    "chain s' First (remove1 t ns)" "\<And>u. time_of s' u = (if u = t \<and> t \<in> set ns then 0 else time_of s u)"
    "th_now s' = th_now s" "th_world s' = th_world s"
    unfolding timer_cancel_def by blast
  have t: "time_of s' u = (if u = t then 0 else time_of s u)" for u
    using s'(3) [of u] a(4) [of t] by (auto simp: timer_active_def)
  then have "queue_is s' (remove1 t ns)"
    using s'(2) a(2,4) by (auto simp: queue_is_def timer_active_def)
  with s' t show ?thesis by auto
qed

lemma insert_at_set [simp]: "set (insert_at f t time ns) = insert t (set ns)"
proof -
  have "set ns = set (takeWhile (\<lambda>n. \<not> clock_gt (f n) time) ns) \<union> set (dropWhile (\<lambda>n. \<not> clock_gt (f n) time) ns)"
    by (metis set_append takeWhile_dropWhile_id)
  then show ?thesis by (auto simp: insert_at_def)
qed

lemma insert_at_distinct: "distinct ns \<Longrightarrow> t \<notin> set ns \<Longrightarrow> distinct (insert_at f t time ns)"
  unfolding insert_at_def
  by (metis (no_types, lifting) distinct_append distinct.simps(2) not_distinct_conv_prefix set_takeWhileD
      set_dropWhileD takeWhile_dropWhile_id disjoint_insert(2) list.simps(15))

lemma insert_at_cong: "(\<And>n. n \<in> set ns \<Longrightarrow> f n = g n) \<Longrightarrow> insert_at f t time ns = insert_at g t time ns"
  unfolding insert_at_def by (metis (mono_tags, lifting) takeWhile_cong dropWhile_cong)

lemma set_queue:
  assumes "queue_is s ns"
  shows "\<exists>s'. timer_set t ms s = Some s' \<and>
    queue_is s' (insert_at (time_of s) t (timer_deadline (th_now s) ms) (remove1 t ns)) \<and>
    (\<forall>u. time_of s' u = (if u = t then timer_deadline (th_now s) ms else time_of s u)) \<and>
    th_now s' = th_now s \<and> th_world s' = th_world s"
proof -
  let ?time = "timer_deadline (th_now s) ms"
  obtain s1 where s1: "(if timer_active s t then timer_cancel t s else Some s) = Some s1"
    "queue_is s1 (remove1 t ns)" "\<And>u. time_of s1 u = (if u = t then 0 else time_of s u)"
    "th_now s1 = th_now s" "th_world s1 = th_world s"
  proof (cases "timer_active s t")
    case True
    with cancel_queue [OF assms, of t] that show ?thesis by auto
  next
    case False
    then have "t \<notin> set ns" "time_of s t = 0" using assms by (auto simp: queue_is_def timer_active_def)
    with False assms that [of s] show ?thesis by (auto simp: remove1_idem)
  qed
  let ?s = "set_time t ?time s1"
  from s1(2) have q: "chain ?s First (remove1 t ns)" "distinct (remove1 t ns)" "First \<notin> Next ` set (remove1 t ns)"
    "t \<notin> set (remove1 t ns)" "First \<noteq> Next t"
    using s1(3) [of t] by (auto simp: queue_is_def timer_active_def)
  from set_walk_chain [OF q, of ?time] obtain s' where s': "set_walk First t ?time ?s = Some s'"
    "chain s' First (insert_at (time_of ?s) t ?time (remove1 t ns))" "\<And>u. time_of s' u = time_of ?s u"
    "th_now s' = th_now ?s" "th_world s' = th_world ?s"
    by blast
  have e: "insert_at (time_of ?s) t ?time (remove1 t ns) = insert_at (time_of s) t ?time (remove1 t ns)"
    by (rule insert_at_cong) (use q(4) s1(3) in auto)
  have act: "u \<in> set (remove1 t ns) \<longleftrightarrow> u \<noteq> t \<and> time_of s u \<noteq> 0" for u
  proof -
    from s1(2) have "time_of s1 u \<noteq> 0 \<longleftrightarrow> u \<in> set (remove1 t ns)"
      unfolding queue_is_def timer_active_def by blast
    then show ?thesis unfolding s1(3) by presburger
  qed
  have tm: "time_of s' u = (if u = t then ?time else time_of s u)" for u
    using s'(3) [of u] s1(3) [of u] by simp
  have "queue_is s' (insert_at (time_of s) t ?time (remove1 t ns))"
    using s'(2) q(2,4) deadline_not_zero [of "th_now s" ms]
    by (simp add: queue_is_def timer_active_def tm act e insert_at_distinct)
  moreover have "timer_set t ms s = Some s'"
    using s1(1) s'(1) by (simp add: timer_set_def Let_def)
  ultimately show ?thesis using s'(3-5) s1(3-5) by auto
qed

section \<open>Order\<close>

definition by_deadline :: "'w tstate \<Rightarrow> tid list \<Rightarrow> bool" where
  "by_deadline s ns \<longleftrightarrow> sorted (map (\<lambda>n. offset (th_now s) (time_of s n)) ns)"

lemma sorted_place:
  "sorted (map g ns) \<Longrightarrow> sorted (map g (takeWhile (\<lambda>n. g n \<le> k) ns) @ k # map g (dropWhile (\<lambda>n. g n \<le> k) ns))"
  for g :: "'b \<Rightarrow> int"
proof (induction ns)
  case (Cons n ns)
  show ?case
  proof (cases "g n \<le> k")
    case True
    have "set (takeWhile (\<lambda>n. g n \<le> k) ns) \<union> set (dropWhile (\<lambda>n. g n \<le> k) ns) = set ns"
      by (metis set_append takeWhile_dropWhile_id)
    with True Cons show ?thesis by (auto simp: sorted_append)
  next
    case False
    with Cons.prems show ?thesis by fastforce
  qed
qed simp

text \<open>
  C10. timer_set returns on every queue and gives the queue in which the timer, taken out of its old
  place, stands before the first timer with a later deadline; no other timer is touched.  If the
  queue was in the order of the deadlines and no timer in it is 2^31 ms or more away from the new
  deadline, the new queue is in the order of the deadlines.
\<close>

theorem timer_set_correct:
  assumes "queue_is s ns"
  shows "\<exists>s'. timer_set t ms s = Some s' \<and>
    queue_is s' (insert_at (time_of s) t (timer_deadline (th_now s) ms) (remove1 t ns)) \<and>
    (\<forall>u. time_of s' u = (if u = t then timer_deadline (th_now s) ms else time_of s u)) \<and>
    (by_deadline s ns \<longrightarrow>
      (\<forall>n \<in> set ns. \<bar>offset (th_now s) (timer_deadline (th_now s) ms) - offset (th_now s) (time_of s n)\<bar> < 2 ^ 31) \<longrightarrow>
      by_deadline s' (insert_at (time_of s) t (timer_deadline (th_now s) ms) (remove1 t ns)))"
proof -
  let ?time = "timer_deadline (th_now s) ms"
  let ?ns = "remove1 t ns"
  let ?off = "\<lambda>n. offset (th_now s) (time_of s n)"
  from set_queue [OF assms, of t ms] obtain s' where s': "timer_set t ms s = Some s'"
    "queue_is s' (insert_at (time_of s) t ?time ?ns)"
    "\<And>u. time_of s' u = (if u = t then ?time else time_of s u)" "th_now s' = th_now s"
    by blast
  have d: "distinct ns" using assms by (simp add: queue_is_def)
  have "by_deadline s' (insert_at (time_of s) t ?time ?ns)"
    if sorted: "by_deadline s ns"
      and near: "\<forall>n \<in> set ns. \<bar>offset (th_now s) ?time - ?off n\<bar> < 2 ^ 31"
  proof -
    let ?k = "offset (th_now s) ?time"
    have gt: "\<not> clock_gt (time_of s n) ?time \<longleftrightarrow> ?off n \<le> ?k" if "n \<in> set ?ns" for n
    proof -
      have "n \<in> set ns" using that by (rule set_mp [OF set_remove1_subset])
      with near have "\<bar>?k - ?off n\<bar> < 2 ^ 31" by blast
      then have "- (2 ^ 31) \<le> ?off n - ?k" "?off n - ?k < 2 ^ 31" by linarith+
      from clock_gt_offset [OF this] show ?thesis by linarith
    qed
    have e: "insert_at (time_of s) t ?time ?ns = takeWhile (\<lambda>n. ?off n \<le> ?k) ?ns @ t # dropWhile (\<lambda>n. ?off n \<le> ?k) ?ns"
      unfolding insert_at_def by (intro arg_cong2 [where f = "\<lambda>a b. a @ t # b"] takeWhile_cong dropWhile_cong) (simp_all only: gt)
    let ?off' = "\<lambda>n. offset (th_now s') (time_of s' n)"
    have same: "?off' n = ?off n" if "n \<in> set ?ns" for n
      using that d s'(3,4) by auto
    have t: "?off' t = ?k" using s'(3,4) by simp
    have m: "map ?off' (takeWhile P ?ns) = map ?off (takeWhile P ?ns)" "map ?off' (dropWhile P ?ns) = map ?off (dropWhile P ?ns)" for P
      using same by (auto dest: set_takeWhileD set_dropWhileD)
    have "sorted (map ?off ?ns)" using sorted unfolding by_deadline_def by (rule sorted_map_remove1)
    from sorted_place [OF this, of ?k]
    show ?thesis unfolding by_deadline_def e map_append list.map m t .
  qed
  with s'(1-3) show ?thesis by blast
qed

text \<open>A queue with one timer due at 2000; a second one is set for 500 ms from time 1000.\<close>

definition demo_state :: "unit tstate" where
  "demo_state = \<lparr>th_first = Some 1,
     th_timer = (\<lambda>t. if t = 1 then \<lparr>tm_next = None, tm_time = 2000, tm_handler = 0\<rparr>
                     else \<lparr>tm_next = None, tm_time = 0, tm_handler = 0\<rparr>),
     th_now = 1000, th_world = ()\<rparr>"

lemma demo_queue: "queue_is demo_state [1]"
  by (simp add: queue_is_def demo_state_def get_link_def timer_active_def time_of_def)

theorem timer_set_correct_witness:
  "\<exists>s'. timer_set 2 500 demo_state = Some s' \<and> queue_is s' [2, 1] \<and> by_deadline s' [2, 1] \<and> time_of s' 2 = 1500"
proof -
  have d: "timer_deadline 1000 500 = 1500" by (simp add: timer_deadline_def TIMER_DELAY_MAX_def)
  have t: "time_of demo_state 1 = 2000" "th_now demo_state = 1000" by (simp_all add: demo_state_def time_of_def)
  have i: "insert_at (time_of demo_state) 2 1500 [1] = [2, 1]"
    by (simp add: insert_at_def t clock_gt_def del: One_nat_def)
  have o: "offset 1000 1500 = 500" "offset 1000 2000 = 1000" by (simp_all add: offset_def)
  have b: "by_deadline demo_state [1]" by (simp add: by_deadline_def)
  show ?thesis using timer_set_correct [OF demo_queue, of 2 500] b
    unfolding t d by (auto simp: i t o simp del: One_nat_def)
qed

text \<open>
  timer_cancel returns on every queue, takes the timer out of it, whether it was in it or not,
  makes it inactive and touches no other timer; after it the delay of the timer reads as 0.
\<close>

theorem timer_cancel_correct:
  assumes "queue_is s ns"
  shows "\<exists>s'. timer_cancel t s = Some s' \<and> queue_is s' (remove1 t ns) \<and>
    (\<forall>u. time_of s' u = (if u = t then 0 else time_of s u)) \<and> timer_delay_get_ms t s' = 0"
  using cancel_queue [OF assms, of t] by (auto simp: timer_delay_get_ms_def)

theorem timer_cancel_correct_witness:
  "\<exists>s'. timer_cancel 1 demo_state = Some s' \<and> queue_is s' [] \<and> timer_delay_get_ms 1 s' = 0"
  using timer_cancel_correct [OF demo_queue, of 1] by auto

section \<open>Sequences of operations\<close>

lemma chain_upd_off: "l \<noteq> Next t \<Longrightarrow> t \<notin> set ns \<Longrightarrow> chain (upd_timer t f s) l ns = chain s l ns"
  by (induction ns arbitrary: l) (auto simp: get_link_def upd_timer_def split: link.splits)

lemma init_queue:
  assumes "queue_is s ns" "t \<notin> set ns"
  shows "queue_is (timer_init t handler s) ns"
proof -
  have "timer_active (timer_init t handler s) u \<longleftrightarrow> u \<noteq> t \<and> timer_active s u" for u
    by (simp add: timer_active_def time_of_def timer_init_def upd_timer_def)
  with assms show ?thesis by (auto simp: queue_is_def timer_init_def chain_upd_off)
qed

lemma reset_queue:
  assumes "queue_is s ns"
  shows "\<exists>s' xs ys. timer_reset t handler ms s = Some s' \<and> queue_is s' (xs @ t # ys) \<and> xs @ ys = remove1 t ns"
proof -
  obtain s1 where s1: "(if timer_active s t then timer_cancel t s else Some s) = Some s1" "queue_is s1 (remove1 t ns)"
  proof (cases "timer_active s t")
    case True
    with cancel_queue [OF assms, of t] that show ?thesis by auto
  next
    case False
    then have "t \<notin> set ns" using assms by (auto simp: queue_is_def)
    with False assms that [of s] show ?thesis by (auto simp: remove1_idem)
  qed
  have t: "t \<notin> set (remove1 t ns)" using assms by (auto simp: queue_is_def)
  from set_queue [OF init_queue [OF s1(2) t], of t ms handler] obtain s' f time where
    s': "timer_set t ms (timer_init t handler s1) = Some s'" "queue_is s' (insert_at f t time (remove1 t (remove1 t ns)))"
    by blast
  have "remove1 t (remove1 t ns) = remove1 t ns" by (rule remove1_idem [OF t])
  with s1(1) s' have "timer_reset t handler ms s = Some s' \<and>
      queue_is s' (takeWhile (\<lambda>n. \<not> clock_gt (f n) time) (remove1 t ns) @ t # dropWhile (\<lambda>n. \<not> clock_gt (f n) time) (remove1 t ns))"
    by (simp add: timer_reset_def insert_at_def)
  then show ?thesis by (metis takeWhile_dropWhile_id)
qed

text \<open>What users of a timer queue rely on.\<close>

datatype timer_op = Op_set tid u32 | Op_cancel tid | Op_reset tid nat u32

definition run_op ::
  "(tid \<Rightarrow> u32 \<Rightarrow> 's \<Rightarrow> 's option) \<Rightarrow> (tid \<Rightarrow> 's \<Rightarrow> 's option) \<Rightarrow> (tid \<Rightarrow> nat \<Rightarrow> u32 \<Rightarrow> 's \<Rightarrow> 's option) \<Rightarrow>
    timer_op \<Rightarrow> 's \<Rightarrow> 's option" where
  "run_op set_op cancel_op reset_op c s =
     (case c of
        Op_set t ms \<Rightarrow> set_op t ms s
      | Op_cancel t \<Rightarrow> cancel_op t s
      | Op_reset t h ms \<Rightarrow> reset_op t h ms s)"

fun run_ops ::
  "(tid \<Rightarrow> u32 \<Rightarrow> 's \<Rightarrow> 's option) \<Rightarrow> (tid \<Rightarrow> 's \<Rightarrow> 's option) \<Rightarrow> (tid \<Rightarrow> nat \<Rightarrow> u32 \<Rightarrow> 's \<Rightarrow> 's option) \<Rightarrow>
    timer_op list \<Rightarrow> 's \<Rightarrow> 's option" where
  "run_ops set_op cancel_op reset_op [] s = Some s"
| "run_ops set_op cancel_op reset_op (c # cs) s =
     (case run_op set_op cancel_op reset_op c s of
        None \<Rightarrow> None | Some s \<Rightarrow> run_ops set_op cancel_op reset_op cs s)"

fun op_timer :: "timer_op \<Rightarrow> tid" where
  "op_timer (Op_set t ms) = t"
| "op_timer (Op_cancel t) = t"
| "op_timer (Op_reset t h ms) = t"

fun op_members :: "timer_op \<Rightarrow> tid set \<Rightarrow> tid set" where
  "op_members (Op_set t ms) A = insert t A"
| "op_members (Op_cancel t) A = A - {t}"
| "op_members (Op_reset t h ms) A = insert t A"

locale timer_queue =
  fixes queue :: "'s \<Rightarrow> tid list \<Rightarrow> bool"
    and set_op :: "tid \<Rightarrow> u32 \<Rightarrow> 's \<Rightarrow> 's option"
    and cancel_op :: "tid \<Rightarrow> 's \<Rightarrow> 's option"
    and reset_op :: "tid \<Rightarrow> nat \<Rightarrow> u32 \<Rightarrow> 's \<Rightarrow> 's option"
  assumes queue_distinct: "queue s ns \<Longrightarrow> distinct ns"
    and cancel_law: "queue s ns \<Longrightarrow> \<exists>s'. cancel_op t s = Some s' \<and> queue s' (remove1 t ns)"
    and set_law: "queue s ns \<Longrightarrow>
      \<exists>s' xs ys. set_op t ms s = Some s' \<and> queue s' (xs @ t # ys) \<and> xs @ ys = remove1 t ns"
    and reset_law: "queue s ns \<Longrightarrow>
      \<exists>s' xs ys. reset_op t h ms s = Some s' \<and> queue s' (xs @ t # ys) \<and> xs @ ys = remove1 t ns"
begin

lemma placed_set: "xs @ ys = remove1 t ns \<Longrightarrow> distinct ns \<Longrightarrow> set (xs @ t # ys) = insert t (set ns)"
proof -
  assume a: "xs @ ys = remove1 t ns" "distinct ns"
  then have "set (xs @ ys) = set ns - {t}" by simp
  then show ?thesis by auto
qed

lemma placed_filter:
  "xs @ ys = remove1 t ns \<Longrightarrow> t \<notin> A \<Longrightarrow> filter (\<lambda>u. u \<in> A) (xs @ t # ys) = filter (\<lambda>u. u \<in> A) ns"
proof -
  assume a: "xs @ ys = remove1 t ns" "t \<notin> A"
  then have "filter (\<lambda>u. u \<in> A) (xs @ t # ys) = filter (\<lambda>u. u \<in> A) (remove1 t ns)"
    by (metis (no_types, lifting) filter.simps(2) filter_append)
  also have "\<dots> = filter (\<lambda>u. u \<in> A) ns" using a(2) by (simp add: filter_remove1 remove1_idem)
  finally show ?thesis .
qed

lemma op_step:
  assumes "queue s ns"
  shows "\<exists>s' ns'. run_op set_op cancel_op reset_op c s = Some s' \<and> queue s' ns' \<and>
    set ns' = op_members c (set ns) \<and> (\<forall>A. op_timer c \<notin> A \<longrightarrow> filter (\<lambda>u. u \<in> A) ns' = filter (\<lambda>u. u \<in> A) ns)"
proof (cases c)
  case (Op_set t ms)
  from set_law [OF assms, of t ms] obtain s' xs ys where "set_op t ms s = Some s'" "queue s' (xs @ t # ys)" "xs @ ys = remove1 t ns"
    by blast
  with Op_set placed_set [of xs ys t ns] placed_filter [of xs ys t ns] queue_distinct [OF assms] show ?thesis
    by (intro exI [of _ s'] exI [of _ "xs @ t # ys"]) (simp add: run_op_def del: filter_append)
next
  case (Op_cancel t)
  from cancel_law [OF assms, of t] obtain s' where "cancel_op t s = Some s'" "queue s' (remove1 t ns)" by blast
  with Op_cancel queue_distinct [OF assms] show ?thesis
    by (intro exI [of _ s'] exI [of _ "remove1 t ns"]) (auto simp: run_op_def filter_remove1 remove1_idem)
next
  case (Op_reset t h ms)
  from reset_law [OF assms, of t h ms] obtain s' xs ys where "reset_op t h ms s = Some s'" "queue s' (xs @ t # ys)" "xs @ ys = remove1 t ns"
    by blast
  with Op_reset placed_set [of xs ys t ns] placed_filter [of xs ys t ns] queue_distinct [OF assms] show ?thesis
    by (intro exI [of _ s'] exI [of _ "xs @ t # ys"]) (simp add: run_op_def del: filter_append)
qed

lemma run_ops_queue:
  assumes "queue s ns"
  shows "\<exists>s' ns'. run_ops set_op cancel_op reset_op cs s = Some s' \<and> queue s' ns' \<and>
    set ns' = fold op_members cs (set ns) \<and>
    (\<forall>A. A \<inter> op_timer ` set cs = {} \<longrightarrow> filter (\<lambda>u. u \<in> A) ns' = filter (\<lambda>u. u \<in> A) ns)"
  using assms
proof (induction cs arbitrary: s ns)
  case (Cons c cs)
  from op_step [OF Cons.prems, of c] obtain s1 ns1 where 1: "run_op set_op cancel_op reset_op c s = Some s1" "queue s1 ns1"
    "set ns1 = op_members c (set ns)" "\<forall>A. op_timer c \<notin> A \<longrightarrow> filter (\<lambda>u. u \<in> A) ns1 = filter (\<lambda>u. u \<in> A) ns"
    by blast
  from Cons.IH [OF 1(2)] obtain s2 ns2 where 2: "run_ops set_op cancel_op reset_op cs s1 = Some s2" "queue s2 ns2"
    "set ns2 = fold op_members cs (set ns1)"
    "\<forall>A. A \<inter> op_timer ` set cs = {} \<longrightarrow> filter (\<lambda>u. u \<in> A) ns2 = filter (\<lambda>u. u \<in> A) ns1"
    by blast
  show ?case
    by (intro exI [of _ s2] exI [of _ ns2]) (use 1 2 in auto)
qed auto

end

interpretation tq: timer_queue queue_is timer_set timer_cancel timer_reset
proof (unfold_locales, goal_cases)
  case (1 s ns)
  then show ?case by (simp add: queue_is_def)
next
  case (2 s ns t)
  from cancel_queue [OF this, of t] show ?case by blast
next
  case (3 s ns t ms)
  from set_queue [OF this, of t ms] show ?case unfolding insert_at_def by (metis takeWhile_dropWhile_id)
next
  case (4 s ns t h ms)
  then show ?case by (rule reset_queue)
qed

text \<open>
  C24. Any sequence of timer_set, timer_cancel and timer_reset calls returns (the walks along the list
  end) and leaves a well-formed queue that holds exactly the timers set and not cancelled since; the
  timers that no call names keep their order.
\<close>

theorem timer_ops_correct:
  assumes "queue_is s ns"
  shows "\<exists>s' ns'. run_ops timer_set timer_cancel timer_reset cs s = Some s' \<and> queue_is s' ns' \<and>
    set ns' = fold op_members cs (set ns) \<and>
    (\<forall>A. A \<inter> op_timer ` set cs = {} \<longrightarrow> filter (\<lambda>u. u \<in> A) ns' = filter (\<lambda>u. u \<in> A) ns)"
  using assms by (rule tq.run_ops_queue)

theorem timer_ops_correct_witness:
  "\<exists>s' ns'. run_ops timer_set timer_cancel timer_reset [Op_set 2 500, Op_cancel 1, Op_reset 3 0 10] demo_state = Some s' \<and>
    queue_is s' ns' \<and> set ns' = {2, 3}"
proof -
  have "fold op_members [Op_set 2 500, Op_cancel 1, Op_reset 3 0 10] (set [1]) = {2, 3}" by auto
  with timer_ops_correct [OF demo_queue, of "[Op_set 2 500, Op_cancel 1, Op_reset 3 0 10]"] show ?thesis by metis
qed

section \<open>Expiry\<close>

lemma dequeue_queue:
  assumes "queue_is s (n # ns)"
  shows "queue_is (upd_timer n (\<lambda>x. x\<lparr>tm_next := None, tm_time := 0\<rparr>) (s\<lparr>th_first := tm_next (th_timer s n)\<rparr>)) ns"
    (is "queue_is ?s ns")
proof -
  from assms have n: "get_link s First = Some n" "chain s (Next n) ns" "n \<notin> set ns" "distinct ns"
    by (simp_all add: queue_is_def)
  have f: "get_link ?s First = get_link s (Next n)" by (simp add: get_link_def upd_timer_def)
  have o: "l \<noteq> First \<Longrightarrow> l \<noteq> Next n \<Longrightarrow> get_link ?s l = get_link s l" for l
    by (auto simp: get_link_def upd_timer_def split: link.splits)
  have sub: "chain s l ms \<Longrightarrow> l \<noteq> First \<Longrightarrow> l \<noteq> Next n \<Longrightarrow> n \<notin> set ms \<Longrightarrow> chain ?s l ms" for l ms
    by (induction ms arbitrary: l) (auto simp: o)
  have "chain ?s First ns"
    using n(2,3) by (cases ns) (auto simp: f intro: sub)
  moreover have "timer_active ?s u \<longleftrightarrow> u \<noteq> n \<and> timer_active s u" for u
    by (simp add: timer_active_def time_of_def upd_timer_def)
  ultimately show ?thesis using assms n by (auto simp: queue_is_def)
qed

lemma run_queue:
  assumes "queue_is s (n # ns)"
    "\<And>i u s'. th_first (h i u s') = th_first s' \<and> th_timer (h i u s') = th_timer s' \<and> th_now (h i u s') = th_now s'"
  shows "queue_is (timer_run h n (s\<lparr>th_first := tm_next (th_timer s n)\<rparr>)) ns"
proof -
  have "queue_is (h i u s') ms \<longleftrightarrow> queue_is s' ms" for i u s' ms
  proof -
    have g: "get_link (h i u s') l = get_link s' l" for l
      using assms(2) by (simp add: get_link_def split: link.splits)
    have "chain (h i u s') l ms = chain s' l ms" for l ms by (induction ms arbitrary: l) (simp_all add: g)
    then show ?thesis using assms(2) by (simp add: queue_is_def timer_active_def time_of_def)
  qed
  with dequeue_queue [OF assms(1)] show ?thesis by (simp add: timer_run_def Let_def)
qed

text \<open>
  Whatever the handlers do, when timer_advance returns, the queue is empty and the result is -1,
  or the first timer is not yet due and the result is the positive number of milliseconds to its
  deadline.
\<close>

theorem timer_advance_result:
  assumes "timer_advance h s = Some (d, s')"
  shows "case th_first s' of
      None \<Rightarrow> d = - 1
    | Some n \<Rightarrow> d = offset (th_now s') (time_of s' n) \<and> d > 0"
  using assms
proof (induction h s "(d, s')" arbitrary: d s' rule: timer_advance.raw_induct)
  case (1 f h s)
  show ?case
  proof (cases "th_first s")
    case None
    with 1(2) show ?thesis by auto
  next
    case (Some n)
    show ?thesis
    proof (cases "clock_gt (time_of s n) (th_now s)")
      case True
      with 1(2) Some show ?thesis by (auto simp: clock_gt_def offset_def)
    next
      case False
      with 1(2) Some have "f h (timer_run h n (s\<lparr>th_first := tm_next (th_timer s n)\<rparr>)) = Some (d, s')" by simp
      moreover from 1(3) False Some have "timer_advance h (timer_run h n (s\<lparr>th_first := tm_next (th_timer s n)\<rparr>)) = Some (d, s')"
        by (subst (asm) timer_advance.simps) simp
      ultimately show ?thesis by (rule 1(1))
    qed
  qed
qed (fact assms)

text \<open>The demo timer is due at 2000; at 1000 it has 1000 ms left.\<close>

theorem timer_advance_result_witness:
  "timer_advance (\<lambda>i t s. s) demo_state = Some (1000, demo_state) \<and> (1000 :: int) = offset (th_now demo_state) (time_of demo_state 1)"
proof -
  have a: "timer_advance (\<lambda>i t s. s) demo_state = Some (1000, demo_state)"
    by (subst timer_advance.simps) (simp add: demo_state_def time_of_def clock_gt_def)
  from timer_advance_result [OF a] show ?thesis using a by (simp add: demo_state_def)
qed

text \<open>
  When the handlers leave the timers and the clock alone, timer_advance returns after it has run
  the handlers of exactly the timers at the front of the queue that are due, each once and in the
  order of the queue; the others stay queued.
\<close>

theorem timer_advance_correct:
  assumes "queue_is s ns" "h = (\<lambda>i t s. s\<lparr>th_world := g i t (th_world s)\<rparr>)"
  shows "\<exists>d s'. timer_advance h s = Some (d, s') \<and>
    queue_is s' (dropWhile (\<lambda>n. \<not> clock_gt (time_of s n) (th_now s)) ns) \<and>
    th_world s' = fold (\<lambda>n. g (tm_handler (th_timer s n)) n)
      (takeWhile (\<lambda>n. \<not> clock_gt (time_of s n) (th_now s)) ns) (th_world s) \<and>
    (d = - 1 \<longleftrightarrow> dropWhile (\<lambda>n. \<not> clock_gt (time_of s n) (th_now s)) ns = [])"
  using assms(1)
proof (induction ns arbitrary: s)
  case Nil
  then have "th_first s = None" by (simp add: queue_is_def get_link_def)
  with Nil show ?case by (subst timer_advance.simps) simp
next
  case (Cons n ns)
  then have f: "th_first s = Some n" by (simp add: queue_is_def get_link_def)
  show ?case
  proof (cases "clock_gt (time_of s n) (th_now s)")
    case True
    with f Cons.prems show ?thesis
      by (subst timer_advance.simps) (simp add: clock_gt_def)
  next
    case False
    let ?s = "timer_run h n (s\<lparr>th_first := tm_next (th_timer s n)\<rparr>)"
    have q: "queue_is ?s ns"
      by (rule run_queue [OF Cons.prems]) (simp add: assms(2))
    have same: "time_of ?s u = time_of s u" "tm_handler (th_timer ?s u) = tm_handler (th_timer s u)" if "u \<in> set ns" for u
      using that Cons.prems
      by (auto simp: queue_is_def time_of_def timer_run_def Let_def assms(2) upd_timer_def)
    have w: "th_now ?s = th_now s" "th_world ?s = g (tm_handler (th_timer s n)) n (th_world s)"
      by (simp_all add: timer_run_def Let_def assms(2) upd_timer_def)
    have a: "timer_advance h s = timer_advance h ?s"
      using f False by (subst timer_advance.simps) simp
    have e: "takeWhile (\<lambda>n. \<not> clock_gt (time_of ?s n) (th_now ?s)) ns = takeWhile (\<lambda>n. \<not> clock_gt (time_of s n) (th_now s)) ns"
      "dropWhile (\<lambda>n. \<not> clock_gt (time_of ?s n) (th_now ?s)) ns = dropWhile (\<lambda>n. \<not> clock_gt (time_of s n) (th_now s)) ns"
      by (rule takeWhile_cong dropWhile_cong; simp add: same w)+
    have "fold (\<lambda>n. g (tm_handler (th_timer ?s n)) n) (takeWhile P ns) x = fold (\<lambda>n. g (tm_handler (th_timer s n)) n) (takeWhile P ns) x" for P x
      by (rule fold_cong) (use same in \<open>auto dest: set_takeWhileD\<close>)
    note fold_eq = this
    from Cons.IH [OF q, unfolded e] obtain d s' where r: "timer_advance h ?s = Some (d, s')"
      "queue_is s' (dropWhile (\<lambda>n. \<not> clock_gt (time_of s n) (th_now s)) ns)"
      "th_world s' = fold (\<lambda>n. g (tm_handler (th_timer ?s n)) n)
        (takeWhile (\<lambda>n. \<not> clock_gt (time_of s n) (th_now s)) ns) (th_world ?s)"
      "d = - 1 \<longleftrightarrow> dropWhile (\<lambda>n. \<not> clock_gt (time_of s n) (th_now s)) ns = []"
      by blast
    from r(3) have "th_world s' = fold (\<lambda>n. g (tm_handler (th_timer s n)) n)
        (takeWhile (\<lambda>n. \<not> clock_gt (time_of s n) (th_now s)) (n # ns)) (th_world s)"
      unfolding fold_eq w using False by simp
    with r(1,2,4) False show ?thesis unfolding a by auto
  qed
qed

text \<open>At time 3000 the demo timer is due: it is run, and the queue is empty.\<close>

theorem timer_advance_correct_witness:
  "\<exists>s'. timer_advance (\<lambda>i t s. s\<lparr>th_world := ()\<rparr>) (demo_state\<lparr>th_now := 3000\<rparr>) = Some (- 1, s') \<and> queue_is s' []"
proof -
  have q: "queue_is (demo_state\<lparr>th_now := 3000\<rparr>) [1]"
    by (simp add: queue_is_def demo_state_def get_link_def timer_active_def time_of_def)
  have d: "dropWhile (\<lambda>n. \<not> clock_gt (time_of (demo_state\<lparr>th_now := 3000\<rparr>) n) (th_now (demo_state\<lparr>th_now := 3000\<rparr>))) [1] = []"
    by (simp add: demo_state_def time_of_def clock_gt_def)
  from timer_advance_correct [OF q, of _ "\<lambda>i t w. ()", OF refl] show ?thesis unfolding d by auto
qed

end
