(* ===== verification/Http.thy ===== *)
theory Http
  imports CString
begin

text \<open>
  The HTTP header parser: \<^verbatim>\<open>libayla/http.c\<close>.  The parser is a state machine over the bytes that
  arrive; the line buffer is an array of 450 bytes and the arguments are pointers into it, given here
  as offsets.  \<open>hs_argv\<close> holds the \<open>argc\<close> pointers that are filled in.  The handlers of the tag
  table belong to the callers: \<open>hs_calls\<close> records the calls the parser makes, in order, with the
  argument strings.  In a step, \<^term>\<open>Inl\<close> is the jump to the label \<^verbatim>\<open>error\<close>.
\<close>

section \<open>State\<close>

abbreviation HTTP_ARGS :: nat where "HTTP_ARGS \<equiv> 20"
abbreviation HTTP_MAX_TEXT :: nat where "HTTP_MAX_TEXT \<equiv> 450"

datatype http_parse_state =
  HS_IDLE | HS_INIT | HS_TAG | HS_TEXT_WS | HS_TEXT | HS_CR | HS_CRLF | HS_CRLFCR | HS_DONE | HS_ERROR

text \<open>A table entry: the tag name, and whether it has a handler.\<close>

type_synonym http_tag = "bytes \<times> bool"

record http_state =
  hs_list :: "http_tag list"
  hs_bytes :: u16
  hs_status :: u32
  hs_textp :: nat
  hs_state :: http_parse_state
  hs_argv :: "nat list"
  hs_text :: bytes
  hs_chunked :: bool
  hs_chunk_set :: bool
  hs_calls :: "(bytes \<times> bytes list) list"

definition http_parse_init :: "http_tag list \<Rightarrow> http_state" where
  "http_parse_init list =
     \<lparr>hs_list = list, hs_bytes = 0, hs_status = 0, hs_textp = 0, hs_state = HS_INIT, hs_argv = [0],
      hs_text = replicate HTTP_MAX_TEXT 0, hs_chunked = False, hs_chunk_set = False, hs_calls = []\<rparr>"

definition http_chunk_init :: "http_tag list \<Rightarrow> http_state" where
  "http_chunk_init list =
     \<lparr>hs_list = list, hs_bytes = 0, hs_status = 0, hs_textp = 0, hs_state = HS_TEXT_WS, hs_argv = [0],
      hs_text = replicate HTTP_MAX_TEXT 0, hs_chunked = True, hs_chunk_set = False, hs_calls = []\<rparr>"

definition http_argc :: "http_state \<Rightarrow> nat" where
  "http_argc s = length (hs_argv s)"

definition http_arg :: "http_state \<Rightarrow> nat \<Rightarrow> bytes" where
  "http_arg s i = string_at (hs_text s) (hs_argv s ! i)"

section \<open>Steps\<close>

definition http_tag_find :: "http_tag list \<Rightarrow> bytes \<Rightarrow> http_tag option" where
  "http_tag_find table name = find (\<lambda>tag. strcaseeq name (fst tag)) table"

definition http_putc :: "u8 \<Rightarrow> http_state \<Rightarrow> http_state + http_state" where
  "http_putc byte s =
     (if hs_textp s \<ge> HTTP_MAX_TEXT - 1 then Inl s
      else Inr (s\<lparr>hs_text := (hs_text s)[hs_textp s := byte], hs_textp := hs_textp s + 1\<rparr>))"

definition http_put_arg :: "nat \<Rightarrow> http_state \<Rightarrow> http_state + http_state" where
  "http_put_arg arg s =
     (if http_argc s \<ge> HTTP_ARGS then Inl s else Inr (s\<lparr>hs_argv := hs_argv s @ [arg]\<rparr>))"

definition http_ws :: "u8 \<Rightarrow> bool" where
  "http_ws byte \<longleftrightarrow> byte = 0x20 \<or> byte = 0x09"

definition and_then :: "'s + 's \<Rightarrow> ('s \<Rightarrow> 's + 's) \<Rightarrow> 's + 's" where
  "and_then r f = (case r of Inl s \<Rightarrow> Inl s | Inr s \<Rightarrow> f s)"

definition goto :: "http_parse_state \<Rightarrow> http_state \<Rightarrow> http_state + http_state" where
  "goto st s = Inr (s\<lparr>hs_state := st\<rparr>)"

text \<open>\<^verbatim>\<open>case HS_INIT\<close>\<close>

definition http_init_byte :: "u8 \<Rightarrow> http_state \<Rightarrow> http_state + http_state" where
  "http_init_byte byte s =
     (if http_ws byte then and_then (http_putc 0 s) (goto HS_TEXT_WS) else http_putc byte s)"

text \<open>\<^verbatim>\<open>case HS_TEXT\<close>, with carriage return, semicolon and white space\<close>

definition http_text_byte :: "u8 \<Rightarrow> http_state \<Rightarrow> http_state + http_state" where
  "http_text_byte byte s =
     (if byte = 0x0d \<or> byte = 0x3b \<and> hs_chunked s then and_then (http_putc 0 s) (goto HS_CR)
      else if http_ws byte then and_then (http_putc 0 s) (goto HS_TEXT_WS)
      else http_putc byte s)"

definition http_text_ws_byte :: "u8 \<Rightarrow> http_state \<Rightarrow> http_state + http_state" where
  "http_text_ws_byte byte s =
     (if http_ws byte then Inr s
      else and_then (http_put_arg (hs_textp s) s)
             (\<lambda>s. http_text_byte byte (s\<lparr>hs_state := HS_TEXT\<rparr>)))"

text \<open>The start of a new tag: the buffer and the arguments begin again, with this byte.\<close>

definition http_new_tag :: "u8 \<Rightarrow> http_state \<Rightarrow> http_state + http_state" where
  "http_new_tag byte s =
     and_then (http_putc byte (s\<lparr>hs_textp := 0, hs_argv := take 1 (hs_argv s)\<rparr>)) (goto HS_TAG)"

text \<open>The call of the handler.\<close>

definition http_call :: "http_state \<Rightarrow> http_state" where
  "http_call s =
     (case http_tag_find (hs_list s) (http_arg s 0) of
        Some (name, True) \<Rightarrow>
          s\<lparr>hs_calls := hs_calls s @ [(name, map (string_at (hs_text s)) (tl (hs_argv s)))]\<rparr>
      | _ \<Rightarrow> s)"

text \<open>The label \<^verbatim>\<open>tag_find\<close>\<close>

definition http_end_line :: "u8 \<Rightarrow> http_state \<Rightarrow> http_state + http_state" where
  "http_end_line byte s =
     (let s = http_call s in
      if byte = 0x0d then goto HS_CRLFCR s else http_new_tag byte s)"

definition http_cr_byte :: "u8 \<Rightarrow> http_state \<Rightarrow> http_state + http_state" where
  "http_cr_byte byte s =
     (if hs_chunked s then
        (if \<not> hs_chunk_set s then
           (if http_arg s 0 = [] \<and> byte = 0x0a
            then goto HS_TEXT_WS ((http_chunk_init [])\<lparr>hs_calls := hs_calls s\<rparr>)
            else
              let (v, n) = strtoul 16 (http_arg s 0);
                  s' = s\<lparr>hs_chunk_set := True, hs_status := v\<rparr>
              in if drop n (http_arg s 0) \<noteq> [] then Inl s'
                 else if hs_status s' \<noteq> 0 \<and> byte = 0x0a then goto HS_DONE s'
                 else http_new_tag byte s')
         else if byte = 0x0a then goto HS_CRLF s
         else http_end_line byte s)
      else if byte \<noteq> 0x0a then Inl s
      else goto HS_CRLF s)"

text \<open>The status of a line that begins with \<^verbatim>\<open>HTTP\<close>\<close>

definition http_set_status :: "http_state \<Rightarrow> http_state" where
  "http_set_status s =
     (if take 4 (http_arg s 0) = [0x48, 0x54, 0x54, 0x50] \<and> http_argc s > 2 then
        (let (v, n) = strtoul 10 (http_arg s 1)
         in s\<lparr>hs_status := if drop n (http_arg s 1) \<noteq> [] then 0 else v\<rparr>)
      else s)"

definition http_crlf_byte :: "u8 \<Rightarrow> http_state \<Rightarrow> http_state + http_state" where
  "http_crlf_byte byte s =
     (if http_ws byte then goto HS_TEXT_WS s else http_end_line byte (http_set_status s))"

definition http_tag_byte :: "u8 \<Rightarrow> http_state \<Rightarrow> http_state + http_state" where
  "http_tag_byte byte s =
     (if byte = 0x3a \<or> byte = 0x3d \<and> hs_chunked s then and_then (http_putc 0 s) (goto HS_TEXT_WS)
      else http_putc byte (if byte = 0x0d \<and> hs_chunked s then s\<lparr>hs_state := HS_CRLFCR\<rparr> else s))"

definition http_step :: "u8 \<Rightarrow> http_state \<Rightarrow> http_state + http_state" where
  "http_step byte s =
     (case hs_state s of
        HS_INIT \<Rightarrow> http_init_byte byte s
      | HS_TEXT_WS \<Rightarrow> http_text_ws_byte byte s
      | HS_TEXT \<Rightarrow> http_text_byte byte s
      | HS_CR \<Rightarrow> http_cr_byte byte s
      | HS_CRLF \<Rightarrow> http_crlf_byte byte s
      | HS_TAG \<Rightarrow> http_tag_byte byte s
      | HS_CRLFCR \<Rightarrow> if byte \<noteq> 0x0a then Inl s else goto HS_DONE s
      | HS_IDLE \<Rightarrow> Inl s
      | HS_DONE \<Rightarrow> Inl s
      | HS_ERROR \<Rightarrow> Inl s)"

text \<open>The loop, which stops after the header; \<open>n\<close> counts the bytes.\<close>

fun http_loop :: "bytes \<Rightarrow> nat \<Rightarrow> http_state \<Rightarrow> http_state + (nat \<times> http_state)" where
  "http_loop [] n s = Inr (n, s)"
| "http_loop (b # bs) n s =
     (if hs_state s = HS_DONE then Inr (n, s)
      else case http_step b s of Inl s' \<Rightarrow> Inl s' | Inr s' \<Rightarrow> http_loop bs (n + 1) s')"

definition http_parse :: "http_state \<Rightarrow> bytes \<Rightarrow> int \<times> http_state" where
  "http_parse s buf =
     (case http_loop buf 0 (s\<lparr>hs_bytes := hs_bytes s + 1\<rparr>) of
        Inl s' \<Rightarrow> (- 1, s'\<lparr>hs_state := HS_ERROR\<rparr>)
      | Inr (n, s') \<Rightarrow> (int n, s'))"

section \<open>Memory safety\<close>

text \<open>
  The write pointer never passes the last byte of the buffer, which stays NUL, and every argument
  points into the buffer: each string the parser reads ends inside it.
\<close>

definition http_inv :: "http_state \<Rightarrow> bool" where
  "http_inv s \<longleftrightarrow>
     length (hs_text s) = HTTP_MAX_TEXT \<and> hs_text s ! (HTTP_MAX_TEXT - 1) = 0 \<and> hs_textp s \<le> HTTP_MAX_TEXT - 1 \<and>
     hs_argv s \<noteq> [] \<and> hd (hs_argv s) = 0 \<and> http_argc s \<le> HTTP_ARGS \<and>
     list_all (\<lambda>a. a \<le> HTTP_MAX_TEXT - 1) (hs_argv s)"

definition inv_res :: "('s \<Rightarrow> bool) \<Rightarrow> 's + 's \<Rightarrow> bool" where
  "inv_res P r \<longleftrightarrow> (case r of Inl s \<Rightarrow> P s | Inr s \<Rightarrow> P s)"

named_theorems http_inv_intros

lemma inv_res_simps [simp]: "inv_res P (Inl s) = P s" "inv_res P (Inr s) = P s"
  by (simp_all add: inv_res_def)

lemma inv_and_then [http_inv_intros]: "inv_res P r \<Longrightarrow> (\<And>s. P s \<Longrightarrow> inv_res P (f s)) \<Longrightarrow> inv_res P (and_then r f)"
  by (auto simp: and_then_def split: sum.splits)

lemma inv_fields [simp]:
  "http_inv (s\<lparr>hs_state := st\<rparr>) = http_inv s" "http_inv (s\<lparr>hs_bytes := b\<rparr>) = http_inv s"
  "http_inv (s\<lparr>hs_status := v\<rparr>) = http_inv s" "http_inv (s\<lparr>hs_chunk_set := c\<rparr>) = http_inv s"
  "http_inv (s\<lparr>hs_calls := cs\<rparr>) = http_inv s"
  by (simp_all add: http_inv_def http_argc_def)

lemma inv_goto [http_inv_intros]: "http_inv s \<Longrightarrow> inv_res http_inv (goto st s)"
  by (simp add: goto_def)

lemma inv_putc [http_inv_intros]: "http_inv s \<Longrightarrow> inv_res http_inv (http_putc b s)"
  by (auto simp: http_putc_def http_inv_def http_argc_def)

lemma inv_put_arg [http_inv_intros]: "http_inv s \<Longrightarrow> inv_res http_inv (http_put_arg (hs_textp s) s)"
  by (auto simp: http_put_arg_def http_inv_def http_argc_def)

lemma inv_init: "http_inv (http_parse_init l)" "http_inv (http_chunk_init l)"
  by (simp_all add: http_inv_def http_parse_init_def http_chunk_init_def http_argc_def)

lemma inv_new_tag [http_inv_intros]: "http_inv s \<Longrightarrow> inv_res http_inv (http_new_tag b s)"
  unfolding http_new_tag_def
  by (intro http_inv_intros) (auto simp: http_inv_def http_argc_def take_Suc hd_conv_nth split: list.splits)

lemma inv_call: "http_inv s \<Longrightarrow> http_inv (http_call s)"
  by (auto simp: http_call_def split: option.splits bool.splits)

lemma inv_end_line [http_inv_intros]: "http_inv s \<Longrightarrow> inv_res http_inv (http_end_line b s)"
  by (auto simp: http_end_line_def Let_def intro!: http_inv_intros inv_call)

lemma inv_step: "http_inv s \<Longrightarrow> inv_res http_inv (http_step b s)"
  by (cases "hs_state s")
    (auto simp: http_step_def http_init_byte_def http_text_ws_byte_def http_text_byte_def http_cr_byte_def
      http_crlf_byte_def http_set_status_def http_tag_byte_def Let_def inv_init split: prod.split
      intro!: http_inv_intros)

lemma inv_loop: "http_inv s \<Longrightarrow> (case http_loop buf n s of Inl s' \<Rightarrow> http_inv s' | Inr (m, s') \<Rightarrow> http_inv s' \<and> m \<le> n + length buf)"
proof (induction buf n s rule: http_loop.induct)
  case (2 b bs n s)
  then show ?case using inv_step [of s b] by (auto split: sum.splits)
qed simp

text \<open>
  C23. The parser is memory safe: the states that http_parse_init and http_chunk_init make satisfy the
  bounds, http_parse keeps them on any input, whatever it returns, so no input writes outside the line
  buffer, fills more than 20 arguments or makes an argument string run past the buffer.  The result
  is -1 or the number of bytes consumed, at most the length of the input.
\<close>

theorem http_memory_safe:
  "http_inv (http_parse_init l) \<and> http_inv (http_chunk_init l) \<and>
   (http_inv s \<longrightarrow> http_inv (snd (http_parse s buf)) \<and> - 1 \<le> fst (http_parse s buf) \<and> fst (http_parse s buf) \<le> int (length buf))"
  using inv_loop [of "s\<lparr>hs_bytes := hs_bytes s + 1\<rparr>" 0 buf]
  by (auto simp: inv_init http_parse_def split: sum.splits)

theorem http_memory_safe_witness:
  "http_inv (snd (http_parse (http_parse_init []) [0x48, 0x0d]))"
  using http_memory_safe [of "[]" "http_parse_init []" "[0x48, 0x0d]"] by simp

section \<open>Input in pieces\<close>

text \<open>The byte counter has no effect on the parser.\<close>

definition same :: "http_state \<Rightarrow> http_state \<Rightarrow> bool" where
  "same s t \<longleftrightarrow> s\<lparr>hs_bytes := 0\<rparr> = t\<lparr>hs_bytes := 0\<rparr>"

definition same_res :: "http_state + http_state \<Rightarrow> http_state + http_state \<Rightarrow> bool" where
  "same_res r q \<longleftrightarrow> (case (r, q) of (Inl s, Inl t) \<Rightarrow> same s t | (Inr s, Inr t) \<Rightarrow> same s t | _ \<Rightarrow> False)"

lemma same_fields: "same s t \<longleftrightarrow> hs_list s = hs_list t \<and> hs_status s = hs_status t \<and> hs_textp s = hs_textp t \<and>
    hs_state s = hs_state t \<and> hs_argv s = hs_argv t \<and> hs_text s = hs_text t \<and> hs_chunked s = hs_chunked t \<and>
    hs_chunk_set s = hs_chunk_set t \<and> hs_calls s = hs_calls t"
  by (cases s; cases t) (auto simp: same_def)

named_theorems same_intros

lemma same_res_simps [simp]:
  "same_res (Inl s) (Inl t) = same s t" "same_res (Inr s) (Inr t) = same s t"
  "\<not> same_res (Inl s) (Inr t)" "\<not> same_res (Inr s) (Inl t)"
  by (simp_all add: same_res_def)

lemma same_and_then [same_intros]:
  "same_res r q \<Longrightarrow> (\<And>s t. same s t \<Longrightarrow> same_res (f s) (g t)) \<Longrightarrow> same_res (and_then r f) (and_then q g)"
  by (cases r; cases q) (simp_all add: and_then_def)

lemma same_goto [same_intros]: "same s t \<Longrightarrow> same_res (goto st s) (goto st t)"
  by (simp add: goto_def same_fields)

lemma same_putc [same_intros]: "same s t \<Longrightarrow> same_res (http_putc b s) (http_putc b t)"
  by (auto simp: http_putc_def same_fields)

lemma same_put_arg [same_intros]: "same s t \<Longrightarrow> same_res (http_put_arg (hs_textp s) s) (http_put_arg (hs_textp t) t)"
  by (auto simp: http_put_arg_def http_argc_def same_fields)

lemma same_arg: "same s t \<Longrightarrow> http_arg s i = http_arg t i"
  by (simp add: http_arg_def same_fields)

lemma same_new_tag [same_intros]: "same s t \<Longrightarrow> same_res (http_new_tag b s) (http_new_tag b t)"
  unfolding http_new_tag_def by (intro same_intros) (simp add: same_fields)

lemma same_call: "same s t \<Longrightarrow> same (http_call s) (http_call t)"
  using same_arg [of s t 0] by (auto simp: http_call_def same_fields split: option.splits bool.splits)

lemma same_end_line [same_intros]: "same s t \<Longrightarrow> same_res (http_end_line b s) (http_end_line b t)"
  by (auto simp: http_end_line_def Let_def intro!: same_intros same_call)

lemma same_text_byte [same_intros]: "same s t \<Longrightarrow> same_res (http_text_byte b s) (http_text_byte b t)"
  by (auto simp: http_text_byte_def intro!: same_intros) (auto simp: same_fields)

lemma same_state [same_intros]: "same s t \<Longrightarrow> same (s\<lparr>hs_state := st\<rparr>) (t\<lparr>hs_state := st\<rparr>)"
  by (simp add: same_fields)

lemma same_set_status: "same s t \<Longrightarrow> same (http_set_status s) (http_set_status t)"
  using same_arg [of s t 0] same_arg [of s t 1]
  by (auto simp: http_set_status_def http_argc_def Let_def same_fields split: prod.split)

lemma same_cr [same_intros]: "same s t \<Longrightarrow> same_res (http_cr_byte b s) (http_cr_byte b t)"
proof -
  assume a: "same s t"
  then have f: "hs_chunked s = hs_chunked t" "hs_chunk_set s = hs_chunk_set t" "http_arg s 0 = http_arg t 0"
    "hs_calls s = hs_calls t"
    using same_arg [OF a, of 0] by (simp_all add: same_fields)
  have u: "same (s\<lparr>hs_chunk_set := True, hs_status := v\<rparr>) (t\<lparr>hs_chunk_set := True, hs_status := v\<rparr>)" for v
    using a by (simp add: same_fields)
  have c: "same_res (goto HS_TEXT_WS ((http_chunk_init [])\<lparr>hs_calls := cs\<rparr>)) (goto HS_TEXT_WS ((http_chunk_init [])\<lparr>hs_calls := cs\<rparr>))" for cs
    by (rule same_goto) (simp only: same_def)
  have u': "same (s\<lparr>hs_chunk_set := True, hs_status := v\<rparr>) (t\<lparr>hs_chunk_set := True, hs_status := v\<rparr>)" for v
    by (rule u)
  have d: "same_res
      (let s' = s\<lparr>hs_chunk_set := True, hs_status := v\<rparr>
       in if X then Inl s' else if hs_status s' \<noteq> 0 \<and> b = 0x0a then goto HS_DONE s' else http_new_tag b s')
      (let s' = t\<lparr>hs_chunk_set := True, hs_status := v\<rparr>
       in if X then Inl s' else if hs_status s' \<noteq> 0 \<and> b = 0x0a then goto HS_DONE s' else http_new_tag b s')" for X v
    unfolding Let_def by (simp add: u same_goto same_new_tag)
  show ?thesis
  proof (cases "hs_chunked t")
    case True
    with f d c a show ?thesis
      by (simp add: http_cr_byte_def split_beta same_goto same_end_line del: drop_eq_Nil)
  next
    case False
    with f a show ?thesis by (simp add: http_cr_byte_def same_goto)
  qed
qed

lemma same_step: "same s t \<Longrightarrow> same_res (http_step b s) (http_step b t)"
proof -
  assume a: "same s t"
  then have f: "hs_state s = hs_state t" "hs_chunked s = hs_chunked t"
    by (simp_all add: same_fields)
  have text_ws: "same_res (http_text_ws_byte b s) (http_text_ws_byte b t)"
    using a by (auto simp: http_text_ws_byte_def intro!: same_intros)
  show ?thesis
    using a text_ws same_set_status [OF a]
    by (cases "hs_state t")
      (auto simp: http_step_def f http_init_byte_def http_crlf_byte_def http_tag_byte_def intro!: same_intros)
qed

definition same_loop :: "http_state + nat \<times> http_state \<Rightarrow> http_state + nat \<times> http_state \<Rightarrow> bool" where
  "same_loop r q \<longleftrightarrow> (case (r, q) of (Inl s, Inl t) \<Rightarrow> same s t
     | (Inr (n, s), Inr (m, t)) \<Rightarrow> n = m \<and> same s t | _ \<Rightarrow> False)"

lemma same_loop_simps [simp]:
  "same_loop (Inl s) (Inl t) = same s t" "same_loop (Inr (n, s)) (Inr (m, t)) = (n = m \<and> same s t)"
  by (simp_all add: same_loop_def)

lemma same_http_loop: "same s t \<Longrightarrow> same_loop (http_loop buf n s) (http_loop buf n t)"
proof (induction buf arbitrary: n s t)
  case (Cons b buf)
  have "hs_state s = hs_state t" using Cons.prems by (simp add: same_fields)
  with Cons.prems Cons.IH same_step [OF Cons.prems, of b] show ?case
    by (cases "http_step b s"; cases "http_step b t") auto
qed simp

lemma http_loop_shift: "http_loop buf (k + n) s = (case http_loop buf n s of Inl s' \<Rightarrow> Inl s' | Inr (m, s') \<Rightarrow> Inr (k + m, s'))"
  by (induction buf n s rule: http_loop.induct) (auto split: sum.split)

lemma http_loop_append:
  "http_loop a n s = Inr (n + length a, s') \<Longrightarrow> http_loop (a @ b) n s = http_loop b (n + length a) s'"
proof (induction a n s rule: http_loop.induct)
  case (2 c a n s)
  then have st: "hs_state s \<noteq> HS_DONE" by auto
  with 2 show ?case by (auto split: sum.splits)
qed simp

text \<open>
  C31. The parser may be fed in pieces: when a buffer is consumed completely, the next call goes on
  exactly where a single call on the joined buffers would be, with the same handler calls, the same
  result and, but for the count of calls, the same state.
\<close>

theorem http_parse_pieces:
  assumes "http_parse s a = (int (length a), s1)" "http_parse s1 b = (n, s2)"
  shows "fst (http_parse s (a @ b)) = (if n < 0 then - 1 else int (length a) + n) \<and> same (snd (http_parse s (a @ b))) s2"
proof -
  let ?s = "s\<lparr>hs_bytes := hs_bytes s + 1\<rparr>" and ?s1 = "s1\<lparr>hs_bytes := hs_bytes s1 + 1\<rparr>"
  from assms(1) have "http_loop a 0 ?s = Inr (0 + length a, s1)"
    by (auto simp: http_parse_def split: sum.splits)
  from http_loop_append [OF this, of b] have ab: "http_loop (a @ b) 0 ?s = http_loop b (length a + 0) s1" by simp
  have "same s1 ?s1" by (simp add: same_fields)
  from same_http_loop [OF this, of b 0] have l: "same_loop (http_loop b 0 s1) (http_loop b 0 ?s1)" .
  show ?thesis
    using assms(2) l unfolding http_parse_def ab http_loop_shift
    by (auto simp: same_loop_def same_fields split: sum.splits prod.splits)
qed

text \<open>The first line of a response in two pieces.\<close>

theorem http_parse_pieces_witness:
  "fst (http_parse (http_parse_init []) ([0x48, 0x20] @ [0x31, 0x0d])) = 4"
proof -
  let ?s1 = "snd (http_parse (http_parse_init []) [0x48, 0x20])"
  have 1: "http_parse (http_parse_init []) [0x48, 0x20] = (int (length [0x48, 0x20 :: u8]), ?s1)"
    by (rule prod_eqI) (code_simp, simp)
  have 2: "http_parse ?s1 [0x31, 0x0d] = (2, snd (http_parse ?s1 [0x31, 0x0d]))"
    by (rule prod_eqI) (code_simp, simp)
  from http_parse_pieces [OF 1 2] show ?thesis by simp
qed

section \<open>Well-formed headers\<close>

text \<open>
  The state in the middle of a line: the strings of the line that are complete, the part of a string
  that is being collected, the handler calls made and the status.
\<close>

definition collecting :: "http_parse_state \<Rightarrow> bool" where
  "collecting st \<longleftrightarrow> st = HS_INIT \<or> st = HS_TAG \<or> st = HS_TEXT"

definition http_at :: "http_state \<Rightarrow> http_tag list \<Rightarrow> http_parse_state \<Rightarrow> bytes list \<Rightarrow> bytes \<Rightarrow>
    (bytes \<times> bytes list) list \<Rightarrow> u32 \<Rightarrow> bool" where
  "http_at s l st strs part calls v \<longleftrightarrow>
     hs_list s = l \<and> \<not> hs_chunked s \<and> hs_state s = st \<and> length (hs_text s) = HTTP_MAX_TEXT \<and>
     hs_textp s = length (packed strs @ part) \<and> take (hs_textp s) (hs_text s) = packed strs @ part \<and>
     hs_argv s = offsets 0 (if collecting st then strs @ [part] else strs) \<and>
     hs_calls s = calls \<and> hs_status s = v"

definition runs :: "http_state \<Rightarrow> bytes \<Rightarrow> http_state \<Rightarrow> bool" where
  "runs s bs s' \<longleftrightarrow> (\<forall>n rest. http_loop (bs @ rest) n s = http_loop rest (n + length bs) s')"

lemma runs_Nil: "runs s [] s"
  by (simp add: runs_def)

lemma runs_step: "http_step b s = Inr s' \<Longrightarrow> hs_state s \<noteq> HS_DONE \<Longrightarrow> runs s [b] s'"
  by (simp add: runs_def)

lemma runs_append: "runs s a t \<Longrightarrow> runs t b u \<Longrightarrow> runs s (a @ b) u"
  by (simp add: runs_def add.assoc)

lemma at_putc:
  assumes "http_at s l st strs part calls v" "length (packed strs @ part) < HTTP_MAX_TEXT - 1"
  obtains s' where "http_putc c s = Inr s'" "hs_list s' = l" "\<not> hs_chunked s'" "hs_state s' = st"
    "length (hs_text s') = HTTP_MAX_TEXT" "hs_textp s' = length (packed strs @ part @ [c])"
    "take (hs_textp s') (hs_text s') = packed strs @ part @ [c]" "hs_argv s' = hs_argv s" "hs_calls s' = calls"
    "hs_status s' = v"
proof -
  let ?p = "hs_textp s"
  from assms have p: "?p < length (hs_text s)" "?p < HTTP_MAX_TEXT - 1" "take ?p (hs_text s) = packed strs @ part"
    by (auto simp: http_at_def)
  have "take (?p + 1) ((hs_text s)[?p := c]) = take ?p (hs_text s) @ [c]"
    using p(1) by (simp add: take_Suc_conv_app_nth)
  with p assms that show thesis by (auto simp: http_putc_def http_at_def)
qed

lemma at_char:
  assumes "http_at s l st strs part calls v" "collecting st" "length (packed strs @ part) < HTTP_MAX_TEXT - 1"
    "\<not> http_ws c" "c \<noteq> 0x0d" "st = HS_TAG \<Longrightarrow> c \<noteq> 0x3a"
  shows "\<exists>s'. runs s [c] s' \<and> http_at s' l st strs (part @ [c]) calls v"
proof -
  have f: "hs_state s = st" "\<not> hs_chunked s" using assms(1) by (simp_all add: http_at_def)
  have e: "http_step c s = http_putc c s"
    using assms(2,4-6) f by (auto simp: collecting_def http_step_def http_init_byte_def http_tag_byte_def http_text_byte_def)
  obtain s' where s': "http_putc c s = Inr s'" "hs_list s' = l" "\<not> hs_chunked s'" "hs_state s' = st"
    "length (hs_text s') = HTTP_MAX_TEXT" "hs_textp s' = length (packed strs @ part @ [c])"
    "take (hs_textp s') (hs_text s') = packed strs @ part @ [c]" "hs_argv s' = hs_argv s" "hs_calls s' = calls"
    "hs_status s' = v"
    using at_putc [OF assms(1,3)] by blast
  have "hs_argv s = offsets 0 (strs @ [part])" using assms(1,2) by (simp add: http_at_def)
  with s' assms(2) have "http_at s' l st strs (part @ [c]) calls v" by (simp add: http_at_def)
  moreover have "runs s [c] s'"
    using e s'(1) f assms(2) by (intro runs_step) (auto simp: collecting_def)
  ultimately show ?thesis by blast
qed

lemma at_chars:
  assumes "http_at s l st strs part calls v" "collecting st" "length (packed strs @ part @ cs) \<le> HTTP_MAX_TEXT - 1"
    "list_all (\<lambda>c. \<not> http_ws c \<and> c \<noteq> 0x0d \<and> (st = HS_TAG \<longrightarrow> c \<noteq> 0x3a)) cs"
  shows "\<exists>s'. runs s cs s' \<and> http_at s' l st strs (part @ cs) calls v"
  using assms
proof (induction cs arbitrary: s part)
  case Nil
  then show ?case using runs_Nil by auto
next
  case (Cons c cs)
  obtain s1 where 1: "runs s [c] s1" "http_at s1 l st strs (part @ [c]) calls v"
    using at_char [OF Cons.prems(1,2), of c] Cons.prems(3,4) by auto
  obtain s2 where 2: "runs s1 cs s2" "http_at s2 l st strs ((part @ [c]) @ cs) calls v"
    using Cons.IH [OF 1(2) Cons.prems(2)] Cons.prems(3,4) by auto
  with runs_append [OF 1(1) 2(1)] show ?case by auto
qed

text \<open>The end of a string, by the byte that ends it.\<close>

lemma at_close:
  assumes "http_at s l st strs part calls v" "length (packed strs @ part) < HTTP_MAX_TEXT - 1"
    "st = HS_INIT \<and> http_ws c \<and> st' = HS_TEXT_WS \<or> st = HS_TAG \<and> c = 0x3a \<and> st' = HS_TEXT_WS \<or>
     st = HS_TEXT \<and> http_ws c \<and> st' = HS_TEXT_WS \<or> st = HS_TEXT \<and> c = 0x0d \<and> st' = HS_CR"
  shows "\<exists>s'. runs s [c] s' \<and> http_at s' l st' (strs @ [part]) [] calls v"
proof -
  have f: "hs_state s = st" "\<not> hs_chunked s" using assms(1) by (simp_all add: http_at_def)
  have w: "\<not> http_ws 0x0d" by (simp add: http_ws_def)
  have e: "http_step c s = and_then (http_putc 0 s) (goto st')"
    using assms(3) f w by (auto simp: http_step_def http_init_byte_def http_tag_byte_def http_text_byte_def http_ws_def)
  obtain s' where s': "http_putc 0 s = Inr s'" "hs_list s' = l" "\<not> hs_chunked s'" "hs_state s' = st"
    "length (hs_text s') = HTTP_MAX_TEXT" "hs_textp s' = length (packed strs @ part @ [0])"
    "take (hs_textp s') (hs_text s') = packed strs @ part @ [0]" "hs_argv s' = hs_argv s" "hs_calls s' = calls"
    "hs_status s' = v"
    using at_putc [OF assms(1,2)] by blast
  have "hs_argv s = offsets 0 (strs @ [part])" using assms(1,3) by (auto simp: http_at_def collecting_def)
  moreover have "\<not> collecting st'" using assms(3) by (auto simp: collecting_def)
  ultimately have "http_at (s'\<lparr>hs_state := st'\<rparr>) l st' (strs @ [part]) [] calls v"
    using s' by (simp add: http_at_def)
  moreover have "runs s [c] (s'\<lparr>hs_state := st'\<rparr>)"
    using e s'(1) f assms(3) by (intro runs_step) (auto simp: and_then_def goto_def)
  ultimately show ?thesis by blast
qed

lemma at_space:
  assumes "http_at s l HS_TEXT_WS strs [] calls v"
  shows "runs s [0x20] s"
  using assms by (intro runs_step) (simp_all add: http_at_def http_step_def http_text_ws_byte_def http_ws_def)

lemma at_first:
  assumes "http_at s l HS_TEXT_WS strs [] calls v" "length strs < HTTP_ARGS" "length (packed strs) < HTTP_MAX_TEXT - 1"
    "\<not> http_ws c" "c \<noteq> 0x0d"
  shows "\<exists>s'. runs s [c] s' \<and> http_at s' l HS_TEXT strs [c] calls v"
proof -
  let ?s = "s\<lparr>hs_argv := hs_argv s @ [hs_textp s], hs_state := HS_TEXT\<rparr>"
  have at: "http_at ?s l HS_TEXT strs [] calls v"
    using assms(1) by (auto simp: http_at_def collecting_def)
  have "http_argc s = length strs" using assms(1) by (simp add: http_at_def http_argc_def collecting_def)
  then have e: "http_step c s = http_step c ?s"
    using assms by (auto simp: http_at_def http_step_def http_text_ws_byte_def http_put_arg_def and_then_def)
  obtain s' where s': "runs ?s [c] s'" "http_at s' l HS_TEXT strs ([] @ [c]) calls v"
    using at_char [OF at, of c] assms(3-5) by (auto simp: collecting_def)
  have "http_loop ([c] @ rest) n s = http_loop ([c] @ rest) n ?s" for n rest
    using assms(1) by (simp add: e http_at_def)
  then have "runs s [c] s'" using s'(1) by (simp add: runs_def)
  with s'(2) show ?thesis by auto
qed

text \<open>A token after a space.\<close>

definition tok_ok :: "bytes \<Rightarrow> bool" where
  "tok_ok t \<longleftrightarrow> t \<noteq> [] \<and> list_all (\<lambda>c. c \<noteq> 0 \<and> \<not> http_ws c \<and> c \<noteq> 0x0d) t"

lemma at_token:
  assumes "http_at s l HS_TEXT_WS strs [] calls v" "tok_ok t" "length strs < HTTP_ARGS"
    "length (packed strs @ t) \<le> HTTP_MAX_TEXT - 1"
  shows "\<exists>s'. runs s t s' \<and> http_at s' l HS_TEXT strs t calls v"
proof -
  obtain c cs where t: "t = c # cs" using assms(2) by (cases t) (auto simp: tok_ok_def)
  with assms(2) have c: "\<not> http_ws c" "c \<noteq> 0x0d" "list_all (\<lambda>c. \<not> http_ws c \<and> c \<noteq> 0x0d \<and> (HS_TEXT = HS_TAG \<longrightarrow> c \<noteq> 0x3a)) cs"
    by (auto simp: tok_ok_def list_all_iff)
  obtain s1 where 1: "runs s [c] s1" "http_at s1 l HS_TEXT strs [c] calls v"
    using at_first [OF assms(1,3) _ c(1,2)] assms(4) t by auto
  obtain s2 where 2: "runs s1 cs s2" "http_at s2 l HS_TEXT strs ([c] @ cs) calls v"
    using at_chars [OF 1(2) _ _ c(3)] assms(4) t by (auto simp: collecting_def)
  from runs_append [OF 1(1) 2(1)] 2(2) t show ?thesis by auto
qed

text \<open>The rest of a line: each token after a space, then CR LF.\<close>

fun toks_text :: "bytes list \<Rightarrow> bytes" where
  "toks_text [] = [0x0d, 0x0a]"
| "toks_text (t # ts) = 0x20 # t @ toks_text ts"

lemma at_tokens:
  assumes "http_at s l st strs part calls v" "st = HS_TEXT \<or> st = HS_INIT \<and> toks \<noteq> []" "list_all tok_ok toks"
    "length (strs @ part # toks) \<le> HTTP_ARGS" "length (packed (strs @ part # toks)) \<le> HTTP_MAX_TEXT - 1"
  shows "\<exists>s'. runs s (toks_text toks) s' \<and> http_at s' l HS_CRLF (strs @ part # toks) [] calls v"
  using assms
proof (induction toks arbitrary: s st strs part)
  case Nil
  then have st: "st = HS_TEXT" by simp
  obtain s2 where 2: "runs s [0x0d] s2" "http_at s2 l HS_CR (strs @ [part]) [] calls v"
    using at_close [OF Nil.prems(1), of "0x0d" HS_CR] Nil.prems(5) st by auto
  let ?s = "s2\<lparr>hs_state := HS_CRLF\<rparr>"
  have "runs s2 [0x0a] ?s"
    using 2(2) by (intro runs_step) (simp_all add: http_at_def http_step_def http_cr_byte_def goto_def)
  moreover have "http_at ?s l HS_CRLF (strs @ [part]) [] calls v"
    using 2(2) by (auto simp: http_at_def collecting_def)
  ultimately show ?case
    using runs_append [OF 2(1)] by fastforce
next
  case (Cons t toks)
  have len: "length (packed strs @ part) < HTTP_MAX_TEXT - 1" using Cons.prems(5) by simp
  obtain s1 where 1: "runs s [0x20] s1" "http_at s1 l HS_TEXT_WS (strs @ [part]) [] calls v"
    using at_close [OF Cons.prems(1) len, of "0x20" HS_TEXT_WS] Cons.prems(2) by (auto simp: http_ws_def)
  obtain s2 where 2: "runs s1 t s2" "http_at s2 l HS_TEXT (strs @ [part]) t calls v"
    using at_token [OF 1(2), of t] Cons.prems(3-5) by auto
  obtain s3 where 3: "runs s2 (toks_text toks) s3" "http_at s3 l HS_CRLF ((strs @ [part]) @ t # toks) [] calls v"
    using Cons.IH [OF 2(2)] Cons.prems(3-5) by auto
  from runs_append [OF 1(1) runs_append [OF 2(1) 3(1)]] 3(2) show ?case by auto
qed

text \<open>The arguments of a complete line are its strings.\<close>

lemma at_args:
  assumes "http_at s l HS_CRLF strs [] calls v" "list_all (\<lambda>t. 0 \<notin> set t) strs"
  shows "map (string_at (hs_text s)) (hs_argv s) = strs"
proof -
  have "take (hs_textp s) (hs_text s) = packed strs" using assms by (auto simp: http_at_def)
  then have "hs_text s = [] @ packed strs @ drop (hs_textp s) (hs_text s)" by (metis append_Nil append_take_drop_id)
  from strings_packed [OF assms(2) this] assms(1) show ?thesis by (simp add: http_at_def collecting_def)
qed

definition line_call :: "http_tag list \<Rightarrow> bytes \<times> bytes list \<Rightarrow> (bytes \<times> bytes list) list" where
  "line_call l line =
     (case http_tag_find l (fst line) of Some (name, True) \<Rightarrow> [(name, snd line)] | _ \<Rightarrow> [])"

definition line_status :: "bytes \<times> bytes list \<Rightarrow> u32 \<Rightarrow> u32" where
  "line_status line v =
     (if take 4 (fst line) = [0x48, 0x54, 0x54, 0x50] \<and> length (snd line) \<ge> 2 then
        (let (w, n) = strtoul 10 (snd line ! 0) in if drop n (snd line ! 0) \<noteq> [] then 0 else w)
      else v)"

lemma at_end_line:
  assumes "http_at s l HS_CRLF (name # toks) [] calls v" "list_all (\<lambda>t. 0 \<notin> set t) (name # toks)"
  obtains s' where "http_call (http_set_status s) = s'" "hs_list s' = l" "\<not> hs_chunked s'" "length (hs_text s') = HTTP_MAX_TEXT"
    "hs_argv s' = hs_argv s" "hs_state s' = HS_CRLF"
    "hs_calls s' = calls @ line_call l (name, toks)" "hs_status s' = line_status (name, toks) v" "hs_argv s \<noteq> []" "hd (hs_argv s) = 0"
proof -
  from at_args [OF assms] have m: "map (string_at (hs_text s)) (hs_argv s) = name # toks" .
  then have a: "http_arg s 0 = name" "map (string_at (hs_text s)) (tl (hs_argv s)) = toks" "hs_argv s \<noteq> []"
    "http_argc s = Suc (length toks)"
    by (cases "hs_argv s"; auto simp: http_arg_def http_argc_def)+
  have a1: "http_arg s 1 = toks ! 0" if "length toks \<ge> 2"
  proof -
    have "1 < length (hs_argv s)" using that a(4) by (cases toks; simp add: http_argc_def)
    then have "map (string_at (hs_text s)) (hs_argv s) ! 1 = http_arg s 1" by (simp only: nth_map http_arg_def)
    then show ?thesis by (simp add: m)
  qed
  have s1: "http_set_status s = s\<lparr>hs_status := line_status (name, toks) v\<rparr>"
    using assms(1) a a1 by (auto simp: http_set_status_def line_status_def http_at_def split: prod.split)
  let ?s = "s\<lparr>hs_status := line_status (name, toks) v\<rparr>"
  have "http_arg ?s 0 = name" using a(1) by (simp add: http_arg_def)
  then have c: "http_call ?s = ?s\<lparr>hs_calls := calls @ line_call l (name, toks)\<rparr>"
    using assms(1) a(2) by (auto simp: http_call_def line_call_def http_at_def split: option.split bool.split)
  have "hd (hs_argv s) = 0" using assms(1) by (simp add: http_at_def collecting_def)
  with c s1 a(3) assms(1) that show thesis by (simp add: http_at_def)
qed

text \<open>
  A header: the first line, made of words, the tag lines, and an empty line.  The lines respect the
  limits of the parser: at most 20 strings, which with their terminators fit the line buffer.
\<close>

definition tag_lines :: "(bytes \<times> bytes list) list \<Rightarrow> bytes" where
  "tag_lines lines = concat (map (\<lambda>line. fst line @ 0x3a # toks_text (snd line)) lines) @ [0x0d, 0x0a]"

definition header_text :: "bytes \<times> bytes list \<Rightarrow> (bytes \<times> bytes list) list \<Rightarrow> bytes" where
  "header_text first lines = fst first @ toks_text (snd first) @ tag_lines lines"

definition line_ok :: "bytes \<times> bytes list \<Rightarrow> bool" where
  "line_ok line \<longleftrightarrow> tok_ok (fst line) \<and> 0x3a \<notin> set (fst line) \<and> snd line \<noteq> [] \<and> list_all tok_ok (snd line) \<and>
     length (snd line) < HTTP_ARGS \<and> length (packed (fst line # snd line)) \<le> HTTP_MAX_TEXT - 1"

lemma line_ok_no_NUL: "line_ok (name, toks) \<Longrightarrow> list_all (\<lambda>t. 0 \<notin> set t) (name # toks)"
  by (auto simp: line_ok_def tok_ok_def list_all_iff)

lemma tag_lines_run:
  assumes "http_at s l HS_CRLF (name # toks) [] calls v" "line_ok (name, toks)" "list_all line_ok lines"
  shows "\<exists>s'. runs s (tag_lines lines) s' \<and> hs_state s' = HS_DONE \<and>
    hs_calls s' = calls @ concat (map (line_call l) ((name, toks) # lines)) \<and>
    hs_status s' = fold line_status ((name, toks) # lines) v"
  using assms
proof (induction lines arbitrary: s name toks calls v)
  case Nil
  obtain s1 where 1: "http_call (http_set_status s) = s1" "\<not> hs_chunked s1" "hs_state s1 = HS_CRLF"
    "hs_calls s1 = calls @ line_call l (name, toks)" "hs_status s1 = line_status (name, toks) v"
    using at_end_line [OF Nil.prems(1) line_ok_no_NUL [OF Nil.prems(2)]] by metis
  have st: "hs_state s = HS_CRLF" using Nil.prems(1) by (simp add: http_at_def)
  then have "runs s [0x0d] (s1\<lparr>hs_state := HS_CRLFCR\<rparr>)"
    by (intro runs_step) (simp_all add: http_step_def http_crlf_byte_def http_ws_def http_end_line_def 1(1) Let_def goto_def)
  moreover have "runs (s1\<lparr>hs_state := HS_CRLFCR\<rparr>) [0x0a] (s1\<lparr>hs_state := HS_DONE\<rparr>)"
    by (intro runs_step) (simp_all add: http_step_def goto_def)
  ultimately have "runs s [0x0d, 0x0a] (s1\<lparr>hs_state := HS_DONE\<rparr>)" using runs_append by fastforce
  with 1(4,5) show ?case
    by (intro exI [of _ "s1\<lparr>hs_state := HS_DONE\<rparr>"]) (simp add: tag_lines_def)
next
  case (Cons line lines)
  obtain name' toks' where line: "line = (name', toks')" by (cases line)
  with Cons.prems(3) have ok: "line_ok (name', toks')" "list_all line_ok lines" by simp_all
  then obtain c cs where n: "name' = c # cs" by (cases name') (auto simp: line_ok_def tok_ok_def)
  obtain s1 where 1: "http_call (http_set_status s) = s1" "hs_list s1 = l" "\<not> hs_chunked s1" "length (hs_text s1) = HTTP_MAX_TEXT"
    "hs_argv s1 = hs_argv s" "hs_state s1 = HS_CRLF"
    "hs_calls s1 = calls @ line_call l (name, toks)" "hs_status s1 = line_status (name, toks) v" "hs_argv s \<noteq> []" "hd (hs_argv s) = 0"
    by (rule at_end_line [OF Cons.prems(1) line_ok_no_NUL [OF Cons.prems(2)]]) blast
  let ?calls = "calls @ line_call l (name, toks)" and ?v = "line_status (name, toks) v"
  have st: "hs_state s = HS_CRLF" using Cons.prems(1) by (simp add: http_at_def)
  have cc: "\<not> http_ws c" "c \<noteq> 0x0d" "c \<noteq> 0x3a" using ok(1) n by (auto simp: line_ok_def tok_ok_def)
  let ?s2 = "s1\<lparr>hs_textp := 1, hs_argv := [0], hs_text := (hs_text s1)[0 := c], hs_state := HS_TAG\<rparr>"
  have arg0: "take 1 (hs_argv s1) = [0]" using 1(5,9,10) by (cases "hs_argv s") auto
  have "http_step c s = Inr ?s2"
    using st cc arg0 by (simp add: http_step_def http_crlf_byte_def http_end_line_def 1(1) Let_def http_new_tag_def
      http_putc_def and_then_def goto_def)
  then have r2: "runs s [c] ?s2" using st by (intro runs_step) simp_all
  have at2: "http_at ?s2 l HS_TAG [] [c] ?calls ?v"
    using 1 by (simp add: http_at_def collecting_def take_Suc) (cases "hs_text s1"; simp)
  have cs: "list_all (\<lambda>c. \<not> http_ws c \<and> c \<noteq> 0x0d \<and> (HS_TAG = HS_TAG \<longrightarrow> c \<noteq> 0x3a)) cs"
    using ok(1) n by (auto simp: line_ok_def tok_ok_def list_all_iff)
  have len: "length (packed (name' # toks')) \<le> HTTP_MAX_TEXT - 1" "length toks' < HTTP_ARGS" "toks' \<noteq> []" "list_all tok_ok toks'"
    using ok(1) by (simp_all add: line_ok_def)
  obtain s3 where 3: "runs ?s2 cs s3" "http_at s3 l HS_TAG [] name' ?calls ?v"
    using at_chars [OF at2 _ _ cs] len(1) n by (auto simp: collecting_def)
  obtain s4 where 4: "runs s3 [0x3a] s4" "http_at s4 l HS_TEXT_WS [name'] [] ?calls ?v"
    using at_close [OF 3(2), of "0x3a" HS_TEXT_WS] len(1) by auto
  obtain t ts where ts: "toks' = t # ts" using len(3) by (cases toks') auto
  obtain s5 where 5: "runs s4 t s5" "http_at s5 l HS_TEXT [name'] t ?calls ?v"
    using at_token [OF 4(2), of t] len ts by auto
  obtain s6 where 6: "runs s5 (toks_text ts) s6" "http_at s6 l HS_CRLF (name' # toks') [] ?calls ?v"
    using at_tokens [OF 5(2), of ts] len ts by auto
  have "runs s4 (toks_text toks') s6"
    using runs_append [OF at_space [OF 4(2)] runs_append [OF 5(1) 6(1)]] ts by simp
  from runs_append [OF r2 runs_append [OF 3(1) runs_append [OF 4(1) this]]]
  have r6: "runs s (name' @ 0x3a # toks_text toks') s6" using n by simp
  from Cons.IH [OF 6(2) ok] obtain s7 where 7: "runs s6 (tag_lines lines) s7" "hs_state s7 = HS_DONE"
    "hs_calls s7 = ?calls @ concat (map (line_call l) ((name', toks') # lines))"
    "hs_status s7 = fold line_status ((name', toks') # lines) ?v"
    by blast
  have "tag_lines (line # lines) = (name' @ 0x3a # toks_text toks') @ tag_lines lines"
    by (simp add: tag_lines_def line)
  with runs_append [OF r6 7(1)] 7(2-4) line show ?case by auto
qed

text \<open>
  C11. A well-formed header within the limits is parsed to its end, and nothing after it is consumed:
  the handlers of the table are called for the lines that have one, in order, with the words of the
  line, and the status is the number in a line that begins with HTTP.
\<close>

theorem http_header_correct:
  assumes "line_ok first" "list_all line_ok lines"
  shows "\<exists>s'. http_parse (http_parse_init l) (header_text first lines @ body) = (int (length (header_text first lines)), s') \<and>
    hs_state s' = HS_DONE \<and> hs_calls s' = concat (map (line_call l) (first # lines)) \<and>
    hs_status s' = fold line_status (first # lines) 0"
proof -
  obtain w toks where first: "first = (w, toks)" by (cases first)
  let ?s0 = "(http_parse_init l)\<lparr>hs_bytes := hs_bytes (http_parse_init l) + 1\<rparr>"
  have at0: "http_at ?s0 l HS_INIT [] [] [] 0"
    by (simp add: http_at_def http_parse_init_def collecting_def)
  have ok: "length (packed (w # toks)) \<le> HTTP_MAX_TEXT - 1" "length toks < HTTP_ARGS" "toks \<noteq> []" "list_all tok_ok toks" "tok_ok w"
    using assms(1) first by (simp_all add: line_ok_def)
  have cs: "list_all (\<lambda>c. \<not> http_ws c \<and> c \<noteq> 0x0d \<and> (HS_INIT = HS_TAG \<longrightarrow> c \<noteq> 0x3a)) w"
    using ok(5) by (auto simp: tok_ok_def list_all_iff)
  obtain s1 where 1: "runs ?s0 w s1" "http_at s1 l HS_INIT [] w [] 0"
    using at_chars [OF at0 _ _ cs] ok(1) by (auto simp: collecting_def)
  obtain s2 where 2: "runs s1 (toks_text toks) s2" "http_at s2 l HS_CRLF (w # toks) [] [] 0"
    using at_tokens [OF 1(2), of toks] ok by auto
  obtain s3 where 3: "runs s2 (tag_lines lines) s3" "hs_state s3 = HS_DONE"
    "hs_calls s3 = [] @ concat (map (line_call l) ((w, toks) # lines))" "hs_status s3 = fold line_status ((w, toks) # lines) 0"
    using tag_lines_run [OF 2(2) assms(1) [unfolded first] assms(2)] by blast
  have "runs ?s0 (header_text first lines) s3"
    using runs_append [OF 1(1) runs_append [OF 2(1) 3(1)]] by (simp add: header_text_def first)
  then have "http_loop (header_text first lines @ body) 0 ?s0 = http_loop body (length (header_text first lines)) s3"
    by (simp add: runs_def)
  also have "\<dots> = Inr (length (header_text first lines), s3)" using 3(2) by (cases body) simp_all
  finally show ?thesis using 3(2-4) by (simp add: http_parse_def first)
qed

text \<open>\<^verbatim>\<open>HTTP/1.1 200 OK\<close> and a tag line \<^verbatim>\<open>A: b\<close> whose tag has a handler, with a body.\<close>

theorem http_header_correct_witness:
  "\<exists>s'. http_parse (http_parse_init [([0x61], True)])
     (header_text ([0x48, 0x54, 0x54, 0x50], [[0x32, 0x30, 0x30], [0x4f, 0x4b]]) [([0x41], [[0x62]])] @ [0x7b, 0x7d]) = (21, s') \<and>
    hs_status s' = 200 \<and> hs_calls s' = [([0x61], [[0x62]])]"
proof -
  let ?first = "([0x48, 0x54, 0x54, 0x50], [[0x32, 0x30, 0x30], [0x4f, 0x4b]]) :: bytes \<times> bytes list"
  let ?lines = "[([0x41], [[0x62]])] :: (bytes \<times> bytes list) list"
  have 1: "line_ok ?first" by code_simp
  have 2: "list_all line_ok ?lines" by code_simp
  have d: "strtoul 10 ([0x32, 0x30, 0x30] @ []) = (word_of_nat (digits_value 10 [0x32, 0x30, 0x30]), length [0x32, 0x30, 0x30 :: u8])"
    by (rule strtoul_decimal) (simp_all add: is_digit_def c_digit_def digits_value_def)
  have 3: "fold line_status (?first # ?lines) 0 = 200"
    using d by (simp add: line_status_def digits_value_def c_digit_def)
  have 4: "concat (map (line_call [([0x61], True)]) (?first # ?lines)) = [([0x61], [[0x62]])]" by code_simp
  have 5: "length (header_text ?first ?lines) = 21" by (simp add: header_text_def tag_lines_def)
  from http_header_correct [OF 1 2, of "[([0x61], True)]" "[0x7b, 0x7d]"] show ?thesis
    unfolding 3 4 5 by auto
qed

end
