(* ===== verification/SchedEval.thy ===== *)
theory SchedEval
  imports ClockLocal
begin

text \<open>
  The schedule interpreter: \<^verbatim>\<open>libada/schedeval.c\<close>.  Times are \<open>u32\<close> values as in the clock
  theories.  The loops that step a \<open>struct clock_info\<close> and the jumps back in
  \<open>sched_determine_big_range\<close> and \<open>sched_determine_range\<close> are \<^theory_text>\<open>partial_function (option)\<close>: a
  run that does not end is \<^term>\<open>None\<close>.  The labels of the code are separate functions; the variables
  that are live at a label are their arguments.  A pair of results is the two output pointers
  \<open>range_start\<close> and \<open>range_end\<close>.
\<close>

section \<open>Schedules\<close>

record schedule =
  sc_start_date :: nat
  sc_end_date :: nat
  sc_days_of_month :: nat
  sc_start_time_each_day :: nat
  sc_end_time_each_day :: nat
  sc_duration :: nat
  sc_interval :: nat
  sc_months_of_year :: nat
  sc_days_of_week :: nat
  sc_day_occur_in_month :: nat
  sc_is_utc :: bool

abbreviation SCHED_LAST_OCCUR :: nat where
  "SCHED_LAST_OCCUR \<equiv> 0x80"

definition sched_init_schedule :: schedule where
  "sched_init_schedule =
     \<lparr>sc_start_date = 0, sc_end_date = 0, sc_days_of_month = MAX32, sc_start_time_each_day = MAX32,
      sc_end_time_each_day = MAX32, sc_duration = 0, sc_interval = 0, sc_months_of_year = 0xFFFF,
      sc_days_of_week = 0xFF, sc_day_occur_in_month = 0xFF, sc_is_utc = False\<rparr>"

text \<open>The conditions \<open>~x\<close> on the two times of day: given, that is not all ones.\<close>

definition start_given :: "schedule \<Rightarrow> bool" where
  "start_given s \<longleftrightarrow> sc_start_time_each_day s \<noteq> MAX32"

definition end_given :: "schedule \<Rightarrow> bool" where
  "end_given s \<longleftrightarrow> sc_end_time_each_day s \<noteq> MAX32"

definition sched_check_mask :: "nat \<Rightarrow> nat \<Rightarrow> bool" where
  "sched_check_mask valid_mask mask_to_check \<longleftrightarrow> valid_mask AND push_bit (mask_to_check - 1) 1 \<noteq> 0"

definition sched_check_day :: "schedule \<Rightarrow> clock_info \<Rightarrow> bool" where
  "sched_check_day s clk =
     (let dayofwk = clk_day_of_week clk;
          day_occur = take_bit 8 (push_bit (clk_day_occur_in_month clk - 1) 1);
          day_of_month = take_bit 32 (push_bit (clk_days clk - 1) 1);
          dayofwk = (if dayofwk = 7 then 0 else dayofwk);
          dayofwk = take_bit 8 (push_bit dayofwk 1);
          day_of_month = (if drop_bit 31 (sc_days_of_month s) \<noteq> 0 \<and> clk_days_left_in_month clk = 0
                          then MAX32 else day_of_month);
          day_occur = (if sc_day_occur_in_month s AND SCHED_LAST_OCCUR \<noteq> 0 \<and> clk_days_left_in_month clk < 7
                       then SCHED_LAST_OCCUR else day_occur)
      in sc_days_of_week s AND dayofwk \<noteq> 0 \<and> sc_day_occur_in_month s AND day_occur \<noteq> 0 \<and>
         sc_days_of_month s AND day_of_month \<noteq> 0)"

definition sched_day_spec_is_given :: "schedule \<Rightarrow> bool" where
  "sched_day_spec_is_given s \<longleftrightarrow>
     sc_days_of_week s \<noteq> 0xFF \<or> sc_day_occur_in_month s \<noteq> 0xFF \<or> sc_days_of_month s \<noteq> MAX32"

section \<open>Ranges of days and months\<close>

text \<open>The three loops over days: back to the start, forward to a valid day, forward to the end.\<close>

partial_function (option) day_back :: "schedule \<Rightarrow> nat \<Rightarrow> clock_info \<Rightarrow> clock_info option" where
  "day_back s min_limit bound =
     (let bound = clock_decr_day bound in
      if min_limit \<le> clk_day_start bound \<and> sched_check_day s bound \<and> clk_day_start bound \<noteq> 0
      then day_back s min_limit bound else Some bound)"

partial_function (option) day_search :: "schedule \<Rightarrow> nat \<Rightarrow> clock_info \<Rightarrow> clock_info option" where
  "day_search s max_limit bound =
     (if \<not> sched_check_day s bound \<and> clk_day_end bound \<le> max_limit \<and> clk_day_end bound \<noteq> MAX32
      then day_search s max_limit (clock_incr_day bound) else Some bound)"

partial_function (option) day_forward :: "schedule \<Rightarrow> nat \<Rightarrow> clock_info \<Rightarrow> clock_info option" where
  "day_forward s max_limit bound =
     (if clk_day_start bound \<le> max_limit \<and> sched_check_day s bound \<and> clk_day_end bound \<noteq> MAX32
      then day_forward s max_limit (clock_incr_day bound) else Some bound)"

definition day_find_end :: "schedule \<Rightarrow> nat \<Rightarrow> nat \<Rightarrow> clock_info \<Rightarrow> (nat \<times> nat) option" where
  "day_find_end s max_limit start bound =
     (case day_forward s max_limit bound of
        None \<Rightarrow> None
      | Some bound \<Rightarrow> Some (start, if max_limit < clk_day_start bound then max_limit else clk_day_start bound))"

definition sched_day_find_range :: "clock_info \<Rightarrow> schedule \<Rightarrow> nat \<Rightarrow> nat \<Rightarrow> (nat \<times> nat) option" where
  "sched_day_find_range clk s min_limit max_limit =
     (if \<not> sched_day_spec_is_given s then Some (min_limit, max_limit)
      else if sched_check_day s clk then
        (if min_limit \<ge> clk_day_start clk then day_find_end s max_limit min_limit clk
         else case day_back s min_limit clk of
                None \<Rightarrow> None
              | Some bound \<Rightarrow>
                  day_find_end s max_limit
                    (if min_limit \<ge> add32 (clk_day_end bound) 1 then min_limit else add32 (clk_day_end bound) 1) clk)
      else case day_search s max_limit (clock_fill_details min_limit) of
             None \<Rightarrow> None
           | Some bound \<Rightarrow>
               if \<not> sched_check_day s bound then Some (0, 0)
               else day_find_end s max_limit
                      (if min_limit > clk_day_start bound then min_limit else clk_day_start bound) bound)"

partial_function (option) month_back :: "nat \<Rightarrow> nat \<Rightarrow> clock_info \<Rightarrow> clock_info option" where
  "month_back valid min_limit bound =
     (let bound = clock_decr_month bound in
      if clk_month_start bound \<ge> min_limit \<and> sched_check_mask valid (clk_month bound) \<and> clk_month_start bound \<noteq> 0
      then month_back valid min_limit bound else Some bound)"

partial_function (option) month_search :: "nat \<Rightarrow> nat \<Rightarrow> clock_info \<Rightarrow> clock_info option" where
  "month_search valid max_limit bound =
     (if \<not> sched_check_mask valid (clk_month bound) \<and> clk_month_end bound \<le> max_limit \<and> clk_month_end bound \<noteq> MAX32
      then month_search valid max_limit (clock_incr_month bound) else Some bound)"

partial_function (option) month_forward :: "nat \<Rightarrow> nat \<Rightarrow> clock_info \<Rightarrow> clock_info option" where
  "month_forward valid max_limit bound =
     (if clk_month_start bound \<le> max_limit \<and> sched_check_mask valid (clk_month bound) \<and> clk_month_end bound \<noteq> MAX32
      then month_forward valid max_limit (clock_incr_month bound) else Some bound)"

definition month_find_end :: "nat \<Rightarrow> nat \<Rightarrow> nat \<Rightarrow> clock_info \<Rightarrow> (nat \<times> nat) option" where
  "month_find_end valid max_limit start bound =
     (case month_forward valid max_limit bound of
        None \<Rightarrow> None
      | Some bound \<Rightarrow>
          Some (start, if max_limit < sub32 (clk_month_start bound) 1 then max_limit else sub32 (clk_month_start bound) 1))"

definition sched_month_find_range :: "clock_info \<Rightarrow> schedule \<Rightarrow> nat \<Rightarrow> nat \<Rightarrow> (nat \<times> nat) option" where
  "sched_month_find_range clk s min_limit max_limit =
     (let valid = sc_months_of_year s in
      if valid = 0xFFFF then Some (min_limit, max_limit)
      else if sched_check_mask valid (clk_month clk) then
        (if min_limit \<ge> clk_month_start clk then month_find_end valid max_limit min_limit clk
         else case month_back valid min_limit clk of
                None \<Rightarrow> None
              | Some bound \<Rightarrow>
                  month_find_end valid max_limit
                    (if min_limit > add32 (clk_month_end bound) 1 then min_limit else add32 (clk_month_end bound) 1) clk)
      else case month_search valid max_limit (clock_fill_details min_limit) of
             None \<Rightarrow> None
           | Some bound \<Rightarrow>
               if \<not> sched_check_mask valid (clk_month bound) then Some (0, 0)
               else month_find_end valid max_limit
                      (if min_limit > clk_month_start bound then min_limit else clk_month_start bound) bound)"

section \<open>The big range\<close>

definition sched_adjust_boundary_if_crossover :: "clock_zone \<Rightarrow> nat \<Rightarrow> nat \<Rightarrow> nat \<Rightarrow> nat" where
  "sched_adjust_boundary_if_crossover z tmin tmax duration =
     (let tmp1 = clock_local z (dl_change z);
          tmp2 = sub32 tmp1 DAYLIGHT_OFFSET
      in if tmin \<ge> tmp2 \<and> tmin < tmp1 then add32 tmp1 duration
         else if tmin \<le> tmp2 \<and> tmax \<ge> tmp2 then
           (if dl_active z \<noteq> 0 then sub32 tmax DAYLIGHT_OFFSET else add32 tmax DAYLIGHT_OFFSET)
         else tmax)"

definition adjusted :: "clock_zone \<Rightarrow> schedule \<Rightarrow> nat \<Rightarrow> nat \<Rightarrow> nat" where
  "adjusted z s tmin tmax =
     (if \<not> sc_is_utc s \<and> dl_valid z \<and> dl_active z = 0
      then sched_adjust_boundary_if_crossover z tmin tmax (sc_duration s) else tmax)"

definition duration_no_interval :: "schedule \<Rightarrow> bool" where
  "duration_no_interval s \<longleftrightarrow> sc_duration s \<noteq> 0 \<and> sc_interval s = 0"

definition time_carryover :: "schedule \<Rightarrow> bool" where
  "time_carryover s \<longleftrightarrow> end_given s \<and> start_given s \<and> sc_end_time_each_day s < sc_start_time_each_day s"

text \<open>
  The label \<^verbatim>\<open>set_start_time_each_day\<close>, entered with \<open>in_range = 0\<close>: a final range, or
  \<^term>\<open>Inl\<close> of the start of the next day (the jump to \<^verbatim>\<open>next_day\<close>).
\<close>

definition set_start_time :: "clock_zone \<Rightarrow> schedule \<Rightarrow> nat \<Rightarrow> nat \<Rightarrow> nat \<Rightarrow> clock_info \<Rightarrow> nat + nat \<times> nat" where
  "set_start_time z s time tmin tmax clk =
     (let clk = (if start_given s then clock_fill_details tmin else clk);
          tmp1 = add32 (clk_day_start clk) (sc_start_time_each_day s);
          tmin = (if start_given s \<and> tmp1 > tmin then tmp1 else tmin)
      in if duration_no_interval s then
           (if end_given s then Inr (0, 0)
            else let tmax = add32 tmin (sc_duration s) in
              if time > tmax then Inl (add32 (clk_day_end clk) 1)
              else Inr (tmin, adjusted z s tmin tmax))
         else Inr (tmin, tmax))"

text \<open>The label \<^verbatim>\<open>find_next_event\<close>; the result of \<^verbatim>\<open>no_more_events\<close> is \<open>(0, 0)\<close>.\<close>

partial_function (option) find_next_event ::
  "clock_zone \<Rightarrow> schedule \<Rightarrow> nat \<Rightarrow> nat \<Rightarrow> nat \<Rightarrow> nat \<Rightarrow> (nat \<times> nat) option" where
  "find_next_event z s time max_tmax tmin tmax =
     (if tmin \<ge> tmax then Some (0, 0)
      else Option.bind (sched_month_find_range (clock_fill_details tmin) s tmin tmax) (\<lambda>(start, stop).
        if start = 0 then Some (0, 0)
        else Option.bind (sched_day_find_range (clock_fill_details start) s start stop) (\<lambda>(start', stop').
          if start' = 0 then find_next_event z s time max_tmax (add32 stop 1) max_tmax
          else case set_start_time z s time start' stop' (clock_fill_details start) of
                 Inl tmin \<Rightarrow> find_next_event z s time max_tmax tmin max_tmax
               | Inr r \<Rightarrow> Some r)))"

text \<open>Results of \<open>sched_determine_big_range\<close>: \<open>in_range\<close> and the range.\<close>

type_synonym big = "bool \<times> nat \<times> nat"

definition next_event :: "clock_zone \<Rightarrow> schedule \<Rightarrow> nat \<Rightarrow> nat \<Rightarrow> nat \<Rightarrow> nat \<Rightarrow> big option" where
  "next_event z s time max_tmax tmin tmax = map_option (Pair False) (find_next_event z s time max_tmax tmin tmax)"

definition next_day :: "clock_zone \<Rightarrow> schedule \<Rightarrow> nat \<Rightarrow> nat \<Rightarrow> clock_info \<Rightarrow> big option" where
  "next_day z s time max_tmax clk = next_event z s time max_tmax (add32 (clk_day_end clk) 1) max_tmax"

text \<open>
  The label \<^verbatim>\<open>check_carryover\<close>.  \<open>rec\<close> stands for the recursive call of \<open>sched_determine_range\<close>
  with \<open>toplevel = 0\<close>.
\<close>

definition check_carryover ::
  "(nat \<Rightarrow> (nat \<times> nat) option) \<Rightarrow> clock_zone \<Rightarrow> schedule \<Rightarrow> nat \<Rightarrow> nat \<Rightarrow> bool \<Rightarrow> clock_info \<Rightarrow> big option" where
  "check_carryover rec z s time max_tmax in_range clk =
     (if \<not> time_carryover s \<and> sc_duration s = 0 then next_day z s time max_tmax clk
      else
        let clk = clock_fill_details time in
        if time_carryover s then
          (let clk = clock_decr_day clk;
               tmax = add32 (add32 (clk_day_end clk) (sc_end_time_each_day s)) 1
           in if sched_check_mask (sc_months_of_year s) (clk_month clk) \<and> sched_check_day s clk \<and> time \<le> tmax
              then Some (in_range, add32 (clk_day_start clk) (sc_start_time_each_day s), tmax)
              else next_day z s time max_tmax clk)
        else if sub32 time (sc_duration s) \<ge> clk_day_start clk then next_day z s time max_tmax clk
        else
          (let before = clock_fill_details (sub32 time (sc_duration s))
           in if \<not> sched_check_mask (sc_months_of_year s) (clk_month before) \<or> \<not> sched_check_day s before
              then next_day z s time max_tmax before
              else Option.bind (rec (sub32 time (sc_duration s))) (\<lambda>(rs, re).
                if time \<le> re then Some (False, rs, re) else next_day z s time max_tmax clk)))"

text \<open>The label \<^verbatim>\<open>check_duration\<close>\<close>

definition check_duration ::
  "(nat \<Rightarrow> (nat \<times> nat) option) \<Rightarrow> clock_zone \<Rightarrow> schedule \<Rightarrow> nat \<Rightarrow> bool \<Rightarrow> nat \<Rightarrow> bool \<Rightarrow> nat \<Rightarrow> nat \<Rightarrow> clock_info \<Rightarrow> big option" where
  "check_duration rec z s time toplevel max_tmax in_range tmin tmax clk =
     (if duration_no_interval s then
        (if end_given s then Some (in_range, 0, 0)
         else let tmax = adjusted z s tmin (add32 tmin (sc_duration s)) in
           if time > tmax then
             (if toplevel then check_carryover rec z s time max_tmax in_range clk
              else next_day z s time max_tmax clk)
           else Some (in_range, tmin, tmax))
      else Some (in_range, tmin, tmax))"

text \<open>The label \<^verbatim>\<open>check_time\<close>, entered with \<open>in_range = 1\<close>\<close>

definition check_time ::
  "(nat \<Rightarrow> (nat \<times> nat) option) \<Rightarrow> clock_zone \<Rightarrow> schedule \<Rightarrow> nat \<Rightarrow> bool \<Rightarrow> nat \<Rightarrow> nat \<Rightarrow> nat \<Rightarrow> clock_info \<Rightarrow> big option" where
  "check_time rec z s time toplevel max_tmax tmin tmax clk =
     (if start_given s \<or> end_given s then
        (let tmp1 =
               (if start_given s then
                  (if end_given s \<or> duration_no_interval s then add32 (clk_day_start clk) (sc_start_time_each_day s)
                   else add32 (clk_day_start (clock_fill_details tmin)) (sc_start_time_each_day s))
                else tmin);
             tmp2 =
               (if end_given s then
                  (if start_given s then add32 (clk_day_start clk) (sc_end_time_each_day s)
                   else add32 (clk_day_start (clock_fill_details tmax)) (sc_end_time_each_day s))
                else tmax)
         in if \<not> time_carryover s then
              (let in_range = (if tmp1 > time then False else True) in
               if end_given s then
                 (if time \<le> tmp2 then Some (in_range, tmp1, tmp2) else next_day z s time max_tmax clk)
               else check_duration rec z s time toplevel max_tmax in_range tmp1 tmax clk)
            else if time \<le> tmp2 then check_carryover rec z s time max_tmax True clk
            else
              Some (if time < tmp1 then False else True, tmp1,
                add32 (add32 (clk_day_end clk) 1) (sc_end_time_each_day s)))
      else check_duration rec z s time toplevel max_tmax True tmin tmax clk)"

text \<open>The part for a time between the start and the end date.\<close>

definition in_dates ::
  "(nat \<Rightarrow> (nat \<times> nat) option) \<Rightarrow> clock_zone \<Rightarrow> schedule \<Rightarrow> nat \<Rightarrow> bool \<Rightarrow> nat \<Rightarrow> nat \<Rightarrow> nat \<Rightarrow> big option" where
  "in_dates rec z s time toplevel max_tmax tmin tmax =
     (let clk = clock_fill_details time in
      if \<not> sched_check_mask (sc_months_of_year s) (clk_month clk) then
        (if toplevel then check_carryover rec z s time max_tmax True clk else Some (True, 0, 0))
      else Option.bind (sched_month_find_range clk s tmin tmax) (\<lambda>(start, stop).
        if start = 0 then Some (True, 0, 0)
        else if \<not> sched_day_spec_is_given s \<and> sc_interval s \<noteq> 0 then
          (if end_given s then check_time rec z s time toplevel max_tmax start stop clk
           else
             let clk = clock_fill_details start;
                 tmin = (if start_given s then add32 (clk_day_start clk) (sc_start_time_each_day s) else start)
             in if time > stop then next_day z s time max_tmax clk
                else check_duration rec z s time toplevel max_tmax (if time < tmin then False else True) tmin stop clk)
        else if \<not> sched_check_day s clk then
          (if toplevel then check_carryover rec z s time max_tmax True clk else Some (True, 0, 0))
        else Option.bind (sched_day_find_range clk s start stop) (\<lambda>(start', stop').
          if start' = 0 then next_event z s time max_tmax (add32 stop 1) max_tmax
          else if start' > time then
            (case set_start_time z s time start' stop' clk of
               Inl tmin \<Rightarrow> next_event z s time max_tmax tmin max_tmax
             | Inr r \<Rightarrow> Some (False, r))
          else check_time rec z s time toplevel max_tmax start' stop' clk)))"

definition sched_big_range ::
  "(nat \<Rightarrow> (nat \<times> nat) option) \<Rightarrow> clock_zone \<Rightarrow> schedule \<Rightarrow> nat \<Rightarrow> bool \<Rightarrow> big option" where
  "sched_big_range rec z s time toplevel =
     (let tmin = (if sc_start_date s \<noteq> 0 \<and> clk_day_start (clock_fill_details (sc_start_date s)) > 1
                  then clk_day_start (clock_fill_details (sc_start_date s)) else 1);
          tmax = (if sc_end_date s \<noteq> 0 \<and> clk_day_end (clock_fill_details (sc_end_date s)) < MAX32
                  then clk_day_end (clock_fill_details (sc_end_date s)) else MAX32);
          max_tmax = tmax
      in if tmin \<ge> tmax then Some (True, 0, 0)
         else if time = tmax then in_dates rec z s (sub32 time 1) toplevel max_tmax tmin tmax
         else if time > tmax then
           (if toplevel then check_carryover rec z s time max_tmax True (clock_fill_details time)
            else Some (True, 0, 0))
         else if time < tmin then next_event z s time max_tmax tmin tmax
         else in_dates rec z s time toplevel max_tmax tmin tmax)"

section \<open>The range with intervals\<close>

definition sched_get_minimum :: "nat \<Rightarrow> nat \<Rightarrow> nat \<Rightarrow> nat" where
  "sched_get_minimum time val1 val2 =
     (if val1 \<ge> time \<and> val2 \<ge> time then (if val1 < val2 then val1 else val2)
      else if val1 \<ge> time then val1
      else if val2 \<ge> time then val2 else 0)"

text \<open>
  The label \<^verbatim>\<open>local_to_utc\<close>: no more events; another call of \<open>sched_determine_big_range\<close> for the
  second time, going on with the first one and \<open>in_range = 0\<close>; or the range in UTC.
\<close>

datatype stage =
  No_more
| Again nat nat
| Range bool nat nat

definition local_to_utc :: "clock_zone \<Rightarrow> schedule \<Rightarrow> bool \<Rightarrow> nat \<Rightarrow> bool \<Rightarrow> nat \<Rightarrow> nat \<Rightarrow> stage" where
  "local_to_utc z s toplevel time in_range os oe =
     (if os = 0 \<and> oe = 0 \<or> os = MAX32 then No_more
      else if toplevel \<and> \<not> sc_is_utc s then
        (if dl_valid z \<and> dl_active z = 0 then
           (let rs = clock_local_to_utc z os 1 in
            if sc_interval s = 0 \<and> sc_duration s \<noteq> 0 then
              (let re = clock_local_to_utc z oe 2 in
               if rs \<ge> re then Again time (add32 rs 1)
               else Range (if time < rs then False else in_range) rs re)
            else
              (let re = clock_local_to_utc z oe 0 in
               if rs > re \<or> rs \<noteq> clock_local_to_utc z os 0 then Again time rs
               else if rs = re \<and> sub32 oe os \<noteq> 0 then Again time (add32 rs 1)
               else Range in_range rs re))
         else
           (let u1 = clock_local_to_utc z os 0; u2 = clock_local_to_utc z os 1;
                e1 = clock_local_to_utc z oe 0; e2 = clock_local_to_utc z oe 1;
                ir = (in_range \<or> time \<ge> u1);
                rs = (if ir then u1 else sched_get_minimum time u1 u2)
            in if sc_interval s = 0 \<and> sc_duration s \<noteq> 0 then
                 (let re = sub32 (add32 rs oe) os in
                  if ir \<and> time > re then
                    (if \<not> dl_valid z \<or> dl_active z = 0 then No_more
                     else Again (add32 (dl_change z) DAYLIGHT_OFFSET) (add32 time DAYLIGHT_OFFSET))
                  else Range ir rs re)
               else Range ir rs (sched_get_minimum time e1 e2)))
      else Range in_range os oe)"

text \<open>
  The labels \<^verbatim>\<open>calc_end_and_return\<close> and \<^verbatim>\<open>calc_next_interval\<close>: a final range, or \<^term>\<open>Inl\<close> when
  the next big range has to be found.
\<close>

definition little_end :: "schedule \<Rightarrow> nat \<Rightarrow> nat \<Rightarrow> nat" where
  "little_end s ls re =
     (let le = (if sc_duration s > MAX32 - ls then MAX32 else ls + sc_duration s);
          ssm = clk_secs_since_midnight (clock_fill_details le)
      in if le > re \<and> end_given s \<and> ssm > sc_end_time_each_day s
         then sub32 le (ssm - sc_end_time_each_day s) else le)"

partial_function (option) little_loop ::
  "schedule \<Rightarrow> bool \<Rightarrow> nat \<Rightarrow> nat \<Rightarrow> nat \<Rightarrow> nat \<Rightarrow> (unit + nat \<times> nat) option" where
  "little_loop s toplevel time re oe ls =
     (let le = little_end s ls re in
      if \<not> (ls = re \<and> sc_duration s \<noteq> 0) \<and> \<not> le < ls \<and> time \<le> le then Some (Inr (ls, le))
      else if sc_interval s \<ge> MAX32 - ls then Some (Inr (0, 0))
      else let ls = ls + sc_interval s in
        if ls > re then
          (if \<not> toplevel \<or> oe = MAX32 then Some (Inr (0, 0)) else Some (Inl ()))
        else little_loop s toplevel time re oe ls)"

text \<open>The label \<^verbatim>\<open>determine_little_range\<close>\<close>

definition little_range ::
  "schedule \<Rightarrow> bool \<Rightarrow> nat \<Rightarrow> bool \<Rightarrow> nat \<Rightarrow> nat \<Rightarrow> nat \<Rightarrow> (unit + nat \<times> nat) option" where
  "little_range s toplevel time in_range rs re oe =
     (if rs = 0 \<and> re = 0 \<or> rs = MAX32 \<or> \<not> in_range \<or> sc_interval s = 0 then Some (Inr (rs, re))
      else let tmp = sub32 time rs div sc_interval s * sc_interval s in
        if tmp \<ge> MAX32 - rs then Some (Inr (0, 0))
        else if rs + tmp > re then Some (Inr (0, 0))
        else little_loop s toplevel time re oe (rs + tmp))"

partial_function (option) range_loop ::
  "(nat \<Rightarrow> (nat \<times> nat) option) \<Rightarrow> clock_zone \<Rightarrow> schedule \<Rightarrow> bool \<Rightarrow> nat \<Rightarrow> bool \<Rightarrow> nat \<Rightarrow> nat \<Rightarrow> (nat \<times> nat) option" where
  "range_loop rec z s toplevel time in_range os oe =
     (case local_to_utc z s toplevel time in_range os oe of
        No_more \<Rightarrow> Some (0, 0)
      | Again time' query \<Rightarrow>
          Option.bind (sched_big_range rec z s query toplevel) (\<lambda>(b, os', oe').
            range_loop rec z s toplevel time' False os' oe')
      | Range ir rs re \<Rightarrow>
          Option.bind (little_range s toplevel time ir rs re oe) (\<lambda>r.
            case r of
              Inr p \<Rightarrow> Some p
            | Inl u \<Rightarrow>
                Option.bind (sched_big_range rec z s (add32 oe 1) toplevel) (\<lambda>(b, os', oe').
                  range_loop rec z s toplevel (add32 re 1) False os' oe')))"

definition determine_range ::
  "(nat \<Rightarrow> (nat \<times> nat) option) \<Rightarrow> clock_zone \<Rightarrow> schedule \<Rightarrow> nat \<Rightarrow> bool \<Rightarrow> (nat \<times> nat) option" where
  "determine_range rec z s time toplevel =
     (if time = 0 \<or> time = MAX32 then Some (0, 0)
      else
        let real_time = (if toplevel \<and> \<not> sc_is_utc s then clock_local z time else time) in
        Option.bind (sched_big_range rec z s real_time toplevel) (\<lambda>(in_range, os, oe).
          range_loop rec z s toplevel time in_range os oe))"

text \<open>
  The function: \<open>toplevel = 0\<close> comes from the recursive call only and makes no further one
  (lemma \<open>big_range_inner\<close> below), so two levels are the whole recursion.
\<close>

definition sched_range_inner :: "clock_zone \<Rightarrow> schedule \<Rightarrow> nat \<Rightarrow> (nat \<times> nat) option" where
  "sched_range_inner z s time = determine_range (\<lambda>t. None) z s time False"

definition sched_determine_range :: "clock_zone \<Rightarrow> schedule \<Rightarrow> nat \<Rightarrow> (nat \<times> nat) option" where
  "sched_determine_range z s time = determine_range (sched_range_inner z s) z s time True"

lemma carry_rec: "time_carryover s \<Longrightarrow> check_carryover rec z s time m ir clk = check_carryover rec' z s time m ir clk"
  by (simp add: check_carryover_def)

lemma check_duration_inner: "check_duration rec z s time False m ir a b c = check_duration rec' z s time False m ir a b c"
  by (simp add: check_duration_def)

lemma check_time_inner: "check_time rec z s time False m a b c = check_time rec' z s time False m a b c"
  using carry_rec [of s rec z time m True c rec']
  by (simp add: check_time_def Let_def check_duration_inner [of rec z s time m _ _ _ _ rec'])

lemma in_dates_inner: "in_dates rec z s time False m a b = in_dates rec' z s time False m a b"
  unfolding in_dates_def check_time_inner [of rec z s time m _ _ _ rec']
    check_duration_inner [of rec z s time m _ _ _ _ rec'] by (simp only: if_False)

lemma big_range_inner: "sched_big_range rec z s time False = sched_big_range rec' z s time False"
  unfolding sched_big_range_def in_dates_inner [of rec z s _ _ _ _ rec'] by (simp only: if_False)

section \<open>Evaluation of a schedule value\<close>

record sched_prop =
  sp_len :: nat
  sp_tlvs :: bytes

datatype sched_type = TY_INVALID | TY_INRANGE | TY_ATSTART | TY_ATEND

text \<open>
  A byte of the value; behind the array the code reads whatever follows it, and the model a zero.
\<close>

definition tlv_byte :: "sched_prop \<Rightarrow> nat \<Rightarrow> nat" where
  "tlv_byte p i = unat (cchar (sp_tlvs p) i)"

text \<open>\<open>sched_int_get\<close> with \<open>get_ua_with_len\<close>: a big-endian integer of 1, 2 or 4 bytes.\<close>

definition sched_int_get :: "sched_prop \<Rightarrow> nat \<Rightarrow> nat option" where
  "sched_int_get p pos =
     (let len = tlv_byte p (pos + 1); b = (\<lambda>i. tlv_byte p (pos + 2 + i)) in
      if len = 1 then Some (b 0)
      else if len = 2 then Some (b 0 * 256 + b 1)
      else if len = 4 then Some (((b 0 * 256 + b 1) * 256 + b 2) * 256 + b 3)
      else None)"

definition sched_set_sched_value :: "nat \<Rightarrow> sched_prop \<Rightarrow> nat \<Rightarrow> nat option" where
  "sched_set_sched_value dest_len p pos =
     (if tlv_byte p (pos + 1) > dest_len then None
      else map_option (\<lambda>v. v mod 256 ^ dest_len) (sched_int_get p pos))"

record eval_state =
  ev_sched :: schedule
  ev_consumed :: nat
  ev_end_needed :: bool
  ev_start :: nat
  ev_end :: nat
  ev_calculated :: bool
  ev_type :: sched_type
  ev_actions :: "nat list"

text \<open>
  One item, at \<open>ev_consumed\<close>; \<^term>\<open>Inl\<close> is \<^verbatim>\<open>return 0\<close>.  \<open>ev_actions\<close> are the positions of the
  items passed to \<open>sched_action_pend\<close>.
\<close>

definition eval_value :: "eval_state \<Rightarrow> nat option \<Rightarrow> (nat \<Rightarrow> schedule \<Rightarrow> schedule) \<Rightarrow> (eval_state + eval_state) option" where
  "eval_value st v upd =
     (case v of
        None \<Rightarrow> Some (Inl st)
      | Some v \<Rightarrow> Some (Inr (st\<lparr>ev_sched := upd v (ev_sched st)\<rparr>)))"

definition eval_range :: "clock_zone \<Rightarrow> nat \<Rightarrow> sched_type \<Rightarrow> eval_state \<Rightarrow> (eval_state + eval_state) option" where
  "eval_range z time ty st =
     (let st = st\<lparr>ev_type := ty\<rparr> in
      if time = 0 then Some (Inl st)
      else if \<not> sc_is_utc (ev_sched st) \<and> \<not> tz_valid z then Some (Inl st)
      else if ev_calculated st then Some (Inr st)
      else
        let sched = ev_sched st;
            sched = (if sc_interval sched \<noteq> 0 \<and> sc_duration sched \<noteq> 0 \<and> sc_interval sched \<le> sc_duration sched
                     then sched\<lparr>sc_interval := add32 (sc_interval sched) (sc_duration sched)\<rparr> else sched)
        in map_option
             (\<lambda>(rs, re). Inr (st\<lparr>ev_sched := sched, ev_start := rs, ev_end := re, ev_calculated := True\<rparr>))
             (sched_determine_range z sched time))"

definition eval_setprop :: "nat \<Rightarrow> eval_state \<Rightarrow> eval_state" where
  "eval_setprop time st =
     (if ev_type st = TY_ATSTART \<and> time = ev_start st \<or> ev_type st = TY_ATEND \<and> time = ev_end st \<or>
         ev_type st = TY_INRANGE \<and> time \<ge> ev_start st \<and> time < ev_end st
      then st\<lparr>ev_actions := ev_actions st @ [ev_consumed st]\<rparr> else st)"

definition eval_tlv :: "clock_zone \<Rightarrow> sched_prop \<Rightarrow> nat \<Rightarrow> eval_state \<Rightarrow> (eval_state + eval_state) option" where
  "eval_tlv z p time st =
     (let pos = ev_consumed st; ty = tlv_byte p pos; val = (\<lambda>n. sched_set_sched_value n p pos) in
      if ty = 0x22 then Some (Inr st)
      else if ty = 0x23 then Some (Inl st)
      else if ty = 0x21 then Some (Inr (st\<lparr>ev_sched := (ev_sched st)\<lparr>sc_is_utc := True\<rparr>\<rparr>))
      else if ty = 0x27 then eval_value st (val 4) (\<lambda>v s. s\<lparr>sc_start_date := v\<rparr>)
      else if ty = 0x28 then eval_value st (val 4) (\<lambda>v s. s\<lparr>sc_end_date := v\<rparr>)
      else if ty = 0x29 then eval_value st (val 4) (\<lambda>v s. s\<lparr>sc_days_of_month := v\<rparr>)
      else if ty = 0x2a then eval_value st (val 1) (\<lambda>v s. s\<lparr>sc_days_of_week := v\<rparr>)
      else if ty = 0x2b then eval_value st (val 1) (\<lambda>v s. s\<lparr>sc_day_occur_in_month := v\<rparr>)
      else if ty = 0x2c then eval_value st (val 2) (\<lambda>v s. s\<lparr>sc_months_of_year := v\<rparr>)
      else if ty = 0x2d then eval_value st (val 4) (\<lambda>v s. s\<lparr>sc_start_time_each_day := v\<rparr>)
      else if ty = 0x2e then eval_value st (val 4) (\<lambda>v s. s\<lparr>sc_end_time_each_day := v\<rparr>)
      else if ty = 0x2f then eval_value st (val 4) (\<lambda>v s. s\<lparr>sc_duration := v\<rparr>)
      else if ty = 0x31 then eval_value st (val 4) (\<lambda>v s. s\<lparr>sc_interval := v\<rparr>)
      else if ty = 0x26 then eval_range z time TY_ATEND (st\<lparr>ev_end_needed := True\<rparr>)
      else if ty = 0x25 then eval_range z time TY_ATSTART st
      else if ty = 0x24 then eval_range z time TY_INRANGE st
      else if ty = 0x32 then Some (Inr (eval_setprop time st))
      else Some (Inl st))"

text \<open>The loop over the items; \<open>consumed\<close> is an \<open>u8\<close>.\<close>

partial_function (option) eval_loop :: "clock_zone \<Rightarrow> sched_prop \<Rightarrow> nat \<Rightarrow> eval_state \<Rightarrow> (eval_state + eval_state) option" where
  "eval_loop z p time st =
     (if ev_consumed st < sp_len p then
        (case eval_tlv z p time st of
           None \<Rightarrow> None
         | Some (Inl st') \<Rightarrow> Some (Inl st')
         | Some (Inr st') \<Rightarrow>
             eval_loop z p time
               (st'\<lparr>ev_consumed := (ev_consumed st + tlv_byte p (ev_consumed st + 1) + 2) mod 256\<rparr>))
      else Some (Inr st))"

definition determine_next_event :: "clock_zone \<Rightarrow> schedule \<Rightarrow> nat \<Rightarrow> nat option" where
  "determine_next_event z sched time =
     map_option (\<lambda>(rs, re). if rs \<noteq> 0 \<and> rs \<noteq> MAX32 \<and> rs < time then 0 else rs)
       (sched_determine_range z sched time)"

text \<open>The result: the time of the next event, and the actions pended.\<close>

definition sched_evaluate :: "clock_zone \<Rightarrow> sched_prop \<Rightarrow> nat \<Rightarrow> (nat \<times> nat list) option" where
  "sched_evaluate z p time =
     (case (if tlv_byte p 0 = 0x33 then sched_int_get p 0 else None) of
        None \<Rightarrow> Some (0, [])
      | Some version \<Rightarrow>
          if 1 < version \<and> version < 2 ^ 31 then Some (0, [])
          else
            (case eval_loop z p time
                    \<lparr>ev_sched = sched_init_schedule, ev_consumed = (tlv_byte p 1 + 2) mod 256, ev_end_needed = False,
                     ev_start = 0, ev_end = 0, ev_calculated = False, ev_type = TY_INVALID, ev_actions = []\<rparr> of
               None \<Rightarrow> None
             | Some (Inl st) \<Rightarrow> Some (0, ev_actions st)
             | Some (Inr st) \<Rightarrow>
                 let result = map_option (\<lambda>t. (t, ev_actions st)) in
                 if ev_start st = 0 \<and> ev_end st = 0 then result (Some 0)
                 else if time < ev_start st then result (Some (ev_start st))
                 else if \<not> ev_end_needed st \<and> ev_end st \<noteq> MAX32 then
                   result (determine_next_event z (ev_sched st) (ev_end st + 1))
                 else if time < ev_end st then result (Some (ev_end st))
                 else if time = ev_end st then
                   result (determine_next_event z (ev_sched st) (add32 (ev_end st) 1))
                 else result (Some 0)))"

end
