(* ===== verification/SchedDays.thy ===== *)
theory SchedDays
  imports SchedEval
begin

text \<open>
  Properties of the day conditions of \<^verbatim>\<open>libada/schedeval.c\<close> and of the loops over days.
\<close>

section \<open>Valid days\<close>

text \<open>One bit of a mask.\<close>

lemma and_bit: "m AND push_bit k 1 \<noteq> 0 \<longleftrightarrow> bit (m :: nat) k"
proof -
  have "m AND push_bit k 1 = (if bit m k then 2 ^ k else 0)"
    by (rule bit_eqI) (auto simp: bit_simps push_bit_of_1)
  then show ?thesis by simp
qed

lemma drop_31: "m \<le> MAX32 \<Longrightarrow> drop_bit 31 m \<noteq> 0 \<longleftrightarrow> bit (m :: nat) 31"
proof -
  assume m: "m \<le> MAX32"
  have "drop_bit 31 m = 0 \<or> drop_bit 31 m = 1" using m by (simp add: drop_bit_eq_div) linarith
  then show ?thesis by (auto simp: bit_iff_odd_drop_bit)
qed

lemma max32_mask: "m \<le> MAX32 \<Longrightarrow> (m :: nat) AND MAX32 = m"
proof -
  assume "m \<le> MAX32"
  then have "take_bit 32 m = m" by (intro take_bit_nat_eq_self) simp
  moreover have "take_bit 32 m = m AND MAX32" by (simp add: take_bit_eq_mask mask_eq_exp_minus_1)
  ultimately show ?thesis by simp
qed

lemma take_push: "k < n \<Longrightarrow> take_bit n (push_bit k 1) = push_bit k (1 :: nat)"
  by (rule bit_eqI) (auto simp: bit_simps)

lemma day_fields:
  assumes "t \<le> MAX32"
  shows "let c = clock_fill_details t in
    1 \<le> clk_day_of_week c \<and> clk_day_of_week c \<le> 7 \<and> 1 \<le> clk_day_occur_in_month c \<and> clk_day_occur_in_month c \<le> 5 \<and>
    1 \<le> clk_days c \<and> clk_days c \<le> 31"
proof -
  obtain y m d where v: "valid_date y m d" and c: "clock_fill_details t = clock_details t y m d"
    by (rule fill_details_is [OF assms])
  have d: "1 \<le> d" "d \<le> 31" using v valid_days_le_31 [OF v] by (simp_all add: valid_date_def)
  then have "1 \<le> (d + 6) div 7" "(d + 6) div 7 \<le> 5" by simp_all
  with d show ?thesis by (simp add: c clock_details_def Let_def)
qed

lemma check_day_bits:
  assumes "sc_days_of_month s \<le> MAX32" "1 \<le> clk_day_of_week c" "clk_day_of_week c \<le> 7"
    "clk_day_occur_in_month c \<le> 5" "clk_days c \<le> 31"
  shows "sched_check_day s c \<longleftrightarrow>
      bit (sc_days_of_week s) (clk_day_of_week c mod 7) \<and>
      (bit (sc_day_occur_in_month s) (clk_day_occur_in_month c - 1) \<or>
        bit (sc_day_occur_in_month s) 7 \<and> clk_days_left_in_month c < 7) \<and>
      (bit (sc_days_of_month s) (clk_days c - 1) \<or> bit (sc_days_of_month s) 31 \<and> clk_days_left_in_month c = 0)"
proof -
  let ?w = "clk_day_of_week c" and ?o = "clk_day_occur_in_month c" and ?d = "clk_days c"
  have w: "(if ?w = 7 then 0 else ?w) = ?w mod 7" using assms(3) by auto
  have e: "(SCHED_LAST_OCCUR :: nat) = push_bit 7 1" by (simp add: push_bit_of_1)
  have tw: "take_bit 8 (push_bit (?w mod 7) 1) = push_bit (?w mod 7) (1 :: nat)"
    by (rule take_push) (rule less_trans [of _ 7], simp_all)
  have to: "take_bit 8 (push_bit (?o - 1) 1) = push_bit (?o - 1) (1 :: nat)"
    by (rule take_push) (use assms(4) in simp)
  have td: "take_bit 32 (push_bit (?d - 1) 1) = push_bit (?d - 1) (1 :: nat)"
    by (rule take_push) (use assms(5) in simp)
  have m: "sc_days_of_month s AND (if bit (sc_days_of_month s) 31 \<and> clk_days_left_in_month c = 0
      then MAX32 else push_bit (?d - 1) 1) \<noteq> 0 \<longleftrightarrow>
    bit (sc_days_of_month s) (?d - 1) \<or> bit (sc_days_of_month s) 31 \<and> clk_days_left_in_month c = 0"
  proof (cases "bit (sc_days_of_month s) 31 \<and> clk_days_left_in_month c = 0")
    case True
    then have "sc_days_of_month s \<noteq> 0" by (cases "sc_days_of_month s = 0") auto
    with True show ?thesis unfolding if_P [OF True] max32_mask [OF assms(1)] by blast
  next
    case False
    then show ?thesis unfolding if_not_P [OF False] and_bit by blast
  qed
  have o: "sc_day_occur_in_month s AND (if bit (sc_day_occur_in_month s) 7 \<and> clk_days_left_in_month c < 7
      then push_bit 7 1 else push_bit (?o - 1) 1) \<noteq> 0 \<longleftrightarrow>
    bit (sc_day_occur_in_month s) (?o - 1) \<or> bit (sc_day_occur_in_month s) 7 \<and> clk_days_left_in_month c < 7"
  proof (cases "bit (sc_day_occur_in_month s) 7 \<and> clk_days_left_in_month c < 7")
    case True
    then show ?thesis unfolding if_P [OF True] and_bit by blast
  next
    case False
    then show ?thesis unfolding if_not_P [OF False] and_bit by blast
  qed
  show ?thesis
    unfolding sched_check_day_def Let_def w tw to td e and_bit drop_31 [OF assms(1)] m o by blast
qed

text \<open>
  For a broken-down time, sched_check_day accepts a day exactly when the weekday bit (Sunday is
  bit 0) is set, the occurrence of the weekday in the month is in its mask or it is the last one and
  bit 7 is set, and the day of the month is in its mask or it is the last day and bit 31 is set.
\<close>

theorem sched_check_day_correct:
  assumes "t \<le> MAX32" "sc_days_of_month s \<le> MAX32"
  shows "let c = clock_fill_details t in
    sched_check_day s c \<longleftrightarrow>
      bit (sc_days_of_week s) (clk_day_of_week c mod 7) \<and>
      (bit (sc_day_occur_in_month s) (clk_day_occur_in_month c - 1) \<or>
        bit (sc_day_occur_in_month s) 7 \<and> clk_days_left_in_month c < 7) \<and>
      (bit (sc_days_of_month s) (clk_days c - 1) \<or> bit (sc_days_of_month s) 31 \<and> clk_days_left_in_month c = 0)"
  unfolding Let_def by (rule check_day_bits) (use assms(2) day_fields [OF assms(1)] in \<open>simp_all add: Let_def\<close>)

text \<open>Weekdays only (bits 1 to 5), on Thursday 1970-01-01.\<close>

theorem sched_check_day_correct_witness:
  "sched_check_day (sched_init_schedule\<lparr>sc_days_of_week := 0x3e\<rparr>) (clock_fill_details 0)"
proof -
  have c: "clock_fill_details 0 = clock_details 0 1970 1 1"
    by (rule fill_details_eq) (simp_all add: valid_date_def mdays_table day_number_def days_to_month_1 days_to_year_def)
  have b: "bit (255 :: nat) 0" "bit (MAX32 :: nat) 0" "bit (0x3e :: nat) 4" by (simp_all add: bit_iff_odd)
  from sched_check_day_correct [of 0 "sched_init_schedule\<lparr>sc_days_of_week := 0x3e\<rparr>"] b
  show ?thesis by (simp add: c clock_details_def Let_def sched_init_schedule_def)
qed

end
