(* ===== verification/SchedDaily.thy ===== *)
theory SchedDaily
  imports SchedDays ClockMove
begin

text \<open>
  The ranges that \<open>sched_determine_range\<close> finds for the two kinds of schedules in everyday use: a
  time of day that begins and ends, and a repetition at an interval.  The schedules are in UTC.
\<close>

section \<open>Schedules without conditions on days\<close>

definition every_day :: "schedule \<Rightarrow> bool" where
  "every_day s \<longleftrightarrow> sc_is_utc s \<and> sc_months_of_year s = 0xFFFF \<and> sc_days_of_week s = 0xFF \<and>
     sc_day_occur_in_month s = 0xFF \<and> sc_days_of_month s = MAX32"

lemma day_range_all: "every_day s \<Longrightarrow> sched_day_find_range clk s a b = Some (a, b)"
  by (simp add: sched_day_find_range_def sched_day_spec_is_given_def every_day_def)

lemma month_range_all: "every_day s \<Longrightarrow> sched_month_find_range clk s a b = Some (a, b)"
  by (simp add: sched_month_find_range_def every_day_def)

text \<open>The fields of a broken-down time that the interpreter uses.\<close>

lemma fill_fields:
  assumes "t \<le> MAX32"
  shows "clk_day_start (clock_fill_details t) = t div ONE_DAY * ONE_DAY"
    "clk_day_end (clock_fill_details t) = Orderings.min MAX32 (t div ONE_DAY * ONE_DAY + 86399)"
    "clk_secs_since_midnight (clock_fill_details t) = t mod ONE_DAY"
    "1 \<le> clk_month (clock_fill_details t) \<and> clk_month (clock_fill_details t) \<le> 12"
    "1 \<le> clk_day_of_week (clock_fill_details t) \<and> clk_day_of_week (clock_fill_details t) \<le> 7"
    "clk_day_occur_in_month (clock_fill_details t) \<in> {1..5}"
    "clk_days (clock_fill_details t) \<in> {1..31}"
proof -
  obtain y m d where v: "valid_date y m d" and c: "clock_fill_details t = clock_details t y m d"
    by (rule fill_details_is [OF assms])
  have d: "1 \<le> d" "d \<le> 31" "1 \<le> m" "m \<le> 12" using v valid_days_le_31 [OF v] by (simp_all add: valid_date_def)
  then have "1 \<le> (d + 6) div 7" "(d + 6) div 7 \<le> 5" by simp_all
  with d show "clk_day_start (clock_fill_details t) = t div ONE_DAY * ONE_DAY"
    "clk_day_end (clock_fill_details t) = Orderings.min MAX32 (t div ONE_DAY * ONE_DAY + 86399)"
    "clk_secs_since_midnight (clock_fill_details t) = t mod ONE_DAY"
    "1 \<le> clk_month (clock_fill_details t) \<and> clk_month (clock_fill_details t) \<le> 12"
    "1 \<le> clk_day_of_week (clock_fill_details t) \<and> clk_day_of_week (clock_fill_details t) \<le> 7"
    "clk_day_occur_in_month (clock_fill_details t) \<in> {1..5}"
    "clk_days (clock_fill_details t) \<in> {1..31}"
    by (simp_all add: c clock_details_def Let_def)
qed

lemma bit_ones: "bit (255 :: nat) k \<longleftrightarrow> k < 8" "bit (65535 :: nat) k \<longleftrightarrow> k < 16" "bit (MAX32 :: nat) k \<longleftrightarrow> k < 32"
  using bit_mask_iff [of 8 k, where ?'a = nat] bit_mask_iff [of 16 k, where ?'a = nat] bit_mask_iff [of 32 k, where ?'a = nat]
  by (simp_all add: mask_eq_exp_minus_1)

lemma month_ok:
  assumes "every_day s" "1 \<le> m" "m \<le> 12"
  shows "sched_check_mask (sc_months_of_year s) m"
  using assms unfolding sched_check_mask_def and_bit by (auto simp: every_day_def bit_ones)

lemma day_ok:
  assumes "every_day s" "1 \<le> clk_day_of_week c" "clk_day_of_week c \<le> 7" "clk_day_occur_in_month c \<in> {1..5}" "clk_days c \<in> {1..31}"
  shows "sched_check_day s c"
proof -
  have "clk_day_of_week c mod 7 < 8" by (rule less_trans [of _ 7]) simp_all
  with assms show ?thesis by (subst check_day_bits) (auto simp: every_day_def bit_ones)
qed

lemma fill_ok:
  assumes "every_day s" "t \<le> MAX32"
  shows "sched_check_mask (sc_months_of_year s) (clk_month (clock_fill_details t))" "sched_check_day s (clock_fill_details t)"
  using assms fill_fields [OF assms(2)] by (auto intro!: month_ok day_ok)

section \<open>A time of day\<close>

text \<open>
  A schedule with a start and an end time each day and nothing else; the end may be before the start,
  for a range over midnight.
\<close>

definition daily :: "schedule \<Rightarrow> nat \<Rightarrow> nat \<Rightarrow> bool" where
  "daily s b e \<longleftrightarrow> every_day s \<and> sc_start_date s = 0 \<and> sc_end_date s = 0 \<and> sc_duration s = 0 \<and> sc_interval s = 0 \<and>
     sc_start_time_each_day s = b \<and> sc_end_time_each_day s = e \<and> b < ONE_DAY \<and> e < ONE_DAY"

lemma daily_given: "daily s b e \<Longrightarrow> start_given s \<and> end_given s \<and> every_day s \<and> (time_carryover s \<longleftrightarrow> e < b) \<and>
    \<not> duration_no_interval s \<and> sc_interval s = 0"
  by (auto simp: daily_def start_given_def end_given_def time_carryover_def duration_no_interval_def)

lemma next_day_daily:
  assumes "daily s b e" "D * ONE_DAY + 2 * ONE_DAY \<le> MAX32" "clk_day_end clk = D * ONE_DAY + 86399"
  shows "next_day z s time MAX32 clk = Some (False, (D + 1) * ONE_DAY + b, MAX32)"
proof -
  define T where "T = (D + 1) * ONE_DAY"
  have t: "add32 (clk_day_end clk) 1 = T" using assms(2,3) by (simp add: add32_exact T_def)
  have T: "T + ONE_DAY \<le> MAX32" "T \<le> MAX32" "0 < T" using assms(2) by (simp_all add: T_def)
  have ds: "clk_day_start (clock_fill_details T) = T"
    unfolding fill_fields(1) [OF T(2)] unfolding T_def by simp
  have b: "b < ONE_DAY" "sc_start_time_each_day s = b" using assms(1) by (simp_all add: daily_def)
  have a: "add32 T b = T + b" using T(1) b by (simp add: add32_exact)
  have s: "set_start_time z s time T MAX32 (clock_fill_details T) = Inr (T + b, MAX32)"
    unfolding set_start_time_def Let_def using daily_given [OF assms(1)] b by (auto simp: ds a)
  have ed: "every_day s" using daily_given [OF assms(1)] by simp
  have "find_next_event z s time MAX32 T MAX32 = Some (T + b, MAX32)"
    using T by (subst find_next_event.simps) (simp add: month_range_all [OF ed] day_range_all [OF ed] s)
  then show ?thesis unfolding next_day_def next_event_def t T_def [symmetric] by simp
qed

text \<open>The range of the day that begins at \<open>D\<close> days, as the time lies before, in or after it.\<close>

definition daily_range :: "nat \<Rightarrow> nat \<Rightarrow> nat \<Rightarrow> nat \<times> nat" where
  "daily_range b e time =
     (let D = time div ONE_DAY * ONE_DAY; tod = time mod ONE_DAY in
      if b \<le> e then (if tod \<le> e then (D + b, D + e) else (D + ONE_DAY + b, MAX32))
      else if tod \<le> e then (D - ONE_DAY + b, D + e)
      else (D + b, D + ONE_DAY + e))"

text \<open>From the big range to the result, for a schedule without an interval.\<close>

lemma no_interval_range:
  assumes "sc_is_utc s" "sc_interval s = 0" "time \<noteq> 0" "time \<noteq> MAX32"
    "sched_big_range (sched_range_inner z s) z s time True = Some (ir, os, oe)" "os \<noteq> 0" "os \<noteq> MAX32"
  shows "sched_determine_range z s time = Some (os, oe)"
  using assms
  by (simp add: sched_determine_range_def determine_range_def range_loop.simps local_to_utc_def little_range_def)

lemma daily_big:
  assumes "daily s b e" "ONE_DAY \<le> time" "time + 3 * ONE_DAY \<le> MAX32"
  shows "\<exists>ir. sched_big_range rec z s time True = Some (ir, daily_range b e time)"
proof -
  let ?clk = "clock_fill_details time"
  define n where "n = time div ONE_DAY"
  define D where "D = n * ONE_DAY"
  have tm: "D + time mod ONE_DAY = time" "D \<le> time" "1 \<le> n"
    using assms(2) div_mult_mod_eq [of time ONE_DAY] by (simp_all add: D_def n_def div_greater_zero_iff Suc_leI)
  have tmax: "time \<le> MAX32" "D + 3 * ONE_DAY \<le> MAX32" using assms(3) tm by simp_all
  have b: "b < ONE_DAY" "e < ONE_DAY" "sc_start_time_each_day s = b" "sc_end_time_each_day s = e"
    "sc_start_date s = 0" "sc_end_date s = 0"
    using assms(1) by (simp_all add: daily_def)
  note g = daily_given [OF assms(1)]
  have ed: "every_day s" using g by simp
  have ds: "clk_day_start ?clk = D" "clk_day_end ?clk = D + 86399"
    using fill_fields [OF tmax(1)] tmax(2) by (simp_all add: D_def n_def)
  have a: "add32 D b = D + b" "add32 D e = D + e" using tmax b by (simp_all add: add32_exact)
  have nd: "next_day z s time MAX32 ?clk = Some (False, D + ONE_DAY + b, MAX32)"
    using next_day_daily [OF assms(1), of n ?clk z time] tmax ds by (simp add: D_def)
  have big: "sched_big_range rec z s time True = check_time rec z s time True MAX32 1 MAX32 ?clk"
    using assms(2,3) g fill_ok [OF ed tmax(1)]
    by (simp add: sched_big_range_def b in_dates_def Let_def month_range_all [OF ed] day_range_all [OF ed])
  show ?thesis
  proof (cases "b \<le> e")
    case True
    then have nc: "\<not> time_carryover s" using g by simp
    have "check_time rec z s time True MAX32 1 MAX32 ?clk =
        (if time \<le> D + e then Some (\<not> D + b > time, D + b, D + e) else next_day z s time MAX32 ?clk)"
      using g nc by (auto simp: check_time_def Let_def b ds a)
    moreover have "time \<le> D + e \<longleftrightarrow> time mod ONE_DAY \<le> e" using tm(1) by linarith
    ultimately show ?thesis using True nd
      unfolding big by (auto simp: daily_range_def Let_def n_def [symmetric] D_def [symmetric])
  next
    case False
    then have c: "time_carryover s" using g by simp
    let ?t = "time - ONE_DAY"
    let ?prev = "clock_decr_day ?clk"
    have t: "?t + ONE_DAY = time" "?t \<le> MAX32" "?t + ONE_DAY \<le> MAX32" using assms(2) tmax(1) by simp_all
    have tD: "?t div ONE_DAY * ONE_DAY = D - ONE_DAY"
      using assms(2) by (simp add: D_def n_def le_div_geq diff_mult_distrib)
    let ?c = "clock_fill_details ?t"
    have "?prev = (if clk_days ?clk = 1 then ?c\<lparr>clk_month_start := clk_month_start ?c - 1\<rparr> else ?c)"
      using decr_day_step [OF t(3)] unfolding t(1) Let_def .
    then have same: "clk_day_start ?prev = clk_day_start ?c" "clk_day_end ?prev = clk_day_end ?c" "clk_month ?prev = clk_month ?c"
      "sched_check_day s ?prev = sched_check_day s ?c"
      by (simp_all add: sched_check_day_def)
    then have p: "clk_day_start ?prev = D - ONE_DAY" "clk_day_end ?prev = D - ONE_DAY + 86399"
      "sched_check_mask (sc_months_of_year s) (clk_month ?prev)" "sched_check_day s ?prev"
      unfolding same using fill_fields(1,2) [OF t(2)] fill_ok [OF ed t(2)] tmax(2) unfolding tD by simp_all
    have D: "ONE_DAY \<le> D" using tm(3) by (simp add: D_def)
    have x: "add32 (add32 (D - ONE_DAY + 86399) e) 1 = D + e" "add32 (D - ONE_DAY) b = D - ONE_DAY + b"
      "add32 (add32 (D + 86399) 1) e = D + ONE_DAY + e"
      using b tmax(2) D by (simp_all add: add32_exact)
    have "check_time rec z s time True MAX32 1 MAX32 ?clk =
        (if time \<le> D + e then Some (True, D - ONE_DAY + b, D + e) else Some (\<not> time < D + b, D + b, D + ONE_DAY + e))"
      using g c p by (simp add: check_time_def check_carryover_def Let_def b ds a x del: One_nat_def)
    moreover have "time \<le> D + e \<longleftrightarrow> time mod ONE_DAY \<le> e" using tm(1) by linarith
    ultimately show ?thesis using False
      unfolding big by (auto simp: daily_range_def Let_def n_def [symmetric] D_def [symmetric])
  qed
qed

lemma sched_range_lemma:
  assumes "daily s b e" "ONE_DAY \<le> time" "time + 3 * ONE_DAY \<le> MAX32"
  shows "sched_determine_range z s time = Some (daily_range b e time)"
proof -
  obtain ir where ir: "sched_big_range (sched_range_inner z s) z s time True = Some (ir, daily_range b e time)"
    using daily_big [OF assms] by blast
  obtain os oe where r: "daily_range b e time = (os, oe)" by (cases "daily_range b e time")
  have "D + time mod ONE_DAY = time" if "D = time div ONE_DAY * ONE_DAY" for D
    using that div_mult_mod_eq [of time ONE_DAY] by simp
  moreover have "ONE_DAY \<le> time div ONE_DAY * ONE_DAY"
    using assms(2) div_le_mono [OF assms(2), of ONE_DAY] by simp
  ultimately have "os \<noteq> 0" "os \<noteq> MAX32"
    using r assms by (auto simp: daily_range_def Let_def daily_def split: if_splits)
  with no_interval_range [of s time z ir os oe] ir r assms daily_given [OF assms(1)] show ?thesis
    by (simp add: every_day_def)
qed

text \<open>
  C18. For a schedule with a start and an end time of day, sched_determine_range returns the range of
  the day: the one the time is in or, before it, the next one; over midnight, the one begun on the
  day before.  After the end of today's range it returns the start of tomorrow's (and no end).
\<close>

theorem sched_daily_range:
  assumes "daily s b e" "ONE_DAY \<le> time" "time + 3 * ONE_DAY \<le> MAX32"
  shows "sched_determine_range z s time = Some (daily_range b e time)"
  using assms by (rule sched_range_lemma)

text \<open>From 8:00 to 18:00, at 8:20 on 2017-01-01.\<close>

definition demo_daily :: schedule where
  "demo_daily = sched_init_schedule\<lparr>sc_is_utc := True, sc_start_time_each_day := 28800, sc_end_time_each_day := 64800\<rparr>"

definition demo_zone :: clock_zone where
  "demo_zone = \<lparr>tz_valid = True, tz_mins = - 480, dl_valid = False, dl_active = 0, dl_change = 0\<rparr>"

theorem sched_daily_range_witness:
  "sched_determine_range demo_zone demo_daily 1483258800 = Some (1483257600, 1483293600)"
proof -
  have d: "daily demo_daily 28800 64800"
    by (simp add: daily_def demo_daily_def every_day_def sched_init_schedule_def)
  have "daily_range 28800 64800 1483258800 = (1483257600, 1483293600)" by (simp add: daily_range_def)
  with sched_daily_range [OF d, of 1483258800 demo_zone] show ?thesis by simp
qed

end
