(* ===== verification/SchedValue.thy ===== *)
theory SchedValue
  imports SchedEval
begin

text \<open>
  Properties of \<open>sched_evaluate\<close>, the interpreter of the items of a schedule value.
\<close>

section \<open>A value that is never finished\<close>

text \<open>
  At offset 3 there is an item with the type ATLV_AND and length 254: its size is 256, a multiple of
  the range of the 8-bit counter.
\<close>

definition stuck_item :: "sched_prop \<Rightarrow> bool" where
  "stuck_item p \<longleftrightarrow> 3 < sp_len p \<and> tlv_byte p 3 = 0x22 \<and> tlv_byte p 4 = 254"

lemma eval_loop_stuck:
  assumes "eval_loop z p time st = Some r"
  shows "\<not> (stuck_item p \<and> ev_consumed st = 3)"
  using assms
proof (induction z p time st r rule: eval_loop.raw_induct)
  case (1 f z p time st r)
  show ?case
  proof
    assume stuck: "stuck_item p \<and> ev_consumed st = 3"
    then have e: "eval_tlv z p time st = Some (Inr st)"
      by (simp add: eval_tlv_def stuck_item_def)
    from stuck have n: "(ev_consumed st + tlv_byte p (ev_consumed st + 1) + 2) mod 256 = 3" by (simp add: stuck_item_def)
    have a: "f z p time (st\<lparr>ev_consumed := 3\<rparr>) = Some r" using 1(2) stuck e n by (simp add: stuck_item_def)
    have "eval_loop z p time (st\<lparr>ev_consumed := 3\<rparr>) = Some r"
      using 1(3) stuck e n by (subst (asm) eval_loop.simps) (simp add: stuck_item_def)
    from 1(1) [OF a this] stuck show False by simp
  qed
qed (fact assms)

text \<open>
  sched_evaluate does not return on a schedule value that begins with a version item of one byte, at most
  1, and has behind it an item of the type ATLV_AND, whose length nothing checks, with a length byte of 254:
  the 8-bit count of consumed bytes comes back to the same item.  Such a value passes every check of
  the code that stores it.
\<close>

theorem sched_evaluate_hangs:
  assumes "tlv_byte p 0 = 0x33" "tlv_byte p 1 = 1" "tlv_byte p 2 \<le> 1" "stuck_item p"
  shows "sched_evaluate z p time = None"
proof -
  have v: "(if tlv_byte p 0 = 0x33 then sched_int_get p 0 else None) = Some (tlv_byte p 2)"
    using assms(1,2) by (simp add: sched_int_get_def numeral_2_eq_2)
  have "eval_loop z p time st = None" if "ev_consumed st = 3" for st
    using eval_loop_stuck [of z p time st] assms(4) that by (cases "eval_loop z p time st") auto
  then show ?thesis
    using assms(2,3) by (simp add: sched_evaluate_def v)
qed

text \<open>The value \<^verbatim>\<open>33 01 01 22 fe\<close>, of five bytes.\<close>

theorem sched_evaluate_hangs_witness:
  "sched_evaluate \<lparr>tz_valid = True, tz_mins = - 480, dl_valid = False, dl_active = 0, dl_change = 0\<rparr>
     \<lparr>sp_len = 5, sp_tlvs = [0x33, 1, 1, 0x22, 0xfe]\<rparr> 1483228800 = None"
  by (rule sched_evaluate_hangs) (simp_all add: tlv_byte_def stuck_item_def)

end
