(* ===== verification/Sched.thy ===== *)
theory Sched
  imports SchedDaily
begin

text \<open>
  The schedule subsystem: \<^verbatim>\<open>libada/sched.c\<close>.  The state \<open>sched_state\<close> of the code is a record; the
  platform services that it uses are fields of it: \<open>ss_timer\<close> is the delay last given to
  \<open>client_timer_set\<close>, \<open>ss_stored_time\<close> is what \<open>adap_sched_run_time_write\<close> stores, \<open>ss_fired\<close> the
  calls of \<open>ada_prop_mgr_set\<close>.  An action, a pointer to an item of a schedule's value, is the index
  of the schedule and the position of the item.  A failed assertion is \<^term>\<open>None\<close>, as is a loop that
  does not end.  Left out are the log, the command line, the call that stores changed schedules, and the
  registration with the property manager.
\<close>

section \<open>State\<close>

type_synonym action = "nat \<times> nat"

datatype ada_err = AE_OK | AE_ALLOC | AE_NOT_FOUND | AE_INVAL_VAL | AE_BUSY | AE_LEN | AE_INVAL_STATE

text \<open>A schedule: its name without the NUL, and its value.\<close>

type_synonym named_sched = "bytes \<times> sched_prop"

record sched_state =
  ss_mod_scheds :: "named_sched list option"
  ss_actions :: "action option list"
  ss_pend_ct :: nat
  ss_en_ct :: nat
  ss_run_time :: nat
  ss_next_event_time :: nat
  ss_next_fire :: nat
  ss_save_needed :: bool
  ss_enabled :: bool
  ss_timer :: "nat option"
  ss_stored_time :: nat
  ss_fired :: "(bytes \<times> nat \<times> nat) list"

abbreviation SCHED_NAME_LEN :: nat where "SCHED_NAME_LEN \<equiv> 28"
abbreviation SCHED_TLV_LEN :: nat where "SCHED_TLV_LEN \<equiv> 255"
abbreviation RECVD_NAME_LEN :: nat where "RECVD_NAME_LEN \<equiv> 64"
abbreviation CLOCK_START :: nat where "CLOCK_START \<equiv> 1483228800"

definition scheds :: "sched_state \<Rightarrow> named_sched list" where
  "scheds st = (case ss_mod_scheds st of None \<Rightarrow> [] | Some l \<Rightarrow> l)"

definition sched_prop_by_index :: "nat \<Rightarrow> sched_state \<Rightarrow> nat option" where
  "sched_prop_by_index index st = (if index < length (scheds st) then Some index else None)"

fun lookup_from :: "nat \<Rightarrow> bytes \<Rightarrow> named_sched list \<Rightarrow> nat option" where
  "lookup_from i name [] = None"
| "lookup_from i name (s # l) = (if name = fst s then Some i else lookup_from (i + 1) name l)"

definition sched_prop_lookup :: "bytes \<Rightarrow> sched_state \<Rightarrow> nat option" where
  "sched_prop_lookup name st =
     (case ss_mod_scheds st of None \<Rightarrow> None | Some l \<Rightarrow> lookup_from 0 name l)"

section \<open>Actions\<close>

text \<open>The number of actions in a value; \<open>len\<close> bytes are left at \<open>pos\<close>.\<close>

function count_items :: "sched_prop \<Rightarrow> nat \<Rightarrow> nat \<Rightarrow> nat \<Rightarrow> nat" where
  "count_items p pos len count =
     (if len = 0 then count
      else if len < 2 \<or> len < 2 + tlv_byte p (pos + 1) then count
      else
        let ty = tlv_byte p pos;
            count = (if ty = 0x32 then count + 1 else if ty = 0x23 then 0 else count);
            n = 2 + tlv_byte p (pos + 1)
        in count_items p (pos + n) (len - n) count)"
  by pat_completeness auto
termination by (relation "measure (\<lambda>(p, pos, len, count). len)") auto

declare count_items.simps [simp del]

definition sched_action_count :: "sched_prop \<Rightarrow> nat" where
  "sched_action_count p = count_items p 0 (sp_len p) 0"

definition sched_actions_reset :: "bool \<Rightarrow> sched_state \<Rightarrow> sched_state" where
  "sched_actions_reset alloc_ok st =
     (let st = st\<lparr>ss_pend_ct := 0\<rparr> in
      if length (ss_actions st) < ss_en_ct st \<and> \<not> alloc_ok then st
      else
        let n = (if length (ss_actions st) < ss_en_ct st then ss_en_ct st else length (ss_actions st))
        in st\<lparr>ss_actions := replicate n None\<rparr>)"

definition sched_action_pend :: "action \<Rightarrow> sched_state \<Rightarrow> sched_state" where
  "sched_action_pend a st =
     (let ct = ss_pend_ct st;
          xs = ss_actions st;
          i = length (takeWhile (\<lambda>x. x \<noteq> Some a) (take ct xs));
          (i, xs) = (if i < ct then (ct - 1, take i xs @ drop (i + 1) (take ct xs) @ drop (ct - 1) xs) else (i, xs))
      in if i < length xs then st\<lparr>ss_actions := xs[i := Some a], ss_pend_ct := i + 1\<rparr>
         else st\<lparr>ss_actions := xs\<rparr>)"

text \<open>The name, type and value of an action, for \<open>ada_prop_mgr_set\<close>; \<open>pos\<close> is the position after its header.\<close>

definition sched_set_prop :: "sched_prop \<Rightarrow> nat \<Rightarrow> nat \<Rightarrow> (bytes \<times> nat \<times> nat) option" where
  "sched_set_prop p pos tot_len =
     (let len = tlv_byte p (pos + 1) in
      if tlv_byte p pos \<noteq> 0x01 then None
      else if len \<ge> RECVD_NAME_LEN then None
      else
        let name = map (\<lambda>i. cchar (sp_tlvs p) (pos + 2 + i)) [0..<len];
            prop = pos + len + 2
        in if tot_len < 4 \<or> len + tlv_byte p (prop + 1) \<noteq> tot_len - 4 then None
           else map_option (\<lambda>val. (cstr name, tlv_byte p prop, val)) (sched_int_get p prop))"

definition fire_action :: "named_sched list \<Rightarrow> action \<Rightarrow> (bytes \<times> nat \<times> nat) list" where
  "fire_action l a =
     (let p = snd (l ! fst a) in
      case sched_set_prop p (snd a + 2) (tlv_byte p (snd a + 1)) of None \<Rightarrow> [] | Some x \<Rightarrow> [x])"

definition sched_actions_run :: "sched_state \<Rightarrow> sched_state" where
  "sched_actions_run st =
     st\<lparr>ss_fired := ss_fired st @ concat (map (\<lambda>a. fire_action (scheds st) (the a)) (take (ss_pend_ct st) (ss_actions st))),
        ss_pend_ct := 0\<rparr>"

section \<open>Values of schedules\<close>

text \<open>\<open>sched_set\<close> of the schedule with index \<open>i\<close>.\<close>

definition sched_set :: "nat \<Rightarrow> bytes \<Rightarrow> sched_state \<Rightarrow> (ada_err \<times> sched_state) option" where
  "sched_set i tlvs st =
     (let l = scheds st; (name, p) = l ! i in
      if length tlvs > SCHED_TLV_LEN then Some (AE_LEN, st)
      else if \<not> sched_action_count p \<le> ss_en_ct st then None
      else
        let p' = p\<lparr>sp_tlvs := tlvs @ drop (length tlvs) (sp_tlvs p), sp_len := length tlvs\<rparr>
        in Some (AE_OK, st\<lparr>ss_en_ct := ss_en_ct st - sched_action_count p + sched_action_count p',
                           ss_mod_scheds := Some (l[i := (name, p')])\<rparr>))"

definition sched_prop_set_int :: "bytes \<Rightarrow> bytes \<Rightarrow> sched_state \<Rightarrow> (ada_err \<times> sched_state) option" where
  "sched_prop_set_int name val st =
     (case sched_prop_lookup name st of None \<Rightarrow> Some (AE_NOT_FOUND, st) | Some i \<Rightarrow> sched_set i val st)"

definition sched_prop_set :: "bytes \<Rightarrow> bytes \<Rightarrow> sched_state \<Rightarrow> (int \<times> sched_state) option" where
  "sched_prop_set name val st =
     map_option (\<lambda>(err, st). (if err \<noteq> AE_OK then - 1 else 0, st)) (sched_prop_set_int name val st)"

definition sched_time_update :: "sched_state \<Rightarrow> sched_state" where
  "sched_time_update st = st\<lparr>ss_timer := Some 0\<rparr>"

definition sched_prop_recv :: "bytes \<Rightarrow> bytes \<Rightarrow> sched_state \<Rightarrow> (ada_err \<times> sched_state) option" where
  "sched_prop_recv name val st =
     map_option (\<lambda>(err, st). if err \<noteq> AE_OK then (err, st) else (AE_OK, sched_time_update (st\<lparr>ss_save_needed := True\<rparr>)))
       (sched_prop_set_int name val st)"

definition sched_prop_get_val :: "bytes \<Rightarrow> sched_state \<Rightarrow> ada_err" where
  "sched_prop_get_val name st = (if sched_prop_lookup name st = None then AE_NOT_FOUND else AE_INVAL_VAL)"

text \<open>The event PME_TIME of the property manager.\<close>

definition sched_prop_event :: "bool \<Rightarrow> sched_state \<Rightarrow> sched_state" where
  "sched_prop_event pme_time st = (if pme_time then sched_time_update st else st)"

definition ada_sched_enable :: "sched_state \<Rightarrow> sched_state" where
  "ada_sched_enable st = (if \<not> ss_enabled st then sched_time_update (st\<lparr>ss_enabled := True\<rparr>) else st)"

definition empty_sched :: named_sched where
  "empty_sched = ([], \<lparr>sp_len = 0, sp_tlvs = replicate SCHED_TLV_LEN 0\<rparr>)"

definition ada_sched_init :: "bool \<Rightarrow> nat \<Rightarrow> sched_state \<Rightarrow> ada_err \<times> sched_state" where
  "ada_sched_init alloc_ok count st =
     (if ss_mod_scheds st \<noteq> None then (AE_BUSY, st)
      else if \<not> alloc_ok then (AE_ALLOC, st)
      else (AE_OK, st\<lparr>ss_mod_scheds := Some (replicate count empty_sched), ss_timer := None\<rparr>))"

definition ada_sched_set_name :: "nat \<Rightarrow> bytes \<Rightarrow> sched_state \<Rightarrow> ada_err \<times> sched_state" where
  "ada_sched_set_name index name st =
     (if index \<ge> length (scheds st) then (AE_INVAL_STATE, st)
      else (AE_OK, st\<lparr>ss_mod_scheds :=
        Some ((scheds st)[index := (take (SCHED_NAME_LEN - 1) name, snd (scheds st ! index))])\<rparr>))"

text \<open>The name, and the value if the caller's buffer of \<open>len\<close> bytes can hold it.\<close>

definition ada_sched_get_index :: "nat \<Rightarrow> nat \<Rightarrow> sched_state \<Rightarrow> ada_err \<times> (bytes \<times> bytes) option" where
  "ada_sched_get_index index len st =
     (if index \<ge> length (scheds st) then (AE_INVAL_STATE, None)
      else
        let (name, p) = scheds st ! index in
        if len < sp_len p then (AE_LEN, None) else (AE_OK, Some (name, take (sp_len p) (sp_tlvs p))))"

definition ada_sched_set_index :: "nat \<Rightarrow> bytes \<Rightarrow> sched_state \<Rightarrow> (ada_err \<times> sched_state) option" where
  "ada_sched_set_index index tlvs st =
     (if index \<ge> length (scheds st) then Some (AE_NOT_FOUND, st) else sched_set index tlvs st)"

definition ada_sched_set :: "bytes \<Rightarrow> bytes \<Rightarrow> sched_state \<Rightarrow> (ada_err \<times> sched_state) option" where
  "ada_sched_set name tlvs st =
     (case sched_prop_lookup name st of None \<Rightarrow> Some (AE_NOT_FOUND, st) | Some i \<Rightarrow> sched_set i tlvs st)"

section \<open>Running the schedules\<close>

text \<open>One schedule of a pass: the earliest event so far, and the state.\<close>

definition look_at :: "clock_zone \<Rightarrow> nat \<Rightarrow> nat \<Rightarrow> sched_state \<Rightarrow> (nat \<times> sched_state) option" where
  "look_at z i earliest st =
     (let (name, p) = scheds st ! i in
      if name = [] \<or> sp_len p = 0 then Some (earliest, st)
      else
        (case sched_evaluate z p (ss_run_time st) of
           None \<Rightarrow> None
         | Some (event, acts) \<Rightarrow>
             let st = fold (\<lambda>pos. sched_action_pend (i, pos)) acts st in
             if event = 0 \<or> event = MAX32 then Some (earliest, st)
             else if event < earliest then Some (event, st\<lparr>ss_next_fire := i mod 256\<rparr>)
             else Some (earliest, st)))"

partial_function (option) run_pass ::
  "clock_zone \<Rightarrow> nat \<Rightarrow> nat \<Rightarrow> nat \<Rightarrow> sched_state \<Rightarrow> (nat \<times> sched_state) option" where
  "run_pass z start i earliest st =
     (if \<not> i < length (scheds st) then None
      else
        (case look_at z i earliest st of
           None \<Rightarrow> None
         | Some (earliest, st) \<Rightarrow>
             let i = i + 1; i = (if i \<ge> length (scheds st) then 0 else i) in
             if i \<noteq> start then run_pass z start i earliest st else Some (earliest, st)))"

partial_function (option) run_schedules :: "clock_zone \<Rightarrow> nat \<Rightarrow> sched_state \<Rightarrow> sched_state option" where
  "run_schedules z utc st =
     (case run_pass z (ss_next_fire st) (ss_next_fire st) MAX32 st of
        None \<Rightarrow> None
      | Some (earliest, st) \<Rightarrow>
          if earliest = 0 \<or> earliest = MAX32 then Some st
          else if earliest \<le> utc then run_schedules z utc (st\<lparr>ss_run_time := earliest\<rparr>)
          else Some (st\<lparr>ss_next_event_time := earliest, ss_run_time := add32 utc 1,
                        ss_timer := Some ((earliest - utc) * 1000 mod 2 ^ 32)\<rparr>))"

definition run_start :: "nat \<Rightarrow> sched_state \<Rightarrow> sched_state" where
  "run_start utc st =
     (let bb = ss_stored_time st;
          st = (if bb = 0 \<or> bb > utc \<or> bb < CLOCK_START then st\<lparr>ss_run_time := utc, ss_next_fire := 0\<rparr>
                else st\<lparr>ss_run_time := bb\<rparr>)
      in if ss_next_fire st \<ge> length (scheds st) then st\<lparr>ss_next_fire := 0\<rparr> else st)"

definition sched_run_all :: "clock_zone \<Rightarrow> nat \<Rightarrow> bool \<Rightarrow> bool \<Rightarrow> sched_state \<Rightarrow> sched_state option" where
  "sched_run_all z utc time_set alloc_ok st =
     (let st = st\<lparr>ss_timer := None\<rparr> in
      if \<not> ss_enabled st \<or> ss_mod_scheds st = None \<or> \<not> time_set then Some st
      else map_option (\<lambda>st. sched_actions_run (st\<lparr>ss_stored_time := ss_run_time st\<rparr>))
             (run_schedules z utc (run_start utc (sched_actions_reset alloc_ok st))))"

definition sched_timeout :: "clock_zone \<Rightarrow> nat \<Rightarrow> bool \<Rightarrow> bool \<Rightarrow> sched_state \<Rightarrow> sched_state option" where
  "sched_timeout z utc time_set alloc_ok st =
     sched_run_all z utc time_set alloc_ok (st\<lparr>ss_save_needed := False, ss_run_time := ss_next_event_time st\<rparr>)"

section \<open>Pending actions\<close>

text \<open>The actions pending, in order, and the invariant of their table.\<close>

definition pending :: "sched_state \<Rightarrow> action list" where
  "pending st = map the (take (ss_pend_ct st) (ss_actions st))"

definition actions_ok :: "sched_state \<Rightarrow> bool" where
  "actions_ok st \<longleftrightarrow> ss_pend_ct st \<le> length (ss_actions st) \<and> None \<notin> set (take (ss_pend_ct st) (ss_actions st)) \<and>
     distinct (pending st)"

lemma remove1_take_drop:
  "a \<in> set l \<Longrightarrow> remove1 a l = take (length (takeWhile (\<lambda>x. x \<noteq> a) l)) l @ drop (Suc (length (takeWhile (\<lambda>x. x \<noteq> a) l))) l"
  by (induction l) auto

lemma takeWhile_all: "a \<notin> set l \<Longrightarrow> takeWhile (\<lambda>x. x \<noteq> a) l = l"
  by (simp add: takeWhile_eq_all_conv) blast

lemma pending_some:
  assumes "None \<notin> set xs"
  shows "xs = map Some (map the xs)"
proof -
  have "map (\<lambda>x. Some (the x)) xs = map (\<lambda>x. x) xs" using assms by (intro map_cong refl) (metis option.collapse)
  then show ?thesis by (simp add: comp_def)
qed

lemma takeWhile_Some: "length (takeWhile (\<lambda>x. x \<noteq> Some a) (map Some l)) = length (takeWhile (\<lambda>x. x \<noteq> a) l)"
  by (induction l) auto

lemma action_pend_ok:
  assumes "actions_ok st"
  shows "actions_ok (sched_action_pend a st) \<and> length (ss_actions (sched_action_pend a st)) = length (ss_actions st) \<and>
    pending (sched_action_pend a st) =
      (if a \<in> set (pending st) then remove1 a (pending st) @ [a]
       else if length (pending st) < length (ss_actions st) then pending st @ [a] else pending st)"
proof -
  define ct where "ct = ss_pend_ct st"
  define xs where "xs = ss_actions st"
  define l where "l = pending st"
  define i where "i = length (takeWhile (\<lambda>x. x \<noteq> a) l)"
  from assms have ct: "ct \<le> length xs" "None \<notin> set (take ct xs)" "distinct l"
    by (simp_all add: actions_ok_def ct_def xs_def l_def)
  have l: "take ct xs = map Some l" using pending_some [OF ct(2)] by (simp add: l_def pending_def ct_def xs_def)
  have len: "length l = ct" using ct(1) by (simp add: l_def pending_def ct_def xs_def)
  have i: "length (takeWhile (\<lambda>x. x \<noteq> Some a) (take ct xs)) = i" unfolding l i_def by (rule takeWhile_Some)
  show ?thesis
  proof (cases "a \<in> set l")
    case True
    then have il: "i < ct" unfolding i_def len [symmetric] by (induction l) auto
    define ys where "ys = take i xs @ drop (i + 1) (take ct xs)"
    define zs where "zs = (ys @ drop (ct - 1) xs)[ct - 1 := Some a]"
    have "take i xs = take i (take ct xs)" using il by simp
    then have ys: "ys = map Some (remove1 a l)"
      using remove1_take_drop [OF True] by (simp add: ys_def l i_def take_map drop_map)
    have yl: "length ys = ct - 1" using il len True by (simp add: ys length_remove1)
    have dr: "drop (ct - 1) xs \<noteq> []" using ct(1) il by simp
    have zs: "zs = ys @ Some a # tl (drop (ct - 1) xs)"
      using dr yl by (cases "drop (ct - 1) xs") (simp_all add: zs_def list_update_append)
    have p: "sched_action_pend a st = st\<lparr>ss_actions := zs, ss_pend_ct := ct - 1 + 1\<rparr>"
      using i il ct(1) by (simp add: sched_action_pend_def Let_def zs_def ys_def flip: ct_def xs_def)
    have tk: "take (ct - 1 + 1) zs = ys @ [Some a]" using yl by (simp add: zs)
    then have pe: "pending (sched_action_pend a st) = remove1 a l @ [a]" by (simp add: p pending_def ys comp_def)
    have "length zs = length xs" using yl il ct(1) by (simp add: zs)
    moreover have "actions_ok (sched_action_pend a st)"
      using tk pe ct(1,3) il calculation by (auto simp: actions_ok_def p ys distinct_remove1)
    ultimately show ?thesis using True pe by (simp add: p l_def xs_def)
  next
    case False
    then have ic: "i = ct" unfolding i_def takeWhile_all [OF False] using len by simp
    show ?thesis
    proof (cases "ct < length xs")
      case True
      then have p: "sched_action_pend a st = st\<lparr>ss_actions := xs[ct := Some a], ss_pend_ct := ct + 1\<rparr>"
        using i ic by (simp add: sched_action_pend_def Let_def flip: ct_def xs_def)
      have tk: "take (ct + 1) (xs[ct := Some a]) = map Some (l @ [a])" using True l by (simp add: take_Suc_conv_app_nth)
      then have pe: "pending (sched_action_pend a st) = l @ [a]" by (simp add: p pending_def comp_def del: map_append)
      have "actions_ok (sched_action_pend a st)"
        using tk pe True ct(3) False by (auto simp: actions_ok_def p)
      then show ?thesis using False True pe len by (simp add: p l_def xs_def)
    next
      case F: False
      then have p: "sched_action_pend a st = st"
        using i ic by (simp add: sched_action_pend_def Let_def xs_def ct_def)
      show ?thesis using False F len assms unfolding p by (simp add: l_def xs_def)
    qed
  qed
qed

text \<open>
  \<open>sched_action_pend\<close> on the table implements a queue without repetition: an action that is pending
  moves to the end, another one is appended, or dropped when the table is full.
\<close>

theorem sched_action_pend_correct:
  assumes "actions_ok st"
  shows "actions_ok (sched_action_pend a st) \<and> length (ss_actions (sched_action_pend a st)) = length (ss_actions st) \<and>
    pending (sched_action_pend a st) =
      (if a \<in> set (pending st) then remove1 a (pending st) @ [a]
       else if length (pending st) < length (ss_actions st) then pending st @ [a] else pending st)"
  using assms by (rule action_pend_ok)

definition demo_state :: sched_state where
  "demo_state = \<lparr>ss_mod_scheds = None, ss_actions = [Some (0, 19), Some (1, 7), None], ss_pend_ct = 2, ss_en_ct = 0,
     ss_run_time = 0, ss_next_event_time = 0, ss_next_fire = 0, ss_save_needed = False, ss_enabled = False,
     ss_timer = None, ss_stored_time = 0, ss_fired = []\<rparr>"

theorem sched_action_pend_correct_witness: "pending (sched_action_pend (0, 19) demo_state) = [(1, 7), (0, 19)]"
  using sched_action_pend_correct [of demo_state "(0, 19)"]
  by (simp add: demo_state_def actions_ok_def pending_def)

section \<open>The number of actions\<close>

definition counts_ok :: "sched_state \<Rightarrow> bool" where
  "counts_ok st \<longleftrightarrow> ss_en_ct st = (\<Sum>s \<leftarrow> scheds st. sched_action_count (snd s)) \<and>
     list_all (\<lambda>s. length (sp_tlvs (snd s)) = SCHED_TLV_LEN) (scheds st)"

lemma scheds_Some [simp]: "scheds (st\<lparr>ss_mod_scheds := Some l\<rparr>) = l"
  by (simp add: scheds_def)

lemma lookup_from_index: "lookup_from k name l = Some i \<Longrightarrow> k \<le> i \<and> i < k + length l"
  by (induction k name l rule: lookup_from.induct) (auto split: if_splits)

lemma sched_lookup_index: "sched_prop_lookup name st = Some i \<Longrightarrow> i < length (scheds st)"
  using lookup_from_index [of 0 name _ i] by (auto simp: sched_prop_lookup_def scheds_def split: option.splits)

lemma sched_set_ok:
  assumes "counts_ok st" "i < length (scheds st)"
  shows "\<exists>st'. sched_set i tlvs st = Some (if length tlvs > SCHED_TLV_LEN then AE_LEN else AE_OK, st') \<and> counts_ok st' \<and>
    (if length tlvs > SCHED_TLV_LEN then st' = st
     else ada_sched_get_index i SCHED_TLV_LEN st' = (AE_OK, Some (fst (scheds st ! i), tlvs)) \<and>
       (\<forall>j. j \<noteq> i \<longrightarrow> scheds st' ! j = scheds st ! j) \<and> length (scheds st') = length (scheds st))"
proof (cases "length tlvs > SCHED_TLV_LEN")
  case True
  with assms show ?thesis by (simp add: sched_set_def Let_def split: prod.splits)
next
  case False
  obtain name p where np: "scheds st ! i = (name, p)" by (cases "scheds st ! i")
  define p' where "p' = p\<lparr>sp_tlvs := tlvs @ drop (length tlvs) (sp_tlvs p), sp_len := length tlvs\<rparr>"
  define st' where "st' = st\<lparr>ss_en_ct := ss_en_ct st - sched_action_count p + sched_action_count p',
                             ss_mod_scheds := Some ((scheds st)[i := (name, p')])\<rparr>"
  let ?c = "map (\<lambda>s. sched_action_count (snd s)) (scheds st)"
  have tl: "length (sp_tlvs p) = SCHED_TLV_LEN" using assms np by (auto simp: counts_ok_def list_all_length)
  have c: "sched_action_count p \<le> sum_list ?c"
    using elem_le_sum_list [of i ?c] assms(2) np by simp
  then have s: "sched_set i tlvs st = Some (AE_OK, st')"
    using False np assms(1) by (simp add: sched_set_def st'_def p'_def counts_ok_def Let_def)
  have l': "scheds st' = (scheds st)[i := (name, p')]" by (simp add: st'_def scheds_def)
  have "length (sp_tlvs p') = SCHED_TLV_LEN" using False tl by (simp add: p'_def)
  moreover have "sum_list (map (\<lambda>s. sched_action_count (snd s)) (scheds st')) = sum_list ?c + sched_action_count p' - sched_action_count p"
    using assms(2) np by (simp add: l' map_update sum_list_update)
  ultimately have "counts_ok st'"
    using assms c by (auto simp: counts_ok_def l' st'_def list_all_length nth_list_update)
  moreover have "ada_sched_get_index i SCHED_TLV_LEN st' = (AE_OK, Some (name, tlvs))"
    using False assms(2) by (simp add: ada_sched_get_index_def l' p'_def Let_def)
  ultimately show ?thesis using s False np l' by simp
qed

text \<open>
  A value of at most 255 bytes set for a schedule is what \<open>ada_sched_get_index\<close> then returns, the
  other schedules are unchanged, and the number of actions is kept equal to the actions in all values
  (so the assertion of \<open>sched_set\<close> holds); a longer value is refused and changes nothing.
\<close>

theorem sched_set_get_roundtrip:
  assumes "counts_ok st" "i < length (scheds st)"
  shows "\<exists>st'. ada_sched_set_index i tlvs st = Some (if length tlvs > SCHED_TLV_LEN then AE_LEN else AE_OK, st') \<and>
    counts_ok st' \<and>
    (if length tlvs > SCHED_TLV_LEN then st' = st
     else ada_sched_get_index i SCHED_TLV_LEN st' = (AE_OK, Some (fst (scheds st ! i), tlvs)) \<and>
       (\<forall>j. j \<noteq> i \<longrightarrow> scheds st' ! j = scheds st ! j) \<and> length (scheds st') = length (scheds st))"
  using sched_set_ok [OF assms] assms(2) by (simp add: ada_sched_set_index_def)

lemma empty_count: "sched_action_count (snd empty_sched) = 0"
  by (simp add: sched_action_count_def empty_sched_def count_items.simps)

lemma sched_init_counts:
  "ss_mod_scheds st = None \<Longrightarrow> ss_en_ct st = 0 \<Longrightarrow> counts_ok (snd (ada_sched_init True n st))"
  by (simp add: counts_ok_def ada_sched_init_def scheds_def empty_count sum_list_replicate map_replicate)
    (simp add: empty_sched_def list_all_length)

lemma sched_set_name_counts: "counts_ok st \<Longrightarrow> counts_ok (snd (ada_sched_set_name i name st))"
proof (cases "i < length (scheds st)")
  case True
  assume c: "counts_ok st"
  have "map (\<lambda>s. sched_action_count (snd s)) ((scheds st)[i := (n, snd (scheds st ! i))]) = map (\<lambda>s. sched_action_count (snd s)) (scheds st)" for n
    using True by (simp add: map_update list_update_same_conv)
  with c True show ?thesis
    by (auto simp: counts_ok_def ada_sched_set_name_def list_all_length nth_list_update)
qed (simp add: ada_sched_set_name_def)

theorem sched_set_get_roundtrip_witness:
  "\<exists>st'. ada_sched_set_index 1 [0x33, 1, 1, 0x21, 0] (snd (ada_sched_init True 2 (demo_state\<lparr>ss_mod_scheds := None\<rparr>))) = Some (AE_OK, st') \<and>
    ada_sched_get_index 1 255 st' = (AE_OK, Some ([], [0x33, 1, 1, 0x21, 0]))"
proof -
  let ?st = "snd (ada_sched_init True 2 (demo_state\<lparr>ss_mod_scheds := None\<rparr>))"
  have c: "counts_ok ?st" by (rule sched_init_counts) (simp_all add: demo_state_def)
  have l: "scheds ?st = [empty_sched, empty_sched]" by (simp add: ada_sched_init_def scheds_def demo_state_def numeral_2_eq_2)
  from sched_set_get_roundtrip [OF c, of 1 "[0x33, 1, 1, 0x21, 0]"] show ?thesis
    unfolding l by (auto simp: empty_sched_def)
qed

section \<open>A daily schedule\<close>

text \<open>
  The value of a schedule in UTC that is active every day from \<open>b\<close> to \<open>e\<close> seconds after midnight and
  performs an action at the start: \<^verbatim>\<open>VERSION 1, UTC, STTIMEEACHDAY b, ENDTIMEEACHDAY e, ATSTART,
  SETPROP act\<close>.
\<close>

definition be32 :: "nat \<Rightarrow> bytes" where
  "be32 x = [word_of_nat (x div 2 ^ 24), word_of_nat (x div 2 ^ 16), word_of_nat (x div 2 ^ 8), word_of_nat x]"

definition daily_value :: "nat \<Rightarrow> nat \<Rightarrow> bytes \<Rightarrow> bytes" where
  "daily_value b e act =
     [0x33, 1, 1, 0x21, 0, 0x2d, 4] @ be32 b @ [0x2e, 4] @ be32 e @ [0x25, 0, 0x32, word_of_nat (length act)] @ act"

definition daily_sched :: "nat \<Rightarrow> nat \<Rightarrow> schedule" where
  "daily_sched b e = sched_init_schedule\<lparr>sc_is_utc := True, sc_start_time_each_day := b, sc_end_time_each_day := e\<rparr>"

definition holds_daily :: "sched_prop \<Rightarrow> nat \<Rightarrow> nat \<Rightarrow> bytes \<Rightarrow> bool" where
  "holds_daily p b e act \<longleftrightarrow>
     sp_len p = 21 + length act \<and> take (sp_len p) (sp_tlvs p) = daily_value b e act \<and> length act \<le> 107"

lemma unat_be32: "x < 2 ^ 32 \<Longrightarrow>
  ((unat (word_of_nat (x div 2 ^ 24) :: u8) * 256 + unat (word_of_nat (x div 2 ^ 16) :: u8)) * 256 +
    unat (word_of_nat (x div 2 ^ 8) :: u8)) * 256 + unat (word_of_nat x :: u8) = x"
proof -
  assume x: "x < 2 ^ 32"
  define a where "a = x div 256"
  define b where "b = a div 256"
  define c where "c = b div 256"
  have e: "x div 2 ^ 24 = c" "x div 2 ^ 16 = b" "x div 2 ^ 8 = a"
    by (simp_all add: a_def b_def c_def flip: div_mult2_eq)
  have "c < 256" using x by (simp add: a_def b_def c_def flip: div_mult2_eq)
  then have "c mod 256 = c" by simp
  moreover have "x = a * 256 + x mod 256" "a = b * 256 + a mod 256" "b = c * 256 + b mod 256"
    by (simp_all add: a_def b_def c_def)
  ultimately show ?thesis unfolding e by (simp add: unat_of_nat)
qed

lemma daily_bytes:
  assumes "holds_daily p b e act"
  shows "tlv_byte p 0 = 0x33" "tlv_byte p 1 = 1" "tlv_byte p 2 = 1" "tlv_byte p 3 = 0x21" "tlv_byte p 4 = 0"
    "tlv_byte p 5 = 0x2d" "tlv_byte p 6 = 4" "tlv_byte p 11 = 0x2e" "tlv_byte p 12 = 4"
    "tlv_byte p 17 = 0x25" "tlv_byte p 18 = 0" "tlv_byte p 19 = 0x32" "tlv_byte p 20 = length act"
    "b < 2 ^ 32 \<Longrightarrow> sched_int_get p 5 = Some b" "e < 2 ^ 32 \<Longrightarrow> sched_int_get p 11 = Some e"
proof -
  have t: "tlv_byte p i = unat (cchar (daily_value b e act) i)" if "i < 21" for i
  proof -
    have l: "length (daily_value b e act) = 21 + length act" by (simp add: daily_value_def be32_def)
    have "take (sp_len p) (sp_tlvs p) = daily_value b e act" "i < sp_len p"
      using assms that unfolding holds_daily_def by (blast, linarith)
    then have n: "sp_tlvs p ! i = daily_value b e act ! i" by (metis nth_take)
    have "i < length (sp_tlvs p)" using that l assms by (metis add.commute holds_daily_def length_take min_less_iff_conj trans_less_add2)
    with n l that show ?thesis by (simp add: tlv_byte_def cchar_def)
  qed
  have d: "length act < 256" using assms by (simp add: holds_daily_def)
  show "tlv_byte p 0 = 0x33" "tlv_byte p 1 = 1" "tlv_byte p 2 = 1" "tlv_byte p 3 = 0x21" "tlv_byte p 4 = 0"
    "tlv_byte p 5 = 0x2d" "tlv_byte p 6 = 4" "tlv_byte p 11 = 0x2e" "tlv_byte p 12 = 4"
    "tlv_byte p 17 = 0x25" "tlv_byte p 18 = 0" "tlv_byte p 19 = 0x32" "tlv_byte p 20 = length act"
    using d by (simp_all add: t daily_value_def be32_def unat_of_nat)
  show "sched_int_get p 5 = Some b" if "b < 2 ^ 32"
    using unat_be32 [OF that] by (simp add: sched_int_get_def t daily_value_def be32_def Let_def)
  show "sched_int_get p 11 = Some e" if "e < 2 ^ 32"
    using unat_be32 [OF that] by (simp add: sched_int_get_def t daily_value_def be32_def Let_def)
qed

lemma eval_step:
  assumes "ev_consumed st = pos" "pos < sp_len p" "eval_tlv z p time st = Some (Inr st')"
    "(pos + tlv_byte p (pos + 1) + 2) mod 256 = pos'"
  shows "eval_loop z p time st = eval_loop z p time (st'\<lparr>ev_consumed := pos'\<rparr>)"
  using assms by (subst eval_loop.simps) simp

lemma daily_sched_daily: "b < ONE_DAY \<Longrightarrow> e < ONE_DAY \<Longrightarrow> daily (daily_sched b e) b e"
  by (simp add: daily_def daily_sched_def every_day_def sched_init_schedule_def)

text \<open>The state after the items of the value.\<close>

lemma daily_loop:
  assumes "holds_daily p b e act" "b < ONE_DAY" "e < ONE_DAY" "ONE_DAY \<le> time" "time + 3 * ONE_DAY \<le> MAX32"
    "daily_range b e time = (rs, re)"
  shows "\<exists>st. eval_loop z p time
      \<lparr>ev_sched = sched_init_schedule, ev_consumed = 3, ev_end_needed = False, ev_start = 0, ev_end = 0,
       ev_calculated = False, ev_type = TY_INVALID, ev_actions = []\<rparr> = Some (Inr st) \<and>
    ev_sched st = daily_sched b e \<and> ev_start st = rs \<and> ev_end st = re \<and> \<not> ev_end_needed st \<and>
    ev_actions st = (if time = rs then [19] else [])"
proof -
  note bts = daily_bytes [OF assms(1)]
  have be: "b < 2 ^ 32" "e < 2 ^ 32" using assms(2,3) by simp_all
  have n: "sp_len p = 21 + length act" "length act \<le> 107" using assms(1) by (simp_all add: holds_daily_def)
  define st0 where "st0 = \<lparr>ev_sched = sched_init_schedule, ev_consumed = 3, ev_end_needed = False, ev_start = 0, ev_end = 0,
       ev_calculated = False, ev_type = TY_INVALID, ev_actions = []\<rparr>"
  define st1 where "st1 = st0\<lparr>ev_sched := sched_init_schedule\<lparr>sc_is_utc := True\<rparr>, ev_consumed := 5\<rparr>"
  define st2 where "st2 = st1\<lparr>ev_sched := (ev_sched st1)\<lparr>sc_start_time_each_day := b\<rparr>, ev_consumed := 11\<rparr>"
  define st3 where "st3 = st2\<lparr>ev_sched := daily_sched b e, ev_consumed := 17\<rparr>"
  define st4 where "st4 = st3\<lparr>ev_type := TY_ATSTART, ev_start := rs, ev_end := re, ev_calculated := True, ev_consumed := 19\<rparr>"
  define st5 where "st5 = (eval_setprop time st4)\<lparr>ev_consumed := sp_len p\<rparr>"
  have "eval_tlv z p time st0 = Some (Inr (st0\<lparr>ev_sched := sched_init_schedule\<lparr>sc_is_utc := True\<rparr>\<rparr>))"
    by (simp add: eval_tlv_def st0_def bts)
  from eval_step [OF _ _ this] have s0: "eval_loop z p time st0 = eval_loop z p time st1"
    using n by (simp add: st0_def st1_def bts)
  have "sched_set_sched_value 4 p 5 = Some b" using be by (simp add: sched_set_sched_value_def bts)
  then have "eval_tlv z p time st1 = Some (Inr (st1\<lparr>ev_sched := (ev_sched st1)\<lparr>sc_start_time_each_day := b\<rparr>\<rparr>))"
    by (simp add: eval_tlv_def st1_def st0_def bts eval_value_def)
  from eval_step [OF _ _ this] have s1: "eval_loop z p time st1 = eval_loop z p time st2"
    using n by (simp add: st1_def st2_def bts)
  have "sched_set_sched_value 4 p 11 = Some e" using be by (simp add: sched_set_sched_value_def bts)
  then have "eval_tlv z p time st2 = Some (Inr (st2\<lparr>ev_sched := daily_sched b e\<rparr>))"
    by (simp add: eval_tlv_def st2_def st1_def st0_def bts eval_value_def daily_sched_def)
  from eval_step [OF _ _ this] have s2: "eval_loop z p time st2 = eval_loop z p time st3"
    using n by (simp add: st2_def st3_def bts)
  have "sched_determine_range z (daily_sched b e) time = Some (rs, re)"
    using sched_range_lemma [OF daily_sched_daily [OF assms(2,3)] assms(4,5)] assms(6) by simp
  then have "eval_range z time TY_ATSTART st3 = Some (Inr (st4\<lparr>ev_consumed := 17\<rparr>))"
    using assms(4) by (simp add: eval_range_def st3_def st2_def st1_def st0_def st4_def daily_sched_def sched_init_schedule_def Let_def)
  then have "eval_tlv z p time st3 = Some (Inr (st4\<lparr>ev_consumed := 17\<rparr>))"
    by (simp add: eval_tlv_def st3_def bts)
  from eval_step [OF _ _ this] have s3: "eval_loop z p time st3 = eval_loop z p time st4"
    using n by (simp add: st3_def st4_def bts)
  have "eval_tlv z p time st4 = Some (Inr (eval_setprop time st4))" by (simp add: eval_tlv_def st4_def bts)
  from eval_step [OF _ _ this] have s4: "eval_loop z p time st4 = eval_loop z p time st5"
    using n by (simp add: st4_def st5_def bts)
  have "ev_consumed st5 = sp_len p" by (simp add: st5_def)
  then have "eval_loop z p time st5 = Some (Inr st5)" by (subst eval_loop.simps) simp
  then have "eval_loop z p time st0 = Some (Inr st5)" using s0 s1 s2 s3 s4 by simp
  moreover have "ev_sched st5 = daily_sched b e \<and> ev_start st5 = rs \<and> ev_end st5 = re \<and> \<not> ev_end_needed st5 \<and>
      ev_actions st5 = (if time = rs then [19] else [])"
    by (simp add: st5_def eval_setprop_def st4_def st3_def st2_def st1_def st0_def)
  ultimately show ?thesis unfolding st0_def by blast
qed

definition next_start :: "nat \<Rightarrow> nat \<Rightarrow> nat" where
  "next_start b time =
     (let D = time div ONE_DAY * ONE_DAY in if time mod ONE_DAY < b then D + b else D + ONE_DAY + b)"

lemma evaluate_daily:
  assumes "holds_daily p b e act" "b \<le> e" "e < ONE_DAY" "ONE_DAY \<le> time" "time + 5 * ONE_DAY \<le> MAX32"
  shows "sched_evaluate z p time = Some (next_start b time, if time mod ONE_DAY = b then [19] else [])"
proof -
  define D where "D = time div ONE_DAY * ONE_DAY"
  define tod where "tod = time mod ONE_DAY"
  have tm: "time = D + tod" "tod < ONE_DAY" by (simp_all add: D_def tod_def)
  have D1: "ONE_DAY \<le> D" using assms(4) div_le_mono [OF assms(4), of ONE_DAY] by (simp add: D_def)
  have b: "b < ONE_DAY" using assms(2,3) by simp
  have time3: "time + 3 * ONE_DAY \<le> MAX32" using assms(5) by simp
  have time0: "time \<le> MAX32" using assms(5) by simp
  obtain rs re where r: "daily_range b e time = (rs, re)" by (cases "daily_range b e time")
  have rr: "(rs, re) = (if tod \<le> e then (D + b, D + e) else (D + ONE_DAY + b, MAX32))"
    using r assms(2) by (auto simp: daily_range_def Let_def D_def tod_def split: if_splits)
  from daily_loop [OF assms(1) b assms(3,4) time3 r, of z] obtain st where
    st: "eval_loop z p time
      \<lparr>ev_sched = sched_init_schedule, ev_consumed = 3, ev_end_needed = False, ev_start = 0, ev_end = 0,
       ev_calculated = False, ev_type = TY_INVALID, ev_actions = []\<rparr> = Some (Inr st)"
    "ev_sched st = daily_sched b e" "ev_start st = rs" "ev_end st = re" "\<not> ev_end_needed st"
    "ev_actions st = (if time = rs then [19] else [])" by blast
  note bts = daily_bytes [OF assms(1)]
  have "sched_int_get p 0 = Some 1" using bts(2,3) by (simp add: sched_int_get_def numeral_2_eq_2)
  then have ev: "sched_evaluate z p time =
      (let result = map_option (\<lambda>t. (t, ev_actions st)) in
       if rs = 0 \<and> re = 0 then result (Some 0)
       else if time < rs then result (Some rs)
       else if re \<noteq> MAX32 then result (determine_next_event z (daily_sched b e) (re + 1))
       else if time < re then result (Some re)
       else if time = re then result (determine_next_event z (daily_sched b e) (add32 re 1))
       else result (Some 0))"
    using st(1) bts(1,2) by (simp add: sched_evaluate_def Let_def st(2-5))
  have act: "time = rs \<longleftrightarrow> tod = b" using rr tm assms(2) by (auto split: if_splits)
  show ?thesis
  proof (cases "tod \<le> e")
    case True
    then have rr: "rs = D + b" "re = D + e" using rr by simp_all
    show ?thesis
    proof (cases "tod < b")
      case True
      then have "time < rs" using rr tm by simp
      with True D1 rr act show ?thesis
        by (simp add: ev next_start_def st(6) Let_def flip: D_def tod_def)
    next
      case False
      define t' where "t' = D + e + 1"
      have t': "ONE_DAY \<le> t'" "t' + 3 * ONE_DAY \<le> MAX32" using D1 assms(3,5) tm by (simp_all add: t'_def)
      have rng: "\<exists>x. daily_range b e t' = (D + ONE_DAY + b, x)"
      proof (cases "e + 1 = ONE_DAY")
        case True
        then have "t' = D + ONE_DAY" by (simp add: t'_def)
        then have "t' div ONE_DAY * ONE_DAY = D + ONE_DAY" "t' mod ONE_DAY = 0" by (simp_all add: D_def)
        then show ?thesis using assms(2) by (simp add: daily_range_def Let_def)
      next
        case False
        then have e1: "e + 1 < ONE_DAY" using assms(3) by simp
        have "t' = time div ONE_DAY * ONE_DAY + (e + 1)" by (simp add: t'_def D_def)
        then have "t' div ONE_DAY = time div ONE_DAY" "t' mod ONE_DAY = e + 1" using e1 by simp_all
        then show ?thesis using assms(2) by (simp add: daily_range_def Let_def D_def)
      qed
      then obtain x where x: "daily_range b e t' = (D + ONE_DAY + b, x)" by blast
      have "sched_determine_range z (daily_sched b e) t' = Some (D + ONE_DAY + b, x)"
        using sched_range_lemma [OF daily_sched_daily [OF b assms(3)] t'] x by simp
      moreover have "\<not> D + ONE_DAY + b < t'" using assms(3) by (simp add: t'_def)
      ultimately have n: "determine_next_event z (daily_sched b e) (re + 1) = Some (D + ONE_DAY + b)"
        using rr by (simp add: determine_next_event_def t'_def)
      have "re \<noteq> MAX32" "\<not> time < rs" "rs \<noteq> 0" using rr assms(3,5) tm D1 False by simp_all
      with False n act show ?thesis
        by (simp add: ev next_start_def st(6) Let_def flip: D_def tod_def)
    qed
  next
    case False
    then have "rs = D + ONE_DAY + b" using rr by simp
    then have "time < rs" "\<not> tod < b" "rs \<noteq> 0" using tm False assms(2) by simp_all
    with \<open>rs = D + ONE_DAY + b\<close> act show ?thesis
      by (simp add: ev next_start_def st(6) Let_def flip: D_def tod_def)
  qed
qed

text \<open>
  C25. For the value of a daily schedule, \<open>sched_evaluate\<close> returns the next start of the day's range
  after the given time, and performs the action exactly when the time is a start.
\<close>

theorem sched_evaluate_daily:
  assumes "holds_daily p b e act" "b \<le> e" "e < ONE_DAY" "ONE_DAY \<le> time" "time + 5 * ONE_DAY \<le> MAX32"
  shows "sched_evaluate z p time = Some (next_start b time, if time mod ONE_DAY = b then [19] else [])"
  using assms by (rule evaluate_daily)

definition demo_value :: sched_prop where
  "demo_value = \<lparr>sp_len = 21, sp_tlvs = daily_value 28800 64800 [] @ replicate 107 0\<rparr>"

lemma demo_value_daily: "holds_daily demo_value 28800 64800 []"
  by (simp add: holds_daily_def demo_value_def daily_value_def be32_def)

text \<open>At 8:00 on 2017-01-01.\<close>

theorem sched_evaluate_daily_witness: "sched_evaluate demo_zone demo_value 1483257600 = Some (1483344000, [19])"
  using sched_evaluate_daily [OF demo_value_daily, of 1483257600 demo_zone] by (simp add: next_start_def)

section \<open>All schedules\<close>

text \<open>A schedule that is looked at, and what its evaluation gives at a time.\<close>

definition active :: "named_sched \<Rightarrow> bool" where
  "active s \<longleftrightarrow> fst s \<noteq> [] \<and> sp_len (snd s) \<noteq> 0"

definition event_at :: "clock_zone \<Rightarrow> named_sched \<Rightarrow> nat \<Rightarrow> nat" where
  "event_at z s t = (case sched_evaluate z (snd s) t of None \<Rightarrow> 0 | Some (e, acts) \<Rightarrow> if e = 0 then MAX32 else e)"

text \<open>Between two times, every evaluation returns, with no event or one that is later.\<close>

definition progress :: "clock_zone \<Rightarrow> nat \<Rightarrow> nat \<Rightarrow> named_sched \<Rightarrow> bool" where
  "progress z lo hi s \<longleftrightarrow>
     (active s \<longrightarrow> (\<forall>t \<in> {lo..hi}. \<exists>e acts. sched_evaluate z (snd s) t = Some (e, acts) \<and> (e = 0 \<or> t < e) \<and> e \<le> MAX32))"

lemma pend_simps [simp]:
  "ss_mod_scheds (sched_action_pend a st) = ss_mod_scheds st" "ss_run_time (sched_action_pend a st) = ss_run_time st"
  "scheds (sched_action_pend a st) = scheds st" "ss_timer (sched_action_pend a st) = ss_timer st"
  by (simp_all add: sched_action_pend_def Let_def scheds_def split: prod.splits)

lemma pends_simps [simp]:
  "ss_mod_scheds (fold (\<lambda>pos. sched_action_pend (i, pos)) acts st) = ss_mod_scheds st"
  "ss_run_time (fold (\<lambda>pos. sched_action_pend (i, pos)) acts st) = ss_run_time st"
  "scheds (fold (\<lambda>pos. sched_action_pend (i, pos)) acts st) = scheds st"
  "ss_timer (fold (\<lambda>pos. sched_action_pend (i, pos)) acts st) = ss_timer st"
  by (induction acts arbitrary: st) simp_all

lemma look_at_ok:
  assumes "progress z lo hi (scheds st ! i)" "lo \<le> ss_run_time st" "ss_run_time st \<le> hi" "i < length (scheds st)" "m \<le> MAX32"
  shows "\<exists>st'. look_at z i m st =
      Some (if active (scheds st ! i) then min m (event_at z (scheds st ! i) (ss_run_time st)) else m, st') \<and>
    scheds st' = scheds st \<and> ss_run_time st' = ss_run_time st \<and> ss_timer st' = ss_timer st \<and>
    (ss_next_fire st' = i mod 256 \<or> ss_next_fire st' = ss_next_fire st)"
proof -
  obtain name p where np: "scheds st ! i = (name, p)" by (cases "scheds st ! i")
  show ?thesis
  proof (cases "active (scheds st ! i)")
    case False
    then show ?thesis by (auto simp: look_at_def np active_def)
  next
    case True
    then obtain e acts where e: "sched_evaluate z p (ss_run_time st) = Some (e, acts)" "e = 0 \<or> ss_run_time st < e" "e \<le> MAX32"
      using assms(1-3) np unfolding progress_def by fastforce
    have nf: "ss_next_fire (fold (\<lambda>pos. sched_action_pend (i, pos)) acts st) = ss_next_fire st"
      by (induction acts arbitrary: st) (simp_all add: sched_action_pend_def Let_def split: prod.splits)
    show ?thesis using True np e assms(5) nf
      by (auto simp: look_at_def active_def event_at_def Let_def min_def scheds_def)
  qed
qed

text \<open>The event of a schedule in a pass; a pass visits every schedule once, from \<open>start\<close> around.\<close>

definition pass_event :: "clock_zone \<Rightarrow> sched_state \<Rightarrow> nat \<Rightarrow> nat" where
  "pass_event z st j = (if active (scheds st ! j) then event_at z (scheds st ! j) (ss_run_time st) else MAX32)"

lemma pass_event_cong: "scheds st' = scheds st \<Longrightarrow> ss_run_time st' = ss_run_time st \<Longrightarrow> pass_event z st' j = pass_event z st j"
  by (simp add: pass_event_def)

lemma run_pass_ok:
  assumes "n = length (scheds st)" "start < n" "1 \<le> k" "k \<le> n" "i = (start + (n - k)) mod n" "m \<le> MAX32"
    "list_all (progress z lo hi) (scheds st)" "lo \<le> ss_run_time st" "ss_run_time st \<le> hi" "ss_next_fire st < n"
  shows "\<exists>m' st'. run_pass z start i m st = Some (m', st') \<and> m' \<le> m \<and>
    (\<forall>d \<in> {n - k..<n}. m' \<le> pass_event z st ((start + d) mod n)) \<and>
    (m' = m \<or> (\<exists>d \<in> {n - k..<n}. m' = pass_event z st ((start + d) mod n))) \<and>
    scheds st' = scheds st \<and> ss_run_time st' = ss_run_time st \<and> ss_timer st' = ss_timer st \<and> ss_next_fire st' < n"
  using assms
proof (induction k arbitrary: i m st)
  case (Suc k)
  have "0 < n" using Suc.prems(2) by simp
  then have i: "i < length (scheds st)" unfolding Suc.prems(5) Suc.prems(1) [symmetric] by (rule mod_less_divisor)
  have "progress z lo hi (scheds st ! i)" using Suc.prems(7) i by (simp add: list_all_length)
  from look_at_ok [OF this Suc.prems(8,9) i Suc.prems(6)] obtain st1 where l1:
    "look_at z i m st = Some (min m (pass_event z st i), st1)" "scheds st1 = scheds st" "ss_run_time st1 = ss_run_time st"
    "ss_timer st1 = ss_timer st" "ss_next_fire st1 = i mod 256 \<or> ss_next_fire st1 = ss_next_fire st"
    using Suc.prems(6) by (auto simp: pass_event_def)
  define m1 where "m1 = min m (pass_event z st i)"
  define i' where "i' = (if i + 1 \<ge> n then 0 else i + 1)"
  have "i mod 256 < n" using i Suc.prems(1) by (metis le_less_trans mod_less_eq_dividend)
  then have nf: "ss_next_fire st1 < n" using l1(5) Suc.prems(10) by auto
  have i': "i' = (start + (n - Suc k) + 1) mod n"
    using Suc.prems(2,5) i Suc.prems(1) by (simp add: i'_def mod_Suc)
  have dk: "{n - Suc k..<n} = insert (n - Suc k) {n - k..<n}" using Suc.prems(4) by auto
  show ?case
  proof (cases "k = 0")
    case True
    then have "start + (n - Suc k) + 1 = start + n" using Suc.prems(2) by simp
    then have "i' = (start + n) mod n" using i' by (simp only:)
    then have "(if length (scheds st) \<le> i + 1 then 0 else i + 1) = start"
      using Suc.prems(1,2) by (simp add: i'_def)
    then have "run_pass z start i m st = Some (m1, st1)"
      using i l1(1,2) by (subst run_pass.simps) (cases "length (scheds st) \<le> i + 1"; simp add: m1_def)
    moreover have "{n - Suc k..<n} = {n - Suc k}" using True Suc.prems(2) by auto
    ultimately show ?thesis using l1 nf Suc.prems(5) by (auto simp: m1_def min_def)
  next
    case False
    have s1: "start + (n - Suc k) + 1 = start + (n - k)" using Suc.prems(4) by simp
    have "i' \<noteq> start"
    proof
      assume e: "i' = start"
      show False
      proof (cases "start + (n - k) < n")
        case True
        then show False using e i' s1 False Suc.prems(4) by simp
      next
        case False
        then have "(start + (n - k)) mod n = start + (n - k) - n"
          using Suc.prems(2,4) by (simp add: le_mod_geq)
        then show False using e i' s1 \<open>k \<noteq> 0\<close> Suc.prems(4) False by simp
      qed
    qed
    then have r: "run_pass z start i m st = run_pass z start i' m1 st1"
      using i l1(1,2) Suc.prems(1) unfolding i'_def
      by (subst run_pass.simps) (cases "length (scheds st) \<le> i + 1"; simp add: m1_def)
    have "m1 \<le> MAX32" "1 \<le> k" "k \<le> n" using Suc.prems(4,6) False by (simp_all add: m1_def)
    note k = this
    have ik: "i' = (start + (n - k)) mod n" unfolding i' s1 ..
    have "n = length (scheds st1)" "list_all (progress z lo hi) (scheds st1)"
      "lo \<le> ss_run_time st1" "ss_run_time st1 \<le> hi"
      using l1 Suc.prems(1,7-9) by simp_all
    from Suc.IH [OF this(1) Suc.prems(2) k(2,3) ik k(1) this(2-4) nf]
    obtain m' st' where n: "run_pass z start i' m1 st1 = Some (m', st')" "m' \<le> m1"
      "\<forall>d \<in> {n - k..<n}. m' \<le> pass_event z st1 ((start + d) mod n)"
      "m' = m1 \<or> (\<exists>d \<in> {n - k..<n}. m' = pass_event z st1 ((start + d) mod n))"
      "scheds st' = scheds st1" "ss_run_time st' = ss_run_time st1" "ss_timer st' = ss_timer st1" "ss_next_fire st' < n"
      by blast
    have pe: "pass_event z st1 j = pass_event z st j" for j using l1(2,3) by (rule pass_event_cong)
    have "m' \<le> m \<and> m' \<le> pass_event z st i" using n(2) by (simp add: m1_def)
    moreover have "m' = m \<or> m' = pass_event z st i \<or> (\<exists>d \<in> {n - k..<n}. m' = pass_event z st ((start + d) mod n))"
      using n(4) unfolding pe by (auto simp: m1_def min_def split: if_splits)
    ultimately show ?thesis unfolding dk r using n l1 Suc.prems(5) unfolding pe by auto
  qed
qed simp

lemma run_schedules_ok:
  assumes "scheds st \<noteq> []" "list_all (progress z lo utc) (scheds st)" "lo \<le> ss_run_time st" "ss_run_time st \<le> utc"
    "utc < MAX32" "ss_next_fire st < length (scheds st)"
  shows "\<exists>st' r m. run_schedules z utc st = Some st' \<and> scheds st' = scheds st \<and> ss_run_time st \<le> r \<and> r \<le> utc \<and> utc < m \<and>
    (\<forall>s \<in> set (scheds st). active s \<longrightarrow> m \<le> event_at z s r) \<and>
    (if m = MAX32 then ss_timer st' = ss_timer st
     else (\<exists>s \<in> set (scheds st). active s \<and> event_at z s r = m) \<and> ss_next_event_time st' = m \<and>
       ss_timer st' = Some ((m - utc) * 1000 mod 2 ^ 32))"
  using assms
proof (induction "utc - ss_run_time st" arbitrary: st rule: less_induct)
  case less
  define n where "n = length (scheds st)"
  have n: "1 \<le> n" "n = length (scheds st)" using less.prems(1) by (simp_all add: n_def Suc_leI)
  have nf: "ss_next_fire st < n" using less.prems(6) n by simp
  have "ss_next_fire st = (ss_next_fire st + (n - n)) mod n" using nf by simp
  from run_pass_ok [OF n(2) nf n(1) order_refl this order_refl less.prems(2-4) nf]
  obtain m st1 where p: "run_pass z (ss_next_fire st) (ss_next_fire st) MAX32 st = Some (m, st1)" "m \<le> MAX32"
    "\<forall>d \<in> {0..<n}. m \<le> pass_event z st ((ss_next_fire st + d) mod n)"
    "m = MAX32 \<or> (\<exists>d \<in> {0..<n}. m = pass_event z st ((ss_next_fire st + d) mod n))"
    "scheds st1 = scheds st" "ss_run_time st1 = ss_run_time st" "ss_timer st1 = ss_timer st" "ss_next_fire st1 < n"
    by auto
  have all: "m \<le> pass_event z st j" if "j < n" for j
  proof -
    define d where "d = (j + (n - ss_next_fire st)) mod n"
    have "(ss_next_fire st + d) mod n = (ss_next_fire st + (j + (n - ss_next_fire st))) mod n"
      by (simp add: d_def mod_add_right_eq)
    also have "ss_next_fire st + (j + (n - ss_next_fire st)) = j + n" using nf by simp
    finally have "(ss_next_fire st + d) mod n = j" using that by simp
    moreover have "d \<in> {0..<n}" using n(1) by (simp add: d_def)
    ultimately show ?thesis using p(3) by metis
  qed
  have some: "\<exists>j < n. m = pass_event z st j" if "m \<noteq> MAX32"
    using p(4) that n(1) by (metis Suc_le_lessD One_nat_def mod_less_divisor)
  have ev: "\<forall>s \<in> set (scheds st). active s \<longrightarrow> m \<le> event_at z s (ss_run_time st)"
  proof (intro ballI impI)
    fix s assume "s \<in> set (scheds st)" "active s"
    then obtain j where "j < n" "s = scheds st ! j" by (auto simp: in_set_conv_nth n_def)
    with all [of j] \<open>active s\<close> show "m \<le> event_at z s (ss_run_time st)" by (simp add: pass_event_def)
  qed
  have later: "ss_run_time st < m \<and> (\<exists>s \<in> set (scheds st). active s \<and> event_at z s (ss_run_time st) = m)" if "m \<noteq> MAX32"
  proof -
    from some [OF that] obtain j where j: "j < n" "m = pass_event z st j" by blast
    with that have a: "active (scheds st ! j)" "m = event_at z (scheds st ! j) (ss_run_time st)"
      by (auto simp: pass_event_def split: if_splits)
    have "progress z lo utc (scheds st ! j)" using less.prems(2) j(1) by (simp add: list_all_length n_def)
    then obtain e acts where "sched_evaluate z (snd (scheds st ! j)) (ss_run_time st) = Some (e, acts)" "e = 0 \<or> ss_run_time st < e"
      using a(1) less.prems(3,4) unfolding progress_def by fastforce
    with a(2) that have "ss_run_time st < m" by (auto simp: event_at_def split: if_splits)
    with a j(1) n(2) show ?thesis by auto
  qed
  show ?case
  proof (cases "m = MAX32")
    case True
    then have "run_schedules z utc st = Some st1" using p(1) by (subst run_schedules.simps) simp
    with True p ev less.prems(4,5) show ?thesis
      by (intro exI [of _ st1] exI [of _ "ss_run_time st"] exI [of _ m]) simp
  next
    case False
    note lt = later [OF False]
    then have m0: "m \<noteq> 0" by auto
    show ?thesis
    proof (cases "m \<le> utc")
      case True
      define st2 where "st2 = st1\<lparr>ss_run_time := m\<rparr>"
      have r: "run_schedules z utc st = run_schedules z utc st2"
        using p(1) False True m0 by (subst run_schedules.simps) (simp add: st2_def)
      have s2: "scheds st2 = scheds st" "ss_run_time st2 = m" "ss_timer st2 = ss_timer st" "ss_next_fire st2 < length (scheds st)"
        using p n by (simp_all add: st2_def scheds_def)
      have "utc - ss_run_time st2 < utc - ss_run_time st"
        unfolding s2(2) by (rule diff_less_mono2) (use conjunct1 [OF lt] True in linarith)+
      have pr: "scheds st2 \<noteq> []" "list_all (progress z lo utc) (scheds st2)" "lo \<le> ss_run_time st2"
        "ss_run_time st2 \<le> utc" "ss_next_fire st2 < length (scheds st2)"
        using less.prems s2 lt True by simp_all
      from less.hyps [OF \<open>utc - ss_run_time st2 < utc - ss_run_time st\<close> pr(1-4) less.prems(5) pr(5)]
      obtain st' r m' where
        "run_schedules z utc st2 = Some st'" "scheds st' = scheds st" "m \<le> r" "r \<le> utc" "utc < m'"
        "\<forall>s \<in> set (scheds st). active s \<longrightarrow> m' \<le> event_at z s r"
        "if m' = MAX32 then ss_timer st' = ss_timer st
         else (\<exists>s \<in> set (scheds st). active s \<and> event_at z s r = m') \<and> ss_next_event_time st' = m' \<and>
           ss_timer st' = Some ((m' - utc) * 1000 mod 2 ^ 32)"
        unfolding s2 by blast
      then show ?thesis unfolding r using lt
        by (intro exI [of _ st'] exI [of _ r] exI [of _ m']) simp
    next
      case gt: False
      define st' where "st' = st1\<lparr>ss_next_event_time := m, ss_run_time := add32 utc 1,
                        ss_timer := Some ((m - utc) * 1000 mod 2 ^ 32)\<rparr>"
      have "run_schedules z utc st = Some st'"
        using p(1) False gt m0 by (subst run_schedules.simps) (simp add: st'_def)
      moreover have "scheds st' = scheds st" using p(5) by (simp add: st'_def scheds_def)
      ultimately show ?thesis using gt False lt ev less.prems(4)
        by (intro exI [of _ st'] exI [of _ "ss_run_time st"] exI [of _ m]) (simp add: st'_def)
    qed
  qed
qed

text \<open>Where the run begins: at the stored time of the last run, if it can be trusted.\<close>

definition run_from :: "nat \<Rightarrow> sched_state \<Rightarrow> nat" where
  "run_from utc st =
     (if ss_stored_time st = 0 \<or> ss_stored_time st > utc \<or> ss_stored_time st < CLOCK_START then utc else ss_stored_time st)"

text \<open>
  C1. When every evaluation up to the current time makes progress, \<open>sched_run_all\<close> returns, has no
  action left pending, and has evaluated every schedule at a time up to the present at which no
  schedule has an event before \<open>m\<close>, which lies in the future; \<open>m\<close> is the time of the next event, and
  the timer is set to it, or there is none.
\<close>

theorem sched_run_all_correct:
  assumes "ss_enabled st" "ss_mod_scheds st = Some l" "l \<noteq> []" "utc < MAX32"
    "list_all (progress z (run_from utc st) utc) l"
  shows "\<exists>st' r m. sched_run_all z utc True alloc_ok st = Some st' \<and> ss_pend_ct st' = 0 \<and>
    run_from utc st \<le> r \<and> r \<le> utc \<and> utc < m \<and> (\<forall>s \<in> set l. active s \<longrightarrow> m \<le> event_at z s r) \<and>
    (if m = MAX32 then ss_timer st' = None
     else (\<exists>s \<in> set l. active s \<and> event_at z s r = m) \<and> ss_next_event_time st' = m \<and>
       ss_timer st' = Some ((m - utc) * 1000 mod 2 ^ 32))"
proof -
  define st0 where "st0 = run_start utc (sched_actions_reset alloc_ok (st\<lparr>ss_timer := None\<rparr>))"
  have s0: "scheds st0 = l" "ss_timer st0 = None" "ss_run_time st0 = run_from utc st" "ss_next_fire st0 < length l"
    using assms(2,3)
    by (auto simp: st0_def run_start_def sched_actions_reset_def scheds_def run_from_def Let_def)
  have "run_from utc st \<le> utc" by (simp add: run_from_def)
  with run_schedules_ok [of st0 z "run_from utc st" utc] assms(3-5) s0 obtain st1 r m where r:
    "run_schedules z utc st0 = Some st1" "run_from utc st \<le> r" "r \<le> utc" "utc < m"
    "\<forall>s \<in> set l. active s \<longrightarrow> m \<le> event_at z s r"
    "if m = MAX32 then ss_timer st1 = None
     else (\<exists>s \<in> set l. active s \<and> event_at z s r = m) \<and> ss_next_event_time st1 = m \<and>
       ss_timer st1 = Some ((m - utc) * 1000 mod 2 ^ 32)"
    by auto
  have "sched_run_all z utc True alloc_ok st = Some (sched_actions_run (st1\<lparr>ss_stored_time := ss_run_time st1\<rparr>))"
    using assms(1,2) r(1) by (simp add: sched_run_all_def Let_def flip: st0_def)
  then show ?thesis using r(2-6)
    by (intro exI [of _ "sched_actions_run (st1\<lparr>ss_stored_time := ss_run_time st1\<rparr>)"] exI [of _ r] exI [of _ m])
      (simp add: sched_actions_run_def)
qed

lemma daily_progress:
  assumes "holds_daily (snd s) b e act" "b \<le> e" "e < ONE_DAY" "ONE_DAY \<le> lo" "hi + 5 * ONE_DAY \<le> MAX32"
  shows "progress z lo hi s"
proof -
  have "\<exists>ev acts. sched_evaluate z (snd s) t = Some (ev, acts) \<and> (ev = 0 \<or> t < ev) \<and> ev \<le> MAX32" if "t \<in> {lo..hi}" for t
  proof -
    have t: "ONE_DAY \<le> t" "t + 5 * ONE_DAY \<le> MAX32" using that assms(4,5) by simp_all
    define D where "D = t div ONE_DAY * ONE_DAY"
    define tod where "tod = t mod ONE_DAY"
    have "t = D + tod" "tod < ONE_DAY" by (simp_all add: D_def tod_def)
    moreover have "next_start b t = (if tod < b then D + b else D + ONE_DAY + b)"
      by (simp add: next_start_def D_def tod_def)
    ultimately have "t < next_start b t" "next_start b t \<le> MAX32"
      using t(2) assms(2,3) by (simp_all split: if_splits)
    with evaluate_daily [OF assms(1-3) t, of z] show ?thesis by simp
  qed
  then show ?thesis by (simp add: progress_def)
qed

text \<open>A schedule that starts at 8:00, last run at 7:00 on 2017-01-01, run at 9:00: the next event is at 8:00 on the next day.\<close>

theorem sched_run_all_correct_witness:
  "\<exists>st' r m. sched_run_all demo_zone 1483261200 True True
      (demo_state\<lparr>ss_mod_scheds := Some [(str ''s'', demo_value)], ss_enabled := True, ss_stored_time := 1483254000\<rparr>) = Some st' \<and>
    ss_pend_ct st' = 0 \<and> 1483261200 < m \<and> r \<le> 1483261200 \<and> m \<le> event_at demo_zone (str ''s'', demo_value) r"
proof -
  let ?st = "demo_state\<lparr>ss_mod_scheds := Some [(str ''s'', demo_value)], ss_enabled := True, ss_stored_time := 1483254000\<rparr>"
  have f: "run_from 1483261200 ?st = 1483254000" by (simp add: run_from_def)
  have "progress demo_zone 1483254000 1483261200 (str ''s'', demo_value)"
    by (rule daily_progress [where b = 28800 and e = 64800 and act = "[]"]) (simp_all add: demo_value_daily)
  then have p: "list_all (progress demo_zone (run_from 1483261200 ?st) 1483261200) [(str ''s'', demo_value)]"
    unfolding f by simp
  have a: "active (str ''s'', demo_value)" by (simp add: active_def str_def demo_value_def)
  from sched_run_all_correct [of ?st "[(str ''s'', demo_value)]" 1483261200 demo_zone True, OF _ _ _ _ p] a
  show ?thesis by auto
qed

end
