(* ===== verification/TcmHeap.thy ===== *)
theory TcmHeap
  imports Prelude
begin

text \<open>
  The allocator of the tightly coupled memory: \<^verbatim>\<open>os_dep/tcm_heap.c\<close>.  Free chunks form a linked list
  in the memory that they manage, in address order, and are merged when they touch.  The memory is an
  explicit store of 32-bit cells, at byte addresses that are multiples of four, each read as an
  \<^verbatim>\<open>int\<close>; a \<^verbatim>\<open>MemChunk\<close> at address \<open>a\<close> is the cell \<open>a\<close> (\<open>next\<close>) and the cell \<open>a + 4\<close> (\<open>size\<close>).  The
  address of the array \<open>tcm_heap\<close>, which the linker chooses, is the field \<open>tcm_base\<close>.  Each
  operation is a critical section of the code and one step here; the diagnostic output and the
  registration of \<open>tcm_heap_free\<close> with the RTOS are left out.
\<close>

unbundle bit_operations_syntax

section \<open>Store\<close>

record tcm_state =
  tcm_free :: nat
  tcm_mem :: "nat \<Rightarrow> int"
  tcm_inited :: bool
  tcm_base :: nat

definition CHUNK :: nat where "CHUNK = 8"

definition TCM_HEAP_SIZE :: nat where "TCM_HEAP_SIZE = 40 * 1024"

text \<open>
  Where a \<open>next\<close> pointer lives.  The loops begin with \<^verbatim>\<open>prev = (MemChunk *)&h->FreeList\<close>, which makes
  \<^verbatim>\<open>prev->next\<close> the list head, \<open>next\<close> being the first member.
\<close>

datatype tcm_link = Head | Chunk nat

definition get_next :: "tcm_state \<Rightarrow> tcm_link \<Rightarrow> nat" where
  "get_next h l = (case l of Head \<Rightarrow> tcm_free h | Chunk a \<Rightarrow> nat (tcm_mem h a))"

definition store :: "nat \<Rightarrow> int \<Rightarrow> tcm_state \<Rightarrow> tcm_state" where
  "store a v h = h\<lparr>tcm_mem := (tcm_mem h)(a := v)\<rparr>"

definition set_next :: "tcm_link \<Rightarrow> nat \<Rightarrow> tcm_state \<Rightarrow> tcm_state" where
  "set_next l v h = (case l of Head \<Rightarrow> h\<lparr>tcm_free := v\<rparr> | Chunk a \<Rightarrow> store a (int v) h)"

definition get_size :: "tcm_state \<Rightarrow> nat \<Rightarrow> int" where
  "get_size h a = tcm_mem h (a + 4)"

definition set_size :: "nat \<Rightarrow> int \<Rightarrow> tcm_state \<Rightarrow> tcm_state" where
  "set_size a v h = store (a + 4) v h"

section \<open>Operations\<close>

definition tcm_heap_init :: "tcm_state \<Rightarrow> tcm_state" where
  "tcm_heap_init h =
     (let h = h\<lparr>tcm_free := tcm_base h\<rparr>;
          h = set_next (Chunk (tcm_free h)) 0 h;
          h = set_size (tcm_free h) (int TCM_HEAP_SIZE) h
      in h\<lparr>tcm_inited := True\<rparr>)"

definition tcm_enter :: "tcm_state \<Rightarrow> tcm_state" where
  "tcm_enter h = (if tcm_inited h then h else tcm_heap_init h)"

text \<open>\<open>ROUND_UP2\<close> computes on \<^verbatim>\<open>size_t\<close> and the result is stored in an \<^verbatim>\<open>int\<close>.\<close>

definition round_up2 :: "int \<Rightarrow> int" where
  "round_up2 x = signed_take_bit 31 ((x + 7) AND (NOT 7))"

definition chunk_size :: "int \<Rightarrow> int" where
  "chunk_size sz = (let sz = round_up2 sz in if sz = 0 then int CHUNK else sz)"

partial_function (option) alloc_walk :: "tcm_link \<Rightarrow> int \<Rightarrow> tcm_state \<Rightarrow> (nat \<times> tcm_state) option" where
  "alloc_walk prev sz h =
     (let chunk = get_next h prev in
      if chunk = 0 then Some (0, h)
      else if get_size h chunk \<ge> sz then
        if get_size h chunk = sz then Some (chunk, set_next prev (get_next h (Chunk chunk)) h)
        else let h = set_size chunk (get_size h chunk - sz) h
             in Some (nat (int chunk + get_size h chunk), h)
      else alloc_walk (Chunk chunk) sz h)"

definition tcm_heap_allocmem :: "int \<Rightarrow> tcm_state \<Rightarrow> (nat \<times> tcm_state) option" where
  "tcm_heap_allocmem sz h = alloc_walk Head (chunk_size sz) (tcm_enter h)"

partial_function (option) free_walk :: "nat \<Rightarrow> nat \<Rightarrow> tcm_state \<Rightarrow> nat option" where
  "free_walk prev mem h =
     (let next = get_next h (Chunk prev) in
      if next < mem \<and> next \<noteq> 0 then free_walk next mem h else Some prev)"

text \<open>The new chunk before the list, and after the chunk \<open>prev\<close>; the results are the chunk \<open>prev\<close> of the code.\<close>

definition free_first :: "nat \<Rightarrow> int \<Rightarrow> tcm_state \<Rightarrow> nat \<times> tcm_state" where
  "free_first mem sz h =
     (mem, (set_size mem sz (set_next (Chunk mem) (tcm_free h) h))\<lparr>tcm_free := mem\<rparr>)"

definition free_after :: "nat \<Rightarrow> nat \<Rightarrow> int \<Rightarrow> tcm_state \<Rightarrow> nat \<times> tcm_state" where
  "free_after prev mem sz h =
     (if int prev + get_size h prev = int mem then (prev, set_size prev (get_size h prev + sz) h)
      else (mem, set_next (Chunk prev) mem (set_size mem sz (set_next (Chunk mem) (get_next h (Chunk prev)) h))))"

definition merge_next :: "nat \<Rightarrow> tcm_state \<Rightarrow> tcm_state" where
  "merge_next prev h =
     (let next = get_next h (Chunk prev) in
      if int prev + get_size h prev = int next
      then let h = set_size prev (get_size h prev + get_size h next) h
           in set_next (Chunk prev) (get_next h (Chunk next)) h
      else h)"

definition tcm_heap_freemem :: "nat \<Rightarrow> int \<Rightarrow> tcm_state \<Rightarrow> tcm_state option" where
  "tcm_heap_freemem mem sz h =
     (let h = tcm_enter h; sz = chunk_size sz in
      if mem < tcm_free h \<or> tcm_free h = 0 then
        let (prev, h) = free_first mem sz h in Some (merge_next prev h)
      else
        (case free_walk (tcm_free h) mem h of
           None \<Rightarrow> None
         | Some prev \<Rightarrow> let (prev, h) = free_after prev mem sz h in Some (merge_next prev h)))"

partial_function (option) space_walk :: "nat \<Rightarrow> int \<Rightarrow> tcm_state \<Rightarrow> int option" where
  "space_walk chunk free_mem h =
     (if chunk = 0 then Some free_mem
      else space_walk (get_next h (Chunk chunk)) (free_mem + get_size h chunk) h)"

definition tcm_heap_freeSpace :: "tcm_state \<Rightarrow> (int \<times> tcm_state) option" where
  "tcm_heap_freeSpace h = (let h = tcm_enter h in map_option (\<lambda>n. (n, h)) (space_walk (tcm_free h) 0 h))"

definition tcm_heap_malloc :: "int \<Rightarrow> tcm_state \<Rightarrow> (nat \<times> tcm_state) option" where
  "tcm_heap_malloc sz h =
     (let sz = signed_take_bit 31 (sz + 4) in
      case tcm_heap_allocmem sz h of
        None \<Rightarrow> None
      | Some (mem, h) \<Rightarrow> if mem \<noteq> 0 then Some (mem + 4, store mem sz h) else Some (0, h))"

text \<open>\<^verbatim>\<open>memset(p, 0, n)\<close>: of a cell that is partly beyond the end, the low bytes.\<close>

definition zero_fill :: "nat \<Rightarrow> int \<Rightarrow> tcm_state \<Rightarrow> tcm_state" where
  "zero_fill p n h = h\<lparr>tcm_mem := (\<lambda>a.
     if p \<le> a \<and> int a < int p + n then
       (let k = int p + n - int a in
        if k \<ge> 4 then 0 else tcm_mem h a - tcm_mem h a mod 2 ^ (8 * nat k))
     else tcm_mem h a)\<rparr>"

definition tcm_heap_calloc :: "int \<Rightarrow> tcm_state \<Rightarrow> (nat \<times> tcm_state) option" where
  "tcm_heap_calloc sz h =
     (case tcm_heap_malloc sz h of
        None \<Rightarrow> None
      | Some (mem, h) \<Rightarrow> Some (mem, if mem \<noteq> 0 then zero_fill mem sz h else h))"

definition tcm_heap_free :: "nat \<Rightarrow> tcm_state \<Rightarrow> tcm_state option" where
  "tcm_heap_free mem h =
     (if mem \<noteq> 0 then tcm_heap_freemem (mem - 4) (tcm_mem h (mem - 4)) h else Some h)"

section \<open>Free lists\<close>

text \<open>The chunks as a list of addresses and sizes, and how the store represents it.\<close>

type_synonym chunks = "(nat \<times> nat) list"

fun listed :: "tcm_state \<Rightarrow> tcm_link \<Rightarrow> chunks \<Rightarrow> bool" where
  "listed h l [] \<longleftrightarrow> get_next h l = 0"
| "listed h l ((a, s) # fl) \<longleftrightarrow> get_next h l = a \<and> get_size h a = int s \<and> listed h (Chunk a) fl"

text \<open>Within \<open>[lo, hi)\<close>, aligned, in order, and never touching.\<close>

fun spaced :: "nat \<Rightarrow> nat \<Rightarrow> chunks \<Rightarrow> bool" where
  "spaced lo hi [] \<longleftrightarrow> True"
| "spaced lo hi ((a, s) # fl) \<longleftrightarrow>
     lo \<le> a \<and> 0 < a \<and> 8 dvd a \<and> 8 dvd s \<and> 0 < s \<and> a + s \<le> hi \<and> spaced (a + s + 1) hi fl"

fun space :: "chunks \<Rightarrow> nat set" where
  "space [] = {}"
| "space ((a, s) # fl) = {a..<a + s} \<union> space fl"

fun alloc_list :: "nat \<Rightarrow> chunks \<Rightarrow> nat \<times> chunks" where
  "alloc_list n [] = (0, [])"
| "alloc_list n ((a, s) # fl) =
     (if s \<ge> n then if s = n then (a, fl) else (a + (s - n), (a, s - n) # fl)
      else let (p, fl) = alloc_list n fl in (p, (a, s) # fl))"

fun join_next :: "nat \<Rightarrow> nat \<Rightarrow> chunks \<Rightarrow> chunks" where
  "join_next p n [] = [(p, n)]"
| "join_next p n ((a, s) # fl) = (if p + n = a then (p, n + s) # fl else (p, n) # (a, s) # fl)"

fun free_list :: "nat \<Rightarrow> nat \<Rightarrow> chunks \<Rightarrow> chunks" where
  "free_list p n [] = [(p, n)]"
| "free_list p n ((a, s) # fl) =
     (if p < a then join_next p n ((a, s) # fl)
      else if fl \<noteq> [] \<and> fst (hd fl) < p then (a, s) # free_list p n fl
      else if a + s = p then join_next a (s + n) fl
      else (a, s) # join_next p n fl)"

lemma get_next_set [simp]:
  "get_next (set_next l v h) l' = (if l = l' then v else get_next h l')"
  by (auto simp: get_next_def set_next_def store_def split: tcm_link.splits)

lemma get_next_set_size [simp]: "get_next (set_size a v h) l = (if l = Chunk (a + 4) then nat v else get_next h l)"
  by (auto simp: get_next_def set_size_def store_def split: tcm_link.splits)

lemma get_size_set [simp]:
  "get_size (set_size a v h) b = (if a = b then v else get_size h b)"
  "l \<noteq> Chunk (b + 4) \<Longrightarrow> get_size (set_next l w h) b = get_size h b"
  by (auto simp: get_size_def set_size_def set_next_def store_def split: tcm_link.splits)

lemma tcm_free_simps [simp]:
  "tcm_free (set_size a v h) = tcm_free h" "tcm_free (set_next (Chunk q) w h) = tcm_free h"
  "tcm_inited (set_size a v h) = tcm_inited h" "tcm_inited (set_next l w h) = tcm_inited h"
  "tcm_base (set_size a v h) = tcm_base h" "tcm_base (set_next l w h) = tcm_base h"
  by (auto simp: set_size_def set_next_def store_def split: tcm_link.splits)

lemma spaced_mono: "spaced lo hi fl \<Longrightarrow> lo' \<le> lo \<Longrightarrow> spaced lo' hi fl"
  by (cases fl) auto

lemma spaced_above: "spaced lo hi fl \<Longrightarrow> x \<in> space fl \<Longrightarrow> lo \<le> x \<and> x < hi"
  by (induction lo hi fl rule: spaced.induct) force+

lemma spaced_disjoint: "spaced (a + s + 1) hi fl \<Longrightarrow> {a..<a + s} \<inter> space fl = {}"
  using spaced_above by fastforce

lemma listed_frame:
  assumes "\<forall>x \<in> space fl. tcm_mem h' x = tcm_mem h x" "get_next h' l' = get_next h l" "spaced lo hi fl" "listed h l fl"
  shows "listed h' l' fl"
  using assms
proof (induction h l fl arbitrary: lo l' rule: listed.induct)
  case (2 h l a s fl)
  then have s: "8 \<le> s" by (auto elim: dvdE)
  then have "a \<in> space ((a, s) # fl)" "a + 4 \<in> space ((a, s) # fl)" by auto
  then have "tcm_mem h' a = tcm_mem h a" "tcm_mem h' (a + 4) = tcm_mem h (a + 4)" using "2.prems"(1) by auto
  then have "get_next h' (Chunk a) = get_next h (Chunk a)" "get_size h' a = get_size h a"
    by (simp_all add: get_next_def get_size_def)
  moreover have "listed h' (Chunk a) fl"
    using "2.prems" calculation by (intro "2.IH") auto
  ultimately show ?case using "2.prems" by simp
qed simp

lemma spaced_size: "spaced lo hi ((a, s) # fl) \<Longrightarrow> 8 \<le> s"
  by (auto elim: dvdE)

text \<open>The cell of a link lies before the chunks that it leads to.\<close>

fun before :: "tcm_link \<Rightarrow> nat \<Rightarrow> bool" where
  "before Head lo \<longleftrightarrow> True"
| "before (Chunk q) lo \<longleftrightarrow> q + 8 \<le> lo"

text \<open>What a walk from a link leaves alone: other links, and the cells outside the chunks.\<close>

definition same_outside :: "tcm_link \<Rightarrow> nat set \<Rightarrow> tcm_state \<Rightarrow> tcm_state \<Rightarrow> bool" where
  "same_outside l X h h' \<longleftrightarrow>
     (\<forall>x. x \<notin> X \<longrightarrow> l \<noteq> Chunk x \<longrightarrow> tcm_mem h' x = tcm_mem h x) \<and> (l \<noteq> Head \<longrightarrow> tcm_free h' = tcm_free h) \<and>
     tcm_inited h' = tcm_inited h \<and> tcm_base h' = tcm_base h"

lemma same_outside_next: "same_outside l X h h' \<Longrightarrow> l' \<noteq> l \<Longrightarrow> (\<And>q. l' = Chunk q \<Longrightarrow> q \<notin> X) \<Longrightarrow> get_next h' l' = get_next h l'"
  by (cases l') (auto simp: same_outside_def get_next_def)

lemma same_outside_size: "same_outside l X h h' \<Longrightarrow> a + 4 \<notin> X \<Longrightarrow> l \<noteq> Chunk (a + 4) \<Longrightarrow> get_size h' a = get_size h a"
  by (auto simp: same_outside_def get_size_def)

lemma same_outside_refl [simp]: "same_outside l X h h"
  by (simp add: same_outside_def)

lemma same_outside_mono:
  "same_outside l X h h' \<Longrightarrow> X \<subseteq> Y \<Longrightarrow> l' = l \<or> l = Chunk q \<and> q \<in> Y \<and> l' \<noteq> Chunk q \<Longrightarrow> same_outside l' Y h h'"
  by (auto simp: same_outside_def)

lemma same_outside_trans: "same_outside l X h h' \<Longrightarrow> same_outside l X h' h'' \<Longrightarrow> same_outside l X h h''"
  by (auto simp: same_outside_def)

lemma same_outside_store: "a \<in> X \<Longrightarrow> same_outside l X h (store a v h)"
  by (auto simp: same_outside_def store_def)

lemma same_outside_set_next: "same_outside l X h (set_next l v h)"
  by (auto simp: same_outside_def set_next_def store_def split: tcm_link.splits)

lemma same_outside_set_next_in: "q \<in> X \<Longrightarrow> same_outside l X h (set_next (Chunk q) v h)"
  by (auto simp: same_outside_def set_next_def store_def split: tcm_link.splits)

lemma listed_same:
  assumes "listed h l fl" "get_next h' l' = get_next h l" "spaced lo hi fl" "same_outside k X h h'" "before k lo"
    "X \<inter> space fl = {}"
  shows "listed h' l' fl"
proof (rule listed_frame [OF _ assms(2,3,1)], intro ballI)
  fix x assume x: "x \<in> space fl"
  with assms(3) have "lo \<le> x" using spaced_above by blast
  with assms(5) have "k \<noteq> Chunk x" by (cases k) auto
  with x assms(4,6) show "tcm_mem h' x = tcm_mem h x" by (auto simp: same_outside_def)
qed

section \<open>Allocation\<close>

lemma alloc_walk_listed:
  assumes "listed h l fl" "spaced lo hi fl" "before l lo" "0 < n"
  shows "\<exists>h'. alloc_walk l (int n) h = Some (fst (alloc_list n fl), h') \<and> listed h' l (snd (alloc_list n fl)) \<and>
    same_outside l (space fl) h h'"
  using assms
proof (induction h l fl arbitrary: lo rule: listed.induct)
  case (1 h l)
  then show ?case by (subst alloc_walk.simps) simp
next
  case (2 h l a s fl)
  from "2.prems" have a: "get_next h l = a" "get_size h a = int s" "listed h (Chunk a) fl" "0 < a" "l \<noteq> Chunk a"
    and sp: "spaced (a + s + 1) hi fl" and s: "8 \<le> s"
    using spaced_size [of lo hi a s fl] by auto
  consider "s < n" | "s = n" | "n < s" by linarith
  then show ?case
  proof cases
    case 1
    from "2.IH" [OF a(3) sp] s "2.prems"(4) obtain h' where h':
      "alloc_walk (Chunk a) (int n) h = Some (fst (alloc_list n fl), h')" "listed h' (Chunk a) (snd (alloc_list n fl))"
      "same_outside (Chunk a) (space fl) h h'"
      by auto
    have "get_next h' l = a"
      using a "2.prems"(3) same_outside_next [OF h'(3) a(5)] spaced_above [OF sp] "2.prems"(2) by fastforce
    moreover have "get_size h' a = int s"
      using a(2) same_outside_size [OF h'(3), of a] spaced_above [OF sp] s by fastforce
    moreover have "same_outside l (space ((a, s) # fl)) h h'"
      using h'(3) by (rule same_outside_mono) (use a(5) s in auto)
    ultimately show ?thesis using 1 a h'
      by (subst alloc_walk.simps) (auto split: prod.splits)
  next
    case 2
    have "listed (set_next l (get_next h (Chunk a)) h) l fl"
      by (rule listed_same [OF a(3) _ sp same_outside_set_next [of l "{}"]]) (use "2.prems" s in \<open>auto elim!: before.elims\<close>)
    then show ?thesis using 2 a by (subst alloc_walk.simps) (auto simp: same_outside_set_next)
  next
    case 3
    let ?h' = "set_size a (get_size h a - int n) h"
    have f: "same_outside l' {a..<a + s} h ?h'" for l'
      unfolding set_size_def by (rule same_outside_store) (use s in auto)
    have "get_next ?h' l = a"
      using a(1) "2.prems" by (auto elim!: before.elims)
    moreover have "get_size ?h' a = int (s - n)" using a(2) 3 by (simp add: set_size_def store_def get_size_def of_nat_diff)
    moreover have "listed ?h' (Chunk a) fl"
      by (rule listed_same [OF a(3) _ sp f [of Head]]) (use s spaced_disjoint [OF sp] in auto)
    ultimately show ?thesis using 3 a s f [of l]
      by (subst alloc_walk.simps) (auto simp: nat_add_distrib intro: same_outside_mono)
  qed
qed

lemma alloc_list_spaced:
  assumes "spaced lo hi fl" "8 dvd n" "0 < n" "alloc_list n fl = (p, fl')"
  shows "spaced lo hi fl' \<and>
    (if p = 0 then fl' = fl \<and> (\<forall>(a, s) \<in> set fl. s < n)
     else 8 dvd p \<and> {p..<p + n} \<subseteq> space fl \<and> space fl' = space fl - {p..<p + n})"
  using assms
proof (induction lo hi fl arbitrary: p fl' rule: spaced.induct)
  case (2 lo hi a s fl)
  then have sp: "spaced (a + s + 1) hi fl" by simp
  then have above: "\<And>x. x \<in> space fl \<Longrightarrow> a + s < x" using spaced_above by fastforce
  consider "s < n" | "s = n" | "n < s" by linarith
  then show ?case
  proof cases
    case 1
    obtain q gl where q: "alloc_list n fl = (q, gl)" by force
    show ?thesis
    proof (cases "q = 0")
      case True
      with "2.IH" [OF sp "2.prems"(2,3) q] 1 q "2.prems"(1,4) show ?thesis by auto
    next
      case False
      with "2.IH" [OF sp "2.prems"(2,3) q] have i: "spaced (a + s + 1) hi gl" "8 dvd q" "{q..<q + n} \<subseteq> space fl"
        "space gl = space fl - {q..<q + n}" by auto
      have "{a..<a + s} \<union> space gl = {a..<a + s} \<union> space fl - {q..<q + n}"
        using i(3,4) spaced_disjoint [OF sp] by blast
      with False 1 q i "2.prems"(1,4) show ?thesis by auto
    qed
  next
    case 2
    with "2.prems" have "p = a" "fl' = fl" by auto
    moreover have "spaced lo hi fl" by (rule spaced_mono [OF sp]) (use "2.prems" in auto)
    ultimately show ?thesis using 2 "2.prems"(1) above by fastforce
  next
    case 3
    with "2.prems"(4) have e: "p = a + (s - n)" "fl' = (a, s - n) # fl" by auto
    have "8 dvd s - n" "8 dvd a + (s - n)" using "2.prems" by auto
    moreover have "spaced (a + (s - n) + 1) hi fl" by (rule spaced_mono [OF sp]) simp
    ultimately show ?thesis using 3 "2.prems"(1) e above by fastforce
  qed
qed simp

section \<open>Release\<close>

text \<open>The rest of the list, from a chunk on, when a chunk \<open>p\<close> of \<open>n\<close> bytes is merged with its successor.\<close>

lemma merge_next_listed:
  assumes "listed h l ((p, n) # fl)" "spaced (p + n) hi fl" "before l p" "8 \<le> n"
  shows "listed (merge_next p h) l (join_next p n fl) \<and> same_outside l ({p..<p + n} \<union> space fl) h (merge_next p h)"
proof (cases fl)
  case Nil
  with assms have "int p + get_size h p \<noteq> int (get_next h (Chunk p))" by auto
  with assms Nil show ?thesis by (simp add: merge_next_def Let_def)
next
  case (Cons b fl')
  obtain a s where b: "b = (a, s)" by force
  from assms Cons b have p: "get_next h l = p" "get_size h p = int n" "get_next h (Chunk p) = a" "get_size h a = int s"
      "listed h (Chunk a) fl'" and sp: "spaced (a + s + 1) hi fl'" and s: "8 \<le> s" "p + n \<le> a"
    using spaced_size [of "p + n" hi a s fl'] by auto
  show ?thesis
  proof (cases "p + n = a")
    case True
    define g where "g = set_size p (int n + int s) h"
    have m: "merge_next p h = set_next (Chunk p) (get_next h (Chunk a)) g"
      using True p s assms(4) by (simp add: merge_next_def g_def Let_def flip: True)
    have g: "same_outside l' ({p..<p + n} \<union> space fl) h g" for l'
      unfolding g_def set_size_def by (rule same_outside_store) (use assms(4) in auto)
    have f: "same_outside l' ({p..<p + n} \<union> space fl) h (merge_next p h)" for l'
      unfolding m by (rule same_outside_trans [OF g same_outside_set_next_in]) (use assms(4) in auto)
    have "listed (merge_next p h) (Chunk p) fl'"
    proof (rule listed_frame [OF _ _ sp p(5)], intro ballI)
      fix x assume "x \<in> space fl'"
      then have "a + s < x" using spaced_above [OF sp] by fastforce
      then show "tcm_mem (merge_next p h) x = tcm_mem h x"
        using s by (simp add: m g_def set_next_def set_size_def store_def)
    qed (simp add: m)
    moreover have "get_next (merge_next p h) l = p" "get_size (merge_next p h) p = int (n + s)"
      using p(1) assms(3) by (auto simp: m g_def elim!: before.elims)
    ultimately show ?thesis using True Cons b f [of l] by simp
  next
    case False
    with p have "int p + get_size h p \<noteq> int (get_next h (Chunk p))" by simp
    with False assms Cons b show ?thesis by (simp add: merge_next_def Let_def)
  qed
qed

lemma join_next_spaced:
  assumes "spaced (p + n) hi fl" "lo \<le> p" "0 < p" "8 dvd p" "8 dvd n" "0 < n" "p + n \<le> hi"
  shows "spaced lo hi (join_next p n fl) \<and> space (join_next p n fl) = {p..<p + n} \<union> space fl"
proof (cases fl)
  case (Cons b fl')
  obtain a s where b: "b = (a, s)" by force
  with assms Cons have "p + n \<le> a" "spaced (a + s + 1) hi fl'" "8 dvd s" "0 < s" "a + s \<le> hi" "0 < a" "8 dvd a" by auto
  with assms Cons b show ?thesis by (cases "p + n = a") (auto simp: add.assoc)
qed (use assms in auto)

lemma intervals_apart: "p < a \<Longrightarrow> 0 < s \<Longrightarrow> {p..<p + n} \<inter> {a..<a + s} = {} \<Longrightarrow> p + n \<le> (a :: nat)"
proof (rule ccontr)
  assume "p < a" "0 < s" "{p..<p + n} \<inter> {a..<a + s} = {}" "\<not> p + n \<le> a"
  then have "a \<in> {p..<p + n} \<inter> {a..<a + s}" by auto
  with \<open>{p..<p + n} \<inter> {a..<a + s} = {}\<close> show False by simp
qed

lemma intervals_after: "a \<le> p \<Longrightarrow> 0 < n \<Longrightarrow> {p..<p + n} \<inter> {a..<a + s} = {} \<Longrightarrow> a + s \<le> (p :: nat)"
proof (rule ccontr)
  assume "a \<le> p" "0 < n" "{p..<p + n} \<inter> {a..<a + s} = {}" "\<not> a + s \<le> p"
  then have "p \<in> {p..<p + n} \<inter> {a..<a + s}" by auto
  with \<open>{p..<p + n} \<inter> {a..<a + s} = {}\<close> show False by simp
qed

lemma spaced_from:
  assumes "spaced lo hi fl" "fl = [] \<or> m \<le> fst (hd fl)"
  shows "spaced m hi fl"
  using assms by (cases fl) auto

lemma free_list_spaced:
  assumes "spaced lo hi fl" "lo \<le> p" "0 < p" "8 dvd p" "8 dvd n" "0 < n" "p + n \<le> hi" "{p..<p + n} \<inter> space fl = {}"
  shows "spaced lo hi (free_list p n fl) \<and> space (free_list p n fl) = {p..<p + n} \<union> space fl"
  using assms
proof (induction lo hi fl rule: spaced.induct)
  case (2 lo hi a s fl)
  then have sp: "spaced (a + s + 1) hi fl" and a: "lo \<le> a" "0 < a" "8 dvd a" "8 dvd s" "0 < s" "a + s \<le> hi"
    unfolding spaced.simps by blast+
  have d: "{p..<p + n} \<inter> {a..<a + s} = {}" "{p..<p + n} \<inter> space fl = {}"
    using "2.prems"(8) unfolding space.simps by blast+
  have next_apart: "p + n \<le> fst (hd fl)" if "fl \<noteq> []" "p \<le> fst (hd fl)"
  proof -
    obtain b fl' where "fl = b # fl'" using \<open>fl \<noteq> []\<close> by (cases fl) auto
    moreover obtain c t where "b = (c, t)" by (cases b)
    ultimately have fl: "fl = (c, t) # fl'" by simp
    have "0 < t" using sp fl by simp
    moreover have "{p..<p + n} \<inter> {c..<c + t} = {}" using d(2) unfolding fl space.simps by blast
    moreover have "p < c"
    proof (rule ccontr)
      assume "\<not> p < c"
      with that(2) fl have "p = c" by simp
      then have "p \<in> {p..<p + n} \<inter> {c..<c + t}" using \<open>0 < t\<close> "2.prems"(6) by simp
      with \<open>{p..<p + n} \<inter> {c..<c + t} = {}\<close> show False by blast
    qed
    ultimately show ?thesis using intervals_apart [of p c t n] fl by simp
  qed
  show ?case
  proof (cases "p < a")
    case True
    then have "spaced (p + n) hi ((a, s) # fl)"
      using intervals_apart [OF True a(5) d(1)] "2.prems"(1) by (simp del: One_nat_def)
    with True "2.prems" show ?thesis using join_next_spaced [of p n hi "(a, s) # fl" lo] by simp
  next
    case False
    with d(1) "2.prems"(6) have p: "a + s \<le> p" using intervals_after [of a p n s] by simp
    show ?thesis
    proof (cases "fl \<noteq> [] \<and> fst (hd fl) < p")
      case True
      then have "a + s + 1 \<le> p" using sp by (cases fl) auto
      then have "spaced (a + s + 1) hi (free_list p n fl) \<and> space (free_list p n fl) = {p..<p + n} \<union> space fl"
        using "2.prems" sp d by (intro "2.IH") auto
      with False True a show ?thesis by auto
    next
      case last: False
      then have "fl = [] \<or> p + n \<le> fst (hd fl)" using next_apart by (cases "fl = []") simp_all
      then have s': "spaced (p + n) hi fl" by (rule spaced_from [OF sp])
      show ?thesis
      proof (cases "a + s = p")
        case True
        then have "spaced (a + (s + n)) hi fl" using s' by (simp add: add.assoc [symmetric])
        from join_next_spaced [OF this, of lo] True False last a "2.prems" show ?thesis by auto
      next
        case neq: False
        from join_next_spaced [OF s', of "a + s + 1"] neq p False last a "2.prems" show ?thesis by auto
      qed
    qed
  qed
qed simp

text \<open>The part of \<open>tcm_heap_freemem\<close> that follows the walk.\<close>

definition free_at :: "nat \<Rightarrow> nat \<Rightarrow> nat \<Rightarrow> tcm_state \<Rightarrow> tcm_state" where
  "free_at prev p n h = (let (prev, h) = free_after prev p (int n) h in merge_next prev h)"

lemma free_at_listed:
  assumes "listed h l ((a, s) # fl)" "spaced (p + n) hi fl" "before l a" "a + s \<le> p" "8 \<le> s" "8 \<le> n"
  shows "listed (free_at a p n h) l (if a + s = p then join_next a (s + n) fl else (a, s) # join_next p n fl) \<and>
    same_outside l ({a..<a + s} \<union> {p..<p + n} \<union> space fl) h (free_at a p n h)"
proof (cases "a + s = p")
  case True
  define g where "g = set_size a (int s + int n) h"
  from assms(1) True have e: "free_at a p n h = merge_next a g"
    by (auto simp: free_at_def free_after_def g_def)
  have sp: "spaced (a + (s + n)) hi fl" using assms(2) True by (simp add: add.assoc [symmetric])
  have g: "same_outside l ({a..<a + s} \<union> {p..<p + n} \<union> space fl) h g"
    unfolding g_def set_size_def by (rule same_outside_store) (use assms in auto)
  have "listed g (Chunk a) fl"
  proof (rule listed_frame [where h = h and l = "Chunk a", OF _ _ sp], intro ballI)
    fix x assume "x \<in> space fl"
    with spaced_above [OF assms(2)] True assms(5) have "x \<noteq> a + 4" by fastforce
    then show "tcm_mem g x = tcm_mem h x" by (simp add: g_def set_size_def store_def)
  qed (use assms(1) in \<open>simp_all add: g_def\<close>)
  then have "listed g l ((a, s + n) # fl)"
    using assms(1,3) by (auto simp: g_def elim!: before.elims)
  then have m: "listed (merge_next a g) l (join_next a (s + n) fl)" "same_outside l ({a..<a + (s + n)} \<union> space fl) g (merge_next a g)"
    using merge_next_listed [OF _ sp assms(3)] assms(5) by simp_all
  have "{a..<a + (s + n)} \<union> space fl = {a..<a + s} \<union> {p..<p + n} \<union> space fl" using True by auto
  with m True show ?thesis
    unfolding e using same_outside_trans [OF g] by simp
next
  case False
  define g where "g = set_next (Chunk a) p (set_size p (int n) (set_next (Chunk p) (get_next h (Chunk a)) h))"
  from assms(1,4) False have e: "free_at a p n h = merge_next p g"
    by (auto simp: free_at_def free_after_def g_def)
  have g: "same_outside l' ({a..<a + s} \<union> {p..<p + n} \<union> space fl) h g" for l'
    unfolding g_def set_size_def
    by (intro same_outside_trans [OF same_outside_trans [OF same_outside_set_next_in same_outside_store] same_outside_set_next_in])
      (use assms in auto)
  have "listed g (Chunk p) fl"
  proof (rule listed_frame [where h = h and l = "Chunk a", OF _ _ assms(2)], intro ballI)
    fix x assume "x \<in> space fl"
    with spaced_above [OF assms(2)] have "p + n \<le> x" by blast
    with assms(4-6) show "tcm_mem g x = tcm_mem h x" by (simp add: g_def set_size_def set_next_def store_def)
  qed (use assms in \<open>auto simp: g_def\<close>)
  then have l: "listed g (Chunk a) ((p, n) # fl)" using assms(4,5,6) by (simp add: g_def)
  have "before (Chunk a) p" using assms(4,5) by simp
  from merge_next_listed [OF l assms(2) this assms(6)] 
  have m: "listed (merge_next p g) (Chunk a) (join_next p n fl)" "same_outside (Chunk a) ({p..<p + n} \<union> space fl) g (merge_next p g)"
    by auto
  have "get_next (merge_next p g) l = a"
  proof -
    have "get_next (merge_next p g) l = get_next g l"
      by (rule same_outside_next [OF m(2)])
        (use assms(3,4) spaced_above [OF assms(2)] \<open>8 \<le> s\<close> in \<open>fastforce elim!: before.elims\<close>)+
    also have "\<dots> = a" using assms(1,3,4) \<open>8 \<le> s\<close> by (auto simp: g_def elim!: before.elims)
    finally show ?thesis .
  qed
  moreover have "get_size (merge_next p g) a = int s"
  proof -
    have "get_size (merge_next p g) a = get_size g a"
      by (rule same_outside_size [OF m(2)]) (use assms(4) spaced_above [OF assms(2)] \<open>8 \<le> s\<close> in fastforce)+
    also have "\<dots> = int s" using assms(1,4) \<open>8 \<le> s\<close> by (auto simp: g_def)
    finally show ?thesis .
  qed
  ultimately have "listed (merge_next p g) l ((a, s) # join_next p n fl)" using m(1) by simp
  moreover have "same_outside l ({a..<a + s} \<union> {p..<p + n} \<union> space fl) h (merge_next p g)"
    by (rule same_outside_trans [OF g]) (use m(2) in \<open>rule same_outside_mono\<close>, use assms(3,5) in \<open>auto elim!: before.elims\<close>)
  ultimately show ?thesis using False e by simp
qed

lemma free_walk_listed:
  assumes "listed h l ((a, s) # fl)" "spaced lo hi ((a, s) # fl)" "before l lo" "a + s \<le> p" "8 dvd n" "0 < n"
    "{p..<p + n} \<inter> space fl = {}"
  shows "\<exists>q. free_walk a p h = Some q \<and> listed (free_at q p n h) l (free_list p n ((a, s) # fl)) \<and>
    same_outside l ({p..<p + n} \<union> space ((a, s) # fl)) h (free_at q p n h)"
  using assms
proof (induction fl arbitrary: l a s lo)
  case Nil
  then have w: "free_walk a p h = Some a" by (subst free_walk.simps) simp
  have "8 \<le> n" "8 \<le> s" "before l a" using Nil by (auto elim: dvdE elim!: before.elims)
  then have "listed (free_at a p n h) l (if a + s = p then join_next a (s + n) [] else (a, s) # join_next p n []) \<and>
    same_outside l ({a..<a + s} \<union> {p..<p + n} \<union> space []) h (free_at a p n h)"
    using Nil by (intro free_at_listed) auto
  with w Nil.prems(4,2) show ?case by (auto simp: Un_commute)
next
  case (Cons b fl)
  obtain c t where b: "b = (c, t)" by (cases b)
  have l: "get_next h l = a" "get_size h a = int s" "get_next h (Chunk a) = c" "listed h (Chunk a) ((c, t) # fl)"
    using Cons.prems(1) b by simp_all
  have sp: "spaced (a + s + 1) hi ((c, t) # fl)" and c: "a + s < c" "0 < c" "0 < t" "8 \<le> s" "lo \<le> a" "0 < s"
    using Cons.prems(2) b spaced_size [OF Cons.prems(2)] by simp_all
  have d: "{p..<p + n} \<inter> {c..<c + t} = {}" "{p..<p + n} \<inter> space fl = {}"
    using Cons.prems(7) unfolding b space.simps by blast+
  have n: "8 \<le> n" using Cons.prems(5,6) by (auto elim: dvdE)
  show ?case
  proof (cases "c < p")
    case True
    then have ct: "c + t \<le> p" using intervals_after [OF _ Cons.prems(6) d(1)] by simp
    have "before (Chunk a) (a + s + 1)" using c(4) by simp
    from Cons.IH [OF l(4) sp this ct Cons.prems(5,6) d(2)] obtain q where q: "free_walk c p h = Some q"
      "listed (free_at q p n h) (Chunk a) (free_list p n ((c, t) # fl))"
      "same_outside (Chunk a) ({p..<p + n} \<union> space ((c, t) # fl)) h (free_at q p n h)"
      by blast
    let ?X = "{p..<p + n} \<union> space ((c, t) # fl)"
    have above: "x \<in> ?X \<Longrightarrow> a + s < x" for x
      using spaced_above [OF sp, of x] ct c by (simp del: space.simps) linarith
    have "get_next (free_at q p n h) l = a"
      using l(1) Cons.prems(3) c(4-6) same_outside_next [OF q(3), of l] above by (cases l) fastforce+
    moreover have "get_size (free_at q p n h) a = int s"
    proof -
      have "a + 4 \<notin> ?X" using above [of "a + 4"] c(4) by auto
      then have "get_size (free_at q p n h) a = get_size h a"
        by (rule same_outside_size [OF q(3)]) simp
      with l(2) show ?thesis by simp
    qed
    moreover have "same_outside l ({p..<p + n} \<union> space ((a, s) # b # fl)) h (free_at q p n h)"
    proof (rule same_outside_mono [OF q(3)])
      show "?X \<subseteq> {p..<p + n} \<union> space ((a, s) # b # fl)" by (auto simp: b)
      show "l = Chunk a \<or> Chunk a = Chunk a \<and> a \<in> {p..<p + n} \<union> space ((a, s) # b # fl) \<and> l \<noteq> Chunk a"
        using c(6) by auto
    qed
    moreover have "free_walk a p h = Some q"
      using True c q(1) l(3) by (subst free_walk.simps) simp
    moreover have "free_list p n ((a, s) # b # fl) = (a, s) # free_list p n ((c, t) # fl)"
      using True Cons.prems(4) b by simp
    ultimately show ?thesis using q(2) by (simp del: free_list.simps space.simps)
  next
    case False
    have "c \<noteq> p"
    proof
      assume "c = p"
      then have "p \<in> {p..<p + n} \<inter> {c..<c + t}" using c(3) Cons.prems(6) by simp
      with d(1) show False by blast
    qed
    with False have pc: "p + n \<le> c" using intervals_apart [OF _ c(3) d(1)] by simp
    have w: "free_walk a p h = Some a" using False l(3) by (subst free_walk.simps) simp
    have "spaced (p + n) hi (b # fl)" using sp pc b by (intro spaced_from [OF sp [folded b]]) simp
    moreover have "before l a" using Cons.prems(3) c(5) by (cases l) auto
    ultimately have "listed (free_at a p n h) l (if a + s = p then join_next a (s + n) (b # fl) else (a, s) # join_next p n (b # fl)) \<and>
      same_outside l ({a..<a + s} \<union> {p..<p + n} \<union> space (b # fl)) h (free_at a p n h)"
      using Cons.prems(1,4) c(4) n by (intro free_at_listed)
    moreover have "free_list p n ((a, s) # b # fl) = (if a + s = p then join_next a (s + n) (b # fl) else (a, s) # join_next p n (b # fl))"
      using False Cons.prems(4) b by simp
    moreover have "{p..<p + n} \<union> space ((a, s) # b # fl) = {a..<a + s} \<union> {p..<p + n} \<union> space (b # fl)" by auto
    ultimately show ?thesis using w by (simp del: free_list.simps space.simps)
  qed
qed

section \<open>The heap\<close>

text \<open>The array lies at an aligned address below 2^31, as the linker script places it.\<close>

definition base_ok :: "tcm_state \<Rightarrow> bool" where
  "base_ok h \<longleftrightarrow> 8 dvd tcm_base h \<and> 0 < tcm_base h \<and> tcm_base h + TCM_HEAP_SIZE < 2 ^ 31"

abbreviation heap_end :: "tcm_state \<Rightarrow> nat" where
  "heap_end h \<equiv> tcm_base h + TCM_HEAP_SIZE"

text \<open>The free list of a heap; before the first call it is the whole array.\<close>

definition heap_is :: "tcm_state \<Rightarrow> chunks \<Rightarrow> bool" where
  "heap_is h fl \<longleftrightarrow> base_ok h \<and> listed (tcm_enter h) Head fl \<and> spaced (tcm_base h) (heap_end h) fl"

lemma tcm_enter_simps [simp]:
  "tcm_inited (tcm_enter h)" "tcm_base (tcm_enter h) = tcm_base h" "tcm_enter (tcm_enter h) = tcm_enter h"
  by (auto simp: tcm_enter_def tcm_heap_init_def Let_def)

lemma tcm_enter_inited: "tcm_inited h \<Longrightarrow> tcm_enter h = h"
  by (simp add: tcm_enter_def)

lemma fresh_listed: "\<not> tcm_inited h \<Longrightarrow> heap_is h fl \<Longrightarrow> fl = [(tcm_base h, TCM_HEAP_SIZE)]"
proof -
  assume f: "\<not> tcm_inited h" "heap_is h fl"
  have e: "get_next (tcm_enter h) Head = tcm_base h" "get_next (tcm_enter h) (Chunk (tcm_base h)) = 0"
      "get_size (tcm_enter h) (tcm_base h) = int TCM_HEAP_SIZE"
    using f(1) by (simp_all add: tcm_enter_def tcm_heap_init_def Let_def get_next_def get_size_def set_next_def set_size_def store_def)
  have l: "listed (tcm_enter h) Head fl" "tcm_base h \<noteq> 0" "spaced (tcm_base h) (heap_end h) fl"
    using f(2) by (simp_all add: heap_is_def base_ok_def)
  show ?thesis
  proof (cases fl)
    case (Cons b gl)
    obtain a s where b: "b = (a, s)" by (cases b)
    with l e Cons have as: "a = tcm_base h" "s = TCM_HEAP_SIZE" "listed (tcm_enter h) (Chunk (tcm_base h)) gl" by simp_all
    have "gl = []"
    proof (cases gl)
      case (Cons c gl')
      obtain d t where "c = (d, t)" by (cases c)
      then show ?thesis using as(3) l(3) e(2) \<open>fl = b # gl\<close> b Cons by simp
    qed
    with as b Cons show ?thesis by simp
  qed (use l e in simp)
qed

lemma heap_is_fresh: "\<not> tcm_inited h \<Longrightarrow> base_ok h \<Longrightarrow> heap_is h [(tcm_base h, TCM_HEAP_SIZE)]"
  by (auto simp: heap_is_def tcm_enter_def tcm_heap_init_def Let_def get_next_def get_size_def set_next_def set_size_def
      store_def base_ok_def TCM_HEAP_SIZE_def)

lemma same_outside_enter:
  assumes "heap_is h fl"
  shows "same_outside Head (space fl) h (tcm_enter h) \<or> \<not> tcm_inited h"
    "\<And>x. x \<notin> space fl \<Longrightarrow> tcm_mem (tcm_enter h) x = tcm_mem h x"
proof -
  show "same_outside Head (space fl) h (tcm_enter h) \<or> \<not> tcm_inited h"
    by (cases "tcm_inited h") (simp_all add: tcm_enter_inited)
  fix x assume x: "x \<notin> space fl"
  show "tcm_mem (tcm_enter h) x = tcm_mem h x"
  proof (cases "tcm_inited h")
    case False
    with assms have "fl = [(tcm_base h, TCM_HEAP_SIZE)]"
      by (intro fresh_listed)
    with x False show ?thesis
      by (auto simp: tcm_enter_def tcm_heap_init_def Let_def set_next_def set_size_def store_def TCM_HEAP_SIZE_def)
  qed (simp add: tcm_enter_inited)
qed

lemma and_not_7: "(x :: int) AND NOT 7 = 8 * (x div 8)"
proof -
  have "x AND NOT (mask 3) = push_bit 3 (drop_bit 3 x)"
    by (rule bit_eqI) (auto simp: bit_simps)
  then show ?thesis by (simp add: push_bit_eq_mult drop_bit_eq_div mask_eq_exp_minus_1 mult.commute)
qed

lemma chunk_size_nat:
  assumes "0 \<le> x" "x \<le> 2 ^ 31 - 8"
  shows "\<exists>n. chunk_size x = int n \<and> 8 dvd n \<and> 0 < n \<and> x \<le> int n \<and> int n \<le> x + 8"
proof -
  have a: "(x + 7) AND NOT 7 = 8 * ((x + 7) div 8)" by (rule and_not_7)
  have b: "signed_take_bit 31 (8 * ((x + 7) div 8)) = 8 * ((x + 7) div 8)"
    using assms by (intro signed_take_bit_int_eq_self) simp_all
  have r: "round_up2 x = 8 * ((x + 7) div 8)" unfolding round_up2_def a b ..
  show ?thesis
  proof (cases "x = 0")
    case True
    with r have "chunk_size x = int 8" by (simp add: chunk_size_def CHUNK_def)
    with True show ?thesis by (intro exI [of _ 8]) simp
  next
    case False
    with assms have "0 < (x + 7) div 8" by linarith
    then have "chunk_size x = int (8 * nat ((x + 7) div 8))" by (simp add: chunk_size_def r)
    moreover have "x \<le> 8 * ((x + 7) div 8)" "8 * ((x + 7) div 8) \<le> x + 7" by linarith+
    ultimately show ?thesis using \<open>0 < (x + 7) div 8\<close>
      by (intro exI [of _ "8 * nat ((x + 7) div 8)"]) simp
  qed
qed

lemma run_in_chunk:
  assumes "spaced lo hi fl" "{q..<q + n} \<subseteq> space fl" "0 < n"
  shows "\<exists>(a, s) \<in> set fl. n \<le> s"
  using assms
proof (induction lo hi fl rule: spaced.induct)
  case (2 lo hi a s fl)
  have sp: "spaced (a + s + 1) hi fl" using "2.prems"(1) by simp
  have above: "x \<in> space fl \<Longrightarrow> a + s < x" for x using spaced_above [OF sp, of x] by simp
  show ?case
  proof (cases "q < a + s")
    case True
    have "q \<in> space ((a, s) # fl)" using "2.prems"(2,3) by (auto simp del: space.simps)
    with True have "a \<le> q" using above [of q] by auto
    have "a + s \<notin> {q..<q + n}" using "2.prems"(2) above [of "a + s"] by auto
    with True have "q + n \<le> a + s" by auto
    with \<open>a \<le> q\<close> show ?thesis by auto
  next
    case False
    then have "{q..<q + n} \<subseteq> space fl" using "2.prems"(2) by auto
    with "2.IH" [OF sp _ "2.prems"(3)] show ?thesis by auto
  qed
qed simp

lemma allocmem_ok:
  assumes "heap_is h fl" "0 \<le> x" "x \<le> 2 ^ 31 - 8"
  obtains n p fl' h' where "chunk_size x = int n" "8 dvd n" "0 < n" "x \<le> int n" "int n \<le> x + 8"
    "tcm_heap_allocmem x h = Some (p, h')" "alloc_list n fl = (p, fl')" "heap_is h' fl'" "tcm_inited h'"
    "tcm_base h' = tcm_base h" "\<And>x. x \<notin> space fl \<Longrightarrow> tcm_mem h' x = tcm_mem h x"
proof -
  from chunk_size_nat [OF assms(2,3)] obtain n where n: "chunk_size x = int n" "8 dvd n" "0 < n" "x \<le> int n" "int n \<le> x + 8"
    by blast
  obtain p fl' where p: "alloc_list n fl = (p, fl')" by (cases "alloc_list n fl")
  from assms(1) have h: "base_ok h" "listed (tcm_enter h) Head fl" "spaced (tcm_base h) (heap_end h) fl"
    by (simp_all add: heap_is_def)
  from alloc_walk_listed [OF h(2,3) _ n(3)] p obtain h' where h': "alloc_walk Head (int n) (tcm_enter h) = Some (p, h')"
    "listed h' Head fl'" "same_outside Head (space fl) (tcm_enter h) h'"
    by auto
  have "spaced (tcm_base h) (heap_end h) fl'" using alloc_list_spaced [OF h(3) n(2,3) p] by simp
  moreover have i: "tcm_inited h'" "tcm_base h' = tcm_base h" using h'(3) by (simp_all add: same_outside_def)
  ultimately have "heap_is h' fl'" using h h'(2) by (simp add: heap_is_def base_ok_def tcm_enter_inited)
  moreover have "\<And>x. x \<notin> space fl \<Longrightarrow> tcm_mem h' x = tcm_mem h x"
    using h'(3) same_outside_enter(2) [OF assms(1)] by (simp add: same_outside_def)
  ultimately show thesis
    using that n p h' i by (simp add: tcm_heap_allocmem_def)
qed

lemma freemem_ok:
  assumes "heap_is h fl" "chunk_size x = int n" "8 dvd n" "0 < n" "8 dvd p" "tcm_base h \<le> p" "p + n \<le> heap_end h"
    "{p..<p + n} \<inter> space fl = {}"
  obtains fl' h' where "tcm_heap_freemem p x h = Some h'" "heap_is h' fl'" "space fl' = {p..<p + n} \<union> space fl" "tcm_inited h'"
    "tcm_base h' = tcm_base h" "\<And>x. x \<notin> {p..<p + n} \<union> space fl \<Longrightarrow> tcm_mem h' x = tcm_mem h x"
proof -
  from assms(1) have h: "base_ok h" "listed (tcm_enter h) Head fl" "spaced (tcm_base h) (heap_end h) fl"
    by (simp_all add: heap_is_def)
  have p0: "0 < p" and n8: "8 \<le> n" using h(1) assms(3,4,6) by (auto simp: base_ok_def elim: dvdE)
  have sp: "spaced (tcm_base h) (heap_end h) (free_list p n fl)" "space (free_list p n fl) = {p..<p + n} \<union> space fl"
    using free_list_spaced [OF h(3) assms(6) p0 assms(5,3,4,7,8)] by auto
  let ?g = "tcm_enter h"
  have "\<exists>h'. tcm_heap_freemem p x h = Some h' \<and> listed h' Head (free_list p n fl) \<and> same_outside Head ({p..<p + n} \<union> space fl) ?g h'"
  proof (cases "fl = [] \<or> p < fst (hd fl)")
    case True
    define g' where "g' = (set_size p (int n) (set_next (Chunk p) (tcm_free ?g) ?g))\<lparr>tcm_free := p\<rparr>"
    have c: "p < tcm_free ?g \<or> tcm_free ?g = 0"
      using True h(2) by (cases fl) (auto simp: get_next_def)
    have s: "spaced (p + n) (heap_end h) fl"
    proof (rule spaced_from [OF h(3)])
      show "fl = [] \<or> p + n \<le> fst (hd fl)"
      proof (cases fl)
        case (Cons b gl)
        obtain a t where b: "b = (a, t)" by (cases b)
        have "0 < t" using h(3) Cons b by simp
        moreover have "{p..<p + n} \<inter> {a..<a + t} = {}" using assms(8) unfolding Cons b space.simps by blast
        ultimately show ?thesis using intervals_apart [of p a t n] True Cons b by simp
      qed simp
    qed
    have "listed g' (Chunk p) fl"
    proof (rule listed_frame [where h = ?g and l = Head, OF _ _ h(3,2)], intro ballI)
      fix y assume "y \<in> space fl"
      with spaced_above [OF s] have "p + n \<le> y" by blast
      with n8 show "tcm_mem g' y = tcm_mem ?g y" by (simp add: g'_def set_size_def set_next_def store_def)
    qed (simp add: g'_def get_next_def set_size_def set_next_def store_def)
    then have l: "listed g' Head ((p, n) # fl)"
      by (simp add: g'_def get_next_def get_size_def set_size_def set_next_def store_def)
    have g: "same_outside Head ({p..<p + n} \<union> space fl) ?g g'"
      using n8 by (auto simp: same_outside_def g'_def set_size_def set_next_def store_def)
    from merge_next_listed [OF l s _ n8] have "listed (merge_next p g') Head (join_next p n fl)"
      "same_outside Head ({p..<p + n} \<union> space fl) g' (merge_next p g')" by simp_all
    moreover have "join_next p n fl = free_list p n fl" using True by (cases fl) auto
    moreover have "tcm_heap_freemem p x h = Some (merge_next p g')"
      using c by (simp add: tcm_heap_freemem_def free_first_def assms(2) g'_def Let_def)
    ultimately show ?thesis using same_outside_trans [OF g] by auto
  next
    case False
    then obtain b gl where "fl = b # gl" by (cases fl) auto
    moreover obtain a s where "b = (a, s)" by (cases b)
    ultimately have fl: "fl = (a, s) # gl" by simp
    have f: "tcm_free ?g = a" "\<not> p < a" "a \<noteq> 0" using False h fl by (auto simp: get_next_def)
    have d: "{p..<p + n} \<inter> {a..<a + s} = {}" "{p..<p + n} \<inter> space gl = {}"
      using assms(8) unfolding fl space.simps by blast+
    have "a + s \<le> p" using intervals_after [OF _ assms(4) d(1)] f by simp
    from free_walk_listed [OF h(2) [unfolded fl] h(3) [unfolded fl] _ this assms(3,4) d(2)]
    obtain q where "free_walk a p ?g = Some q" "listed (free_at q p n ?g) Head (free_list p n fl)"
      "same_outside Head ({p..<p + n} \<union> space fl) ?g (free_at q p n ?g)"
      unfolding fl by auto
    with f show ?thesis by (simp add: tcm_heap_freemem_def assms(2) free_at_def Let_def split: prod.splits)
  qed
  then obtain h' where h': "tcm_heap_freemem p x h = Some h'" "listed h' Head (free_list p n fl)"
    "same_outside Head ({p..<p + n} \<union> space fl) ?g h'" by blast
  have i: "tcm_inited h'" "tcm_base h' = tcm_base h" using h'(3) by (simp_all add: same_outside_def)
  have "heap_is h' (free_list p n fl)" using h h'(2) i sp by (simp add: heap_is_def base_ok_def tcm_enter_inited)
  moreover have "\<And>x. x \<notin> {p..<p + n} \<union> space fl \<Longrightarrow> tcm_mem h' x = tcm_mem h x"
    using h'(3) same_outside_enter(2) [OF assms(1)] by (simp add: same_outside_def)
  ultimately show thesis using that h' i sp by blast
qed

section \<open>Clients\<close>

text \<open>
  A client of the allocator: it allocates, releases a block that it holds, and stores into the cells
  of its blocks.  It holds a list of pointers with the sizes it asked for; a call that it may not
  make, because it holds no such block, is skipped.
\<close>

datatype client_op = Malloc nat | Free nat | Store nat nat int

fun client_step ::
  "(nat \<Rightarrow> 'h \<Rightarrow> (nat \<times> 'h) option) \<Rightarrow> (nat \<Rightarrow> 'h \<Rightarrow> 'h option) \<Rightarrow> (nat \<Rightarrow> int \<Rightarrow> 'h \<Rightarrow> 'h) \<Rightarrow>
   client_op \<Rightarrow> 'h \<times> (nat \<times> nat) list \<Rightarrow> ('h \<times> (nat \<times> nat) list) option" where
  "client_step m f w (Malloc n) (h, live) =
     map_option (\<lambda>(p, h). (h, if p = 0 then live else (p, n) # live)) (m n h)"
| "client_step m f w (Free i) (h, live) =
     (if i < length live then map_option (\<lambda>h. (h, take i live @ drop (Suc i) live)) (f (fst (live ! i)) h)
      else Some (h, live))"
| "client_step m f w (Store i k v) (h, live) =
     (if i < length live \<and> 4 * k + 4 \<le> snd (live ! i) then Some (w (fst (live ! i) + 4 * k) v h, live)
      else Some (h, live))"

fun client_run where
  "client_run m f w [] st = Some st"
| "client_run m f w (c # cs) st = (case client_step m f w c st of None \<Rightarrow> None | Some st \<Rightarrow> client_run m f w cs st)"

definition payload :: "nat \<times> nat \<Rightarrow> nat set" where
  "payload b = {fst b..<fst b + snd b}"

text \<open>
  What such an allocator promises.  \<open>block h p\<close> is the memory of the block with the pointer \<open>p\<close>,
  which depends on one cell of the block outside the client's part, \<open>meta p\<close>.
\<close>

locale allocator =
  fixes ok :: "'h \<Rightarrow> bool" and free :: "'h \<Rightarrow> nat set" and cell :: "'h \<Rightarrow> nat \<Rightarrow> int" and arena :: "'h \<Rightarrow> nat set"
    and malloc :: "nat \<Rightarrow> 'h \<Rightarrow> (nat \<times> 'h) option" and release :: "nat \<Rightarrow> 'h \<Rightarrow> 'h option"
    and put :: "nat \<Rightarrow> int \<Rightarrow> 'h \<Rightarrow> 'h"
    and block :: "'h \<Rightarrow> nat \<Rightarrow> nat set" and meta :: "nat \<Rightarrow> nat" and good :: "'h \<Rightarrow> nat \<Rightarrow> bool" and limit :: nat
  assumes malloc: "ok h \<Longrightarrow> n \<le> limit \<Longrightarrow> \<exists>p h'. malloc n h = Some (p, h') \<and> ok h' \<and> arena h' = arena h \<and>
      (\<forall>x. x \<notin> free h \<longrightarrow> cell h' x = cell h x) \<and>
      (if p = 0 then free h' = free h
       else good h' p \<and> block h' p \<subseteq> free h \<and> free h' = free h - block h' p \<and> payload (p, n) \<subseteq> block h' p - {meta p})"
    and release: "ok h \<Longrightarrow> good h p \<Longrightarrow> block h p \<inter> free h = {} \<Longrightarrow> block h p \<subseteq> arena h \<Longrightarrow>
      \<exists>h'. release p h = Some h' \<and> ok h' \<and> arena h' = arena h \<and> free h' = block h p \<union> free h \<and>
      (\<forall>x. x \<notin> block h p \<union> free h \<longrightarrow> cell h' x = cell h x)"
    and put: "ok h \<Longrightarrow> a \<notin> free h \<Longrightarrow> ok (put a v h) \<and> free (put a v h) = free h \<and> arena (put a v h) = arena h \<and>
      (\<forall>x. x \<noteq> a \<longrightarrow> cell (put a v h) x = cell h x)"
    and block_cell: "cell h' (meta p) = cell h (meta p) \<Longrightarrow> arena h' = arena h \<Longrightarrow> good h p \<Longrightarrow>
      block h' p = block h p \<and> good h' p"
    and meta_in: "good h p \<Longrightarrow> meta p \<in> block h p"
begin

text \<open>The blocks that the client holds and the free memory are a partition of the arena.\<close>

definition blocks :: "'h \<Rightarrow> (nat \<times> nat) list \<Rightarrow> nat set" where
  "blocks h live = (\<Union>b \<in> set live. block h (fst b))"

definition apart :: "'h \<Rightarrow> (nat \<times> nat) list \<Rightarrow> bool" where
  "apart h live \<longleftrightarrow> sorted_wrt (\<lambda>b c. block h (fst b) \<inter> block h (fst c) = {}) live"

definition held :: "'h \<Rightarrow> nat \<times> nat \<Rightarrow> bool" where
  "held h b \<longleftrightarrow> good h (fst b) \<and> payload b \<subseteq> block h (fst b) - {meta (fst b)}"

definition holds :: "'h \<Rightarrow> (nat \<times> nat) list \<Rightarrow> bool" where
  "holds h live \<longleftrightarrow> ok h \<and> (\<forall>b \<in> set live. held h b) \<and> apart h live \<and>
     blocks h live \<inter> free h = {} \<and> free h \<union> blocks h live = arena h"

lemma blocks_keep:
  assumes "\<forall>b \<in> set live. held h b \<and> cell h' (meta (fst b)) = cell h (meta (fst b))" "arena h' = arena h"
  shows "blocks h' live = blocks h live" "apart h' live = apart h live" "\<forall>b \<in> set live. held h' b"
proof -
  have b: "block h' (fst b) = block h (fst b) \<and> good h' (fst b)" if "b \<in> set live" for b
    using assms that block_cell [OF _ assms(2), of "fst b"] by (simp add: held_def)
  then show "blocks h' live = blocks h live" by (simp add: blocks_def)
  show "apart h' live = apart h live"
    using b by (simp add: apart_def sorted_wrt_iff_nth_less)
  show "\<forall>b \<in> set live. held h' b" using b assms(1) by (simp add: held_def)
qed

lemma meta_blocks: "held h b \<Longrightarrow> b \<in> set live \<Longrightarrow> meta (fst b) \<in> blocks h live"
  using meta_in by (auto simp: held_def blocks_def)

lemma holds_malloc:
  assumes "holds h live" "n \<le> limit"
  shows "\<exists>h' live'. client_step malloc release put (Malloc n) (h, live) = Some (h', live') \<and> holds h' live' \<and>
    arena h' = arena h"
proof -
  from assms(1) have h: "ok h" "\<forall>b \<in> set live. held h b" "apart h live" "blocks h live \<inter> free h = {}"
    "free h \<union> blocks h live = arena h" by (simp_all add: holds_def)
  from malloc [OF h(1) assms(2)] obtain p h' where p: "malloc n h = Some (p, h')" "ok h'" "arena h' = arena h"
    "\<forall>x. x \<notin> free h \<longrightarrow> cell h' x = cell h x"
    "if p = 0 then free h' = free h
       else good h' p \<and> block h' p \<subseteq> free h \<and> free h' = free h - block h' p \<and> payload (p, n) \<subseteq> block h' p - {meta p}"
    by blast
  have "\<forall>b \<in> set live. held h b \<and> cell h' (meta (fst b)) = cell h (meta (fst b))"
    using h(2,4) p(4) meta_blocks by blast
  note keep = blocks_keep [OF this p(3)]
  show ?thesis
  proof (cases "p = 0")
    case True
    with h p keep have "holds h' live" by (simp add: holds_def)
    with True p show ?thesis by simp
  next
    case False
    with p(5) have q: "good h' p" "block h' p \<subseteq> free h" "free h' = free h - block h' p" "payload (p, n) \<subseteq> block h' p - {meta p}"
      by simp_all
    have bl: "blocks h' ((p, n) # live) = block h' p \<union> blocks h live" using keep(1) by (simp add: blocks_def)
    have "\<forall>b \<in> set live. block h' p \<inter> block h' (fst b) = {}"
    proof
      fix c assume "c \<in> set live"
      then have "block h' (fst c) \<subseteq> blocks h live" unfolding keep(1) [symmetric] by (auto simp: blocks_def)
      with q(2) h(4) show "block h' p \<inter> block h' (fst c) = {}" by blast
    qed
    then have "apart h' ((p, n) # live)" using keep(2) h(3) by (simp add: apart_def)
    moreover have "\<forall>b \<in> set ((p, n) # live). held h' b" using q keep(3) by (auto simp: held_def)
    moreover have "blocks h' ((p, n) # live) \<inter> free h' = {}" using bl q(3) h(4) by blast
    moreover have "free h' \<union> blocks h' ((p, n) # live) = arena h'" using bl q(2,3) h(5) p(3) by blast
    ultimately have "holds h' ((p, n) # live)" using p(2) by (simp add: holds_def)
    with False p show ?thesis by simp
  qed
qed

lemma holds_free:
  assumes "holds h live"
  shows "\<exists>h' live'. client_step malloc release put (Free i) (h, live) = Some (h', live') \<and> holds h' live' \<and>
    arena h' = arena h"
proof (cases "i < length live")
  case True
  define b where "b = live ! i"
  define rest where "rest = take i live @ drop (Suc i) live"
  have live: "live = take i live @ b # drop (Suc i) live" using True by (simp add: b_def id_take_nth_drop)
  from assms have h: "ok h" "\<forall>b \<in> set live. held h b" "apart h live" "blocks h live \<inter> free h = {}"
    "free h \<union> blocks h live = arena h" by (simp_all add: holds_def)
  have set_live: "set live = insert b (set rest)" unfolding rest_def by (subst live) auto
  then have bl: "blocks h live = block h (fst b) \<union> blocks h rest" by (simp add: blocks_def)
  have "apart h (take i live @ b # drop (Suc i) live)" using h(3) live by simp
  then have ap: "apart h rest" "block h (fst b) \<inter> blocks h rest = {}"
    unfolding rest_def apart_def blocks_def sorted_wrt_append sorted_wrt.simps by auto
  have "good h (fst b)" using h(2) set_live by (simp add: held_def)
  moreover have "block h (fst b) \<inter> free h = {}" "block h (fst b) \<subseteq> arena h" using bl h(4,5) by blast+
  ultimately obtain h' where h': "release (fst b) h = Some h'" "ok h'" "arena h' = arena h"
    "free h' = block h (fst b) \<union> free h" "\<forall>x. x \<notin> block h (fst b) \<union> free h \<longrightarrow> cell h' x = cell h x"
    using release [OF h(1)] by blast
  have "\<forall>c \<in> set rest. held h c \<and> cell h' (meta (fst c)) = cell h (meta (fst c))"
  proof
    fix c assume c: "c \<in> set rest"
    then have "held h c" using h(2) set_live by simp
    moreover have "meta (fst c) \<in> blocks h rest" using meta_blocks [OF calculation c] .
    then have "meta (fst c) \<notin> block h (fst b) \<union> free h" using ap(2) bl h(4) by blast
    ultimately show "held h c \<and> cell h' (meta (fst c)) = cell h (meta (fst c))" using h'(5) by blast
  qed
  note keep = blocks_keep [OF this h'(3)]
  have "blocks h' rest \<inter> free h' = {}" using keep(1) h'(4) ap(2) bl h(4) by blast
  moreover have "free h' \<union> blocks h' rest = arena h'" using keep(1) h'(3,4) bl h(5) by blast
  ultimately have "holds h' rest" using h'(2) keep ap(1) by (simp add: holds_def)
  with True h' show ?thesis by (simp add: rest_def b_def)
qed (use assms in auto)

lemma holds_store:
  assumes "holds h live"
  shows "\<exists>h' live'. client_step malloc release put (Store i k v) (h, live) = Some (h', live') \<and> holds h' live' \<and>
    arena h' = arena h"
proof (cases "i < length live \<and> 4 * k + 4 \<le> snd (live ! i)")
  case True
  define b where "b = live ! i"
  define a where "a = fst b + 4 * k"
  from True have b: "b \<in> set live" "a \<in> payload b" by (auto simp: payload_def a_def b_def)
  from assms have h: "ok h" "\<forall>b \<in> set live. held h b" "apart h live" "blocks h live \<inter> free h = {}"
    "free h \<union> blocks h live = arena h" by (simp_all add: holds_def)
  have ab: "a \<in> block h (fst b)" "a \<noteq> meta (fst b)" using b h(2) by (auto simp: held_def)
  then have "a \<notin> free h" using b(1) h(4) by (auto simp: blocks_def)
  from put [OF h(1) this, of v] have w: "ok (put a v h)" "free (put a v h) = free h" "arena (put a v h) = arena h"
    "\<forall>x. x \<noteq> a \<longrightarrow> cell (put a v h) x = cell h x" by blast+
  have "\<forall>c \<in> set live. held h c \<and> cell (put a v h) (meta (fst c)) = cell h (meta (fst c))"
  proof
    fix c assume c: "c \<in> set live"
    then have hc: "held h c" using h(2) by simp
    then have m: "meta (fst c) \<in> block h (fst c)" using meta_in by (simp add: held_def)
    have "meta (fst c) \<noteq> a"
    proof
      assume e: "meta (fst c) = a"
      then have "c \<noteq> b" using ab(2) by auto
      then have "block h (fst c) \<inter> block h (fst b) = {}"
        using h(3) c b(1) unfolding apart_def sorted_wrt_iff_nth_less in_set_conv_nth by (metis Int_commute linorder_neqE_nat)
      with m e ab(1) show False by blast
    qed
    with hc w(4) show "held h c \<and> cell (put a v h) (meta (fst c)) = cell h (meta (fst c))" by blast
  qed
  note keep = blocks_keep [OF this w(3)]
  have "holds (put a v h) live" using w keep h by (simp add: holds_def)
  with True w show ?thesis by (simp add: a_def b_def)
qed (use assms in auto)

text \<open>Whatever the client does, its blocks stay apart and nothing is lost.\<close>

lemma holds_run:
  assumes "holds h live" "\<forall>n. Malloc n \<in> set cs \<longrightarrow> n \<le> limit"
  shows "\<exists>h' live'. client_run malloc release put cs (h, live) = Some (h', live') \<and> holds h' live' \<and> arena h' = arena h"
  using assms
proof (induction cs arbitrary: h live)
  case (Cons c cs)
  have "\<exists>h' live'. client_step malloc release put c (h, live) = Some (h', live') \<and> holds h' live' \<and> arena h' = arena h"
    using holds_malloc [OF Cons.prems(1)] holds_free [OF Cons.prems(1)] holds_store [OF Cons.prems(1)] Cons.prems(2)
    by (cases c) (simp_all del: client_step.simps)
  then obtain g l where "client_step malloc release put c (h, live) = Some (g, l)" "holds g l" "arena g = arena h" by blast
  with Cons.IH [of g l] Cons.prems(2) show ?case by simp
qed simp

end

section \<open>The heap as an allocator\<close>

text \<open>The free list read from the store; a list has at most as many chunks as the heap has bytes.\<close>

fun read_list :: "nat \<Rightarrow> nat \<Rightarrow> tcm_state \<Rightarrow> chunks" where
  "read_list 0 a h = []"
| "read_list (Suc k) a h = (if a = 0 then [] else (a, nat (get_size h a)) # read_list k (get_next h (Chunk a)) h)"

definition tcm_chunks :: "tcm_state \<Rightarrow> chunks" where
  "tcm_chunks h = read_list (Suc TCM_HEAP_SIZE) (tcm_free (tcm_enter h)) (tcm_enter h)"

definition heap_ok :: "tcm_state \<Rightarrow> bool" where
  "heap_ok h \<longleftrightarrow> heap_is h (tcm_chunks h)"

definition free_bytes :: "tcm_state \<Rightarrow> nat set" where
  "free_bytes h = space (tcm_chunks h)"

definition arena :: "tcm_state \<Rightarrow> nat set" where
  "arena h = {tcm_base h..<heap_end h}"

text \<open>The block of a pointer that \<open>tcm_heap_malloc\<close> returned, with the size word before it.\<close>

definition block_of :: "tcm_state \<Rightarrow> nat \<Rightarrow> nat set" where
  "block_of h p = {p - 4..<p - 4 + nat (chunk_size (tcm_mem h (p - 4)))}"

definition good_block :: "tcm_state \<Rightarrow> nat \<Rightarrow> bool" where
  "good_block h p \<longleftrightarrow> 4 \<le> p \<and> 8 dvd p - 4 \<and> 0 \<le> tcm_mem h (p - 4) \<and> tcm_mem h (p - 4) \<le> 2 ^ 31 - 8"

lemma spaced_length: "spaced lo hi fl \<Longrightarrow> lo \<le> hi \<Longrightarrow> length fl + lo \<le> hi"
proof (induction lo hi fl rule: spaced.induct)
  case (2 lo hi a s fl)
  then have "spaced (a + s + 1) hi fl" "a + s \<le> hi" "lo \<le> a" "8 \<le> s"
    using spaced_size [OF "2.prems"(1)] by simp_all
  then show ?case using "2.IH" by (cases "a + s + 1 \<le> hi") (cases fl, auto)+
qed simp

lemma read_list_listed:
  "listed h l fl \<Longrightarrow> spaced lo hi fl \<Longrightarrow> length fl < k \<Longrightarrow> read_list k (get_next h l) h = fl"
proof (induction h l fl arbitrary: k lo rule: listed.induct)
  case (1 h l)
  then show ?case by (cases k) auto
next
  case (2 h l a s fl)
  then obtain k' where k: "k = Suc k'" "length fl < k'" by (cases k) auto
  with 2 show ?case by auto
qed

lemma tcm_chunks_eq: "heap_is h fl \<Longrightarrow> tcm_chunks h = fl"
proof -
  assume h: "heap_is h fl"
  then have l: "listed (tcm_enter h) Head fl" "spaced (tcm_base h) (heap_end h) fl" by (simp_all add: heap_is_def)
  then have "length fl < Suc TCM_HEAP_SIZE" using spaced_length [OF l(2)] by simp
  from read_list_listed [OF l this] show ?thesis by (simp only: tcm_chunks_def get_next_def tcm_link.case)
qed

lemma heap_ok_iff: "heap_ok h \<longleftrightarrow> (\<exists>fl. heap_is h fl \<and> free_bytes h = space fl)"
  using tcm_chunks_eq by (auto simp: heap_ok_def free_bytes_def)

lemma heap_isD: "heap_is h fl \<Longrightarrow> heap_ok h \<and> free_bytes h = space fl"
  using tcm_chunks_eq by (auto simp: heap_ok_def free_bytes_def)

lemma malloc_ok:
  assumes "heap_ok h" "n \<le> 2 ^ 31 - 12"
  shows "\<exists>p h'. tcm_heap_malloc (int n) h = Some (p, h') \<and> heap_ok h' \<and> tcm_base h' = tcm_base h \<and>
    (\<forall>x. x \<notin> free_bytes h \<longrightarrow> tcm_mem h' x = tcm_mem h x) \<and>
    (if p = 0 then free_bytes h' = free_bytes h \<and> (\<forall>q. \<not> {q..<q + nat (chunk_size (int n + 4))} \<subseteq> free_bytes h)
     else good_block h' p \<and> tcm_mem h' (p - 4) = int n + 4 \<and> block_of h' p \<subseteq> free_bytes h \<and>
       free_bytes h' = free_bytes h - block_of h' p \<and> payload (p, n) \<subseteq> block_of h' p - {p - 4})"
proof -
  define x where "x = int n + 4"
  from assms(1) obtain fl where fl: "heap_is h fl" "free_bytes h = space fl" using heap_ok_iff by blast
  have x: "0 \<le> x" "x \<le> 2 ^ 31 - 8" using assms(2) by (simp_all add: x_def)
  then have w: "signed_take_bit 31 x = x" by (intro signed_take_bit_int_eq_self) simp_all
  obtain m p fl' h' where a: "chunk_size x = int m" "8 dvd m" "0 < m" "x \<le> int m" "int m \<le> x + 8"
    "tcm_heap_allocmem x h = Some (p, h')" "alloc_list m fl = (p, fl')" "heap_is h' fl'" "tcm_inited h'"
    "tcm_base h' = tcm_base h" "\<And>y. y \<notin> space fl \<Longrightarrow> tcm_mem h' y = tcm_mem h y"
    by (rule allocmem_ok [OF fl(1) x]) (rule that)
  have sp: "spaced (tcm_base h) (heap_end h) fl" using fl(1) by (simp add: heap_is_def)
  note al = alloc_list_spaced [OF sp a(2,3,7)]
  show ?thesis
  proof (cases "p = 0")
    case True
    have "\<not> {q..<q + m} \<subseteq> space fl" for q
      using run_in_chunk [OF sp _ a(3), of q] al True by force
    with True al a fl heap_isD [OF a(8)] show ?thesis
      by (simp add: tcm_heap_malloc_def Let_def w flip: x_def)
  next
    case False
    define g where "g = store p x h'"
    from False al have p: "8 dvd p" "{p..<p + m} \<subseteq> space fl" "space fl' = space fl - {p..<p + m}" by simp_all
    have m8: "8 \<le> m" using a(2,3) by (auto elim: dvdE)
    have "tcm_mem g y = tcm_mem h' y" if "y \<in> space fl'" for y
      using that p(3) m8 by (simp add: g_def store_def) force
    moreover have i: "tcm_enter g = g" "tcm_enter h' = h'" using a(9) by (simp_all add: g_def store_def tcm_enter_inited)
    ultimately have "heap_is g fl'"
      using a(8) listed_frame [of fl' g h' Head Head "tcm_base h" "heap_end h"]
      by (auto simp: heap_is_def base_ok_def g_def store_def get_next_def a(10))
    from heap_isD [OF this] have hg: "heap_ok g" "free_bytes g = space fl'" by simp_all
    have gp: "tcm_mem g p = x" by (simp add: g_def store_def)
    have b: "block_of g (p + 4) = {p..<p + m}" using gp a(1) by (simp add: block_of_def)
    have "payload (p + 4, n) \<subseteq> block_of g (p + 4) - {p}" using a(4) unfolding b payload_def x_def by auto
    moreover have "good_block g (p + 4)" using gp x p(1) by (simp add: good_block_def)
    moreover have "p \<in> space fl" using p(2) m8 by force
    then have "\<forall>y. y \<notin> free_bytes h \<longrightarrow> tcm_mem g y = tcm_mem h y"
      using a(11) fl(2) by (auto simp: g_def store_def)
    moreover have "tcm_heap_malloc (int n) h = Some (p + 4, g)"
      using False a(6) by (simp add: tcm_heap_malloc_def Let_def w g_def flip: x_def)
    moreover have "tcm_base g = tcm_base h" using a(10) by (simp add: g_def store_def)
    ultimately show ?thesis using hg b p fl(2) gp
      by (intro exI [of _ "p + 4"] exI [of _ g]) (simp add: x_def)
  qed
qed

lemma free_ok:
  assumes "heap_ok h" "good_block h p" "block_of h p \<inter> free_bytes h = {}" "block_of h p \<subseteq> arena h"
  shows "\<exists>h'. tcm_heap_free p h = Some h' \<and> heap_ok h' \<and> tcm_base h' = tcm_base h \<and>
    free_bytes h' = block_of h p \<union> free_bytes h \<and>
    (\<forall>x. x \<notin> block_of h p \<union> free_bytes h \<longrightarrow> tcm_mem h' x = tcm_mem h x)"
proof -
  from assms(1) obtain fl where fl: "heap_is h fl" "free_bytes h = space fl" using heap_ok_iff by blast
  define q where "q = p - 4"
  define x where "x = tcm_mem h q"
  have x: "0 \<le> x" "x \<le> 2 ^ 31 - 8" "8 dvd q" "p \<noteq> 0" using assms(2) by (auto simp: good_block_def x_def q_def)
  obtain m where m: "chunk_size x = int m" "8 dvd m" "0 < m" using chunk_size_nat [OF x(1,2)] by blast
  have b: "block_of h p = {q..<q + m}" using m by (simp add: block_of_def x_def q_def)
  have qa: "q \<in> block_of h p" "q + m - 1 \<in> block_of h p" using m(3) unfolding b by auto
  then have "q \<in> arena h" "q + m - 1 \<in> arena h" using assms(4) by blast+
  then have r: "tcm_base h \<le> q" "q + m \<le> heap_end h" using m(3) by (auto simp: arena_def)
  have d: "{q..<q + m} \<inter> space fl = {}" using assms(3) by (simp add: b fl(2))
  obtain fl' h' where f: "tcm_heap_freemem q x h = Some h'" "heap_is h' fl'" "space fl' = {q..<q + m} \<union> space fl"
    "tcm_base h' = tcm_base h" "\<And>y. y \<notin> {q..<q + m} \<union> space fl \<Longrightarrow> tcm_mem h' y = tcm_mem h y"
    by (rule freemem_ok [OF fl(1) m x(3) r d]) (rule that)
  have "tcm_heap_free p h = Some h'" using f(1) x(4) by (simp add: tcm_heap_free_def x_def q_def)
  with f heap_isD [OF f(2)] show ?thesis unfolding b fl(2) by (intro exI [of _ h']) simp
qed

lemma store_ok:
  assumes "heap_ok h" "a \<notin> free_bytes h"
  shows "heap_ok (store a v h) \<and> free_bytes (store a v h) = free_bytes h \<and> tcm_base (store a v h) = tcm_base h"
proof -
  from assms(1) obtain fl where fl: "heap_is h fl" "free_bytes h = space fl" using heap_ok_iff by blast
  have "heap_is (store a v h) fl"
  proof (cases "tcm_inited h")
    case True
    then have e: "tcm_enter (store a v h) = store a v h" "tcm_enter h = h" by (simp_all add: tcm_enter_inited store_def)
    have "listed (store a v h) Head fl"
    proof (rule listed_frame [where h = h and l = Head])
      show "\<forall>x \<in> space fl. tcm_mem (store a v h) x = tcm_mem h x" using assms(2) fl(2) by (auto simp: store_def)
      show "spaced (tcm_base h) (heap_end h) fl" "listed h Head fl" using fl(1) e(2) by (simp_all add: heap_is_def)
    qed (simp add: get_next_def store_def)
    with fl(1) e show ?thesis by (simp add: heap_is_def base_ok_def) (simp add: store_def)
  next
    case False
    then have "heap_is (store a v h) [(tcm_base h, TCM_HEAP_SIZE)]"
      using heap_is_fresh [of "store a v h"] fl(1) by (simp add: store_def heap_is_def base_ok_def)
    with fresh_listed [OF False fl(1)] show ?thesis by simp
  qed
  from heap_isD [OF this] fl(2) show ?thesis by (simp add: store_def)
qed

interpretation tcm: allocator heap_ok free_bytes tcm_mem arena "\<lambda>n. tcm_heap_malloc (int n)" tcm_heap_free store
  block_of "\<lambda>p. p - 4" good_block "2 ^ 31 - 12"
proof unfold_locales
  show "\<exists>p h'. tcm_heap_malloc (int n) h = Some (p, h') \<and> heap_ok h' \<and> arena h' = arena h \<and>
      (\<forall>x. x \<notin> free_bytes h \<longrightarrow> tcm_mem h' x = tcm_mem h x) \<and>
      (if p = 0 then free_bytes h' = free_bytes h
       else good_block h' p \<and> block_of h' p \<subseteq> free_bytes h \<and> free_bytes h' = free_bytes h - block_of h' p \<and>
         payload (p, n) \<subseteq> block_of h' p - {p - 4})" if "heap_ok h" "n \<le> 2 ^ 31 - 12" for h n
    using malloc_ok [OF that] by (fastforce simp: arena_def split: if_splits)
  show "\<exists>h'. tcm_heap_free p h = Some h' \<and> heap_ok h' \<and> arena h' = arena h \<and> free_bytes h' = block_of h p \<union> free_bytes h \<and>
      (\<forall>x. x \<notin> block_of h p \<union> free_bytes h \<longrightarrow> tcm_mem h' x = tcm_mem h x)"
    if "heap_ok h" "good_block h p" "block_of h p \<inter> free_bytes h = {}" "block_of h p \<subseteq> arena h" for h p
    using free_ok [OF that] by (auto simp: arena_def)
  show "heap_ok (store a v h) \<and> free_bytes (store a v h) = free_bytes h \<and> arena (store a v h) = arena h \<and>
      (\<forall>x. x \<noteq> a \<longrightarrow> tcm_mem (store a v h) x = tcm_mem h x)" if "heap_ok h" "a \<notin> free_bytes h" for h a v
    using store_ok [OF that] by (simp add: arena_def store_def)
  show "block_of h' p = block_of h p \<and> good_block h' p"
    if "tcm_mem h' (p - 4) = tcm_mem h (p - 4)" "arena h' = arena h" "good_block h p" for h h' p
    using that by (simp add: block_of_def good_block_def)
  show "p - 4 \<in> block_of h p" if "good_block h p" for h p
    using that chunk_size_nat [of "tcm_mem h (p - 4)"] by (auto simp: good_block_def block_of_def)
qed

section \<open>Correctness\<close>

text \<open>
  C20. \<open>tcm_heap_malloc\<close> on a well-formed heap returns.  It takes a block that lies in the free memory,
  aligned, with room for the request behind the size word, and changes no memory outside the free
  memory; it fails only when no run of free bytes is as long as the block would be.
\<close>

theorem tcm_malloc_correct:
  assumes "heap_ok h" "n \<le> 2 ^ 31 - 12"
  shows "\<exists>p h'. tcm_heap_malloc (int n) h = Some (p, h') \<and> heap_ok h' \<and> tcm_base h' = tcm_base h \<and>
    (\<forall>x. x \<notin> free_bytes h \<longrightarrow> tcm_mem h' x = tcm_mem h x) \<and>
    (if p = 0 then free_bytes h' = free_bytes h \<and> (\<forall>q. \<not> {q..<q + nat (chunk_size (int n + 4))} \<subseteq> free_bytes h)
     else good_block h' p \<and> tcm_mem h' (p - 4) = int n + 4 \<and> block_of h' p \<subseteq> free_bytes h \<and>
       free_bytes h' = free_bytes h - block_of h' p \<and> payload (p, n) \<subseteq> block_of h' p - {p - 4})"
  using assms by (rule malloc_ok)

definition tcm_fresh :: tcm_state where
  "tcm_fresh = \<lparr>tcm_free = 0, tcm_mem = (\<lambda>_. 0), tcm_inited = False, tcm_base = 0x1fff0000\<rparr>"

lemma fresh_ok: "\<not> tcm_inited h \<Longrightarrow> base_ok h \<Longrightarrow> heap_ok h \<and> free_bytes h = arena h"
  using heap_isD [OF heap_is_fresh, of h] by (simp add: arena_def)

lemma tcm_fresh_ok: "\<not> tcm_inited tcm_fresh" "base_ok tcm_fresh"
  by (simp_all add: tcm_fresh_def base_ok_def TCM_HEAP_SIZE_def)

theorem tcm_malloc_correct_witness:
  "\<exists>p h'. tcm_heap_malloc 100 tcm_fresh = Some (p, h') \<and> heap_ok h'"
  using tcm_malloc_correct [of tcm_fresh 100] fresh_ok [OF tcm_fresh_ok] by auto

text \<open>
  C19. \<open>tcm_heap_free\<close> of a block that is not free returns; the memory of the block becomes free, the
  free list stays in order with no two chunks touching, and no other memory is changed.
\<close>

theorem tcm_free_correct:
  assumes "heap_ok h" "good_block h p" "block_of h p \<inter> free_bytes h = {}" "block_of h p \<subseteq> arena h"
  shows "\<exists>h'. tcm_heap_free p h = Some h' \<and> heap_ok h' \<and> tcm_base h' = tcm_base h \<and>
    free_bytes h' = block_of h p \<union> free_bytes h \<and>
    (\<forall>x. x \<notin> block_of h p \<union> free_bytes h \<longrightarrow> tcm_mem h' x = tcm_mem h x)"
  using assms by (rule free_ok)

theorem tcm_free_correct_witness:
  "\<exists>p h. good_block h p \<and> heap_ok h \<and> (\<exists>h'. tcm_heap_free p h = Some h' \<and> free_bytes h' = block_of h p \<union> free_bytes h)"
proof -
  have f: "heap_ok tcm_fresh" "free_bytes tcm_fresh = arena tcm_fresh" using fresh_ok [OF tcm_fresh_ok] by simp_all
  from malloc_ok [OF f(1), of 100] obtain p h where h: "heap_ok h" "tcm_base h = tcm_base tcm_fresh"
    "if p = 0 then free_bytes h = free_bytes tcm_fresh \<and>
        (\<forall>q. \<not> {q..<q + nat (chunk_size (int 100 + 4))} \<subseteq> free_bytes tcm_fresh)
     else good_block h p \<and> tcm_mem h (p - 4) = int 100 + 4 \<and> block_of h p \<subseteq> free_bytes tcm_fresh \<and>
       free_bytes h = free_bytes tcm_fresh - block_of h p \<and> payload (p, 100) \<subseteq> block_of h p - {p - 4}"
    by auto
  have c: "chunk_size (int 100 + 4) = 104" by code_simp
  have "{tcm_base tcm_fresh..<tcm_base tcm_fresh + nat (chunk_size (int 100 + 4))} \<subseteq> free_bytes tcm_fresh"
    unfolding c f(2) arena_def TCM_HEAP_SIZE_def by auto
  with h(3) have p: "good_block h p" "block_of h p \<subseteq> arena h" "free_bytes h = free_bytes tcm_fresh - block_of h p"
    using f(2) h(2) by (auto simp: arena_def split: if_splits)
  then have "block_of h p \<inter> free_bytes h = {}" by blast
  from tcm_free_correct [OF h(1) p(1) this p(2)] p(1) h(1) show ?thesis by blast
qed

text \<open>The free space that the code reports.\<close>

lemma space_walk_listed:
  "listed h l fl \<Longrightarrow> spaced lo hi fl \<Longrightarrow> space_walk (get_next h l) k h = Some (k + (\<Sum>(a, s) \<leftarrow> fl. int s))"
proof (induction h l fl arbitrary: lo k rule: listed.induct)
  case (1 h l)
  then show ?case by (subst space_walk.simps) simp
next
  case (2 h l a s fl)
  then have "space_walk (get_next h (Chunk a)) (k + int s) h = Some (k + int s + (\<Sum>(a, s) \<leftarrow> fl. int s))"
    by (intro "2.IH") auto
  with 2 show ?case by (subst space_walk.simps) auto
qed

lemma space_finite: "finite (space fl)"
  by (induction fl rule: space.induct) auto

lemma space_card: "spaced lo hi fl \<Longrightarrow> (\<Sum>(a, s) \<leftarrow> fl. int s) = int (card (space fl))"
proof (induction lo hi fl rule: spaced.induct)
  case (2 lo hi a s fl)
  then have "spaced (a + s + 1) hi fl" by simp
  with 2 show ?case using spaced_disjoint [of a s hi fl] space_finite [of fl] by (simp add: card_Un_disjoint)
qed simp

lemma freeSpace_ok: "heap_ok h \<Longrightarrow> tcm_heap_freeSpace h = Some (int (card (free_bytes h)), tcm_enter h)"
  using space_walk_listed [of "tcm_enter h" Head "tcm_chunks h" "tcm_base h" "heap_end h" 0]
  by (auto simp: heap_ok_def heap_is_def free_bytes_def tcm_heap_freeSpace_def Let_def get_next_def space_card)

text \<open>
  C2. Any sequence of calls by a client that stores only into its own blocks returns; then the
  client's buffers lie in the array and do not overlap, and what it does not hold is free: when it has
  released everything, the whole array is free again.
\<close>

theorem tcm_client_safe:
  assumes "\<not> tcm_inited h" "base_ok h" "\<forall>n. Malloc n \<in> set cs \<longrightarrow> n \<le> 2 ^ 31 - 12"
  shows "\<exists>h' live. client_run (\<lambda>n. tcm_heap_malloc (int n)) tcm_heap_free store cs (h, []) = Some (h', live) \<and>
    (\<forall>b \<in> set live. payload b \<subseteq> arena h) \<and> sorted_wrt (\<lambda>b c. payload b \<inter> payload c = {}) live \<and>
    tcm_heap_freeSpace h' = Some (int TCM_HEAP_SIZE - int (card (\<Union>b \<in> set live. block_of h' (fst b))), tcm_enter h')"
proof -
  have "tcm.holds h []" using fresh_ok [OF assms(1,2)] by (simp add: tcm.holds_def tcm.apart_def tcm.blocks_def)
  from tcm.holds_run [OF this assms(3)] obtain h' live where
    r: "client_run (\<lambda>n. tcm_heap_malloc (int n)) tcm_heap_free store cs (h, []) = Some (h', live)"
      "tcm.holds h' live" "arena h' = arena h" by blast
  then have h: "heap_ok h'" "\<forall>b \<in> set live. payload b \<subseteq> block_of h' (fst b)" "tcm.apart h' live"
    "tcm.blocks h' live \<inter> free_bytes h' = {}" "free_bytes h' \<union> tcm.blocks h' live = arena h"
    by (auto simp: tcm.holds_def tcm.held_def)
  have "\<forall>b \<in> set live. payload b \<subseteq> arena h" using h(2,5) by (auto simp: tcm.blocks_def)
  moreover have "sorted_wrt (\<lambda>b c. payload b \<inter> payload c = {}) live"
    using h(2,3) unfolding tcm.apart_def sorted_wrt_iff_nth_less by (meson disjoint_iff nth_mem order.strict_trans subsetD)
  moreover have "card (free_bytes h') + card (tcm.blocks h' live) = TCM_HEAP_SIZE"
  proof -
    have "finite (arena h)" by (simp add: arena_def)
    then have "finite (free_bytes h')" "finite (tcm.blocks h' live)" using h(5) by (metis finite_Un)+
    then have "card (arena h) = card (free_bytes h') + card (tcm.blocks h' live)"
      using h(4,5) card_Un_disjoint [of "free_bytes h'" "tcm.blocks h' live"] by (simp add: Int_commute)
    then show ?thesis by (simp add: arena_def)
  qed
  ultimately show ?thesis using r(1) freeSpace_ok [OF h(1)] by (auto simp: tcm.blocks_def)
qed

theorem tcm_client_safe_witness:
  "\<exists>h' live. client_run (\<lambda>n. tcm_heap_malloc (int n)) tcm_heap_free store
      [Malloc 100, Malloc 30, Store 1 2 7, Free 1, Malloc 50000] (tcm_fresh, []) = Some (h', live) \<and>
    (\<forall>b \<in> set live. payload b \<subseteq> arena tcm_fresh)"
  using tcm_client_safe [OF tcm_fresh_ok, of "[Malloc 100, Malloc 30, Store 1 2 7, Free 1, Malloc 50000]"] by auto

text \<open>
  A negative size is not refused: for the sizes \<^verbatim>\<open>- 8 * k - 4\<close> the first free chunk \<^emph>\<open>grows\<close> by
  \<^verbatim>\<open>8 * k\<close> bytes, and the pointer returned lies beyond it.
\<close>

theorem tcm_malloc_negative:
  assumes "heap_is h ((a, s) # fl)" "0 < k" "k < 2 ^ 28"
  shows "\<exists>h'. tcm_heap_malloc (- int (8 * k) - 4) h = Some (a + s + 8 * k + 4, h') \<and>
    tcm_mem h' (a + s + 8 * k) = - int (8 * k) \<and> get_size h' a = int (s + 8 * k)"
proof -
  have h: "tcm_free (tcm_enter h) = a" "get_size (tcm_enter h) a = int s" "a \<noteq> 0" "0 < s"
    using assms(1) by (auto simp: heap_is_def get_next_def)
  have w: "signed_take_bit 31 (- int (8 * k)) = - int (8 * k)"
    using assms(3) by (intro signed_take_bit_int_eq_self) simp_all
  have r: "round_up2 (- int (8 * k)) = - int (8 * k)"
  proof -
    have "(- int (8 * k) + 7) AND NOT 7 = 8 * ((- int (8 * k) + 7) div 8)" by (rule and_not_7)
    also have "\<dots> = - int (8 * k)" by simp
    finally have "(- int (8 * k) + 7) AND NOT 7 = - int (8 * k)" .
    with w show ?thesis unfolding round_up2_def by simp
  qed
  have c: "chunk_size (- int (8 * k)) = - int (8 * k)"
    unfolding chunk_size_def Let_def r using assms(2) by simp
  define g where "g = set_size a (int s + int (8 * k)) (tcm_enter h)"
  have "alloc_walk Head (- int (8 * k)) (tcm_enter h) = Some (nat (int a + (int s + int (8 * k))), g)"
    using h assms(2) by (subst alloc_walk.simps) (simp add: get_next_def g_def Let_def)
  then have "tcm_heap_malloc (- int (8 * k) - 4) h = Some (a + s + 8 * k + 4, store (a + s + 8 * k) (- int (8 * k)) g)"
    using h(3) by (simp add: tcm_heap_malloc_def tcm_heap_allocmem_def c [simplified] w [simplified] nat_add_distrib add.assoc nat_mult_distrib)
  then show ?thesis using assms(2) h(4) by (simp add: store_def g_def set_size_def get_size_def)
qed

theorem tcm_malloc_negative_witness:
  "\<exists>h'. tcm_heap_malloc (- 20) tcm_fresh = Some (0x1fff0000 + 40960 + 16 + 4, h')"
  using tcm_malloc_negative [OF heap_is_fresh [OF tcm_fresh_ok], of 2] by (auto simp: tcm_fresh_def TCM_HEAP_SIZE_def)

end
