(* ===== verification/Dhcps.thy ===== *)
theory Dhcps
  imports Prelude
begin

text \<open>
  The DHCP server: \<^verbatim>\<open>network/dhcp/dhcps.c\<close> and \<^verbatim>\<open>dhcps.h\<close>, in the configuration of the sources
  (addresses from a pool, client addresses kept).  The static variables are the record \<open>dhcps\<close>.  A
  packet is its length and the memory from the start of its payload on, so that accesses beyond its
  end are those of the code; it has been coalesced into one buffer.  What the C standard leaves
  undefined (a shift of \<open>1\<close> by a negative amount or by 32 and more, a \<^verbatim>\<open>memset\<close> with a negative
  length) is \<^term>\<open>None\<close>.  The semaphore, the output on the console and the calls that bind and free
  UDP control blocks and packet buffers are left out.
\<close>

unbundle bit_operations_syntax

section \<open>State\<close>

type_synonym ip4 = "u8 \<times> u8 \<times> u8 \<times> u8"

fun ip_bytes :: "ip4 \<Rightarrow> bytes" where
  "ip_bytes (a, b, c, d) = [a, b, c, d]"

fun ip4_addr4 :: "ip4 \<Rightarrow> u8" where
  "ip4_addr4 (a, b, c, d) = d"

fun ip_with_addr4 :: "ip4 \<Rightarrow> u8 \<Rightarrow> ip4" where
  "ip_with_addr4 (a, b, c, d) x = (a, b, c, x)"

fun ip_and :: "ip4 \<Rightarrow> ip4 \<Rightarrow> ip4" where
  "ip_and (a, b, c, d) (a', b', c', d') = (a AND a', b AND b', c AND c', d AND d')"

fun ip_or_not :: "ip4 \<Rightarrow> ip4 \<Rightarrow> ip4" where
  "ip_or_not (a, b, c, d) (a', b', c', d') = (a OR NOT a', b OR NOT b', c OR NOT c', d OR NOT d')"

abbreviation ip_zero :: ip4 where "ip_zero \<equiv> (0, 0, 0, 0)"

datatype dhcp_state = DS_OFFER | DS_DECLINE | DS_ACK | DS_NAK | DS_IDLE

text \<open>\<open>ds_null\<close> is the byte that reading through the null pointer gives.\<close>

record dhcps =
  ds_state :: dhcp_state
  ds_xid :: bytes
  ds_local :: ip4
  ds_mask :: ip4
  ds_gateway :: ip4
  ds_network :: ip4
  ds_broadcast :: ip4
  ds_allocated :: ip4
  ds_pool_set :: bool
  ds_pool_start :: ip4
  ds_pool_end :: ip4
  ds_range :: "u32 list"
  ds_macs :: "nat \<Rightarrow> bytes"
  ds_request_ip :: ip4
  ds_client :: bytes
  ds_opt_len :: int
  ds_null :: u8

record packet =
  pk_len :: nat
  pk_mem :: "nat \<Rightarrow> u8"

abbreviation DHCP_POOL_START :: nat where "DHCP_POOL_START \<equiv> 100"
abbreviation DHCP_POOL_END :: nat where "DHCP_POOL_END \<equiv> 200"
abbreviation DHCP_MSG_LEN :: nat where "DHCP_MSG_LEN \<equiv> 236"
abbreviation DHCP_OFFER_OPTION_TOTAL_LENGTH_MAX :: nat where "DHCP_OFFER_OPTION_TOTAL_LENGTH_MAX \<equiv> 312"
abbreviation DHCP_CLIENT_PORT :: nat where "DHCP_CLIENT_PORT \<equiv> 68"

definition dhcp_magic_cookie :: bytes where "dhcp_magic_cookie = [99, 130, 83, 99]"
definition dhcp_option_lease_time :: bytes where "dhcp_option_lease_time = [0x00, 0x00, 0x1c, 0x20]"
definition dhcp_option_interface_mtu :: bytes where "dhcp_option_interface_mtu = [0x05, 0xDC]"

section \<open>Memory\<close>

definition get_bytes :: "nat \<Rightarrow> nat \<Rightarrow> (nat \<Rightarrow> u8) \<Rightarrow> bytes" where
  "get_bytes p n m = map m [p..<p + n]"

definition put_bytes :: "nat \<Rightarrow> bytes \<Rightarrow> (nat \<Rightarrow> u8) \<Rightarrow> nat \<Rightarrow> u8" where
  "put_bytes p bs m = (\<lambda>i. if p \<le> i \<and> i < p + length bs then bs ! (i - p) else m i)"

section \<open>The table of addresses\<close>

text \<open>\<^verbatim>\<open>1 << k\<close> on a 32-bit \<open>int\<close>.\<close>

definition shl1 :: "int \<Rightarrow> u32 option" where
  "shl1 k = (if 0 \<le> k \<and> k < 32 then Some (push_bit (nat k) 1) else None)"

definition mark_bit :: "nat \<Rightarrow> int \<Rightarrow> dhcps \<Rightarrow> dhcps option" where
  "mark_bit r ip st =
     map_option (\<lambda>b. st\<lparr>ds_range := (ds_range st)[r := (ds_range st ! r) OR b]\<rparr>) (shl1 (ip - 1))"

definition mark_ip_in_table :: "u8 \<Rightarrow> dhcps \<Rightarrow> dhcps option" where
  "mark_ip_in_table dd st =
     (let d = uint dd in
      if 0 < d \<and> d \<le> 32 then mark_bit 0 d st
      else if 32 < d \<and> d \<le> 64 then mark_bit 1 (d - 32) st
      else if 64 < d \<and> d \<le> 96 then mark_bit 2 (d - 64) st
      else if 96 < d \<and> d \<le> 128 then mark_bit 3 (d - 96) st
      else if 128 < d \<and> d \<le> 160 then mark_bit 4 d st
      else if 160 < d \<and> d \<le> 192 then mark_bit 5 (d - 160) st
      else if 192 < d \<and> d \<le> 224 then mark_bit 6 (d - 192) st
      else if 224 < d then mark_bit 7 (d - 224) st
      else Some st)"

definition save_client_addr :: "ip4 \<Rightarrow> bytes \<Rightarrow> dhcps \<Rightarrow> dhcps" where
  "save_client_addr client_ip hwaddr st =
     st\<lparr>ds_macs := (ds_macs st)(unat (ip4_addr4 client_ip) := hwaddr)\<rparr>"

text \<open>The loop over the pool: \<^verbatim>\<open>>>\<close> by \<^verbatim>\<open>i % 32 - 1\<close> is undefined for the multiples of 32.\<close>

function request_loop :: "bytes \<Rightarrow> nat \<Rightarrow> dhcps \<Rightarrow> nat option" where
  "request_loop hwaddr i st =
     (if i > DHCP_POOL_END then Some 0
      else if ds_macs st i = hwaddr then
        if i mod 32 = 0 then None
        else if drop_bit (i mod 32 - 1) (ds_range st ! (i div 32)) AND 1 \<noteq> 0 then Some i
        else request_loop hwaddr (i + 1) st
      else request_loop hwaddr (i + 1) st)"
  by pat_completeness auto
termination by (relation "measure (\<lambda>(hwaddr, i, st). 201 - i)") auto

declare request_loop.simps [simp del]

definition check_client_request_ip :: "bytes \<Rightarrow> dhcps \<Rightarrow> nat option" where
  "check_client_request_ip hwaddr st = request_loop hwaddr DHCP_POOL_START st"

definition check_client_direct_request_ip :: "ip4 \<Rightarrow> dhcps \<Rightarrow> nat" where
  "check_client_direct_request_ip client_req_ip st =
     (let d = unat (ip4_addr4 client_req_ip) in
      if d < DHCP_POOL_START \<or> d > DHCP_POOL_END then 0
      else if ds_macs st d ! 0 \<noteq> 0 \<and> ds_macs st d ! 1 \<noteq> 0 \<and> ds_macs st d ! 2 \<noteq> 0 \<and>
              ds_macs st d ! 3 \<noteq> 0 \<and> ds_macs st d ! 4 \<noteq> 0 \<and> ds_macs st d ! 5 \<noteq> 0 then 0
      else d)"

definition search_next_ip :: "dhcps \<Rightarrow> nat" where
  "search_next_ip st =
     (let (start, stop) = (if ds_pool_set st then (unat (ip4_addr4 (ds_pool_start st)), unat (ip4_addr4 (ds_pool_end st)))
                           else (0, 255))
      in case find (\<lambda>(range_count, offset_count).
                drop_bit offset_count (ds_range st ! range_count) AND 1 = 0 \<and>
                range_count * 32 + (offset_count + 1) \<ge> start \<and> range_count * 32 + (offset_count + 1) \<le> stop)
              [(range_count, offset_count). range_count \<leftarrow> [0..<8], offset_count \<leftarrow> [0..<32]] of
           None \<Rightarrow> 0
         | Some (range_count, offset_count) \<Rightarrow> (range_count * 32 + (offset_count + 1)) mod 256)"

section \<open>Messages\<close>

text \<open>Each returns the position after what it has written, and the memory.\<close>

definition add_msg_type :: "nat \<Rightarrow> u8 \<Rightarrow> (nat \<Rightarrow> u8) \<Rightarrow> nat \<times> (nat \<Rightarrow> u8)" where
  "add_msg_type p message_type m =
     (let m = put_bytes p [53, 1, message_type] m in
      if message_type = 6 then (p + 4, put_bytes (p + 3) [255] m) else (p + 3, m))"

definition fill_one_option_content :: "nat \<Rightarrow> u8 \<Rightarrow> nat \<Rightarrow> bytes \<Rightarrow> (nat \<Rightarrow> u8) \<Rightarrow> nat \<times> (nat \<Rightarrow> u8)" where
  "fill_one_option_content p code len info m =
     (let m = put_bytes p [code, of_nat len] m in
      if len = 4 \<or> len = 2 \<or> len = 1 then (p + 2 + len, put_bytes (p + 2) (take len info) m) else (0, m))"

text \<open>The options of an offer, in their order, with the sizes that the code compares.\<close>

definition offer_options :: "dhcps \<Rightarrow> (nat \<times> u8 \<times> nat \<times> bytes) list" where
  "offer_options st =
     [(6, 1, 4, ip_bytes (ds_mask st)), (6, 3, 4, ip_bytes (ds_local st)), (6, 6, 4, ip_bytes (ds_local st)),
      (6, 51, 4, dhcp_option_lease_time), (6, 54, 4, ip_bytes (ds_local st)), (6, 28, 4, ip_bytes (ds_broadcast st)),
      (4, 26, 2, dhcp_option_interface_mtu), (3, 31, 1, [ds_null st])]"

fun add_options :: "nat \<Rightarrow> int \<Rightarrow> (nat \<times> u8 \<times> nat \<times> bytes) list \<Rightarrow> nat \<Rightarrow> (nat \<Rightarrow> u8) \<Rightarrow> int \<times> (nat \<Rightarrow> u8)" where
  "add_options start maxlen [] p m =
     (if int (p + 1 - start) \<le> maxlen then (0, put_bytes p [255] m) else (- 1, m))"
| "add_options start maxlen ((sz, code, len, info) # opts) p m =
     (if int (p + sz - start) \<le> maxlen then
        let (p, m) = fill_one_option_content p code len info m in add_options start maxlen opts p m
      else (- 1, m))"

definition add_offer_options :: "nat \<Rightarrow> dhcps \<Rightarrow> (nat \<Rightarrow> u8) \<Rightarrow> int \<times> (nat \<Rightarrow> u8)" where
  "add_offer_options start st m = add_options start (ds_opt_len st - 4 - 3) (offer_options st) start m"

text \<open>The fields of \<^verbatim>\<open>struct dhcp_msg\<close> at their offsets; the options begin at 236.\<close>

definition dhcps_initialize_message :: "(nat \<Rightarrow> u8) \<Rightarrow> dhcps \<Rightarrow> (dhcps \<times> (nat \<Rightarrow> u8)) option" where
  "dhcps_initialize_message m st =
     (if ds_opt_len st < 0 then None
      else
        let m = put_bytes 0 [2, 1, 6, 0] m;
            st = st\<lparr>ds_xid := get_bytes 4 4 m\<rparr>;
            m = put_bytes 8 [0, 0, 0x80, 0] m;
            m = put_bytes 16 (ip_bytes (ds_allocated st)) m;
            m = put_bytes 12 (replicate 4 0) m;
            m = put_bytes 20 (replicate 4 0) m;
            m = put_bytes 24 (replicate 4 0) m;
            m = put_bytes 44 (replicate 64 0) m;
            m = put_bytes 108 (replicate 128 0) m;
            m = put_bytes 236 (replicate (nat (ds_opt_len st)) 0) m;
            m = put_bytes 236 dhcp_magic_cookie m
        in Some (st, m))"

text \<open>
  \<open>fresh\<close> is the memory of the buffer that \<^verbatim>\<open>pbuf_alloc\<close> returns, if it returns one; \<^verbatim>\<open>pbuf_copy\<close> fails
  when the packet is longer.  The results of the three functions are the state, the buffer with the
  message that was written, and whether it is sent.
\<close>

definition dhcps_send_offer :: "(nat \<Rightarrow> u8) option \<Rightarrow> packet \<Rightarrow> dhcps \<Rightarrow> (dhcps \<times> (packet \<times> bool) option) option" where
  "dhcps_send_offer fresh pk st =
     (let size = DHCP_MSG_LEN + DHCP_OFFER_OPTION_TOTAL_LENGTH_MAX in
      case fresh of
        None \<Rightarrow> Some (st, None)
      | Some heap \<Rightarrow>
          if pk_len pk > size then Some (st, None)
          else
            let m = (\<lambda>i. if i < pk_len pk then pk_mem pk i else heap i);
                st = st\<lparr>ds_opt_len := int DHCP_OFFER_OPTION_TOTAL_LENGTH_MAX\<rparr>
            in (case check_client_request_ip (ds_client st) st of
                  None \<Rightarrow> None
                | Some temp_ip \<Rightarrow>
                    let temp_ip = (if temp_ip = 0 then search_next_ip st else temp_ip);
                        st = st\<lparr>ds_allocated := ip_with_addr4 (ds_network st) (of_nat temp_ip)\<rparr>
                    in (case dhcps_initialize_message m st of
                          None \<Rightarrow> None
                        | Some (st, m) \<Rightarrow>
                            let (p, m) = add_msg_type 240 2 m; (rc, m) = add_offer_options p st m
                            in Some (st, Some (\<lparr>pk_len = size, pk_mem = m\<rparr>, rc = 0)))))"

definition dhcps_send_nak :: "packet \<Rightarrow> dhcps \<Rightarrow> (dhcps \<times> (packet \<times> bool) option) option" where
  "dhcps_send_nak pk st =
     (case dhcps_initialize_message (pk_mem pk) st of
        None \<Rightarrow> None
      | Some (st, m) \<Rightarrow> let (p, m) = add_msg_type 240 6 m in Some (st, Some (pk\<lparr>pk_mem := m\<rparr>, True)))"

definition dhcps_send_ack :: "packet \<Rightarrow> dhcps \<Rightarrow> (dhcps \<times> (packet \<times> bool) option) option" where
  "dhcps_send_ack pk st =
     (case dhcps_initialize_message (pk_mem pk) st of
        None \<Rightarrow> None
      | Some (st, m) \<Rightarrow>
          let (p, m) = add_msg_type 240 5 m; (rc, m) = add_offer_options p st m
          in Some (st, Some (pk\<lparr>pk_mem := m\<rparr>, rc = 0)))"

section \<open>Requests\<close>

definition dhcps_handle_state_machine_change :: "u8 \<Rightarrow> dhcps \<Rightarrow> dhcps" where
  "dhcps_handle_state_machine_change option_message_type st =
     (if option_message_type = 4 then st\<lparr>ds_state := DS_IDLE\<rparr>
      else if option_message_type = 1 then
        if ds_state st = DS_IDLE then st\<lparr>ds_state := DS_OFFER\<rparr> else st
      else if option_message_type = 3 then
        if ds_state st = DS_OFFER then
          if ip4_addr4 (ds_allocated st) \<noteq> 0 then
            if ds_allocated st = ds_request_ip st then st\<lparr>ds_state := DS_ACK\<rparr> else st\<lparr>ds_state := DS_NAK\<rparr>
          else st\<lparr>ds_state := DS_NAK\<rparr>
        else if ds_state st = DS_IDLE then
          let d = check_client_direct_request_ip (ds_request_ip st) st;
              d = (if d = 0 then search_next_ip st else d)
          in if d > 0 then st\<lparr>ds_allocated := ip_with_addr4 (ds_network st) (of_nat d), ds_state := DS_ACK\<rparr>
             else st\<lparr>ds_state := DS_NAK\<rparr>
        else st\<lparr>ds_state := DS_NAK\<rparr>
      else if option_message_type = 7 then st\<lparr>ds_state := DS_IDLE\<rparr>
      else st)"

text \<open>The walk over the options, from position \<open>p\<close> up to \<open>stop\<close>.\<close>

lemma nat_closer: "int p < stop \<Longrightarrow> nat (stop - int (p + (n + 2))) < nat (stop - int p)"
  by simp

fun ip_of_bytes :: "bytes \<Rightarrow> ip4" where
  "ip_of_bytes bs = (bs ! 0, bs ! 1, bs ! 2, bs ! 3)"

function options_loop :: "(nat \<Rightarrow> u8) \<Rightarrow> nat \<Rightarrow> int \<Rightarrow> u8 \<Rightarrow> dhcps \<Rightarrow> u8 \<times> dhcps" where
  "options_loop m p stop option_message_type st =
     (if int p < stop then
        let c = m p;
            option_message_type = (if c = 53 then m (p + 2) else option_message_type);
            st = (if c = 50 then st\<lparr>ds_request_ip := ip_of_bytes (get_bytes (p + 2) 4 m)\<rparr> else st)
        in options_loop m (p + (unat (m (p + 1)) + 2)) stop option_message_type st
      else (option_message_type, st))"
  by pat_completeness auto
termination by (relation "measure (\<lambda>(m, p, stop, t, st). nat (stop - int p))")
  (simp_all only: in_measure prod.case wf_measure nat_closer)

declare options_loop.simps [simp del]

definition dhcps_handle_msg_options :: "(nat \<Rightarrow> u8) \<Rightarrow> nat \<Rightarrow> int \<Rightarrow> dhcps \<Rightarrow> dhcps" where
  "dhcps_handle_msg_options m option_start total_option_length st =
     (let (option_message_type, st) =
        options_loop m option_start (int option_start + signed_take_bit 15 total_option_length) 0 st
      in dhcps_handle_state_machine_change option_message_type st)"

text \<open>The result says whether the message is a DHCP message, by its magic number.\<close>

definition dhcps_check_msg_and_handle_options :: "packet \<Rightarrow> dhcps \<Rightarrow> bool \<times> dhcps" where
  "dhcps_check_msg_and_handle_options pk st =
     (let m = pk_mem pk;
          st = st\<lparr>ds_opt_len := int (pk_len pk) - 236, ds_client := get_bytes 28 6 m\<rparr>
      in if get_bytes 236 4 m = dhcp_magic_cookie
         then (True, dhcps_handle_msg_options m 240 (ds_opt_len st - 4) st) else (False, st))"

definition dhcps_receive_udp_packet_handler ::
  "(nat \<Rightarrow> u8) option \<Rightarrow> packet \<Rightarrow> nat \<Rightarrow> dhcps \<Rightarrow> (dhcps \<times> (packet \<times> bool) option) option" where
  "dhcps_receive_udp_packet_handler fresh pk sender_port st =
     (if sender_port \<noteq> DHCP_CLIENT_PORT then Some (st, None)
      else
        let (dhcp, st) = dhcps_check_msg_and_handle_options pk st in
        if \<not> dhcp then Some (st, None)
        else
          (case ds_state st of
             DS_OFFER \<Rightarrow> dhcps_send_offer fresh pk st
           | DS_ACK \<Rightarrow>
               (case dhcps_send_ack pk st of
                  None \<Rightarrow> None
                | Some (st, sent) \<Rightarrow>
                    (case mark_ip_in_table (ip4_addr4 (ds_allocated st)) st of
                       None \<Rightarrow> None
                     | Some st \<Rightarrow>
                         let st = save_client_addr (ds_allocated st) (ds_client st) st
                         in Some (st\<lparr>ds_request_ip := ip_zero, ds_client := replicate 6 0, ds_allocated := ip_zero,
                                     ds_state := DS_IDLE\<rparr>, sent)))
           | DS_NAK \<Rightarrow> map_option (\<lambda>(st, sent). (st\<lparr>ds_state := DS_IDLE\<rparr>, sent)) (dhcps_send_nak pk st)
           | _ \<Rightarrow> Some (st, None)))"

section \<open>Set-up\<close>

definition dhcps_set_addr_pool :: "bool \<Rightarrow> ip4 \<Rightarrow> ip4 \<Rightarrow> dhcps \<Rightarrow> dhcps" where
  "dhcps_set_addr_pool addr_pool_set addr_pool_start addr_pool_end st =
     (if addr_pool_set then st\<lparr>ds_pool_set := True, ds_pool_start := addr_pool_start, ds_pool_end := addr_pool_end\<rparr>
      else st\<lparr>ds_pool_set := False\<rparr>)"

definition clear_table :: "dhcps \<Rightarrow> dhcps" where
  "clear_table st = st\<lparr>ds_range := replicate 8 0, ds_macs := (\<lambda>_. replicate 6 0)\<rparr>"

text \<open>
  \<open>pcb_ok\<close> says whether \<^verbatim>\<open>udp_new\<close> returns a control block.  The first and last usable address and
  their number, which are computed here and never read, are left out.
\<close>

definition dhcps_init :: "bool \<Rightarrow> ip4 \<Rightarrow> ip4 \<Rightarrow> ip4 \<Rightarrow> dhcps \<Rightarrow> dhcps option" where
  "dhcps_init pcb_ok ip_addr netmask gw st =
     (let st = clear_table st in
      if \<not> pcb_ok then Some st
      else
        let st = st\<lparr>ds_local := ip_addr, ds_mask := netmask, ds_gateway := gw,
                    ds_network := ip_and ip_addr netmask, ds_broadcast := ip_or_not (ip_and ip_addr netmask) netmask\<rparr>;
            st = clear_table st
        in (case mark_ip_in_table (ip4_addr4 (ds_local st)) st of
              None \<Rightarrow> None
            | Some st \<Rightarrow>
                (case mark_ip_in_table (ip4_addr4 (ds_gateway st)) st of
                   None \<Rightarrow> None
                 | Some st \<Rightarrow>
                     Some (if ds_pool_start st = ip_zero \<and> ds_pool_end st = ip_zero then
                             dhcps_set_addr_pool True (ip_with_addr4 (ds_local st) 100) (ip_with_addr4 (ds_local st) 200) st
                           else st))))"

text \<open>The DNS server that refuses every query: the two flag bytes of the reply.\<close>

definition dnss_receive_udp_packet_handler :: "packet \<Rightarrow> packet" where
  "dnss_receive_udp_packet_handler pk =
     pk\<lparr>pk_mem := (pk_mem pk)(2 := pk_mem pk 2 OR 0x80, 3 := 0x05)\<rparr>"

end
