(* ===== verification/DhcpsMsg.thy ===== *)
theory DhcpsMsg
  imports Dhcps
begin

text \<open>
  The messages of the DHCP server: what the options of a request mean, what the replies contain, and
  which memory is written.
\<close>

unbundle bit_operations_syntax

section \<open>Memory\<close>

lemma length_ip_bytes [simp]: "length (ip_bytes x) = 4"
  by (cases x) simp

lemma length_get_bytes [simp]: "length (get_bytes p n m) = n"
  by (simp add: get_bytes_def)

lemma get_bytes_nth: "i < n \<Longrightarrow> get_bytes p n m ! i = m (p + i)"
  by (simp add: get_bytes_def)

lemma put_bytes_append: "put_bytes (p + length a) b (put_bytes p a m) = put_bytes p (a @ b) m"
  by (auto simp: put_bytes_def nth_append fun_eq_iff)

lemma put_bytes_outside: "i < p \<or> p + length bs \<le> i \<Longrightarrow> put_bytes p bs m i = m i"
  by (auto simp: put_bytes_def)

lemma get_put_same: "n \<le> length bs \<Longrightarrow> get_bytes p n (put_bytes p bs m) = take n bs"
  by (auto simp: list_eq_iff_nth_eq get_bytes_nth put_bytes_def)

lemma get_put_before: "p + n \<le> q \<Longrightarrow> get_bytes p n (put_bytes q bs m) = get_bytes p n m"
  by (auto simp: list_eq_iff_nth_eq get_bytes_nth put_bytes_def)

lemma get_put_after: "q + length bs \<le> p \<Longrightarrow> get_bytes p n (put_bytes q bs m) = get_bytes p n m"
  by (auto simp: list_eq_iff_nth_eq get_bytes_nth put_bytes_def)

lemma get_bytes_split: "get_bytes p (j + k) m = get_bytes p j m @ get_bytes (p + j) k m"
  using upt_add_eq_append [of p "p + j" k] by (simp add: get_bytes_def add.assoc)

lemma get_bytes_take: "k \<le> n \<Longrightarrow> take k (get_bytes p n m) = get_bytes p k m"
  by (simp add: get_bytes_def take_map)

lemma get_bytes_drop: "k \<le> n \<Longrightarrow> drop k (get_bytes p n m) = get_bytes (p + k) (n - k) m"
  by (simp add: get_bytes_def drop_map)

section \<open>Options\<close>

text \<open>Options as codes and contents, and their bytes.\<close>

definition option_bytes :: "u8 \<times> bytes \<Rightarrow> bytes" where
  "option_bytes opt = [fst opt, of_nat (length (snd opt))] @ snd opt"

definition options_bytes :: "(u8 \<times> bytes) list \<Rightarrow> bytes" where
  "options_bytes opts = concat (map option_bytes opts)"

lemma options_bytes_simps [simp]:
  "options_bytes [] = []" "options_bytes (opt # opts) = option_bytes opt @ options_bytes opts"
  by (simp_all add: options_bytes_def)

lemma length_option_bytes: "length (option_bytes opt) = length (snd opt) + 2"
  by (simp add: option_bytes_def)

text \<open>
  What the options of a message mean for the server: the type of the message, and the requested
  address.  The options that have a meaning are long enough for it.
\<close>

fun option_meaning :: "u8 \<times> bytes \<Rightarrow> u8 \<times> dhcps \<Rightarrow> u8 \<times> dhcps" where
  "option_meaning (code, bs) (t, st) =
     (if code = 53 then bs ! 0 else t, if code = 50 then st\<lparr>ds_request_ip := ip_of_bytes (take 4 bs)\<rparr> else st)"

definition option_ok :: "u8 \<times> bytes \<Rightarrow> bool" where
  "option_ok opt \<longleftrightarrow> length (snd opt) < 256 \<and> (fst opt = 53 \<longrightarrow> 1 \<le> length (snd opt)) \<and> (fst opt = 50 \<longrightarrow> 4 \<le> length (snd opt))"

lemma get_bytes_1: "get_bytes p (Suc n) m = m p # get_bytes (Suc p) n m"
  using get_bytes_split [of p 1 n m] by (simp add: get_bytes_def)

lemma options_step:
  assumes "get_bytes p (length (option_bytes opt)) m = option_bytes opt" "option_ok opt" "int p < stop"
  shows "options_loop m p stop t st =
    (let (t, st) = option_meaning opt (t, st) in options_loop m (p + length (option_bytes opt)) stop t st)"
proof -
  obtain code bs where o: "opt = (code, bs)" by fastforce
  have b: "m p = code" "m (p + 1) = of_nat (length bs)" "get_bytes (p + 2) (length bs) m = bs"
    using assms(1) by (simp_all add: o option_bytes_def get_bytes_1 numeral_2_eq_2)
  have len: "unat (m (p + 1)) = length bs" using assms(2) unfolding b(2) by (simp add: o option_ok_def unat_of_nat)
  have "get_bytes (p + 2) 4 m = take 4 bs" if "code = 50"
    using assms(2) that b(3) get_bytes_take [of 4 "length bs" "p + 2" m] by (simp add: o option_ok_def)
  moreover have "bs ! 0 = m (p + 2)" if "code = 53"
    using assms(2) that b(3) get_bytes_nth [of 0 "length bs" "p + 2" m] by (simp add: o option_ok_def Suc_le_eq)
  ultimately show ?thesis
    using assms(3) b(1) len by (subst options_loop.simps) (simp add: o Let_def option_bytes_def add.commute)
qed

text \<open>The padding after the end option is read as empty options.\<close>

lemma options_padding:
  assumes "\<forall>i. p \<le> i \<and> int i < stop \<longrightarrow> m i = 0"
  shows "options_loop m p stop t st = (t, st)"
  using assms
proof (induction "nat (stop - int p)" arbitrary: p rule: less_induct)
  case less
  show ?case
  proof (cases "int p < stop")
    case True
    have "options_loop m (p + (unat (m (p + 1)) + 2)) stop t st = (t, st)"
      by (rule less.hyps [OF nat_closer [OF True]]) (use less.prems in auto)
    with True less.prems show ?thesis by (subst options_loop.simps) simp
  qed (subst options_loop.simps, simp)
qed

lemma options_end:
  assumes "m p = 255" "\<forall>i. p < i \<and> int i < stop \<longrightarrow> m i = 0"
  shows "options_loop m p stop t st = (t, st)"
proof -
  have "options_loop m (p + (unat (m (p + 1)) + 2)) stop t st = (t, st)"
    by (rule options_padding) (use assms(2) in auto)
  with assms(1) show ?thesis by (subst options_loop.simps) simp
qed

lemma options_list:
  assumes "get_bytes p (length (options_bytes opts @ 255 # replicate k 0)) m = options_bytes opts @ 255 # replicate k 0"
    "\<forall>opt \<in> set opts. option_ok opt" "stop = int (p + length (options_bytes opts @ 255 # replicate k (0 :: u8)))"
  shows "options_loop m p stop t st = fold option_meaning opts (t, st)"
  using assms
proof (induction opts arbitrary: p t st)
  case Nil
  then have m: "m p = 255" "get_bytes (Suc p) k m = replicate k 0" by (simp_all add: get_bytes_1)
  have "m i = 0" if "p < i" "int i < stop" for i
  proof -
    have i: "i - Suc p < k" "Suc p + (i - Suc p) = i" using that Nil.prems(3) by auto
    show ?thesis using get_bytes_nth [OF i(1), of "Suc p" m] m(2) i by simp
  qed
  with m(1) show ?case by (simp add: options_end)
next
  case (Cons opt opts)
  let ?n = "length (option_bytes opt)" and ?r = "options_bytes opts @ 255 # replicate k (0 :: u8)"
  have b: "get_bytes p ?n m @ get_bytes (p + ?n) (length ?r) m = option_bytes opt @ ?r"
    using Cons.prems(1) by (simp flip: get_bytes_split add: add.assoc)
  then have bs: "get_bytes p ?n m = option_bytes opt" "get_bytes (p + ?n) (length ?r) m = ?r" by simp_all
  have "int p < stop" using Cons.prems(3) by (simp add: length_option_bytes)
  with options_step [OF bs(1)] Cons.IH [OF bs(2)] Cons.prems(2,3) show ?case
    by (simp add: split: prod.splits)
qed

lemma options_handled:
  assumes "get_bytes 240 n m = options_bytes opts @ 255 # replicate k 0" "n = length (options_bytes opts) + 1 + k"
    "n < 2 ^ 15" "\<forall>opt \<in> set opts. option_ok opt"
  shows "dhcps_handle_msg_options m 240 (int n) st =
    (let (t, st) = fold option_meaning opts (0, st) in dhcps_handle_state_machine_change t st)"
proof -
  have "signed_take_bit 15 (int n) = int n" using assms(3) by (intro signed_take_bit_int_eq_self) simp_all
  moreover have "options_loop m 240 (int 240 + int n) 0 st = fold option_meaning opts (0, st)"
    by (rule options_list [where k = k]) (use assms(1,2,4) in simp_all)
  ultimately show ?thesis by (simp add: dhcps_handle_msg_options_def)
qed

text \<open>
  The server's walk over the options of a message finds the type and the requested address that
  the list of options gives, when the list is followed by the end option and zeros.
\<close>

theorem dhcps_options_correct:
  assumes "get_bytes 240 n m = options_bytes opts @ 255 # replicate k 0" "n = length (options_bytes opts) + 1 + k"
    "n < 2 ^ 15" "\<forall>opt \<in> set opts. option_ok opt"
  shows "dhcps_handle_msg_options m 240 (int n) st =
    (let (t, st) = fold option_meaning opts (0, st) in dhcps_handle_state_machine_change t st)"
  using assms by (rule options_handled)

text \<open>A request of 192.168.1.105 with a lease time, followed by one byte of padding.\<close>

theorem dhcps_options_correct_witness:
  "\<forall>st. dhcps_handle_msg_options (put_bytes 240 [53, 1, 3, 50, 4, 192, 168, 1, 105, 51, 2, 9, 9, 255, 0] (\<lambda>_. 7)) 240 15 st =
    dhcps_handle_state_machine_change 3 (st\<lparr>ds_request_ip := (192, 168, 1, 105)\<rparr>)"
proof
  let ?m = "put_bytes 240 [53, 1, 3, 50, 4, 192, 168, 1, 105, 51, 2, 9, 9, 255, 0] (\<lambda>_. 7)"
  let ?o = "[(53, [3]), (50, [192, 168, 1, 105]), (51, [9, 9])] :: (u8 \<times> bytes) list"
  fix st
  have "get_bytes 240 15 ?m = options_bytes ?o @ 255 # replicate 1 0"
    by (simp add: get_put_same option_bytes_def)
  from dhcps_options_correct [OF this, of st]
  show "dhcps_handle_msg_options ?m 240 15 st = dhcps_handle_state_machine_change 3 (st\<lparr>ds_request_ip := (192, 168, 1, 105)\<rparr>)"
    by (simp add: option_ok_def option_bytes_def)
qed

section \<open>Replies\<close>

text \<open>The options of a reply.\<close>

definition reply_options :: "dhcps \<Rightarrow> u8 \<Rightarrow> (u8 \<times> bytes) list" where
  "reply_options st ty =
     [(53, [ty]), (1, ip_bytes (ds_mask st)), (3, ip_bytes (ds_local st)), (6, ip_bytes (ds_local st)),
      (51, [0, 0, 0x1c, 0x20]), (54, ip_bytes (ds_local st)), (28, ip_bytes (ds_broadcast st)), (26, [0x05, 0xdc]),
      (31, [ds_null st])]"

text \<open>\<open>put_bytes\<close> to one range, and to two adjacent ranges.\<close>

lemma put_bytes_over: "length a \<le> length b \<Longrightarrow> put_bytes p a (put_bytes p b m) = put_bytes p (a @ drop (length a) b) m"
  by (auto simp: put_bytes_def fun_eq_iff nth_append)

lemma put_bytes_join: "q = p + length a \<Longrightarrow> put_bytes q b (put_bytes p a m) = put_bytes p (a @ b) m"
  by (simp add: put_bytes_append)

lemma get_put_list: "length bs = n \<Longrightarrow> get_bytes p n (put_bytes p bs m) = bs"
  by (simp add: get_put_same)

text \<open>The fixed part of a message, and the cleared options.\<close>

definition header_bytes :: "bytes \<Rightarrow> ip4 \<Rightarrow> bytes \<Rightarrow> bytes" where
  "header_bytes xid yiaddr chaddr =
     [2, 1, 6, 0] @ xid @ [0, 0, 0x80, 0] @ replicate 4 0 @ ip_bytes yiaddr @ replicate 4 0 @ replicate 4 0 @ chaddr @
     replicate 64 0 @ replicate 128 0"

lemma get_header:
  "get_bytes 0 236 m = get_bytes 0 4 m @ get_bytes 4 4 m @ get_bytes 8 4 m @ get_bytes 12 4 m @ get_bytes 16 4 m @
     get_bytes 20 4 m @ get_bytes 24 4 m @ get_bytes 28 16 m @ get_bytes 44 64 m @ get_bytes 108 128 m"
  using get_bytes_split [of 0 4 232 m] get_bytes_split [of 4 4 228 m] get_bytes_split [of 8 4 224 m]
    get_bytes_split [of 12 4 220 m] get_bytes_split [of 16 4 216 m] get_bytes_split [of 20 4 212 m]
    get_bytes_split [of 24 4 208 m] get_bytes_split [of 28 16 192 m] get_bytes_split [of 44 64 128 m]
  by simp

lemmas get_put = get_put_list get_put_before get_put_after

lemma initialize_ok:
  assumes "ds_opt_len st = int n" "4 \<le> n"
  shows "\<exists>m'. dhcps_initialize_message m st = Some (st\<lparr>ds_xid := get_bytes 4 4 m\<rparr>, m') \<and>
    (\<forall>i. 236 + n \<le> i \<longrightarrow> m' i = m i) \<and>
    get_bytes 0 236 m' = header_bytes (get_bytes 4 4 m) (ds_allocated st) (get_bytes 28 16 m) \<and>
    get_bytes 236 n m' = dhcp_magic_cookie @ replicate (n - 4) 0"
proof -
  define m1 where "m1 = put_bytes 0 [2, 1, 6, 0] m"
  define m2 where "m2 = put_bytes 108 (replicate 128 0) (put_bytes 44 (replicate 64 0) (put_bytes 24 (replicate 4 0)
    (put_bytes 20 (replicate 4 0) (put_bytes 12 (replicate 4 0) (put_bytes 16 (ip_bytes (ds_allocated st))
    (put_bytes 8 [0, 0, 0x80, 0] m1))))))"
  define m3 where "m3 = put_bytes 236 (dhcp_magic_cookie @ replicate (n - 4) 0) m2"
  have c: "length dhcp_magic_cookie = 4" by (simp add: dhcp_magic_cookie_def)
  have x: "get_bytes 4 4 m1 = get_bytes 4 4 m" by (simp add: m1_def get_put)
  have "put_bytes 236 dhcp_magic_cookie (put_bytes 236 (replicate n 0) m2) = m3"
    using assms(2) by (simp add: m3_def put_bytes_over c)
  then have "dhcps_initialize_message m st = Some (st\<lparr>ds_xid := get_bytes 4 4 m\<rparr>, m3)"
    using assms by (simp add: dhcps_initialize_message_def Let_def x flip: m1_def) (simp add: m2_def)
  moreover have "m3 i = m i" if "236 + n \<le> i" for i
    using that assms(2) by (simp add: m3_def m2_def m1_def put_bytes_outside c)
  moreover have "get_bytes 0 236 m3 = header_bytes (get_bytes 4 4 m) (ds_allocated st) (get_bytes 28 16 m)"
    unfolding get_header header_bytes_def by (simp add: m3_def m2_def m1_def get_put)
  moreover have "get_bytes 236 n m3 = dhcp_magic_cookie @ replicate (n - 4) 0"
    using assms(2) by (simp add: m3_def get_put c)
  ultimately show ?thesis by blast
qed

text \<open>The options added to a message stay below the limit; when they fit, all of them are there.\<close>

definition sized :: "nat \<times> u8 \<times> nat \<times> bytes \<Rightarrow> bool" where
  "sized opt \<longleftrightarrow> (case opt of (sz, code, len, info) \<Rightarrow> sz = len + 2 \<and> length info = len \<and> len \<in> {1, 2, 4})"

definition plain_option :: "nat \<times> u8 \<times> nat \<times> bytes \<Rightarrow> u8 \<times> bytes" where
  "plain_option opt = (case opt of (sz, code, len, info) \<Rightarrow> (code, info))"

lemma plain_option_simp [simp]: "plain_option (sz, code, len, info) = (code, info)"
  by (simp add: plain_option_def)

lemma fill_sized:
  assumes "sized (sz, code, len, info)"
  shows "fill_one_option_content p code len info m = (p + sz, put_bytes p (option_bytes (code, info)) m)"
  using assms by (auto simp: sized_def fill_one_option_content_def option_bytes_def put_bytes_join)

lemma add_options_inside:
  assumes "\<forall>opt \<in> set opts. sized opt" "start \<le> p" "int i \<ge> int start + maxlen"
  shows "snd (add_options start maxlen opts p m) i = m i"
  using assms
proof (induction opts arbitrary: p m)
  case Nil
  then show ?case by (simp add: put_bytes_outside)
next
  case (Cons opt opts)
  obtain sz code len info where o: "opt = (sz, code, len, info)" by (cases opt) auto
  then have z: "sized (sz, code, len, info)" using Cons.prems(1) by simp
  show ?case
  proof (cases "int (p + sz - start) \<le> maxlen")
    case True
    have "length (option_bytes (code, info)) = sz" using z by (auto simp: sized_def option_bytes_def)
    moreover have "p + sz \<le> i" using True Cons.prems(2,3) by linarith
    ultimately have "put_bytes p (option_bytes (code, info)) m i = m i" by (simp add: put_bytes_outside)
    with True Cons.IH [of "p + sz"] Cons.prems show ?thesis by (simp add: o fill_sized [OF z])
  qed (simp add: o)
qed

lemma add_options_fit:
  assumes "\<forall>opt \<in> set opts. sized opt" "start \<le> p"
    "int (p - start) + int (length (options_bytes (map plain_option opts))) + 1 \<le> maxlen"
  shows "add_options start maxlen opts p m = (0, put_bytes p (options_bytes (map plain_option opts) @ [255]) m)"
  using assms
proof (induction opts arbitrary: p m)
  case Nil
  then show ?case by simp
next
  case (Cons opt opts)
  obtain sz code len info where o: "opt = (sz, code, len, info)" by (cases opt) auto
  then have z: "sized (sz, code, len, info)" using Cons.prems(1) by simp
  then have n: "length (option_bytes (code, info)) = sz" by (auto simp: sized_def option_bytes_def)
  have "int (p + sz - start) \<le> maxlen" using Cons.prems(2,3) n by (simp add: o)
  moreover have "add_options start maxlen opts (p + sz) (put_bytes p (option_bytes (code, info)) m) =
      (0, put_bytes (p + sz) (options_bytes (map plain_option opts) @ [255]) (put_bytes p (option_bytes (code, info)) m))"
    by (rule Cons.IH) (use Cons.prems n in \<open>simp_all add: o\<close>)
  ultimately show ?case using n by (simp add: o fill_sized [OF z] put_bytes_join)
qed

lemma offer_options_ok:
  "\<forall>opt \<in> set (offer_options st). sized opt"
  "options_bytes (reply_options st ty) = [53, 1, ty] @ options_bytes (map plain_option (offer_options st))"
  "length (options_bytes (map plain_option (offer_options st))) = 43"
  by (simp_all add: offer_options_def sized_def reply_options_def option_bytes_def dhcp_option_lease_time_def
    dhcp_option_interface_mtu_def)

lemma add_msg_type_ok: "ty \<noteq> 6 \<Longrightarrow> add_msg_type p ty m = (p + 3, put_bytes p [53, 1, ty] m)"
  by (simp add: add_msg_type_def)

text \<open>An offer or an acknowledgement in a message with \<open>n\<close> bytes of options.\<close>

definition reply_memory :: "nat \<Rightarrow> u8 \<Rightarrow> dhcps \<Rightarrow> (nat \<Rightarrow> u8) \<Rightarrow> bytes" where
  "reply_memory n ty st m =
     header_bytes (get_bytes 4 4 m) (ds_allocated st) (get_bytes 28 16 m) @ dhcp_magic_cookie @
     options_bytes (reply_options st ty) @ 255 # replicate (n - 51) 0"

lemma reply_fits:
  assumes "ds_opt_len st = int n" "51 \<le> n" "ty \<noteq> 6"
  shows "\<exists>m1 m2. dhcps_initialize_message m st = Some (st\<lparr>ds_xid := get_bytes 4 4 m\<rparr>, m1) \<and>
    add_offer_options 243 (st\<lparr>ds_xid := get_bytes 4 4 m\<rparr>) (put_bytes 240 [53, 1, ty] m1) = (0, m2) \<and>
    get_bytes 0 (236 + n) m2 = reply_memory n ty st m \<and> (\<forall>i. 236 + n \<le> i \<longrightarrow> m2 i = m i)"
proof -
  let ?st = "st\<lparr>ds_xid := get_bytes 4 4 m\<rparr>"
  let ?opts = "options_bytes (reply_options st ty) @ [255]"
  have "4 \<le> n" using assms(2) by simp
  from initialize_ok [OF assms(1) this] obtain m1 where m1: "dhcps_initialize_message m st = Some (?st, m1)"
    "\<forall>i. 236 + n \<le> i \<longrightarrow> m1 i = m i"
    "get_bytes 0 236 m1 = header_bytes (get_bytes 4 4 m) (ds_allocated st) (get_bytes 28 16 m)"
    "get_bytes 236 n m1 = dhcp_magic_cookie @ replicate (n - 4) 0" by blast
  have o: "offer_options ?st = offer_options st" by (simp add: offer_options_def)
  have l: "length ?opts = 47" by (simp add: offer_options_ok(2,3))
  have c: "length dhcp_magic_cookie = 4" by (simp add: dhcp_magic_cookie_def)
  define m2 where "m2 = put_bytes 240 ?opts m1"
  have "add_options 243 (int n - 7) (offer_options st) 243 (put_bytes 240 [53, 1, ty] m1) = (0, m2)"
    using assms(2) offer_options_ok(3) [of st]
    by (subst add_options_fit) (simp_all add: offer_options_ok(1,2) m2_def put_bytes_join)
  then have "add_offer_options 243 ?st (put_bytes 240 [53, 1, ty] m1) = (0, m2)"
    using assms(1) by (simp add: add_offer_options_def o)
  moreover have "get_bytes 0 (236 + n) m2 = reply_memory n ty st m"
  proof -
    have n: "236 + n = 236 + (4 + (47 + (n - 51)))" using assms(2) by simp
    have t: "get_bytes 287 (n - 51) m1 = replicate (n - 51) 0"
      using get_bytes_drop [of 51 n 236 m1] assms(2) m1(4) c by simp
    have k: "get_bytes 236 4 m1 = dhcp_magic_cookie" using get_bytes_take [of 4 n 236 m1] assms(2) m1(4) c by simp
    have "get_bytes 0 (236 + n) m2 = get_bytes 0 236 m2 @ get_bytes 236 4 m2 @ get_bytes 240 47 m2 @ get_bytes 287 (n - 51) m2"
      unfolding n get_bytes_split by simp
    also have "\<dots> = reply_memory n ty st m"
      using l m1(3) t k by (simp add: m2_def get_put reply_memory_def)
    finally show ?thesis .
  qed
  moreover have "m2 i = m i" if "236 + n \<le> i" for i
    using that assms(2) m1(2) l by (simp add: m2_def put_bytes_outside)
  ultimately show ?thesis using m1(1) by blast
qed

lemma send_ack_ok:
  assumes "287 \<le> pk_len pk" "ds_opt_len st = int (pk_len pk) - 236"
  shows "\<exists>pk'. dhcps_send_ack pk st = Some (st\<lparr>ds_xid := get_bytes 4 4 (pk_mem pk)\<rparr>, Some (pk', True)) \<and>
    pk_len pk' = pk_len pk \<and> get_bytes 0 (pk_len pk) (pk_mem pk') = reply_memory (pk_len pk - 236) 5 st (pk_mem pk)"
proof -
  have n: "ds_opt_len st = int (pk_len pk - 236)" "51 \<le> pk_len pk - 236" "236 + (pk_len pk - 236) = pk_len pk"
    using assms by simp_all
  from reply_fits [OF n(1,2), of 5 "pk_mem pk"] show ?thesis
    by (auto simp: dhcps_send_ack_def add_msg_type_ok n(3))
qed

text \<open>
  When the request has room for it, the acknowledgement that replaces it in the same packet has the
  client's transaction id and hardware address, the allocated address, and the options of the server
  in order, ended and padded with zeros.
\<close>

theorem dhcps_ack_message:
  assumes "287 \<le> pk_len pk" "ds_opt_len st = int (pk_len pk) - 236"
  shows "\<exists>pk'. dhcps_send_ack pk st = Some (st\<lparr>ds_xid := get_bytes 4 4 (pk_mem pk)\<rparr>, Some (pk', True)) \<and>
    pk_len pk' = pk_len pk \<and>
    get_bytes 0 (pk_len pk) (pk_mem pk') =
      header_bytes (get_bytes 4 4 (pk_mem pk)) (ds_allocated st) (get_bytes 28 16 (pk_mem pk)) @ dhcp_magic_cookie @
      options_bytes (reply_options st 5) @ 255 # replicate (pk_len pk - 287) 0"
  using send_ack_ok [OF assms] by (simp add: reply_memory_def)

definition demo_dhcps :: dhcps where
  "demo_dhcps = \<lparr>ds_state = DS_IDLE, ds_xid = replicate 4 0xff, ds_local = (192, 168, 1, 1), ds_mask = (255, 255, 255, 0),
     ds_gateway = (192, 168, 1, 1), ds_network = (192, 168, 1, 0), ds_broadcast = (192, 168, 1, 255),
     ds_allocated = (192, 168, 1, 105), ds_pool_set = True, ds_pool_start = (192, 168, 1, 100),
     ds_pool_end = (192, 168, 1, 120), ds_range = 1 # replicate 7 0, ds_macs = (\<lambda>_. replicate 6 0),
     ds_request_ip = ip_zero, ds_client = replicate 6 0, ds_opt_len = 64, ds_null = 7\<rparr>"

theorem dhcps_ack_message_witness:
  "\<exists>pk'. dhcps_send_ack \<lparr>pk_len = 300, pk_mem = (\<lambda>i. of_nat i)\<rparr> demo_dhcps =
      Some (demo_dhcps\<lparr>ds_xid := [4, 5, 6, 7]\<rparr>, Some (pk', True)) \<and> get_bytes 16 4 (pk_mem pk') = [192, 168, 1, 105]"
proof -
  let ?pk = "\<lparr>pk_len = 300, pk_mem = (\<lambda>i. of_nat i)\<rparr> :: packet"
  have x: "get_bytes 4 4 (\<lambda>i. of_nat i :: u8) = [4, 5, 6, 7]" by (simp add: get_bytes_def upt_rec)
  from dhcps_ack_message [of ?pk demo_dhcps] obtain pk' where
    p: "dhcps_send_ack ?pk demo_dhcps = Some (demo_dhcps\<lparr>ds_xid := [4, 5, 6, 7]\<rparr>, Some (pk', True))"
    "get_bytes 0 300 (pk_mem pk') = header_bytes [4, 5, 6, 7] (ds_allocated demo_dhcps) (get_bytes 28 16 (\<lambda>i. of_nat i)) @
       dhcp_magic_cookie @ options_bytes (reply_options demo_dhcps 5) @ 255 # replicate 13 0"
    by (auto simp: demo_dhcps_def x)
  have "get_bytes 16 4 (pk_mem pk') = take 4 (drop 16 (get_bytes 0 300 (pk_mem pk')))"
    by (simp add: get_bytes_drop get_bytes_take)
  also have "\<dots> = [192, 168, 1, 105]" unfolding p(2) by (simp add: header_bytes_def demo_dhcps_def)
  finally show ?thesis using p(1) by blast
qed

section \<open>Memory that is written\<close>

lemma add_options_le:
  "int i \<ge> int start + (ds_opt_len st - 7) \<Longrightarrow> snd (add_offer_options start st m) i = m i"
  using add_options_inside [OF offer_options_ok(1), of start start "ds_opt_len st - 7" i] by (simp add: add_offer_options_def)

lemma send_inside:
  assumes "ds_opt_len st = int n" "8 \<le> n" "dhcps_initialize_message m st = Some (st', m')" "236 + n \<le> i"
  shows "snd (add_msg_type 240 ty m') i = m i"
    "ty \<noteq> 6 \<Longrightarrow> add_msg_type 240 ty m' = (p, m2) \<Longrightarrow> snd (add_offer_options p st' m2) i = m i"
proof -
  from initialize_ok [OF assms(1), of m] assms(2,3) have m: "st' = st\<lparr>ds_xid := get_bytes 4 4 m\<rparr>" "\<forall>i. 236 + n \<le> i \<longrightarrow> m' i = m i"
    by auto
  show t: "snd (add_msg_type 240 ty m') i = m i"
    using assms(2,4) m(2) by (simp add: add_msg_type_def Let_def put_bytes_outside)
  show "snd (add_offer_options p st' m2) i = m i" if "ty \<noteq> 6" "add_msg_type 240 ty m' = (p, m2)"
    using that t assms(1,4) by (subst add_options_le) (auto simp: add_msg_type_ok m(1))
qed

lemma send_ack_inside:
  assumes "dhcps_send_ack pk st = Some (st', Some (pk', sent))" "ds_opt_len st = int (pk_len pk) - 236" "244 \<le> pk_len pk"
    "pk_len pk \<le> i"
  shows "pk_len pk' = pk_len pk \<and> pk_mem pk' i = pk_mem pk i"
proof -
  have n: "ds_opt_len st = int (pk_len pk - 236)" "8 \<le> pk_len pk - 236" "236 + (pk_len pk - 236) \<le> i" using assms by simp_all
  obtain st1 m1 where m1: "dhcps_initialize_message (pk_mem pk) st = Some (st1, m1)"
    using assms(1) by (auto simp: dhcps_send_ack_def split: option.splits)
  from send_inside(2) [OF n(1,2) m1 n(3), of 5] show ?thesis
    using assms(1) m1 by (auto simp: dhcps_send_ack_def split: prod.splits)
qed

lemma send_nak_inside:
  assumes "dhcps_send_nak pk st = Some (st', Some (pk', sent))" "ds_opt_len st = int (pk_len pk) - 236" "244 \<le> pk_len pk"
    "pk_len pk \<le> i"
  shows "pk_len pk' = pk_len pk \<and> pk_mem pk' i = pk_mem pk i"
proof -
  have n: "ds_opt_len st = int (pk_len pk - 236)" "8 \<le> pk_len pk - 236" "236 + (pk_len pk - 236) \<le> i" using assms by simp_all
  obtain st1 m1 where m1: "dhcps_initialize_message (pk_mem pk) st = Some (st1, m1)"
    using assms(1) by (auto simp: dhcps_send_nak_def split: option.splits)
  from send_inside(1) [OF n(1,2) m1 n(3), of 6] show ?thesis
    using assms(1) m1 by (auto simp: dhcps_send_nak_def split: prod.splits)
qed

text \<open>The state in which an offer is written: \<open>a\<close> is the address that the client holds, or zero.\<close>

definition offer_state :: "nat \<Rightarrow> dhcps \<Rightarrow> dhcps" where
  "offer_state a st =
     st\<lparr>ds_opt_len := 312,
        ds_allocated := ip_with_addr4 (ds_network st) (of_nat (if a = 0 then search_next_ip (st\<lparr>ds_opt_len := 312\<rparr>) else a))\<rparr>"

lemma offer_unfold:
  assumes "\<not> 548 < pk_len pk" "check_client_request_ip (ds_client st) (st\<lparr>ds_opt_len := 312\<rparr>) = Some a"
  shows "dhcps_send_offer (Some heap) pk st =
    (case dhcps_initialize_message (\<lambda>i. if i < pk_len pk then pk_mem pk i else heap i) (offer_state a st) of
       None \<Rightarrow> None
     | Some (st, m) \<Rightarrow>
         let (p, m) = add_msg_type 240 2 m; (rc, m) = add_offer_options p st m
         in Some (st, Some (\<lparr>pk_len = 548, pk_mem = m\<rparr>, rc = 0)))"
  using assms by (cases "a = 0") (simp_all add: dhcps_send_offer_def offer_state_def Let_def)

lemma send_offer_inside:
  assumes "dhcps_send_offer fresh pk st = Some (st', Some (pk', sent))"
  shows "\<exists>heap. fresh = Some heap \<and> pk_len pk' = 548 \<and> (\<forall>i \<ge> 548. pk_mem pk' i = heap i)"
proof -
  from assms obtain heap a where h: "fresh = Some heap" "\<not> 548 < pk_len pk"
    "check_client_request_ip (ds_client st) (st\<lparr>ds_opt_len := 312\<rparr>) = Some a"
    by (auto simp: dhcps_send_offer_def Let_def split: option.splits if_splits)
  define st1 where "st1 = offer_state a st"
  define m where "m = (\<lambda>i. if i < pk_len pk then pk_mem pk i else heap i)"
  obtain st2 m1 where m1: "dhcps_initialize_message m st1 = Some (st2, m1)"
    using initialize_ok [of st1 312 m] by (auto simp: st1_def offer_state_def)
  have "ds_opt_len st1 = int 312" by (simp add: st1_def offer_state_def)
  note in2 = send_inside(2) [OF this _ m1]
  obtain p m2 where m2: "add_msg_type 240 2 m1 = (p, m2)" by fastforce
  have "dhcps_send_offer fresh pk st =
      (let (rc, m3) = add_offer_options p st2 m2 in Some (st2, Some (\<lparr>pk_len = 548, pk_mem = m3\<rparr>, rc = 0)))"
    using h m1 m2 by (simp add: offer_unfold [OF h(2,3)] flip: m_def st1_def)
  then have "pk_len pk' = 548 \<and> pk_mem pk' = snd (add_offer_options p st2 m2)"
    using assms by (auto split: prod.splits)
  moreover have "snd (add_offer_options p st2 m2) i = heap i" if "548 \<le> i" for i
    using in2 [of i 2 p m2] m2 that h(2) by (simp add: m_def)
  ultimately show ?thesis using h(1) by simp
qed

lemma options_loop_frame: "\<exists>ip. snd (options_loop m p stop t st) = st\<lparr>ds_request_ip := ip\<rparr>"
proof (induction m p stop t st rule: options_loop.induct)
  case (1 m p stop t st)
  show ?case
  proof (cases "int p < stop")
    case True
    from "1.IH" [OF True refl refl refl] show ?thesis
      using True by (subst options_loop.simps) (auto simp: Let_def split: if_splits)
  next
    case False
    then have "snd (options_loop m p stop t st) = st\<lparr>ds_request_ip := ds_request_ip st\<rparr>"
      by (subst options_loop.simps) simp
    then show ?thesis by blast
  qed
qed

lemma check_msg_frame:
  assumes "dhcps_check_msg_and_handle_options pk st = (dhcp, st')"
  shows "ds_opt_len st' = int (pk_len pk) - 236"
proof -
  define st1 where "st1 = st\<lparr>ds_opt_len := int (pk_len pk) - 236, ds_client := get_bytes 28 6 (pk_mem pk)\<rparr>"
  have c: "ds_opt_len (dhcps_handle_state_machine_change t s) = ds_opt_len s" for t s
    by (simp add: dhcps_handle_state_machine_change_def Let_def)
  have "ds_opt_len (dhcps_handle_msg_options (pk_mem pk) 240 n st1) = ds_opt_len st1" for n
    using options_loop_frame [of "pk_mem pk" 240 "int 240 + signed_take_bit 15 n" 0 st1]
    by (auto simp: dhcps_handle_msg_options_def Let_def c split: prod.splits)
  then show ?thesis
    using assms by (auto simp: dhcps_check_msg_and_handle_options_def Let_def st1_def split: if_splits)
qed

text \<open>
  C21. Whatever the contents of a packet with at least 244 bytes, the server writes only inside the
  packet, or inside the buffer that it has allocated for its offer.
\<close>

theorem dhcps_writes_inside:
  assumes "dhcps_receive_udp_packet_handler fresh pk sender_port st = Some (st', Some (pk', sent))" "244 \<le> pk_len pk"
  shows "pk_len pk' = pk_len pk \<and> (\<forall>i \<ge> pk_len pk'. pk_mem pk' i = pk_mem pk i) \<or>
    (\<exists>heap. fresh = Some heap \<and> pk_len pk' = 548 \<and> (\<forall>i \<ge> pk_len pk'. pk_mem pk' i = heap i))"
proof -
  obtain dhcp st1 where c: "dhcps_check_msg_and_handle_options pk st = (dhcp, st1)" by fastforce
  note n = check_msg_frame [OF c]
  show ?thesis
  proof (cases "ds_state st1")
    case DS_OFFER
    then have "dhcps_send_offer fresh pk st1 = Some (st', Some (pk', sent))"
      using assms(1) c by (auto simp: dhcps_receive_udp_packet_handler_def split: if_splits)
    from send_offer_inside [OF this] show ?thesis by auto
  next
    case DS_ACK
    then obtain st2 where "dhcps_send_ack pk st1 = Some (st2, Some (pk', sent))"
      using assms(1) c by (auto simp: dhcps_receive_udp_packet_handler_def split: if_splits option.splits)
    from send_ack_inside [OF this n assms(2)] show ?thesis by (metis order.refl)
  next
    case DS_NAK
    then obtain st2 where "dhcps_send_nak pk st1 = Some (st2, Some (pk', sent))"
      using assms(1) c by (auto simp: dhcps_receive_udp_packet_handler_def split: if_splits)
    from send_nak_inside [OF this n assms(2)] show ?thesis by (metis order.refl)
  qed (use assms(1) c in \<open>auto simp: dhcps_receive_udp_packet_handler_def split: if_splits\<close>)
qed

end
