(* ===== verification/DhcpsLease.thy ===== *)
theory DhcpsLease
  imports DhcpsMsg
begin

text \<open>
  The addresses that the DHCP server leases: the table, one transaction of a client, and sequences of
  transactions.
\<close>

unbundle bit_operations_syntax

section \<open>The table\<close>

text \<open>Address \<open>i\<close>, from 1 to 256, is bit \<open>(i - 1) mod 32\<close> of word \<open>(i - 1) div 32\<close>.\<close>

definition marked :: "dhcps \<Rightarrow> nat \<Rightarrow> bool" where
  "marked st i \<longleftrightarrow> bit (ds_range st ! ((i - 1) div 32)) ((i - 1) mod 32)"

abbreviation no_mac :: bytes where "no_mac \<equiv> replicate 6 0"

text \<open>
  The invariant of a server with a pool \<open>s..e\<close> below 128: only marked addresses of the pool have a
  client, and no two the same.  It depends on six fields of the state.
\<close>

definition table_ok :: "nat \<Rightarrow> nat \<Rightarrow> dhcps \<Rightarrow> bool" where
  "table_ok s e st \<longleftrightarrow> length (ds_range st) = 8 \<and> ds_pool_set st \<and>
     unat (ip4_addr4 (ds_pool_start st)) = s \<and> unat (ip4_addr4 (ds_pool_end st)) = e \<and> 100 \<le> s \<and> e \<le> 127 \<and>
     (\<forall>i. ds_macs st i \<noteq> no_mac \<longrightarrow> s \<le> i \<and> i \<le> e \<and> marked st i) \<and>
     (\<forall>i j. ds_macs st i = ds_macs st j \<and> ds_macs st i \<noteq> no_mac \<longrightarrow> i = j)"

definition leases_ok :: "nat \<Rightarrow> nat \<Rightarrow> dhcps \<Rightarrow> bool" where
  "leases_ok s e st \<longleftrightarrow> ds_state st = DS_IDLE \<and> table_ok s e st"

definition same_table :: "dhcps \<Rightarrow> dhcps \<Rightarrow> bool" where
  "same_table st' st \<longleftrightarrow> ds_range st' = ds_range st \<and> ds_macs st' = ds_macs st \<and> ds_pool_set st' = ds_pool_set st \<and>
     ds_pool_start st' = ds_pool_start st \<and> ds_pool_end st' = ds_pool_end st \<and> ds_network st' = ds_network st"

lemma same_table_eq:
  assumes "same_table st' st"
  shows "table_ok s e st' \<longleftrightarrow> table_ok s e st" "request_loop hw i st' = request_loop hw i st"
    "search_next_ip st' = search_next_ip st" "ds_macs st' = ds_macs st" "ds_network st' = ds_network st"
proof -
  show "table_ok s e st' \<longleftrightarrow> table_ok s e st" "search_next_ip st' = search_next_ip st" "ds_macs st' = ds_macs st"
    "ds_network st' = ds_network st"
    using assms by (simp_all add: same_table_def table_ok_def marked_def search_next_ip_def)
  show "request_loop hw i st' = request_loop hw i st"
  proof (induction "201 - i" arbitrary: i)
    case 0
    then show ?case by (subst (1 2) request_loop.simps) simp
  next
    case (Suc n)
    then have "request_loop hw (Suc i) st' = request_loop hw (Suc i) st" by simp
    then show ?case using assms by (subst (1 2) request_loop.simps) (simp add: same_table_def)
  qed
qed

lemma bit_drop_and: "drop_bit k (w :: u32) AND 1 = 0 \<longleftrightarrow> \<not> bit w k"
  using even_drop_bit_iff_not_bit [of k w] by (simp add: and_one_eq even_iff_mod_2_eq_zero)

lemma low_addresses:
  fixes d :: nat
  assumes "100 \<le> d" "d \<le> 127"
  shows "d div 32 = 3" "d mod 32 = d - 96" "(d - 1) div 32 = 3" "(d - 1) mod 32 = d - 97"
proof -
  have "\<forall>d \<in> set [100..<128]. d div 32 = 3 \<and> d mod 32 = d - 96 \<and> (d - 1) div 32 = 3 \<and> (d - 1) mod 32 = d - (97 :: nat)"
    by (simp add: upt_rec)
  moreover have "d \<in> set [100..<128]" using assms by (simp only: set_upt atLeastLessThan_iff) simp
  ultimately have "d div 32 = 3 \<and> d mod 32 = d - 96 \<and> (d - 1) div 32 = 3 \<and> (d - 1) mod 32 = d - 97" by blast
  then show "d div 32 = 3" "d mod 32 = d - 96" "(d - 1) div 32 = 3" "(d - 1) mod 32 = d - 97" by simp_all
qed

lemma request_loop_skip: "i \<le> DHCP_POOL_END \<Longrightarrow> ds_macs st i \<noteq> hw \<Longrightarrow> request_loop hw i st = request_loop hw (Suc i) st"
  by (subst request_loop.simps) simp

lemma request_loop_free:
  assumes "\<And>j. ds_macs st j \<noteq> hw"
  shows "request_loop hw i st = Some 0"
proof (induction "201 - i" arbitrary: i)
  case 0
  then show ?case by (subst request_loop.simps) simp
next
  case (Suc n)
  then have "request_loop hw (Suc i) st = Some 0" by simp
  with request_loop_skip [of i st hw] Suc(2) assms show ?case by simp
qed

lemma request_loop_found:
  assumes "ds_macs st d = hw" "\<And>j. ds_macs st j = hw \<Longrightarrow> j = d" "100 \<le> d" "d \<le> 127" "marked st d" "i \<le> d"
  shows "request_loop hw i st = Some d"
  using assms(6)
proof (induction "d - i" arbitrary: i)
  case 0
  then have i: "i = d" by simp
  have "\<not> DHCP_POOL_END < d" "d - 96 \<noteq> 0" "d - 96 - 1 = d - 97" using assms(3,4) by simp_all
  with low_addresses [OF assms(3,4)] show ?case
    using assms(1,5) i by (subst request_loop.simps) (simp add: marked_def bit_drop_and)
next
  case (Suc n)
  then have "request_loop hw (Suc i) st = Some d" by simp
  moreover have "ds_macs st i \<noteq> hw" using assms(2) [of i] Suc(2) by auto
  ultimately show ?case using request_loop_skip [of i st hw] Suc(3) assms(4) by simp
qed

lemma search_next:
  assumes "ds_pool_set st" "unat (ip4_addr4 (ds_pool_start st)) = s" "unat (ip4_addr4 (ds_pool_end st)) = e" "1 \<le> s" "e < 256"
  shows "if \<exists>i. s \<le> i \<and> i \<le> e \<and> \<not> marked st i
    then s \<le> search_next_ip st \<and> search_next_ip st \<le> e \<and> \<not> marked st (search_next_ip st)
    else search_next_ip st = 0"
proof -
  let ?P = "\<lambda>(r, k). drop_bit k (ds_range st ! r) AND 1 = 0 \<and> r * 32 + (k + 1) \<ge> s \<and> r * 32 + (k + 1) \<le> e"
  let ?L = "[(r, k). r \<leftarrow> [0..<8], k \<leftarrow> [0..<32]] :: (nat \<times> nat) list"
  have r: "search_next_ip st = (case find ?P ?L of None \<Rightarrow> 0 | Some (r, k) \<Rightarrow> (r * 32 + (k + 1)) mod 256)"
    using assms(1-3) by (simp add: search_next_ip_def)
  have L: "(r, k) \<in> set ?L \<longleftrightarrow> r < 8 \<and> k < 32" for r k by (auto simp: image_iff)
  have m: "marked st (r * 32 + (k + 1)) \<longleftrightarrow> bit (ds_range st ! r) k" if "k < 32" for r k
    using that by (simp add: marked_def)
  show ?thesis
  proof (cases "find ?P ?L")
    case None
    have "marked st i" if "s \<le> i" "i \<le> e" for i
    proof -
      define r where "r = (i - 1) div 32"
      define k where "k = (i - 1) mod 32"
      have "r < 8" using that(2) assms(5) by (simp add: r_def less_mult_imp_div_less)
      moreover have "k < 32" by (simp add: k_def)
      moreover have "i = r * 32 + (k + 1)" using that(1) assms(4) by (simp add: r_def k_def)
      ultimately have "bit (ds_range st ! r) k" using None that L [of r k] by (auto simp: find_None_iff bit_drop_and)
      with m [OF \<open>k < 32\<close>, of r] \<open>i = _\<close> show ?thesis by simp
    qed
    with None r show ?thesis by auto
  next
    case (Some x)
    obtain q k where x: "x = (q, k)" by fastforce
    with Some have "(q, k) \<in> set ?L" "?P (q, k)" by (auto simp only: find_Some_iff set_conv_nth)
    then have "q < 8" "k < 32" "\<not> bit (ds_range st ! q) k" "s \<le> q * 32 + (k + 1)" "q * 32 + (k + 1) \<le> e"
      unfolding L by (simp_all add: bit_drop_and)
    moreover from this assms(5) have "search_next_ip st = q * 32 + (k + 1)" unfolding r Some x by simp
    ultimately show ?thesis using m [of k q] by auto
  qed
qed

text \<open>Marking an address, where its shift is defined.\<close>

lemma mark_word:
  assumes "1 \<le> d" "d < 256" "\<not> (128 < d \<and> d \<le> 160)"
  shows "mark_ip_in_table (of_nat d) st = mark_bit ((d - 1) div 32) (int ((d - 1) mod 32) + 1) st"
proof -
  define q where "q = (d - 1) div 32"
  define k where "k = (d - 1) mod 32"
  have d: "d = 32 * q + k + 1" "k < 32" using assms(1) by (simp_all add: q_def k_def)
  then have q: "q < 8" "q \<noteq> 4" using assms(2,3) by auto
  have u: "uint (of_nat d :: u8) = int d" using assms(2) by (simp add: unsigned_of_nat take_bit_nat_eq_self)
  have "q \<in> {0, 1, 2, 3, 5, 6, 7}" using q by auto
  then have "mark_ip_in_table (of_nat d) st = mark_bit q (int k + 1) st"
    unfolding mark_ip_in_table_def u Let_def using d by (elim insertE emptyE) (simp_all add: add.commute)
  then show ?thesis by (simp add: q_def k_def)
qed

lemma mark_ok:
  assumes "1 \<le> d" "d < 256" "\<not> (128 < d \<and> d \<le> 160)" "length (ds_range st) = 8"
  shows "\<exists>rng. mark_ip_in_table (of_nat d) st = Some (st\<lparr>ds_range := rng\<rparr>) \<and> length rng = 8 \<and>
    (\<forall>i. 1 \<le> i \<longrightarrow> marked (st\<lparr>ds_range := rng\<rparr>) i \<longleftrightarrow> marked st i \<or> i = d)"
proof -
  let ?q = "(d - 1) div 32" and ?k = "(d - 1) mod 32"
  define rng where "rng = (ds_range st)[?q := ds_range st ! ?q OR push_bit ?k 1]"
  have "shl1 (int ?k) = Some (push_bit ?k 1)" by (simp add: shl1_def nat_mod_distrib)
  then have "mark_ip_in_table (of_nat d) st = Some (st\<lparr>ds_range := rng\<rparr>)"
    unfolding mark_word [OF assms(1-3)] by (simp add: mark_bit_def rng_def)
  moreover have "marked (st\<lparr>ds_range := rng\<rparr>) i \<longleftrightarrow> marked st i \<or> i = d" if "1 \<le> i" for i
  proof (cases "(i - 1) div 32 = ?q")
    case True
    have "?q < 8" using assms(2) by (simp add: less_mult_imp_div_less)
    then have "marked (st\<lparr>ds_range := rng\<rparr>) i \<longleftrightarrow> marked st i \<or> (i - 1) mod 32 = ?k"
      using True assms(4) by (auto simp: marked_def rng_def bit_or_iff bit_exp_iff possible_bit_word)
    moreover have "(i - 1) mod 32 = ?k \<longleftrightarrow> i = d"
      using True that assms(1) by (metis Suc_diff_1 Suc_le_eq div_mult_mod_eq One_nat_def)
    ultimately show ?thesis by simp
  next
    case False
    then have "i \<noteq> d" by auto
    with False show ?thesis by (auto simp: marked_def rng_def)
  qed
  ultimately show ?thesis by (auto simp: rng_def assms(4))
qed

section \<open>Messages of clients\<close>

definition client_message :: "bytes \<Rightarrow> (u8 \<times> bytes) list \<Rightarrow> packet \<Rightarrow> bool" where
  "client_message mac opts pk \<longleftrightarrow> length mac = 6 \<and> mac \<noteq> no_mac \<and> get_bytes 28 6 (pk_mem pk) = mac \<and>
     get_bytes 236 4 (pk_mem pk) = dhcp_magic_cookie \<and> list_all option_ok opts \<and> 240 \<le> pk_len pk \<and> pk_len pk \<le> 548 \<and>
     (\<exists>k. get_bytes 240 (pk_len pk - 240) (pk_mem pk) = options_bytes opts @ 255 # replicate k 0)"

text \<open>A discover message, and a request of an address, with any other options; a request of at least 287 bytes.\<close>

definition discover :: "bytes \<Rightarrow> packet \<Rightarrow> bool" where
  "discover mac pk \<longleftrightarrow> (\<exists>opts. (\<forall>opt \<in> set opts. fst opt \<noteq> 53) \<and> client_message mac ((53, [1]) # opts) pk)"

definition request :: "bytes \<Rightarrow> ip4 \<Rightarrow> packet \<Rightarrow> bool" where
  "request mac ip pk \<longleftrightarrow> 287 \<le> pk_len pk \<and>
     (\<exists>pre post. (\<forall>opt \<in> set (pre @ post). fst opt \<noteq> 53 \<and> fst opt \<noteq> 50) \<and>
        client_message mac ((53, [3]) # pre @ (50, ip_bytes ip) # post) pk)"

definition is_reply :: "u8 \<Rightarrow> ip4 \<Rightarrow> packet \<Rightarrow> bool" where
  "is_reply ty ip pk \<longleftrightarrow> get_bytes 240 3 (pk_mem pk) = [53, 1, ty] \<and> get_bytes 16 4 (pk_mem pk) = ip_bytes ip"

lemma check_msg_ok:
  assumes "client_message mac opts pk"
  shows "dhcps_check_msg_and_handle_options pk st =
    (True, let (t, st) = fold option_meaning opts (0, st\<lparr>ds_opt_len := int (pk_len pk) - 236, ds_client := mac\<rparr>)
           in dhcps_handle_state_machine_change t st)"
proof -
  from assms obtain k where k: "get_bytes 240 (pk_len pk - 240) (pk_mem pk) = options_bytes opts @ 255 # replicate k 0"
    "get_bytes 28 6 (pk_mem pk) = mac" "get_bytes 236 4 (pk_mem pk) = dhcp_magic_cookie" "list_all option_ok opts"
    "240 \<le> pk_len pk" "pk_len pk \<le> 548"
    by (auto simp: client_message_def)
  have n: "pk_len pk - 240 = length (options_bytes opts) + 1 + k" using arg_cong [OF k(1), of length] by simp
  from options_handled [OF k(1) n] k(4-6) show ?thesis
    by (simp add: dhcps_check_msg_and_handle_options_def k(2,3) Let_def list_all_iff)
qed

lemma fold_no_type:
  "\<forall>opt \<in> set opts. fst opt \<noteq> 53 \<Longrightarrow> \<exists>ip. fold option_meaning opts (t, st) = (t, st\<lparr>ds_request_ip := ip\<rparr>)"
proof (induction opts arbitrary: st)
  case Nil
  have "fold option_meaning [] (t, st) = (t, st\<lparr>ds_request_ip := ds_request_ip st\<rparr>)" by simp
  then show ?case by blast
next
  case (Cons opt opts)
  obtain code bs where o: "opt = (code, bs)" by fastforce
  have "\<exists>ip. option_meaning opt (t, st) = (t, st\<lparr>ds_request_ip := ip\<rparr>)"
  proof (cases "code = 50")
    case False
    then have "option_meaning opt (t, st) = (t, st\<lparr>ds_request_ip := ds_request_ip st\<rparr>)" using Cons.prems by (simp add: o)
    then show ?thesis by blast
  qed (use Cons.prems in \<open>auto simp: o\<close>)
  then obtain ip where "option_meaning opt (t, st) = (t, st\<lparr>ds_request_ip := ip\<rparr>)" by blast
  with Cons.IH [of "st\<lparr>ds_request_ip := ip\<rparr>"] Cons.prems show ?case by simp
qed

lemma fold_no_request:
  "\<forall>opt \<in> set opts. fst opt \<noteq> 53 \<and> fst opt \<noteq> 50 \<Longrightarrow> fold option_meaning opts (t, st) = (t, st)"
proof (induction opts)
  case (Cons opt opts)
  then show ?case by (cases opt) auto
qed simp

lemma ip_of_ip_bytes [simp]: "ip_of_bytes (ip_bytes ip) = ip"
  by (cases ip) simp

declare ip_of_bytes.simps [simp del]

lemma discover_msg:
  assumes "discover mac pk"
  shows "\<exists>ip. dhcps_check_msg_and_handle_options pk st =
    (True, dhcps_handle_state_machine_change 1
       (st\<lparr>ds_opt_len := int (pk_len pk) - 236, ds_client := mac, ds_request_ip := ip\<rparr>))"
proof -
  from assms obtain opts where o: "\<forall>opt \<in> set opts. fst opt \<noteq> 53" "client_message mac ((53, [1]) # opts) pk"
    by (auto simp: discover_def)
  let ?st = "st\<lparr>ds_opt_len := int (pk_len pk) - 236, ds_client := mac\<rparr>"
  from fold_no_type [OF o(1), of 1 ?st] obtain ip where "fold option_meaning opts (1, ?st) = (1, ?st\<lparr>ds_request_ip := ip\<rparr>)"
    by blast
  with check_msg_ok [OF o(2), of st] show ?thesis by (intro exI [of _ ip]) simp
qed

lemma request_msg:
  assumes "request mac ip pk"
  shows "dhcps_check_msg_and_handle_options pk st =
    (True, dhcps_handle_state_machine_change 3
       (st\<lparr>ds_opt_len := int (pk_len pk) - 236, ds_client := mac, ds_request_ip := ip\<rparr>))"
proof -
  from assms obtain pre post where o: "\<forall>opt \<in> set (pre @ post). fst opt \<noteq> 53 \<and> fst opt \<noteq> 50"
    "client_message mac ((53, [3]) # pre @ (50, ip_bytes ip) # post) pk" by (auto simp: request_def)
  from check_msg_ok [OF o(2), of st] o(1) show ?thesis
    by (simp add: fold_no_request)
qed

section \<open>A transaction\<close>

text \<open>The address that a client is offered: the one it holds, or a free one.\<close>

definition offers :: "bytes \<Rightarrow> dhcps \<Rightarrow> nat \<Rightarrow> bool" where
  "offers mac st d \<longleftrightarrow> ds_macs st d = mac \<or> (\<forall>j. ds_macs st j \<noteq> mac) \<and> d = search_next_ip st"

lemma offers_exists: "\<exists>d. offers mac st d"
  by (auto simp: offers_def)

lemma pool_facts:
  assumes "table_ok s e st"
  shows "if \<exists>i. s \<le> i \<and> i \<le> e \<and> \<not> marked st i
    then s \<le> search_next_ip st \<and> search_next_ip st \<le> e \<and> \<not> marked st (search_next_ip st)
    else search_next_ip st = 0"
  by (rule search_next) (use assms in \<open>auto simp: table_ok_def\<close>)

lemma table_ok_pool: "table_ok s e st \<Longrightarrow> 100 \<le> s \<and> e \<le> 127 \<and> length (ds_range st) = 8"
  unfolding table_ok_def by blast

lemma table_ok_entry:
  assumes "table_ok s e st" "ds_macs st i \<noteq> no_mac"
  shows "s \<le> i" "i \<le> e" "100 \<le> i" "i \<le> 127" "marked st i"
proof -
  show i: "s \<le> i" "i \<le> e" "marked st i" using assms unfolding table_ok_def by blast+
  then show "100 \<le> i" "i \<le> 127" using table_ok_pool [OF assms(1)] by linarith+
qed

lemma table_ok_inj: "table_ok s e st \<Longrightarrow> ds_macs st i = ds_macs st j \<Longrightarrow> ds_macs st i \<noteq> no_mac \<Longrightarrow> i = j"
  unfolding table_ok_def by blast

lemma offers_unique:
  assumes "table_ok s e st" "mac \<noteq> no_mac" "offers mac st d" "offers mac st d'"
  shows "d = d'"
  using assms unfolding offers_def by (metis table_ok_inj)

lemma offers_range:
  assumes "table_ok s e st" "mac \<noteq> no_mac" "offers mac st d" "d \<noteq> 0"
  shows "s \<le> d" "d \<le> e" "100 \<le> d" "d \<le> 127" "ds_macs st d = mac \<or> \<not> marked st d"
proof -
  have "s \<le> d \<and> d \<le> e \<and> (ds_macs st d = mac \<or> \<not> marked st d)"
  proof (cases "ds_macs st d = mac")
    case True
    with assms(2) have "ds_macs st d \<noteq> no_mac" by simp
    from table_ok_entry [OF assms(1) this] True show ?thesis by simp
  next
    case False
    then have "d = search_next_ip st" using assms(3) by (simp add: offers_def)
    with pool_facts [OF assms(1)] assms(4) show ?thesis by (simp split: if_splits)
  qed
  then show d: "s \<le> d" "d \<le> e" "ds_macs st d = mac \<or> \<not> marked st d" by blast+
  from d(1,2) table_ok_pool [OF assms(1)] show "100 \<le> d" "d \<le> 127" by simp_all
qed

lemma client_check:
  assumes "table_ok s e st" "mac \<noteq> no_mac" "offers mac st d"
  shows "check_client_request_ip mac st = Some (if ds_macs st d = mac then d else 0)"
proof (cases "ds_macs st d = mac")
  case True
  then have h: "ds_macs st d \<noteq> no_mac" using assms(2) by simp
  note d = table_ok_entry [OF assms(1) h]
  have u: "j = d" if "ds_macs st j = mac" for j
    using table_ok_inj [OF assms(1), of j d] h True that by simp
  have "request_loop mac DHCP_POOL_START st = Some d" by (rule request_loop_found [OF True u d(3-5) d(3)])
  with True show ?thesis by (simp add: check_client_request_ip_def)
next
  case False
  with assms(3) show ?thesis by (simp add: check_client_request_ip_def request_loop_free offers_def)
qed

text \<open>An offer: what it leaves and what is sent.\<close>

lemma reply_memory_is_reply:
  assumes "get_bytes 0 (236 + n) (pk_mem pk) = reply_memory n ty st m" "51 \<le> n"
  shows "is_reply ty (ds_allocated st) pk"
proof -
  define m' where "m' = pk_mem pk"
  note assms = assms [folded m'_def]
  let ?h = "header_bytes (get_bytes 4 4 m) (ds_allocated st) (get_bytes 28 16 m)"
  have h: "length ?h = 236" "take 4 (drop 16 ?h) = ip_bytes (ds_allocated st)"
    by (simp_all add: header_bytes_def)
  have b: "get_bytes 16 4 m' = take 4 (drop 16 (get_bytes 0 (236 + n) m'))"
    "get_bytes 240 3 m' = take 3 (drop 240 (get_bytes 0 (236 + n) m'))"
    using assms(2) by (simp_all add: get_bytes_drop get_bytes_take)
  have "get_bytes 16 4 m' = ip_bytes (ds_allocated st)"
    unfolding b(1) assms(1) reply_memory_def using h by simp
  moreover have "get_bytes 240 3 m' = [53, 1, ty]"
    unfolding b(2) assms(1) reply_memory_def using h(1) by (simp add: dhcp_magic_cookie_def offer_options_ok(2))
  ultimately show ?thesis by (simp add: is_reply_def m'_def)
qed

lemma send_offer_ok:
  assumes "pk_len pk \<le> 548" "check_client_request_ip (ds_client st) (st\<lparr>ds_opt_len := 312\<rparr>) = Some a"
  shows "\<exists>x pk'. dhcps_send_offer (Some heap) pk st = Some ((offer_state a st)\<lparr>ds_xid := x\<rparr>, Some (pk', True)) \<and>
    is_reply 2 (ds_allocated (offer_state a st)) pk'"
proof -
  have "\<not> 548 < pk_len pk" using assms(1) by simp
  note u = offer_unfold [OF this assms(2), of heap]
  have "ds_opt_len (offer_state a st) = int 312" by (simp add: offer_state_def)
  from reply_fits [OF this, of 2 "\<lambda>i. if i < pk_len pk then pk_mem pk i else heap i"]
  obtain x m1 m2 where r: "dhcps_initialize_message (\<lambda>i. if i < pk_len pk then pk_mem pk i else heap i) (offer_state a st) =
      Some ((offer_state a st)\<lparr>ds_xid := x\<rparr>, m1)"
    "add_offer_options 243 ((offer_state a st)\<lparr>ds_xid := x\<rparr>) (put_bytes 240 [53, 1, 2] m1) = (0, m2)"
    "get_bytes 0 (236 + 312) m2 = reply_memory 312 2 (offer_state a st) (\<lambda>i. if i < pk_len pk then pk_mem pk i else heap i)"
    by auto
  have "is_reply 2 (ds_allocated (offer_state a st)) \<lparr>pk_len = 548, pk_mem = m2\<rparr>"
    by (rule reply_memory_is_reply [where n = 312]) (use r(3) in simp_all)
  then show ?thesis using r(1,2) by (simp add: u add_msg_type_ok) blast
qed

text \<open>The acknowledgement, and the refusal of a request for the address zero.\<close>

lemma ack_tail:
  assumes "dhcps_check_msg_and_handle_options rq st = (True, st1)" "ds_state st1 = DS_ACK" "ds_opt_len st1 = int (pk_len rq) - 236"
    "287 \<le> pk_len rq" "ip4_addr4 (ds_allocated st1) = of_nat d" "1 \<le> d" "d < 256" "\<not> (128 < d \<and> d \<le> 160)"
    "length (ds_range st1) = 8"
  shows "\<exists>x rng ack. dhcps_receive_udp_packet_handler fresh rq 68 st =
      Some (st1\<lparr>ds_xid := x, ds_range := rng, ds_macs := (ds_macs st1)(d := ds_client st1), ds_request_ip := ip_zero,
                ds_client := no_mac, ds_allocated := ip_zero, ds_state := DS_IDLE\<rparr>, Some (ack, True)) \<and>
    is_reply 5 (ds_allocated st1) ack \<and> length rng = 8 \<and>
    (\<forall>i. 1 \<le> i \<longrightarrow> marked (st1\<lparr>ds_range := rng\<rparr>) i \<longleftrightarrow> marked st1 i \<or> i = d)"
proof -
  have d: "unat (ip4_addr4 (ds_allocated st1)) = d" using assms(5-7) by (simp add: unat_of_nat)
  from send_ack_ok [OF assms(4,3)] obtain ack where a:
    "dhcps_send_ack rq st1 = Some (st1\<lparr>ds_xid := get_bytes 4 4 (pk_mem rq)\<rparr>, Some (ack, True))"
    "get_bytes 0 (pk_len rq) (pk_mem ack) = reply_memory (pk_len rq - 236) 5 st1 (pk_mem rq)" by blast
  have r: "is_reply 5 (ds_allocated st1) ack"
    using reply_memory_is_reply [of "pk_len rq - 236" ack 5 st1 "pk_mem rq"] a(2) assms(4) by simp
  define st2 where "st2 = st1\<lparr>ds_xid := get_bytes 4 4 (pk_mem rq)\<rparr>"
  obtain rng where rng: "mark_ip_in_table (ip4_addr4 (ds_allocated st1)) st2 = Some (st2\<lparr>ds_range := rng\<rparr>)" "length rng = 8"
    "\<forall>i. 1 \<le> i \<longrightarrow> marked (st2\<lparr>ds_range := rng\<rparr>) i \<longleftrightarrow> marked st2 i \<or> i = d"
    using mark_ok [of d st2] assms(5-9) by (auto simp: st2_def)
  have f: "ds_allocated st2 = ds_allocated st1" "ds_client st2 = ds_client st1" "ds_macs st2 = ds_macs st1"
    by (simp_all add: st2_def)
  have "dhcps_receive_udp_packet_handler fresh rq 68 st =
      Some (st2\<lparr>ds_range := rng, ds_macs := (ds_macs st1)(d := ds_client st1), ds_request_ip := ip_zero,
                ds_client := no_mac, ds_allocated := ip_zero, ds_state := DS_IDLE\<rparr>, Some (ack, True))"
    using rng(1) d a(1) [folded st2_def] assms(2) f
    by (simp add: dhcps_receive_udp_packet_handler_def assms(1) save_client_addr_def)
  moreover have "\<forall>i. 1 \<le> i \<longrightarrow> marked (st1\<lparr>ds_range := rng\<rparr>) i \<longleftrightarrow> marked st1 i \<or> i = d"
    using rng(3) by (simp add: marked_def st2_def)
  ultimately show ?thesis using r rng(2) unfolding st2_def by blast
qed

lemma handler_ack:
  assumes "request mac ip rq" "ds_state st = DS_OFFER" "ds_allocated st = ip" "ip4_addr4 ip = of_nat d" "1 \<le> d" "d \<le> 128"
    "length (ds_range st) = 8"
  shows "\<exists>st2 rng ack. dhcps_receive_udp_packet_handler fresh rq 68 st = Some (st2, Some (ack, True)) \<and>
    is_reply 5 ip ack \<and> length rng = 8 \<and>
    (\<forall>i. 1 \<le> i \<longrightarrow> marked (st\<lparr>ds_range := rng\<rparr>) i \<longleftrightarrow> marked st i \<or> i = d) \<and>
    ds_state st2 = DS_IDLE \<and> same_table (st2\<lparr>ds_range := ds_range st, ds_macs := ds_macs st\<rparr>) st \<and>
    ds_range st2 = rng \<and> ds_macs st2 = (ds_macs st)(d := mac)"
proof -
  define st1 where "st1 = st\<lparr>ds_opt_len := int (pk_len rq) - 236, ds_client := mac, ds_request_ip := ip, ds_state := DS_ACK\<rparr>"
  have "unat (ip4_addr4 ip) = d" using assms(4-6) by (simp add: unat_of_nat)
  then have "ip4_addr4 ip \<noteq> 0" using assms(5) by auto
  then have c: "dhcps_check_msg_and_handle_options rq st = (True, st1)"
    using request_msg [OF assms(1), of st] assms(2,3) by (simp add: dhcps_handle_state_machine_change_def st1_def)
  have f: "ds_state st1 = DS_ACK" "ds_opt_len st1 = int (pk_len rq) - 236" "287 \<le> pk_len rq" "ds_allocated st1 = ip"
    "ds_range st1 = ds_range st" "ds_client st1 = mac" "ds_macs st1 = ds_macs st"
    using assms(1,3) by (simp_all add: st1_def request_def)
  have "d < 256" "\<not> (128 < d \<and> d \<le> 160)" "ip4_addr4 (ds_allocated st1) = of_nat d" "length (ds_range st1) = 8"
    using assms(4,6,7) f by simp_all
  from ack_tail [OF c f(1-3) this(3) assms(5) this(1,2,4), of fresh] obtain x rng ack where a:
    "dhcps_receive_udp_packet_handler fresh rq 68 st =
      Some (st1\<lparr>ds_xid := x, ds_range := rng, ds_macs := (ds_macs st1)(d := ds_client st1), ds_request_ip := ip_zero,
                ds_client := no_mac, ds_allocated := ip_zero, ds_state := DS_IDLE\<rparr>, Some (ack, True))"
    "is_reply 5 (ds_allocated st1) ack" "length rng = 8"
    "\<forall>i. 1 \<le> i \<longrightarrow> marked (st1\<lparr>ds_range := rng\<rparr>) i \<longleftrightarrow> marked st1 i \<or> i = d" by blast
  have "marked (st\<lparr>ds_range := rng\<rparr>) i \<longleftrightarrow> marked st i \<or> i = d" if "1 \<le> i" for i
    using a(4) that f(5) by (simp add: marked_def)
  then have "is_reply 5 ip ack \<and> length rng = 8 \<and> (\<forall>i. 1 \<le> i \<longrightarrow> marked (st\<lparr>ds_range := rng\<rparr>) i \<longleftrightarrow> marked st i \<or> i = d)"
    using a(2,3) f(4) by simp
  with a(1) show ?thesis
    by (intro exI [of _ "st1\<lparr>ds_xid := x, ds_range := rng, ds_macs := (ds_macs st1)(d := ds_client st1), ds_request_ip := ip_zero,
                ds_client := no_mac, ds_allocated := ip_zero, ds_state := DS_IDLE\<rparr>"] exI [of _ rng] exI [of _ ack])
      (simp add: same_table_def f(6,7), simp add: st1_def)
qed

lemma handler_nak:
  assumes "request mac ip rq" "ds_state st = DS_OFFER" "ds_allocated st = ip" "ip4_addr4 ip = 0"
  shows "\<exists>x nak. dhcps_receive_udp_packet_handler fresh rq 68 st =
      Some (st\<lparr>ds_state := DS_IDLE, ds_xid := x, ds_request_ip := ip, ds_client := mac,
               ds_opt_len := int (pk_len rq) - 236\<rparr>, Some (nak, True)) \<and> \<not> is_reply 5 ip' nak"
proof -
  define st1 where "st1 = st\<lparr>ds_opt_len := int (pk_len rq) - 236, ds_client := mac, ds_request_ip := ip, ds_state := DS_NAK\<rparr>"
  have c: "dhcps_check_msg_and_handle_options rq st = (True, st1)"
    using request_msg [OF assms(1), of st] assms(2-4) by (simp add: dhcps_handle_state_machine_change_def st1_def)
  have n: "287 \<le> pk_len rq" using assms(1) by (simp add: request_def)
  then have "ds_opt_len st1 = int (pk_len rq - 236)" "4 \<le> pk_len rq - 236" by (simp_all add: st1_def)
  from initialize_ok [OF this] obtain m where
    m: "dhcps_initialize_message (pk_mem rq) st1 = Some (st1\<lparr>ds_xid := get_bytes 4 4 (pk_mem rq)\<rparr>, m)" by blast
  define nak where "nak = rq\<lparr>pk_mem := put_bytes 243 [255] (put_bytes 240 [53, 1, 6] m)\<rparr>"
  have "dhcps_send_nak rq st1 = Some (st1\<lparr>ds_xid := get_bytes 4 4 (pk_mem rq)\<rparr>, Some (nak, True))"
    by (simp add: dhcps_send_nak_def m add_msg_type_def nak_def)
  then have "dhcps_receive_udp_packet_handler fresh rq 68 st =
      Some (st1\<lparr>ds_xid := get_bytes 4 4 (pk_mem rq), ds_state := DS_IDLE\<rparr>, Some (nak, True))"
    by (simp add: dhcps_receive_udp_packet_handler_def c) (simp add: st1_def)
  moreover have "\<not> is_reply 5 ip' nak" by (simp add: is_reply_def nak_def get_put)
  moreover have "st1\<lparr>ds_xid := get_bytes 4 4 (pk_mem rq), ds_state := DS_IDLE\<rparr> =
      st\<lparr>ds_state := DS_IDLE, ds_xid := get_bytes 4 4 (pk_mem rq), ds_request_ip := ip, ds_client := mac,
               ds_opt_len := int (pk_len rq) - 236\<rparr>"
    by (cases st) (simp add: st1_def)
  ultimately show ?thesis by fastforce
qed

lemma handler_offer:
  assumes "leases_ok s e st" "discover mac pk" "offers mac st d" "ip = ip_with_addr4 (ds_network st) (of_nat d)"
  shows "\<exists>st1 offer. dhcps_receive_udp_packet_handler (Some heap) pk 68 st = Some (st1, Some (offer, True)) \<and>
    is_reply 2 ip offer \<and> ds_state st1 = DS_OFFER \<and> ds_allocated st1 = ip \<and> same_table st1 st"
proof -
  from assms(1) have t: "table_ok s e st" "ds_state st = DS_IDLE" by (simp_all add: leases_ok_def)
  from assms(2) have mac: "mac \<noteq> no_mac" "pk_len pk \<le> 548" by (auto simp: discover_def client_message_def)
  from discover_msg [OF assms(2), of st] obtain ip' where
    "dhcps_check_msg_and_handle_options pk st = (True, dhcps_handle_state_machine_change 1
       (st\<lparr>ds_opt_len := int (pk_len pk) - 236, ds_client := mac, ds_request_ip := ip'\<rparr>))" by blast
  moreover define st0 where
    "st0 = st\<lparr>ds_opt_len := int (pk_len pk) - 236, ds_client := mac, ds_request_ip := ip', ds_state := DS_OFFER\<rparr>"
  ultimately have c: "dhcps_check_msg_and_handle_options pk st = (True, st0)"
    using t(2) by (simp add: dhcps_handle_state_machine_change_def)
  define a where "a = (if ds_macs st d = mac then d else 0)"
  have same: "same_table (st0\<lparr>ds_opt_len := 312\<rparr>) st" by (simp add: same_table_def st0_def)
  have f: "ds_client st0 = mac" "ds_state st0 = DS_OFFER" "ds_network st0 = ds_network st" by (simp_all add: st0_def)
  have "check_client_request_ip (ds_client st0) (st0\<lparr>ds_opt_len := 312\<rparr>) = Some a"
    unfolding f(1) using client_check [OF t(1) mac(1) assms(3)] same_table_eq(2) [OF same]
    by (simp add: check_client_request_ip_def a_def)
  from send_offer_ok [OF mac(2) this, of heap] obtain x offer where o:
    "dhcps_send_offer (Some heap) pk st0 = Some ((offer_state a st0)\<lparr>ds_xid := x\<rparr>, Some (offer, True))"
    "is_reply 2 (ds_allocated (offer_state a st0)) offer" by blast
  have "(if a = 0 then search_next_ip (st0\<lparr>ds_opt_len := 312\<rparr>) else a) = d"
  proof (cases "ds_macs st d = mac")
    case True
    with mac(1) have "ds_macs st d \<noteq> no_mac" by simp
    from table_ok_entry(3) [OF t(1) this] True show ?thesis by (simp add: a_def)
  next
    case False
    with assms(3) show ?thesis by (simp add: a_def offers_def same_table_eq(3) [OF same])
  qed
  then have al: "ds_allocated (offer_state a st0) = ip" by (simp add: offer_state_def assms(4) f(3))
  have "dhcps_receive_udp_packet_handler (Some heap) pk 68 st = Some ((offer_state a st0)\<lparr>ds_xid := x\<rparr>, Some (offer, True))"
    using o(1) f(2) by (simp add: dhcps_receive_udp_packet_handler_def c)
  moreover have "same_table ((offer_state a st0)\<lparr>ds_xid := x\<rparr>) st"
    by (simp add: same_table_def offer_state_def) (simp add: st0_def)
  moreover have "ds_state ((offer_state a st0)\<lparr>ds_xid := x\<rparr>) = DS_OFFER" by (simp add: offer_state_def f(2))
  ultimately show ?thesis using o(2) al by (intro exI conjI) simp_all
qed

text \<open>What an acknowledged request does to the table.\<close>

lemma table_ok_lease:
  assumes "table_ok s e st" "mac \<noteq> no_mac" "offers mac st d" "d \<noteq> 0" "length rng = 8"
    "\<forall>i. 1 \<le> i \<longrightarrow> marked (st\<lparr>ds_range := rng\<rparr>) i \<longleftrightarrow> marked st i \<or> i = d"
    "ds_range st' = rng" "ds_macs st' = (ds_macs st)(d := mac)" "ds_pool_set st' = ds_pool_set st"
    "ds_pool_start st' = ds_pool_start st" "ds_pool_end st' = ds_pool_end st"
  shows "table_ok s e st'"
proof -
  note d = offers_range [OF assms(1-4)]
  have m: "marked st' i \<longleftrightarrow> marked st i \<or> i = d" if "1 \<le> i" for i
    using assms(6,7) that by (simp add: marked_def)
  have free: "j = d" if "ds_macs st j = mac" for j
    using assms(2,3) that table_ok_inj [OF assms(1)] unfolding offers_def by metis
  have entry: "s \<le> i \<and> i \<le> e \<and> marked st' i" if "ds_macs st' i \<noteq> no_mac" for i
  proof (cases "i = d")
    case True
    with d m [of i] show ?thesis by simp
  next
    case False
    with that assms(8) have "ds_macs st i \<noteq> no_mac" by simp
    from table_ok_entry [OF assms(1) this] m [of i] show ?thesis by simp
  qed
  have inj: "i = j" if "ds_macs st' i = ds_macs st' j" "ds_macs st' i \<noteq> no_mac" for i j
  proof (cases "i = d \<or> j = d")
    case True
    with that(1) free [of i] free [of j] show ?thesis unfolding assms(8) by (metis fun_upd_apply)
  next
    case False
    with that table_ok_inj [OF assms(1), of i j] show ?thesis unfolding assms(8) by simp
  qed
  have "length (ds_range st') = 8 \<and> ds_pool_set st' \<and> unat (ip4_addr4 (ds_pool_start st')) = s \<and>
      unat (ip4_addr4 (ds_pool_end st')) = e \<and> 100 \<le> s \<and> e \<le> 127"
    using assms(1) unfolding table_ok_def assms(5,7,9-11) by blast
  with entry inj show ?thesis unfolding table_ok_def by blast
qed

lemma network_inj: "d < 256 \<Longrightarrow> d' < 256 \<Longrightarrow> ip_with_addr4 n (of_nat d) = ip_with_addr4 n (of_nat d') \<longleftrightarrow> d = d'"
  by (cases n) (auto simp: word_of_nat_eq_iff take_bit_nat_eq_self)

lemma addr4_with: "ip4_addr4 (ip_with_addr4 n x) = x"
  by (cases n) simp

text \<open>A whole transaction of a client that can be served.\<close>

lemma transaction_ok:
  assumes "leases_ok s e st" "discover mac pk" "offers mac st d" "d \<noteq> 0" "ip = ip_with_addr4 (ds_network st) (of_nat d)"
  shows "\<exists>st1 offer. dhcps_receive_udp_packet_handler (Some heap) pk 68 st = Some (st1, Some (offer, True)) \<and>
    is_reply 2 ip offer \<and>
    (\<forall>fresh rq. request mac ip rq \<longrightarrow> (\<exists>st2 ack.
       dhcps_receive_udp_packet_handler fresh rq 68 st1 = Some (st2, Some (ack, True)) \<and> is_reply 5 ip ack \<and>
       leases_ok s e st2 \<and> ds_macs st2 = (ds_macs st)(d := mac) \<and> ds_network st2 = ds_network st))"
proof -
  from assms(1) have t: "table_ok s e st" by (simp add: leases_ok_def)
  have mac: "mac \<noteq> no_mac" using assms(2) by (auto simp: discover_def client_message_def)
  note d = offers_range [OF t mac assms(3,4)]
  from handler_offer [OF assms(1-3,5), of heap] obtain st1 offer where o:
    "dhcps_receive_udp_packet_handler (Some heap) pk 68 st = Some (st1, Some (offer, True))" "is_reply 2 ip offer"
    "ds_state st1 = DS_OFFER" "ds_allocated st1 = ip" "same_table st1 st" by blast
  have st1: "table_ok s e st1" "offers mac st1 d" "length (ds_range st1) = 8"
    using same_table_eq [OF o(5)] t assms(3) table_ok_pool [OF t] o(5) by (simp_all add: offers_def same_table_def)
  have "\<exists>st2 ack. dhcps_receive_udp_packet_handler fresh rq 68 st1 = Some (st2, Some (ack, True)) \<and> is_reply 5 ip ack \<and>
      leases_ok s e st2 \<and> ds_macs st2 = (ds_macs st)(d := mac) \<and> ds_network st2 = ds_network st"
    if "request mac ip rq" for fresh rq
  proof -
    have "ip4_addr4 ip = of_nat d" "1 \<le> d" "d \<le> 128" using d by (simp_all add: assms(5) addr4_with)
    from handler_ack [OF that o(3,4) this st1(3), of fresh] obtain st2 rng ack where a:
      "dhcps_receive_udp_packet_handler fresh rq 68 st1 = Some (st2, Some (ack, True))" "is_reply 5 ip ack" "length rng = 8"
      "\<forall>i. 1 \<le> i \<longrightarrow> marked (st1\<lparr>ds_range := rng\<rparr>) i \<longleftrightarrow> marked st1 i \<or> i = d" "ds_state st2 = DS_IDLE"
      "same_table (st2\<lparr>ds_range := ds_range st1, ds_macs := ds_macs st1\<rparr>) st1" "ds_range st2 = rng"
      "ds_macs st2 = (ds_macs st1)(d := mac)" by blast
    have "table_ok s e st2"
      by (rule table_ok_lease [OF st1(1) mac st1(2) assms(4) a(3,4,7,8)]) (use a(6) in \<open>simp_all add: same_table_def\<close>)
    then have "leases_ok s e st2" using a(5) by (simp add: leases_ok_def)
    moreover have "ds_macs st2 = (ds_macs st)(d := mac)" "ds_network st2 = ds_network st"
      using o(5) a(6,8) by (simp_all add: same_table_def)
    ultimately show ?thesis using a(1,2) by blast
  qed
  with o(1,2) show ?thesis by blast
qed

lemma served:
  assumes "leases_ok s e st" "discover mac pk" "(\<exists>d. ds_macs st d = mac) \<or> (\<exists>i. s \<le> i \<and> i \<le> e \<and> \<not> marked st i)"
  shows "\<exists>d st1 offer. s \<le> d \<and> d \<le> e \<and> (ds_macs st d = mac \<or> (\<forall>j. ds_macs st j \<noteq> mac) \<and> \<not> marked st d) \<and>
    dhcps_receive_udp_packet_handler (Some heap) pk 68 st = Some (st1, Some (offer, True)) \<and>
    is_reply 2 (ip_with_addr4 (ds_network st) (of_nat d)) offer \<and>
    (\<forall>fresh rq. request mac (ip_with_addr4 (ds_network st) (of_nat d)) rq \<longrightarrow> (\<exists>st2 ack.
       dhcps_receive_udp_packet_handler fresh rq 68 st1 = Some (st2, Some (ack, True)) \<and>
       is_reply 5 (ip_with_addr4 (ds_network st) (of_nat d)) ack \<and>
       leases_ok s e st2 \<and> ds_macs st2 = (ds_macs st)(d := mac) \<and> ds_network st2 = ds_network st))"
proof -
  from assms(1) have t: "table_ok s e st" by (simp add: leases_ok_def)
  have mac: "mac \<noteq> no_mac" using assms(2) by (auto simp: discover_def client_message_def)
  obtain d where d: "offers mac st d" using offers_exists by blast
  have "d \<noteq> 0"
  proof (cases "ds_macs st d = mac")
    case True
    with mac have "ds_macs st d \<noteq> no_mac" by simp
    from table_ok_entry(3) [OF t this] show ?thesis by simp
  next
    case False
    then have "d = search_next_ip st" "\<exists>i. s \<le> i \<and> i \<le> e \<and> \<not> marked st i" using d assms(3) by (auto simp: offers_def)
    with pool_facts [OF t] table_ok_pool [OF t] show ?thesis by auto
  qed
  note r = offers_range [OF t mac d this]
  from r(5) d have "ds_macs st d = mac \<or> (\<forall>j. ds_macs st j \<noteq> mac) \<and> \<not> marked st d" by (auto simp: offers_def)
  with r(1,2) transaction_ok [OF assms(1,2) d \<open>d \<noteq> 0\<close> refl, of heap] show ?thesis by blast
qed

text \<open>
  C7. An idle server whose table is consistent and whose pool lies within 100 and 127 serves a client that holds an address or finds a
  free one in the pool: the discover message is answered with an offer of an address of the pool, the
  one the client holds if it holds one, and the request of that address with an acknowledgement; the
  address is then the client's, no other entry of the table is changed, and the server is idle again.
\<close>

theorem dhcps_client_served:
  assumes "leases_ok s e st" "discover mac pk" "(\<exists>d. ds_macs st d = mac) \<or> (\<exists>i. s \<le> i \<and> i \<le> e \<and> \<not> marked st i)"
  shows "\<exists>d st1 offer. s \<le> d \<and> d \<le> e \<and> (ds_macs st d = mac \<or> (\<forall>j. ds_macs st j \<noteq> mac) \<and> \<not> marked st d) \<and>
    dhcps_receive_udp_packet_handler (Some heap) pk 68 st = Some (st1, Some (offer, True)) \<and>
    is_reply 2 (ip_with_addr4 (ds_network st) (of_nat d)) offer \<and>
    (\<forall>fresh rq. request mac (ip_with_addr4 (ds_network st) (of_nat d)) rq \<longrightarrow> (\<exists>st2 ack.
       dhcps_receive_udp_packet_handler fresh rq 68 st1 = Some (st2, Some (ack, True)) \<and>
       is_reply 5 (ip_with_addr4 (ds_network st) (of_nat d)) ack \<and>
       leases_ok s e st2 \<and> ds_macs st2 = (ds_macs st)(d := mac) \<and> ds_network st2 = ds_network st))"
  using assms by (rule served)

section \<open>Sequences of transactions\<close>

text \<open>
  Clients that come one after the other, each with a discover message and a request of the address
  that it was offered; the log has the clients that got an acknowledgement, with their addresses.
\<close>

inductive dhcps_log :: "dhcps \<Rightarrow> (bytes \<times> ip4) list \<Rightarrow> dhcps \<Rightarrow> bool" for st0 where
  log_start: "dhcps_log st0 [] st0"
| log_client: "dhcps_log st0 log st \<Longrightarrow> discover mac pk \<Longrightarrow>
    dhcps_receive_udp_packet_handler (Some heap) pk 68 st = Some (st1, Some (offer, True)) \<Longrightarrow> is_reply 2 ip offer \<Longrightarrow>
    request mac ip rq \<Longrightarrow> dhcps_receive_udp_packet_handler fresh rq 68 st1 = Some (st2, Some (answer, True)) \<Longrightarrow>
    dhcps_log st0 (if is_reply 5 ip answer then (mac, ip) # log else log) st2"

definition log_ok :: "nat \<Rightarrow> nat \<Rightarrow> ip4 \<Rightarrow> (bytes \<times> ip4) list \<Rightarrow> dhcps \<Rightarrow> bool" where
  "log_ok s e n log st \<longleftrightarrow> leases_ok s e st \<and> ds_network st = n \<and>
     (\<forall>mac ip. (mac, ip) \<in> set log \<longrightarrow> mac \<noteq> no_mac \<and> (\<exists>d. ds_macs st d = mac \<and> ip = ip_with_addr4 n (of_nat d)))"

lemma ip_bytes_inj: "ip_bytes x = ip_bytes y \<Longrightarrow> x = y"
  by (cases x; cases y) simp

lemma log_ok_client:
  assumes "log_ok s e n log st" "discover mac pk"
    "dhcps_receive_udp_packet_handler (Some heap) pk 68 st = Some (st1, Some (offer, True))" "is_reply 2 ip offer"
    "request mac ip rq" "dhcps_receive_udp_packet_handler fresh rq 68 st1 = Some (st2, Some (answer, True))"
  shows "log_ok s e n (if is_reply 5 ip answer then (mac, ip) # log else log) st2"
proof -
  from assms(1) have l: "leases_ok s e st" "table_ok s e st" "ds_network st = n" by (simp_all add: log_ok_def leases_ok_def)
  have mac: "mac \<noteq> no_mac" using assms(2) by (auto simp: discover_def client_message_def)
  obtain d where d: "offers mac st d" using offers_exists by blast
  from handler_offer [OF l(1) assms(2) d refl, of heap] assms(3,4) have o: "ip = ip_with_addr4 n (of_nat d)"
    "ds_state st1 = DS_OFFER" "ds_allocated st1 = ip" "same_table st1 st"
    using l(3) by (auto simp: is_reply_def dest: ip_bytes_inj)
  show ?thesis
  proof (cases "d = 0")
    case True
    then have "ip4_addr4 ip = 0" by (simp add: o(1) addr4_with)
    from handler_nak [OF assms(5) o(2,3) this, of fresh ip] obtain x where
      a: "\<not> is_reply 5 ip answer" and st2: "st2 = st1\<lparr>ds_state := DS_IDLE, ds_xid := x, ds_request_ip := ip, ds_client := mac,
               ds_opt_len := int (pk_len rq) - 236\<rparr>" using assms(6) by auto
    have s2: "same_table st2 st" using o(4) by (simp add: same_table_def st2)
    have "ds_state st2 = DS_IDLE" by (simp add: st2)
    then show ?thesis using a assms(1) same_table_eq [OF s2] by (simp add: log_ok_def leases_ok_def)
  next
    case False
    note r = offers_range [OF l(2) mac d False]
    have "ip = ip_with_addr4 (ds_network st) (of_nat d)" using o(1) l(3) by simp
    from transaction_ok [OF l(1) assms(2) d False this, of heap] assms(3)
    have "\<forall>fresh rq. request mac ip rq \<longrightarrow> (\<exists>st2 ack.
       dhcps_receive_udp_packet_handler fresh rq 68 st1 = Some (st2, Some (ack, True)) \<and> is_reply 5 ip ack \<and>
       leases_ok s e st2 \<and> ds_macs st2 = (ds_macs st)(d := mac) \<and> ds_network st2 = ds_network st)" by auto
    with assms(5) obtain st2' ack where
      "dhcps_receive_udp_packet_handler fresh rq 68 st1 = Some (st2', Some (ack, True))" "is_reply 5 ip ack"
      "leases_ok s e st2'" "ds_macs st2' = (ds_macs st)(d := mac)" "ds_network st2' = ds_network st" by blast
    then have a: "is_reply 5 ip answer" "leases_ok s e st2" "ds_macs st2 = (ds_macs st)(d := mac)" "ds_network st2 = n"
      using assms(6) l(3) by simp_all
    have old: "m \<noteq> no_mac \<and> (\<exists>j. ds_macs st2 j = m \<and> i = ip_with_addr4 n (of_nat j))" if "(m, i) \<in> set log" for m i
    proof -
      from that assms(1) obtain j where j: "m \<noteq> no_mac" "ds_macs st j = m" "i = ip_with_addr4 n (of_nat j)"
        unfolding log_ok_def by blast
      have "ds_macs st2 j = m"
      proof (cases "j = d")
        case True
        with j(1,2) table_ok_entry(5) [OF l(2), of d] r(5) show ?thesis by (simp add: a(3))
      next
        case False
        with j(2) show ?thesis by (simp add: a(3))
      qed
      with j show ?thesis by blast
    qed
    have "ds_macs st2 d = mac" by (simp add: a(3))
    with mac o(1) have new: "mac \<noteq> no_mac \<and> (\<exists>j. ds_macs st2 j = mac \<and> ip = ip_with_addr4 n (of_nat j))" by blast
    have "m \<noteq> no_mac \<and> (\<exists>j. ds_macs st2 j = m \<and> i = ip_with_addr4 n (of_nat j))"
      if "(m, i) \<in> set ((mac, ip) # log)" for m i
    proof (cases "(m, i) \<in> set log")
      case False
      with that have "m = mac" "i = ip" by simp_all
      with new show ?thesis by blast
    qed (rule old)
    then have "log_ok s e n ((mac, ip) # log) st2" using a(2,4) unfolding log_ok_def by blast
    then show ?thesis using a(1) by simp
  qed
qed

text \<open>Initialisation, with a pool set before.\<close>

lemma mark_range_only:
  assumes "mark_ip_in_table x st = Some st'"
  shows "\<exists>rng. st' = st\<lparr>ds_range := rng\<rparr> \<and> length rng = length (ds_range st)"
proof -
  have "mark_ip_in_table x st = Some st \<or> (\<exists>r k. mark_ip_in_table x st = mark_bit r k st)"
    unfolding mark_ip_in_table_def Let_def by (simp only: split: if_split) blast
  then show ?thesis
  proof
    assume "mark_ip_in_table x st = Some st"
    with assms show ?thesis by (intro exI [of _ "ds_range st"]) simp
  next
    assume "\<exists>r k. mark_ip_in_table x st = mark_bit r k st"
    with assms obtain r k where "mark_bit r k st = Some st'" by auto
    then show ?thesis by (auto simp: mark_bit_def)
  qed
qed

text \<open>Initialisation succeeds for addresses up to 128, and marks the two addresses of the server.\<close>

lemma init_marks:
  assumes "ip4_addr4 ip = of_nat d" "1 \<le> d" "d \<le> 128" "ip4_addr4 gw = of_nat d'" "1 \<le> d'" "d' \<le> 128"
  shows "\<exists>st0. dhcps_init True ip nm gw st = Some st0 \<and> (\<forall>i. 1 \<le> i \<longrightarrow> i \<le> 256 \<longrightarrow> marked st0 i \<longleftrightarrow> i = d \<or> i = d')"
proof -
  define st1 where "st1 = clear_table (clear_table st\<lparr>ds_local := ip, ds_mask := nm, ds_gateway := gw,
                    ds_network := ip_and ip nm, ds_broadcast := ip_or_not (ip_and ip nm) nm\<rparr>)"
  have f: "ds_local st1 = ip" "ds_gateway st1 = gw" "ds_range st1 = replicate 8 0" by (simp_all add: st1_def clear_table_def)
  have z: "\<not> marked st1 i" if "1 \<le> i" "i \<le> 256" for i
  proof -
    have "(i - 1) div 32 < 8" using that by (simp add: less_mult_imp_div_less)
    then show ?thesis by (simp add: marked_def f(3))
  qed
  obtain r2 where r2: "mark_ip_in_table (ip4_addr4 ip) st1 = Some (st1\<lparr>ds_range := r2\<rparr>)" "length r2 = 8"
    "\<forall>i. 1 \<le> i \<longrightarrow> marked (st1\<lparr>ds_range := r2\<rparr>) i \<longleftrightarrow> marked st1 i \<or> i = d"
    using mark_ok [of d st1] assms(1-3) f(3) by auto
  obtain r3 where r3: "mark_ip_in_table (ip4_addr4 gw) (st1\<lparr>ds_range := r2\<rparr>) = Some (st1\<lparr>ds_range := r3\<rparr>)"
    "\<forall>i. 1 \<le> i \<longrightarrow> marked (st1\<lparr>ds_range := r3\<rparr>) i \<longleftrightarrow> marked (st1\<lparr>ds_range := r2\<rparr>) i \<or> i = d'"
    using mark_ok [of d' "st1\<lparr>ds_range := r2\<rparr>"] assms(4-6) r2(2) by auto
  define st3 where "st3 = st1\<lparr>ds_range := r3\<rparr>"
  define st0 where "st0 = (if ds_pool_start st3 = ip_zero \<and> ds_pool_end st3 = ip_zero then
        dhcps_set_addr_pool True (ip_with_addr4 (ds_local st3) 100) (ip_with_addr4 (ds_local st3) 200) st3 else st3)"
  have "dhcps_init True ip nm gw st = Some st0"
    using r2(1) r3(1) f by (simp add: dhcps_init_def Let_def st0_def st3_def flip: st1_def)
  moreover have "marked st0 i \<longleftrightarrow> i = d \<or> i = d'" if "1 \<le> i" "i \<le> 256" for i
  proof -
    have "marked st0 i \<longleftrightarrow> marked st3 i" by (simp add: marked_def st0_def dhcps_set_addr_pool_def)
    then show ?thesis using r2(3) r3(2) z [OF that] that(1) by (simp add: st3_def)
  qed
  ultimately show ?thesis by blast
qed

lemma init_ok:
  assumes "dhcps_init True ip nm gw st = Some st0" "ds_state st = DS_IDLE" "ds_pool_set st"
    "unat (ip4_addr4 (ds_pool_start st)) = s" "unat (ip4_addr4 (ds_pool_end st)) = e" "100 \<le> s" "e \<le> 127"
  shows "leases_ok s e st0" "ds_macs st0 = (\<lambda>_. no_mac)" "ds_network st0 = ip_and ip nm"
proof -
  define st1 where "st1 = clear_table (clear_table st\<lparr>ds_local := ip, ds_mask := nm, ds_gateway := gw,
                    ds_network := ip_and ip nm, ds_broadcast := ip_or_not (ip_and ip nm) nm\<rparr>)"
  have p: "ds_pool_start st \<noteq> ip_zero" using assms(4,6) by auto
  from assms(1) obtain st2 st3 where m: "mark_ip_in_table (ip4_addr4 (ds_local st1)) st1 = Some st2"
    "mark_ip_in_table (ip4_addr4 (ds_gateway st2)) st2 = Some st3"
    "st0 = (if ds_pool_start st3 = ip_zero \<and> ds_pool_end st3 = ip_zero then
        dhcps_set_addr_pool True (ip_with_addr4 (ds_local st3) 100) (ip_with_addr4 (ds_local st3) 200) st3 else st3)"
    by (auto simp: dhcps_init_def Let_def st1_def split: option.splits)
  obtain r2 where r2: "st2 = st1\<lparr>ds_range := r2\<rparr>" "length r2 = length (ds_range st1)" using mark_range_only [OF m(1)] by blast
  obtain r3 where r3: "st3 = st2\<lparr>ds_range := r3\<rparr>" "length r3 = length (ds_range st2)" using mark_range_only [OF m(2)] by blast
  have f: "ds_state st1 = DS_IDLE" "ds_pool_set st1" "ds_pool_start st1 = ds_pool_start st" "ds_pool_end st1 = ds_pool_end st"
    "length (ds_range st1) = 8" "ds_macs st1 = (\<lambda>_. no_mac)" "ds_network st1 = ip_and ip nm"
    using assms(2,3) by (simp_all add: st1_def clear_table_def)
  have "st0 = st1\<lparr>ds_range := r3\<rparr>" using m(3) p by (simp add: r3(1) r2(1) f(3))
  then show "leases_ok s e st0" "ds_macs st0 = (\<lambda>_. no_mac)" "ds_network st0 = ip_and ip nm"
    using f r2 r3(2) assms(4-7) by (simp_all add: leases_ok_def table_ok_def)
qed

text \<open>
  C6. After initialisation with a pool within 100 and 127, clients that come one after the other get
  addresses of the pool, two requests the same address exactly when they are of the same client.
\<close>

theorem dhcps_leases_distinct:
  assumes "ds_state st = DS_IDLE" "ds_pool_set st" "100 \<le> unat (ip4_addr4 (ds_pool_start st))"
    "unat (ip4_addr4 (ds_pool_end st)) \<le> 127" "dhcps_init True ip nm gw st = Some st0" "dhcps_log st0 log st'"
  shows "(\<forall>(mac, a) \<in> set log. \<forall>(mac', a') \<in> set log. mac = mac' \<longleftrightarrow> a = a') \<and>
    (\<forall>(mac, a) \<in> set log. \<exists>d. a = ip_with_addr4 (ip_and ip nm) (of_nat d) \<and>
       unat (ip4_addr4 (ds_pool_start st)) \<le> d \<and> d \<le> unat (ip4_addr4 (ds_pool_end st)))"
proof -
  let ?s = "unat (ip4_addr4 (ds_pool_start st))" and ?e = "unat (ip4_addr4 (ds_pool_end st))"
  from init_ok [OF assms(5,1,2) refl refl assms(3,4)] have "log_ok ?s ?e (ip_and ip nm) [] st0" by (simp add: log_ok_def)
  with assms(6) have l: "log_ok ?s ?e (ip_and ip nm) log st'"
    by (induction rule: dhcps_log.induct) (simp, rule log_ok_client, auto)
  then have t: "table_ok ?s ?e st'" by (simp add: log_ok_def leases_ok_def)
  have entry: "\<exists>d. ds_macs st' d = mac \<and> mac \<noteq> no_mac \<and> a = ip_with_addr4 (ip_and ip nm) (of_nat d) \<and> ?s \<le> d \<and> d \<le> ?e \<and> d < 256"
    if mem: "(mac, a) \<in> set log" for mac a
  proof -
    from l mem obtain d where d: "mac \<noteq> no_mac" "ds_macs st' d = mac" "a = ip_with_addr4 (ip_and ip nm) (of_nat d)"
      unfolding log_ok_def by blast
    with table_ok_entry [OF t, of d] show ?thesis by (intro exI [of _ d]) simp
  qed
  have "mac = mac' \<longleftrightarrow> a = a'" if "(mac, a) \<in> set log" "(mac', a') \<in> set log" for mac a mac' a'
    using entry [OF that(1)] entry [OF that(2)] table_ok_inj [OF t] network_inj by metis
  with entry show ?thesis by fast
qed

section \<open>Where the server fails\<close>

text \<open>
  C22. A client that requests an address without discovery gets it, although another client holds it,
  when the hardware address of that client has a zero byte; the table then has the new client.
\<close>

theorem dhcps_duplicate_lease:
  assumes "ds_state st = DS_IDLE" "request mac ip rq" "ip4_addr4 ip = of_nat d" "100 \<le> d" "d \<le> 200" "\<not> (128 < d \<and> d \<le> 160)"
    "length (ds_macs st d) = 6" "0 \<in> set (ds_macs st d)" "length (ds_range st) = 8"
  shows "\<exists>st' ack. dhcps_receive_udp_packet_handler fresh rq 68 st = Some (st', Some (ack, True)) \<and>
    is_reply 5 (ip_with_addr4 (ds_network st) (of_nat d)) ack \<and> ds_macs st' = (ds_macs st)(d := mac)"
proof -
  define st1 where "st1 = st\<lparr>ds_opt_len := int (pk_len rq) - 236, ds_client := mac, ds_request_ip := ip,
    ds_allocated := ip_with_addr4 (ds_network st) (of_nat d), ds_state := DS_ACK\<rparr>"
  have d: "unat (ip4_addr4 ip) = d" using assms(3,5) by (simp add: unat_of_nat)
  from assms(7,8) obtain i where i: "i < 6" "ds_macs st d ! i = 0" by (metis in_set_conv_nth)
  then have "i \<in> {0, 1, 2, 3, 4, 5}" by auto
  with i(2) have "\<exists>i \<in> {0, 1, 2, 3, 4, 5}. ds_macs st d ! i = 0" by blast
  then have "check_client_direct_request_ip ip (st\<lparr>ds_opt_len := int (pk_len rq) - 236, ds_client := mac, ds_request_ip := ip\<rparr>) = d"
    using assms(4,5) by (auto simp: check_client_direct_request_ip_def d Let_def)
  then have c: "dhcps_check_msg_and_handle_options rq st = (True, st1)"
    using request_msg [OF assms(2), of st] assms(1,4)
    by (simp add: dhcps_handle_state_machine_change_def st1_def)
  have f: "ds_state st1 = DS_ACK" "ds_opt_len st1 = int (pk_len rq) - 236" "287 \<le> pk_len rq"
    "ip4_addr4 (ds_allocated st1) = of_nat d" "ds_client st1 = mac" "ds_macs st1 = ds_macs st" "length (ds_range st1) = 8"
    "1 \<le> d" "d < 256" "ds_allocated st1 = ip_with_addr4 (ds_network st) (of_nat d)"
    using assms(2,4,5,9) by (simp_all add: st1_def request_def addr4_with)
  from ack_tail [OF c f(1-4,8,9) assms(6) f(7), of fresh] obtain x rng ack where a:
    "dhcps_receive_udp_packet_handler fresh rq 68 st =
      Some (st1\<lparr>ds_xid := x, ds_range := rng, ds_macs := (ds_macs st1)(d := ds_client st1), ds_request_ip := ip_zero,
                ds_client := no_mac, ds_allocated := ip_zero, ds_state := DS_IDLE\<rparr>, Some (ack, True))"
    "is_reply 5 (ds_allocated st1) ack" by blast
  show ?thesis
    by (rule exI, rule exI, rule conjI, rule a(1)) (use a(2) f(5,6,10) in simp)
qed

text \<open>
  Acknowledging any address from 129 to 160 shifts by the whole address instead of its distance
  from 128, which C leaves undefined.
\<close>

theorem dhcps_mark_undefined:
  assumes "ds_state st = DS_OFFER" "ds_allocated st = ip" "request mac ip rq" "128 < unat (ip4_addr4 ip)" "unat (ip4_addr4 ip) \<le> 160"
  shows "dhcps_receive_udp_packet_handler fresh rq 68 st = None"
proof -
  define st1 where "st1 = st\<lparr>ds_opt_len := int (pk_len rq) - 236, ds_client := mac, ds_request_ip := ip, ds_state := DS_ACK\<rparr>"
  have "ip4_addr4 ip \<noteq> 0" using assms(4) by auto
  then have c: "dhcps_check_msg_and_handle_options rq st = (True, st1)"
    using request_msg [OF assms(3), of st] assms(1,2) by (simp add: dhcps_handle_state_machine_change_def st1_def)
  have n: "287 \<le> pk_len rq" "ds_opt_len st1 = int (pk_len rq) - 236" "ds_state st1 = DS_ACK" "ds_allocated st1 = ip"
    using assms(2,3) by (simp_all add: request_def st1_def)
  from send_ack_ok [OF n(1,2)] obtain ack where a:
    "dhcps_send_ack rq st1 = Some (st1\<lparr>ds_xid := get_bytes 4 4 (pk_mem rq)\<rparr>, Some (ack, True))" by blast
  have u: "128 < uint (ip4_addr4 ip)" "uint (ip4_addr4 ip) \<le> 160" using assms(4,5) uint_nat [of "ip4_addr4 ip"] by linarith+
  have "mark_ip_in_table (ip4_addr4 ip) st' = None" for st'
    using u by (simp add: mark_ip_in_table_def Let_def mark_bit_def shl1_def)
  then show ?thesis using a n(3,4) by (simp add: dhcps_receive_udp_packet_handler_def c)
qed

section \<open>Examples\<close>

text \<open>Messages in packets of 300 bytes.\<close>

definition client_packet :: "bytes \<Rightarrow> bytes \<Rightarrow> packet" where
  "client_packet mac opts = \<lparr>pk_len = 300,
     pk_mem = put_bytes 240 (opts @ 255 # replicate (59 - length opts) 0)
       (put_bytes 236 dhcp_magic_cookie (put_bytes 28 mac (\<lambda>_. 0)))\<rparr>"

definition discover_packet :: "bytes \<Rightarrow> packet" where
  "discover_packet mac = client_packet mac [53, 1, 1]"

definition request_packet :: "bytes \<Rightarrow> ip4 \<Rightarrow> packet" where
  "request_packet mac ip = client_packet mac ([53, 1, 3, 50, 4] @ ip_bytes ip)"

lemma client_packet_ok:
  assumes "length mac = 6" "mac \<noteq> no_mac" "list_all option_ok opts" "length (options_bytes opts) \<le> 59"
  shows "client_message mac opts (client_packet mac (options_bytes opts))"
proof -
  have "length dhcp_magic_cookie = 4" by (simp add: dhcp_magic_cookie_def)
  then show ?thesis using assms by (auto simp: client_message_def client_packet_def get_put)
qed

lemma discover_packet_ok: "length mac = 6 \<Longrightarrow> mac \<noteq> no_mac \<Longrightarrow> discover mac (discover_packet mac)"
  unfolding discover_def
  using client_packet_ok [of mac "[(53, [1])]"] by (intro exI [of _ "[]"]) (simp add: discover_packet_def option_bytes_def option_ok_def)

lemma request_packet_ok: "length mac = 6 \<Longrightarrow> mac \<noteq> no_mac \<Longrightarrow> request mac ip (request_packet mac ip)"
  unfolding request_def
  using client_packet_ok [of mac "[(53, [3]), (50, ip_bytes ip)]"]
  by (intro conjI exI [of _ "[]"]) (simp_all add: request_packet_def option_bytes_def option_ok_def, simp add: client_packet_def)

abbreviation demo_mac :: bytes where "demo_mac \<equiv> [2, 4, 6, 8, 10, 12]"

lemma demo_mac_ok: "length demo_mac = 6" "demo_mac \<noteq> no_mac"
  by (simp_all add: eval_nat_numeral)

lemma demo_ok: "leases_ok 100 120 demo_dhcps" "\<not> marked demo_dhcps 100"
  by (simp_all add: leases_ok_def table_ok_def demo_dhcps_def marked_def)

theorem dhcps_client_served_witness:
  "\<exists>ip st1 offer. dhcps_receive_udp_packet_handler (Some (\<lambda>_. 0)) (discover_packet demo_mac) 68 demo_dhcps = Some (st1, Some (offer, True)) \<and>
    is_reply 2 ip offer \<and> (\<exists>st2 ack. dhcps_receive_udp_packet_handler None (request_packet demo_mac ip) 68 st1 =
      Some (st2, Some (ack, True)) \<and> is_reply 5 ip ack)"
proof -
  have d: "discover demo_mac (discover_packet demo_mac)" by (rule discover_packet_ok [OF demo_mac_ok])
  have r: "request demo_mac ip (request_packet demo_mac ip)" for ip by (rule request_packet_ok [OF demo_mac_ok])
  have "\<exists>i. 100 \<le> i \<and> i \<le> 120 \<and> \<not> marked demo_dhcps i" using demo_ok(2) by (intro exI [of _ 100]) simp
  with dhcps_client_served [OF demo_ok(1) d, of "\<lambda>_. 0"] r show ?thesis by blast
qed

text \<open>A client that comes twice.\<close>

theorem dhcps_leases_distinct_witness:
  "\<exists>st0 a a' st'. dhcps_init True (192, 168, 1, 1) (255, 255, 255, 0) (192, 168, 1, 1) demo_dhcps = Some st0 \<and>
    dhcps_log st0 [(demo_mac, a'), (demo_mac, a)] st' \<and> a' = a"
proof -
  obtain st0 where i: "dhcps_init True (192, 168, 1, 1) (255, 255, 255, 0) (192, 168, 1, 1) demo_dhcps = Some st0"
    "\<forall>i. 1 \<le> i \<longrightarrow> i \<le> 256 \<longrightarrow> marked st0 i \<longleftrightarrow> i = 1 \<or> i = 1"
    using init_marks [of "(192, 168, 1, 1)" 1 "(192, 168, 1, 1)" 1 "(255, 255, 255, 0)" demo_dhcps] by auto
  have l: "leases_ok 100 120 st0" by (rule init_ok(1) [OF i(1)]) (simp_all add: demo_dhcps_def)
  have d: "discover demo_mac (discover_packet demo_mac)" by (rule discover_packet_ok [OF demo_mac_ok])
  have r: "request demo_mac ip (request_packet demo_mac ip)" for ip by (rule request_packet_ok [OF demo_mac_ok])
  have step: "\<exists>a st'. dhcps_log st0 ((demo_mac, a) # log) st' \<and> leases_ok 100 120 st' \<and> (\<exists>d. ds_macs st' d = demo_mac)"
    if "leases_ok 100 120 st" "dhcps_log st0 log st"
      "(\<exists>d. ds_macs st d = demo_mac) \<or> (\<exists>i. 100 \<le> i \<and> i \<le> 120 \<and> \<not> marked st i)" for st log
  proof -
    from served [OF that(1) d that(3), of "\<lambda>_. 0"] obtain d1 st1 offer where o:
      "dhcps_receive_udp_packet_handler (Some (\<lambda>_. 0)) (discover_packet demo_mac) 68 st = Some (st1, Some (offer, True))"
      "is_reply 2 (ip_with_addr4 (ds_network st) (of_nat d1)) offer"
      "\<forall>fresh rq. request demo_mac (ip_with_addr4 (ds_network st) (of_nat d1)) rq \<longrightarrow> (\<exists>st2 ack.
         dhcps_receive_udp_packet_handler fresh rq 68 st1 = Some (st2, Some (ack, True)) \<and>
         is_reply 5 (ip_with_addr4 (ds_network st) (of_nat d1)) ack \<and>
         leases_ok 100 120 st2 \<and> ds_macs st2 = (ds_macs st)(d1 := demo_mac) \<and> ds_network st2 = ds_network st)" by blast
    from o(3) r obtain st2 ack where a:
      "dhcps_receive_udp_packet_handler None (request_packet demo_mac (ip_with_addr4 (ds_network st) (of_nat d1))) 68 st1 =
         Some (st2, Some (ack, True))" "is_reply 5 (ip_with_addr4 (ds_network st) (of_nat d1)) ack"
      "leases_ok 100 120 st2" "ds_macs st2 = (ds_macs st)(d1 := demo_mac)" by blast
    from log_client [OF that(2) d o(1,2) r a(1)] a(2-4) show ?thesis by fastforce
  qed
  have "\<exists>i. 100 \<le> i \<and> i \<le> 120 \<and> \<not> marked st0 i" using i(2) by (intro exI [of _ 100]) simp
  with step [OF l log_start] obtain a st1 where a: "dhcps_log st0 [(demo_mac, a)] st1" "leases_ok 100 120 st1"
    "\<exists>d. ds_macs st1 d = demo_mac" by blast
  with step [OF a(2,1)] obtain a' st' where a': "dhcps_log st0 [(demo_mac, a'), (demo_mac, a)] st'" by blast
  have p: "ds_state demo_dhcps = DS_IDLE" "ds_pool_set demo_dhcps" "100 \<le> unat (ip4_addr4 (ds_pool_start demo_dhcps))"
    "unat (ip4_addr4 (ds_pool_end demo_dhcps)) \<le> 127"
    by (simp_all add: demo_dhcps_def)
  have m: "(demo_mac, a') \<in> set [(demo_mac, a'), (demo_mac, a)]" "(demo_mac, a) \<in> set [(demo_mac, a'), (demo_mac, a)]"
    by simp_all
  note q = conjunct1 [OF dhcps_leases_distinct [OF p i(1) a']]
  from bspec [OF bspec [OF q m(1), unfolded prod.case] m(2), unfolded prod.case] have "a' = a" by blast
  with i(1) a' show ?thesis by blast
qed

theorem dhcps_duplicate_lease_witness:
  "\<exists>st' ack. dhcps_receive_udp_packet_handler None (request_packet demo_mac (192, 168, 1, 105)) 68
      (demo_dhcps\<lparr>ds_macs := (\<lambda>_. no_mac)(105 := [0x1c, 0x00, 0x42, 1, 2, 3])\<rparr>) = Some (st', Some (ack, True)) \<and>
    is_reply 5 (192, 168, 1, 105) ack \<and> ds_macs st' 105 = demo_mac"
proof -
  let ?st = "demo_dhcps\<lparr>ds_macs := (\<lambda>_. no_mac)(105 := [0x1c, 0x00, 0x42, 1, 2, 3])\<rparr>"
  have "request demo_mac (192, 168, 1, 105) (request_packet demo_mac (192, 168, 1, 105))" by (rule request_packet_ok [OF demo_mac_ok])
  from dhcps_duplicate_lease [of ?st, OF _ this, of 105 None] show ?thesis by (auto simp: demo_dhcps_def)
qed

theorem dhcps_mark_undefined_witness:
  "dhcps_receive_udp_packet_handler None (request_packet demo_mac (192, 168, 1, 130)) 68
     (demo_dhcps\<lparr>ds_state := DS_OFFER, ds_allocated := (192, 168, 1, 130)\<rparr>) = None"
  by (rule dhcps_mark_undefined [OF _ _ request_packet_ok [OF demo_mac_ok]]) simp_all

theorem dhcps_writes_inside_witness:
  "\<exists>st' nak. dhcps_receive_udp_packet_handler None (request_packet demo_mac (192, 168, 1, 0)) 68
      (demo_dhcps\<lparr>ds_state := DS_OFFER, ds_allocated := (192, 168, 1, 0)\<rparr>) = Some (st', Some (nak, True)) \<and>
    (\<forall>i \<ge> 300. pk_mem nak i = 0)"
proof -
  let ?ip = "(192, 168, 1, 0) :: ip4" and ?st = "demo_dhcps\<lparr>ds_state := DS_OFFER, ds_allocated := (192, 168, 1, 0)\<rparr>"
  have "request demo_mac ?ip (request_packet demo_mac ?ip)" by (rule request_packet_ok [OF demo_mac_ok])
  from handler_nak [OF this, of ?st None ?ip] obtain st' nak where
    r: "dhcps_receive_udp_packet_handler None (request_packet demo_mac ?ip) 68 ?st = Some (st', Some (nak, True))" by auto
  have p: "pk_len (request_packet demo_mac ?ip) = 300" by (simp add: request_packet_def client_packet_def)
  have "pk_mem (request_packet demo_mac ?ip) i = 0" if "300 \<le> i" for i
    using that by (simp add: request_packet_def client_packet_def put_bytes_outside dhcp_magic_cookie_def)
  with dhcps_writes_inside [OF r] r p show ?thesis by auto
qed

end
