(* ===== verification/XmlStr.thy ===== *)
theory XmlStr
  imports Prelude "HOL-Library.Sublist"
begin

text \<open>
  The string functions of \<^verbatim>\<open>component/common/utilities/xml.c\<close>.  A pointer into a string is the offset
  from the pointer that was searched; a string is given without its terminator.
\<close>

section \<open>Searching\<close>

text \<open>The library's \<^verbatim>\<open>strchr\<close>.\<close>

fun xml_strchr :: "string \<Rightarrow> char \<Rightarrow> nat option" where
  "xml_strchr [] c = None"
| "xml_strchr (x # s) c = (if x = c then Some 0 else map_option Suc (xml_strchr s c))"

text \<open>The loop of \<^verbatim>\<open>xml_strstr\<close> that compares at one position, and the loop over the positions.\<close>

fun xml_match :: "string \<Rightarrow> string \<Rightarrow> bool" where
  "xml_match a [] = True"
| "xml_match [] (y # b) = False"
| "xml_match (x # a) (y # b) = (if x \<noteq> y then False else xml_match a b)"

fun xml_strstr_loop :: "string \<Rightarrow> string \<Rightarrow> nat option" where
  "xml_strstr_loop [] b = None"
| "xml_strstr_loop (x # s) b =
     (if x \<noteq> hd b then map_option Suc (xml_strstr_loop s b)
      else if xml_match (x # s) b then Some 0 else map_option Suc (xml_strstr_loop s b))"

definition xml_strstr :: "string \<Rightarrow> string \<Rightarrow> nat option" where
  "xml_strstr s b = (if b = [] then Some 0 else xml_strstr_loop s b)"

lemma xml_strchr_None [simp]: "xml_strchr s c = None \<longleftrightarrow> c \<notin> set s"
  by (induction s) auto

lemma xml_strchr_absent [simp]: "c \<notin> set s \<Longrightarrow> xml_strchr s c = None"
  by simp

lemma xml_strchr_append: "c \<notin> set s \<Longrightarrow> xml_strchr (s @ t) c = map_option (\<lambda>i. length s + i) (xml_strchr t c)"
  by (cases "xml_strchr t c"; induction s) (auto simp del: xml_strchr_None)

lemma xml_strchr_first [simp]: "c \<notin> set s \<Longrightarrow> xml_strchr (s @ c # t) c = Some (length s)"
  by (simp add: xml_strchr_append)

lemma xml_strchr_Some: "xml_strchr s c = Some i \<Longrightarrow> i < length s \<and> s ! i = c \<and> c \<notin> set (take i s)"
  by (induction s arbitrary: i) (auto split: if_splits)

lemma xml_match_prefix [simp]: "xml_match a b \<longleftrightarrow> prefix b a"
  by (induction a b rule: xml_match.induct) auto

lemma xml_strstr_simps [simp]:
  "xml_strstr s [] = Some 0"
  "y \<noteq> [] \<Longrightarrow> xml_strstr [] y = None"
  "y \<noteq> [] \<Longrightarrow> xml_strstr (x # s) y = (if prefix y (x # s) then Some 0 else map_option Suc (xml_strstr s y))"
  by (cases y; auto simp: xml_strstr_def)+

text \<open>The search gives the first position at which the pattern occurs.\<close>

lemma xml_strstr_correct:
  "xml_strstr s b = Some i \<longleftrightarrow> i \<le> length s \<and> prefix b (drop i s) \<and> (\<forall>j < i. \<not> prefix b (drop j s))"
proof (cases "b = []")
  case False
  then show ?thesis
  proof (induction s arbitrary: i)
    case (Cons x s)
    show ?case
    proof (cases i)
      case (Suc k)
      then show ?thesis using Cons by (auto simp: less_Suc_eq_0_disj)
    qed (use Cons.prems in auto)
  qed simp
qed auto

lemma xml_strstr_None: "b \<noteq> [] \<Longrightarrow> xml_strstr s b = None \<longleftrightarrow> (\<forall>i. \<not> prefix b (drop i s))"
proof (induction s)
  case (Cons x s)
  have "(\<forall>i. \<not> prefix b (drop i (x # s))) \<longleftrightarrow> \<not> prefix b (x # s) \<and> (\<forall>i. \<not> prefix b (drop i s))"
    by (metis drop0 drop_Suc_Cons old.nat.exhaust)
  then show ?case using Cons by simp
qed simp

lemma xml_strstr_bound: "xml_strstr s b = Some i \<Longrightarrow> i + length b \<le> length s"
proof -
  assume "xml_strstr s b = Some i"
  then have "i \<le> length s" "prefix b (drop i s)" by (simp_all add: xml_strstr_correct)
  then show ?thesis using prefix_length_le [of b "drop i s"] by simp
qed

text \<open>No occurrence of a pattern begins in the first part of a text.\<close>

definition no_start :: "string \<Rightarrow> string \<Rightarrow> string \<Rightarrow> bool" where
  "no_start b u v \<longleftrightarrow> (\<forall>i < length u. \<not> prefix b (drop i (u @ v)))"

lemma no_start_Nil [simp]: "no_start b [] v"
  by (simp add: no_start_def)

lemma no_start_Cons: "no_start b (x # u) v \<longleftrightarrow> \<not> prefix b (x # u @ v) \<and> no_start b u v"
  unfolding no_start_def by (auto simp: less_Suc_eq_0_disj)

lemma no_start_append: "no_start b (u @ w) v \<longleftrightarrow> no_start b u (w @ v) \<and> no_start b w v"
  by (induction u) (auto simp: no_start_Cons)

lemma no_start_char: "hd b \<notin> set u \<Longrightarrow> b \<noteq> [] \<Longrightarrow> no_start b u v"
  by (induction u) (auto simp: no_start_Cons prefix_def Cons_eq_append_conv)

lemma xml_strstr_skip:
  "b \<noteq> [] \<Longrightarrow> no_start b u v \<Longrightarrow> xml_strstr (u @ v) b = map_option (\<lambda>i. length u + i) (xml_strstr v b)"
  by (cases "xml_strstr v b"; induction u) (auto simp: no_start_Cons)

lemma xml_strstr_here [simp]: "xml_strstr (b @ v) b = Some 0"
  by (simp add: xml_strstr_correct)

lemma xml_strstr_none: "b \<noteq> [] \<Longrightarrow> no_start b u [] \<Longrightarrow> xml_strstr u b = None"
  using xml_strstr_skip [of b u "[]"] by simp

lemma xml_strstr_absent: "b \<noteq> [] \<Longrightarrow> hd b \<notin> set u \<Longrightarrow> xml_strstr u b = None"
  by (simp add: xml_strstr_none no_start_char)

lemma first_part_eq:
  assumes "xs @ x # ys = xs' @ x # ys'" "x \<notin> set xs" "x \<notin> set xs'"
  shows "xs = xs'"
proof -
  have "takeWhile (\<lambda>c. c \<noteq> x) (zs @ x # vs) = zs" if "x \<notin> set zs" for zs vs
    using that by (induction zs) auto
  then show ?thesis using assms by metis
qed

lemma first_stop_eq:
  assumes "xs @ x # ys = xs' @ x' # ys'" "x \<notin> set (xs @ xs')" "x' \<notin> set (xs @ xs')"
  shows "xs = xs' \<and> x = x'"
proof -
  have tw: "takeWhile (\<lambda>c. c \<noteq> x \<and> c \<noteq> x') (zs @ z # vs) = zs" if "z \<in> {x, x'}" "x \<notin> set zs" "x' \<notin> set zs" for zs z vs
    using that by (induction zs) auto
  have "xs = xs'" using tw [of x xs ys] tw [of x' xs' ys'] assms by simp
  then show ?thesis using assms(1) by simp
qed

lemma xml_strstr_char: "c \<in> set b \<Longrightarrow> c \<notin> set s \<Longrightarrow> xml_strstr s b = None"
proof -
  assume c: "c \<in> set b" "c \<notin> set s"
  have "\<not> prefix b (drop i s)" for i
    using c set_mono_prefix [of b "drop i s"] in_set_dropD [of c i s] by blast
  then show ?thesis using c(1) by (subst xml_strstr_None) auto
qed

section \<open>Stripping\<close>

text \<open>\<^verbatim>\<open>str_strip\<close>: the string without the spaces around it, or \<^verbatim>\<open>NULL\<close> when nothing else is there.\<close>

definition str_strip :: "string \<Rightarrow> string option" where
  "str_strip s =
     (if s = [] then None
      else let front = dropWhile (\<lambda>c. c = CHR '' '') s
           in if front = [] then None
              else Some (rev (dropWhile (\<lambda>c. c = CHR '' '') (rev front))))"

lemma str_strip_id: "s \<noteq> [] \<Longrightarrow> hd s \<noteq> CHR '' '' \<Longrightarrow> last s \<noteq> CHR '' '' \<Longrightarrow> str_strip s = Some s"
  by (simp add: str_strip_def Let_def dropWhile_eq_self_iff [THEN iffD2] hd_rev)

lemma str_strip_front [simp]: "str_strip (CHR '' '' # s) = str_strip s"
  by (auto simp: str_strip_def Let_def)

lemma str_strip_none: "str_strip s = None \<longleftrightarrow> set s \<subseteq> {CHR '' ''}"
  by (auto simp: str_strip_def Let_def dropWhile_eq_Nil_conv)

end
