(* ===== verification/XmlNode.thy ===== *)
theory XmlNode
  imports Prelude "HOL-Library.Monad_Syntax"
begin

text \<open>
  The nodes of the XML library \<^verbatim>\<open>component/common/utilities/xml.c\<close>: constructors, the store in which
  nodes point to each other, and the attachment of a child.

  A character pointer of a node owns its buffer (the constructors copy every string they are given),
  so that it is modelled by the string itself, and \<^verbatim>\<open>NULL\<close> by \<^term>\<open>None\<close>.  Nodes are shared by the
  pointers \<^verbatim>\<open>parent\<close>, \<^verbatim>\<open>child\<close>, \<^verbatim>\<open>prev\<close> and \<^verbatim>\<open>next\<close>; they live in a store, a map from addresses to nodes.
  The allocator \<^verbatim>\<open>pvPortMalloc\<close> is a parameter: \<open>new s\<close> is the address it gives when the nodes of \<open>s\<close>
  are allocated.  The code does not check the result of an allocation, and neither does the model: it
  describes the runs in which memory suffices.  What C leaves undefined (reading through a null or
  dangling pointer) and what does not end is \<^term>\<open>None\<close>.
\<close>

section \<open>Nodes and the store\<close>

record xml_node =
  xn_name :: "string option"
  xn_text :: "string option"
  xn_prefix :: "string option"
  xn_uri :: "string option"
  xn_attr :: "string option"
  xn_parent :: "nat option"
  xn_child :: "nat option"
  xn_prev :: "nat option"
  xn_next :: "nat option"

type_synonym xstore = "nat \<rightharpoonup> xml_node"

definition xml_fresh :: "(xstore \<Rightarrow> nat) \<Rightarrow> bool" where
  "xml_fresh new \<longleftrightarrow> (\<forall>s. finite (dom s) \<longrightarrow> new s \<notin> dom s)"

text \<open>An update of the node that a pointer denotes.\<close>

definition xml_put :: "xstore \<Rightarrow> nat \<Rightarrow> (xml_node \<Rightarrow> xml_node) \<Rightarrow> xstore option" where
  "xml_put s p f = (case s p of None \<Rightarrow> None | Some n \<Rightarrow> Some (s(p \<mapsto> f n)))"

section \<open>Constructors\<close>

definition xml_zero :: xml_node where
  "xml_zero = \<lparr>xn_name = None, xn_text = None, xn_prefix = None, xn_uri = None, xn_attr = None,
     xn_parent = None, xn_child = None, xn_prev = None, xn_next = None\<rparr>"

definition xml_new_node :: "(xstore \<Rightarrow> nat) \<Rightarrow> xstore \<Rightarrow> nat \<times> xstore" where
  "xml_new_node new s = (new s, s(new s \<mapsto> xml_zero))"

definition xml_new_element_attr ::
    "(xstore \<Rightarrow> nat) \<Rightarrow> string option \<Rightarrow> string \<Rightarrow> string option \<Rightarrow> string option \<Rightarrow> xstore \<Rightarrow> nat \<times> xstore" where
  "xml_new_element_attr new pre name uri attr s =
     (let (p, s1) = xml_new_node new s
      in (p, s1(p \<mapsto> xml_zero\<lparr>xn_name := Some name, xn_prefix := pre, xn_uri := uri, xn_attr := attr\<rparr>)))"

text \<open>The attribute that declares the name space of an element.\<close>

definition xml_ns_attr :: "string option \<Rightarrow> string option \<Rightarrow> string option" where
  "xml_ns_attr pre uri =
     (case uri of None \<Rightarrow> None
      | Some u \<Rightarrow> (case pre of Some p \<Rightarrow> Some (''xmlns:'' @ p @ ''='' @ [CHR 0x22] @ u @ [CHR 0x22])
                   | None \<Rightarrow> Some (''xmlns='' @ [CHR 0x22] @ u @ [CHR 0x22])))"

definition xml_new_element ::
    "(xstore \<Rightarrow> nat) \<Rightarrow> string option \<Rightarrow> string \<Rightarrow> string option \<Rightarrow> xstore \<Rightarrow> nat \<times> xstore" where
  "xml_new_element new pre name uri s = xml_new_element_attr new pre name uri (xml_ns_attr pre uri) s"

definition xml_new_text :: "(xstore \<Rightarrow> nat) \<Rightarrow> string \<Rightarrow> xstore \<Rightarrow> nat \<times> xstore" where
  "xml_new_text new text s =
     (let (p, s1) = xml_new_node new s in (p, s1(p \<mapsto> xml_zero\<lparr>xn_text := Some text\<rparr>)))"

section \<open>Queries and updates of one node\<close>

definition xml_is_element :: "xml_node \<Rightarrow> bool" where
  "xml_is_element n \<longleftrightarrow> xn_name n \<noteq> None \<and> xn_text n = None"

definition xml_is_text :: "xml_node \<Rightarrow> bool" where
  "xml_is_text n \<longleftrightarrow> xn_name n = None \<and> xn_text n \<noteq> None"

definition xml_text_child :: "xstore \<Rightarrow> nat \<Rightarrow> nat option option" where
  "xml_text_child s p =
     do { n \<leftarrow> s p;
          case xn_child n of
            None \<Rightarrow> Some None
          | Some c \<Rightarrow> do { m \<leftarrow> s c; Some (if xml_is_text m then Some c else None) } }"

definition xml_set_text :: "xstore \<Rightarrow> nat \<Rightarrow> string \<Rightarrow> xstore option" where
  "xml_set_text s p text =
     do { n \<leftarrow> s p;
          if xml_is_text n then Some (s(p \<mapsto> n\<lparr>xn_text := Some text\<rparr>)) else Some s }"

section \<open>Attaching a child\<close>

partial_function (option) xml_last_child :: "xstore \<Rightarrow> nat \<Rightarrow> nat option" where
  "xml_last_child s p =
     do { n \<leftarrow> s p;
          case xn_next n of None \<Rightarrow> Some p | Some q \<Rightarrow> xml_last_child s q }"

definition xml_add_child :: "xstore \<Rightarrow> nat \<Rightarrow> nat \<Rightarrow> xstore option" where
  "xml_add_child s node child =
     do { n \<leftarrow> s node;
          if xml_is_element n then
            do { s1 \<leftarrow> (case xn_child n of
                   Some c \<Rightarrow>
                     do { l \<leftarrow> xml_last_child s c;
                          s1 \<leftarrow> xml_put s l (\<lambda>m. m\<lparr>xn_next := Some child\<rparr>);
                          xml_put s1 child (\<lambda>m. m\<lparr>xn_prev := Some l\<rparr>) }
                 | None \<Rightarrow> xml_put s node (\<lambda>m. m\<lparr>xn_child := Some child\<rparr>));
                 xml_put s1 child (\<lambda>m. m\<lparr>xn_parent := Some node\<rparr>) }
          else Some s }"

section \<open>Trees\<close>

text \<open>
  What the nodes stand for: a tree of elements, each with its tag and its children in order, and of
  texts.  A node carries a label, its address; the document itself is the tree with no labels.
\<close>

record xml_tag =
  tg_prefix :: "string option"
  tg_name :: string
  tg_uri :: "string option"
  tg_attr :: "string option"

datatype 'a xtree = XElem (xlabel: 'a) xml_tag (xkids: "'a xtree list") | XText (xlabel: 'a) string

definition xerase :: "'a xtree \<Rightarrow> unit xtree" where
  "xerase t = map_xtree (\<lambda>_. ()) t"

lemma xerase_simps [simp]:
  "xerase (XElem a g ks) = XElem () g (map xerase ks)" "xerase (XText a w) = XText () w"
  by (simp_all add: xerase_def)

fun xaddrs :: "'a xtree \<Rightarrow> 'a list" where
  "xaddrs (XElem a g ks) = a # concat (map xaddrs ks)"
| "xaddrs (XText a w) = [a]"

definition link_next :: "nat option \<Rightarrow> nat xtree list \<Rightarrow> nat option" where
  "link_next nx ks = (case ks of [] \<Rightarrow> nx | k # _ \<Rightarrow> Some (xlabel k))"

definition link_prev :: "nat option \<Rightarrow> nat xtree list \<Rightarrow> nat option" where
  "link_prev pv ks = (if ks = [] then pv else Some (xlabel (last ks)))"

lemma link_simps [simp]:
  "link_next nx [] = nx" "link_next nx (k # ks) = Some (xlabel k)" "link_next nx (ks @ ls) = link_next (link_next nx ls) ks"
  "link_prev pv [] = pv" "link_prev pv (ks @ [k]) = Some (xlabel k)"
  "link_prev pv (k # ks) = link_prev (Some (xlabel k)) ks"
  by (simp_all add: link_next_def link_prev_def split: list.split)

lemma tag_fields [simp]:
  "\<lparr>tg_prefix = tg_prefix g, tg_name = tg_name g, tg_uri = tg_uri g, tg_attr = tg_attr g\<rparr> = g"
  by (cases g) simp

definition elem_node ::
    "xml_tag \<Rightarrow> nat option \<Rightarrow> nat option \<Rightarrow> nat option \<Rightarrow> nat option \<Rightarrow> xml_node" where
  "elem_node g par ch pv nx = \<lparr>xn_name = Some (tg_name g), xn_text = None, xn_prefix = tg_prefix g,
     xn_uri = tg_uri g, xn_attr = tg_attr g, xn_parent = par, xn_child = ch, xn_prev = pv, xn_next = nx\<rparr>"

definition text_node :: "string \<Rightarrow> nat option \<Rightarrow> nat option \<Rightarrow> nat option \<Rightarrow> xml_node" where
  "text_node w par pv nx = xml_zero\<lparr>xn_text := Some w, xn_parent := par, xn_prev := pv, xn_next := nx\<rparr>"

text \<open>The store holds a tree, under a parent and between two siblings; and a list of siblings.\<close>

fun xrep :: "xstore \<Rightarrow> nat option \<Rightarrow> nat option \<Rightarrow> nat option \<Rightarrow> nat xtree \<Rightarrow> bool"
and xreps :: "xstore \<Rightarrow> nat option \<Rightarrow> nat option \<Rightarrow> nat option \<Rightarrow> nat xtree list \<Rightarrow> bool" where
  "xrep s par pv nx (XElem a g ks) \<longleftrightarrow>
     s a = Some (elem_node g par (link_next None ks) pv nx) \<and> xreps s (Some a) None None ks"
| "xrep s par pv nx (XText a w) \<longleftrightarrow> s a = Some (text_node w par pv nx)"
| "xreps s par pv nx [] \<longleftrightarrow> True"
| "xreps s par pv nx (k # ks) \<longleftrightarrow>
     xrep s par pv (link_next nx ks) k \<and> xreps s par (Some (xlabel k)) nx ks"

text \<open>A whole tree: its root has no parent and no siblings, and no two nodes share an address.\<close>

definition xml_doc :: "xstore \<Rightarrow> nat xtree \<Rightarrow> bool" where
  "xml_doc s t \<longleftrightarrow> xrep s None None None t \<and> distinct (xaddrs t)"

section \<open>Facts about represented trees\<close>

abbreviation xaddrs_list :: "'a xtree list \<Rightarrow> 'a list" where
  "xaddrs_list ks \<equiv> concat (map xaddrs ks)"

lemma xlabel_in_xaddrs [simp]: "xlabel t \<in> set (xaddrs t)"
  by (cases t) simp_all

lemma xrep_cong_aux:
  "(\<forall>a \<in> set (xaddrs t). s' a = s a) \<Longrightarrow> xrep s' par pv nx t = xrep s par pv nx t"
  "(\<forall>a \<in> set (xaddrs_list ks). s' a = s a) \<Longrightarrow> xreps s' par pv nx ks = xreps s par pv nx ks"
proof (induction s par pv nx t and s par pv nx ks rule: xrep_xreps.induct)
  case (1 s par pv nx a g ks)
  then have "s' a = s a" "xreps s' (Some a) None None ks = xreps s (Some a) None None ks" by (simp_all del: xreps.simps)
  then show ?case by (simp only: xrep.simps)
next
  case (2 s par pv nx a w)
  then have "s' a = s a" by simp
  then show ?case by (simp only: xrep.simps)
next
  case (4 s par pv nx k ks)
  have "\<forall>a \<in> set (xaddrs k). s' a = s a" "\<forall>a \<in> set (xaddrs_list ks). s' a = s a"
    using "4.prems" by auto
  with "4.IH" show ?case by (simp only: xreps.simps)
qed (simp only: xreps.simps)

lemma xrep_frame: "xrep s par pv nx t \<Longrightarrow> (\<And>a. a \<in> set (xaddrs t) \<Longrightarrow> s' a = s a) \<Longrightarrow> xrep s' par pv nx t"
  using xrep_cong_aux(1) by blast

lemma xreps_frame:
  "xreps s par pv nx ks \<Longrightarrow> (\<And>a. a \<in> set (xaddrs_list ks) \<Longrightarrow> s' a = s a) \<Longrightarrow> xreps s' par pv nx ks"
  using xrep_cong_aux(2) by blast

lemma xrep_dom_aux:
  "xrep s par pv nx t \<Longrightarrow> set (xaddrs t) \<subseteq> dom s"
  "xreps s par pv nx ks \<Longrightarrow> set (xaddrs_list ks) \<subseteq> dom s"
  by (induction s par pv nx t and s par pv nx ks rule: xrep_xreps.induct) auto

lemmas xrep_dom = xrep_dom_aux(1) and xreps_dom = xrep_dom_aux(2)

lemma xreps_append [simp]:
  "xreps s par pv nx (ks @ ls) \<longleftrightarrow> xreps s par pv (link_next nx ls) ks \<and> xreps s par (link_prev pv ks) nx ls"
  by (induction ks arbitrary: pv) simp_all

text \<open>The root of a tree under new links.\<close>

lemma node_relink [simp]:
  "(elem_node g par c pv nx)\<lparr>xn_parent := par'\<rparr> = elem_node g par' c pv nx"
  "(elem_node g par c pv nx)\<lparr>xn_child := c'\<rparr> = elem_node g par c' pv nx"
  "(elem_node g par c pv nx)\<lparr>xn_prev := pv'\<rparr> = elem_node g par c pv' nx"
  "(elem_node g par c pv nx)\<lparr>xn_next := nx'\<rparr> = elem_node g par c pv nx'"
  "(text_node w par pv nx)\<lparr>xn_parent := par'\<rparr> = text_node w par' pv nx"
  "(text_node w par pv nx)\<lparr>xn_prev := pv'\<rparr> = text_node w par pv' nx"
  "(text_node w par pv nx)\<lparr>xn_next := nx'\<rparr> = text_node w par pv nx'"
  by (simp_all add: elem_node_def text_node_def xml_zero_def)

lemma xrep_relink:
  assumes "xrep s par pv nx t" "distinct (xaddrs t)" "s (xlabel t) = Some n"
  shows "xrep (s(xlabel t \<mapsto> n\<lparr>xn_parent := par', xn_prev := pv', xn_next := nx'\<rparr>)) par' pv' nx' t"
proof (cases t)
  case (XElem a g ks)
  let ?m = "n\<lparr>xn_parent := par', xn_prev := pv', xn_next := nx'\<rparr>"
  have n: "n = elem_node g par (link_next None ks) pv nx" and ks: "xreps s (Some a) None None ks"
    and a: "a \<notin> set (xaddrs_list ks)"
    using assms unfolding XElem by simp_all
  have "xreps (s(a \<mapsto> ?m)) (Some a) None None ks"
    by (rule xreps_frame [OF ks]) (metis a fun_upd_other)
  then show ?thesis unfolding XElem n by simp
qed (use assms in auto)

lemma xrep_root_links:
  assumes "xrep s par pv nx t" "s (xlabel t) = Some n"
  shows "xn_parent n = par" "xn_prev n = pv" "xn_next n = nx"
  using assms by (cases t; auto simp: elem_node_def text_node_def)+

lemma xrep_root:
  assumes "xrep s par pv nx t"
  obtains n where "s (xlabel t) = Some n" "xn_parent n = par" "xn_prev n = pv" "xn_next n = nx"
  using assms xrep_root_links [OF assms] xrep_dom [OF assms] xlabel_in_xaddrs [of t] by blast

lemma xrep_set_link:
  assumes "xrep s par pv nx t" "distinct (xaddrs t)" "s (xlabel t) = Some n"
  shows "xrep (s(xlabel t \<mapsto> n\<lparr>xn_parent := par'\<rparr>)) par' pv nx t"
    and "xrep (s(xlabel t \<mapsto> n\<lparr>xn_prev := pv'\<rparr>)) par pv' nx t"
    and "xrep (s(xlabel t \<mapsto> n\<lparr>xn_next := nx'\<rparr>)) par pv nx' t"
    and "xrep (s(xlabel t \<mapsto> n\<lparr>xn_prev := pv', xn_parent := par'\<rparr>)) par' pv' nx t"
proof -
  have "n\<lparr>xn_parent := par'\<rparr> = n\<lparr>xn_parent := par', xn_prev := pv, xn_next := nx\<rparr>"
    "n\<lparr>xn_prev := pv'\<rparr> = n\<lparr>xn_parent := par, xn_prev := pv', xn_next := nx\<rparr>"
    "n\<lparr>xn_next := nx'\<rparr> = n\<lparr>xn_parent := par, xn_prev := pv, xn_next := nx'\<rparr>"
    "n\<lparr>xn_prev := pv', xn_parent := par'\<rparr> = n\<lparr>xn_parent := par', xn_prev := pv', xn_next := nx\<rparr>"
    using xrep_root_links [OF assms(1,3)] by (cases n; simp)+
  then show "xrep (s(xlabel t \<mapsto> n\<lparr>xn_parent := par'\<rparr>)) par' pv nx t"
    "xrep (s(xlabel t \<mapsto> n\<lparr>xn_prev := pv'\<rparr>)) par pv' nx t"
    "xrep (s(xlabel t \<mapsto> n\<lparr>xn_next := nx'\<rparr>)) par pv nx' t"
    "xrep (s(xlabel t \<mapsto> n\<lparr>xn_prev := pv', xn_parent := par'\<rparr>)) par' pv' nx t"
    using xrep_relink [OF assms] by metis+
qed

lemma node_kinds [simp]:
  "xml_is_element (elem_node g par c pv nx)" "\<not> xml_is_text (elem_node g par c pv nx)"
  "xml_is_text (text_node w par pv nx)" "\<not> xml_is_element (text_node w par pv nx)"
  "xn_child (elem_node g par c pv nx) = c" "xn_child (text_node w par pv nx) = None"
  by (simp_all add: xml_is_element_def xml_is_text_def elem_node_def text_node_def xml_zero_def)

section \<open>Adding a child\<close>

lemma xml_last_child_siblings:
  "xreps s par pv None ks \<Longrightarrow> ks \<noteq> [] \<Longrightarrow> xml_last_child s (xlabel (hd ks)) = Some (xlabel (last ks))"
proof (induction ks arbitrary: pv)
  case (Cons k ks)
  then obtain n where n: "s (xlabel k) = Some n" "xn_next n = link_next None ks"
    by (auto elim: xrep_root)
  show ?case
  proof (cases ks)
    case Nil
    then show ?thesis using n by (subst xml_last_child.simps) simp
  next
    case (Cons l ls)
    then show ?thesis using n Cons.IH [of "Some (xlabel k)"] Cons.prems
      by (subst xml_last_child.simps) simp
  qed
qed simp

text \<open>
  A tree attached to an element becomes its last child.  Nodes elsewhere are not touched, so that the
  same holds inside a larger document.
\<close>

lemma xml_add_child_empty:
  assumes "xrep s par pv nx (XElem p g [])" "xrep s None None None t" "distinct (xaddrs t)" "p \<notin> set (xaddrs t)"
  shows "\<exists>s'. xml_add_child s p (xlabel t) = Some s' \<and> xrep s' par pv nx (XElem p g [t])
    \<and> dom s' = dom s \<and> (\<forall>a. a \<noteq> p \<longrightarrow> a \<notin> set (xaddrs t) \<longrightarrow> s' a = s a)"
proof -
  let ?c = "xlabel t"
  obtain n where n: "s ?c = Some n" "xn_prev n = None" "xn_next n = None"
    using xrep_root [OF assms(2)] by metis
  have p: "s p = Some (elem_node g par None pv nx)" using assms(1) by simp
  have pc: "p \<noteq> ?c" using assms(4) xlabel_in_xaddrs by metis
  let ?s1 = "s(p \<mapsto> elem_node g par (Some ?c) pv nx)"
  let ?s2 = "?s1(?c \<mapsto> n\<lparr>xn_parent := Some p\<rparr>)"
  have run: "xml_add_child s p ?c = Some ?s2"
    using p n pc by (simp add: xml_add_child_def xml_put_def)
  have "xrep ?s1 None None None t"
    by (rule xrep_frame [OF assms(2)]) (use assms(4) in \<open>metis fun_upd_other\<close>)
  then have "xrep ?s2 (Some p) None None t"
    by (rule xrep_set_link) (use assms(3) n pc in simp_all)
  moreover have "dom ?s2 = dom s" using p n by auto
  moreover have "\<forall>a. a \<noteq> p \<longrightarrow> a \<notin> set (xaddrs t) \<longrightarrow> ?s2 a = s a" using xlabel_in_xaddrs [of t] by auto
  ultimately show ?thesis using run pc by auto
qed

lemma xml_add_child_last:
  assumes "xrep s par pv nx (XElem p g (ks @ [k]))" "xrep s None None None t"
    and d: "distinct (xaddrs (XElem p g (ks @ [k])) @ xaddrs t)"
  shows "\<exists>s'. xml_add_child s p (xlabel t) = Some s' \<and> xrep s' par pv nx (XElem p g (ks @ [k, t]))
    \<and> dom s' = dom s \<and> (\<forall>a. a \<notin> set (xaddrs k) \<union> set (xaddrs t) \<longrightarrow> s' a = s a)"
proof -
  let ?c = "xlabel t" and ?l = "xlabel k"
  obtain n where n: "s ?c = Some n" using xrep_root [OF assms(2)] by metis
  have p: "s p = Some (elem_node g par (link_next None (ks @ [k])) pv nx)"
    and ks: "xreps s (Some p) None (Some ?l) ks" and k: "xrep s (Some p) (link_prev None ks) None k"
    using assms(1) by simp_all
  obtain m where m: "s ?l = Some m" using xrep_root [OF k] by metis
  have dk: "distinct (xaddrs k)" and dt: "distinct (xaddrs t)" and kt: "set (xaddrs k) \<inter> set (xaddrs t) = {}"
    and p': "p \<notin> set (xaddrs k)" "p \<notin> set (xaddrs t)"
    and ks': "set (xaddrs_list ks) \<inter> (set (xaddrs k) \<union> set (xaddrs t)) = {}"
    using d by auto
  have cl: "?c \<noteq> ?l" "?c \<notin> set (xaddrs k)" "?l \<notin> set (xaddrs t)"
    using kt xlabel_in_xaddrs [of t] xlabel_in_xaddrs [of k] by (metis disjoint_iff)+
  let ?s1 = "s(?l \<mapsto> m\<lparr>xn_next := Some ?c\<rparr>)"
  let ?s2 = "?s1(?c \<mapsto> n\<lparr>xn_prev := Some ?l, xn_parent := Some p\<rparr>)"
  have "xreps s (Some p) None None (ks @ [k])" using ks k by simp
  then have last: "xml_last_child s (xlabel (hd (ks @ [k]))) = Some ?l"
    using xml_last_child_siblings by fastforce
  have first: "link_next None (ks @ [k]) = Some (xlabel (hd (ks @ [k])))" by (cases ks) simp_all
  have run: "xml_add_child s p ?c = Some ?s2"
    using p n m cl last unfolding first by (simp add: xml_add_child_def xml_put_def)
  have other: "\<forall>a. a \<notin> set (xaddrs k) \<union> set (xaddrs t) \<longrightarrow> ?s2 a = s a"
    using xlabel_in_xaddrs [of t] xlabel_in_xaddrs [of k] by auto
  have "xreps ?s2 (Some p) None (Some ?l) ks"
    by (rule xreps_frame [OF ks]) (metis ks' other disjoint_iff)
  moreover have "xrep ?s2 (Some p) (link_prev None ks) (Some ?c) k"
    by (rule xrep_frame [OF xrep_set_link(3) [OF k dk m, of "Some ?c"]]) (metis cl(2) fun_upd_other)
  moreover have "xrep ?s2 (Some p) (Some ?l) None t"
  proof (rule xrep_set_link(4) [OF _ dt])
    show "xrep ?s1 None None None t"
      by (rule xrep_frame [OF assms(2)]) (metis cl(3) fun_upd_other)
  qed (use n cl in simp)
  moreover have "?s2 p = s p" using other p' by simp
  moreover have "dom ?s2 = dom s" using m n by auto
  ultimately show ?thesis using run other p by auto
qed

lemma xml_add_child_rep:
  assumes "xrep s par pv nx (XElem p g ks)" "xrep s None None None t"
    and "distinct (xaddrs (XElem p g ks) @ xaddrs t)"
  shows "\<exists>s'. xml_add_child s p (xlabel t) = Some s' \<and> xrep s' par pv nx (XElem p g (ks @ [t]))
    \<and> dom s' = dom s \<and> (\<forall>a. a \<notin> set (xaddrs (XElem p g ks)) \<union> set (xaddrs t) \<longrightarrow> s' a = s a)"
proof (cases ks rule: rev_cases)
  case Nil
  then show ?thesis using xml_add_child_empty [of s par pv nx p g t] assms by auto
next
  case (snoc ks0 k)
  then show ?thesis using xml_add_child_last [of s par pv nx p g ks0 k t] assms by auto
qed

section \<open>Fresh nodes\<close>

lemma xml_new_element_rep:
  assumes "xml_fresh new" "finite (dom s)" "xml_new_element_attr new pre name uri attr s = (p, s')"
  shows "p \<notin> dom s" "s' = s(p \<mapsto> elem_node \<lparr>tg_prefix = pre, tg_name = name, tg_uri = uri, tg_attr = attr\<rparr> None None None None)"
  using assms
  by (auto simp: xml_new_element_attr_def xml_new_node_def xml_fresh_def elem_node_def xml_zero_def)

lemma xml_new_text_rep:
  assumes "xml_fresh new" "finite (dom s)" "xml_new_text new w s = (p, s')"
  shows "p \<notin> dom s" "s' = s(p \<mapsto> text_node w None None None)"
  using assms
  by (auto simp: xml_new_text_def xml_new_node_def xml_fresh_def text_node_def xml_zero_def)

end
