(* ===== verification/XmlTree.thy ===== *)
theory XmlTree
  imports XmlNode "HOL-Library.Sublist"
begin

text \<open>
  Deleting and copying trees of XML nodes (\<^verbatim>\<open>xml.c\<close>).  Both walk over the children by their links in the
  store; the recursion carries fuel, and the theorems say how much is enough: the size of the tree.
\<close>

section \<open>Deletion\<close>

text \<open>The end of \<^verbatim>\<open>xml_delete_tree\<close>: the node leaves the list of its siblings.\<close>

definition xml_unlink :: "xstore \<Rightarrow> nat option \<Rightarrow> nat option \<Rightarrow> nat option \<Rightarrow> xstore option" where
  "xml_unlink s parent prev nxt =
     (case prev of
        Some q \<Rightarrow>
          do { s1 \<leftarrow> xml_put s q (\<lambda>m. m\<lparr>xn_next := nxt\<rparr>);
               case nxt of Some x \<Rightarrow> xml_put s1 x (\<lambda>m. m\<lparr>xn_prev := prev\<rparr>) | None \<Rightarrow> Some s1 }
      | None \<Rightarrow>
          (case parent of
             Some q \<Rightarrow>
               do { s1 \<leftarrow> xml_put s q (\<lambda>m. m\<lparr>xn_child := nxt\<rparr>);
                    case nxt of Some x \<Rightarrow> xml_put s1 x (\<lambda>m. m\<lparr>xn_prev := None\<rparr>) | None \<Rightarrow> Some s1 }
           | None \<Rightarrow> Some s))"

fun xml_delete_tree :: "nat \<Rightarrow> xstore \<Rightarrow> nat \<Rightarrow> xstore option"
and xml_clear_child :: "nat \<Rightarrow> xstore \<Rightarrow> nat \<Rightarrow> xstore option" where
  "xml_delete_tree 0 s p = None"
| "xml_delete_tree (Suc n) s p =
     do { s1 \<leftarrow> xml_clear_child n s p;
          r \<leftarrow> s1 p;
          s2 \<leftarrow> xml_unlink s1 (xn_parent r) (xn_prev r) (xn_next r);
          Some (s2(p := None)) }"
| "xml_clear_child 0 s p = None"
| "xml_clear_child (Suc n) s p =
     do { r \<leftarrow> s p;
          case xn_child r of
            None \<Rightarrow> Some s
          | Some c \<Rightarrow> do { s1 \<leftarrow> xml_delete_tree n s c; xml_clear_child n s1 p } }"

text \<open>The operation on trees that deletion implements.\<close>

fun xremove :: "'a \<Rightarrow> 'a xtree \<Rightarrow> 'a xtree" where
  "xremove a (XElem b g ks) = XElem b g (map (xremove a) (filter (\<lambda>k. xlabel k \<noteq> a) ks))"
| "xremove a (XText b w) = XText b w"

fun xsubtrees :: "'a xtree \<Rightarrow> 'a xtree list" where
  "xsubtrees (XElem a g ks) = concat (map (\<lambda>k. k # xsubtrees k) ks)"
| "xsubtrees (XText a w) = []"

lemma xremove_id: "a \<notin> set (xaddrs t) \<Longrightarrow> xremove a t = t"
proof (induction a t rule: xremove.induct)
  case (1 a b g ks)
  then have lab: "\<forall>k \<in> set ks. xlabel k \<noteq> a"
    using xlabel_in_xaddrs by fastforce
  then have "filter (\<lambda>k. xlabel k \<noteq> a) ks = ks"
    by (simp add: filter_id_conv)
  moreover have "map (xremove a) ks = ks"
    using 1 lab by (intro map_idI) auto
  ultimately show ?case by simp
qed simp

lemma xlabel_xremove [simp]: "xlabel (xremove a t) = xlabel t"
  by (cases t) simp_all

lemma xsubtrees_addrs: "k \<in> set (xsubtrees t) \<Longrightarrow> set (xaddrs k) \<subseteq> set (xaddrs t)"
  by (induction t rule: xsubtrees.induct) auto

lemma xsubtrees_proper: "k \<in> set (xsubtrees t) \<Longrightarrow> distinct (xaddrs t) \<Longrightarrow> xlabel t \<notin> set (xaddrs k)"
  using xsubtrees_addrs by (cases t) fastforce+

lemma link_next_same [simp]: "link_next nx (map (xremove a) ks) = link_next nx ks"
  by (cases ks) simp_all

section \<open>Unlinking\<close>

text \<open>Stores that agree outside a set of addresses are unlinked alike there.\<close>

definition agree_off :: "nat set \<Rightarrow> xstore \<Rightarrow> xstore \<Rightarrow> bool" where
  "agree_off A s t \<longleftrightarrow> (\<forall>a. a \<notin> A \<longrightarrow> s a = t a)"

lemma xml_put_agree:
  assumes "agree_off A s t" "q \<notin> A" "xml_put s q f = Some s'"
  shows "\<exists>t'. xml_put t q f = Some t' \<and> agree_off A s' t' \<and> (\<forall>a \<in> A. t' a = t a)"
  using assms by (auto simp: agree_off_def xml_put_def split: option.splits)

lemma xml_unlink_agree:
  assumes "agree_off A s t" "xml_unlink s par pv nx = Some s'"
    and "par \<noteq> None \<longrightarrow> the par \<notin> A" "pv \<noteq> None \<longrightarrow> the pv \<notin> A" "nx \<noteq> None \<longrightarrow> the nx \<notin> A"
  shows "\<exists>t'. xml_unlink t par pv nx = Some t' \<and> agree_off A s' t' \<and> (\<forall>a \<in> A. t' a = t a)"
proof -
  have chain: "\<exists>t'. (do { s1 \<leftarrow> xml_put t q f; case nx of Some x \<Rightarrow> xml_put s1 x h | None \<Rightarrow> Some s1 }) = Some t'
      \<and> agree_off A s' t' \<and> (\<forall>a \<in> A. t' a = t a)"
    if "(do { s1 \<leftarrow> xml_put s q f; case nx of Some x \<Rightarrow> xml_put s1 x h | None \<Rightarrow> Some s1 }) = Some s'" "q \<notin> A" for q f h
  proof -
    from that obtain s1 where s1: "xml_put s q f = Some s1" by (cases "xml_put s q f") auto
    from xml_put_agree [OF assms(1) that(2) this] obtain t1 where
      t1: "xml_put t q f = Some t1" "agree_off A s1 t1" "\<forall>a \<in> A. t1 a = t a" by blast
    show ?thesis
    proof (cases nx)
      case (Some x)
      with that s1 have "xml_put s1 x h = Some s'" by simp
      from xml_put_agree [OF t1(2) _ this] assms(5) Some obtain t2 where
        "xml_put t1 x h = Some t2" "agree_off A s' t2" "\<forall>a \<in> A. t2 a = t1 a" by auto
      then show ?thesis using t1 Some by simp
    qed (use t1 s1 that in simp)
  qed
  show ?thesis
  proof (cases pv)
    case (Some q)
    then show ?thesis using chain assms(2,4) by (simp add: xml_unlink_def)
  next
    case None
    show ?thesis
    proof (cases par)
      case (Some q)
      then show ?thesis using None chain assms(2,3) by (simp add: xml_unlink_def)
    qed (use None assms(1,2) in \<open>simp add: xml_unlink_def\<close>)
  qed
qed

section \<open>Deletion frees a subtree\<close>

text \<open>Deleting the children of a node: the loop takes the first child until there is none.\<close>

definition delete_ok :: "nat \<Rightarrow> bool" where
  "delete_ok n \<longleftrightarrow> (\<forall>s par pv nx t s2. xrep s par pv nx t \<longrightarrow> distinct (xaddrs t) \<longrightarrow> 2 * length (xaddrs t) \<le> n
     \<longrightarrow> (\<forall>q. par = Some q \<or> pv = Some q \<or> nx = Some q \<longrightarrow> q \<notin> set (xaddrs t))
     \<longrightarrow> xml_unlink s par pv nx = Some s2
     \<longrightarrow> xml_delete_tree n s (xlabel t) = Some (s2 |` (- set (xaddrs t))))"

definition clear_ok :: "nat \<Rightarrow> bool" where
  "clear_ok n \<longleftrightarrow> (\<forall>s p r ks. s p = Some r \<longrightarrow> xn_child r = link_next None ks \<longrightarrow> xreps s (Some p) None None ks
     \<longrightarrow> distinct (p # xaddrs_list ks) \<longrightarrow> 2 * length (xaddrs_list ks) < n
     \<longrightarrow> xml_clear_child n s p = Some ((s |` (- set (xaddrs_list ks)))(p \<mapsto> r\<lparr>xn_child := None\<rparr>)))"

lemma delete_okD:
  "\<lbrakk>delete_ok n; xrep s par pv nx t; distinct (xaddrs t); 2 * length (xaddrs t) \<le> n;
     \<And>q. par = Some q \<or> pv = Some q \<or> nx = Some q \<Longrightarrow> q \<notin> set (xaddrs t); xml_unlink s par pv nx = Some s2\<rbrakk>
   \<Longrightarrow> xml_delete_tree n s (xlabel t) = Some (s2 |` (- set (xaddrs t)))"
  unfolding delete_ok_def by blast

lemma clear_okD:
  "\<lbrakk>clear_ok n; s p = Some r; xn_child r = link_next None ks; xreps s (Some p) None None ks;
     distinct (p # xaddrs_list ks); 2 * length (xaddrs_list ks) < n\<rbrakk>
   \<Longrightarrow> xml_clear_child n s p = Some ((s |` (- set (xaddrs_list ks)))(p \<mapsto> r\<lparr>xn_child := None\<rparr>))"
  unfolding clear_ok_def by blast

lemma xaddrs_positive: "0 < length (xaddrs t)"
  by (cases t) simp_all

lemma unlink_first_child:
  assumes r: "s p = Some r" and ls: "xreps s (Some p) (Some c) None ls" and d: "distinct (p # xaddrs_list ls)"
  shows "\<exists>s2. xml_unlink s (Some p) None (link_next None ls) = Some s2
    \<and> s2 p = Some (r\<lparr>xn_child := link_next None ls\<rparr>) \<and> xreps s2 (Some p) None None ls
    \<and> dom s2 = dom s \<and> (\<forall>a. a \<noteq> p \<longrightarrow> a \<notin> set (xaddrs_list ls) \<longrightarrow> s2 a = s a)"
proof (cases ls)
  case Nil
  then show ?thesis using r by (auto simp: xml_unlink_def xml_put_def)
next
  case (Cons l ms)
  have l: "xrep s (Some p) (Some c) (link_next None ms) l"
    and ms: "xreps s (Some p) (Some (xlabel l)) None ms" using ls Cons by simp_all
  obtain m where m: "s (xlabel l) = Some m" using xrep_root [OF l] by metis
  have dl: "distinct (xaddrs l)" and lm: "set (xaddrs l) \<inter> set (xaddrs_list ms) = {}"
    and p: "p \<notin> set (xaddrs l)" "p \<notin> set (xaddrs_list ms)" using d Cons by auto
  have lp: "xlabel l \<noteq> p" "xlabel l \<notin> set (xaddrs_list ms)"
    using p lm xlabel_in_xaddrs [of l] by (metis disjoint_iff)+
  let ?s2 = "s(p \<mapsto> r\<lparr>xn_child := link_next None ls\<rparr>, xlabel l \<mapsto> m\<lparr>xn_prev := None\<rparr>)"
  have "xml_unlink s (Some p) None (link_next None ls) = Some ?s2"
    using r m lp Cons by (simp add: xml_unlink_def xml_put_def)
  moreover have "xrep ?s2 (Some p) None (link_next None ms) l"
    by (rule xrep_frame [OF xrep_set_link(2) [OF l dl m]]) (metis p(1) fun_upd_apply)
  moreover have "xreps ?s2 (Some p) (Some (xlabel l)) None ms"
    by (rule xreps_frame [OF ms]) (metis p(2) lp(2) fun_upd_apply)
  moreover have "dom ?s2 = dom s" using r m by auto
  ultimately show ?thesis using lp Cons by auto
qed

lemma clear_step:
  assumes "delete_ok n" "clear_ok n"
  shows "clear_ok (Suc n)"
  unfolding clear_ok_def
proof (intro allI impI)
  fix s p r ks
  assume r: "s p = Some r" "xn_child r = link_next None ks" and rep: "xreps s (Some p) None None ks"
    and d: "distinct (p # xaddrs_list ks)" and sz: "2 * length (xaddrs_list ks) < Suc n"
  show "xml_clear_child (Suc n) s p = Some ((s |` (- set (xaddrs_list ks)))(p \<mapsto> r\<lparr>xn_child := None\<rparr>))"
  proof (cases ks)
    case Nil
    then show ?thesis using r by (cases r) (auto simp: fun_eq_iff restrict_map_def)
  next
    case (Cons k ls)
    let ?nx = "link_next None ls" and ?r = "r\<lparr>xn_child := link_next None ls\<rparr>"
    have k: "xrep s (Some p) None ?nx k" and ls: "xreps s (Some p) (Some (xlabel k)) None ls"
      and dk: "distinct (xaddrs k)" and dl: "distinct (p # xaddrs_list ls)"
      and kl: "set (xaddrs k) \<inter> set (xaddrs_list ls) = {}" and pk: "p \<notin> set (xaddrs k)"
      using rep d Cons by auto
    have nx: "\<forall>q. ?nx = Some q \<longrightarrow> q \<in> set (xaddrs_list ls)" by (cases ls) simp_all
    obtain s2 where s2: "xml_unlink s (Some p) None ?nx = Some s2" "s2 p = Some ?r"
      "xreps s2 (Some p) None None ls" "\<forall>a. a \<noteq> p \<longrightarrow> a \<notin> set (xaddrs_list ls) \<longrightarrow> s2 a = s a"
      using unlink_first_child [OF r(1) ls dl] by blast
    let ?s1 = "s2 |` (- set (xaddrs k))"
    have "xml_delete_tree n s (xlabel k) = Some ?s1"
    proof (rule delete_okD [OF assms(1) k dk _ _ s2(1)])
      show "2 * length (xaddrs k) \<le> n" using sz Cons by simp
      show "q \<notin> set (xaddrs k)" if "Some p = Some q \<or> None = Some q \<or> ?nx = Some q" for q
        using that pk nx kl by blast
    qed
    moreover have "xml_clear_child n ?s1 p = Some ((?s1 |` (- set (xaddrs_list ls)))(p \<mapsto> ?r\<lparr>xn_child := None\<rparr>))"
    proof -
      have "?s1 p = Some ?r" using s2(2) pk by simp
      moreover have "xreps ?s1 (Some p) None None ls"
        by (rule xreps_frame [OF s2(3)]) (use kl in \<open>auto simp: restrict_map_def\<close>)
      ultimately show ?thesis
      proof (intro clear_okD [OF assms(2)])
        show "2 * length (xaddrs_list ls) < n"
          using sz Cons xaddrs_positive [of k] by (simp del: length_greater_0_conv)
      qed (use dl in simp_all)
    qed
    moreover have "(?s1 |` (- set (xaddrs_list ls)))(p \<mapsto> ?r\<lparr>xn_child := None\<rparr>)
        = (s |` (- set (xaddrs_list ks)))(p \<mapsto> r\<lparr>xn_child := None\<rparr>)"
      using s2(4) Cons by (auto simp: fun_eq_iff restrict_map_def)
    ultimately show ?thesis using r Cons by simp
  qed
qed

lemma delete_step:
  assumes "clear_ok n"
  shows "delete_ok (Suc n)"
  unfolding delete_ok_def
proof (intro allI impI)
  fix s par pv nx and t :: "nat xtree" and s2
  assume rep: "xrep s par pv nx t" and d: "distinct (xaddrs t)" and sz: "2 * length (xaddrs t) \<le> Suc n"
    and off: "\<forall>q. par = Some q \<or> pv = Some q \<or> nx = Some q \<longrightarrow> q \<notin> set (xaddrs t)"
    and ul: "xml_unlink s par pv nx = Some s2"
  let ?p = "xlabel t" and ?A = "set (xaddrs t)"
  obtain r where r: "s ?p = Some r" "xn_parent r = par" "xn_prev r = pv" "xn_next r = nx"
    using xrep_root [OF rep] by metis
  obtain s1 where s1: "xml_clear_child n s ?p = Some s1" "s1 ?p = Some (r\<lparr>xn_child := None\<rparr>)"
    "agree_off ?A s s1" "\<forall>a \<in> ?A. a \<noteq> ?p \<longrightarrow> s1 a = None"
  proof -
    obtain ks where ks: "xn_child r = link_next None ks" "xreps s (Some ?p) None None ks"
      "xaddrs t = ?p # xaddrs_list ks"
      using rep r(1) by (cases t) (auto intro: that [of "[]"])
    have "xml_clear_child n s ?p = Some ((s |` (- set (xaddrs_list ks)))(?p \<mapsto> r\<lparr>xn_child := None\<rparr>))"
      by (rule clear_okD [OF assms r(1) ks(1,2)]) (use d sz ks(3) in simp_all)
    then show ?thesis by (rule that) (use ks(3) in \<open>auto simp: agree_off_def restrict_map_def\<close>)
  qed
  from off have "par \<noteq> None \<longrightarrow> the par \<notin> ?A" "pv \<noteq> None \<longrightarrow> the pv \<notin> ?A" "nx \<noteq> None \<longrightarrow> the nx \<notin> ?A" by auto
  from xml_unlink_agree [OF s1(3) ul this] obtain s3 where s3: "xml_unlink s1 par pv nx = Some s3"
    "agree_off ?A s2 s3" "\<forall>a \<in> ?A. s3 a = s1 a" by blast
  have "xml_delete_tree (Suc n) s ?p = Some (s3(?p := None))"
    using s1 s3 r by simp
  moreover have "s3(?p := None) = s2 |` (- ?A)"
    using s3 s1(4) by (auto simp: fun_eq_iff restrict_map_def agree_off_def)
  ultimately show "xml_delete_tree (Suc n) s ?p = Some (s2 |` (- ?A))" by simp
qed

lemma delete_clear_ok: "delete_ok n \<and> clear_ok n"
proof (induction n)
  case 0
  have False if "2 * length (xaddrs t) \<le> 0" for t :: "nat xtree"
    using that xaddrs_positive [of t] by linarith
  then have "delete_ok 0" unfolding delete_ok_def by blast
  moreover have "clear_ok 0" unfolding clear_ok_def by blast
  ultimately show ?case ..
qed (simp add: delete_step clear_step)

lemmas delete_rep = delete_okD [OF delete_clear_ok [THEN conjunct1]]
lemmas clear_rep = clear_okD [OF delete_clear_ok [THEN conjunct2]]

section \<open>Deletion inside a document\<close>

lemma unlink_later_child:
  assumes j: "xrep s (Some p) pv (Some c) j" and ls: "xreps s (Some p) (Some c) None ls"
    and d: "distinct (xaddrs j @ xaddrs_list ls)"
  shows "\<exists>s2. xml_unlink s (Some p) (Some (xlabel j)) (link_next None ls) = Some s2
    \<and> xrep s2 (Some p) pv (link_next None ls) j \<and> xreps s2 (Some p) (Some (xlabel j)) None ls \<and> dom s2 = dom s
    \<and> (\<forall>a. a \<notin> set (xaddrs j) \<longrightarrow> a \<notin> set (xaddrs_list ls) \<longrightarrow> s2 a = s a)"
proof -
  obtain m where m: "s (xlabel j) = Some m" using xrep_root [OF j] by metis
  let ?s1 = "s(xlabel j \<mapsto> m\<lparr>xn_next := link_next None ls\<rparr>)"
  have dj: "distinct (xaddrs j)" and jl: "set (xaddrs j) \<inter> set (xaddrs_list ls) = {}" using d by auto
  have j1: "xrep ?s1 (Some p) pv (link_next None ls) j" by (rule xrep_set_link(3) [OF j dj m])
  have other: "\<forall>a. a \<notin> set (xaddrs j) \<longrightarrow> ?s1 a = s a" using xlabel_in_xaddrs [of j] by auto
  have put: "xml_put s (xlabel j) (\<lambda>m. m\<lparr>xn_next := link_next None ls\<rparr>) = Some ?s1"
    using m by (simp add: xml_put_def)
  show ?thesis
  proof (cases ls)
    case Nil
    then show ?thesis using put j1 other m by (auto simp: xml_unlink_def)
  next
    case (Cons l ms)
    have l: "xrep s (Some p) (Some c) (link_next None ms) l"
      and ms: "xreps s (Some p) (Some (xlabel l)) None ms" using ls Cons by simp_all
    obtain r where r: "s (xlabel l) = Some r" using xrep_root [OF l] by metis
    have dl: "distinct (xaddrs l)" and lm: "set (xaddrs l) \<inter> set (xaddrs_list ms) = {}"
      and jl': "set (xaddrs j) \<inter> (set (xaddrs l) \<union> set (xaddrs_list ms)) = {}" using d Cons by auto
    have lj: "xlabel l \<notin> set (xaddrs j)" "xlabel j \<noteq> xlabel l" "xlabel l \<notin> set (xaddrs_list ms)"
      using jl' lm xlabel_in_xaddrs [of l] xlabel_in_xaddrs [of j] by (metis disjoint_iff UnCI)+
    let ?s2 = "?s1(xlabel l \<mapsto> r\<lparr>xn_prev := Some (xlabel j)\<rparr>)"
    have "xml_unlink s (Some p) (Some (xlabel j)) (link_next None ls) = Some ?s2"
      using put r lj Cons by (simp add: xml_unlink_def xml_put_def)
    moreover have "xrep ?s2 (Some p) pv (link_next None ls) j"
      by (rule xrep_frame [OF j1]) (metis lj(1) fun_upd_other)
    moreover have "xrep ?s1 (Some p) (Some c) (link_next None ms) l"
      by (rule xrep_frame [OF l]) (metis other jl' disjoint_iff UnCI)
    then have "xrep ?s2 (Some p) (Some (xlabel j)) (link_next None ms) l"
      by (rule xrep_set_link(2)) (use dl r lj in simp_all)
    moreover have "xreps ?s2 (Some p) (Some (xlabel l)) None ms"
      by (rule xreps_frame [OF ms]) (metis other jl' lj(3) disjoint_iff UnCI fun_upd_other)
    moreover have "dom ?s2 = dom s" using m r by auto
    ultimately show ?thesis using other xlabel_in_xaddrs [of l] Cons by auto
  qed
qed

lemma delete_kid:
  assumes rep: "xrep s par pv nx (XElem p g (ks @ k # ls))" and d: "distinct (xaddrs (XElem p g (ks @ k # ls)))"
    and n: "2 * length (xaddrs k) \<le> n"
  shows "\<exists>s'. xml_delete_tree n s (xlabel k) = Some s' \<and> xrep s' par pv nx (XElem p g (ks @ ls))
    \<and> dom s' = dom s - set (xaddrs k) \<and> (\<forall>a. a \<notin> set (xaddrs (XElem p g (ks @ k # ls))) \<longrightarrow> s' a = s a)"
proof -
  let ?K = "set (xaddrs k)" and ?nx = "link_next None ls"
  have p: "s p = Some (elem_node g par (link_next None (ks @ k # ls)) pv nx)"
    and ks: "xreps s (Some p) None (Some (xlabel k)) ks" and k: "xrep s (Some p) (link_prev None ks) ?nx k"
    and ls: "xreps s (Some p) (Some (xlabel k)) None ls" using rep by simp_all
  have dk: "distinct (xaddrs k)" and off: "p \<notin> ?K" "?K \<inter> set (xaddrs_list ks) = {}" "?K \<inter> set (xaddrs_list ls) = {}"
    using d by auto
  obtain s2 where s2: "xml_unlink s (Some p) (link_prev None ks) ?nx = Some s2"
    "xrep s2 par pv nx (XElem p g (ks @ ls))" "dom s2 = dom s"
    "\<forall>a. a \<noteq> p \<longrightarrow> a \<notin> set (xaddrs_list ks) \<longrightarrow> a \<notin> set (xaddrs_list ls) \<longrightarrow> s2 a = s a"
  proof (cases ks rule: rev_cases)
    case Nil
    then obtain s2 where s2: "xml_unlink s (Some p) None ?nx = Some s2"
      "s2 p = Some (elem_node g par ?nx pv nx)" "xreps s2 (Some p) None None ls" "dom s2 = dom s"
      "\<forall>a. a \<noteq> p \<longrightarrow> a \<notin> set (xaddrs_list ls) \<longrightarrow> s2 a = s a"
      using unlink_first_child [OF p ls] d by auto
    then show ?thesis using that s2 Nil by simp
  next
    case (snoc ks0 j)
    have j: "xrep s (Some p) (link_prev None ks0) (Some (xlabel k)) j" and ks0: "xreps s (Some p) None (Some (xlabel j)) ks0"
      using ks snoc by simp_all
    have "distinct (xaddrs j @ xaddrs_list ls)" using d snoc by auto
    from unlink_later_child [OF j ls this] obtain s2 where s2:
      "xml_unlink s (Some p) (Some (xlabel j)) ?nx = Some s2" "xrep s2 (Some p) (link_prev None ks0) ?nx j"
      "xreps s2 (Some p) (Some (xlabel j)) None ls" "dom s2 = dom s"
      "\<forall>a. a \<notin> set (xaddrs j) \<longrightarrow> a \<notin> set (xaddrs_list ls) \<longrightarrow> s2 a = s a" by blast
    have off': "set (xaddrs_list ks0) \<inter> (set (xaddrs j) \<union> set (xaddrs_list ls)) = {}"
      and "p \<notin> set (xaddrs j)" "p \<notin> set (xaddrs_list ls)" using d snoc by auto
    then have "s2 p = s p" using s2(5) by blast
    moreover have "xreps s2 (Some p) None (Some (xlabel j)) ks0"
      by (rule xreps_frame [OF ks0]) (metis off' s2(5) disjoint_iff UnCI)
    ultimately have "xrep s2 par pv nx (XElem p g (ks @ ls))" using s2(2,3) p snoc by (cases ks0) simp_all
    then show ?thesis using that s2 snoc by simp
  qed
  have "xml_delete_tree n s (xlabel k) = Some (s2 |` (- ?K))"
  proof (rule delete_rep [OF k dk n _ s2(1)])
    have links: "q = p \<or> q \<in> set (xaddrs_list ks) \<or> q \<in> set (xaddrs_list ls)"
      if "Some p = Some q \<or> link_prev None ks = Some q \<or> ?nx = Some q" for q
      using that by (cases ks rule: rev_cases; cases ls) auto
    then show "q \<notin> ?K" if "Some p = Some q \<or> link_prev None ks = Some q \<or> ?nx = Some q" for q
      using that off by blast
  qed
  moreover have "xrep (s2 |` (- ?K)) par pv nx (XElem p g (ks @ ls))"
  proof (rule xrep_frame [OF s2(2)])
    fix a assume "a \<in> set (xaddrs (XElem p g (ks @ ls)))"
    then have "a = p \<or> a \<in> set (xaddrs_list ks) \<or> a \<in> set (xaddrs_list ls)" by simp
    then have "a \<notin> ?K" using off by blast
    then show "(s2 |` (- ?K)) a = s2 a" by simp
  qed
  moreover have "dom (s2 |` (- ?K)) = dom s - ?K" using s2(3) by auto
  moreover have "\<forall>a. a \<notin> set (xaddrs (XElem p g (ks @ k # ls))) \<longrightarrow> (s2 |` (- ?K)) a = s a"
    using s2(4) by simp
  ultimately show ?thesis by blast
qed

text \<open>The node to be removed is a child of the root, or inside a child.\<close>

lemma xremove_cases:
  assumes k: "k \<in> set (xsubtrees (XElem p g ks))" and d: "distinct (xaddrs (XElem p g ks))"
  obtains as bs where "ks = as @ k # bs" "xremove (xlabel k) (XElem p g ks) = XElem p g (as @ bs)"
    | as c bs where "ks = as @ c # bs" "k \<in> set (xsubtrees c)" "set (xaddrs k) \<subseteq> set (xaddrs c)"
        "xremove (xlabel k) (XElem p g ks) = XElem p g (as @ xremove (xlabel k) c # bs)"
proof -
  from k obtain c where c: "c \<in> set ks" "k = c \<or> k \<in> set (xsubtrees c)" by auto
  then obtain as bs where ks: "ks = as @ c # bs" by (meson split_list)
  have sub: "set (xaddrs k) \<subseteq> set (xaddrs c)" using c(2) xsubtrees_addrs by auto
  have lk: "xlabel k \<in> set (xaddrs c)" using sub xlabel_in_xaddrs [of k] by blast
  have dc: "set (xaddrs c) \<inter> set (xaddrs_list as) = {}" "set (xaddrs c) \<inter> set (xaddrs_list bs) = {}" "distinct (xaddrs c)"
    using d ks by auto
  have out: "\<forall>x \<in> set (as @ bs). xlabel k \<notin> set (xaddrs x)" using lk dc(1,2) by auto
  then have lab: "\<forall>x \<in> set (as @ bs). xlabel x \<noteq> xlabel k" using xlabel_in_xaddrs by metis
  have same: "map (xremove (xlabel k)) as = as" "map (xremove (xlabel k)) bs = bs"
    using out by (auto intro!: map_idI xremove_id)
  have filt: "filter (\<lambda>x. xlabel x \<noteq> xlabel k) as = as" "filter (\<lambda>x. xlabel x \<noteq> xlabel k) bs = bs"
    using lab by (simp_all add: filter_id_conv)
  show thesis
  proof (cases "k = c")
    case True
    then show thesis using that(1) [of as bs] same filt ks by simp
  next
    case False
    with c(2) have kc: "k \<in> set (xsubtrees c)" by simp
    then have "xlabel c \<noteq> xlabel k" using xsubtrees_proper [OF kc dc(3)] xlabel_in_xaddrs [of k] by metis
    then show thesis using that(2) [of as c bs] same filt ks kc sub by simp
  qed
qed

lemma delete_inside:
  assumes "k \<in> set (xsubtrees t)" "xrep s par pv nx t" "distinct (xaddrs t)" "2 * length (xaddrs k) \<le> n"
  shows "\<exists>s'. xml_delete_tree n s (xlabel k) = Some s' \<and> xrep s' par pv nx (xremove (xlabel k) t)
    \<and> dom s' = dom s - set (xaddrs k) \<and> (\<forall>a. a \<notin> set (xaddrs t) \<longrightarrow> s' a = s a)"
  using assms(1-3)
proof (induction t arbitrary: par pv nx rule: xsubtrees.induct)
  case (1 p g ks)
  from "1.prems"(1,3) show ?case
  proof (cases rule: xremove_cases)
    case (1 as bs)
    then show ?thesis using delete_kid [of s par pv nx p g as k bs n] "1.prems"(2,3) assms(4) by simp
  next
    case (2 as c bs)
    have d: "p \<notin> set (xaddrs c)" "set (xaddrs c) \<inter> set (xaddrs_list as) = {}" "set (xaddrs c) \<inter> set (xaddrs_list bs) = {}"
      "distinct (xaddrs c)" using "1.prems"(3) 2(1) by auto
    have rc: "xrep s (Some p) (link_prev None as) (link_next None bs) c"
      and ra: "xreps s (Some p) None (Some (xlabel c)) as" and rb: "xreps s (Some p) (Some (xlabel c)) None bs"
      using "1.prems"(2) 2(1) by simp_all
    have c: "c \<in> set ks" using 2(1) by simp
    from "1.IH" [OF c 2(2) rc d(4)] obtain s' where s': "xml_delete_tree n s (xlabel k) = Some s'"
      "xrep s' (Some p) (link_prev None as) (link_next None bs) (xremove (xlabel k) c)"
      "dom s' = dom s - set (xaddrs k)" "\<forall>a. a \<notin> set (xaddrs c) \<longrightarrow> s' a = s a" by blast
    have "xreps s' (Some p) None (Some (xlabel c)) as"
      by (rule xreps_frame [OF ra]) (metis s'(4) d(2) disjoint_iff)
    moreover have "xreps s' (Some p) (Some (xlabel c)) None bs"
      by (rule xreps_frame [OF rb]) (metis s'(4) d(3) disjoint_iff)
    moreover have "s' p = s p" using s'(4) d(1) by simp
    ultimately have "xrep s' par pv nx (xremove (xlabel k) (XElem p g ks))"
      unfolding 2(4) using s'(2) "1.prems"(2) 2(1) by simp
    moreover have "\<forall>a. a \<notin> set (xaddrs (XElem p g ks)) \<longrightarrow> s' a = s a" using s'(4) 2(1) by simp
    ultimately show ?thesis using s'(1,3) by blast
  qed
qed simp

lemma xremove_addrs:
  "k \<in> set (xsubtrees t) \<Longrightarrow> distinct (xaddrs t) \<Longrightarrow> set (xaddrs (xremove (xlabel k) t)) = set (xaddrs t) - set (xaddrs k)"
proof (induction t rule: xsubtrees.induct)
  case (1 p g ks)
  have pk: "p \<notin> set (xaddrs k)" using xsubtrees_proper [OF "1.prems"] by simp
  from "1.prems" show ?case
  proof (cases rule: xremove_cases)
    case (1 as bs)
    then show ?thesis using "1.prems"(2) pk by auto
  next
    case (2 as c bs)
    have c: "c \<in> set ks" "distinct (xaddrs c)" using 2(1) "1.prems"(2) by simp_all
    have "set (xaddrs k) \<inter> set (xaddrs_list as) = {}" "set (xaddrs k) \<inter> set (xaddrs_list bs) = {}"
      using 2(1,3) "1.prems"(2) by auto
    moreover have "set (xaddrs (xremove (xlabel k) c)) = set (xaddrs c) - set (xaddrs k)"
      by (rule "1.IH" [OF c(1) 2(2) c(2)])
    ultimately have "insert p (set (xaddrs_list as) \<union> set (xaddrs (xremove (xlabel k) c)) \<union> set (xaddrs_list bs))
      = insert p (set (xaddrs_list as) \<union> set (xaddrs c) \<union> set (xaddrs_list bs)) - set (xaddrs k)" using pk by blast
    moreover have "set (xaddrs (XElem p g (as @ x # bs))) = insert p (set (xaddrs_list as) \<union> set (xaddrs x) \<union> set (xaddrs_list bs))" for x
      by auto
    ultimately show ?thesis unfolding 2(4) unfolding 2(1) by (simp only:)
  qed
qed simp

lemma subtree_length: "k \<in> set (xsubtrees t) \<Longrightarrow> length (xaddrs k) \<le> length (xaddrs t)"
proof (induction t rule: xsubtrees.induct)
  case (1 p g ks)
  then obtain c where c: "c \<in> set ks" "k = c \<or> k \<in> set (xsubtrees c)" by auto
  then have "length (xaddrs k) \<le> length (xaddrs c)" using "1.IH" by auto
  also have "length (xaddrs c) \<le> length (xaddrs_list ks)" using c(1) by (auto dest!: split_list)
  finally show ?case by simp
qed simp

lemma subseq_filter_concat:
  "(\<And>k. k \<in> set ks \<Longrightarrow> P k \<Longrightarrow> subseq (f k) (g k)) \<Longrightarrow> subseq (concat (map f (filter P ks))) (concat (map g ks))"
  by (induction ks) (auto intro: list_emb_append_mono list_emb_append2)

lemma subseq_xremove: "subseq (xaddrs (xremove a t)) (xaddrs t)"
proof (induction a t rule: xremove.induct)
  case (1 a b g ks)
  then have "subseq (concat (map (\<lambda>k. xaddrs (xremove a k)) (filter (\<lambda>k. xlabel k \<noteq> a) ks))) (xaddrs_list ks)"
    by (intro subseq_filter_concat) simp
  then show ?case by (simp add: comp_def)
qed simp

lemma distinct_xremove: "distinct (xaddrs t) \<Longrightarrow> distinct (xaddrs (xremove a t))"
  using subseq_xremove [of a t] by (metis subseq_conv_nths distinct_nthsI)

lemma xml_delete_doc:
  assumes "xml_doc s t" "k \<in> set (xsubtrees t)" "2 * length (xaddrs k) \<le> n"
  shows "\<exists>s'. xml_delete_tree n s (xlabel k) = Some s' \<and> xml_doc s' (xremove (xlabel k) t)
    \<and> dom s' = dom s - set (xaddrs k) \<and> (\<forall>a. a \<notin> set (xaddrs t) \<longrightarrow> s' a = s a)"
proof -
  from assms(1) have t: "xrep s None None None t" "distinct (xaddrs t)" by (simp_all add: xml_doc_def)
  from delete_inside [OF assms(2) t assms(3)] distinct_xremove [OF t(2)] show ?thesis
    unfolding xml_doc_def by blast
qed

text \<open>The root itself: everything is freed, and nothing else is touched.\<close>

lemma xml_delete_root:
  assumes "xml_doc s t" "2 * length (xaddrs t) \<le> n"
  shows "xml_delete_tree n s (xlabel t) = Some (s |` (- set (xaddrs t)))"
  using assms by (intro delete_rep) (auto simp: xml_doc_def xml_unlink_def)

text \<open>Every address in a tree is the root of a subtree.\<close>

lemma xsubtree_at: "a \<in> set (xaddrs t) \<Longrightarrow> a = xlabel t \<or> (\<exists>k \<in> set (xsubtrees t). xlabel k = a)"
  by (induction t rule: xsubtrees.induct) auto

section \<open>Copying\<close>

fun xml_copy_tree :: "(xstore \<Rightarrow> nat) \<Rightarrow> nat \<Rightarrow> xstore \<Rightarrow> nat \<Rightarrow> (nat option \<times> xstore) option"
and xml_copy_kids :: "(xstore \<Rightarrow> nat) \<Rightarrow> nat \<Rightarrow> xstore \<Rightarrow> nat option \<Rightarrow> nat \<Rightarrow> xstore option"
and xml_copy_child :: "(xstore \<Rightarrow> nat) \<Rightarrow> nat \<Rightarrow> xstore \<Rightarrow> nat \<Rightarrow> nat \<Rightarrow> xstore option" where
  "xml_copy_tree new 0 s root = None"
| "xml_copy_tree new (Suc n) s root =
     do { r \<leftarrow> s root;
          if xml_is_text r then
            (let (c, s1) = xml_new_text new (the (xn_text r)) s in Some (Some c, s1))
          else if xml_is_element r then
            (let (c, s1) = xml_new_element_attr new (xn_prefix r) (the (xn_name r)) (xn_uri r) (xn_attr r) s
             in do { s2 \<leftarrow> xml_copy_kids new n s1 (xn_child r) c; Some (Some c, s2) })
          else Some (None, s) }"
| "xml_copy_kids new 0 s child c = None"
| "xml_copy_kids new (Suc n) s None c = Some s"
| "xml_copy_kids new (Suc n) s (Some k) c =
     do { s1 \<leftarrow> xml_copy_child new n s k c;
          r \<leftarrow> s1 k;
          xml_copy_kids new n s1 (xn_next r) c }"
| "xml_copy_child new 0 s root parent = None"
| "xml_copy_child new (Suc n) s root parent =
     do { (copy, s1) \<leftarrow> xml_copy_tree new n s root;
          case copy of None \<Rightarrow> Some s1 | Some c \<Rightarrow> xml_add_child s1 parent c }"

definition copy_ok :: "(xstore \<Rightarrow> nat) \<Rightarrow> nat \<Rightarrow> bool" where
  "copy_ok new n \<longleftrightarrow> (\<forall>s par pv nx t. xrep s par pv nx t \<longrightarrow> finite (dom s) \<longrightarrow> 3 * length (xaddrs t) \<le> n
     \<longrightarrow> (\<exists>s' t'. xml_copy_tree new n s (xlabel t) = Some (Some (xlabel t'), s') \<and> xml_doc s' t' \<and> xerase t' = xerase t
           \<and> set (xaddrs t') \<inter> dom s = {} \<and> dom s' = dom s \<union> set (xaddrs t') \<and> (\<forall>a \<in> dom s. s' a = s a)))"

definition copy_kids_ok :: "(xstore \<Rightarrow> nat) \<Rightarrow> nat \<Rightarrow> bool" where
  "copy_kids_ok new n \<longleftrightarrow> (\<forall>s par pv ks c g ds. xreps s par pv None ks \<longrightarrow> xml_doc s (XElem c g ds)
     \<longrightarrow> set (xaddrs (XElem c g ds)) \<inter> set (xaddrs_list ks) = {} \<longrightarrow> finite (dom s) \<longrightarrow> 3 * length (xaddrs_list ks) + 2 \<le> n
     \<longrightarrow> (\<exists>s' es. xml_copy_kids new n s (link_next None ks) c = Some s' \<and> xml_doc s' (XElem c g (ds @ es))
           \<and> map xerase es = map xerase ks \<and> set (xaddrs_list es) \<inter> dom s = {} \<and> dom s' = dom s \<union> set (xaddrs_list es)
           \<and> (\<forall>a \<in> dom s. a \<notin> set (xaddrs (XElem c g ds)) \<longrightarrow> s' a = s a)))"

lemma copy_kids_okD:
  "\<lbrakk>copy_kids_ok new n; xreps s par pv None ks; xml_doc s (XElem c g ds);
     set (xaddrs (XElem c g ds)) \<inter> set (xaddrs_list ks) = {}; finite (dom s); 3 * length (xaddrs_list ks) + 2 \<le> n\<rbrakk>
   \<Longrightarrow> \<exists>s' es. xml_copy_kids new n s (link_next None ks) c = Some s' \<and> xml_doc s' (XElem c g (ds @ es))
         \<and> map xerase es = map xerase ks \<and> set (xaddrs_list es) \<inter> dom s = {} \<and> dom s' = dom s \<union> set (xaddrs_list es)
         \<and> (\<forall>a \<in> dom s. a \<notin> set (xaddrs (XElem c g ds)) \<longrightarrow> s' a = s a)"
  unfolding copy_kids_ok_def by blast

lemma copy_okD:
  "\<lbrakk>copy_ok new n; xrep s par pv nx t; finite (dom s); 3 * length (xaddrs t) \<le> n\<rbrakk>
   \<Longrightarrow> \<exists>s' t'. xml_copy_tree new n s (xlabel t) = Some (Some (xlabel t'), s') \<and> xml_doc s' t' \<and> xerase t' = xerase t
         \<and> set (xaddrs t') \<inter> dom s = {} \<and> dom s' = dom s \<union> set (xaddrs t') \<and> (\<forall>a \<in> dom s. s' a = s a)"
  by (simp add: copy_ok_def)

lemma copy_tree_step:
  assumes "xml_fresh new" "copy_kids_ok new n"
  shows "copy_ok new (Suc n)"
  unfolding copy_ok_def
proof (intro allI impI)
  fix s par pv nx and t :: "nat xtree"
  assume rep: "xrep s par pv nx t" and fin: "finite (dom s)" and sz: "3 * length (xaddrs t) \<le> Suc n"
  show "\<exists>s' t'. xml_copy_tree new (Suc n) s (xlabel t) = Some (Some (xlabel t'), s') \<and> xml_doc s' t' \<and> xerase t' = xerase t
    \<and> set (xaddrs t') \<inter> dom s = {} \<and> dom s' = dom s \<union> set (xaddrs t') \<and> (\<forall>a \<in> dom s. s' a = s a)"
  proof (cases t)
    case (XText a w)
    obtain c s1 where new: "xml_new_text new w s = (c, s1)" by fastforce
    from xml_new_text_rep [OF assms(1) fin new] have c: "c \<notin> dom s" "s1 = s(c \<mapsto> text_node w None None None)" by auto
    have "xml_copy_tree new (Suc n) s a = Some (Some c, s1)"
      using rep XText new by (simp add: text_node_def xml_is_text_def xml_zero_def)
    then show ?thesis using c XText by (intro exI [of _ s1] exI [of _ "XText c w"]) (auto simp: xml_doc_def)
  next
    case (XElem a g ks)
    obtain c s1 where new: "xml_new_element_attr new (tg_prefix g) (tg_name g) (tg_uri g) (tg_attr g) s = (c, s1)" by fastforce
    from xml_new_element_rep [OF assms(1) fin new]
    have c: "c \<notin> dom s" "s1 = s(c \<mapsto> elem_node g None None None None)" by simp_all
    have r: "s a = Some (elem_node g par (link_next None ks) pv nx)" and ks: "xreps s (Some a) None None ks"
      using rep XElem by simp_all
    have "xreps s1 (Some a) None None ks"
      by (rule xreps_frame [OF ks]) (use c xreps_dom [OF ks] in auto)
    moreover have "xml_doc s1 (XElem c g [])" using c by (simp add: xml_doc_def)
    moreover have "c \<notin> set (xaddrs_list ks)" using c(1) xreps_dom [OF ks] by blast
    moreover have "finite (dom s1)" using c(2) fin by simp
    ultimately obtain s' es where run: "xml_copy_kids new n s1 (link_next None ks) c = Some s'" "xml_doc s' (XElem c g es)"
      "map xerase es = map xerase ks" "set (xaddrs_list es) \<inter> dom s1 = {}" "dom s' = dom s1 \<union> set (xaddrs_list es)"
      "\<forall>a \<in> dom s1. a \<noteq> c \<longrightarrow> s' a = s1 a"
      using copy_kids_okD [OF assms(2), of s1 "Some a" None ks c g "[]"] sz XElem by auto
    have "xml_copy_tree new (Suc n) s a = Some (Some c, s')"
      using r new run(1) by (simp add: elem_node_def xml_is_element_def xml_is_text_def)
    moreover have "xerase (XElem c g es) = xerase (XElem a g ks)" using run(3) by simp
    moreover have "set (xaddrs (XElem c g es)) \<inter> dom s = {}" using run(4) c by auto
    moreover have "dom s' = dom s \<union> set (xaddrs (XElem c g es))" using run(5) c(2) by auto
    moreover have "\<forall>a \<in> dom s. s' a = s a"
    proof
      fix b assume b: "b \<in> dom s"
      then have "b \<noteq> c" using c(1) by blast
      then show "s' b = s b" using run(6) c(2) b by (metis domI domD fun_upd_other)
    qed
    ultimately show ?thesis using run(2) XElem by (metis xtree.sel(1))
  qed
qed

text \<open>The copy of one child, attached to the copy of its parent.\<close>

lemma copy_child_attach:
  assumes copy: "copy_ok new m" and k: "xrep s par pv nx k" and doc: "xml_doc s (XElem c g ds)"
    and fin: "finite (dom s)" and sz: "3 * length (xaddrs k) \<le> m"
  shows "\<exists>s' t. xml_copy_child new (Suc m) s (xlabel k) c = Some s' \<and> xml_doc s' (XElem c g (ds @ [t]))
    \<and> xerase t = xerase k \<and> set (xaddrs t) \<inter> dom s = {} \<and> dom s' = dom s \<union> set (xaddrs t)
    \<and> (\<forall>a \<in> dom s. a \<notin> set (xaddrs (XElem c g ds)) \<longrightarrow> s' a = s a)"
proof -
  let ?C = "set (xaddrs (XElem c g ds))"
  from copy_okD [OF copy k fin sz] obtain s1 t where s1: "xml_copy_tree new m s (xlabel k) = Some (Some (xlabel t), s1)"
    "xml_doc s1 t" "xerase t = xerase k" "set (xaddrs t) \<inter> dom s = {}" "dom s1 = dom s \<union> set (xaddrs t)"
    "\<forall>a \<in> dom s. s1 a = s a" by blast
  have C: "xrep s None None None (XElem c g ds)" and dC: "distinct (xaddrs (XElem c g ds))"
    using doc by (simp_all only: xml_doc_def)
  have doms: "?C \<subseteq> dom s" by (rule xrep_dom [OF C])
  have C1: "xrep s1 None None None (XElem c g ds)" by (rule xrep_frame [OF C]) (use s1(6) doms in blast)
  have t: "xrep s1 None None None t" "distinct (xaddrs t)" using s1(2) by (simp_all only: xml_doc_def)
  have "?C \<inter> set (xaddrs t) = {}" using s1(4) doms by blast
  then have dt: "distinct (xaddrs (XElem c g ds) @ xaddrs t)" using dC t(2) by (simp only: distinct_append)
  from xml_add_child_rep [OF C1 t(1) dt] obtain s2 where s2: "xml_add_child s1 c (xlabel t) = Some s2"
    "xrep s2 None None None (XElem c g (ds @ [t]))" "dom s2 = dom s1"
    "\<forall>a. a \<notin> ?C \<union> set (xaddrs t) \<longrightarrow> s2 a = s1 a" by blast
  have "xml_doc s2 (XElem c g (ds @ [t]))" using s2(2) dt by (auto simp: xml_doc_def)
  moreover have "\<forall>a \<in> dom s. a \<notin> ?C \<longrightarrow> s2 a = s a"
    using s1(4,6) s2(4) by (metis disjoint_iff UnE)
  moreover have "xml_copy_child new (Suc m) s (xlabel k) c = Some s2" using s1(1) s2(1) by simp
  ultimately show ?thesis using s1(3-5) s2(3) by (intro exI [of _ s2] exI [of _ t]) simp
qed

lemma copy_kids_step:
  assumes "xml_fresh new" and copy: "\<And>m. m < n \<Longrightarrow> copy_ok new m" and kids: "copy_kids_ok new n"
  shows "copy_kids_ok new (Suc n)"
  unfolding copy_kids_ok_def
proof (intro allI impI)
  fix s par pv ks c g ds
  assume ks: "xreps s par pv None ks" and doc: "xml_doc s (XElem c g ds)"
    and off: "set (xaddrs (XElem c g ds)) \<inter> set (xaddrs_list ks) = {}"
    and fin: "finite (dom s)" and sz: "3 * length (xaddrs_list ks) + 2 \<le> Suc n"
  let ?C = "set (xaddrs (XElem c g ds))"
  show "\<exists>s' es. xml_copy_kids new (Suc n) s (link_next None ks) c = Some s' \<and> xml_doc s' (XElem c g (ds @ es))
    \<and> map xerase es = map xerase ks \<and> set (xaddrs_list es) \<inter> dom s = {} \<and> dom s' = dom s \<union> set (xaddrs_list es)
    \<and> (\<forall>a \<in> dom s. a \<notin> ?C \<longrightarrow> s' a = s a)"
  proof (cases ks)
    case Nil
    then show ?thesis using doc by (intro exI [of _ s] exI [of _ "[]"]) simp
  next
    case (Cons k ls)
    have k: "xrep s par pv (link_next None ls) k" and ls: "xreps s par (Some (xlabel k)) None ls"
      using ks Cons by simp_all
    have offk: "?C \<inter> set (xaddrs k) = {}" "?C \<inter> set (xaddrs_list ls) = {}" using off Cons by auto
    have "3 * length (xaddrs k) < n" using sz Cons by simp
    then obtain m where m: "n = Suc m" "3 * length (xaddrs k) \<le> m" by (cases n) auto
    from copy_child_attach [OF copy k doc fin m(2)] m(1) obtain s2 t where s2:
      "xml_copy_child new n s (xlabel k) c = Some s2" "xml_doc s2 (XElem c g (ds @ [t]))" "xerase t = xerase k"
      "set (xaddrs t) \<inter> dom s = {}" "dom s2 = dom s \<union> set (xaddrs t)" "\<forall>a \<in> dom s. a \<notin> ?C \<longrightarrow> s2 a = s a" by blast
    have ls2: "xreps s2 par (Some (xlabel k)) None ls"
      by (rule xreps_frame [OF ls]) (use s2(6) xreps_dom [OF ls] offk(2) in blast)
    have "set (xaddrs t) \<inter> set (xaddrs_list ls) = {}" using s2(4) xreps_dom [OF ls] by blast
    then have off2: "set (xaddrs (XElem c g (ds @ [t]))) \<inter> set (xaddrs_list ls) = {}"
      using offk(2) by auto
    have fin2: "finite (dom s2)" using s2(5) fin by simp
    have "3 * length (xaddrs_list ls) + 2 \<le> n" using sz Cons xaddrs_positive [of k] by (simp del: length_greater_0_conv)
    from copy_kids_okD [OF kids ls2 s2(2) off2 fin2 this] obtain s' es where s':
      "xml_copy_kids new n s2 (link_next None ls) c = Some s'"
      "xml_doc s' (XElem c g ((ds @ [t]) @ es))" "map xerase es = map xerase ls" "set (xaddrs_list es) \<inter> dom s2 = {}"
      "dom s' = dom s2 \<union> set (xaddrs_list es)" "\<forall>a \<in> dom s2. a \<notin> set (xaddrs (XElem c g (ds @ [t]))) \<longrightarrow> s' a = s2 a" by blast
    obtain r where r: "s (xlabel k) = Some r" "xn_next r = link_next None ls" using xrep_root [OF k] by metis
    then have "s2 (xlabel k) = Some r" using s2(6) offk(1) xlabel_in_xaddrs [of k] by (metis disjoint_iff domI)
    then have "xml_copy_kids new (Suc n) s (link_next None ks) c = Some s'" using r s2(1) s'(1) Cons by simp
    moreover have "set (xaddrs_list (t # es)) \<inter> dom s = {}" using s2(4,5) s'(4) by auto
    moreover have "dom s' = dom s \<union> set (xaddrs_list (t # es))" using s2(5) s'(5) by auto
    moreover have "\<forall>a \<in> dom s. a \<notin> ?C \<longrightarrow> s' a = s a"
    proof (intro ballI impI)
      fix a assume a: "a \<in> dom s" "a \<notin> ?C"
      then have "a \<notin> set (xaddrs (XElem c g (ds @ [t])))" using s2(4) by auto
      then show "s' a = s a" using s'(6) s2(5,6) a by simp
    qed
    ultimately show ?thesis using s'(2,3) s2(3) Cons by (intro exI [of _ s'] exI [of _ "t # es"]) simp
  qed
qed

lemma copy_all_ok:
  assumes "xml_fresh new"
  shows "copy_ok new n \<and> copy_kids_ok new n"
proof (induction n rule: less_induct)
  case (less n)
  show ?case
  proof (cases n)
    case 0
    have False if "3 * length (xaddrs t) \<le> 0" for t :: "nat xtree" using that xaddrs_positive [of t] by linarith
    then show ?thesis unfolding 0 copy_ok_def copy_kids_ok_def by (metis add_is_0 le_zero_eq zero_neq_numeral)
  next
    case (Suc m)
    then show ?thesis using less copy_tree_step [OF assms, of m] copy_kids_step [OF assms, of m] by simp
  qed
qed

lemmas xml_copy_rep = copy_okD [OF copy_all_ok [THEN conjunct1]]

end
