(* ===== verification/XmlQuery.thy ===== *)
theory XmlQuery
  imports XmlNode XmlStr
begin

text \<open>
  Finding nodes in a tree (\<^verbatim>\<open>xml_find_element\<close> and \<^verbatim>\<open>xml_find_path\<close> of \<^verbatim>\<open>xml.c\<close>).  Both walk over the
  tree twice: once to count the nodes, to allocate the array of a node set, and once to fill it.  A
  node set is its capacity and the labels stored so far; a store past the capacity is \<^term>\<open>None\<close>.
\<close>

section \<open>Node sets\<close>

definition set_store :: "nat \<Rightarrow> 'a list \<Rightarrow> 'a \<Rightarrow> 'a list option" where
  "set_store cap ns a = (if length ns < cap then Some (ns @ [a]) else None)"

section \<open>By name\<close>

fun xml_element_count :: "'a xtree \<Rightarrow> string \<Rightarrow> nat" where
  "xml_element_count (XText a w) name = 0"
| "xml_element_count (XElem a g ks) name =
     (if tg_name g = name then 1 else 0) + sum_list (map (\<lambda>k. xml_element_count k name) ks)"

fun find_element_walk :: "nat \<Rightarrow> 'a xtree \<Rightarrow> string \<Rightarrow> 'a list \<Rightarrow> 'a list option"
and find_element_kids :: "nat \<Rightarrow> 'a xtree list \<Rightarrow> string \<Rightarrow> 'a list \<Rightarrow> 'a list option" where
  "find_element_walk cap (XText a w) name ns = Some ns"
| "find_element_walk cap (XElem a g ks) name ns =
     do { ns1 \<leftarrow> (if tg_name g = name then set_store cap ns a else Some ns);
          find_element_kids cap ks name ns1 }"
| "find_element_kids cap [] name ns = Some ns"
| "find_element_kids cap (k # ks) name ns =
     do { ns1 \<leftarrow> find_element_walk cap k name ns; find_element_kids cap ks name ns1 }"

definition xml_find_element :: "'a xtree \<Rightarrow> string \<Rightarrow> 'a list option" where
  "xml_find_element t name = find_element_walk (xml_element_count t name) t name []"

text \<open>The elements of a tree in document order.\<close>

fun xelements :: "'a xtree \<Rightarrow> ('a \<times> xml_tag) list" where
  "xelements (XText a w) = []"
| "xelements (XElem a g ks) = (a, g) # concat (map xelements ks)"

definition named :: "string \<Rightarrow> ('a \<times> xml_tag) list \<Rightarrow> 'a list" where
  "named name es = map fst (filter (\<lambda>(a, g). tg_name g = name) es)"

lemma named_simps [simp]:
  "named name [] = []" "named name (es @ fs) = named name es @ named name fs"
  "named name ((a, g) # es) = (if tg_name g = name then a # named name es else named name es)"
  by (simp_all add: named_def)

lemma named_concat: "named name (concat ess) = concat (map (named name) ess)"
  by (induction ess) simp_all

lemma xml_element_count_named: "xml_element_count t name = length (named name (xelements t))"
  by (induction t name rule: xml_element_count.induct)
    (simp_all add: named_concat length_concat comp_def cong: map_cong)

lemma find_element_walk_ok:
  "length ns + length (named name (xelements t)) \<le> cap \<Longrightarrow>
     find_element_walk cap t name ns = Some (ns @ named name (xelements t))"
  "length ns + length (named name (concat (map xelements ks))) \<le> cap \<Longrightarrow>
     find_element_kids cap ks name ns = Some (ns @ named name (concat (map xelements ks)))"
  by (induction cap t name ns and cap ks name ns rule: find_element_walk_find_element_kids.induct)
    (auto simp: set_store_def)

lemma xml_find_element_named: "xml_find_element t name = Some (named name (xelements t))"
  by (simp add: xml_find_element_def xml_element_count_named find_element_walk_ok)

section \<open>By path\<close>

text \<open>
  The first step of a path: the prefix, the name, and the rest of the path from the next slash on.
\<close>

definition path_step :: "string \<Rightarrow> (string option \<times> string \<times> string option) option" where
  "path_step path =
     (case xml_strchr path CHR ''/'' of
        None \<Rightarrow> None
      | Some i \<Rightarrow>
          let front = drop (i + 1) path;
              prefix_char = xml_strchr front CHR '':''
          in case xml_strchr front CHR ''/'' of
               Some rear \<Rightarrow>
                 (case prefix_char of
                    Some c \<Rightarrow>
                      if c < rear then
                        Some (Some (take c front), take (rear - (c + 1)) (drop (c + 1) front), Some (drop rear front))
                      else Some (None, take rear front, Some (drop rear front))
                  | None \<Rightarrow> Some (None, take rear front, Some (drop rear front)))
             | None \<Rightarrow>
                 (case prefix_char of
                    Some c \<Rightarrow> Some (Some (take c front), drop (c + 1) front, None)
                  | None \<Rightarrow> Some (None, front, None)))"

definition path_match :: "xml_tag \<Rightarrow> string option \<Rightarrow> string \<Rightarrow> bool" where
  "path_match g pre name \<longleftrightarrow>
     (pre = None \<and> tg_prefix g = None \<or> pre \<noteq> None \<and> tg_prefix g \<noteq> None \<and> the (tg_prefix g) = the pre)
     \<and> tg_name g = name"

fun xml_path_count :: "'a xtree \<Rightarrow> string \<Rightarrow> nat" where
  "xml_path_count (XText a w) path = 0"
| "xml_path_count (XElem a g ks) path =
     (case path_step path of
        None \<Rightarrow> 0
      | Some (pre, name, rest) \<Rightarrow>
          if path_match g pre name then
            (case rest of Some rear \<Rightarrow> sum_list (map (\<lambda>k. xml_path_count k rear) ks) | None \<Rightarrow> 1)
          else 0)"

fun find_path_walk :: "nat \<Rightarrow> 'a xtree \<Rightarrow> string \<Rightarrow> 'a list \<Rightarrow> 'a list option"
and find_path_kids :: "nat \<Rightarrow> 'a xtree list \<Rightarrow> string \<Rightarrow> 'a list \<Rightarrow> 'a list option" where
  "find_path_walk cap (XText a w) path ns = Some ns"
| "find_path_walk cap (XElem a g ks) path ns =
     (case path_step path of
        None \<Rightarrow> Some ns
      | Some (pre, name, rest) \<Rightarrow>
          if path_match g pre name then
            (case rest of Some rear \<Rightarrow> find_path_kids cap ks rear ns | None \<Rightarrow> set_store cap ns a)
          else Some ns)"
| "find_path_kids cap [] path ns = Some ns"
| "find_path_kids cap (k # ks) path ns =
     do { ns1 \<leftarrow> find_path_walk cap k path ns; find_path_kids cap ks path ns1 }"

definition xml_find_path :: "'a xtree \<Rightarrow> string \<Rightarrow> 'a list option" where
  "xml_find_path t path = find_path_walk (xml_path_count t path) t path []"

text \<open>Selection by a list of steps, and the path that writes them.\<close>

type_synonym xstep = "string option \<times> string"

fun xselect :: "'a xtree \<Rightarrow> xstep list \<Rightarrow> 'a list" where
  "xselect (XText a w) steps = []"
| "xselect (XElem a g ks) [] = []"
| "xselect (XElem a g ks) (st # steps) =
     (if (tg_prefix g, tg_name g) = st then
        (if steps = [] then [a] else concat (map (\<lambda>k. xselect k steps) ks))
      else [])"

definition step_string :: "xstep \<Rightarrow> string" where
  "step_string st = (case fst st of Some p \<Rightarrow> p @ '':'' @ snd st | None \<Rightarrow> snd st)"

definition path_string :: "xstep list \<Rightarrow> string" where
  "path_string steps = concat (map (\<lambda>st. CHR ''/'' # step_string st) steps)"

definition step_clean :: "xstep \<Rightarrow> bool" where
  "step_clean st \<longleftrightarrow> {CHR ''/'', CHR '':''} \<inter> (set (snd st) \<union> (case fst st of Some p \<Rightarrow> set p | None \<Rightarrow> {})) = {}"

lemma path_match_tag: "path_match g pre name \<longleftrightarrow> (tg_prefix g, tg_name g) = (pre, name)"
  by (cases pre; cases "tg_prefix g") (auto simp: path_match_def)

lemma path_step_last: "step_clean st \<Longrightarrow> path_step (CHR ''/'' # step_string st) = Some (fst st, snd st, None)"
proof (cases "fst st")
  case None
  assume "step_clean st"
  then have "xml_strchr (snd st) CHR ''/'' = None" "xml_strchr (snd st) CHR '':'' = None"
    by (simp_all add: step_clean_def)
  then show ?thesis using None by (simp add: path_step_def step_string_def Let_def)
next
  case (Some p)
  assume c: "step_clean st"
  then have "xml_strchr (p @ '':'' @ snd st) CHR ''/'' = None" "xml_strchr (p @ '':'' @ snd st) CHR '':'' = Some (length p)"
    using Some by (simp_all add: step_clean_def)
  then show ?thesis using Some by (simp add: path_step_def step_string_def)
qed

lemma path_step_more:
  assumes "step_clean st"
  shows "path_step (CHR ''/'' # step_string st @ CHR ''/'' # rest) = Some (fst st, snd st, Some (CHR ''/'' # rest))"
proof (cases "fst st")
  case None
  then have n: "CHR ''/'' \<notin> set (snd st)" "CHR '':'' \<notin> set (snd st)" using assms by (simp_all add: step_clean_def)
  let ?front = "snd st @ CHR ''/'' # rest"
  have "xml_strchr ?front CHR ''/'' = Some (length (snd st))" using n by simp
  moreover have "\<not> c < length (snd st)" if "xml_strchr ?front CHR '':'' = Some c" for c
    using xml_strchr_Some [OF that] n(2) by (metis nth_append nth_mem)
  ultimately show ?thesis using None
    by (auto simp: path_step_def step_string_def Let_def split: option.split)
next
  case (Some p)
  then have n: "CHR ''/'' \<notin> set (p @ '':'' @ snd st)" "CHR '':'' \<notin> set p" using assms by (simp_all add: step_clean_def)
  let ?front = "(p @ '':'' @ snd st) @ CHR ''/'' # rest"
  have "xml_strchr ?front CHR ''/'' = Some (length (p @ '':'' @ snd st))"
    using n(1) by (rule xml_strchr_first)
  moreover have "xml_strchr ?front CHR '':'' = Some (length p)" using n(2) by simp
  ultimately show ?thesis using Some by (simp add: path_step_def step_string_def)
qed

lemma path_step_string:
  assumes "step_clean st"
  shows "path_step (path_string (st # steps)) = Some (fst st, snd st, if steps = [] then None else Some (path_string steps))"
  using path_step_last [OF assms] path_step_more [OF assms]
  by (cases steps) (simp_all add: path_string_def)

lemma xml_path_count_select:
  "list_all step_clean steps \<Longrightarrow> steps \<noteq> [] \<Longrightarrow> xml_path_count t (path_string steps) = length (xselect t steps)"
proof (induction t steps rule: xselect.induct)
  case (3 a g ks st steps)
  then show ?case
    by (auto simp: path_step_string path_match_tag length_concat comp_def intro!: arg_cong [where f = sum_list])
qed simp_all

lemma find_path_walk_ok:
  fixes t :: "'a xtree"
  shows "list_all step_clean steps \<Longrightarrow> steps \<noteq> [] \<Longrightarrow> length ns + length (xselect t steps) \<le> cap \<Longrightarrow>
     find_path_walk cap t (path_string steps) ns = Some (ns @ xselect t steps)"
proof (induction t steps arbitrary: ns rule: xselect.induct)
  case (3 a g ks st steps)
  have kids: "find_path_kids cap ls (path_string steps) ms = Some (ms @ concat (map (\<lambda>k. xselect k steps) ls))"
    if "set ls \<subseteq> set ks" "(tg_prefix g, tg_name g) = st" "steps \<noteq> []"
      "length ms + length (concat (map (\<lambda>k. xselect k steps) ls)) \<le> cap" for ls ms
    using that(1,4)
  proof (induction ls arbitrary: ms)
    case (Cons k ls)
    have "find_path_walk cap k (path_string steps) ms = Some (ms @ xselect k steps)"
      by (rule "3.IH") (use Cons.prems that(2,3) "3.prems"(1) in auto)
    then show ?case using Cons by simp
  qed simp
  show ?case
    using "3.prems" kids [of ks ns]
    by (cases st) (auto simp: path_step_string path_match_tag set_store_def split: if_splits)
qed simp_all

lemma xml_find_path_select:
  "list_all step_clean steps \<Longrightarrow> steps \<noteq> [] \<Longrightarrow> xml_find_path t (path_string steps) = Some (xselect t steps)"
  by (simp add: xml_find_path_def xml_path_count_select find_path_walk_ok)

text \<open>Whatever the path is, the array has room for what is stored.\<close>

lemma find_path_count:
  "length ns + xml_path_count t path \<le> cap \<Longrightarrow>
     \<exists>ms. find_path_walk cap t path ns = Some ms \<and> length ms = length ns + xml_path_count t path"
  "length ns + sum_list (map (\<lambda>k. xml_path_count k path) ks) \<le> cap \<Longrightarrow>
     \<exists>ms. find_path_kids cap ks path ns = Some ms
       \<and> length ms = length ns + sum_list (map (\<lambda>k. xml_path_count k path) ks)"
proof (induction cap t path ns and cap ks path ns rule: find_path_walk_find_path_kids.induct)
  case (4 cap k ks path ns)
  then obtain ns1 where "find_path_walk cap k path ns = Some ns1" "length ns1 = length ns + xml_path_count k path" by auto
  then show ?case using 4 by auto
qed (auto simp: set_store_def split: option.splits)

end
