(* ===== verification/XmlDump.thy ===== *)
theory XmlDump
  imports XmlNode
begin

text \<open>
  Writing a tree of XML nodes as text (\<^verbatim>\<open>xml_tree_size\<close>, \<^verbatim>\<open>_xml_dump_tree\<close>, \<^verbatim>\<open>xml_dump_tree\<close> and
  \<^verbatim>\<open>xml_dump_tree_ex\<close> of \<^verbatim>\<open>xml.c\<close>).  The code allocates a buffer of the size that \<^verbatim>\<open>xml_tree_size\<close> computes
  and appends to it with \<^verbatim>\<open>strcat\<close>, which checks nothing; the theorems relate the two.  The traversals
  follow \<^verbatim>\<open>child\<close> and \<^verbatim>\<open>next\<close>; over a store that represents a tree they visit the list of the children,
  and are functions of the tree.
\<close>

section \<open>The traversals\<close>

definition is_elem :: "'a xtree \<Rightarrow> bool" where
  "is_elem t = (case t of XElem a g ks \<Rightarrow> True | XText a w \<Rightarrow> False)"

lemma is_elem_iff: "is_elem t \<longleftrightarrow> (\<exists>a g ks. t = XElem a g ks)"
  by (cases t) (simp_all add: is_elem_def)

definition next_level :: "int \<Rightarrow> int" where
  "next_level level = (if level = 0 then 0 else level + 1)"

lemma next_level_0 [simp]: "next_level 0 = 0"
  by (simp add: next_level_def)

definition start_size :: "xml_tag \<Rightarrow> nat" where
  "start_size g =
     (case (tg_prefix g, tg_attr g) of
        (Some p, Some a) \<Rightarrow> length p + length (tg_name g) + length a + 4
      | (Some p, None) \<Rightarrow> length p + length (tg_name g) + 3
      | (None, Some a) \<Rightarrow> length (tg_name g) + length a + 3
      | (None, None) \<Rightarrow> length (tg_name g) + 2)"

definition end_size :: "xml_tag \<Rightarrow> nat" where
  "end_size g =
     (case tg_prefix g of Some p \<Rightarrow> length p + length (tg_name g) + 4 | None \<Rightarrow> length (tg_name g) + 3)"

text \<open>\<open>is_elem_last\<close> is the value that \<^verbatim>\<open>is_element_child\<close> has after the loop.\<close>

definition is_elem_last :: "'a xtree list \<Rightarrow> bool" where
  "is_elem_last ks \<longleftrightarrow> ks \<noteq> [] \<and> is_elem (last ks)"

fun xml_tree_size :: "'a xtree \<Rightarrow> int \<Rightarrow> int \<Rightarrow> int" where
  "xml_tree_size (XText a w) level space = int (length w)"
| "xml_tree_size (XElem a g ks) level space =
     int (start_size g)
     + sum_list (map (\<lambda>k. (if is_elem k \<and> level \<noteq> 0 then 1 + level * space else 0)
                          + xml_tree_size k (next_level level) space) ks)
     + (if is_elem_last ks \<and> level \<noteq> 0 then 1 + (level - 1) * space else 0)
     + int (end_size g)"

definition xml_start_tag :: "xml_tag \<Rightarrow> string" where
  "xml_start_tag g =
     (case (tg_prefix g, tg_attr g) of
        (Some p, Some a) \<Rightarrow> ''<'' @ p @ '':'' @ tg_name g @ '' '' @ a @ ''>''
      | (Some p, None) \<Rightarrow> ''<'' @ p @ '':'' @ tg_name g @ ''>''
      | (None, Some a) \<Rightarrow> ''<'' @ tg_name g @ '' '' @ a @ ''>''
      | (None, None) \<Rightarrow> ''<'' @ tg_name g @ ''>'')"

definition xml_end_tag :: "xml_tag \<Rightarrow> string" where
  "xml_end_tag g =
     (case tg_prefix g of Some p \<Rightarrow> ''</'' @ p @ '':'' @ tg_name g @ ''>'' | None \<Rightarrow> ''</'' @ tg_name g @ ''>'')"

definition xml_newline :: "int \<Rightarrow> int \<Rightarrow> string" where
  "xml_newline n space = CHR 0x0A # concat (replicate (nat n) (replicate (nat space) (CHR '' '')))"

text \<open>What \<^verbatim>\<open>_xml_dump_tree\<close> appends to the buffer.\<close>

fun xml_dump :: "'a xtree \<Rightarrow> int \<Rightarrow> int \<Rightarrow> string" where
  "xml_dump (XText a w) level space = w"
| "xml_dump (XElem a g ks) level space =
     xml_start_tag g
     @ concat (map (\<lambda>k. (if is_elem k \<and> level \<noteq> 0 then xml_newline level space else [])
                        @ xml_dump k (next_level level) space) ks)
     @ (if is_elem_last ks \<and> level \<noteq> 0 then xml_newline (level - 1) space else [])
     @ xml_end_tag g"

text \<open>
  The buffers: the bytes allocated, and the string that is written with its terminator after it.  The
  indentation is set up in an array of 11 characters, by a write at the index \<open>space\<close>, which is undefined
  (\<^term>\<open>None\<close>) for a negative one; \<open>xml_indents\<close> tells whether this happens.
\<close>

fun xml_indents :: "'a xtree \<Rightarrow> int \<Rightarrow> bool" where
  "xml_indents (XText a w) level = False"
| "xml_indents (XElem a g ks) level \<longleftrightarrow> (\<exists>k \<in> set ks. is_elem k \<and> level \<noteq> 0 \<or> xml_indents k (next_level level))"

definition xml_dump_tree :: "'a xtree \<Rightarrow> int \<times> string" where
  "xml_dump_tree t = (xml_tree_size t 0 0 + 1, xml_dump t 0 0)"

definition xml_dump_tree_ex :: "'a xtree \<Rightarrow> string option \<Rightarrow> int \<Rightarrow> int \<Rightarrow> (int \<times> string) option" where
  "xml_dump_tree_ex t prolog new_line space0 =
     (let space = (if space0 > 10 then 10 else space0);
          xml_size = xml_tree_size t 1 space
      in if space < 0 \<and> xml_indents t new_line then None
         else Some (case prolog of
           Some p \<Rightarrow>
             if new_line \<noteq> 0 then (int (length p) + xml_size + 2, p @ [CHR 0x0A] @ xml_dump t new_line space)
             else (int (length p) + xml_size + 1, p @ xml_dump t new_line space)
         | None \<Rightarrow> (xml_size + 1, xml_dump t new_line space)))"

section \<open>The size is the length\<close>

lemma start_size_length [simp]: "length (xml_start_tag g) = start_size g"
  by (simp add: xml_start_tag_def start_size_def split: option.split)

lemma end_size_length [simp]: "length (xml_end_tag g) = end_size g"
  by (simp add: xml_end_tag_def end_size_def split: option.split)

lemma newline_length [simp]: "length (xml_newline n space) = 1 + nat n * nat space"
  by (simp add: xml_newline_def length_concat sum_list_replicate)

text \<open>The length of the text at one level, at a negative one, too, fits the size at a larger one that is positive.\<close>

lemma xml_dump_length_0: "int (length (xml_dump t 0 space)) = xml_tree_size t 0 space"
proof (induction t)
  case (XElem a g ks)
  have "int (length (concat (map (\<lambda>k. xml_dump k 0 space) ls))) = sum_list (map (\<lambda>k. xml_tree_size k 0 space) ls)"
    if "set ls \<subseteq> set ks" for ls
    using that XElem by (induction ls) simp_all
  then show ?case by simp
qed simp

lemma xml_dump_length:
  "0 < level \<Longrightarrow> 0 \<le> space \<Longrightarrow> int (length (xml_dump t level space)) = xml_tree_size t level space"
proof (induction t arbitrary: level)
  case (XElem a g ks)
  have next_pos: "0 < next_level level" using XElem.prems by (simp add: next_level_def)
  have "int (length (concat (map (\<lambda>k. (if is_elem k \<and> level \<noteq> 0 then xml_newline level space else [])
      @ xml_dump k (next_level level) space) ls)))
    = sum_list (map (\<lambda>k. (if is_elem k \<and> level \<noteq> 0 then 1 + level * space else 0)
      + xml_tree_size k (next_level level) space) ls)" if "set ls \<subseteq> set ks" for ls
    using that XElem.prems XElem.IH [OF _ next_pos] by (induction ls) simp_all
  then show ?case using XElem.prems by simp
qed simp

lemma xml_dump_le:
  "level \<le> level' \<Longrightarrow> 0 < level' \<Longrightarrow> 0 \<le> space \<Longrightarrow> int (length (xml_dump t level space)) \<le> xml_tree_size t level' space"
proof (induction t arbitrary: level level')
  case (XElem a g ks)
  have lev: "next_level level \<le> next_level level'" "0 < next_level level'" using XElem.prems by (auto simp: next_level_def)
  have indent: "int (nat l * nat space) \<le> l' * space" if "l \<le> l'" "0 \<le> l'" for l l'
    using that XElem.prems(3) by (cases "0 \<le> l") (simp_all add: mult_right_mono)
  have "int (length (concat (map (\<lambda>k. (if is_elem k \<and> level \<noteq> 0 then xml_newline level space else [])
      @ xml_dump k (next_level level) space) ls)))
    \<le> sum_list (map (\<lambda>k. (if is_elem k \<and> level' \<noteq> 0 then 1 + level' * space else 0)
      + xml_tree_size k (next_level level') space) ls)" if "set ls \<subseteq> set ks" for ls
    using that
  proof (induction ls)
    case (Cons k ls)
    have "int (length (xml_dump k (next_level level) space)) \<le> xml_tree_size k (next_level level') space"
      using XElem.IH [OF _ lev XElem.prems(3)] Cons.prems by simp
    moreover have "0 \<le> level' * space" using XElem.prems by simp
    then have "int (length (if is_elem k \<and> level \<noteq> 0 then xml_newline level space else []))
        \<le> (if is_elem k \<and> level' \<noteq> 0 then 1 + level' * space else 0)"
      using indent [OF XElem.prems(1)] XElem.prems(2) by (auto simp del: of_nat_mult)
    ultimately show ?case using Cons by (simp add: add_mono del: of_nat_mult newline_length)
  qed simp
  from this [OF order_refl] have "int (length (concat (map (\<lambda>k. (if is_elem k \<and> level \<noteq> 0 then xml_newline level space else [])
      @ xml_dump k (next_level level) space) ks)))
    \<le> sum_list (map (\<lambda>k. (if is_elem k \<and> level' \<noteq> 0 then 1 + level' * space else 0)
      + xml_tree_size k (next_level level') space) ks)" .
  moreover have "0 \<le> (level' - 1) * space" using XElem.prems by simp
  then have "int (length (if is_elem_last ks \<and> level \<noteq> 0 then xml_newline (level - 1) space else []))
      \<le> (if is_elem_last ks \<and> level' \<noteq> 0 then 1 + (level' - 1) * space else 0)"
    using indent [of "level - 1" "level' - 1"] XElem.prems(1,2) by (auto simp del: of_nat_mult)
  ultimately show ?case
    by (simp only: xml_dump.simps xml_tree_size.simps length_append of_nat_add start_size_length end_size_length)
qed simp

lemma xml_dump_tree_fits: "int (length (snd (xml_dump_tree t))) + 1 = fst (xml_dump_tree t)"
  by (simp add: xml_dump_tree_def xml_dump_length_0)

lemma xml_dump_ex_fits:
  assumes "new_line \<le> 1" "0 \<le> space"
  shows "\<exists>xml_size out. xml_dump_tree_ex t prolog new_line space = Some (xml_size, out) \<and> int (length out) + 1 \<le> xml_size"
  using xml_dump_le [OF assms(1), of "if space > 10 then 10 else space" t] assms(2)
  by (auto simp: xml_dump_tree_ex_def Let_def split: option.split)

lemma sum_list_less_one:
  fixes f g :: "'a \<Rightarrow> int"
  assumes "\<And>x. f x \<le> g x" "k \<in> set xs" "f k < g k"
  shows "sum_list (map f xs) < sum_list (map g xs)"
  using assms(2)
proof (induction xs)
  case (Cons x xs)
  have "sum_list (map f xs) \<le> sum_list (map g xs)" by (intro sum_list_mono assms(1))
  then show ?case using Cons assms(1) [of x] assms(3) by (auto intro: add_less_le_mono add_le_less_mono)
qed simp

text \<open>A flag above 1 is taken as the level of the root, which the size does not know.\<close>

lemma xml_tree_size_mono: "0 < level \<Longrightarrow> level \<le> level' \<Longrightarrow> 0 \<le> space \<Longrightarrow> xml_tree_size t level space \<le> xml_tree_size t level' space"
  using xml_dump_le [of level level' space t] xml_dump_length [of level space t] by simp

lemma xml_tree_size_strict:
  assumes "1 \<le> level" "level < level'" "0 < space" "\<exists>k \<in> set ks. is_elem k"
  shows "xml_tree_size (XElem a g ks) level space < xml_tree_size (XElem a g ks) level' space"
proof -
  let ?f = "\<lambda>l k. (if is_elem k \<and> l \<noteq> 0 then 1 + l * space else 0) + xml_tree_size k (next_level l) space"
  have kid: "xml_tree_size k (next_level level) space \<le> xml_tree_size k (next_level level') space" for k
    using assms by (intro xml_tree_size_mono) (auto simp: next_level_def)
  have indent: "level * space < level' * space" "(level - 1) * space \<le> (level' - 1) * space"
    using assms by (simp_all add: mult_right_mono)
  have le: "?f level k \<le> ?f level' k" for k
    using assms(1,2) less_imp_le [OF indent(1)] by (intro add_mono kid) auto
  obtain k where k: "k \<in> set ks" "is_elem k" using assms(4) by blast
  have "?f level k < ?f level' k"
    using k assms(1,2) indent(1) by (intro add_less_le_mono kid) (simp_all del: mult_less_cancel_right_pos)
  with k(1) have "sum_list (map (?f level) ks) < sum_list (map (?f level') ks)"
    by (rule sum_list_less_one [OF le])
  moreover have "(if is_elem_last ks \<and> level \<noteq> 0 then 1 + (level - 1) * space else 0)
      \<le> (if is_elem_last ks \<and> level' \<noteq> 0 then 1 + (level' - 1) * space else 0)"
    using assms indent(2) by simp
  ultimately show ?thesis by simp
qed

lemma xml_dump_ex_overflow:
  assumes "2 \<le> new_line" "0 < space" "\<exists>k \<in> set ks. is_elem k"
  shows "\<exists>xml_size out. xml_dump_tree_ex (XElem a g ks) prolog new_line space = Some (xml_size, out) \<and> xml_size < int (length out) + 1"
proof -
  let ?s = "if space > 10 then 10 else space" and ?t = "XElem a g ks"
  have "xml_tree_size ?t 1 ?s < xml_tree_size ?t new_line ?s"
    by (rule xml_tree_size_strict) (use assms in auto)
  also have "\<dots> = int (length (xml_dump ?t new_line ?s))" by (rule xml_dump_length [symmetric]) (use assms in auto)
  finally have "xml_tree_size ?t 1 ?s < int (length (xml_dump ?t new_line ?s))" .
  then show ?thesis
    unfolding xml_dump_tree_ex_def Let_def using assms(1,2) by (cases prolog) (simp_all del: xml_dump.simps xml_tree_size.simps)
qed

end
