(* ===== verification/XmlTag.thy ===== *)
theory XmlTag
  imports XmlDump XmlStr
begin

text \<open>
  Reading a start tag (\<^verbatim>\<open>_parse_tag\<close> of \<^verbatim>\<open>xml.c\<close>), and that it reads back what
  \<^verbatim>\<open>_xml_dump_tree\<close> writes.
\<close>

section \<open>Parsing a tag\<close>

text \<open>The value between the quotes after the first equals sign from \<open>ns\<close> on.\<close>

definition tag_quoted :: "string \<Rightarrow> string option" where
  "tag_quoted ns =
     (case xml_strchr ns CHR ''='' of
        None \<Rightarrow> None
      | Some e \<Rightarrow>
          let ns_sep = (if e + 1 < length ns \<and> ns ! (e + 1) = CHR 0x27 then CHR 0x27 else CHR 0x22)
          in case xml_strchr ns ns_sep of
               None \<Rightarrow> None
             | Some q \<Rightarrow>
                 let uri_front = drop (q + 1) ns
                 in case xml_strchr uri_front ns_sep of
                      None \<Rightarrow> None
                    | Some uri_rear \<Rightarrow> Some (take uri_rear uri_front))"

text \<open>
  The prefix, the name, the name space and the attributes; the name is \<^verbatim>\<open>NULL\<close> when nothing but spaces
  is there.  \<^term>\<open>None\<close> is a run that reads through a null pointer.
\<close>

type_synonym xml_tag_parts = "string option \<times> string option \<times> string option \<times> string option"

definition parse_tag :: "string \<Rightarrow> xml_tag_parts option" where
  "parse_tag tag =
     (let prefix_char = xml_strchr tag CHR '':'';
          tag_sep = xml_strchr tag CHR '' '';
          have_prefix = (case prefix_char of
             None \<Rightarrow> False
           | Some c \<Rightarrow> (case tag_sep of None \<Rightarrow> True | Some sp \<Rightarrow> c < sp))
      in if have_prefix then
           let c = the prefix_char;
               rest = drop (c + 1) tag;
               sep = xml_strchr rest CHR '' ''
           in case str_strip (take c tag) of
                None \<Rightarrow> None
              | Some p \<Rightarrow>
                  (case xml_strstr tag ('' xmlns:'' @ p) of
                     Some ns_front \<Rightarrow>
                       (case (sep, tag_quoted (drop ns_front tag)) of
                          (Some sp, Some uri) \<Rightarrow>
                            Some (Some p, str_strip (take sp rest), Some uri, str_strip (drop sp rest))
                        | _ \<Rightarrow> None)
                   | None \<Rightarrow>
                       (case sep of
                          Some sp \<Rightarrow> Some (Some p, str_strip (take sp rest), None, str_strip (drop sp rest))
                        | None \<Rightarrow> Some (Some p, str_strip rest, None, None)))
         else
           (case xml_strstr tag '' xmlns'' of
              Some ns_front \<Rightarrow>
                (case (tag_sep, tag_quoted (drop ns_front tag)) of
                   (Some sp, Some uri) \<Rightarrow> Some (None, str_strip (take sp tag), Some uri, str_strip (drop sp tag))
                 | _ \<Rightarrow> None)
            | None \<Rightarrow>
                (case tag_sep of
                   Some sp \<Rightarrow> Some (None, str_strip (take sp tag), None, str_strip (drop sp tag))
                 | None \<Rightarrow> Some (None, str_strip tag, None, None))))"

section \<open>Printable tags\<close>

definition name_clean :: "string \<Rightarrow> bool" where
  "name_clean n \<longleftrightarrow> n \<noteq> [] \<and> set n \<inter> {CHR '' '', CHR '':'', CHR ''<'', CHR ''>'', CHR ''/'', CHR ''='',
     CHR ''?'', CHR ''!'', CHR 0x22, CHR 0x27, CHR 0x00} = {}"

definition attr_clean :: "string \<Rightarrow> bool" where
  "attr_clean a \<longleftrightarrow> a \<noteq> [] \<and> hd a \<noteq> CHR '' '' \<and> last a \<notin> {CHR '' '', CHR ''/''}
     \<and> set a \<inter> {CHR ''<'', CHR ''>'', CHR 0x00} = {}"

definition ns_marker :: "string option \<Rightarrow> string" where
  "ns_marker pre = (case pre of Some p \<Rightarrow> '' xmlns:'' @ p | None \<Rightarrow> '' xmlns'')"

text \<open>
  A tag with a name space has the attribute that declares it, as the constructor makes it; one without
  has no attribute that looks like such a declaration.
\<close>

definition tag_printable :: "xml_tag \<Rightarrow> bool" where
  "tag_printable g \<longleftrightarrow>
     name_clean (tg_name g) \<and> (case tg_prefix g of Some p \<Rightarrow> name_clean p | None \<Rightarrow> True)
     \<and> (case tg_attr g of
          None \<Rightarrow> tg_uri g = None
        | Some a \<Rightarrow> attr_clean a
            \<and> (case tg_uri g of
                 Some u \<Rightarrow> xml_ns_attr (tg_prefix g) (tg_uri g) = Some a \<and> CHR 0x22 \<notin> set u
               | None \<Rightarrow> xml_strstr ('' '' @ a) (ns_marker (tg_prefix g)) = None))"

text \<open>What stands between the angle brackets of a start tag.\<close>

definition qname_string :: "xml_tag \<Rightarrow> string" where
  "qname_string g = (case tg_prefix g of Some p \<Rightarrow> p @ '':'' @ tg_name g | None \<Rightarrow> tg_name g)"

definition tag_string :: "xml_tag \<Rightarrow> string" where
  "tag_string g = qname_string g @ (case tg_attr g of Some a \<Rightarrow> '' '' @ a | None \<Rightarrow> [])"

lemma start_tag_string: "xml_start_tag g = CHR ''<'' # tag_string g @ ''>''"
  by (simp add: xml_start_tag_def tag_string_def qname_string_def split: option.split)

lemma end_tag_string: "xml_end_tag g = CHR ''<'' # CHR ''/'' # qname_string g @ ''>''"
  by (simp add: xml_end_tag_def qname_string_def split: option.split)

lemma name_cleanD:
  assumes "name_clean n"
  shows "n \<noteq> []" "CHR '' '' \<notin> set n" "CHR '':'' \<notin> set n" "CHR ''<'' \<notin> set n" "CHR ''>'' \<notin> set n" "CHR ''/'' \<notin> set n"
    "CHR ''='' \<notin> set n" "CHR ''?'' \<notin> set n" "CHR ''!'' \<notin> set n" "CHR 0x22 \<notin> set n" "CHR 0x27 \<notin> set n" "CHR 0x00 \<notin> set n"
  using assms by (simp_all add: name_clean_def)

lemma strip_name: "name_clean n \<Longrightarrow> str_strip n = Some n"
  by (rule str_strip_id) (metis name_cleanD(1,2) list.set_sel(1) last_in_set)+

lemma strip_attr: "attr_clean a \<Longrightarrow> str_strip a = Some a"
  by (rule str_strip_id) (auto simp: attr_clean_def)

text \<open>The value of a name space declaration.\<close>

lemma tag_quoted_ns:
  assumes "xml_ns_attr pre (Some u) = Some a" "case pre of Some p \<Rightarrow> name_clean p | None \<Rightarrow> True" "CHR 0x22 \<notin> set u"
  shows "tag_quoted ('' '' @ a) = Some u"
proof -
  obtain h where h: "'' '' @ a = h @ CHR ''='' # CHR 0x22 # u @ [CHR 0x22]" "CHR ''='' \<notin> set h" "CHR 0x22 \<notin> set h"
  proof (cases pre)
    case None
    then show ?thesis using that [of "'' xmlns''"] assms(1) by (auto simp: xml_ns_attr_def)
  next
    case (Some p)
    then show ?thesis using that [of "'' xmlns:'' @ p"] assms(1,2) name_cleanD [of p] by (auto simp: xml_ns_attr_def)
  qed
  let ?ns = "h @ CHR ''='' # CHR 0x22 # u @ [CHR 0x22]"
  have "xml_strchr ?ns CHR ''='' = Some (length h)" using h(2) by simp
  moreover have "xml_strchr ?ns CHR 0x22 = Some (length h + 1)"
    using h(3) by (simp add: xml_strchr_append)
  moreover have "?ns ! (length h + 1) = CHR 0x22" by (simp add: nth_append)
  moreover have "xml_strchr (u @ [CHR 0x22]) CHR 0x22 = Some (length u)" using assms(3) by simp
  ultimately show ?thesis unfolding h(1) by (simp add: tag_quoted_def Let_def)
qed

lemma ns_attr_marker:
  "xml_ns_attr pre (Some u) = Some a \<Longrightarrow> prefix (ns_marker pre) ('' '' @ a)"
  by (auto simp: xml_ns_attr_def ns_marker_def prefix_def split: option.splits)

lemma ns_marker_char: "ns_marker pre \<noteq> []" "hd (ns_marker pre) = CHR '' ''"
  by (simp_all add: ns_marker_def split: option.split)

text \<open>The search for the declaration in a whole tag.\<close>

lemma ns_search:
  assumes "CHR '' '' \<notin> set q"
  shows "xml_strstr (q @ '' '' @ a) (ns_marker pre) = map_option (\<lambda>i. length q + i) (xml_strstr ('' '' @ a) (ns_marker pre))"
    and "xml_strstr q (ns_marker pre) = None"
  using assms ns_marker_char [of pre] by (auto simp: xml_strstr_skip no_start_char xml_strstr_absent)

section \<open>A printed tag is read back\<close>

lemma parse_tag_prefix_attr:
  assumes n: "name_clean n" and p: "name_clean p" and a: "attr_clean a"
  shows "parse_tag (p @ '':'' @ n @ '' '' @ a) =
     (case xml_strstr ('' '' @ a) ('' xmlns:'' @ p) of
        Some i \<Rightarrow> (case tag_quoted (drop i ('' '' @ a)) of Some u \<Rightarrow> Some (Some p, Some n, Some u, Some a) | None \<Rightarrow> None)
      | None \<Rightarrow> Some (Some p, Some n, None, Some a))"
proof -
  let ?tag = "p @ '':'' @ n @ '' '' @ a"
  note pc = name_cleanD [OF p] and nc = name_cleanD [OF n]
  have "xml_strchr ?tag CHR '':'' = Some (length p)" using pc by simp
  moreover have sp: "xml_strchr ((p @ '':'' @ n) @ '' '' @ a) CHR '' '' = Some (length (p @ '':'' @ n))"
    using pc nc by (simp add: xml_strchr_append)
  moreover have "xml_strchr (n @ '' '' @ a) CHR '' '' = Some (length n)" using nc by simp
  moreover have "str_strip n = Some n" "str_strip p = Some p" "str_strip ('' '' @ a) = Some a"
    using strip_name [OF n] strip_name [OF p] strip_attr [OF a] by simp_all
  moreover have "xml_strstr ((p @ '':'' @ n) @ '' '' @ a) ('' xmlns:'' @ p)
      = map_option (\<lambda>i. length (p @ '':'' @ n) + i) (xml_strstr ('' '' @ a) ('' xmlns:'' @ p))"
    using ns_search(1) [of "p @ '':'' @ n" a "Some p"] pc nc by (simp add: ns_marker_def)
  ultimately show ?thesis
    by (cases "xml_strstr ('' '' @ a) ('' xmlns:'' @ p)")
      (simp_all add: parse_tag_def Let_def split: option.split)
qed

lemma parse_tag_prefix:
  assumes n: "name_clean n" and p: "name_clean p"
  shows "parse_tag (p @ '':'' @ n) = Some (Some p, Some n, None, None)"
proof -
  note pc = name_cleanD [OF p] and nc = name_cleanD [OF n]
  have "xml_strchr (p @ '':'' @ n) CHR '':'' = Some (length p)" using pc by simp
  moreover have "xml_strchr (p @ '':'' @ n) CHR '' '' = None" "xml_strchr n CHR '' '' = None" using pc nc by simp_all
  moreover have "str_strip n = Some n" "str_strip p = Some p" using strip_name [OF n] strip_name [OF p] by simp_all
  moreover have "xml_strstr (p @ '':'' @ n) ('' xmlns:'' @ p) = None"
    using ns_search(2) [of "p @ '':'' @ n" "Some p"] pc nc by (simp add: ns_marker_def)
  ultimately show ?thesis by (simp add: parse_tag_def Let_def)
qed

lemma parse_tag_attr:
  assumes n: "name_clean n" and a: "attr_clean a"
  shows "parse_tag (n @ '' '' @ a) =
     (case xml_strstr ('' '' @ a) '' xmlns'' of
        Some i \<Rightarrow> (case tag_quoted (drop i ('' '' @ a)) of Some u \<Rightarrow> Some (None, Some n, Some u, Some a) | None \<Rightarrow> None)
      | None \<Rightarrow> Some (None, Some n, None, Some a))"
proof -
  let ?tag = "n @ '' '' @ a"
  note nc = name_cleanD [OF n]
  have sp: "xml_strchr ?tag CHR '' '' = Some (length n)" using nc by simp
  have colon: "\<not> c < length n" if "xml_strchr ?tag CHR '':'' = Some c" for c
    using xml_strchr_Some [OF that] nc(3) by (metis nth_append nth_mem)
  have "str_strip n = Some n" "str_strip ('' '' @ a) = Some a"
    using strip_name [OF n] strip_attr [OF a] by simp_all
  moreover have "xml_strstr ?tag '' xmlns'' = map_option (\<lambda>i. length n + i) (xml_strstr ('' '' @ a) '' xmlns'')"
    using ns_search(1) [of n a None] nc by (simp add: ns_marker_def)
  ultimately show ?thesis
    using sp colon by (cases "xml_strstr ('' '' @ a) '' xmlns''"; cases "xml_strchr ?tag CHR '':''")
      (simp_all add: parse_tag_def Let_def split: option.split)
qed

lemma parse_tag_plain:
  assumes n: "name_clean n"
  shows "parse_tag n = Some (None, Some n, None, None)"
proof -
  note nc = name_cleanD [OF n]
  have "xml_strstr n '' xmlns'' = None" using ns_search(2) [of n None] nc by (simp add: ns_marker_def)
  then show ?thesis using nc strip_name [OF n] by (simp add: parse_tag_def Let_def)
qed

lemma ns_attr_found:
  assumes "xml_ns_attr pre (Some u) = Some a"
  shows "xml_strstr ('' '' @ a) (ns_marker pre) = Some 0"
  using ns_attr_marker [OF assms] by (simp add: xml_strstr_correct)

lemma parse_tag_string:
  assumes "tag_printable g"
  shows "parse_tag (tag_string g) = Some (tg_prefix g, Some (tg_name g), tg_uri g, tg_attr g)"
proof -
  have n: "name_clean (tg_name g)" and p: "case tg_prefix g of Some p \<Rightarrow> name_clean p | None \<Rightarrow> True"
    using assms by (simp_all add: tag_printable_def)
  show ?thesis
  proof (cases "tg_attr g")
    case None
    then have "tg_uri g = None" using assms by (simp add: tag_printable_def)
    then show ?thesis using n p None parse_tag_plain parse_tag_prefix
      by (cases "tg_prefix g") (auto simp: tag_string_def qname_string_def)
  next
    case (Some a)
    then have a: "attr_clean a" using assms by (simp add: tag_printable_def)
    have ns: "xml_strstr ('' '' @ a) (ns_marker (tg_prefix g)) = None \<and> tg_uri g = None
      \<or> xml_strstr ('' '' @ a) (ns_marker (tg_prefix g)) = Some 0 \<and> (\<exists>u. tg_uri g = Some u \<and> tag_quoted ('' '' @ a) = Some u)"
    proof (cases "tg_uri g")
      case None
      then show ?thesis using assms Some by (simp add: tag_printable_def)
    next
      case (Some u)
      then have "xml_ns_attr (tg_prefix g) (Some u) = Some a" "CHR 0x22 \<notin> set u"
        using assms \<open>tg_attr g = Some a\<close> by (simp_all add: tag_printable_def)
      then show ?thesis using ns_attr_found tag_quoted_ns [OF _ p] Some by metis
    qed
    show ?thesis
    proof (cases "tg_prefix g")
      case None
      have "tag_string g = tg_name g @ '' '' @ a" using Some None by (simp add: tag_string_def qname_string_def)
      then show ?thesis using parse_tag_attr [OF n a] ns None Some by (auto simp: ns_marker_def simp del: xml_strstr_simps)
    next
      case (Some q)
      have "tag_string g = q @ '':'' @ tg_name g @ '' '' @ a" and q: "name_clean q"
        using Some p \<open>tg_attr g = Some a\<close> by (simp_all add: tag_string_def qname_string_def)
      then show ?thesis using parse_tag_prefix_attr [OF n q a] ns Some \<open>tg_attr g = Some a\<close>
        by (auto simp: ns_marker_def simp del: xml_strstr_simps)
    qed
  qed
qed

text \<open>A printed tag has no bracket in it and does not end in a slash.\<close>

lemma qname_clean:
  assumes "tag_printable g" "c \<in> {CHR '' '', CHR ''<'', CHR ''>'', CHR ''/'', CHR ''?'', CHR ''!'', CHR 0x00}"
  shows "c \<notin> set (qname_string g)"
  using assms by (cases "tg_prefix g") (auto simp: tag_printable_def qname_string_def name_clean_def)

lemma tag_string_clean:
  assumes "tag_printable g"
  shows "CHR ''<'' \<notin> set (tag_string g)" "CHR ''>'' \<notin> set (tag_string g)" "CHR 0x00 \<notin> set (tag_string g)"
    and "tag_string g \<noteq> []" "last (tag_string g) \<noteq> CHR ''/''" "hd (tag_string g) \<notin> {CHR ''/'', CHR ''?'', CHR ''!''}"
proof -
  have q: "qname_string g \<noteq> []" using assms by (auto simp: tag_printable_def qname_string_def name_clean_def split: option.split)
  have a: "attr_clean a" if "tg_attr g = Some a" for a using assms that by (simp add: tag_printable_def)
  show "CHR ''<'' \<notin> set (tag_string g)" "CHR ''>'' \<notin> set (tag_string g)" "CHR 0x00 \<notin> set (tag_string g)"
    using qname_clean [OF assms] a by (auto simp: tag_string_def attr_clean_def split: option.split)
  show "tag_string g \<noteq> []" using q by (simp add: tag_string_def)
  show "last (tag_string g) \<noteq> CHR ''/''"
  proof (cases "tg_attr g")
    case None
    then show ?thesis using qname_clean [OF assms, of "CHR ''/''"] last_in_set [OF q] by (auto simp: tag_string_def)
  next
    case (Some b)
    then show ?thesis using a [OF Some] by (simp add: tag_string_def attr_clean_def)
  qed
  have "hd (tag_string g) = hd (qname_string g)" using q by (simp add: tag_string_def)
  then show "hd (tag_string g) \<notin> {CHR ''/'', CHR ''?'', CHR ''!''}"
    using qname_clean [OF assms] list.set_sel(1) [OF q] by auto
qed

end
