(* ===== verification/XmlParse.thy ===== *)
theory XmlParse
  imports XmlTree XmlTag XmlQuery
begin

text \<open>
  The parser of the XML library: \<^verbatim>\<open>_xml_parse_doc\<close>, \<^verbatim>\<open>xml_parse\<close>, \<^verbatim>\<open>xml_parse_doc\<close> and \<^verbatim>\<open>xml_doc_name\<close> of
  \<^verbatim>\<open>xml.c\<close>.  The position in the document is the string from there on.  It builds nodes in the store; it
  refines a parser that gives a list of trees, and that one reads back what \<open>XmlDump\<close> writes.
\<close>

section \<open>The parser\<close>

text \<open>The two forms of the end tag, and the search for it.\<close>

definition end_tag1 :: "string option \<Rightarrow> string \<Rightarrow> string" where
  "end_tag1 pre name = (case pre of Some p \<Rightarrow> ''</'' @ p @ '':'' @ name @ ''>'' | None \<Rightarrow> ''</'' @ name @ ''>'')"

definition end_tag2 :: "string option \<Rightarrow> string \<Rightarrow> string" where
  "end_tag2 pre name = (case pre of Some p \<Rightarrow> ''</'' @ p @ '':'' @ name @ '' '' | None \<Rightarrow> ''</'' @ name @ '' '')"

definition find_end :: "string \<Rightarrow> string option \<Rightarrow> string \<Rightarrow> nat option" where
  "find_end doc pre name =
     (case xml_strstr doc (end_tag1 pre name) of
        Some k \<Rightarrow> Some k
      | None \<Rightarrow> xml_strstr doc (end_tag2 pre name))"

abbreviation mk_tag :: "string option \<Rightarrow> string \<Rightarrow> string option \<Rightarrow> string option \<Rightarrow> xml_tag" where
  "mk_tag pre name uri attr \<equiv> \<lparr>tg_prefix = pre, tg_name = name, tg_uri = uri, tg_attr = attr\<rparr>"

text \<open>
  What one turn of the loop finds: no tag; a tag on which the code reads through a null pointer; an
  element without content, and the document behind it; a start tag without its end, which is skipped;
  or an element with content, the content, and the document behind the end tag (none when that is cut
  off, and the code adds one to a null pointer).
\<close>

datatype xml_item = No_tag | Bad_tag | Empty_elem xml_tag string | Skip_tag string | Full_elem xml_tag string "string option"

definition xml_next :: "string \<Rightarrow> xml_item" where
  "xml_next cur =
     (case xml_strchr cur CHR ''<'' of
        None \<Rightarrow> No_tag
      | Some i \<Rightarrow>
          let tag_front = drop (i + 1) cur
          in case xml_strchr tag_front CHR ''>'' of
             None \<Rightarrow> No_tag
           | Some j \<Rightarrow>
               let doc_front = drop (j + 1) tag_front
               in if 0 < j \<and> tag_front ! (j - 1) = CHR ''/'' then
                 (case parse_tag (take (j - 1) tag_front) of
                    Some (pre, Some name, uri, attr) \<Rightarrow> Empty_elem (mk_tag pre name uri attr) doc_front
                  | _ \<Rightarrow> Bad_tag)
               else
                 (case parse_tag (take j tag_front) of
                    Some (pre, Some name, uri, attr) \<Rightarrow>
                      (case find_end doc_front pre name of
                         None \<Rightarrow> Skip_tag doc_front
                       | Some k \<Rightarrow>
                           Full_elem (mk_tag pre name uri attr) (take k doc_front)
                             (case xml_strchr (drop k doc_front) CHR ''>'' of
                                None \<Rightarrow> None
                              | Some e \<Rightarrow> Some (drop (e + 1) (drop k doc_front))))
                  | _ \<Rightarrow> Bad_tag))"

definition new_elem :: "(xstore \<Rightarrow> nat) \<Rightarrow> xml_tag \<Rightarrow> xstore \<Rightarrow> nat \<times> xstore" where
  "new_elem new g s = xml_new_element_attr new (tg_prefix g) (tg_name g) (tg_uri g) (tg_attr g) s"

text \<open>The end of the loop: a text, when the element has no child yet.\<close>

definition parse_text :: "(xstore \<Rightarrow> nat) \<Rightarrow> string \<Rightarrow> nat option \<Rightarrow> xstore \<Rightarrow> (nat option \<times> xstore) option" where
  "parse_text new cur root s =
     (case root of
        None \<Rightarrow> Some (None, s)
      | Some r \<Rightarrow>
          do { n \<leftarrow> s r;
               if xn_child n = None \<and> 0 < length cur then
                 (let (p, s1) = xml_new_text new cur s
                  in do { s2 \<leftarrow> xml_add_child s1 r p; Some (Some r, s2) })
               else Some (Some r, s) })"

lemma xml_next_length:
  "xml_next cur = Empty_elem g rest \<Longrightarrow> length rest < length cur"
  "xml_next cur = Skip_tag rest \<Longrightarrow> length rest < length cur"
  "xml_next cur = Full_elem g body after \<Longrightarrow> length body < length cur \<and> (\<forall>rest. after = Some rest \<longrightarrow> length rest < length cur)"
  by (auto simp: xml_next_def Let_def split: option.splits if_splits dest!: xml_strchr_Some)

function xml_parse_nodes ::
    "(xstore \<Rightarrow> nat) \<Rightarrow> string \<Rightarrow> nat option \<Rightarrow> xstore \<Rightarrow> (nat option \<times> xstore) option" where
  "xml_parse_nodes new cur root s =
     (if cur = [] then Some (root, s)
      else case xml_next cur of
        No_tag \<Rightarrow> parse_text new cur root s
      | Bad_tag \<Rightarrow> None
      | Empty_elem g rest \<Rightarrow>
          (let (node, s1) = new_elem new g s
           in case root of
                Some r \<Rightarrow> do { s2 \<leftarrow> xml_add_child s1 r node; xml_parse_nodes new rest root s2 }
              | None \<Rightarrow> Some (Some node, s1))
      | Skip_tag rest \<Rightarrow> xml_parse_nodes new rest root s
      | Full_elem g body after \<Rightarrow>
          (let (node, s1) = new_elem new g s
           in case root of
                Some r \<Rightarrow>
                  do { s2 \<leftarrow> xml_add_child s1 r node;
                       (_, s3) \<leftarrow> xml_parse_nodes new body (Some node) s2;
                       case after of None \<Rightarrow> None | Some rest \<Rightarrow> xml_parse_nodes new rest root s3 }
              | None \<Rightarrow>
                  do { (_, s2) \<leftarrow> xml_parse_nodes new body (Some node) s1;
                       Some (Some node, s2) }))"
  by pat_completeness auto

termination
  by (relation "measure (\<lambda>(new, cur, root, s). length cur)") (auto dest: xml_next_length)

declare xml_parse_nodes.simps [simp del]

text \<open>The buffer of the parser ends at its first terminator.\<close>

definition until_nul :: "string \<Rightarrow> string" where
  "until_nul s = takeWhile (\<lambda>c. c \<noteq> CHR 0x00) s"

definition xml_parse_doc_into ::
    "(xstore \<Rightarrow> nat) \<Rightarrow> string \<Rightarrow> nat option \<Rightarrow> xstore \<Rightarrow> (nat option \<times> xstore) option" where
  "xml_parse_doc_into new doc root s = xml_parse_nodes new (until_nul doc) root s"

text \<open>
  The prolog: behind the last occurrence of a pattern.  \<open>lst\<close> is the value of the pointer that the loop
  sets, which is not initialised.  The searches end at a terminator, the loop only at the end of the buffer,
  behind which there is a terminator, too.
\<close>

lemma takeWhile_no_NUL: "CHR 0x00 \<notin> set s \<Longrightarrow> until_nul s = s"
  by (induction s) (auto simp: until_nul_def)

function xml_skip :: "string \<Rightarrow> string option \<Rightarrow> string \<Rightarrow> string option" where
  "xml_skip pat lst pos =
     (if pos = [] then lst
      else case xml_strstr (until_nul pos) pat of
        None \<Rightarrow> Some pos
      | Some i \<Rightarrow>
          (case xml_strchr (until_nul (drop i pos)) CHR ''>'' of
             None \<Rightarrow> None
           | Some e \<Rightarrow> xml_skip pat (Some (drop i pos)) (drop (e + 1) (drop i pos))))"
  by pat_completeness auto

termination
proof (relation "measure (\<lambda>(pat, lst, pos). length pos)")
  fix pat :: string and lst pos i e
  assume "pos \<noteq> []" "xml_strstr (until_nul pos) pat = Some i" "xml_strchr (until_nul (drop i pos)) CHR ''>'' = Some e"
  then show "((pat, Some (drop i pos), drop (e + 1) (drop i pos)), pat, lst, pos) \<in> measure (\<lambda>(pat, lst, pos). length pos)"
    by simp
qed simp

declare xml_skip.simps [simp del]

definition xml_parse :: "(xstore \<Rightarrow> nat) \<Rightarrow> string \<Rightarrow> xstore \<Rightarrow> (nat option \<times> xstore) option" where
  "xml_parse new doc s =
     do { proc_inst \<leftarrow> xml_skip ''<?'' None doc;
          comment \<leftarrow> xml_skip ''<!'' None doc;
          xml_parse_doc_into new (if length proc_inst < length comment then proc_inst else comment) None s }"

text \<open>Parsing with a given root.\<close>

definition doc_start_tag :: "string option \<Rightarrow> string \<Rightarrow> string option \<Rightarrow> string" where
  "doc_start_tag pre name uri =
     (case (pre, uri) of
        (Some p, Some u) \<Rightarrow> ''<'' @ p @ '':'' @ name @ '' xmlns:'' @ p @ ''='' @ [CHR 0x22] @ u @ [CHR 0x22] @ ''>''
      | (Some p, None) \<Rightarrow> ''<'' @ p @ '':'' @ name @ ''>''
      | (None, Some u) \<Rightarrow> ''<'' @ name @ '' xmlns='' @ [CHR 0x22] @ u @ [CHR 0x22] @ ''>''
      | (None, None) \<Rightarrow> ''<'' @ name @ ''>'')"

definition doc_empty_tag :: "string option \<Rightarrow> string \<Rightarrow> string option \<Rightarrow> string" where
  "doc_empty_tag pre name uri = butlast (doc_start_tag pre name uri) @ ''/>''"

definition xml_parse_doc ::
    "(xstore \<Rightarrow> nat) \<Rightarrow> string \<Rightarrow> string option \<Rightarrow> string \<Rightarrow> string option \<Rightarrow> xstore \<Rightarrow> (nat option \<times> xstore) option" where
  "xml_parse_doc new doc pre name uri s =
     (let xml_buf = until_nul doc;
          start_tag = doc_start_tag pre name uri
      in case xml_strstr xml_buf start_tag of
           Some i \<Rightarrow>
             (let front = drop (i + length start_tag) xml_buf
              in case xml_strstr front (end_tag1 pre name) of
                   Some rear \<Rightarrow>
                     (let (root, s1) = xml_new_element new pre name uri s
                      in do { (_, s2) \<leftarrow> xml_parse_doc_into new (take rear front) (Some root) s1; Some (Some root, s2) })
                 | None \<Rightarrow> Some (None, s))
         | None \<Rightarrow>
             (case xml_strstr xml_buf (doc_empty_tag pre name uri) of
                Some i \<Rightarrow> (let (root, s1) = xml_new_element new pre name uri s in Some (Some root, s1))
              | None \<Rightarrow> Some (None, s)))"

section \<open>A parser of trees\<close>

text \<open>
  The same parser as a function to trees: the children that it adds to an element, which has children
  already when \<open>has\<close> is true.
\<close>

definition body_text :: "string \<Rightarrow> bool \<Rightarrow> unit xtree list" where
  "body_text cur has = (if \<not> has \<and> cur \<noteq> [] then [XText () cur] else [])"

function xml_body :: "string \<Rightarrow> bool \<Rightarrow> unit xtree list option" where
  "xml_body cur has =
     (if cur = [] then Some []
      else case xml_next cur of
        No_tag \<Rightarrow> Some (body_text cur has)
      | Bad_tag \<Rightarrow> None
      | Empty_elem g rest \<Rightarrow> do { ks \<leftarrow> xml_body rest True; Some (XElem () g [] # ks) }
      | Skip_tag rest \<Rightarrow> xml_body rest has
      | Full_elem g body after \<Rightarrow>
          do { es \<leftarrow> xml_body body False;
               rest \<leftarrow> after;
               ks \<leftarrow> xml_body rest True;
               Some (XElem () g es # ks) })"
  by pat_completeness auto

termination
  by (relation "measure (\<lambda>(cur, has). length cur)") (auto dest: xml_next_length)

declare xml_body.simps [simp del]

section \<open>Growing a tree\<close>

text \<open>
  The element at \<open>r\<close>, anywhere in a document, with children \<open>ds\<close>; and the step to a store in which it has
  the further children \<open>ns\<close>, all of them fresh, and nothing else has changed.
\<close>

definition elem_at :: "xstore \<Rightarrow> nat option \<Rightarrow> nat option \<Rightarrow> nat option \<Rightarrow> nat \<Rightarrow> xml_tag \<Rightarrow> nat xtree list \<Rightarrow> bool" where
  "elem_at s par pv nx r g ds \<longleftrightarrow> xrep s par pv nx (XElem r g ds) \<and> distinct (xaddrs (XElem r g ds)) \<and> finite (dom s)"

definition grew ::
    "xstore \<Rightarrow> nat option \<Rightarrow> nat option \<Rightarrow> nat option \<Rightarrow> nat \<Rightarrow> xml_tag \<Rightarrow> nat xtree list \<Rightarrow> nat xtree list \<Rightarrow> xstore \<Rightarrow> bool" where
  "grew s par pv nx r g ds ns s' \<longleftrightarrow>
     elem_at s' par pv nx r g (ds @ ns) \<and> set (xaddrs_list ns) \<inter> dom s = {} \<and> dom s' = dom s \<union> set (xaddrs_list ns)
     \<and> (\<forall>a. a \<notin> set (xaddrs (XElem r g ds)) \<longrightarrow> a \<notin> set (xaddrs_list ns) \<longrightarrow> s' a = s a)"

lemma grew_refl: "elem_at s par pv nx r g ds \<Longrightarrow> grew s par pv nx r g ds [] s"
  by (simp add: grew_def)

lemma grew_elem_at: "grew s par pv nx r g ds ns s' \<Longrightarrow> elem_at s' par pv nx r g (ds @ ns)"
  by (simp add: grew_def)

lemma grew_trans:
  assumes "grew s par pv nx r g ds ns s1" "grew s1 par pv nx r g (ds @ ns) ms s2"
  shows "grew s par pv nx r g ds (ns @ ms) s2"
proof -
  have "s2 a = s a" if "a \<notin> set (xaddrs (XElem r g ds))" "a \<notin> set (xaddrs_list (ns @ ms))" for a
    using that assms unfolding grew_def by simp
  then show ?thesis using assms unfolding grew_def by auto
qed

text \<open>A fresh node becomes the last child.\<close>

lemma grew_attach:
  assumes at: "elem_at s par pv nx r g ds" and p: "p \<notin> dom s" "s1 = s(p \<mapsto> n)"
    and t: "xrep s1 None None None t" "xaddrs t = [p]" "xlabel t = p"
  shows "\<exists>s2. xml_add_child s1 r p = Some s2 \<and> grew s par pv nx r g ds [t] s2"
proof -
  have R: "xrep s par pv nx (XElem r g ds)" and d: "distinct (xaddrs (XElem r g ds))" and fin: "finite (dom s)"
    using at by (simp_all only: elem_at_def)
  have out: "p \<notin> set (xaddrs (XElem r g ds))" using xrep_dom [OF R] p(1) by blast
  have "xrep s1 par pv nx (XElem r g ds)"
    by (rule xrep_frame [OF R]) (metis out p(2) fun_upd_other)
  moreover have "distinct (xaddrs (XElem r g ds) @ xaddrs t)" using d out t(2) by simp
  ultimately obtain s2 where s2: "xml_add_child s1 r p = Some s2" "xrep s2 par pv nx (XElem r g (ds @ [t]))"
    "dom s2 = dom s1" "\<forall>a. a \<notin> set (xaddrs (XElem r g ds)) \<union> set (xaddrs t) \<longrightarrow> s2 a = s1 a"
    using xml_add_child_rep [OF _ t(1)] t(3) by blast
  have "grew s par pv nx r g ds [t] s2"
    using s2 d out p t(2) fin unfolding grew_def elem_at_def by auto
  then show ?thesis using s2(1) by blast
qed

text \<open>A child grows inside its parent.\<close>

lemma grew_inside:
  assumes "grew s par pv nx r g ds [XElem p h []] s2"
    and "grew s2 (Some r) (link_prev None ds) None p h [] ns s3"
  shows "grew s par pv nx r g ds [XElem p h ns] s3"
proof -
  let ?R = "set (xaddrs (XElem r g ds))"
  have R: "xrep s2 par pv nx (XElem r g (ds @ [XElem p h []]))" "distinct (xaddrs (XElem r g (ds @ [XElem p h []])))"
    "p \<notin> dom s" "dom s2 = insert p (dom s)" and o2: "\<And>a. a \<notin> ?R \<Longrightarrow> a \<noteq> p \<Longrightarrow> s2 a = s a"
    using assms(1) unfolding grew_def elem_at_def by auto
  have P: "xrep s3 (Some r) (link_prev None ds) None (XElem p h ns)" "distinct (xaddrs (XElem p h ns))" "finite (dom s3)"
    "set (xaddrs_list ns) \<inter> dom s2 = {}" "dom s3 = dom s2 \<union> set (xaddrs_list ns)"
    and o3: "\<And>a. a \<noteq> p \<Longrightarrow> a \<notin> set (xaddrs_list ns) \<Longrightarrow> s3 a = s2 a"
    using assms(2) unfolding grew_def elem_at_def by auto
  have Rdom: "?R \<subseteq> dom s2" and pR: "p \<notin> ?R" using xrep_dom [OF R(1)] R(2) by auto
  have keep: "s3 a = s2 a" if "a \<in> ?R" for a using o3 [of a] that Rdom pR P(4) by blast
  have ds: "xreps s2 (Some r) None (Some p) ds" "s2 r = Some (elem_node g par (link_next (Some p) ds) pv nx)"
    using R(1) by simp_all
  have "xreps s3 (Some r) None (Some p) ds"
    by (rule xreps_frame [OF ds(1)]) (use keep in auto)
  moreover have "s3 r = s2 r" using keep [of r] by simp
  ultimately have "xrep s3 par pv nx (XElem r g (ds @ [XElem p h ns]))" using ds(2) P(1) by simp
  moreover have "?R \<inter> set (xaddrs_list ns) = {}" using P(4) Rdom by blast
  then have "distinct (xaddrs (XElem r g (ds @ [XElem p h ns])))"
    using R(2) P(2) by auto
  moreover have "set (xaddrs_list [XElem p h ns]) \<inter> dom s = {}" using R(3,4) P(4) by auto
  moreover have "dom s3 = dom s \<union> set (xaddrs_list [XElem p h ns])" using R(4) P(5) by auto
  moreover have "s3 a = s a" if "a \<notin> ?R" "a \<notin> set (xaddrs_list [XElem p h ns])" for a
    using that o2 o3 by simp
  ultimately show ?thesis using P(3) unfolding grew_def elem_at_def by blast
qed

section \<open>The parser of the store refines the parser of trees\<close>

lemma grew_new_element:
  assumes "xml_fresh new" "elem_at s par pv nx r g ds" "new_elem new h s = (p, s1)"
  shows "\<exists>s2. xml_add_child s1 r p = Some s2 \<and> grew s par pv nx r g ds [XElem p h []] s2"
proof -
  have fin: "finite (dom s)" using assms(2) by (simp only: elem_at_def)
  note new = xml_new_element_rep [OF assms(1) fin assms(3) [unfolded new_elem_def]]
  show ?thesis
    by (rule grew_attach [OF assms(2) new]) (use new(2) in simp_all)
qed

lemma grew_new_text:
  assumes "xml_fresh new" "elem_at s par pv nx r g ds" "xml_new_text new w s = (p, s1)"
  shows "\<exists>s2. xml_add_child s1 r p = Some s2 \<and> grew s par pv nx r g ds [XText p w] s2"
proof -
  have fin: "finite (dom s)" using assms(2) by (simp only: elem_at_def)
  note new = xml_new_text_rep [OF assms(1) fin assms(3)]
  show ?thesis
    by (rule grew_attach [OF assms(2) new]) (use new(2) in simp_all)
qed

definition parsed ::
    "(xstore \<Rightarrow> nat) \<Rightarrow> string \<Rightarrow> xstore \<Rightarrow> nat option \<Rightarrow> nat option \<Rightarrow> nat option \<Rightarrow> nat \<Rightarrow> xml_tag \<Rightarrow> nat xtree list \<Rightarrow> unit xtree list \<Rightarrow> bool" where
  "parsed new cur s par pv nx r g ds es \<longleftrightarrow>
     (\<exists>ns s'. xml_parse_nodes new cur (Some r) s = Some (Some r, s') \<and> map xerase ns = es \<and> grew s par pv nx r g ds ns s')"

lemma parse_text_refines:
  assumes "xml_fresh new" "elem_at s par pv nx r g ds"
  shows "\<exists>ns s'. parse_text new cur (Some r) s = Some (Some r, s') \<and> map xerase ns = body_text cur (ds \<noteq> [])
    \<and> grew s par pv nx r g ds ns s'"
proof -
  have r: "s r = Some (elem_node g par (link_next None ds) pv nx)" using assms(2) by (simp add: elem_at_def)
  show ?thesis
  proof (cases "ds = [] \<and> cur \<noteq> []")
    case True
    obtain p s1 where new: "xml_new_text new cur s = (p, s1)" by fastforce
    from grew_new_text [OF assms new] obtain s2 where "xml_add_child s1 r p = Some s2" "grew s par pv nx r g ds [XText p cur] s2" by blast
    then show ?thesis using True r new
      by (intro exI [of _ "[XText p cur]"] exI [of _ s2]) (simp add: parse_text_def body_text_def elem_node_def)
  next
    case False
    then have "parse_text new cur (Some r) s = Some (Some r, s)"
      using r by (cases ds) (auto simp: parse_text_def elem_node_def)
    then show ?thesis using False grew_refl [OF assms(2)] by (intro exI [of _ "[]"]) (auto simp: body_text_def)
  qed
qed

text \<open>After the first new children, the rest of the document.\<close>

lemma parsed_more:
  assumes "grew s par pv nx r g ds [t] s1" "xerase t = e" "parsed new cur s1 par pv nx r g (ds @ [t]) es"
  shows "\<exists>ns s'. xml_parse_nodes new cur (Some r) s1 = Some (Some r, s') \<and> map xerase ns = e # es \<and> grew s par pv nx r g ds ns s'"
  using assms(2,3) grew_trans [OF assms(1)] unfolding parsed_def
  by (metis append_Cons append_Nil list.simps(9))

definition parses_below :: "(xstore \<Rightarrow> nat) \<Rightarrow> nat \<Rightarrow> bool" where
  "parses_below new n \<longleftrightarrow> (\<forall>c s par pv nx r g ds es. length c < n \<longrightarrow> elem_at s par pv nx r g ds \<longrightarrow>
     xml_body c (ds \<noteq> []) = Some es \<longrightarrow> parsed new c s par pv nx r g ds es)"

lemma parses_belowD:
  "\<lbrakk>parses_below new n; length c < n; elem_at s par pv nx r g ds; xml_body c (ds \<noteq> []) = Some es\<rbrakk>
   \<Longrightarrow> parsed new c s par pv nx r g ds es"
  unfolding parses_below_def by blast

lemma parse_element_refines:
  assumes fresh: "xml_fresh new" and at: "elem_at s par pv nx r g ds"
    and IH: "parses_below new n"
    and len: "length body < n" "length rest < n"
    and es: "xml_body body False = Some es" and ks: "xml_body rest True = Some ks"
    and new: "new_elem new h s = (p, s1)"
  shows "\<exists>s2 s3. xml_add_child s1 r p = Some s2 \<and> xml_parse_nodes new body (Some p) s2 = Some (Some p, s3)
    \<and> (\<exists>ns s'. xml_parse_nodes new rest (Some r) s3 = Some (Some r, s')
         \<and> map xerase ns = XElem () h es # ks \<and> grew s par pv nx r g ds ns s')"
proof -
  from grew_new_element [OF fresh at new] obtain s2 where
    s2: "xml_add_child s1 r p = Some s2" "grew s par pv nx r g ds [XElem p h []] s2" by blast
  have "elem_at s2 par pv nx r g (ds @ [XElem p h []])" by (rule grew_elem_at [OF s2(2)])
  then have at2: "elem_at s2 (Some r) (link_prev None ds) None p h []" by (auto simp: elem_at_def)
  obtain ns s3 where s3: "xml_parse_nodes new body (Some p) s2 = Some (Some p, s3)"
    "map xerase ns = es" "grew s2 (Some r) (link_prev None ds) None p h [] ns s3"
    using parses_belowD [OF IH len(1) at2, of es] es by (auto simp: parsed_def)
  from grew_inside [OF s2(2) s3(3)] have g3: "grew s par pv nx r g ds [XElem p h ns] s3" .
  have "parsed new rest s3 par pv nx r g (ds @ [XElem p h ns]) ks"
    by (rule parses_belowD [OF IH len(2) grew_elem_at [OF g3]]) (simp add: ks)
  with parsed_more [OF g3 refl this] s3(2) s2(1) s3(1) show ?thesis by auto
qed

lemma parse_refines:
  assumes "xml_fresh new"
  shows "elem_at s par pv nx r g ds \<Longrightarrow> xml_body cur (ds \<noteq> []) = Some es \<Longrightarrow> parsed new cur s par pv nx r g ds es"
proof (induction "length cur" arbitrary: cur s par pv nx r g ds es rule: less_induct)
  case less
  note at = less.prems(1) and body = less.prems(2)
  note unf = xml_parse_nodes.simps [of new cur "Some r" s] and bunf = xml_body.simps [of cur "ds \<noteq> []"]
  show ?case
  proof (cases "cur = []")
    case True
    then have "es = []" using body bunf by simp
    then show ?thesis using True unf grew_refl [OF at] unfolding parsed_def by (intro exI [of _ "[]"]) simp
  next
    case ne: False
    show ?thesis
    proof (cases "xml_next cur")
      case No_tag
      then show ?thesis using parse_text_refines [OF assms at, of cur] ne unf body bunf unfolding parsed_def by auto
    next
      case Bad_tag
      then show ?thesis using ne body bunf by simp
    next
      case (Skip_tag rest)
      then have "parsed new rest s par pv nx r g ds es"
        using less.hyps [OF xml_next_length(2) at] body bunf ne by simp
      then show ?thesis using Skip_tag ne unf by (simp add: parsed_def)
    next
      case (Empty_elem h rest)
      obtain ks where ks: "xml_body rest True = Some ks" "es = XElem () h [] # ks"
        using Empty_elem body bunf ne by (auto split: bind_splits)
      obtain p s1 where new: "new_elem new h s = (p, s1)" by fastforce
      from grew_new_element [OF assms at new] obtain s2 where
        s2: "xml_add_child s1 r p = Some s2" "grew s par pv nx r g ds [XElem p h []] s2" by blast
      have "parsed new rest s2 par pv nx r g (ds @ [XElem p h []]) ks"
        by (rule less.hyps [OF xml_next_length(1) [OF Empty_elem] grew_elem_at [OF s2(2)]]) (simp add: ks(1))
      with parsed_more [OF s2(2) _ this, of "XElem () h []"] show ?thesis
        using Empty_elem ne unf new s2(1) ks(2) by (simp add: parsed_def)
    next
      case (Full_elem h bd after)
      obtain rest es' ks where ks: "xml_body bd False = Some es'" "after = Some rest" "xml_body rest True = Some ks"
        "es = XElem () h es' # ks"
        using Full_elem body bunf ne by (auto split: bind_splits)
      obtain p s1 where new: "new_elem new h s = (p, s1)" by fastforce
      have len: "length bd < length cur" "length rest < length cur" using xml_next_length(3) [OF Full_elem] ks(2) by auto
      have IH: "parses_below new (length cur)" unfolding parses_below_def using less.hyps by blast
      from parse_element_refines [OF assms at IH len ks(1,3) new] obtain s2 s3 ns s' where
        run: "xml_add_child s1 r p = Some s2" "xml_parse_nodes new bd (Some p) s2 = Some (Some p, s3)"
          "xml_parse_nodes new rest (Some r) s3 = Some (Some r, s')"
        and res: "map xerase ns = XElem () h es' # ks" "grew s par pv nx r g ds ns s'"
        by (elim exE conjE) (rule that)
      have "xml_parse_nodes new cur (Some r) s = Some (Some r, s')"
        using unf ne Full_elem new run ks(2) by simp
      then show ?thesis using res unfolding parsed_def ks(4) by (intro exI [of _ ns] exI [of _ s'] conjI)
    qed
  qed
qed

section \<open>Reading back what was written\<close>

abbreviation xml_text :: "'a xtree \<Rightarrow> string" where
  "xml_text t \<equiv> xml_dump t 0 0"

abbreviation xml_texts :: "'a xtree list \<Rightarrow> string" where
  "xml_texts ks \<equiv> concat (map (\<lambda>k. xml_dump k 0 0) ks)"

lemma xml_text_elem [simp]: "xml_dump (XElem a g ks) 0 0 = xml_start_tag g @ xml_texts ks @ xml_end_tag g"
  by (simp add: next_level_def)

text \<open>
  The documents that survive: an element has either one text or elements in it, and none of the elements
  inside it has its name.
\<close>

fun xml_printable :: "'a xtree \<Rightarrow> bool" where
  "xml_printable (XText a w) \<longleftrightarrow> w \<noteq> [] \<and> CHR ''<'' \<notin> set w \<and> CHR 0x00 \<notin> set w"
| "xml_printable (XElem a g ks) \<longleftrightarrow>
     tag_printable g \<and> list_all xml_printable ks
     \<and> (list_all is_elem ks \<or> length ks = 1)
     \<and> list_all (\<lambda>(b, h). (tg_prefix h, tg_name h) \<noteq> (tg_prefix g, tg_name g)) (concat (map xelements ks))"

lemma no_start_dump:
  assumes "b \<noteq> []" "hd b = CHR ''<''"
  shows "xml_printable t \<Longrightarrow> \<forall>(a, h) \<in> set (xelements t). \<forall>w. \<not> prefix b (xml_start_tag h @ w) \<and> \<not> prefix b (xml_end_tag h @ w)
     \<Longrightarrow> no_start b (xml_text t) v"
proof (induction t arbitrary: v rule: xelements.induct)
  case (1 a w)
  then show ?case using assms by (simp add: no_start_char)
next
  case (2 a g ks)
  have tag: "tag_printable g" and g: "\<And>w. \<not> prefix b (xml_start_tag g @ w)" "\<And>w. \<not> prefix b (xml_end_tag g @ w)"
    using 2 by auto
  have q: "CHR ''<'' \<notin> set (qname_string g)" using qname_clean [OF tag, of "CHR ''<''"] by simp
  have "no_start b (tag_string g @ ''>'') u" "no_start b (CHR ''/'' # qname_string g @ ''>'') u" for u
    using tag_string_clean(1) [OF tag] q assms by (auto intro!: no_start_char)
  then have "no_start b (xml_start_tag g) u" "no_start b (xml_end_tag g) u" for u
    using g(1) [of u] g(2) [of u] unfolding start_tag_string end_tag_string
    by (simp_all add: no_start_Cons [of b "CHR ''<''"])
  moreover have "no_start b (xml_texts ls) u" if "set ls \<subseteq> set ks" for ls u
    using that
  proof (induction ls)
    case (Cons k ls)
    then have k: "k \<in> set ks" by simp
    have "no_start b (xml_text k) (xml_texts ls @ u)"
      by (rule "2.IH" [OF k]) (use "2.prems" k in \<open>auto simp: list_all_iff\<close>)
    then show ?case using Cons by (simp add: no_start_append)
  qed simp
  ultimately show ?case by (simp add: no_start_append)
qed

lemma qname_inject:
  assumes "tag_printable g" "tag_printable h" "qname_string g = qname_string h"
  shows "tg_prefix g = tg_prefix h \<and> tg_name g = tg_name h"
proof -
  have colon: "CHR '':'' \<notin> set (tg_name x)" "\<And>p. tg_prefix x = Some p \<Longrightarrow> CHR '':'' \<notin> set p" if "tag_printable x" for x
    using that name_cleanD(3) by (auto simp: tag_printable_def)
  show ?thesis
  proof (cases "tg_prefix g")
    case None
    then have "CHR '':'' \<notin> set (qname_string h)" using colon(1) [OF assms(1)] assms(3) by (simp add: qname_string_def)
    then have "tg_prefix h = None" by (auto simp: qname_string_def split: option.splits)
    then show ?thesis using None assms(3) by (simp add: qname_string_def)
  next
    case (Some p)
    then have "CHR '':'' \<in> set (qname_string g)" by (simp add: qname_string_def)
    then have "CHR '':'' \<in> set (qname_string h)" unfolding assms(3) .
    then obtain p' where p': "tg_prefix h = Some p'" using colon(1) [OF assms(2)]
      by (auto simp: qname_string_def split: option.splits)
    have "p @ CHR '':'' # tg_name g = p' @ CHR '':'' # tg_name h"
      using assms(3) Some p' by (simp add: qname_string_def)
    then have "p = p' \<and> tg_name g = tg_name h"
      using colon(2) [OF assms(1) Some] colon(2) [OF assms(2) p'] colon(1) [OF assms(1)] colon(1) [OF assms(2)]
      by (metis append_Cons_eq_iff)
    then show ?thesis using Some p' by simp
  qed
qed

lemma end_tag_not_prefix:
  assumes "tag_printable g" "tag_printable h" "(tg_prefix h, tg_name h) \<noteq> (tg_prefix g, tg_name g)"
  shows "\<not> prefix (xml_end_tag g) (xml_start_tag h @ w) \<and> \<not> prefix (xml_end_tag g) (xml_end_tag h @ w)"
proof
  have "tag_string h = hd (tag_string h) # tl (tag_string h)" "hd (tag_string h) \<noteq> CHR ''/''"
    using tag_string_clean(4,6) [OF assms(2)] by simp_all
  then show "\<not> prefix (xml_end_tag g) (xml_start_tag h @ w)"
    by (metis Cons_prefix_Cons append_Cons end_tag_string start_tag_string)
  show "\<not> prefix (xml_end_tag g) (xml_end_tag h @ w)"
  proof
    assume "prefix (xml_end_tag g) (xml_end_tag h @ w)"
    then obtain u where u: "qname_string h @ CHR ''>'' # w = qname_string g @ CHR ''>'' # u"
      by (auto simp: end_tag_string prefix_def)
    have "CHR ''>'' \<notin> set (qname_string g)" "CHR ''>'' \<notin> set (qname_string h)"
      using qname_clean [OF assms(1), of "CHR ''>''"] qname_clean [OF assms(2), of "CHR ''>''"] by simp_all
    then have "qname_string g = qname_string h" using first_part_eq [OF u] by simp
    then show False using qname_inject [OF assms(1,2)] assms(3) by simp
  qed
qed

lemma xml_printable_elements: "xml_printable t \<Longrightarrow> \<forall>(b, h) \<in> set (xelements t). tag_printable h"
  by (induction t rule: xelements.induct) (auto simp: list_all_iff)

text \<open>The end tag of an element is found behind its content.\<close>

lemma xml_end_search:
  assumes p: "xml_printable (XElem a g ks)"
  shows "xml_strstr (xml_texts ks @ xml_end_tag g @ rest) (xml_end_tag g) = Some (length (xml_texts ks))"
proof -
  have tag: "tag_printable g" using p by simp
  have "no_start (xml_end_tag g) (xml_texts ls) v" if "set ls \<subseteq> set ks" for ls v
    using that
  proof (induction ls)
    case (Cons k ls)
    then have k: "k \<in> set ks" by simp
    have "\<forall>(b, h) \<in> set (xelements k). tag_printable h \<and> (tg_prefix h, tg_name h) \<noteq> (tg_prefix g, tg_name g)"
      using p k xml_printable_elements [of k] by (fastforce simp: list_all_iff)
    then have "no_start (xml_end_tag g) (xml_text k) (xml_texts ls @ v)"
      using p k end_tag_not_prefix [OF tag] by (intro no_start_dump) (auto simp: list_all_iff end_tag_string)
    then show ?case using Cons by (simp add: no_start_append)
  qed simp
  then show ?thesis
    by (subst xml_strstr_skip) (simp_all add: end_tag_string)
qed

text \<open>The parser meets a written element: it finds its content, and goes on behind it.\<close>

lemma xml_next_dump:
  assumes p: "xml_printable (XElem a g ks)" and u: "CHR ''<'' \<notin> set u"
  shows "xml_next (u @ xml_text (XElem a g ks) @ rest) = Full_elem g (xml_texts ks) (Some rest)"
proof -
  have tag: "tag_printable g" using p by simp
  note t = tag_string_clean [OF tag]
  let ?tf = "tag_string g @ CHR ''>'' # xml_texts ks @ xml_end_tag g @ rest"
  let ?df = "xml_texts ks @ xml_end_tag g @ rest"
  have cur: "u @ xml_text (XElem a g ks) @ rest = u @ CHR ''<'' # ?tf" by (simp add: start_tag_string)
  have gt: "xml_strchr ?tf CHR ''>'' = Some (length (tag_string g))" using t(2) by simp
  have ne: "?tf ! (length (tag_string g) - 1) \<noteq> CHR ''/''"
    using t(4,5) by (simp add: nth_append last_conv_nth)
  have parts: "parse_tag (tag_string g) = Some (tg_prefix g, Some (tg_name g), tg_uri g, tg_attr g)"
    by (rule parse_tag_string [OF tag])
  have end1: "end_tag1 (tg_prefix g) (tg_name g) = xml_end_tag g" by (simp add: end_tag1_def xml_end_tag_def)
  from xml_end_search [OF p, of rest]
  have fe: "find_end ?df (tg_prefix g) (tg_name g) = Some (length (xml_texts ks))"
    by (simp add: find_end_def end1)
  have "CHR ''>'' \<notin> set (CHR ''<'' # CHR ''/'' # qname_string g)" using qname_clean [OF tag, of "CHR ''>''"] by simp
  then have "xml_strchr (xml_end_tag g @ rest) CHR ''>'' = Some (length (xml_end_tag g) - 1)"
    using xml_strchr_first [of "CHR ''>''" "CHR ''<'' # CHR ''/'' # qname_string g" rest] by (simp add: end_tag_string)
  moreover have "length (xml_end_tag g) - 1 + 1 = length (xml_end_tag g)" by (simp add: end_tag_string)
  ultimately show ?thesis
    using gt ne parts fe u unfolding xml_next_def cur by (simp add: Let_def)
qed

lemma xml_body_texts:
  "list_all xml_printable ks \<Longrightarrow> list_all is_elem ks \<or> length ks = 1 \<and> \<not> has \<Longrightarrow>
     xml_body (xml_texts ks) has = Some (map xerase ks)"
proof (induction "length (xml_texts ks)" arbitrary: ks has rule: less_induct)
  case less
  show ?case
  proof (cases ks)
    case Nil
    then show ?thesis by (simp add: xml_body.simps)
  next
    case (Cons k ls)
    show ?thesis
    proof (cases k)
      case (XText a w)
      then have "ls = []" "\<not> has" "w \<noteq> []" "CHR ''<'' \<notin> set w" using less.prems Cons by (auto simp: is_elem_def)
      then show ?thesis using Cons XText by (subst xml_body.simps) (simp add: xml_next_def body_text_def)
    next
      case (XElem a g es)
      have p: "xml_printable (XElem a g es)" using less.prems Cons XElem by simp
      have next_eq: "xml_next (xml_texts ks) = Full_elem g (xml_texts es) (Some (xml_texts ls))"
        using xml_next_dump [OF p, of "[]" "xml_texts ls"] Cons XElem by simp
      have len: "length (xml_texts es) < length (xml_texts ks)" "length (xml_texts ls) < length (xml_texts ks)"
        using xml_next_length(3) [OF next_eq] by simp_all
      have "xml_body (xml_texts es) False = Some (map xerase es)"
        by (rule less.hyps [OF len(1)]) (use p in auto)
      moreover have "xml_body (xml_texts ls) True = Some (map xerase ls)"
        by (rule less.hyps [OF len(2)]) (use less.prems Cons XElem in \<open>auto simp: is_elem_def\<close>)
      moreover have "xml_texts ks \<noteq> []" using Cons XElem by (simp add: start_tag_string)
      ultimately show ?thesis using next_eq Cons XElem by (subst xml_body.simps) simp
    qed
  qed
qed

text \<open>The root element, in an empty document.\<close>

lemma parse_root:
  assumes "xml_fresh new" "finite (dom s)" "xml_next cur = Full_elem g body after" "cur \<noteq> []"
    and "xml_body body False = Some es"
  shows "\<exists>s' t. xml_parse_nodes new cur None s = Some (Some (xlabel t), s') \<and> xml_doc s' t \<and> xerase t = XElem () g es
    \<and> set (xaddrs t) \<inter> dom s = {} \<and> dom s' = dom s \<union> set (xaddrs t) \<and> (\<forall>a \<in> dom s. s' a = s a)"
proof -
  obtain p s1 where new: "new_elem new g s = (p, s1)" by fastforce
  from xml_new_element_rep [OF assms(1,2) new [unfolded new_elem_def]]
  have p: "p \<notin> dom s" "s1 = s(p \<mapsto> elem_node g None None None None)" by simp_all
  then have at: "elem_at s1 None None None p g []" using assms(2) by (simp add: elem_at_def)
  obtain ns s2 where s2: "xml_parse_nodes new body (Some p) s1 = Some (Some p, s2)" "map xerase ns = es"
    "grew s1 None None None p g [] ns s2"
    using parse_refines [OF assms(1) at, of body es] assms(5) by (auto simp: parsed_def)
  have "xml_doc s2 (XElem p g ns)" using s2(3) by (simp add: grew_def elem_at_def xml_doc_def)
  moreover have "set (xaddrs (XElem p g ns)) \<inter> dom s = {}" "dom s2 = dom s \<union> set (xaddrs (XElem p g ns))"
    using s2(3) p by (auto simp: grew_def)
  moreover have "\<forall>a \<in> dom s. s2 a = s a"
  proof
    fix a assume a: "a \<in> dom s"
    then have "a \<noteq> p" "a \<notin> set (xaddrs_list ns)" using p s2(3) by (auto simp: grew_def)
    then show "s2 a = s a" using s2(3) p(2) by (simp add: grew_def)
  qed
  moreover have "xml_parse_nodes new cur None s = Some (Some p, s2)"
    using assms(3,4) new s2(1) by (subst xml_parse_nodes.simps) simp
  ultimately show ?thesis using s2(2) by (intro exI [of _ s2] exI [of _ "XElem p g ns"]) simp
qed

section \<open>The round trip\<close>

text \<open>No pattern that opens a processing instruction or a comment begins in a document.\<close>

lemma xml_skip_none: "pos \<noteq> [] \<Longrightarrow> xml_strstr (until_nul pos) pat = None \<Longrightarrow> xml_skip pat lst pos = Some pos"
  by (subst xml_skip.simps) simp

lemma no_special_start:
  assumes "xml_printable t" "c \<in> {CHR ''?'', CHR ''!''}"
  shows "no_start [CHR ''<'', c] (xml_text t) v"
proof (rule no_start_dump [OF _ _ assms(1)])
  show "\<forall>(a, h) \<in> set (xelements t). \<forall>w. \<not> prefix [CHR ''<'', c] (xml_start_tag h @ w) \<and> \<not> prefix [CHR ''<'', c] (xml_end_tag h @ w)"
  proof (intro ballI, clarify, rule conjI)
    fix a h w assume "(a, h) \<in> set (xelements t)"
    then have "tag_printable h" using xml_printable_elements [OF assms(1)] by auto
    note t = tag_string_clean(4,6) [OF this]
    then show "\<not> prefix [CHR ''<'', c] (xml_start_tag h @ w)"
      using assms(2) by (cases "tag_string h") (auto simp: start_tag_string)
    show "\<not> prefix [CHR ''<'', c] (xml_end_tag h @ w)"
      using assms(2) by (auto simp: end_tag_string)
  qed
qed simp_all

lemma xml_text_no_NUL: "xml_printable t \<Longrightarrow> CHR 0x00 \<notin> set (xml_text t)"
proof (induction t rule: xelements.induct)
  case (2 a g ks)
  have tag: "tag_printable g" using 2 by simp
  have "CHR 0x00 \<notin> set (xml_start_tag g)" "CHR 0x00 \<notin> set (xml_end_tag g)"
    using tag_string_clean(3) [OF tag] qname_clean [OF tag, of "CHR 0x00"] by (simp_all add: start_tag_string end_tag_string)
  then show ?case using 2 by (auto simp: list_all_iff)
qed simp

text \<open>A prolog that \<^verbatim>\<open>xml_dump_tree_ex\<close> writes: nothing, or a processing instruction and white space.\<close>

definition prolog_ok :: "string \<Rightarrow> bool" where
  "prolog_ok pro \<longleftrightarrow>
     (\<exists>w u. (pro = u \<or> pro = ''<?'' @ w @ ''?>'' @ u) \<and> {CHR ''<'', CHR ''>'', CHR 0x00} \<inter> (set w \<union> set u) = {})"

lemma skip_prolog:
  assumes t: "xml_printable t" "xml_text t \<noteq> []" and pro: "prolog_ok pro"
  shows "\<exists>u pi co. xml_skip ''<?'' None (pro @ xml_text t) = Some pi \<and> xml_skip ''<!'' None (pro @ xml_text t) = Some co
    \<and> (if length pi < length co then pi else co) = u @ xml_text t \<and> {CHR ''<'', CHR 0x00} \<inter> set u = {}"
proof -
  obtain w u where wu: "pro = u \<or> pro = ''<?'' @ w @ ''?>'' @ u" and c: "{CHR ''<'', CHR ''>'', CHR 0x00} \<inter> (set w \<union> set u) = {}"
    using pro unfolding prolog_ok_def by blast
  have none: "xml_strstr (v @ xml_text t) [CHR ''<'', x] = None" if "CHR ''<'' \<notin> set v" "x \<in> {CHR ''?'', CHR ''!''}" for v x
  proof (rule xml_strstr_none)
    show "no_start [CHR ''<'', x] (v @ xml_text t) []"
      unfolding no_start_append using that no_start_char [of "[CHR ''<'', x]" v] no_special_start [OF t(1) that(2), of "[]"] by simp
  qed simp
  have no_NUL: "until_nul (v @ xml_text t) = v @ xml_text t" if "CHR 0x00 \<notin> set v" for v
    using that xml_text_no_NUL [OF t(1)] by (intro takeWhile_no_NUL) simp
  have skip: "xml_skip [CHR ''<'', x] l (v @ xml_text t) = Some (v @ xml_text t)"
    if "CHR ''<'' \<notin> set v" "x \<in> {CHR ''?'', CHR ''!''}" "CHR 0x00 \<notin> set v" for v x l
    by (rule xml_skip_none) (use none [OF that(1,2)] no_NUL [OF that(3)] t(2) in simp_all)
  show ?thesis
  proof (cases "pro = u")
    case True
    have u: "CHR ''<'' \<notin> set u" "CHR 0x00 \<notin> set u" using c by simp_all
    from skip [OF u(1) _ u(2), of "CHR ''?''" None] skip [OF u(1) _ u(2), of "CHR ''!''" None] True c show ?thesis
      by (intro exI [of _ u] exI [of _ "pro @ xml_text t"]) simp
  next
    case False
    with wu have p: "pro @ xml_text t = ''<?'' @ (w @ ''?>'' @ u) @ xml_text t" by simp
    let ?doc = "pro @ xml_text t"
    have lt: "CHR ''<'' \<notin> set (w @ ''?>'' @ u)" "CHR ''<'' \<notin> set u" "CHR 0x00 \<notin> set u" using c by auto
    have doc: "until_nul ?doc = ?doc"
      unfolding p using no_NUL [of "''<?'' @ w @ ''?>'' @ u"] c by simp
    have "xml_strstr ?doc ''<?'' = Some 0" unfolding p by (rule xml_strstr_here)
    then have "xml_strstr (until_nul ?doc) ''<?'' = Some 0" unfolding doc .
    have long: "?doc = (''<?'' @ w @ ''?'') @ CHR ''>'' # u @ xml_text t" unfolding p by simp
    have "xml_strchr ?doc CHR ''>'' = Some (length (''<?'' @ w @ ''?''))"
      unfolding long by (rule xml_strchr_first) (use c in simp)
    then have gt: "xml_strchr (until_nul (drop 0 ?doc)) CHR ''>'' = Some (length (''<?'' @ w @ ''?''))"
      by (simp only: drop_0 doc)
    have ne: "?doc \<noteq> []" unfolding p by simp
    have "drop (length (''<?'' @ w @ ''?'') + 1) (drop 0 ?doc) = u @ xml_text t" unfolding long by simp
    then have "xml_skip ''<?'' None ?doc = xml_skip ''<?'' (Some ?doc) (u @ xml_text t)"
      using \<open>xml_strstr (until_nul ?doc) ''<?'' = Some 0\<close> gt ne by (subst xml_skip.simps) (simp only: option.case if_False drop_0)
    then have pi: "xml_skip ''<?'' None ?doc = Some (u @ xml_text t)" using skip [OF lt(2) _ lt(3), of "CHR ''?''"] by simp
    have "xml_strstr ((w @ ''?>'' @ u) @ xml_text t) ''<!'' = None" by (rule none [OF lt(1)]) simp
    then have "xml_strstr ?doc ''<!'' = None" unfolding p by simp
    then have co: "xml_skip ''<!'' None ?doc = Some ?doc" by (intro xml_skip_none) (simp_all only: doc, simp add: p)
    have "length (u @ xml_text t) < length ?doc" unfolding p by simp
    then show ?thesis using pi co c by (intro exI [of _ u] exI [of _ "u @ xml_text t"] exI [of _ ?doc]) simp
  qed
qed

lemma xml_parse_text:
  assumes "xml_fresh new" "finite (dom s)" "xml_printable t" "is_elem t" "prolog_ok pro"
  shows "\<exists>s' t'. xml_parse new (pro @ xml_text t) s = Some (Some (xlabel t'), s') \<and> xml_doc s' t' \<and> xerase t' = xerase t
    \<and> set (xaddrs t') \<inter> dom s = {} \<and> dom s' = dom s \<union> set (xaddrs t') \<and> (\<forall>a \<in> dom s. s' a = s a)"
proof -
  obtain a g ks where t: "t = XElem a g ks" using assms(4) by (metis is_elem_iff)
  have ne: "xml_text t \<noteq> []" using t by (simp add: start_tag_string)
  from skip_prolog [OF assms(3) ne assms(5)] obtain u pi co where
    sk: "xml_skip ''<?'' None (pro @ xml_text t) = Some pi" "xml_skip ''<!'' None (pro @ xml_text t) = Some co"
      "(if length pi < length co then pi else co) = u @ xml_text t" and u: "{CHR ''<'', CHR 0x00} \<inter> set u = {}"
    by (elim exE conjE) (rule that)
  have nn: "CHR 0x00 \<notin> set (u @ xml_text t)" using u xml_text_no_NUL [OF assms(3)] by simp
  have "xml_parse_doc_into new (u @ xml_text t) None s = xml_parse_nodes new (u @ xml_text t) None s"
    unfolding xml_parse_doc_into_def by (simp only: takeWhile_no_NUL [OF nn])
  then have pr: "xml_parse new (pro @ xml_text t) s = xml_parse_nodes new (u @ xml_text t) None s"
    using sk by (simp add: xml_parse_def)
  have nx: "xml_next (u @ xml_text t) = Full_elem g (xml_texts ks) (Some [])"
    using xml_next_dump [of a g ks u "[]"] assms(3) u t by simp
  have bd: "xml_body (xml_texts ks) False = Some (map xerase ks)"
    using assms(3) t by (intro xml_body_texts) auto
  have xe: "xerase t = XElem () g (map xerase ks)" using t by simp
  have ne': "u @ xml_text t \<noteq> []" using ne by simp
  from parse_root [OF assms(1,2) nx ne' bd] show ?thesis unfolding pr xe .
qed

end
