(* ===== verification/XmlAttr.thy ===== *)
theory XmlAttr
  imports XmlNode XmlStr "HOL-Library.AList"
begin

text \<open>
  The attributes of an element (\<^verbatim>\<open>xml_set_attribute\<close> and \<^verbatim>\<open>xml_get_attribute\<close> of \<^verbatim>\<open>xml.c\<close>).  They are kept as
  one string; setting and getting searches it for a name with a space before it and an equals sign and
  a quote behind it.  For attributes without quotes and equals signs in their values the string
  represents an association list.
\<close>

section \<open>The operations\<close>

abbreviation quote1 :: char where "quote1 \<equiv> CHR 0x27"
abbreviation quote2 :: char where "quote2 \<equiv> CHR 0x22"

definition attr_pattern :: "string \<Rightarrow> char \<Rightarrow> string" where
  "attr_pattern attr q = '' '' @ attr @ ''='' @ [q]"

text \<open>
  The offset of the value of an attribute with the quote \<open>q\<close>, and of the attribute: behind a space, or
  at the start of the string.
\<close>

definition attr_search :: "string \<Rightarrow> string \<Rightarrow> char \<Rightarrow> (nat option \<times> nat) option" where
  "attr_search all attr q =
     (let pat = attr_pattern attr q
      in case xml_strstr all pat of
           Some pos \<Rightarrow> Some (Some pos, pos + length pat)
         | None \<Rightarrow> if xml_strstr all (drop 1 pat) = Some 0 then Some (None, length pat - 1) else None)"

text \<open>What is kept on both sides of an attribute that is replaced.\<close>

definition attr_split :: "string \<Rightarrow> nat option \<times> nat \<Rightarrow> char \<Rightarrow> (string option \<times> string option) option" where
  "attr_split all at q =
     (case xml_strchr (drop (snd at) all) q of
        None \<Rightarrow> None
      | Some e \<Rightarrow>
          Some (case fst at of Some pos \<Rightarrow> str_strip (take pos all) | None \<Rightarrow> None,
                str_strip (drop (snd at + e + 1) all)))"

definition attr_join :: "string option \<Rightarrow> string \<Rightarrow> string option \<Rightarrow> string" where
  "attr_join p1 new_attr p2 =
     (case (p1, p2) of
        (Some a, Some b) \<Rightarrow> a @ '' '' @ new_attr @ '' '' @ b
      | (Some a, None) \<Rightarrow> a @ '' '' @ new_attr
      | (None, Some b) \<Rightarrow> new_attr @ '' '' @ b
      | (None, None) \<Rightarrow> new_attr)"

definition new_attribute :: "string \<Rightarrow> string \<Rightarrow> string" where
  "new_attribute attr val =
     (if quote2 \<in> set val then attr @ ''='' @ [quote1] @ val @ [quote1]
      else attr @ ''='' @ [quote2] @ val @ [quote2])"

definition set_attr_string :: "string option \<Rightarrow> string \<Rightarrow> string \<Rightarrow> string option" where
  "set_attr_string old attr val =
     (let new_attr = new_attribute attr val
      in case old of
           None \<Rightarrow> Some new_attr
         | Some all \<Rightarrow>
             (case attr_search all attr quote1 of
                Some at \<Rightarrow> (case attr_split all at quote1 of None \<Rightarrow> None | Some (p1, p2) \<Rightarrow> Some (attr_join p1 new_attr p2))
              | None \<Rightarrow>
                  (case attr_search all attr quote2 of
                     Some at \<Rightarrow> (case attr_split all at quote2 of None \<Rightarrow> None | Some (p1, p2) \<Rightarrow> Some (attr_join p1 new_attr p2))
                   | None \<Rightarrow> Some (all @ '' '' @ new_attr))))"

definition xml_set_attribute :: "xml_node \<Rightarrow> string \<Rightarrow> string \<Rightarrow> xml_node option" where
  "xml_set_attribute n attr val =
     (let ns_tag = (case xn_prefix n of Some p \<Rightarrow> ''xmlns:'' @ p | None \<Rightarrow> ''xmlns'');
          n1 = (if ns_tag = attr then n\<lparr>xn_uri := Some val\<rparr> else n)
      in case set_attr_string (xn_attr n) attr val of
           None \<Rightarrow> None
         | Some a \<Rightarrow> Some (n1\<lparr>xn_attr := Some a\<rparr>))"

text \<open>The outer \<^term>\<open>None\<close> is a value without its closing quote, whose length the code takes from a null pointer.\<close>

definition xml_get_attribute :: "xml_node \<Rightarrow> string \<Rightarrow> string option option" where
  "xml_get_attribute n attr =
     (case xn_attr n of
        None \<Rightarrow> Some None
      | Some all \<Rightarrow>
          (case attr_search all attr quote1 of
             Some (_, v) \<Rightarrow>
               (case xml_strchr (drop v all) quote1 of None \<Rightarrow> None | Some e \<Rightarrow> Some (Some (take e (drop v all))))
           | None \<Rightarrow>
               (case attr_search all attr quote2 of
                  Some (_, v) \<Rightarrow>
                    (case xml_strchr (drop v all) quote2 of None \<Rightarrow> None | Some e \<Rightarrow> Some (Some (take e (drop v all))))
                | None \<Rightarrow> Some None)))"

section \<open>Attributes as an association list\<close>

definition attr_string :: "string \<times> string \<Rightarrow> string" where
  "attr_string nv = fst nv @ ''='' @ [quote2] @ snd nv @ [quote2]"

definition attrs_string :: "(string \<times> string) list \<Rightarrow> string" where
  "attrs_string nvs = drop 1 (concat (map (\<lambda>nv. '' '' @ attr_string nv) nvs))"

definition attr_ok :: "string \<times> string \<Rightarrow> bool" where
  "attr_ok nv \<longleftrightarrow> fst nv \<noteq> [] \<and> set (fst nv) \<inter> {CHR '' '', CHR ''='', quote1, quote2} = {}
     \<and> set (snd nv) \<inter> {CHR ''='', quote1, quote2} = {}"

definition attrs_ok :: "(string \<times> string) list \<Rightarrow> bool" where
  "attrs_ok nvs \<longleftrightarrow> list_all attr_ok nvs \<and> distinct (map fst nvs)"

lemma attrs_string_Cons: "attrs_string (nv # nvs) = attr_string nv @ concat (map (\<lambda>nv. '' '' @ attr_string nv) nvs)"
  by (simp add: attrs_string_def)

abbreviation attrs_tail :: "(string \<times> string) list \<Rightarrow> string" where
  "attrs_tail nvs \<equiv> concat (map (\<lambda>nv. '' '' @ attr_string nv) nvs)"

lemma attrs_tail_string: "nvs \<noteq> [] \<Longrightarrow> attrs_tail nvs = '' '' @ attrs_string nvs"
  by (cases nvs) (simp_all add: attrs_string_def)

lemma attrs_string_append:
  "as \<noteq> [] \<Longrightarrow> attrs_string (as @ bs) = attrs_string as @ attrs_tail bs"
  by (cases as) (simp_all add: attrs_string_Cons)

lemma strip_attrs:
  assumes "list_all attr_ok nvs" "nvs \<noteq> []"
  shows "str_strip (attrs_string nvs) = Some (attrs_string nvs)" "str_strip (attrs_tail nvs) = Some (attrs_string nvs)"
proof -
  obtain nv ms where nvs: "nvs = nv # ms" using assms(2) by (cases nvs) auto
  obtain ls l where snoc: "nvs = ls @ [l]" using assms(2) by (cases nvs rule: rev_cases) auto
  have "fst nv \<noteq> []" and sp: "CHR '' '' \<notin> set (fst nv)" using assms(1) nvs by (auto simp: attr_ok_def)
  then have "fst nv \<noteq> []" "hd (fst nv) \<noteq> CHR '' ''" using list.set_sel(1) by metis+
  then have h: "attrs_string nvs \<noteq> []" "hd (attrs_string nvs) \<noteq> CHR '' ''"
    by (simp_all add: nvs attrs_string_Cons attr_string_def)
  have "last (attrs_string nvs) = quote2"
    by (cases ls) (simp_all add: snoc attrs_string_append attrs_string_Cons attr_string_def)
  then show *: "str_strip (attrs_string nvs) = Some (attrs_string nvs)" using h by (intro str_strip_id) auto
  show "str_strip (attrs_tail nvs) = Some (attrs_string nvs)" using * attrs_tail_string [OF assms(2)] by simp
qed

section \<open>Searching for an attribute\<close>

lemma name_at_start:
  assumes "attr_ok (n, v)" "attr_ok nv"
  shows "prefix (n @ ''='' @ [quote2]) (attr_string nv @ r) \<longleftrightarrow> n = fst nv"
proof
  assume "prefix (n @ ''='' @ [quote2]) (attr_string nv @ r)"
  then obtain z where "fst nv @ CHR ''='' # (quote2 # snd nv @ quote2 # r) = n @ CHR ''='' # (quote2 # z)"
    by (auto simp: prefix_def attr_string_def)
  from first_part_eq [OF this] assms show "n = fst nv" by (simp add: attr_ok_def)
qed (simp add: attr_string_def)

lemma no_name_in_value:
  assumes "attr_ok (n, v)" "set w \<inter> {CHR ''='', quote2} = {}"
  shows "no_start (attr_pattern n quote2) (w @ [quote2]) r"
  using assms(2)
proof (induction w)
  case Nil
  show ?case by (simp add: no_start_Cons attr_pattern_def)
next
  case (Cons c w)
  have "\<not> prefix (n @ ''='' @ [quote2]) (w @ quote2 # r)"
  proof
    assume "prefix (n @ ''='' @ [quote2]) (w @ quote2 # r)"
    then obtain z where "w @ quote2 # r = n @ CHR ''='' # quote2 # z" by (auto simp: prefix_def)
    from first_stop_eq [OF this] assms(1) Cons.prems show False by (simp add: attr_ok_def)
  qed
  then have "\<not> prefix (attr_pattern n quote2) (c # (w @ [quote2]) @ r)" by (simp add: attr_pattern_def)
  then show ?case using Cons by (simp add: no_start_Cons)
qed

lemma no_name_inside:
  assumes "attr_ok (n, v)" "attr_ok nv"
  shows "no_start (attr_pattern n quote2) (attr_string nv) r"
proof -
  have "no_start (attr_pattern n quote2) (fst nv @ [CHR ''='', quote2]) u" for u
    by (rule no_start_char) (use assms(2) in \<open>auto simp: attr_pattern_def attr_ok_def\<close>)
  moreover have "no_start (attr_pattern n quote2) (snd nv @ [quote2]) u" for u
    by (rule no_name_in_value [OF assms(1)]) (use assms(2) in \<open>auto simp: attr_ok_def\<close>)
  moreover have "attr_string nv = (fst nv @ [CHR ''='', quote2]) @ (snd nv @ [quote2])" by (simp add: attr_string_def)
  ultimately show ?thesis by (simp only: no_start_append)
qed

lemma search_tail:
  assumes "attr_ok (n, v)" "list_all attr_ok nvs"
  shows "xml_strstr (attrs_tail nvs) (attr_pattern n quote2)
     = (if n \<in> fst ` set nvs then Some (length (attrs_tail (takeWhile (\<lambda>nv. fst nv \<noteq> n) nvs))) else None)"
  using assms(2)
proof (induction nvs)
  case Nil
  then show ?case by (simp add: attr_pattern_def)
next
  case (Cons nv nvs)
  let ?P = "attr_pattern n quote2" and ?tail = "attr_string nv @ attrs_tail nvs"
  have ok: "attr_ok nv" using Cons.prems by simp
  have P: "?P = CHR '' '' # n @ ''='' @ [quote2]" by (simp add: attr_pattern_def)
  have here: "prefix ?P (CHR '' '' # ?tail) \<longleftrightarrow> n = fst nv"
    unfolding P Cons_prefix_Cons name_at_start [OF assms(1) ok] by simp
  have "xml_strstr ?tail ?P = map_option (\<lambda>i. length (attr_string nv) + i) (xml_strstr (attrs_tail nvs) ?P)"
    by (rule xml_strstr_skip [OF _ no_name_inside [OF assms(1) ok]]) (simp add: P)
  then have "xml_strstr (attrs_tail (nv # nvs)) ?P
    = (if n = fst nv then Some 0 else map_option (\<lambda>i. Suc (length (attr_string nv) + i)) (xml_strstr (attrs_tail nvs) ?P))"
    using here by (simp add: P option.map_comp comp_def)
  then show ?case using Cons by auto
qed

lemma search_string:
  assumes "attr_ok (n, v)" "attr_ok nv" "list_all attr_ok nvs"
  shows "xml_strstr (attrs_string (nv # nvs)) (attr_pattern n quote2)
     = map_option (\<lambda>i. length (attr_string nv) + i) (xml_strstr (attrs_tail nvs) (attr_pattern n quote2))"
    and "xml_strstr (attrs_string (nv # nvs)) (drop 1 (attr_pattern n quote2)) = Some 0 \<longleftrightarrow> n = fst nv"
proof -
  show "xml_strstr (attrs_string (nv # nvs)) (attr_pattern n quote2)
     = map_option (\<lambda>i. length (attr_string nv) + i) (xml_strstr (attrs_tail nvs) (attr_pattern n quote2))"
    unfolding attrs_string_Cons
    by (rule xml_strstr_skip [OF _ no_name_inside [OF assms(1,2)]]) (simp add: attr_pattern_def)
  have "drop 1 (attr_pattern n quote2) = n @ ''='' @ [quote2]" by (simp add: attr_pattern_def)
  then show "xml_strstr (attrs_string (nv # nvs)) (drop 1 (attr_pattern n quote2)) = Some 0 \<longleftrightarrow> n = fst nv"
    using name_at_start [OF assms(1,2)] by (simp add: xml_strstr_correct attrs_string_Cons)
qed

lemma search_other_quote:
  assumes "list_all attr_ok nvs" "nvs \<noteq> []"
  shows "attr_search (attrs_string nvs) n quote1 = None"
proof -
  have "quote1 \<notin> set (attrs_tail nvs)" using assms(1) by (auto simp: list_all_iff attr_ok_def attr_string_def)
  then have "quote1 \<notin> set (attrs_string nvs)" unfolding attrs_string_def using in_set_dropD by metis
  then show ?thesis by (simp add: attr_search_def Let_def xml_strstr_char [of quote1] attr_pattern_def)
qed

lemma search_missing:
  assumes "attr_ok (n, v)" "list_all attr_ok nvs" "nvs \<noteq> []" "n \<notin> fst ` set nvs"
  shows "attr_search (attrs_string nvs) n quote2 = None"
proof -
  obtain nv ms where nvs: "nvs = nv # ms" using assms(3) by (cases nvs) auto
  have ok: "attr_ok nv" "list_all attr_ok ms" using assms(2) nvs by simp_all
  show ?thesis
    using search_string [OF assms(1) ok] search_tail [OF assms(1) ok(2)] assms(4)
    unfolding attr_search_def Let_def nvs by auto
qed

lemma search_first:
  assumes "attrs_ok ((n, v) # bs)"
  shows "attr_search (attrs_string ((n, v) # bs)) n quote2 = Some (None, length n + 2)"
proof -
  have ok: "attr_ok (n, v)" "list_all attr_ok bs" "n \<notin> fst ` set bs" using assms by (auto simp: attrs_ok_def)
  show ?thesis
    using search_string [OF ok(1,1,2)] search_tail [OF ok(1,2)] ok(3)
    unfolding attr_search_def Let_def by (auto simp: attr_pattern_def)
qed

lemma search_later:
  assumes "attrs_ok (as @ (n, v) # bs)" "as \<noteq> []"
  shows "attr_search (attrs_string (as @ (n, v) # bs)) n quote2
     = Some (Some (length (attrs_string as)), length (attrs_string as) + length n + 3)"
proof -
  obtain nv ms where as: "as = nv # ms" using assms(2) by (cases as) auto
  have ok: "attr_ok (n, v)" "attr_ok nv" "list_all attr_ok (ms @ (n, v) # bs)" "n \<notin> fst ` set as"
    using assms as by (auto simp: attrs_ok_def)
  have "takeWhile (\<lambda>nv. fst nv \<noteq> n) (ms @ (n, v) # bs) = ms" 
    using ok(4) as by (subst takeWhile_append2) auto
  then have "xml_strstr (attrs_tail (ms @ (n, v) # bs)) (attr_pattern n quote2) = Some (length (attrs_tail ms))"
    using search_tail [OF ok(1,3)] by (simp del: concat_append map_append)
  then have "xml_strstr (attrs_string (as @ (n, v) # bs)) (attr_pattern n quote2) = Some (length (attrs_string as))"
    using search_string(1) [OF ok(1-3)] as by (simp add: attrs_string_Cons)
  then show ?thesis by (simp add: attr_search_def Let_def attr_pattern_def)
qed

section \<open>The string represents the list\<close>

lemma drop_exact: "k = length xs \<Longrightarrow> drop k (xs @ ys) = ys"
  by simp

lemma attr_split_first:
  assumes "attrs_ok ((n, v) # bs)"
  shows "attr_split (attrs_string ((n, v) # bs)) (None, length n + 2) quote2
     = Some (None, if bs = [] then None else Some (attrs_string bs))"
proof -
  have all: "attrs_string ((n, v) # bs) = (n @ [CHR ''='', quote2]) @ v @ quote2 # attrs_tail bs"
    "attrs_string ((n, v) # bs) = (n @ [CHR ''='', quote2] @ v @ [quote2]) @ attrs_tail bs"
    by (simp_all add: attrs_string_Cons attr_string_def)
  have "drop (length n + 2) (attrs_string ((n, v) # bs)) = v @ quote2 # attrs_tail bs"
    unfolding all(1) by (rule drop_exact) simp
  moreover have "quote2 \<notin> set v" using assms by (simp add: attrs_ok_def attr_ok_def)
  moreover have "drop (length n + 2 + length v + 1) (attrs_string ((n, v) # bs)) = attrs_tail bs"
    unfolding all(2) by (rule drop_exact) simp
  moreover have "str_strip (attrs_tail bs) = (if bs = [] then None else Some (attrs_string bs))"
    using strip_attrs(2) [of bs] assms by (simp add: attrs_ok_def str_strip_def)
  ultimately show ?thesis unfolding attr_split_def by simp
qed

lemma attr_split_later:
  assumes "attrs_ok (as @ (n, v) # bs)" "as \<noteq> []"
  shows "attr_split (attrs_string (as @ (n, v) # bs)) (Some (length (attrs_string as)), length (attrs_string as) + length n + 3) quote2
     = Some (Some (attrs_string as), if bs = [] then None else Some (attrs_string bs))"
proof -
  let ?all = "attrs_string (as @ (n, v) # bs)" and ?k = "length (attrs_string as)"
  have all: "?all = (attrs_string as @ '' '' @ n @ [CHR ''='', quote2]) @ v @ quote2 # attrs_tail bs"
    "?all = (attrs_string as @ '' '' @ n @ [CHR ''='', quote2] @ v @ [quote2]) @ attrs_tail bs"
    using attrs_string_append [OF assms(2), of "(n, v) # bs"] by (simp_all add: attr_string_def)
  have "drop (?k + length n + 3) ?all = v @ quote2 # attrs_tail bs" unfolding all(1) by (rule drop_exact) simp
  moreover have "quote2 \<notin> set v" using assms by (simp add: attrs_ok_def attr_ok_def)
  moreover have "drop (?k + length n + 3 + length v + 1) ?all = attrs_tail bs" unfolding all(2) by (rule drop_exact) simp
  moreover have "str_strip (attrs_tail bs) = (if bs = [] then None else Some (attrs_string bs))"
    using strip_attrs(2) [of bs] assms by (simp add: attrs_ok_def str_strip_def)
  moreover have "str_strip (take ?k ?all) = Some (attrs_string as)"
    using strip_attrs(1) [of as] assms unfolding all(1) by (simp add: attrs_ok_def)
  ultimately show ?thesis unfolding attr_split_def by simp
qed

lemma attr_join_string:
  "attr_join None (attr_string nv) (if bs = [] then None else Some (attrs_string bs)) = attrs_string (nv # bs)"
  "as \<noteq> [] \<Longrightarrow> attr_join (Some (attrs_string as)) (attr_string nv) (if bs = [] then None else Some (attrs_string bs))
     = attrs_string (as @ nv # bs)"
  using attrs_tail_string [of bs] attrs_string_append [of as "nv # bs"]
  by (auto simp: attr_join_def attrs_string_Cons)

lemma update_present: "n \<notin> fst ` set as \<Longrightarrow> AList.update n w (as @ (n, v) # bs) = as @ (n, w) # bs"
  by (induction as) auto

lemma update_absent: "n \<notin> fst ` set nvs \<Longrightarrow> AList.update n w nvs = nvs @ [(n, w)]"
  by (induction nvs) auto

definition attrs_rep :: "string option \<Rightarrow> (string \<times> string) list \<Rightarrow> bool" where
  "attrs_rep a nvs \<longleftrightarrow> attrs_ok nvs \<and> a = (if nvs = [] then None else Some (attrs_string nvs))"

text \<open>Setting is the update of the list, and getting is the lookup.\<close>

lemma attrs_rep_cases:
  assumes "attrs_ok nvs" "n \<in> fst ` set nvs"
  obtains v bs where "nvs = (n, v) # bs" "n \<notin> fst ` set bs"
    | as v bs where "nvs = as @ (n, v) # bs" "as \<noteq> []" "n \<notin> fst ` set as"
proof -
  from assms(2) obtain v where "(n, v) \<in> set nvs" by force
  then obtain as bs where s: "nvs = as @ (n, v) # bs" by (meson split_list)
  then have "n \<notin> fst ` set as" "n \<notin> fst ` set bs" using assms(1) by (auto simp: attrs_ok_def)
  then show thesis using that s by (cases "as = []") simp_all
qed

lemma list_all_update: "list_all P nvs \<Longrightarrow> P (n, w) \<Longrightarrow> list_all P (AList.update n w nvs)"
  by (induction nvs) auto

lemma set_attr_rep:
  assumes rep: "attrs_rep a nvs" and ok: "attr_ok (n, w)"
  shows "\<exists>b. set_attr_string a n w = Some b \<and> attrs_rep (Some b) (AList.update n w nvs)"
proof -
  have nok: "attrs_ok nvs" using rep by (simp add: attrs_rep_def)
  have new: "new_attribute n w = attr_string (n, w)" using ok by (simp add: new_attribute_def attr_string_def attr_ok_def)
  have upd_ok: "attrs_ok (AList.update n w nvs)"
    using nok ok list_all_update [of attr_ok nvs n w] by (simp add: attrs_ok_def distinct_update)
  have upd_ne: "AList.update n w nvs \<noteq> []" by (cases nvs) auto
  have "set_attr_string a n w = Some (attrs_string (AList.update n w nvs))"
  proof (cases "nvs = []")
    case True
    then show ?thesis using rep new by (simp add: attrs_rep_def set_attr_string_def attrs_string_Cons)
  next
    case False
    then have a: "a = Some (attrs_string nvs)" and l: "list_all attr_ok nvs" using rep by (simp_all add: attrs_rep_def attrs_ok_def)
    note q1 = search_other_quote [OF l False, of n]
    show ?thesis
    proof (cases "n \<in> fst ` set nvs")
      case no: False
      have "attrs_string nvs @ '' '' @ attr_string (n, w) = attrs_string (nvs @ [(n, w)])"
        using attrs_string_append [OF False, of "[(n, w)]"] by simp
      then show ?thesis using search_missing [OF ok l False no] q1 a new update_absent [OF no]
        by (simp add: set_attr_string_def)
    next
      case True
      from nok this show ?thesis
      proof (cases rule: attrs_rep_cases)
        case (1 v bs)
        then show ?thesis
          using search_first [of n v bs] attr_split_first [of n v bs] attr_join_string(1) [of "(n, w)" bs] nok q1 a new
          by (simp add: set_attr_string_def)
      next
        case (2 as v bs)
        then show ?thesis
          using search_later [of as n v bs] attr_split_later [of as n v bs] attr_join_string(2) [of as "(n, w)" bs]
            nok q1 a new update_present [OF 2(3), of w v bs]
          by (simp add: set_attr_string_def)
      qed
    qed
  qed
  then show ?thesis using upd_ok upd_ne by (simp add: attrs_rep_def)
qed

lemma get_attr_rep:
  assumes rep: "attrs_rep (xn_attr x) nvs" and ok: "attr_ok (n, w)"
  shows "xml_get_attribute x n = Some (map_of nvs n)"
proof (cases "nvs = []")
  case True
  then show ?thesis using rep by (simp add: attrs_rep_def xml_get_attribute_def)
next
  case False
  then have a: "xn_attr x = Some (attrs_string nvs)" and nok: "attrs_ok nvs" and l: "list_all attr_ok nvs"
    using rep by (simp_all add: attrs_rep_def attrs_ok_def)
  note q1 = search_other_quote [OF l False, of n]
  show ?thesis
  proof (cases "n \<in> fst ` set nvs")
    case no: False
    then have "map_of nvs n = None" by (simp add: map_of_eq_None_iff)
    then show ?thesis using search_missing [OF ok l False no] q1 a by (simp add: xml_get_attribute_def)
  next
    case True
    from nok this show ?thesis
    proof (cases rule: attrs_rep_cases)
      case (1 v bs)
      have "drop (length n + 2) (attrs_string nvs) = v @ quote2 # attrs_tail bs"
        using 1(1) drop_exact [of "length n + 2" "n @ [CHR ''='', quote2]" "v @ quote2 # attrs_tail bs"]
        by (simp add: attrs_string_Cons attr_string_def)
      moreover have "quote2 \<notin> set v" using nok 1 by (simp add: attrs_ok_def attr_ok_def)
      ultimately show ?thesis using search_first [of n v bs] nok q1 a 1 by (simp add: xml_get_attribute_def)
    next
      case (2 as v bs)
      let ?k = "length (attrs_string as) + length n + 3"
      have "attrs_string nvs = (attrs_string as @ '' '' @ n @ [CHR ''='', quote2]) @ v @ quote2 # attrs_tail bs"
        using attrs_string_append [OF 2(2), of "(n, v) # bs"] 2(1) by (simp add: attr_string_def)
      then have "drop ?k (attrs_string nvs) = v @ quote2 # attrs_tail bs" by (simp only:) (rule drop_exact, simp)
      moreover have "quote2 \<notin> set v" using nok 2 by (simp add: attrs_ok_def attr_ok_def)
      moreover have "map_of as n = None" using 2(3) by (simp add: map_of_eq_None_iff)
      then have "map_of nvs n = Some v" using 2(1) by (simp add: map_add_def)
      ultimately show ?thesis using search_later [of as n v bs] nok q1 a 2 by (simp add: xml_get_attribute_def)
    qed
  qed
qed

end
