(* ===== verification/XmlForest.thy ===== *)
theory XmlForest
  imports XmlParse XmlAttr
begin

text \<open>
  The store under the interface of the XML library: a client that keeps to the contract of
  \<^verbatim>\<open>xml_add_child\<close> only ever sees a forest of documents.
\<close>

section \<open>Replacing a subtree\<close>

fun xreplace :: "'a \<Rightarrow> 'a xtree \<Rightarrow> 'a xtree \<Rightarrow> 'a xtree" where
  "xreplace a u (XElem b g ks) = (if a = b then u else XElem b g (map (xreplace a u) ks))"
| "xreplace a u (XText b w) = (if a = b then u else XText b w)"

lemma xreplace_id: "a \<notin> set (xaddrs t) \<Longrightarrow> xreplace a u t = t"
proof (induction a u t rule: xreplace.induct)
  case (1 a u b g ks)
  then have "map (xreplace a u) ks = ks" by (intro map_idI) auto
  then show ?case using 1 by simp
qed simp

lemma xlabel_xreplace: "xlabel u = a \<Longrightarrow> xlabel (xreplace a u t) = xlabel t"
  by (cases t) auto

lemma link_next_xreplace: "xlabel u = a \<Longrightarrow> link_next nx (map (xreplace a u) ks) = link_next nx ks"
  by (cases ks) (simp_all add: xlabel_xreplace)

text \<open>
  The node at an address of a represented tree roots a represented subtree; when that is exchanged for
  another one with the same links, the tree is exchanged accordingly.
\<close>

definition focused ::
    "xstore \<Rightarrow> nat option \<Rightarrow> nat option \<Rightarrow> nat option \<Rightarrow> nat xtree \<Rightarrow> nat option \<Rightarrow> nat option \<Rightarrow> nat option \<Rightarrow> nat xtree \<Rightarrow> bool" where
  "focused s par pv nx t par' pv' nx' u \<longleftrightarrow>
     xrep s par' pv' nx' u \<and> distinct (xaddrs u) \<and> set (xaddrs u) \<subseteq> set (xaddrs t)
     \<and> (\<forall>s' v. xrep s' par' pv' nx' v \<longrightarrow> xlabel v = xlabel u \<longrightarrow> (\<forall>b \<in> set (xaddrs t) - set (xaddrs u). s' b = s b)
          \<longrightarrow> xrep s' par pv nx (xreplace (xlabel u) v t))
     \<and> (\<forall>v. distinct (xaddrs v) \<longrightarrow> set (xaddrs v) \<inter> (set (xaddrs t) - set (xaddrs u)) = {} \<longrightarrow>
          distinct (xaddrs (xreplace (xlabel u) v t))
          \<and> set (xaddrs (xreplace (xlabel u) v t)) = (set (xaddrs t) - set (xaddrs u)) \<union> set (xaddrs v))"

lemma focused_root:
  assumes "xrep s par pv nx t" "distinct (xaddrs t)"
  shows "focused s par pv nx t par pv nx t"
proof -
  have "xreplace (xlabel t) v t = v" for v by (cases t) simp_all
  then show ?thesis using assms by (simp add: focused_def)
qed

lemma focused_kid:
  assumes rep: "xrep s par pv nx (XElem p g (as @ c # bs))" and d: "distinct (xaddrs (XElem p g (as @ c # bs)))"
    and f: "focused s (Some p) (link_prev None as) (link_next None bs) c par' pv' nx' u"
  shows "focused s par pv nx (XElem p g (as @ c # bs)) par' pv' nx' u"
proof -
  let ?t = "XElem p g (as @ c # bs)"
  let ?A = "set (xaddrs_list as)" and ?B = "set (xaddrs_list bs)" and ?C = "set (xaddrs c)" and ?U = "set (xaddrs u)"
  have u: "xrep s par' pv' nx' u" "distinct (xaddrs u)" "?U \<subseteq> ?C"
    and rp: "\<And>s' v. xrep s' par' pv' nx' v \<Longrightarrow> xlabel v = xlabel u \<Longrightarrow> (\<And>b. b \<in> ?C \<Longrightarrow> b \<notin> ?U \<Longrightarrow> s' b = s b)
      \<Longrightarrow> xrep s' (Some p) (link_prev None as) (link_next None bs) (xreplace (xlabel u) v c)"
    and da: "\<And>v. distinct (xaddrs v) \<Longrightarrow> set (xaddrs v) \<inter> (?C - ?U) = {} \<Longrightarrow> distinct (xaddrs (xreplace (xlabel u) v c))
      \<and> set (xaddrs (xreplace (xlabel u) v c)) = (?C - ?U) \<union> set (xaddrs v)"
    using f unfolding focused_def by simp_all
  have off: "p \<notin> ?C" "p \<notin> ?A" "p \<notin> ?B" "?C \<inter> ?A = {}" "?C \<inter> ?B = {}" "?A \<inter> ?B = {}"
    and das: "distinct (xaddrs_list as)" "distinct (xaddrs_list bs)" using d by auto
  have lu: "xlabel u \<in> ?C" using u(3) by auto
  have same: "map (xreplace (xlabel u) v) as = as" "map (xreplace (xlabel u) v) bs = bs" "xlabel u \<noteq> p" for v
    using lu off by (auto intro!: map_idI xreplace_id)
  have addrs: "set (xaddrs ?t) = insert p (?A \<union> ?C \<union> ?B)" by auto
  have repl: "xreplace (xlabel u) v ?t = XElem p g (as @ xreplace (xlabel u) v c # bs)" for v
    using same by simp
  have "xrep s' par pv nx (xreplace (xlabel u) v ?t)"
    if v: "xrep s' par' pv' nx' v" "xlabel v = xlabel u" and keep: "\<forall>b \<in> set (xaddrs ?t) - ?U. s' b = s b" for s' v
  proof -
    have k: "s' b = s b" if "b = p \<or> b \<in> ?A \<or> b \<in> ?B \<or> b \<in> ?C \<and> b \<notin> ?U" for b
    proof (rule keep [rule_format])
      show "b \<in> set (xaddrs ?t) - ?U" using that off u(3) unfolding addrs by blast
    qed
    have "xrep s' (Some p) (link_prev None as) (link_next None bs) (xreplace (xlabel u) v c)"
    proof (rule rp [OF v])
      fix b assume "b \<in> ?C" "b \<notin> ?U"
      then show "s' b = s b" by (intro k) simp
    qed
    moreover have "xreps s' (Some p) None (Some (xlabel c)) as"
    proof (rule xreps_frame [of s])
      show "s' b = s b" if "b \<in> ?A" for b using that by (intro k) simp
    qed (use rep in simp)
    moreover have "xreps s' (Some p) (Some (xlabel c)) None bs"
    proof (rule xreps_frame [of s])
      show "s' b = s b" if "b \<in> ?B" for b using that by (intro k) simp
    qed (use rep in simp)
    moreover have "s' p = s p" by (intro k) simp
    moreover have "xlabel (xreplace (xlabel u) v c) = xlabel c" by (rule xlabel_xreplace [OF v(2)])
    ultimately show ?thesis unfolding repl using rep by simp
  qed
  moreover have "distinct (xaddrs (xreplace (xlabel u) v ?t))
      \<and> set (xaddrs (xreplace (xlabel u) v ?t)) = (set (xaddrs ?t) - ?U) \<union> set (xaddrs v)"
    if v: "distinct (xaddrs v)" "set (xaddrs v) \<inter> (set (xaddrs ?t) - ?U) = {}" for v
  proof -
    have v0: "set (xaddrs v) \<inter> (insert p (?A \<union> ?C \<union> ?B) - ?U) = {}" using v(2) addrs by simp
    have "set (xaddrs v) \<inter> (?C - ?U) = {}" using v0 by blast
    have out: "p \<notin> set (xaddrs v)" "set (xaddrs v) \<inter> ?A = {}" "set (xaddrs v) \<inter> ?B = {}"
      using v0 off u(3) by blast+
    note \<open>set (xaddrs v) \<inter> (?C - ?U) = {}\<close>
    from da [OF v(1) this] have c: "distinct (xaddrs (xreplace (xlabel u) v c))"
      "set (xaddrs (xreplace (xlabel u) v c)) = (?C - ?U) \<union> set (xaddrs v)" by simp_all
    let ?R = "xaddrs (xreplace (xlabel u) v c)"
    have R: "p \<notin> set ?R" "set ?R \<inter> ?A = {}" "set ?R \<inter> ?B = {}" unfolding c(2) using out off by blast+
    have "distinct (xaddrs (XElem p g (as @ xreplace (xlabel u) v c # bs)))" using R c(1) off das by auto
    moreover have "set (xaddrs (XElem p g (as @ xreplace (xlabel u) v c # bs))) = insert p (?A \<union> set ?R \<union> ?B)" by auto
    moreover have "insert p (?A \<union> set ?R \<union> ?B) = (insert p (?A \<union> ?C \<union> ?B) - ?U) \<union> set (xaddrs v)"
      unfolding c(2) using off u(3) by blast
    ultimately show ?thesis unfolding repl addrs by simp
  qed
  ultimately show ?thesis using u unfolding focused_def by auto
qed

lemma focus:
  assumes "a \<in> set (xaddrs t)" "xrep s par pv nx t" "distinct (xaddrs t)"
  shows "\<exists>par' pv' nx' u. xlabel u = a \<and> focused s par pv nx t par' pv' nx' u"
  using assms
proof (induction t arbitrary: par pv nx rule: xsubtrees.induct)
  case (1 p g ks)
  show ?case
  proof (cases "a = p")
    case True
    then show ?thesis using focused_root [OF "1.prems"(2,3)] by (metis xtree.sel(1))
  next
    case False
    then obtain c where c: "c \<in> set ks" "a \<in> set (xaddrs c)" using "1.prems"(1) by auto
    then obtain as bs where ks: "ks = as @ c # bs" by (meson split_list)
    have rc: "xrep s (Some p) (link_prev None as) (link_next None bs) c" "distinct (xaddrs c)"
      using "1.prems"(2,3) ks by simp_all
    from "1.IH" [OF c rc] obtain par' pv' nx' u where
      "xlabel u = a" "focused s (Some p) (link_prev None as) (link_next None bs) c par' pv' nx' u" by blast
    with focused_kid "1.prems"(2,3) show ?thesis unfolding ks by blast
  qed
next
  case (2 p w)
  then show ?case using focused_root [OF "2.prems"(2,3)] by (metis empty_iff empty_set set_ConsD xaddrs.simps(2) xtree.sel(2))
qed

section \<open>Forests\<close>

abbreviation xaddrs_forest :: "nat xtree list \<Rightarrow> nat list" where
  "xaddrs_forest F \<equiv> concat (map xaddrs F)"

definition xforest :: "xstore \<Rightarrow> nat xtree list \<Rightarrow> bool" where
  "xforest s F \<longleftrightarrow> (\<forall>t \<in> set F. xrep s None None None t) \<and> distinct (xaddrs_forest F) \<and> dom s = set (xaddrs_forest F)"

lemma xforest_finite: "xforest s F \<Longrightarrow> finite (dom s)"
  by (simp add: xforest_def)

lemma xforest_perm: "xforest s (as @ t # bs) \<longleftrightarrow> xforest s (t # as @ bs)"
  unfolding xforest_def by auto

text \<open>A document joins; a document is changed or leaves.\<close>

lemma xforest_add:
  assumes "xforest s F" "xml_doc s' t" "set (xaddrs t) \<inter> dom s = {}" "dom s' = dom s \<union> set (xaddrs t)" "\<forall>a \<in> dom s. s' a = s a"
  shows "xforest s' (t # F)"
proof -
  have F: "\<forall>u \<in> set F. xrep s None None None u" "distinct (xaddrs_forest F)" "dom s = set (xaddrs_forest F)"
    using assms(1) by (simp_all add: xforest_def)
  have "xrep s' None None None u" if "u \<in> set F" for u
  proof (rule xrep_frame [of s])
    show "xrep s None None None u" using F(1) that by blast
    show "s' a = s a" if "a \<in> set (xaddrs u)" for a
      using that \<open>u \<in> set F\<close> F(3) assms(5) by auto
  qed
  then show ?thesis using assms(2-4) F(2,3) by (auto simp: xforest_def xml_doc_def)
qed

lemma xforest_change:
  assumes "xforest s (t # F)" "xrep s' None None None t'" "distinct (xaddrs t')" "set (xaddrs t') \<inter> set (xaddrs_forest F) = {}"
    and "dom s' = set (xaddrs t') \<union> set (xaddrs_forest F)" "\<forall>a. a \<notin> set (xaddrs t) \<union> set (xaddrs t') \<longrightarrow> s' a = s a"
  shows "xforest s' (t' # F)"
proof -
  have F: "\<forall>u \<in> set F. xrep s None None None u" "distinct (xaddrs_forest F)" "set (xaddrs t) \<inter> set (xaddrs_forest F) = {}"
    using assms(1) by (auto simp: xforest_def)
  have "xrep s' None None None u" if u: "u \<in> set F" for u
  proof (rule xrep_frame [of s])
    show "xrep s None None None u" using F(1) u by blast
    show "s' a = s a" if "a \<in> set (xaddrs u)" for a
    proof -
      have "a \<in> set (xaddrs_forest F)" using that u by auto
      then show ?thesis using assms(4,6) F(3) by blast
    qed
  qed
  then show ?thesis using assms(2-5) F(2) by (simp add: xforest_def)
qed

text \<open>The document and the subtree of a node.\<close>

lemma xforest_node:
  assumes "xforest s F" "a \<in> dom s"
  obtains as t bs par pv nx u where "F = as @ t # bs" "a \<in> set (xaddrs t)" "xlabel u = a"
    "focused s None None None t par pv nx u"
proof -
  from assms obtain t where t: "t \<in> set F" "a \<in> set (xaddrs t)" by (auto simp: xforest_def)
  then obtain as bs where F: "F = as @ t # bs" by (meson split_list)
  have "xrep s None None None t" "distinct (xaddrs t)" using assms(1) F by (auto simp: xforest_def)
  from focus [OF t(2) this] obtain par pv nx u where "xlabel u = a" "focused s None None None t par pv nx u" by blast
  then show thesis using that F t(2) by blast
qed

text \<open>A node with no parent is a root, and one below another is in its tree.\<close>

lemma parent_in_tree:
  "xrep s par pv nx t \<Longrightarrow> a \<in> set (xaddrs t) \<Longrightarrow> s a = Some n \<Longrightarrow>
     a = xlabel t \<and> xn_parent n = par \<or> (\<exists>p. xn_parent n = Some p \<and> p \<in> set (xaddrs t))"
proof (induction t arbitrary: par pv nx rule: xsubtrees.induct)
  case (1 p g ks)
  show ?case
  proof (cases "a = p")
    case True
    then show ?thesis using "1.prems" by (auto simp: elem_node_def)
  next
    case False
    then obtain c where c: "c \<in> set ks" "a \<in> set (xaddrs c)" using "1.prems"(2) by auto
    then obtain as bs where ks: "ks = as @ c # bs" by (meson split_list)
    have "xrep s (Some p) (link_prev None as) (link_next None bs) c" using "1.prems"(1) ks by simp
    from "1.IH" [OF c(1) this c(2) "1.prems"(3)] c(1) show ?thesis by auto
  qed
qed (auto simp: text_node_def)

definition xn_root :: "xml_node \<Rightarrow> bool" where
  "xn_root n \<longleftrightarrow> xn_parent n = None"

lemma xforest_root:
  assumes "xforest s F" "s a = Some n" "xn_root n"
  shows "\<exists>as t bs. F = as @ t # bs \<and> xlabel t = a"
proof -
  have "a \<in> dom s" using assms(2) by blast
  with assms(1) obtain t where t: "t \<in> set F" "a \<in> set (xaddrs t)" "xrep s None None None t"
    by (auto simp: xforest_def)
  from parent_in_tree [OF t(3,2) assms(2)] assms(3) have "xlabel t = a" by (simp add: xn_root_def)
  then show ?thesis using t(1) split_list by metis
qed

text \<open>\<open>xml_below s c p\<close>: following the parents from \<open>p\<close> one comes to \<open>c\<close>.\<close>

inductive xml_below :: "xstore \<Rightarrow> nat \<Rightarrow> nat \<Rightarrow> bool" for s c where
  below_refl: "xml_below s c c"
| below_parent: "s p = Some n \<Longrightarrow> xn_parent n = Some q \<Longrightarrow> xml_below s c q \<Longrightarrow> xml_below s c p"

lemma below_trans: "xml_below s b a \<Longrightarrow> xml_below s c b \<Longrightarrow> xml_below s c a"
  by (induction rule: xml_below.induct) (auto intro: below_parent)

lemma in_tree_below: "xrep s par pv nx t \<Longrightarrow> a \<in> set (xaddrs t) \<Longrightarrow> xml_below s (xlabel t) a"
proof (induction t arbitrary: a par pv nx rule: xsubtrees.induct)
  case (1 p g ks)
  show ?case
  proof (cases "a = p")
    case True
    then show ?thesis by (simp add: below_refl)
  next
    case False
    then obtain c where c: "c \<in> set ks" "a \<in> set (xaddrs c)" using "1.prems"(2) by auto
    then obtain as bs where ks: "ks = as @ c # bs" by (meson split_list)
    have rc: "xrep s (Some p) (link_prev None as) (link_next None bs) c" using "1.prems"(1) ks by simp
    obtain n where n: "s (xlabel c) = Some n" "xn_parent n = Some p" using xrep_root [OF rc] by metis
    have "xml_below s p (xlabel c)" using n by (intro below_parent [of s "xlabel c" n p] below_refl)
    moreover have "xml_below s (xlabel c) a" by (rule "1.IH" [OF c(1) rc c(2)])
    ultimately show ?thesis using below_trans by simp
  qed
qed (simp add: below_refl)

section \<open>Parsing any document\<close>

text \<open>The parser of the store fails exactly when the parser of trees does.\<close>

lemma parse_none:
  assumes "xml_fresh new"
  shows "elem_at s par pv nx r g ds \<Longrightarrow> xml_body cur (ds \<noteq> []) = None \<Longrightarrow> xml_parse_nodes new cur (Some r) s = None"
proof (induction "length cur" arbitrary: cur s par pv nx r g ds rule: less_induct)
  case less
  note at = less.prems(1) and body = less.prems(2)
  note unf = xml_parse_nodes.simps [of new cur "Some r" s] and bunf = xml_body.simps [of cur "ds \<noteq> []"]
  have ne: "cur \<noteq> []" using body bunf by auto
  have kid: "\<exists>s2. xml_add_child s1 r p = Some s2 \<and> grew s par pv nx r g ds [XElem p h []] s2
      \<and> elem_at s2 (Some r) (link_prev None ds) None p h []" if "new_elem new h s = (p, s1)" for h p s1
    using grew_new_element [OF assms at that] grew_elem_at by (fastforce simp: elem_at_def)
  show ?case
  proof (cases "xml_next cur")
    case (Skip_tag rest)
    have "xml_body rest (ds \<noteq> []) = None" using Skip_tag body bunf ne by simp
    from less.hyps [OF xml_next_length(2) [OF Skip_tag] at this] show ?thesis using Skip_tag ne unf by simp
  next
    case (Empty_elem h rest)
    obtain p s1 where new: "new_elem new h s = (p, s1)" by fastforce
    from kid [OF new] obtain s2 where s2: "xml_add_child s1 r p = Some s2" "grew s par pv nx r g ds [XElem p h []] s2" by blast
    have "xml_body rest (ds @ [XElem p h []] \<noteq> []) = None" using Empty_elem body bunf ne by (simp split: bind_splits)
    from less.hyps [OF xml_next_length(1) [OF Empty_elem] grew_elem_at [OF s2(2)] this] show ?thesis
      using Empty_elem ne unf new s2(1) by simp
  next
    case (Full_elem h bd after)
    obtain p s1 where new: "new_elem new h s = (p, s1)" by fastforce
    from kid [OF new] obtain s2 where s2: "xml_add_child s1 r p = Some s2" "grew s par pv nx r g ds [XElem p h []] s2"
      "elem_at s2 (Some r) (link_prev None ds) None p h []" by blast
    have len: "length bd < length cur" "\<And>rest. after = Some rest \<Longrightarrow> length rest < length cur"
      using xml_next_length(3) [OF Full_elem] by auto
    show ?thesis
    proof (cases "xml_body bd False")
      case None
      then have "xml_body bd (([] :: nat xtree list) \<noteq> []) = None" by simp
      from less.hyps [OF len(1) s2(3) this] show ?thesis using Full_elem ne unf new s2(1) by simp
    next
      case (Some es)
      then have "xml_body bd (([] :: nat xtree list) \<noteq> []) = Some es" by simp
      from parse_refines [OF assms s2(3) this] obtain ns s3 where
        s3: "xml_parse_nodes new bd (Some p) s2 = Some (Some p, s3)" "grew s2 (Some r) (link_prev None ds) None p h [] ns s3"
        unfolding parsed_def by blast
      show ?thesis
      proof (cases after)
        case None
        then show ?thesis using Full_elem ne unf new s2(1) s3(1) by simp
      next
        case rest: (Some rest)
        have "xml_body rest (ds @ [XElem p h ns] \<noteq> []) = None"
          using Full_elem body bunf ne Some rest by (simp split: bind_splits)
        from less.hyps [OF len(2) [OF rest] grew_elem_at [OF grew_inside [OF s2(2) s3(2)]] this] show ?thesis
          using Full_elem ne unf new s2(1) s3(1) rest by simp
      qed
    qed
  qed (use ne unf body bunf in simp_all)
qed

lemma parse_any:
  assumes "xml_fresh new" "elem_at s par pv nx r g ds" "xml_parse_nodes new cur (Some r) s = Some (x, s')"
  shows "x = Some r \<and> (\<exists>ns. grew s par pv nx r g ds ns s')"
proof (cases "xml_body cur (ds \<noteq> [])")
  case None
  from parse_none [OF assms(1,2) None] assms(3) show ?thesis by simp
next
  case (Some es)
  from parse_refines [OF assms(1,2) Some] assms(3) show ?thesis unfolding parsed_def by auto
qed

text \<open>The result of a parser: no node, or the root of a new document.\<close>

definition new_doc :: "xstore \<Rightarrow> nat option \<Rightarrow> xstore \<Rightarrow> bool" where
  "new_doc s x s' \<longleftrightarrow> x = None \<and> s' = s
     \<or> (\<exists>t. x = Some (xlabel t) \<and> xml_doc s' t \<and> set (xaddrs t) \<inter> dom s = {} \<and> dom s' = dom s \<union> set (xaddrs t)
          \<and> (\<forall>a \<in> dom s. s' a = s a))"

lemma grew_new_doc:
  assumes "finite (dom s)" "p \<notin> dom s" "grew (s(p \<mapsto> elem_node g None None None None)) None None None p g [] ns s'"
  shows "new_doc s (Some p) s'"
proof -
  have g: "elem_at s' None None None p g ns" "set (xaddrs_list ns) \<inter> insert p (dom s) = {}"
    "dom s' = insert p (dom s) \<union> set (xaddrs_list ns)"
    and keep: "\<And>a. a \<noteq> p \<Longrightarrow> a \<notin> set (xaddrs_list ns) \<Longrightarrow> s' a = s a"
    using assms(3) unfolding grew_def by auto
  have "\<forall>a \<in> dom s. s' a = s a"
  proof
    fix a assume "a \<in> dom s"
    then show "s' a = s a" using g(2) assms(2) by (intro keep) blast+
  qed
  moreover have "xml_doc s' (XElem p g ns)" using g(1) by (simp add: elem_at_def xml_doc_def)
  moreover have "set (xaddrs (XElem p g ns)) \<inter> dom s = {}" "dom s' = dom s \<union> set (xaddrs (XElem p g ns))"
    using g(2,3) assms(2) by auto
  ultimately show ?thesis unfolding new_doc_def by (metis xtree.sel(1))
qed

lemma new_elem_at:
  assumes "xml_fresh new" "finite (dom s)" "new_elem new g s = (p, s1)"
  shows "p \<notin> dom s" "s1 = s(p \<mapsto> elem_node g None None None None)" "elem_at s1 None None None p g []"
  using xml_new_element_rep [OF assms(1,2) assms(3) [unfolded new_elem_def]] assms(2) by (simp_all add: elem_at_def)

lemma parse_root_any:
  assumes "xml_fresh new" "finite (dom s)"
  shows "xml_parse_nodes new cur None s = Some (x, s') \<Longrightarrow> new_doc s x s'"
proof (induction "length cur" arbitrary: cur rule: less_induct)
  case less
  note run = less.prems [unfolded xml_parse_nodes.simps [of new cur None s]]
  show ?case
  proof (cases "cur = []")
    case True
    then show ?thesis using run by (simp add: new_doc_def)
  next
    case ne: False
    show ?thesis
    proof (cases "xml_next cur")
      case No_tag
      then show ?thesis using run ne by (simp add: new_doc_def parse_text_def)
    next
      case Bad_tag
      then show ?thesis using run ne by simp
    next
      case (Skip_tag rest)
      then show ?thesis using less.hyps [OF xml_next_length(2)] run ne by simp
    next
      case (Empty_elem g rest)
      obtain p s1 where new: "new_elem new g s = (p, s1)" by fastforce
      note n = new_elem_at [OF assms new]
      have "x = Some p" "s' = s1" using run ne Empty_elem new by simp_all
      then show ?thesis using grew_new_doc [OF assms(2) n(1)] grew_refl [OF n(3)] n(2) by blast
    next
      case (Full_elem g bd after)
      obtain p s1 where new: "new_elem new g s = (p, s1)" by fastforce
      note n = new_elem_at [OF assms new]
      obtain y where y: "xml_parse_nodes new bd (Some p) s1 = Some (y, s')" "x = Some p"
        using run ne Full_elem new by (auto split: bind_splits)
      from parse_any [OF assms(1) n(3) y(1)] obtain ns where "grew s1 None None None p g [] ns s'" by blast
      then show ?thesis using grew_new_doc [OF assms(2) n(1)] n(2) y(2) by blast
    qed
  qed
qed

lemma xml_parse_any:
  assumes "xml_fresh new" "finite (dom s)" "xml_parse new doc s = Some (x, s')"
  shows "new_doc s x s'"
  using assms(3) parse_root_any [OF assms(1,2)] by (auto simp: xml_parse_def xml_parse_doc_into_def split: bind_splits)

lemma xml_parse_doc_any:
  assumes "xml_fresh new" "finite (dom s)" "xml_parse_doc new doc pre name uri s = Some (x, s')"
  shows "new_doc s x s'"
proof -
  obtain p s1 where new: "xml_new_element new pre name uri s = (p, s1)" by fastforce
  then have "new_elem new (mk_tag pre name uri (xml_ns_attr pre uri)) s = (p, s1)" by (simp add: xml_new_element_def new_elem_def)
  note n = new_elem_at [OF assms(1,2) this]
  have full: "new_doc s (Some p) s2" if "xml_parse_doc_into new body (Some p) s1 = Some (y, s2)" for body y s2
    using parse_any [OF assms(1) n(3) that [unfolded xml_parse_doc_into_def]] grew_new_doc [OF assms(2) n(1)] n(2) by blast
  have empty: "new_doc s (Some p) s1" using grew_new_doc [OF assms(2) n(1)] grew_refl [OF n(3)] n(2) by blast
  have none: "new_doc s None s" by (simp add: new_doc_def)
  show ?thesis
    using assms(3) full empty none new unfolding xml_parse_doc_def Let_def
    by (auto split: option.splits bind_splits)
qed

section \<open>The operations on a forest\<close>

lemma xforest_rest:
  assumes "\<forall>u \<in> set F. xrep s None None None u" "distinct (xaddrs_forest F)" "\<forall>a \<in> set (xaddrs_forest F). s' a = s a"
    and "xrep s' None None None t'" "distinct (xaddrs t')" "set (xaddrs t') \<inter> set (xaddrs_forest F) = {}"
      "dom s' = set (xaddrs t') \<union> set (xaddrs_forest F)"
  shows "xforest s' (t' # F)"
proof -
  have "xrep s' None None None u" if "u \<in> set F" for u
  proof (rule xrep_frame [of s])
    show "xrep s None None None u" using assms(1) that by blast
    show "s' a = s a" if "a \<in> set (xaddrs u)" for a using that \<open>u \<in> set F\<close> assms(3) by auto
  qed
  then show ?thesis using assms(2,4-7) by (simp add: xforest_def)
qed

lemma xforest_new:
  assumes "xforest s F" "new_doc s x s'"
  shows "\<exists>F'. xforest s' F'"
  using assms xforest_add [OF assms(1)] unfolding new_doc_def by blast

text \<open>A change inside one subtree, which may shrink.\<close>

lemma xforest_local:
  assumes F: "xforest s (t # G)" and f: "focused s None None None t par pv nx u"
    and v: "xrep s' par pv nx v" "xlabel v = xlabel u" "distinct (xaddrs v)" "set (xaddrs v) \<subseteq> set (xaddrs u)"
    and s': "\<forall>a. a \<notin> set (xaddrs u) \<longrightarrow> s' a = s a" "dom s' = dom s - (set (xaddrs u) - set (xaddrs v))"
  shows "\<exists>F'. xforest s' F'"
proof -
  let ?t = "xreplace (xlabel u) v t"
  have u: "set (xaddrs u) \<subseteq> set (xaddrs t)"
    and rep: "xrep s' None None None ?t" using f v(1,2) s'(1) unfolding focused_def by auto
  have "set (xaddrs v) \<inter> (set (xaddrs t) - set (xaddrs u)) = {}" using v(4) by blast
  then have a: "distinct (xaddrs ?t)" "set (xaddrs ?t) = (set (xaddrs t) - set (xaddrs u)) \<union> set (xaddrs v)"
    using f v(3) unfolding focused_def by auto
  have G: "\<forall>w \<in> set G. xrep s None None None w" "distinct (xaddrs_forest G)"
    and tG: "set (xaddrs t) \<inter> set (xaddrs_forest G) = {}" and dom: "dom s = set (xaddrs t) \<union> set (xaddrs_forest G)"
    using F by (auto simp: xforest_def)
  have "xforest s' (?t # G)"
  proof (rule xforest_rest [OF G _ rep a(1)])
    show "\<forall>a \<in> set (xaddrs_forest G). s' a = s a" using tG u s'(1) by blast
    show "set (xaddrs ?t) \<inter> set (xaddrs_forest G) = {}" unfolding a(2) using tG u v(4) by blast
    show "dom s' = set (xaddrs ?t) \<union> set (xaddrs_forest G)" unfolding a(2) s'(2) dom using tG u v(4) by blast
  qed
  then show ?thesis by blast
qed

lemma xforest_front:
  assumes "xforest s F" "a \<in> dom s"
  obtains t G par pv nx u where "xforest s (t # G)" "a \<in> set (xaddrs t)" "xlabel u = a" "focused s None None None t par pv nx u"
proof -
  from xforest_node [OF assms] obtain as t bs par pv nx u where
    "F = as @ t # bs" "a \<in> set (xaddrs t)" "xlabel u = a" "focused s None None None t par pv nx u" .
  then show thesis using that assms(1) xforest_perm by blast
qed

lemma xforest_size:
  assumes "xforest s F" "t \<in> set F"
  shows "length (xaddrs t) \<le> card (dom s)"
proof -
  have "distinct (xaddrs t)" "set (xaddrs t) \<subseteq> dom s" "finite (dom s)"
    using assms by (auto simp: xforest_def dest: split_list)
  then show ?thesis by (metis card_mono distinct_card)
qed

text \<open>Setting the text or an attribute, and clearing.\<close>

lemma xforest_set_text:
  assumes "xforest s F" "p \<in> dom s"
  shows "\<exists>s' F'. xml_set_text s p w = Some s' \<and> xforest s' F'"
proof -
  from xforest_front [OF assms] obtain t G par pv nx u where
    F: "xforest s (t # G)" and u: "xlabel u = p" and f: "focused s None None None t par pv nx u" by metis
  have ru: "xrep s par pv nx u" using f by (simp add: focused_def)
  show ?thesis
  proof (cases u)
    case (XElem a g ks)
    then have "xml_set_text s p w = Some s" using ru u by (simp add: xml_set_text_def)
    then show ?thesis using assms(1) by blast
  next
    case (XText a v)
    let ?s' = "s(p \<mapsto> text_node w par pv nx)"
    have "xml_set_text s p w = Some ?s'"
      using ru u XText by (simp add: xml_set_text_def text_node_def xml_zero_def xml_is_text_def)
    moreover have "\<exists>F'. xforest ?s' F'"
      by (rule xforest_local [OF F f, of _ "XText a w"]) (use u XText assms(2) in auto)
    ultimately show ?thesis by blast
  qed
qed

lemma xml_set_attribute_node:
  assumes "xml_set_attribute (elem_node g par c pv nx) a w = Some n"
  obtains h where "n = elem_node h par c pv nx"
proof -
  from assms obtain b where "n = (if (case tg_prefix g of Some p \<Rightarrow> ''xmlns:'' @ p | None \<Rightarrow> ''xmlns'') = a
      then (elem_node g par c pv nx)\<lparr>xn_uri := Some w\<rparr> else elem_node g par c pv nx)\<lparr>xn_attr := Some b\<rparr>"
    by (auto simp: xml_set_attribute_def Let_def elem_node_def split: option.splits)
  then have "n = elem_node (g\<lparr>tg_uri := (if (case tg_prefix g of Some p \<Rightarrow> ''xmlns:'' @ p | None \<Rightarrow> ''xmlns'') = a
      then Some w else tg_uri g), tg_attr := Some b\<rparr>) par c pv nx"
    by (simp add: elem_node_def)
  then show thesis by (rule that)
qed

lemma xforest_set_attribute:
  assumes "xforest s F" "s p = Some n" "xml_is_element n" "xml_set_attribute n a w = Some n'"
  shows "\<exists>F'. xforest (s(p \<mapsto> n')) F'"
proof -
  have p: "p \<in> dom s" using assms(2) by blast
  from xforest_front [OF assms(1) p] obtain t G par pv nx u where
    F: "xforest s (t # G)" and u: "xlabel u = p" and f: "focused s None None None t par pv nx u" by metis
  have ru: "xrep s par pv nx u" "distinct (xaddrs u)" using f by (simp_all add: focused_def)
  obtain g ks where e: "u = XElem p g ks" "n = elem_node g par (link_next None ks) pv nx"
    using ru u assms(2,3) by (cases u) auto
  from xml_set_attribute_node assms(4) obtain h where n': "n' = elem_node h par (link_next None ks) pv nx" unfolding e(2) by blast
  have "xreps (s(p \<mapsto> n')) (Some p) None None ks"
    by (rule xreps_frame [of s]) (use ru e(1) in auto)
  then show ?thesis
    by (intro xforest_local [OF F f, of _ "XElem p h ks"]) (use ru e(1) n' p in auto)
qed

lemma xforest_clear:
  assumes "xforest s F" "p \<in> dom s"
  shows "\<exists>s' F'. xml_clear_child (2 * card (dom s) + 1) s p = Some s' \<and> xforest s' F'"
proof -
  from xforest_front [OF assms] obtain t G par pv nx u where
    F: "xforest s (t # G)" and u: "xlabel u = p" and f: "focused s None None None t par pv nx u" by metis
  have ru: "xrep s par pv nx u" "distinct (xaddrs u)" "set (xaddrs u) \<subseteq> set (xaddrs t)" using f by (simp_all add: focused_def)
  show ?thesis
  proof (cases u)
    case (XText a w)
    then have "xml_clear_child (2 * card (dom s) + 1) s p = Some s" using ru u by simp
    then show ?thesis using assms(1) by blast
  next
    case (XElem a g ks)
    have "length (xaddrs u) \<le> length (xaddrs t)"
      using ru(2,3) by (metis card_mono distinct_card finite_set le_trans card_length)
    then have "2 * length (xaddrs_list ks) < 2 * card (dom s) + 1"
      using xforest_size [OF F, of t] XElem by simp
    then have run: "xml_clear_child (2 * card (dom s) + 1) s p
      = Some ((s |` (- set (xaddrs_list ks)))(p \<mapsto> elem_node g par None pv nx))"
      using clear_rep [of s p _ ks "2 * card (dom s) + 1"] ru u XElem by simp
    moreover have "\<exists>F'. xforest ((s |` (- set (xaddrs_list ks)))(p \<mapsto> elem_node g par None pv nx)) F'"
    proof (rule xforest_local [OF F f, of _ "XElem p g []"])
      have ap: "a = p" "p \<notin> set (xaddrs_list ks)" using ru(2) u XElem by simp_all
      then have "set (xaddrs u) - set (xaddrs (XElem p g [])) = set (xaddrs_list ks)" using XElem by auto
      then show "dom ((s |` (- set (xaddrs_list ks)))(p \<mapsto> elem_node g par None pv nx))
          = dom s - (set (xaddrs u) - set (xaddrs (XElem p g [])))"
        using ap(2) assms(2) by auto
    qed (use u XElem in auto)
    ultimately show ?thesis by blast
  qed
qed

text \<open>Attaching a root to a node outside its tree.\<close>

lemma xml_add_child_node:
  assumes "xrep s par pv nx u" "xrep s None None None t" "distinct (xaddrs u @ xaddrs t)"
  shows "\<exists>s' v. xml_add_child s (xlabel u) (xlabel t) = Some s' \<and> dom s' = dom s
    \<and> (s' = s \<or> xrep s' par pv nx v \<and> xlabel v = xlabel u \<and> distinct (xaddrs v)
        \<and> set (xaddrs v) = set (xaddrs u) \<union> set (xaddrs t) \<and> (\<forall>a. a \<notin> set (xaddrs v) \<longrightarrow> s' a = s a))"
proof (cases u)
  case (XElem p g ks)
  from xml_add_child_rep [of s par pv nx p g ks t] assms XElem obtain s' where s': "xml_add_child s p (xlabel t) = Some s'"
    "xrep s' par pv nx (XElem p g (ks @ [t]))" "dom s' = dom s"
    "\<forall>a. a \<notin> set (xaddrs (XElem p g ks)) \<union> set (xaddrs t) \<longrightarrow> s' a = s a" by blast
  have "set (xaddrs (XElem p g (ks @ [t]))) = set (xaddrs u) \<union> set (xaddrs t)" "distinct (xaddrs (XElem p g (ks @ [t])))"
    using assms(3) XElem by auto
  then show ?thesis using s' XElem by (intro exI [of _ s'] exI [of _ "XElem p g (ks @ [t])"]) auto
next
  case (XText p w)
  then show ?thesis using assms(1) by (auto simp: xml_add_child_def)
qed

lemma xforest_add_child:
  assumes F: "xforest s F" and p: "p \<in> dom s" and c: "s c = Some m" "xn_root m" and b: "\<not> xml_below s c p"
  shows "\<exists>s' F'. xml_add_child s p c = Some s' \<and> xforest s' F'"
proof -
  from xforest_root [OF F c] obtain as tc bs where tc: "F = as @ tc # bs" "xlabel tc = c" by blast
  then have F1: "xforest s (tc # as @ bs)" using F xforest_perm by simp
  have "xrep s None None None tc" using F1 by (simp add: xforest_def)
  then have "p \<notin> set (xaddrs tc)" using in_tree_below tc(2) b by blast
  then obtain t where t: "t \<in> set (as @ bs)" "p \<in> set (xaddrs t)" using p F1 by (auto simp: xforest_def)
  then obtain cs ds where G: "as @ bs = cs @ t # ds" by (meson split_list)
  have F2: "xforest s (t # tc # cs @ ds)" using F1 xforest_perm [of s "tc # cs" t ds] unfolding G by simp
  have rt: "xrep s None None None t" "xrep s None None None tc" "distinct (xaddrs t @ xaddrs tc)"
    and rest: "\<forall>u \<in> set (cs @ ds). xrep s None None None u" "distinct (xaddrs_forest (cs @ ds))"
    and off: "(set (xaddrs t) \<union> set (xaddrs tc)) \<inter> set (xaddrs_forest (cs @ ds)) = {}"
    and dom: "dom s = set (xaddrs t) \<union> set (xaddrs tc) \<union> set (xaddrs_forest (cs @ ds))"
    using F2 unfolding xforest_def by auto
  from focus [OF t(2) rt(1)] rt(3) obtain par pv nx u where u: "xlabel u = p" "focused s None None None t par pv nx u" by auto
  have fu: "xrep s par pv nx u" "distinct (xaddrs u)" "set (xaddrs u) \<subseteq> set (xaddrs t)" using u(2) by (simp_all add: focused_def)
  have "distinct (xaddrs u @ xaddrs tc)" using fu(2,3) rt(3) by auto
  from xml_add_child_node [OF fu(1) rt(2) this] obtain s' v where run: "xml_add_child s p c = Some s'" "dom s' = dom s"
    and v: "s' = s \<or> xrep s' par pv nx v \<and> xlabel v = p \<and> distinct (xaddrs v)
      \<and> set (xaddrs v) = set (xaddrs u) \<union> set (xaddrs tc) \<and> (\<forall>a. a \<notin> set (xaddrs v) \<longrightarrow> s' a = s a)"
    using u(1) tc(2) by auto
  show ?thesis
  proof (cases "s' = s")
    case True
    then show ?thesis using run F by blast
  next
    case False
    then have v: "xrep s' par pv nx v" "xlabel v = p" "distinct (xaddrs v)"
      "set (xaddrs v) = set (xaddrs u) \<union> set (xaddrs tc)" "\<forall>a. a \<notin> set (xaddrs v) \<longrightarrow> s' a = s a" using v by simp_all
    let ?t = "xreplace p v t"
    have tt: "set (xaddrs t) \<inter> set (xaddrs tc) = {}" using rt(3) by simp
    have "\<forall>b \<in> set (xaddrs t) - set (xaddrs u). s' b = s b" using v(4,5) tt by blast
    then have rep: "xrep s' None None None ?t" using u v(1,2) unfolding focused_def by blast
    have "set (xaddrs v) \<inter> (set (xaddrs t) - set (xaddrs u)) = {}" using v(4) tt by blast
    then have a: "distinct (xaddrs ?t)" "set (xaddrs ?t) = (set (xaddrs t) - set (xaddrs u)) \<union> set (xaddrs v)"
      using u v(3) unfolding focused_def by blast+
    then have a': "set (xaddrs ?t) = set (xaddrs t) \<union> set (xaddrs tc)" using v(4) fu(3) by blast
    have "xforest s' (?t # cs @ ds)"
    proof (rule xforest_rest [OF rest _ rep a(1)])
      show "\<forall>a \<in> set (xaddrs_forest (cs @ ds)). s' a = s a" using off v(4,5) fu(3) by blast
      show "set (xaddrs ?t) \<inter> set (xaddrs_forest (cs @ ds)) = {}" unfolding a' by (rule off)
      show "dom s' = set (xaddrs ?t) \<union> set (xaddrs_forest (cs @ ds))" unfolding a' run(2) dom by blast
    qed
    then show ?thesis using run(1) by blast
  qed
qed

text \<open>Deleting any node, and copying any node.\<close>

lemma xforest_delete:
  assumes F: "xforest s F" and p: "p \<in> dom s"
  shows "\<exists>s' F'. xml_delete_tree (2 * card (dom s)) s p = Some s' \<and> xforest s' F'"
proof -
  from xforest_front [OF F p] obtain t G where F: "xforest s (t # G)" and pt: "p \<in> set (xaddrs t)" by metis
  have t: "xrep s None None None t" "distinct (xaddrs t)" and doc: "xml_doc s t"
    and G: "\<forall>w \<in> set G. xrep s None None None w" "distinct (xaddrs_forest G)"
    and tG: "set (xaddrs t) \<inter> set (xaddrs_forest G) = {}" and dom: "dom s = set (xaddrs t) \<union> set (xaddrs_forest G)"
    using F by (auto simp: xforest_def xml_doc_def)
  have n: "2 * length (xaddrs t) \<le> 2 * card (dom s)" using xforest_size [OF F, of t] by simp
  show ?thesis
  proof (cases "p = xlabel t")
    case True
    have "xml_delete_tree (2 * card (dom s)) s p = Some (s |` (- set (xaddrs t)))"
      using xml_delete_root [OF doc n] True by simp
    moreover have "xforest (s |` (- set (xaddrs t))) G"
      unfolding xforest_def
    proof (intro conjI ballI)
      fix w assume w: "w \<in> set G"
      show "xrep (s |` (- set (xaddrs t))) None None None w"
      proof (rule xrep_frame [of s])
        show "xrep s None None None w" using G(1) w by blast
        fix a assume "a \<in> set (xaddrs w)"
        then have "a \<in> set (xaddrs_forest G)" using w by auto
        then have "a \<notin> set (xaddrs t)" using tG by blast
        then show "(s |` (- set (xaddrs t))) a = s a" by simp
      qed
    next
      show "dom (s |` (- set (xaddrs t))) = set (xaddrs_forest G)" unfolding dom_restrict dom using tG by blast
    qed (rule G(2))
    ultimately show ?thesis by blast
  next
    case False
    then obtain k where k: "k \<in> set (xsubtrees t)" "xlabel k = p" using xsubtree_at [OF pt] by blast
    have ks: "set (xaddrs k) \<subseteq> set (xaddrs t)" by (rule xsubtrees_addrs [OF k(1)])
    have "length (xaddrs k) \<le> length (xaddrs t)" using subtree_length [OF k(1)] .
    then have "2 * length (xaddrs k) \<le> 2 * card (dom s)" using n by simp
    from xml_delete_doc [OF doc k(1) this] k(2) obtain s' where s': "xml_delete_tree (2 * card (dom s)) s p = Some s'"
      "xml_doc s' (xremove p t)" "dom s' = dom s - set (xaddrs k)" "\<forall>a. a \<notin> set (xaddrs t) \<longrightarrow> s' a = s a" by blast
    have rem: "xrep s' None None None (xremove p t)" "distinct (xaddrs (xremove p t))" using s'(2) by (simp_all add: xml_doc_def)
    have a: "set (xaddrs (xremove p t)) = set (xaddrs t) - set (xaddrs k)" using xremove_addrs [OF k(1) t(2)] k(2) by simp
    have "xforest s' (xremove p t # G)"
    proof (rule xforest_rest [OF G _ rem])
      show "\<forall>a \<in> set (xaddrs_forest G). s' a = s a" using tG s'(4) by blast
      show "set (xaddrs (xremove p t)) \<inter> set (xaddrs_forest G) = {}" unfolding a using tG by blast
      show "dom s' = set (xaddrs (xremove p t)) \<union> set (xaddrs_forest G)" unfolding a s'(3) dom using tG ks by blast
    qed
    then show ?thesis using s'(1) by blast
  qed
qed

lemma xforest_copy:
  assumes "xml_fresh new" "xforest s F" "p \<in> dom s"
  shows "\<exists>c s' F'. xml_copy_tree new (3 * card (dom s)) s p = Some (Some c, s') \<and> xforest s' F'"
proof -
  from xforest_front [OF assms(2,3)] obtain t G par pv nx u where
    F: "xforest s (t # G)" and u: "xlabel u = p" and f: "focused s None None None t par pv nx u" by metis
  have ru: "xrep s par pv nx u" "distinct (xaddrs u)" "set (xaddrs u) \<subseteq> set (xaddrs t)" using f by (simp_all add: focused_def)
  have "length (xaddrs u) \<le> length (xaddrs t)"
    using ru(2,3) by (metis card_mono distinct_card finite_set le_trans card_length)
  then have "3 * length (xaddrs u) \<le> 3 * card (dom s)" using xforest_size [OF F, of t] by simp
  from xml_copy_rep [OF assms(1) ru(1) xforest_finite [OF F] this] u obtain s' t' where
    s': "xml_copy_tree new (3 * card (dom s)) s p = Some (Some (xlabel t'), s')" "xml_doc s' t'"
      "set (xaddrs t') \<inter> dom s = {}" "dom s' = dom s \<union> set (xaddrs t')" "\<forall>a \<in> dom s. s' a = s a" by blast
  from xforest_add [OF assms(2) s'(2-5)] s'(1) show ?thesis by blast
qed

section \<open>The clients of the library\<close>

text \<open>
  A step is a call of an operation that returns.  The contract of \<^verbatim>\<open>xml_add_child\<close>: the child is a root,
  and not the tree that the node is in.  Attributes are set on elements.  The walks have fuel for all nodes.
\<close>

inductive xml_step :: "(xstore \<Rightarrow> nat) \<Rightarrow> xstore \<Rightarrow> xstore \<Rightarrow> bool" for new s where
  step_new_element: "xml_new_element new pre name uri s = (p, s') \<Longrightarrow> xml_step new s s'"
| step_new_text: "xml_new_text new w s = (p, s') \<Longrightarrow> xml_step new s s'"
| step_parse: "xml_parse new doc s = Some (x, s') \<Longrightarrow> xml_step new s s'"
| step_parse_doc: "xml_parse_doc new doc pre name uri s = Some (x, s') \<Longrightarrow> xml_step new s s'"
| step_add: "s c = Some m \<Longrightarrow> xn_root m \<Longrightarrow> p \<in> dom s \<Longrightarrow> \<not> xml_below s c p \<Longrightarrow>
    xml_add_child s p c = Some s' \<Longrightarrow> xml_step new s s'"
| step_delete: "p \<in> dom s \<Longrightarrow> xml_delete_tree (2 * card (dom s)) s p = Some s' \<Longrightarrow> xml_step new s s'"
| step_clear: "p \<in> dom s \<Longrightarrow> xml_clear_child (2 * card (dom s) + 1) s p = Some s' \<Longrightarrow> xml_step new s s'"
| step_copy: "p \<in> dom s \<Longrightarrow> xml_copy_tree new (3 * card (dom s)) s p = Some (x, s') \<Longrightarrow> xml_step new s s'"
| step_set_text: "p \<in> dom s \<Longrightarrow> xml_set_text s p w = Some s' \<Longrightarrow> xml_step new s s'"
| step_set_attribute: "s p = Some n \<Longrightarrow> xml_is_element n \<Longrightarrow> xml_set_attribute n a w = Some n' \<Longrightarrow>
    xml_step new s (s(p \<mapsto> n'))"

inductive xml_reachable :: "(xstore \<Rightarrow> nat) \<Rightarrow> xstore \<Rightarrow> bool" for new where
  reach_empty: "xml_reachable new Map.empty"
| reach_step: "xml_reachable new s \<Longrightarrow> xml_step new s s' \<Longrightarrow> xml_reachable new s'"

inductive_simps xml_below_iff: "xml_below s c p"

lemma xforest_step:
  assumes new: "xml_fresh new" and F: "xforest s F" and st: "xml_step new s s'"
  shows "\<exists>F'. xforest s' F'"
  using st
proof (cases rule: xml_step.cases)
  case (step_new_element pre name uri p)
  then have "new_elem new (mk_tag pre name uri (xml_ns_attr pre uri)) s = (p, s')"
    by (simp add: xml_new_element_def new_elem_def)
  note n = new_elem_at [OF new xforest_finite [OF F] this]
  show ?thesis
    by (rule xforest_new [OF F grew_new_doc [OF xforest_finite [OF F] n(1)]]) (use grew_refl [OF n(3)] n(2) in simp)
next
  case (step_new_text w p)
  from xml_new_text_rep [OF new xforest_finite [OF F] this] have p: "p \<notin> dom s" "s' = s(p \<mapsto> text_node w None None None)" by auto
  show ?thesis by (rule exI, rule xforest_add [OF F, of s' "XText p w"]) (use p in \<open>auto simp: xml_doc_def\<close>)
next
  case (step_parse doc x)
  show ?thesis by (rule xforest_new [OF F xml_parse_any [OF new xforest_finite [OF F] step_parse]])
next
  case (step_parse_doc doc pre name uri x)
  show ?thesis by (rule xforest_new [OF F xml_parse_doc_any [OF new xforest_finite [OF F] step_parse_doc]])
next
  case (step_add c m p)
  then show ?thesis using xforest_add_child [OF F step_add(3,1,2,4)] by auto
next
  case (step_delete p)
  then show ?thesis using xforest_delete [OF F step_delete(1)] by auto
next
  case (step_clear p)
  then show ?thesis using xforest_clear [OF F step_clear(1)] by auto
next
  case (step_copy p x)
  then show ?thesis using xforest_copy [OF new F step_copy(1)] by auto
next
  case (step_set_text p w)
  then show ?thesis using xforest_set_text [OF F step_set_text(1), of w] by auto
next
  case (step_set_attribute p n a w n')
  then show ?thesis using xforest_set_attribute [OF F step_set_attribute(2-4)] by auto
qed

lemma xforest_reachable:
  assumes "xml_fresh new"
  shows "xml_reachable new s \<Longrightarrow> \<exists>F. xforest s F"
proof (induction rule: xml_reachable.induct)
  case reach_empty
  have "xforest Map.empty []" by (simp add: xforest_def)
  then show ?case by blast
next
  case (reach_step s s')
  then show ?case using xforest_step [OF assms] by blast
qed

text \<open>In a forest every operation that keeps to the contract returns.\<close>

lemma xforest_defined:
  assumes "xml_fresh new" "xforest s F" "p \<in> dom s"
  shows "xml_delete_tree (2 * card (dom s)) s p \<noteq> None" "xml_clear_child (2 * card (dom s) + 1) s p \<noteq> None"
    "xml_copy_tree new (3 * card (dom s)) s p \<noteq> None" "xml_set_text s p w \<noteq> None" "xml_text_child s p \<noteq> None"
    and "s c = Some m \<Longrightarrow> xn_root m \<Longrightarrow> \<not> xml_below s c p \<Longrightarrow> xml_add_child s p c \<noteq> None"
proof -
  show "xml_delete_tree (2 * card (dom s)) s p \<noteq> None" using xforest_delete [OF assms(2,3)] by auto
  show "xml_clear_child (2 * card (dom s) + 1) s p \<noteq> None" using xforest_clear [OF assms(2,3)] by auto
  show "xml_copy_tree new (3 * card (dom s)) s p \<noteq> None" using xforest_copy [OF assms] by auto
  show "xml_set_text s p w \<noteq> None" using xforest_set_text [OF assms(2,3), of w] by auto
  show "s c = Some m \<Longrightarrow> xn_root m \<Longrightarrow> \<not> xml_below s c p \<Longrightarrow> xml_add_child s p c \<noteq> None"
    using xforest_add_child [OF assms(2,3)] by fastforce
  from xforest_front [OF assms(2,3)] obtain t G par pv nx u where
    u: "xlabel u = p" and f: "focused s None None None t par pv nx u" by metis
  have ru: "xrep s par pv nx u" using f by (simp add: focused_def)
  show "xml_text_child s p \<noteq> None"
  proof (cases u)
    case (XElem a g ks)
    show ?thesis
    proof (cases ks)
      case (Cons k ls)
      then have "xrep s (Some a) None (link_next None ls) k" using ru XElem by simp
      then obtain n where "s (xlabel k) = Some n" by (rule xrep_root)
      then show ?thesis using ru u XElem Cons by (simp add: xml_text_child_def)
    qed (use ru u XElem in \<open>simp add: xml_text_child_def\<close>)
  qed (use ru u in \<open>simp add: xml_text_child_def\<close>)
qed

end
