(* ===== verification/XmlDoc.thy ===== *)
theory XmlDoc
  imports XmlForest
begin

text \<open>
  Documents: the root's name (\<^verbatim>\<open>xml_doc_name\<close>), parsing under a given root (\<^verbatim>\<open>xml_parse_doc\<close>), and the
  properties of the XML library as a whole.
\<close>

section \<open>The name of the root\<close>

text \<open>The inner \<^term>\<open>None\<close> is the return value \<open>-1\<close>; a name can be \<^verbatim>\<open>NULL\<close>.\<close>

type_synonym doc_name = "string option \<times> string option \<times> string option"

function xml_doc_name_loop :: "string \<Rightarrow> doc_name option option" where
  "xml_doc_name_loop cur =
     (if cur = [] then Some None
      else case xml_strchr cur CHR ''<'' of
        None \<Rightarrow> Some None
      | Some i \<Rightarrow>
          (let tag_front = drop (i + 1) cur
           in case xml_strchr tag_front CHR ''>'' of
             None \<Rightarrow> Some None
           | Some j \<Rightarrow>
               if 0 < j \<and> tag_front ! (j - 1) = CHR ''/'' then
                 (case parse_tag (take (j - 1) tag_front) of
                    None \<Rightarrow> None
                  | Some (pre, name, uri, attr) \<Rightarrow> Some (Some (pre, name, uri)))
               else
                 (case parse_tag (take j tag_front) of
                    Some (pre, Some name, uri, attr) \<Rightarrow>
                      if xml_strstr (drop (j + 1) tag_front) (end_tag1 pre name) \<noteq> None
                        \<or> xml_strstr (drop (j + 1) tag_front) (end_tag2 pre name) \<noteq> None
                      then Some (Some (pre, Some name, uri))
                      else xml_doc_name_loop (drop (j + 1) tag_front)
                  | _ \<Rightarrow> None)))"
  by pat_completeness auto

termination
  by (relation "measure length") (auto dest!: xml_strchr_Some)

declare xml_doc_name_loop.simps [simp del]

definition xml_doc_name :: "string \<Rightarrow> doc_name option option" where
  "xml_doc_name doc = xml_doc_name_loop (until_nul doc)"

lemma xml_next_Full:
  assumes "xml_next cur = Full_elem g body after"
  shows "\<exists>i j. xml_strchr cur CHR ''<'' = Some i \<and> xml_strchr (drop (i + 1) cur) CHR ''>'' = Some j
    \<and> \<not> (0 < j \<and> drop (i + 1) cur ! (j - 1) = CHR ''/'')
    \<and> parse_tag (take j (drop (i + 1) cur)) = Some (tg_prefix g, Some (tg_name g), tg_uri g, tg_attr g)
    \<and> find_end (drop (j + 1) (drop (i + 1) cur)) (tg_prefix g) (tg_name g) \<noteq> None"
proof -
  obtain i where i: "xml_strchr cur CHR ''<'' = Some i"
    using assms unfolding xml_next_def by (cases "xml_strchr cur CHR ''<''") simp_all
  obtain j where j: "xml_strchr (drop (i + 1) cur) CHR ''>'' = Some j"
    using assms i unfolding xml_next_def Let_def by (cases "xml_strchr (drop (i + 1) cur) CHR ''>''") simp_all
  let ?tf = "drop (i + 1) cur"
  note e = assms [unfolded xml_next_def Let_def i j option.case]
  have ns: "\<not> (0 < j \<and> ?tf ! (j - 1) = CHR ''/'')"
  proof
    assume "0 < j \<and> ?tf ! (j - 1) = CHR ''/''"
    from e [unfolded if_P [OF this]] show False by (auto split: option.splits)
  qed
  note e2 = e [unfolded if_not_P [OF ns]]
  obtain pre name uri attr where tag: "parse_tag (take j ?tf) = Some (pre, Some name, uri, attr)"
    using e2 by (auto split: option.splits)
  obtain k where k: "find_end (drop (j + 1) ?tf) pre name = Some k"
    using e2 [unfolded tag option.case prod.case] by (auto split: option.splits)
  have "g = mk_tag pre name uri attr"
    using e2 [unfolded tag option.case prod.case k] by simp
  then show ?thesis using i j ns tag k by auto
qed

lemma xml_doc_name_next:
  assumes "xml_next cur = Full_elem g body after" "cur \<noteq> []"
  shows "xml_doc_name_loop cur = Some (Some (tg_prefix g, Some (tg_name g), tg_uri g))"
proof -
  from xml_next_Full [OF assms(1)] obtain i j where f:
    "xml_strchr cur CHR ''<'' = Some i" "xml_strchr (drop (i + 1) cur) CHR ''>'' = Some j"
    "\<not> (0 < j \<and> drop (i + 1) cur ! (j - 1) = CHR ''/'')"
    "parse_tag (take j (drop (i + 1) cur)) = Some (tg_prefix g, Some (tg_name g), tg_uri g, tg_attr g)"
    "find_end (drop (j + 1) (drop (i + 1) cur)) (tg_prefix g) (tg_name g) \<noteq> None" by blast
  from f(5) have e: "xml_strstr (drop (j + 1) (drop (i + 1) cur)) (end_tag1 (tg_prefix g) (tg_name g)) \<noteq> None
    \<or> xml_strstr (drop (j + 1) (drop (i + 1) cur)) (end_tag2 (tg_prefix g) (tg_name g)) \<noteq> None"
    by (auto simp: find_end_def split: option.splits)
  show ?thesis
    unfolding xml_doc_name_loop.simps [of cur] Let_def
    using assms(2) f(1-4) e by (simp only: option.case prod.case if_False if_True refl)
qed

lemma xml_doc_name_text:
  assumes "xml_printable (XElem a g ks)" "{CHR ''<'', CHR 0x00} \<inter> set u = {}"
  shows "xml_doc_name (u @ xml_text (XElem a g ks)) = Some (Some (tg_prefix g, Some (tg_name g), tg_uri g))"
proof -
  let ?doc = "u @ xml_text (XElem a g ks)"
  have "CHR 0x00 \<notin> set ?doc" using assms xml_text_no_NUL [OF assms(1)] by simp
  then have "xml_doc_name ?doc = xml_doc_name_loop ?doc" unfolding xml_doc_name_def by (simp only: takeWhile_no_NUL not_False_eq_True)
  moreover have "xml_next ?doc = Full_elem g (xml_texts ks) (Some [])"
    using xml_next_dump [OF assms(1), of u "[]"] assms(2) by simp
  moreover have "?doc \<noteq> []" by (simp add: start_tag_string)
  ultimately show ?thesis using xml_doc_name_next by metis
qed

section \<open>Parsing under a given root\<close>

lemma doc_start_tag_new:
  "tg_attr g = xml_ns_attr (tg_prefix g) (tg_uri g) \<Longrightarrow> doc_start_tag (tg_prefix g) (tg_name g) (tg_uri g) = xml_start_tag g"
  by (simp add: doc_start_tag_def xml_start_tag_def xml_ns_attr_def split: option.splits)

lemma xml_parse_doc_text:
  assumes "xml_fresh new" "finite (dom s)" and p: "xml_printable (XElem a g ks)"
    and attr: "tg_attr g = xml_ns_attr (tg_prefix g) (tg_uri g)"
    and u: "CHR ''<'' \<notin> set u" "CHR 0x00 \<notin> set (u @ v)"
  shows "\<exists>s' t. xml_parse_doc new (u @ xml_text (XElem a g ks) @ v) (tg_prefix g) (tg_name g) (tg_uri g) s = Some (Some (xlabel t), s')
    \<and> xml_doc s' t \<and> xerase t = xerase (XElem a g ks) \<and> set (xaddrs t) \<inter> dom s = {} \<and> dom s' = dom s \<union> set (xaddrs t)"
proof -
  let ?doc = "u @ xml_start_tag g @ xml_texts ks @ xml_end_tag g @ v"
  have start: "doc_start_tag (tg_prefix g) (tg_name g) (tg_uri g) = xml_start_tag g" by (rule doc_start_tag_new [OF attr])
  have end1: "end_tag1 (tg_prefix g) (tg_name g) = xml_end_tag g" by (simp add: end_tag1_def xml_end_tag_def)
  have "no_start (xml_start_tag g) u w" for w using u(1) by (intro no_start_char) (simp_all add: start_tag_string)
  then have st: "xml_strstr ?doc (xml_start_tag g) = Some (length u)"
    by (subst xml_strstr_skip) (simp_all add: start_tag_string)
  have front: "drop (length u + length (xml_start_tag g)) ?doc = xml_texts ks @ xml_end_tag g @ v" by simp
  have en: "xml_strstr (xml_texts ks @ xml_end_tag g @ v) (xml_end_tag g) = Some (length (xml_texts ks))"
    by (rule xml_end_search [OF p])
  have doc_nn: "CHR 0x00 \<notin> set ?doc" and body_nn: "CHR 0x00 \<notin> set (xml_texts ks)"
    using u(2) xml_text_no_NUL [OF p] by auto
  obtain r s1 where new: "xml_new_element new (tg_prefix g) (tg_name g) (tg_uri g) s = (r, s1)" by fastforce
  from xml_new_element_rep [OF assms(1,2) new [unfolded xml_new_element_def]]
  have r: "r \<notin> dom s" "s1 = s(r \<mapsto> elem_node g None None None None)" by (simp_all only: attr [symmetric] tag_fields not_False_eq_True)
  then have at: "elem_at s1 None None None r g []" using assms(2) by (simp add: elem_at_def)
  have body: "xml_body (xml_texts ks) ([] \<noteq> []) = Some (map xerase ks)"
    using xml_body_texts [of ks False] p by simp
  from parse_refines [OF assms(1) at body] obtain ns s2 where s2: "xml_parse_nodes new (xml_texts ks) (Some r) s1 = Some (Some r, s2)"
    "map xerase ns = map xerase ks" "grew s1 None None None r g [] ns s2" unfolding parsed_def by blast
  have "xml_parse_doc_into new (xml_texts ks) (Some r) s1 = Some (Some r, s2)"
    unfolding xml_parse_doc_into_def by (simp only: takeWhile_no_NUL [OF body_nn] s2(1))
  then have "xml_parse_doc new ?doc (tg_prefix g) (tg_name g) (tg_uri g) s = Some (Some r, s2)"
    unfolding xml_parse_doc_def takeWhile_no_NUL [OF doc_nn] Let_def start
    using st en front new end1 by simp
  moreover have "xml_doc s2 (XElem r g ns)" using s2(3) by (simp add: grew_def elem_at_def xml_doc_def)
  moreover have "set (xaddrs (XElem r g ns)) \<inter> dom s = {}" "dom s2 = dom s \<union> set (xaddrs (XElem r g ns))"
    using s2(3) r by (auto simp: grew_def)
  ultimately show ?thesis using s2(2) by (intro exI [of _ s2] exI [of _ "XElem r g ns"]) simp
qed

section \<open>Properties\<close>

text \<open>
  The witnesses use an allocator that gives the address after the largest one in use, and the document
  \<open><a><b>x</b></a>\<close>.
\<close>

definition next_free :: "xstore \<Rightarrow> nat" where
  "next_free s = Suc (Max (insert 0 (dom s)))"

lemma next_free_fresh: "xml_fresh next_free"
  unfolding xml_fresh_def next_free_def
proof (intro allI impI notI)
  fix s :: xstore assume "finite (dom s)" "Suc (Max (insert 0 (dom s))) \<in> dom s"
  then have "Suc (Max (insert 0 (dom s))) \<le> Max (insert 0 (dom s))" by (intro Max_ge) simp_all
  then show False by simp
qed

definition sample_text :: "nat xtree" where
  "sample_text = XText 3 ''x''"

definition sample_kid :: "nat xtree" where
  "sample_kid = XElem 2 (mk_tag None ''b'' None None) [sample_text]"

definition sample_tree :: "nat xtree" where
  "sample_tree = XElem 1 (mk_tag None ''a'' None None) [sample_kid]"

definition sample_store :: xstore where
  "sample_store = [1 \<mapsto> elem_node (mk_tag None ''a'' None None) None (Some 2) None None,
     2 \<mapsto> elem_node (mk_tag None ''b'' None None) (Some 1) (Some 3) None None,
     3 \<mapsto> text_node ''x'' (Some 2) None None]"

lemma sample_doc: "xml_doc sample_store sample_tree"
  by (simp add: xml_doc_def sample_store_def sample_tree_def sample_kid_def sample_text_def)

lemma sample_printable: "xml_printable sample_tree"
  by (simp add: sample_tree_def sample_kid_def sample_text_def tag_printable_def name_clean_def is_elem_def)

text \<open>
  C3. Writing and parsing is the identity on documents.  For a printable tree (an element has one text or
  elements in it, none of them with its own name at any depth, no text has a \<open><\<close>, and names and attributes
  have no character of the syntax), the text that
  \<^verbatim>\<open>xml_dump_tree\<close> writes, behind an optional prolog, is parsed by \<^verbatim>\<open>xml_parse\<close> without undefined
  behaviour: the result is a root whose nodes, all freshly allocated, hold a tree that differs from the
  original only in its addresses, with all links between parents, children and siblings; the nodes that
  were allocated before are not changed.
\<close>

theorem xml_dump_parse_roundtrip:
  assumes "xml_fresh new" "finite (dom s)" "xml_printable t" "is_elem t" "prolog_ok pro"
  shows "\<exists>s' t'. xml_parse new (pro @ snd (xml_dump_tree t)) s = Some (Some (xlabel t'), s')
    \<and> xml_doc s' t' \<and> xerase t' = xerase t
    \<and> set (xaddrs t') \<inter> dom s = {} \<and> dom s' = dom s \<union> set (xaddrs t') \<and> (\<forall>a \<in> dom s. s' a = s a)"
  using xml_parse_text [OF assms] by (simp add: xml_dump_tree_def)

theorem xml_dump_parse_roundtrip_witness:
  "\<exists>s' t'. xml_parse next_free (''<?xml?>'' @ snd (xml_dump_tree sample_tree)) sample_store = Some (Some (xlabel t'), s')
    \<and> xml_doc s' t' \<and> xerase t' = xerase sample_tree
    \<and> set (xaddrs t') \<inter> dom sample_store = {} \<and> dom s' = dom sample_store \<union> set (xaddrs t')
    \<and> (\<forall>a \<in> dom sample_store. s' a = sample_store a)"
proof (rule xml_dump_parse_roundtrip [OF next_free_fresh _ sample_printable])
  show "prolog_ok ''<?xml?>''" unfolding prolog_ok_def by (intro exI [of _ "''xml''"] exI [of _ "[]"]) simp
qed (simp_all add: sample_store_def sample_tree_def is_elem_def)

text \<open>
  C4. Deletion frees exactly a subtree.  For a node inside a document, \<^verbatim>\<open>xml_delete_tree\<close> frees the nodes
  of its subtree and no other (none twice, as a freed node could not be read again), and leaves the
  document without that subtree, its remaining nodes correctly linked; fuel of twice the number of
  nodes suffices.  For the root, all nodes of the document are freed and no other node is touched.
\<close>

theorem xml_delete_frees_subtree:
  assumes "xml_doc s t"
  shows "(\<forall>k \<in> set (xsubtrees t). \<forall>n \<ge> 2 * length (xaddrs k).
            \<exists>s'. xml_delete_tree n s (xlabel k) = Some s' \<and> xml_doc s' (xremove (xlabel k) t)
              \<and> dom s' = dom s - set (xaddrs k) \<and> (\<forall>a. a \<notin> set (xaddrs t) \<longrightarrow> s' a = s a))
    \<and> (\<forall>n \<ge> 2 * length (xaddrs t). xml_delete_tree n s (xlabel t) = Some (s |` (- set (xaddrs t))))"
  using xml_delete_doc [OF assms] xml_delete_root [OF assms] by blast

theorem xml_delete_frees_subtree_witness:
  "(\<exists>s'. xml_delete_tree 4 sample_store 2 = Some s' \<and> xml_doc s' (xremove 2 sample_tree) \<and> dom s' = {1})
    \<and> xml_delete_tree 6 sample_store 1 = Some (sample_store |` (- {1, 2, 3}))"
proof -
  note d = xml_delete_frees_subtree [OF sample_doc]
  have k: "sample_kid \<in> set (xsubtrees sample_tree)" and l: "xlabel sample_kid = 2" "xaddrs sample_kid = [2, 3]"
    and t: "xlabel sample_tree = 1" "xaddrs sample_tree = [1, 2, 3]"
    by (simp_all add: sample_tree_def sample_kid_def sample_text_def)
  have dom: "dom sample_store - {2, 3} = {1}" by (auto simp: sample_store_def)
  from d [THEN conjunct1, rule_format, OF k, of 4] dom l
  have "\<exists>s'. xml_delete_tree 4 sample_store 2 = Some s' \<and> xml_doc s' (xremove 2 sample_tree) \<and> dom s' = {1}"
    by (simp add: ex_simps) blast
  moreover from d [THEN conjunct2, rule_format, of 6] t
  have "xml_delete_tree 6 sample_store 1 = Some (sample_store |` (- {1, 2, 3}))" by simp
  ultimately show ?thesis ..
qed

text \<open>
  C14. A copy is a tree of its own.  \<^verbatim>\<open>xml_copy_tree\<close> of any node of a document gives a tree equal to that
  subtree but for its addresses, which are all fresh; it has no parent and no siblings, and no node that
  existed before is changed.  Fuel of three times the number of nodes suffices.
\<close>

theorem xml_copy_correct:
  assumes "xml_fresh new" "finite (dom s)" "xrep s par pv nx t" "3 * length (xaddrs t) \<le> n"
  shows "\<exists>s' t'. xml_copy_tree new n s (xlabel t) = Some (Some (xlabel t'), s') \<and> xml_doc s' t' \<and> xerase t' = xerase t
    \<and> set (xaddrs t') \<inter> dom s = {} \<and> dom s' = dom s \<union> set (xaddrs t') \<and> (\<forall>a \<in> dom s. s' a = s a)"
  using xml_copy_rep [OF assms(1,3,2,4)] .

theorem xml_copy_correct_witness:
  "\<exists>s' t'. xml_copy_tree next_free 6 sample_store 2 = Some (Some (xlabel t'), s') \<and> xml_doc s' t' \<and> xerase t' = xerase sample_kid
    \<and> set (xaddrs t') \<inter> dom sample_store = {} \<and> dom s' = dom sample_store \<union> set (xaddrs t')
    \<and> (\<forall>a \<in> dom sample_store. s' a = sample_store a)"
proof -
  have "xrep sample_store (Some 1) None None sample_kid" "finite (dom sample_store)" "xlabel sample_kid = 2"
    "3 * length (xaddrs sample_kid) \<le> 6"
    by (simp_all add: sample_store_def sample_kid_def sample_text_def)
  with xml_copy_correct [OF next_free_fresh, of sample_store "Some 1" None None sample_kid 6] show ?thesis by simp
qed

text \<open>
  C16. An added child is the last one.  \<^verbatim>\<open>xml_add_child\<close> attaches a tree without parent and siblings to an
  element anywhere in a document: the element then has it as its last child, and no node outside the two
  trees is changed.  To a node that is a text, nothing is attached.
\<close>

theorem xml_add_child_correct:
  assumes "xrep s None None None t" "distinct (xaddrs u @ xaddrs t)" "xrep s par pv nx u"
  shows "\<exists>s'. xml_add_child s (xlabel u) (xlabel t) = Some s'
    \<and> xrep s' par pv nx (case u of XElem p g ks \<Rightarrow> XElem p g (ks @ [t]) | XText p w \<Rightarrow> u)
    \<and> dom s' = dom s \<and> (\<forall>a. a \<notin> set (xaddrs u) \<union> set (xaddrs t) \<longrightarrow> s' a = s a)"
proof (cases u)
  case (XElem p g ks)
  then show ?thesis using xml_add_child_rep [of s par pv nx p g ks t] assms by auto
next
  case (XText p w)
  then show ?thesis using assms(3) by (auto simp: xml_add_child_def)
qed

theorem xml_add_child_correct_witness:
  "\<exists>s'. xml_add_child (sample_store(9 \<mapsto> text_node ''y'' None None None)) 2 9 = Some s'
    \<and> xrep s' (Some 1) None None (XElem 2 (mk_tag None ''b'' None None) [sample_text, XText 9 ''y''])"
proof -
  have "xrep (sample_store(9 \<mapsto> text_node ''y'' None None None)) None None None (XText 9 ''y'')"
    "distinct (xaddrs sample_kid @ xaddrs (XText 9 ''y''))"
    "xrep (sample_store(9 \<mapsto> text_node ''y'' None None None)) (Some 1) None None sample_kid"
    by (simp_all add: sample_store_def sample_kid_def sample_text_def)
  from xml_add_child_correct [OF this] show ?thesis by (auto simp: sample_kid_def)
qed

text \<open>
  The buffer of the writer.  \<^verbatim>\<open>xml_dump_tree\<close> allocates exactly the bytes that it writes, and
  \<^verbatim>\<open>xml_dump_tree_ex\<close> enough of them when its flag is at most 1, with every prolog and every indentation from 0 on.  With
  a larger flag, which is taken as the level of the root, and an indentation of at least one space, it writes
  past the end of the buffer for every element that has an element as a child.
\<close>

theorem xml_dump_fits:
  "int (length (snd (xml_dump_tree t))) + 1 = fst (xml_dump_tree t)
    \<and> (new_line \<le> 1 \<longrightarrow> 0 \<le> space \<longrightarrow>
        (\<exists>xml_size out. xml_dump_tree_ex t prolog new_line space = Some (xml_size, out) \<and> int (length out) + 1 \<le> xml_size))
    \<and> (2 \<le> new_line \<longrightarrow> 0 < space \<longrightarrow> is_elem t \<longrightarrow> (\<exists>k \<in> set (xkids t). is_elem k) \<longrightarrow>
        (\<exists>xml_size out. xml_dump_tree_ex t prolog new_line space = Some (xml_size, out) \<and> xml_size < int (length out) + 1))"
proof (intro conjI impI)
  assume "2 \<le> new_line" "0 < space" "is_elem t" "\<exists>k \<in> set (xkids t). is_elem k"
  then show "\<exists>xml_size out. xml_dump_tree_ex t prolog new_line space = Some (xml_size, out) \<and> xml_size < int (length out) + 1"
    using xml_dump_ex_overflow [of new_line space] by (cases t) (simp_all add: is_elem_def)
qed (rule xml_dump_tree_fits, rule xml_dump_ex_fits, assumption+)

theorem xml_dump_fits_witness:
  "(\<exists>xml_size out. xml_dump_tree_ex sample_tree None 1 4 = Some (xml_size, out) \<and> int (length out) + 1 \<le> xml_size)
    \<and> (\<exists>xml_size out. xml_dump_tree_ex sample_tree None 2 4 = Some (xml_size, out) \<and> xml_size < int (length out) + 1)"
  using xml_dump_fits [of sample_tree 1 4 None] xml_dump_fits [of sample_tree 2 4 None]
  by (simp add: sample_tree_def sample_kid_def is_elem_def)

text \<open>
  Searches find the nodes they describe, in document order, and the arrays that they fill have room
  for exactly these.  \<^verbatim>\<open>xml_find_element\<close> finds the elements with a name, at every depth;
  \<^verbatim>\<open>xml_find_path\<close> with a path of names the elements that are reached by these steps from the root.
  With any other string as a path it stores as many nodes as it has counted.
\<close>

theorem xml_find_correct:
  "xml_find_element t name = Some (named name (xelements t))
    \<and> (list_all step_clean steps \<longrightarrow> steps \<noteq> [] \<longrightarrow> xml_find_path t (path_string steps) = Some (xselect t steps))
    \<and> (\<exists>ns. xml_find_path t path = Some ns \<and> length ns = xml_path_count t path)"
  using xml_find_element_named xml_find_path_select find_path_count(1) [of "[]" t path "xml_path_count t path"]
  by (auto simp: xml_find_path_def)

theorem xml_find_correct_witness:
  "xml_find_element sample_tree ''b'' = Some [2] \<and> xml_find_path sample_tree ''/a/b'' = Some [2]"
proof -
  have "path_string [(None, ''a''), (None, ''b'')] = ''/a/b''" by (simp add: path_string_def step_string_def)
  then show ?thesis
    using xml_find_correct [of sample_tree "''b''" "[(None, ''a''), (None, ''b'')]" "[]"]
    by (simp add: sample_tree_def sample_kid_def sample_text_def step_clean_def)
qed

text \<open>
  C15. The three ways to read a document agree.  For a printable document whose root has no attribute but the
  declaration of its name space, behind some text without a \<open><\<close>, \<^verbatim>\<open>xml_doc_name\<close> gives the prefix, the name
  and the name space of its root, and \<^verbatim>\<open>xml_parse_doc\<close> with these gives the tree of the document.
\<close>

theorem xml_parse_doc_correct:
  assumes "xml_fresh new" "finite (dom s)" "xml_printable (XElem a g ks)"
    and "tg_attr g = xml_ns_attr (tg_prefix g) (tg_uri g)" "{CHR ''<'', CHR 0x00} \<inter> set u = {}"
  shows "xml_doc_name (u @ snd (xml_dump_tree (XElem a g ks))) = Some (Some (tg_prefix g, Some (tg_name g), tg_uri g))
    \<and> (\<exists>s' t. xml_parse_doc new (u @ snd (xml_dump_tree (XElem a g ks))) (tg_prefix g) (tg_name g) (tg_uri g) s = Some (Some (xlabel t), s')
        \<and> xml_doc s' t \<and> xerase t = xerase (XElem a g ks) \<and> set (xaddrs t) \<inter> dom s = {} \<and> dom s' = dom s \<union> set (xaddrs t))"
  using xml_doc_name_text [OF assms(3,5)] xml_parse_doc_text [OF assms(1-4), of u "[]"] assms(5)
  by (simp add: xml_dump_tree_def)

theorem xml_parse_doc_correct_witness:
  "xml_doc_name (snd (xml_dump_tree sample_tree)) = Some (Some (None, Some ''a'', None))
    \<and> (\<exists>s' t. xml_parse_doc next_free (snd (xml_dump_tree sample_tree)) None ''a'' None sample_store = Some (Some (xlabel t), s')
        \<and> xml_doc s' t \<and> xerase t = xerase sample_tree \<and> set (xaddrs t) \<inter> dom sample_store = {}
        \<and> dom s' = dom sample_store \<union> set (xaddrs t))"
proof -
  have "xml_printable (XElem 1 (mk_tag None ''a'' None None) [sample_kid])" "finite (dom sample_store)"
    using sample_printable by (simp_all add: sample_tree_def sample_store_def)
  from xml_parse_doc_correct [OF next_free_fresh this(2,1), of "[]"] show ?thesis
    by (simp add: xml_ns_attr_def sample_tree_def)
qed

text \<open>
  C13. Attributes are an association list.  When the attribute string of a node represents a list of
  names and values (without quotes and equals signs, as the new ones are), \<^verbatim>\<open>xml_set_attribute\<close> leaves one that represents
  the updated list (the value is replaced in its place, or added at the end), \<^verbatim>\<open>xml_get_attribute\<close> is the
  lookup in it, the name space of the node is set exactly when its declaration is, and nothing else.
\<close>

theorem xml_attributes_refine:
  assumes "attrs_rep (xn_attr x) nvs" "attr_ok (n, w)"
  shows "xml_get_attribute x n = Some (map_of nvs n)
    \<and> (\<exists>y. xml_set_attribute x n w = Some y \<and> attrs_rep (xn_attr y) (AList.update n w nvs)
        \<and> (\<forall>m u. attr_ok (m, u) \<longrightarrow> xml_get_attribute y m = Some (if m = n then Some w else map_of nvs m))
        \<and> y\<lparr>xn_attr := xn_attr x\<rparr>
            = (if n = (case xn_prefix x of Some p \<Rightarrow> ''xmlns:'' @ p | None \<Rightarrow> ''xmlns'') then x\<lparr>xn_uri := Some w\<rparr> else x))"
proof -
  from set_attr_rep [OF assms] obtain b where
    b: "set_attr_string (xn_attr x) n w = Some b" "attrs_rep (Some b) (AList.update n w nvs)" by blast
  let ?ns = "case xn_prefix x of Some p \<Rightarrow> ''xmlns:'' @ p | None \<Rightarrow> ''xmlns''"
  let ?x1 = "if ?ns = n then x\<lparr>xn_uri := Some w\<rparr> else x"
  let ?y = "?x1\<lparr>xn_attr := Some b\<rparr>"
  have "xml_set_attribute x n w = Some ?y" using b(1) by (simp add: xml_set_attribute_def Let_def)
  moreover have rep: "attrs_rep (xn_attr ?y) (AList.update n w nvs)" using b(2) by simp
  moreover have "xml_get_attribute ?y m = Some (if m = n then Some w else map_of nvs m)" if "attr_ok (m, u)" for m u
    using get_attr_rep [OF rep that] by (simp add: update_conv')
  moreover have "?y\<lparr>xn_attr := xn_attr x\<rparr> = (if n = ?ns then x\<lparr>xn_uri := Some w\<rparr> else x)" by (cases x) simp
  ultimately show ?thesis using get_attr_rep [OF assms] by blast
qed

theorem xml_attributes_refine_witness:
  "\<exists>y. xml_set_attribute xml_zero ''id'' ''7'' = Some y \<and> xml_get_attribute y ''id'' = Some (Some ''7'')"
proof -
  have "attrs_rep (xn_attr xml_zero) []" "attr_ok (''id'', ''7'')"
    by (simp_all add: attrs_rep_def attrs_ok_def xml_zero_def attr_ok_def)
  from xml_attributes_refine [OF this] \<open>attr_ok (''id'', ''7'')\<close> show ?thesis by fastforce
qed

text \<open>
  A comment behind a document hides it.  \<^verbatim>\<open>xml_parse\<close> takes everything up to the last comment for the
  prolog, wherever that comment is: for a printable document that is followed by a comment and a
  newline it finds no root, and allocates nothing.
\<close>

theorem xml_parse_comment_hides:
  assumes "xml_printable t" "is_elem t" "CHR ''<'' \<notin> set (w @ v)" "CHR ''>'' \<notin> set w" "v \<noteq> []"
    "CHR 0x00 \<notin> set (w @ v)"
  shows "xml_parse new (snd (xml_dump_tree t) @ ''<!--'' @ w @ ''-->'' @ v) s = Some (None, s)"
proof -
  let ?com = "''<!--'' @ w @ ''-->'' @ v" and ?doc = "xml_text t @ ''<!--'' @ w @ ''-->'' @ v"
  have com: "?com = (''<!--'' @ w @ ''--'') @ CHR ''>'' # v" by simp
  have "no_start ''<?'' (''!--'' @ w @ ''-->'' @ v) []" by (rule no_start_char) (use assms(3) in simp_all)
  then have "no_start ''<?'' (xml_text t @ ?com) []"
    using no_special_start [OF assms(1), of "CHR ''?''"] by (simp add: no_start_append no_start_Cons [of _ "CHR ''<''"])
  then have none: "xml_strstr ?doc ''<?'' = None" by (rule xml_strstr_none [rotated]) simp
  have nul: "until_nul ?doc = ?doc" "until_nul ?com = ?com" "until_nul v = v"
    by (rule takeWhile_no_NUL, use xml_text_no_NUL [OF assms(1)] assms(6) in simp)+
  have pi: "xml_skip ''<?'' None ?doc = Some ?doc" by (rule xml_skip_none) (simp, simp only: nul none)
  have "no_start ''<!'' (xml_text t) ?com" by (rule no_special_start [OF assms(1)]) simp
  then have "xml_strstr ?doc ''<!'' = Some (length (xml_text t))"
    using xml_strstr_here [of "''<!''" "''--'' @ w @ ''-->'' @ v"] by (subst xml_strstr_skip) simp_all
  moreover have "xml_strchr ?com CHR ''>'' = Some (length (''<!--'' @ w @ ''--''))"
    unfolding com by (rule xml_strchr_first) (use assms(4) in simp)
  moreover have "drop (length (''<!--'' @ w @ ''--'') + 1) ?com = v" by simp
  moreover have "drop (length (xml_text t)) ?doc = ?com" "?doc \<noteq> []" by simp_all
  ultimately have "xml_skip ''<!'' None ?doc = xml_skip ''<!'' (Some ?com) v"
    by (subst xml_skip.simps) (simp only: nul option.case if_False)
  moreover have "xml_skip ''<!'' (Some ?com) v = Some v"
    by (rule xml_skip_none) (use assms(3,5) in \<open>simp_all add: nul xml_strstr_absent\<close>)
  ultimately have co: "xml_skip ''<!'' None ?doc = Some v" by simp
  have "CHR ''<'' \<notin> set (until_nul v)" using assms(3) by (simp add: nul)
  then have "xml_parse_doc_into new v None s = Some (None, s)"
    unfolding xml_parse_doc_into_def by (subst xml_parse_nodes.simps) (simp add: xml_next_def parse_text_def)
  then show ?thesis using pi co by (simp add: xml_parse_def xml_dump_tree_def)
qed

theorem xml_parse_comment_hides_witness:
  "xml_parse next_free (snd (xml_dump_tree sample_tree) @ ''<!--'' @ '' end '' @ ''-->'' @ [CHR 0x0A]) sample_store
     = Some (None, sample_store)"
  by (rule xml_parse_comment_hides [OF sample_printable]) (simp_all add: sample_tree_def is_elem_def)

text \<open>
  C5. The store is always a forest.  After any sequence of calls of the library's operations that return (with
  whatever documents, strings and nodes, as long as a child is only added when it is a root and not
  above the node that it is added to), the allocated nodes are exactly the nodes of a list of documents
  with disjoint addresses, each correctly linked: no node leaks, none dangles, no list of siblings has a
  cycle.  In such a store deleting, clearing and copying any node end within the fuel given, and they, setting
  and finding a text, and adding a root to a node that is not below it read through no null or dangling
  pointer.  The parser and \<^verbatim>\<open>xml_set_attribute\<close> are undefined on some strings; only their calls that return
  are steps.
\<close>

theorem xml_store_is_forest:
  assumes "xml_fresh new" "xml_reachable new s"
  shows "(\<exists>F. xforest s F)
    \<and> (\<forall>p \<in> dom s. xml_delete_tree (2 * card (dom s)) s p \<noteq> None \<and> xml_clear_child (2 * card (dom s) + 1) s p \<noteq> None
        \<and> xml_copy_tree new (3 * card (dom s)) s p \<noteq> None \<and> xml_set_text s p w \<noteq> None \<and> xml_text_child s p \<noteq> None
        \<and> (\<forall>c m. s c = Some m \<longrightarrow> xn_root m \<longrightarrow> \<not> xml_below s c p \<longrightarrow> xml_add_child s p c \<noteq> None))"
proof -
  from xforest_reachable [OF assms] obtain F where F: "xforest s F" ..
  then show ?thesis using xforest_defined [OF assms(1) F] by blast
qed

theorem xml_store_is_forest_witness:
  "xml_add_child [1 \<mapsto> elem_node (mk_tag None ''a'' None None) None None None None, 2 \<mapsto> text_node ''x'' None None None] 1 2 \<noteq> None"
proof -
  let ?a = "elem_node (mk_tag None ''a'' None None) None None None None" and ?x = "text_node ''x'' None None None"
  have "xml_new_element next_free None ''a'' None Map.empty = (1, [1 \<mapsto> ?a])"
    by (simp add: xml_new_element_def xml_new_element_attr_def xml_new_node_def next_free_def xml_ns_attr_def xml_zero_def elem_node_def)
  then have r1: "xml_reachable next_free [1 \<mapsto> ?a]"
    using reach_step [OF reach_empty step_new_element] by blast
  have "xml_new_text next_free ''x'' [1 \<mapsto> ?a] = (2, [1 \<mapsto> ?a, 2 \<mapsto> ?x])"
    by (simp add: xml_new_text_def xml_new_node_def next_free_def xml_zero_def text_node_def numeral_2_eq_2)
  then have "xml_reachable next_free [1 \<mapsto> ?a, 2 \<mapsto> ?x]"
    using reach_step [OF r1 step_new_text] by blast
  from xml_store_is_forest [OF next_free_fresh this, THEN conjunct2, rule_format, of 1]
  have "xml_add_child [1 \<mapsto> ?a, 2 \<mapsto> ?x] 1 2 \<noteq> None" if "\<not> xml_below [1 \<mapsto> ?a, 2 \<mapsto> ?x] 2 1"
    using that by (simp add: xn_root_def text_node_def xml_zero_def)
  moreover have "\<not> xml_below [1 \<mapsto> ?a, 2 \<mapsto> ?x] 2 1"
    unfolding xml_below_iff [of _ 2 1] by (simp add: elem_node_def)
  ultimately show ?thesis .
qed

end
