(* ===== verification/DnsName.thy ===== *)
theory DnsName
  imports CString
begin

text \<open>
  Domain names in DNS messages (\<^verbatim>\<open>libada/dnss_util.c\<close>, constants of \<^verbatim>\<open>ayla/dns.h\<close> and
  \<^verbatim>\<open>dnss_internal.h\<close>): a name in the text form \<open>www.ayla.com.\<close> is written as length-prefixed labels, with a
  pointer to an earlier occurrence of its end (\<open>dnss_fill_name\<close>); names in received messages are compared
  (\<open>dnss_cmp_name\<close>) and copied (\<open>dnss_copy_name\<close>) through such pointers.  A message is the list of the bytes
  that may be read; a read behind it is \<^term>\<open>None\<close>.  The relation \<open>dns_at\<close> says what a message means
  after RFC 1035, independently of the code.
\<close>

section \<open>The functions\<close>

abbreviation DNSL_MASK :: nat where "DNSL_MASK \<equiv> 0x3F"
abbreviation DNSL_PTR :: nat where "DNSL_PTR \<equiv> 0xC0"
abbreviation DNSL_MAX_LOOPS :: nat where "DNSL_MAX_LOOPS \<equiv> 8"

abbreviation dot :: u8 where "dot \<equiv> 0x2E"

definition byte_at :: "bytes \<Rightarrow> nat \<Rightarrow> u8 option" where
  "byte_at m i = (if i < length m then Some (m ! i) else None)"

text \<open>The search for an earlier occurrence; the last position is not tried.\<close>

fun find_from :: "nat \<Rightarrow> nat \<Rightarrow> bytes \<Rightarrow> bytes \<Rightarrow> nat option" where
  "find_from 0 i haystack needle = None"
| "find_from (Suc n) i haystack needle =
     (if take (length needle) (drop i haystack) = needle then Some i
      else find_from n (Suc i) haystack needle)"

definition dnss_find_name :: "bytes \<Rightarrow> bytes \<Rightarrow> nat option" where
  "dnss_find_name haystack needle = find_from (length haystack - length needle) 0 haystack needle"

text \<open>
  The first loop of \<open>dnss_fill_name\<close> writes the labels; the byte for the length of the current label is at
  \<open>tlen\<close>, and counts up modulo 256.
\<close>

fun fill_loop :: "bytes \<Rightarrow> nat \<Rightarrow> bytes \<Rightarrow> bytes" where
  "fill_loop [] tlen buf = buf @ [0]"
| "fill_loop (c # name) tlen buf =
     (if c = dot then fill_loop name (length buf) (buf @ [0])
      else fill_loop name tlen ((buf @ [c])[tlen := buf ! tlen + 1]))"

definition fill_labels :: "bytes \<Rightarrow> bytes" where
  "fill_labels name = fill_loop name 0 [0]"

text \<open>
  The second loop looks for an earlier occurrence of what is left of the name and replaces it by a
  pointer.  \<open>msg\<close> is the message before the name, \<open>enc\<close> the labels just written, \<open>p\<close> the position in them.
\<close>

function compress_loop :: "bytes \<Rightarrow> bytes \<Rightarrow> nat \<Rightarrow> nat \<Rightarrow> bytes option" where
  "compress_loop msg enc nlen p =
     (case byte_at enc p of
        None \<Rightarrow> None
      | Some tlen \<Rightarrow>
          if tlen = 0 then Some (take (p + 1) enc)
          else
            (case dnss_find_name (msg @ take p enc) (take nlen (drop p enc)) of
               Some off \<Rightarrow>
                 Some (take p enc @ [word_of_nat DNSL_PTR OR (word_of_nat (off div 256) AND word_of_nat DNSL_MASK),
                                     word_of_nat off])
             | None \<Rightarrow> compress_loop msg enc (nlen - (unat tlen + 1)) (p + (unat tlen + 1))))"
  by pat_completeness auto

termination
  by (relation "measure (\<lambda>(msg, enc, nlen, p). length enc - p)") (auto simp: byte_at_def split: if_splits)

declare compress_loop.simps [simp del]

text \<open>The bytes of the name in the message; their number is what the function returns.\<close>

definition dnss_fill_name :: "bytes \<Rightarrow> bytes \<Rightarrow> bytes option" where
  "dnss_fill_name msg name = compress_loop msg (fill_labels name) (length name + 1) 0"

text \<open>Without a target the function returns the room that the name takes at most.\<close>

definition dnss_fill_size :: "bytes \<Rightarrow> nat" where
  "dnss_fill_size name = length name + 1"

text \<open>
  Where a pointer leads.  In C, \<open>\<^verbatim>\<open>tlen & DNSL_MASK << 8\<close>\<close> shifts the mask before the conjunction.
\<close>

definition pointer_target :: "nat \<Rightarrow> u8 \<Rightarrow> nat" where
  "pointer_target tlen b = (tlen AND (DNSL_MASK * 256)) OR unat b"

fun copy_loop :: "nat \<Rightarrow> bytes \<Rightarrow> nat \<Rightarrow> nat \<Rightarrow> nat \<Rightarrow> bytes \<Rightarrow> (int \<times> bytes) option" where
  "copy_loop 0 pkt off maxoff max_name name = Some (- 1, name)"
| "copy_loop (Suc n) pkt off maxoff max_name name =
     (case byte_at pkt off of
        None \<Rightarrow> None
      | Some b \<Rightarrow>
          (let tlen = unat b; off = off + 1
           in if tlen > DNSL_MASK then
                (if off + 1 > maxoff then Some (- 1, name)
                 else if (tlen AND DNSL_PTR) \<noteq> DNSL_PTR then Some (- 1, name)
                 else
                   (case byte_at pkt off of
                      None \<Rightarrow> None
                    | Some b2 \<Rightarrow> copy_loop n pkt (pointer_target tlen b2) maxoff max_name name))
              else if tlen = 0 then Some (int (length name), name)
              else if off + tlen \<ge> maxoff then Some (- 1, name)
              else if int (length name + tlen) < int max_name - 2 then
                (if off + tlen \<le> length pkt then
                   copy_loop n pkt (off + tlen) maxoff max_name (name @ take tlen (drop off pkt) @ [dot])
                 else None)
              else copy_loop n pkt off maxoff max_name name))"

definition dnss_copy_name :: "bytes \<Rightarrow> nat \<Rightarrow> nat \<Rightarrow> nat \<Rightarrow> (int \<times> bytes) option" where
  "dnss_copy_name pkt off maxoff max_name = copy_loop DNSL_MAX_LOOPS pkt off maxoff max_name []"

text \<open>
  The comparison reads the string \<open>name\<close> a character at a time, the terminator included; a read behind the
  terminator is undefined.
\<close>

definition name_char :: "bytes \<Rightarrow> nat \<Rightarrow> u8 option" where
  "name_char name i = (if i < length name then Some (name ! i) else if i = length name then Some 0 else None)"

text \<open>One label: the difference of the first characters that differ, or 0.\<close>

fun cmp_label :: "nat \<Rightarrow> bytes \<Rightarrow> nat \<Rightarrow> bytes \<Rightarrow> nat \<Rightarrow> int option" where
  "cmp_label 0 pkt off name i = Some 0"
| "cmp_label (Suc tlen) pkt off name i =
     (case (byte_at pkt off, name_char name i) of
        (Some b, Some c) \<Rightarrow>
          (if c_tolower b \<noteq> c_tolower c then Some (uint (c_tolower c) - uint (c_tolower b))
           else cmp_label tlen pkt (off + 1) name (i + 1))
      | _ \<Rightarrow> None)"

fun cmp_loop :: "nat \<Rightarrow> bytes \<Rightarrow> nat \<Rightarrow> nat \<Rightarrow> bytes \<Rightarrow> nat \<Rightarrow> int option" where
  "cmp_loop 0 pkt off maxoff name i = Some 1"
| "cmp_loop (Suc n) pkt off maxoff name i =
     (case byte_at pkt off of
        None \<Rightarrow> None
      | Some b \<Rightarrow>
          (let tlen = unat b; off = off + 1
           in if tlen > DNSL_MASK then
                (if off + 1 > maxoff then Some 1
                 else if (tlen AND DNSL_PTR) \<noteq> DNSL_PTR then Some 1
                 else
                   (case byte_at pkt off of
                      None \<Rightarrow> None
                    | Some b2 \<Rightarrow> cmp_loop n pkt (pointer_target tlen b2) maxoff name i))
              else if tlen = 0 then
                (case name_char name i of
                   None \<Rightarrow> None
                 | Some c \<Rightarrow> Some (if c \<noteq> 0 then 1 else 0))
              else if off + tlen \<ge> maxoff then Some 1
              else
                (case cmp_label tlen pkt off name i of
                   None \<Rightarrow> None
                 | Some d \<Rightarrow>
                     if d \<noteq> 0 then Some d
                     else
                       (case name_char name (i + tlen) of
                          None \<Rightarrow> None
                        | Some c \<Rightarrow>
                            if c \<noteq> dot then Some (uint c - uint dot)
                            else cmp_loop n pkt (off + tlen) maxoff name (i + tlen + 1)))))"

definition dnss_cmp_name :: "bytes \<Rightarrow> nat \<Rightarrow> nat \<Rightarrow> bytes \<Rightarrow> int option" where
  "dnss_cmp_name pkt off maxoff name = cmp_loop DNSL_MAX_LOOPS pkt off maxoff name 0"

section \<open>Names after RFC 1035\<close>

definition label_ok :: "bytes \<Rightarrow> bool" where
  "label_ok l \<longleftrightarrow> l \<noteq> [] \<and> length l \<le> DNSL_MASK \<and> dot \<notin> set l \<and> 0 \<notin> set l"

definition name_text :: "bytes list \<Rightarrow> bytes" where
  "name_text ls = concat (map (\<lambda>l. l @ [dot]) ls)"

definition wire_label :: "bytes \<Rightarrow> bytes" where
  "wire_label l = word_of_nat (length l) # l"

definition wire_labels :: "bytes list \<Rightarrow> bytes" where
  "wire_labels ls = concat (map wire_label ls)"

text \<open>
  \<open>dns_at pkt k off ls n\<close>: the bytes at \<open>off\<close> are the name with the labels \<open>ls\<close>, read in \<open>n\<close> steps, with
  pointers to offsets below \<open>k\<close>.
\<close>

inductive dns_at :: "bytes \<Rightarrow> nat \<Rightarrow> nat \<Rightarrow> bytes list \<Rightarrow> nat \<Rightarrow> bool" for pkt k where
  at_root: "off < length pkt \<Longrightarrow> pkt ! off = 0 \<Longrightarrow> dns_at pkt k off [] 1"
| at_label: "off + 1 + length l < length pkt \<Longrightarrow> 0 < length l \<Longrightarrow> length l \<le> DNSL_MASK \<Longrightarrow>
    unat (pkt ! off) = length l \<Longrightarrow> take (length l) (drop (off + 1) pkt) = l \<Longrightarrow>
    dns_at pkt k (off + 1 + length l) ls n \<Longrightarrow> dns_at pkt k off (l # ls) (Suc n)"
| at_pointer: "off + 1 < length pkt \<Longrightarrow> unat (pkt ! off) = DNSL_PTR + target div 256 \<Longrightarrow> target < 64 * 256 \<Longrightarrow>
    unat (pkt ! (off + 1)) = target mod 256 \<Longrightarrow> target < k \<Longrightarrow>
    dns_at pkt k target ls n \<Longrightarrow> dns_at pkt k off ls (Suc n)"

inductive_cases dns_at_root: "dns_at pkt k off [] n"
inductive_cases dns_at_Cons: "dns_at pkt k off (l # ls) n"

section \<open>Lemmas on messages\<close>

lemma byte_at_Some [simp]: "i < length m \<Longrightarrow> byte_at m i = Some (m ! i)"
  by (simp add: byte_at_def)

lemma name_text_simps [simp]: "name_text [] = []" "name_text (l # ls) = l @ dot # name_text ls"
  by (simp_all add: name_text_def)

lemma name_text_append [simp]: "name_text (as @ bs) = name_text as @ name_text bs"
  by (simp add: name_text_def)

lemma wire_labels_simps [simp]:
  "wire_labels [] = []" "wire_labels (l # ls) = wire_label l @ wire_labels ls"
  "wire_labels (as @ bs) = wire_labels as @ wire_labels bs"
  by (simp_all add: wire_labels_def)

lemma length_wire_label [simp]: "length (wire_label l) = Suc (length l)"
  by (simp add: wire_label_def)

lemma length_wire_labels [simp]: "length (wire_labels ls) = length (name_text ls)"
  by (induction ls) simp_all

lemma label_length:
  assumes "label_ok l"
  shows "0 < length l" "length l \<le> 63" "unat (word_of_nat (length l) :: u8) = length l"
  using assms by (simp_all add: label_ok_def unat_of_nat take_bit_eq_mod)

lemma wire_labels_at:
  assumes "list_all label_ok ls"
  shows "dns_at (pre @ wire_labels ls @ 0 # post) k (length pre) ls (length ls + 1)"
  using assms
proof (induction ls arbitrary: pre)
  case Nil
  show ?case using at_root [of "length pre" "pre @ 0 # post" k] by simp
next
  case (Cons l ls)
  let ?m = "pre @ wire_labels (l # ls) @ 0 # post"
  have l: "label_ok l" using Cons.prems by simp
  have "dns_at ((pre @ wire_label l) @ wire_labels ls @ 0 # post) k (length (pre @ wire_label l)) ls (length ls + 1)"
    using Cons.prems by (intro Cons.IH) simp
  then have rest: "dns_at ?m k (length pre + 1 + length l) ls (length ls + 1)" by simp
  have "dns_at ?m k (length pre) (l # ls) (Suc (length ls + 1))"
    by (rule at_label) (use rest label_length [OF l] in \<open>simp_all add: wire_label_def\<close>)
  then show ?case by simp
qed

lemma dns_at_append: "dns_at pkt k off ls n \<Longrightarrow> dns_at (pkt @ ext) k off ls n"
proof (induction rule: dns_at.induct)
  case (at_root off)
  then show ?case by (intro dns_at.at_root) (simp_all add: nth_append)
next
  case (at_label off l ls n)
  then show ?case by (intro dns_at.at_label) (simp_all add: nth_append)
next
  case (at_pointer off target ls n)
  then show ?case by (intro dns_at.at_pointer [of _ _ target]) (simp_all add: nth_append)
qed

lemma dns_at_mono: "dns_at pkt k off ls n \<Longrightarrow> k \<le> k' \<Longrightarrow> dns_at pkt k' off ls n"
proof (induction rule: dns_at.induct)
  case (at_pointer off target ls n)
  then show ?case by (intro dns_at.at_pointer [of _ _ target]) simp_all
qed (auto intro: at_label at_root [simplified])

section \<open>Writing\<close>

lemma fill_loop_label:
  assumes "dot \<notin> set l"
  shows "fill_loop (l @ rest) (length buf) (buf @ n # xs)
    = fill_loop rest (length buf) (buf @ (n + word_of_nat (length l)) # xs @ l)"
  using assms
proof (induction l arbitrary: n xs)
  case (Cons c l)
  have "fill_loop ((c # l) @ rest) (length buf) (buf @ n # xs)
      = fill_loop (l @ rest) (length buf) (buf @ (n + 1) # (xs @ [c]))"
    using Cons.prems by (simp add: nth_append)
  also have "\<dots> = fill_loop rest (length buf) (buf @ ((n + 1) + word_of_nat (length l)) # (xs @ [c]) @ l)"
    using Cons.prems by (intro Cons.IH) simp
  finally show ?case by (simp add: add.assoc)
qed simp

lemma fill_loop_labels:
  "list_all label_ok ls \<Longrightarrow> fill_loop (name_text ls) (length buf) (buf @ [0]) = buf @ wire_labels ls @ [0, 0]"
proof (induction ls arbitrary: buf)
  case (Cons l ls)
  have l: "dot \<notin> set l" using Cons.prems by (simp add: label_ok_def)
  have "fill_loop (name_text (l # ls)) (length buf) (buf @ [0])
      = fill_loop (dot # name_text ls) (length buf) (buf @ wire_label l)"
    using fill_loop_label [OF l, of "dot # name_text ls" buf 0 "[]"] by (simp add: wire_label_def)
  also have "\<dots> = fill_loop (name_text ls) (length (buf @ wire_label l)) ((buf @ wire_label l) @ [0])" by simp
  also have "\<dots> = (buf @ wire_label l) @ wire_labels ls @ [0, 0]"
    using Cons.prems by (intro Cons.IH) simp
  finally show ?case by simp
qed simp

lemma fill_labels_wire: "list_all label_ok ls \<Longrightarrow> fill_labels (name_text ls) = wire_labels ls @ [0, 0]"
  using fill_loop_labels [of ls "[]"] by (simp add: fill_labels_def)

lemma find_from_Some:
  "find_from n i haystack needle = Some off \<Longrightarrow>
     i \<le> off \<and> off < i + n \<and> take (length needle) (drop off haystack) = needle"
  by (induction n i haystack needle rule: find_from.induct) (auto split: if_splits)

lemma find_name_split:
  assumes "dnss_find_name haystack needle = Some off"
  shows "\<exists>pre post. haystack = pre @ needle @ post \<and> length pre = off \<and> post \<noteq> []"
proof -
  have f: "off < length haystack - length needle" "take (length needle) (drop off haystack) = needle"
    using find_from_Some [OF assms [unfolded dnss_find_name_def]] by simp_all
  let ?post = "drop (off + length needle) haystack"
  have "haystack = take off haystack @ take (length needle) (drop off haystack) @ drop (length needle) (drop off haystack)"
    by (simp only: append_take_drop_id)
  then have "haystack = take off haystack @ needle @ ?post" unfolding f(2) by (simp only: drop_drop add.commute)
  moreover have "length (take off haystack) = off" using f(1) by simp
  moreover have "?post \<noteq> []" using f(1) by simp
  ultimately show ?thesis by blast
qed

text \<open>The two bytes of a pointer.\<close>

lemma pointer_high: "t < 64 \<Longrightarrow> (word_of_nat 0xC0 :: u8) OR (word_of_nat t AND word_of_nat 0x3F) = word_of_nat (0xC0 + t)"
proof -
  have "\<forall>t \<in> set [0..<64]. (word_of_nat 0xC0 :: u8) OR (word_of_nat t AND word_of_nat 0x3F) = word_of_nat (0xC0 + t)"
    by code_simp
  then show "t < 64 \<Longrightarrow> ?thesis" by simp
qed

lemma pointer_bytes:
  assumes "off < 64 * 256"
  shows "unat ((word_of_nat DNSL_PTR :: u8) OR (word_of_nat (off div 256) AND word_of_nat DNSL_MASK)) = DNSL_PTR + off div 256"
    and "unat (word_of_nat off :: u8) = off mod 256"
proof -
  have "off div 256 < 64" using assms by simp
  then show "unat ((word_of_nat DNSL_PTR :: u8) OR (word_of_nat (off div 256) AND word_of_nat DNSL_MASK)) = DNSL_PTR + off div 256"
    by (simp only: pointer_high unat_of_nat take_bit_eq_mod) simp
  show "unat (word_of_nat off :: u8) = off mod 256" by (simp add: unat_of_nat take_bit_eq_mod)
qed

lemma compress_loop_correct:
  assumes "list_all label_ok bs" "k = length msg + length (name_text (as @ bs))" "k < 64 * 256"
  shows "\<exists>rest n. compress_loop msg (wire_labels (as @ bs) @ [0, 0]) (length (name_text bs) + 1) (length (name_text as))
      = Some (wire_labels as @ rest)
    \<and> rest \<noteq> [] \<and> length rest \<le> length (name_text bs) + 1 \<and> n \<le> length bs + 2
    \<and> dns_at (msg @ wire_labels as @ rest) k (length msg + length (name_text as)) bs n"
  using assms
proof (induction bs arbitrary: as)
  case Nil
  have "dns_at ((msg @ wire_labels as) @ wire_labels [] @ 0 # []) k (length (msg @ wire_labels as)) [] (length ([] :: bytes list) + 1)"
    by (rule wire_labels_at) simp
  then show ?case
    by (intro exI [of _ "[0]"] exI [of _ 1]) (simp add: compress_loop.simps nth_append)
next
  case (Cons l bs)
  let ?enc = "wire_labels (as @ l # bs) @ [0, 0]" and ?p = "length (name_text as)"
  let ?needle = "wire_labels (l # bs) @ [0]"
  have l: "label_ok l" using Cons.prems by simp
  have byte: "byte_at ?enc ?p = Some (word_of_nat (length l))"
    by (simp add: nth_append wire_label_def)
  have nz: "(word_of_nat (length l) :: u8) \<noteq> 0" using label_length [OF l] by (metis less_numeral_extra(3) unat_0)
  have needle: "take (length (name_text (l # bs)) + 1) (drop ?p ?enc) = ?needle" by simp
  have hay: "msg @ take ?p ?enc = msg @ wire_labels as" by simp
  note step = compress_loop.simps [of msg ?enc "length (name_text (l # bs)) + 1" ?p, unfolded byte needle hay]
  show ?case
  proof (cases "dnss_find_name (msg @ wire_labels as) ?needle")
    case (Some off)
    let ?rest = "[word_of_nat DNSL_PTR OR (word_of_nat (off div 256) AND word_of_nat DNSL_MASK), word_of_nat off] :: bytes"
    obtain pre post where split: "msg @ wire_labels as = pre @ ?needle @ post" "length pre = off" "post \<noteq> []"
      using find_name_split [OF Some] by blast
    have off: "off < k"
      using arg_cong [OF split(1), of length] split(2) Cons.prems(2) by (simp add: name_text_def)
    have "dns_at (pre @ wire_labels (l # bs) @ 0 # post @ ?rest) k (length pre) (l # bs) (length (l # bs) + 1)"
      by (rule wire_labels_at) (rule Cons.prems(1))
    moreover have "(msg @ wire_labels as) @ ?rest = (pre @ ?needle @ post) @ ?rest" by (simp only: split(1))
    ultimately have target: "dns_at (msg @ wire_labels as @ ?rest) k off (l # bs) (length (l # bs) + 1)"
      by (simp only: append_assoc append_Cons append_Nil split(2))
    have "dns_at (msg @ wire_labels as @ ?rest) k (length msg + ?p) (l # bs) (Suc (length (l # bs) + 1))"
      by (rule at_pointer [OF _ _ _ _ off target])
        (use off Cons.prems(3) pointer_bytes [of off] in \<open>simp_all add: nth_append\<close>)
    moreover have "compress_loop msg ?enc (length (name_text (l # bs)) + 1) ?p = Some (wire_labels as @ ?rest)"
      using step nz Some by simp
    ultimately show ?thesis
      by (intro exI [of _ ?rest] exI [of _ "Suc (length (l # bs) + 1)"]) (use label_length(1) [OF l] in simp)
  next
    case None
    have "\<exists>rest n. compress_loop msg (wire_labels ((as @ [l]) @ bs) @ [0, 0]) (length (name_text bs) + 1)
          (length (name_text (as @ [l]))) = Some (wire_labels (as @ [l]) @ rest)
        \<and> rest \<noteq> [] \<and> length rest \<le> length (name_text bs) + 1 \<and> n \<le> length bs + 2
        \<and> dns_at (msg @ wire_labels (as @ [l]) @ rest) k (length msg + length (name_text (as @ [l]))) bs n"
      using Cons.prems by (intro Cons.IH) simp_all
    then obtain rest n where "compress_loop msg (wire_labels ((as @ [l]) @ bs) @ [0, 0]) (length (name_text bs) + 1)
          (length (name_text (as @ [l]))) = Some (wire_labels (as @ [l]) @ rest)
        \<and> rest \<noteq> [] \<and> length rest \<le> length (name_text bs) + 1 \<and> n \<le> length bs + 2
        \<and> dns_at (msg @ wire_labels (as @ [l]) @ rest) k (length msg + length (name_text (as @ [l]))) bs n"
      by blast
    then have rest:
      "compress_loop msg (wire_labels (as @ l # bs) @ [0, 0]) (length (name_text bs) + 1) (?p + (length l + 1))
        = Some (wire_labels as @ wire_label l @ rest)"
      "rest \<noteq> []" "length rest \<le> length (name_text bs) + 1" "n \<le> length bs + 2"
      "dns_at (msg @ wire_labels as @ wire_label l @ rest) k (length msg + ?p + 1 + length l) bs n"
      by (simp_all add: add.assoc)
    have "dns_at (msg @ wire_labels as @ wire_label l @ rest) k (length msg + ?p) (l # bs) (Suc n)"
      by (rule at_label [OF _ _ _ _ _ rest(5)])
        (use rest(2) label_length [OF l] in \<open>simp_all add: nth_append wire_label_def\<close>)
    moreover have "compress_loop msg ?enc (length (name_text (l # bs)) + 1) ?p = Some (wire_labels as @ wire_label l @ rest)"
      using step nz None rest(1) label_length(3) [OF l] by simp
    ultimately show ?thesis
      using rest(2-4) by (intro exI [of _ "wire_label l @ rest"] exI [of _ "Suc n"]) simp
  qed
qed

section \<open>Copying\<close>

lemma low_high_bits: "take_bit 8 t AND push_bit 8 x = (0 :: nat)"
  by (rule bit_eqI) (simp add: bit_and_iff bit_take_bit_iff bit_push_bit_iff)

lemma pointer_target_low: "tlen < 256 \<Longrightarrow> pointer_target tlen b = unat b"
proof -
  assume t: "tlen < 256"
  have "(63 * 256 :: nat) = push_bit 8 63" by (simp add: push_bit_eq_mult)
  moreover have "take_bit 8 tlen = tlen" using t by (simp add: take_bit_nat_eq_self)
  ultimately have "tlen AND (63 * 256) = 0" using low_high_bits [of tlen 63] by simp
  then show ?thesis by (simp add: pointer_target_def)
qed

lemma copy_loop_correct:
  assumes "dns_at pkt 256 off ls n" "n \<le> m"
    and "int (length name + length (name_text ls)) \<le> int max_name - 2"
  shows "copy_loop m pkt off (length pkt) max_name name
    = Some (int (length (name @ name_text ls)), name @ name_text ls)"
  using assms
proof (induction arbitrary: m name rule: dns_at.induct)
  case (at_root off)
  then show ?case by (cases m) simp_all
next
  case (at_label off l ls n)
  then obtain m' where m: "m = Suc m'" "n \<le> m'" by (cases m) auto
  have "copy_loop m' pkt (off + 1 + length l) (length pkt) max_name (name @ l @ [dot])
      = Some (int (length ((name @ l @ [dot]) @ name_text ls)), (name @ l @ [dot]) @ name_text ls)"
    using at_label.prems m by (intro at_label.IH) simp_all
  then show ?case using at_label.hyps at_label.prems m by simp
next
  case (at_pointer off target ls n)
  then obtain m' where m: "m = Suc m'" "n \<le> m'" by (cases m) auto
  have "target div 256 = 0" "target mod 256 = target" using at_pointer.hyps by simp_all
  then have b: "unat (pkt ! off) = 192" "unat (pkt ! (off + 1)) = target" using at_pointer.hyps by simp_all
  have "copy_loop m' pkt target (length pkt) max_name name
      = Some (int (length (name @ name_text ls)), name @ name_text ls)"
    using at_pointer.prems m by (intro at_pointer.IH) simp_all
  then show ?case using at_pointer.hyps(1) b m by (simp add: pointer_target_low)
qed

text \<open>What is written to the buffer of the caller stays inside it, and no read is behind the message.\<close>

lemma copy_loop_safe:
  assumes "maxoff \<le> length pkt" "256 \<le> length pkt" "off < length pkt"
    and "int max_name - 2 \<le> room" "int (length name) \<le> room"
  shows "\<exists>r name'. copy_loop m pkt off maxoff max_name name = Some (r, name')
    \<and> int (length name') \<le> room \<and> (r = - 1 \<or> r = int (length name'))"
  using assms(3,5)
proof (induction m arbitrary: off name)
  case (Suc m)
  note IH = Suc.IH
  let ?t = "unat (pkt ! off)"
  have target: "pointer_target ?t b < length pkt" for b
    using assms(2) unat_u8_bounds(1) [of b] unfolding pointer_target_low [OF unat_u8_bounds(1)] by linarith
  consider (pointer) "?t > 63" | (root) "?t = 0" | (far) "0 < ?t" "?t \<le> 63" "off + 1 + ?t \<ge> maxoff"
    | (label) "0 < ?t" "?t \<le> 63" "off + 1 + ?t < maxoff" "int (length name + ?t) < int max_name - 2"
    | (skip) "0 < ?t" "?t \<le> 63" "off + 1 + ?t < maxoff" "\<not> int (length name + ?t) < int max_name - 2"
    by linarith
  then show ?case
  proof cases
    case pointer
    then show ?thesis
      using Suc.prems assms(1) IH [OF target] by (simp add: Let_def byte_at_def)
  next
    case label
    have "\<exists>r name'. copy_loop m pkt (off + 1 + ?t) maxoff max_name (name @ take ?t (drop (off + 1) pkt) @ [dot])
          = Some (r, name')
        \<and> int (length name') \<le> room \<and> (r = - 1 \<or> r = int (length name'))"
      using label assms(1,4) by (intro IH) simp_all
    then show ?thesis using label Suc.prems assms(1) by (simp add: Let_def)
  next
    case skip
    have "\<exists>r name'. copy_loop m pkt (off + 1) maxoff max_name name = Some (r, name')
        \<and> int (length name') \<le> room \<and> (r = - 1 \<or> r = int (length name'))"
      using skip Suc.prems assms(1) by (intro IH) simp_all
    then show ?thesis using skip Suc.prems assms(1) by (simp add: Let_def)
  qed (use Suc.prems in \<open>simp_all add: Let_def\<close>)
qed simp

section \<open>Comparing\<close>

lemma c_tolower_zero: "c_tolower c = 0 \<longleftrightarrow> c = 0"
proof -
  have "\<forall>n \<in> set [0..<256]. c_tolower (word_of_nat n) = 0 \<longleftrightarrow> (word_of_nat n :: u8) = 0" by code_simp
  then show ?thesis by (rule u8_all_cases)
qed

lemma c_tolower_dot: "c_tolower c = dot \<longleftrightarrow> c = dot"
proof -
  have "\<forall>n \<in> set [0..<256]. c_tolower (word_of_nat n) = dot \<longleftrightarrow> (word_of_nat n :: u8) = dot" by code_simp
  then show ?thesis by (rule u8_all_cases)
qed

lemma tolower_difference: "c_tolower b \<noteq> c_tolower c \<Longrightarrow> uint (c_tolower c) - uint (c_tolower b) \<noteq> 0"
  by (simp add: u8_eq_iff_uint)

lemma name_char_rest: "i \<le> length name \<Longrightarrow> name_char name i = Some (case drop i name of [] \<Rightarrow> 0 | c # cs \<Rightarrow> c)"
  by (auto simp: name_char_def Cons_nth_drop_Suc [symmetric])

lemma cmp_label_correct:
  assumes "off + length l \<le> length pkt" "take (length l) (drop off pkt) = l" "0 \<notin> set l" "0 \<notin> set name" "i \<le> length name"
  shows "\<exists>d. cmp_label (length l) pkt off name i = Some d
    \<and> (d = 0 \<longleftrightarrow> map c_tolower (take (length l) (drop i name)) = map c_tolower l)"
  using assms
proof (induction l arbitrary: off i)
  case (Cons b l)
  have off: "off < length pkt" "pkt ! off = b" "take (length l) (drop (off + 1) pkt) = l"
    using Cons.prems(1,2) by (simp_all add: Cons_nth_drop_Suc [symmetric])
  show ?case
  proof (cases "drop i name")
    case Nil
    then have i: "i = length name" using Cons.prems(5) by simp
    have "c_tolower b \<noteq> 0" "c_tolower 0 = 0" using Cons.prems(3) c_tolower_zero [of 0] by (simp_all add: c_tolower_zero)
    then show ?thesis using Nil off i tolower_difference [of b 0] by (simp add: name_char_rest)
  next
    case (Cons c cs)
    then have i: "i < length name" "name ! i = c" "drop (i + 1) name = cs"
      by (metis drop_all linorder_not_less list.discI, metis nth_via_drop, metis Suc_eq_plus1 drop_Suc tl_drop list.sel(3))
    show ?thesis
    proof (cases "c_tolower b = c_tolower c")
      case True
      have "\<exists>d. cmp_label (length l) pkt (off + 1) name (i + 1) = Some d
          \<and> (d = 0 \<longleftrightarrow> map c_tolower (take (length l) (drop (i + 1) name)) = map c_tolower l)"
        using Cons.prems off i by (intro Cons.IH) simp_all
      then show ?thesis using True Cons off i by (simp add: name_char_def)
    next
      case False
      then show ?thesis using Cons off i tolower_difference [of b c] by (simp add: name_char_def)
    qed
  qed
qed simp

lemma cmp_loop_correct:
  assumes "dns_at pkt 256 off ls n" "n \<le> m" "\<forall>l \<in> set ls. 0 \<notin> set l" "0 \<notin> set name" "i \<le> length name"
  shows "\<exists>r. cmp_loop m pkt off (length pkt) name i = Some r
    \<and> (r = 0 \<longleftrightarrow> map c_tolower (drop i name) = map c_tolower (name_text ls))"
  using assms
proof (induction arbitrary: m i rule: dns_at.induct)
  case (at_root off)
  then obtain m' where m: "m = Suc m'" by (cases m) auto
  show ?case
  proof (cases "drop i name")
    case Nil
    then show ?thesis using at_root m by (simp add: name_char_rest)
  next
    case (Cons c cs)
    then have "c \<noteq> 0" using at_root.prems(3) by (metis in_set_dropD list.set_intros(1))
    then show ?thesis using at_root m Cons by (simp add: name_char_rest)
  qed
next
  case (at_label off l ls n)
  then obtain m' where m: "m = Suc m'" "n \<le> m'" by (cases m) auto
  let ?k = "length l"
  obtain d where d: "cmp_label ?k pkt (off + 1) name i = Some d"
    "d = 0 \<longleftrightarrow> map c_tolower (take ?k (drop i name)) = map c_tolower l"
    using cmp_label_correct [of "off + 1" l pkt name i] at_label.hyps at_label.prems by auto
  have split: "map c_tolower (drop i name) = map c_tolower (name_text (l # ls)) \<longleftrightarrow>
      d = 0 \<and> map c_tolower (drop (i + ?k) name) = c_tolower dot # map c_tolower (name_text ls)"
  proof (cases "drop (i + ?k) name = []")
    case True
    have "map c_tolower (drop i name) \<noteq> map c_tolower (name_text (l # ls))"
    proof
      assume "map c_tolower (drop i name) = map c_tolower (name_text (l # ls))"
      then have "length (drop i name) = length (name_text (l # ls))" by (metis length_map)
      then show False using True by simp
    qed
    then show ?thesis using True by simp
  next
    case False
    then have k: "length (map c_tolower (take ?k (drop i name))) = length (map c_tolower l)" by simp
    have "map c_tolower (drop i name) = map c_tolower (take ?k (drop i name)) @ map c_tolower (drop (i + ?k) name)"
      by (metis add.commute append_take_drop_id drop_drop map_append)
    moreover have "map c_tolower (name_text (l # ls)) = map c_tolower l @ c_tolower dot # map c_tolower (name_text ls)"
      by simp
    ultimately show ?thesis unfolding d(2) by (simp only: append_eq_append_conv [OF disjI1 [OF k]])
  qed
  note code = at_label.hyps(1-4) m(1) d(1)
  show ?case
  proof (cases "d = 0")
    case False
    then show ?thesis using code split by (simp add: Let_def)
  next
    case True
    then have "length (take ?k (drop i name)) = ?k" using d(2) by (metis length_map)
    then have i: "i + ?k \<le> length name" using at_label.prems(4) by (auto simp: min_def split: if_splits)
    show ?thesis
    proof (cases "drop (i + ?k) name")
      case Nil
      then show ?thesis using code split True i by (simp add: Let_def name_char_rest)
    next
      case (Cons c cs)
      have next_char: "name_char name (i + ?k) = Some c" using Cons i by (simp add: name_char_rest)
      show ?thesis
      proof (cases "c = dot")
        case dot: True
        have "i + ?k + 1 \<le> length name" "drop (i + ?k + 1) name = cs"
          using Cons i by (metis Suc_eq_plus1 Suc_leI drop_all leI list.discI, metis Cons Suc_eq_plus1 drop_Suc list.sel(3) tl_drop)
        moreover have "\<exists>r. cmp_loop m' pkt (off + 1 + ?k) (length pkt) name (i + ?k + 1) = Some r
            \<and> (r = 0 \<longleftrightarrow> map c_tolower (drop (i + ?k + 1) name) = map c_tolower (name_text ls))"
          using at_label.prems m(2) calculation(1) by (intro at_label.IH) simp_all
        ultimately show ?thesis using code split True next_char Cons dot by (simp add: Let_def)
      next
        case False
        then have "c_tolower c \<noteq> c_tolower dot" using c_tolower_dot [of c] c_tolower_dot [of dot] by simp
        then show ?thesis using code split True next_char Cons False
          by (simp add: Let_def word_uint_eq_iff [of c dot])
      qed
    qed
  qed
next
  case (at_pointer off target ls n)
  then obtain m' where m: "m = Suc m'" "n \<le> m'" by (cases m) auto
  have "target div 256 = 0" "target mod 256 = target" using at_pointer.hyps by simp_all
  then have b: "unat (pkt ! off) = 192" "unat (pkt ! (off + 1)) = target" using at_pointer.hyps by simp_all
  have "\<exists>r. cmp_loop m' pkt target (length pkt) name i = Some r
      \<and> (r = 0 \<longleftrightarrow> map c_tolower (drop i name) = map c_tolower (name_text ls))"
    using at_pointer.prems m by (intro at_pointer.IH) simp_all
  then show ?case using at_pointer.hyps(1) b m by (simp add: pointer_target_low)
qed

section \<open>Correctness\<close>

text \<open>A name fits a message when it and the message end where pointers still reach.\<close>

lemma fill_name_rep:
  assumes "list_all label_ok ls" "length msg + length (name_text ls) < 64 * 256"
  shows "\<exists>w n. dnss_fill_name msg (name_text ls) = Some w \<and> length w \<le> dnss_fill_size (name_text ls)
    \<and> n \<le> length ls + 2 \<and> dns_at (msg @ w) (length msg + length (name_text ls)) (length msg) ls n"
  using compress_loop_correct [OF assms(1) refl, of msg "[]"] assms(2)
  by (auto simp: dnss_fill_name_def dnss_fill_size_def fill_labels_wire [OF assms(1)] name_text_simps(1))

text \<open>
  C8. Writing a name.  A name of well-formed labels is written, in no more room than the function
  announces, so that after RFC 1035 the message has exactly that name there, whatever the message before
  contains and whichever pointers compress the name; and every name that the message had before keeps its
  meaning.
\<close>

theorem dns_fill_correct:
  assumes "list_all label_ok ls" "length msg + length (name_text ls) < 64 * 256"
  shows "\<exists>w n. dnss_fill_name msg (name_text ls) = Some w
    \<and> length w \<le> dnss_fill_size (name_text ls)
    \<and> dns_at (msg @ w) (length msg + length (name_text ls)) (length msg) ls n \<and> n \<le> length ls + 2
    \<and> (\<forall>k off ls' n'. dns_at msg k off ls' n' \<longrightarrow> dns_at (msg @ w) k off ls' n')"
  using fill_name_rep [OF assms] dns_at_append by fast

definition sample_labels :: "bytes list" where
  "sample_labels = [str ''www'', str ''ayla'', str ''com'']"

lemma sample_labels_ok: "list_all label_ok sample_labels"
  by code_simp

theorem dns_fill_correct_witness:
  "\<exists>w n. dnss_fill_name (str ''xx'' @ wire_labels [str ''ayla'', str ''com''] @ [0, 1]) (name_text sample_labels) = Some w
    \<and> length w \<le> dnss_fill_size (name_text sample_labels)
    \<and> dns_at ((str ''xx'' @ wire_labels [str ''ayla'', str ''com''] @ [0, 1]) @ w) 26 13 sample_labels n \<and> n \<le> 5
    \<and> (\<forall>k off ls' n'. dns_at (str ''xx'' @ wire_labels [str ''ayla'', str ''com''] @ [0, 1]) k off ls' n'
        \<longrightarrow> dns_at ((str ''xx'' @ wire_labels [str ''ayla'', str ''com''] @ [0, 1]) @ w) k off ls' n')"
proof -
  have n: "length (name_text sample_labels) = 13" "length sample_labels = 3"
    "length (str ''xx'' @ wire_labels [str ''ayla'', str ''com''] @ [0, 1]) = 13"
    by code_simp+
  show ?thesis
    using dns_fill_correct [OF sample_labels_ok, of "str ''xx'' @ wire_labels [str ''ayla'', str ''com''] @ [0, 1]"]
    unfolding n by simp
qed

text \<open>
  C9. A name that was written is read back: in a message of at most 256 bytes, a name of at most six labels
  is copied as it was given, with its length as the result, and compares equal to exactly the names that
  differ from it in the case of letters only; both reads stay inside the message.
\<close>

theorem dns_name_roundtrip:
  assumes "list_all label_ok ls" "length ls \<le> 6" "length msg + length (name_text ls) \<le> 256"
    and "length (name_text ls) + 2 \<le> max_name"
  shows "\<exists>w. dnss_fill_name msg (name_text ls) = Some w
    \<and> dnss_copy_name (msg @ w) (length msg) (length (msg @ w)) max_name
        = Some (int (length (name_text ls)), name_text ls)
    \<and> (\<forall>name. 0 \<notin> set name \<longrightarrow>
        (\<exists>r. dnss_cmp_name (msg @ w) (length msg) (length (msg @ w)) name = Some r
          \<and> (r = 0 \<longleftrightarrow> map c_tolower name = map c_tolower (name_text ls))))"
proof -
  obtain w n where w: "dnss_fill_name msg (name_text ls) = Some w" "n \<le> length ls + 2"
    "dns_at (msg @ w) (length msg + length (name_text ls)) (length msg) ls n"
    using fill_name_rep [OF assms(1), of msg] assms(3) by auto
  have at: "dns_at (msg @ w) 256 (length msg) ls n" by (rule dns_at_mono [OF w(3) assms(3)])
  have n: "n \<le> 8" using w(2) assms(2) by simp
  have "copy_loop 8 (msg @ w) (length msg) (length (msg @ w)) max_name []
      = Some (int (length ([] @ name_text ls)), [] @ name_text ls)"
    by (rule copy_loop_correct [OF at n]) (use assms(4) in simp)
  moreover have "\<exists>r. cmp_loop 8 (msg @ w) (length msg) (length (msg @ w)) name 0 = Some r
      \<and> (r = 0 \<longleftrightarrow> map c_tolower (drop 0 name) = map c_tolower (name_text ls))" if "0 \<notin> set name" for name
    using assms(1) that by (intro cmp_loop_correct [OF at n]) (auto simp: label_ok_def list_all_iff)
  ultimately show ?thesis
    using w(1) by (simp add: dnss_copy_name_def dnss_cmp_name_def)
qed

theorem dns_name_roundtrip_witness:
  "\<exists>w. dnss_fill_name (str ''xx'' @ wire_labels [str ''ayla'', str ''com''] @ [0, 1]) (name_text sample_labels) = Some w
    \<and> dnss_copy_name ((str ''xx'' @ wire_labels [str ''ayla'', str ''com''] @ [0, 1]) @ w) 13
        (length ((str ''xx'' @ wire_labels [str ''ayla'', str ''com''] @ [0, 1]) @ w)) 15
        = Some (13, name_text sample_labels)"
proof -
  let ?msg = "str ''xx'' @ wire_labels [str ''ayla'', str ''com''] @ [0, 1]"
  have n: "length (name_text sample_labels) = 13" "length sample_labels = 3" "length ?msg = 13"
    by code_simp+
  show ?thesis
    using dns_name_roundtrip [OF sample_labels_ok, of ?msg 15, unfolded n] by auto
qed

text \<open>
  C38. Any received message.  If 256 bytes can be read behind the start of the message, and the message
  itself, copying a name never reads behind them, always returns, leaves at least two bytes of the buffer
  of the caller free, and returns -1 or the length of what it copied.
\<close>

theorem dns_copy_safe:
  assumes "maxoff \<le> length pkt" "256 \<le> length pkt" "off < length pkt"
  shows "\<exists>r name. dnss_copy_name pkt off maxoff max_name = Some (r, name)
    \<and> length name \<le> max_name - 2 \<and> (r = - 1 \<or> r = int (length name))"
  using copy_loop_safe [OF assms, of max_name "int (max_name - 2)" "[]" 8] by (auto simp: dnss_copy_name_def)

definition looping_packet :: bytes where
  "looping_packet = [0xC0, 0] @ replicate 254 7"

lemma looping_packet_copy: "copy_loop n looping_packet 0 256 64 [] = Some (- 1, [])"
proof (induction n)
  case (Suc n)
  have "byte_at looping_packet 0 = Some 0xC0" "byte_at looping_packet (Suc 0) = Some 0"
    by (simp_all add: byte_at_def looping_packet_def)
  moreover have "pointer_target 192 0 = 0" by (simp add: pointer_target_low)
  ultimately show ?case using Suc by simp
qed simp

theorem dns_copy_safe_witness:
  "dnss_copy_name looping_packet 0 256 64 = Some (- 1, [])
    \<and> (\<exists>r name. dnss_copy_name looping_packet 0 256 64 = Some (r, name)
        \<and> length name \<le> 64 - 2 \<and> (r = - 1 \<or> r = int (length name)))"
proof
  show "dnss_copy_name looping_packet 0 256 64 = Some (- 1, [])"
    by (simp add: dnss_copy_name_def looping_packet_copy)
  show "\<exists>r name. dnss_copy_name looping_packet 0 256 64 = Some (r, name)
      \<and> length name \<le> 64 - 2 \<and> (r = - 1 \<or> r = int (length name))"
    by (rule dns_copy_safe) (simp_all add: looping_packet_def)
qed

text \<open>
  C39. Pointers lead into the first 256 bytes only: wherever the pointer of a name leads after RFC 1035, the
  functions go on at that offset modulo 256.  In a longer message the name that was written is not the name
  that is read: the witness is a message written by \<open>dnss_fill_name\<close> for which \<open>dnss_copy_name\<close> finds the
  empty name.
\<close>

theorem dns_pointer_truncated:
  assumes "off + 1 < maxoff" "maxoff \<le> length pkt" "target < 64 * 256"
    and "unat (pkt ! off) = DNSL_PTR + target div 256" "unat (pkt ! (off + 1)) = target mod 256"
  shows "dnss_copy_name pkt off maxoff max_name = copy_loop 7 pkt (target mod 256) maxoff max_name []
    \<and> dnss_cmp_name pkt off maxoff name = cmp_loop 7 pkt (target mod 256) maxoff name 0"
proof -
  let ?t = "unat (pkt ! off)"
  have "target div 256 < 64" using assms(3) by simp
  then have high: "?t > 63" "\<not> ?t = 0" "off < length pkt" "off + 1 < length pkt" using assms by simp_all
  have "\<forall>q \<in> set [0..<64]. (192 + q) AND 192 = (192 :: nat)" by code_simp
  then have ptr: "?t AND 192 = 192" using \<open>target div 256 < 64\<close> assms(4) by simp
  have target: "pointer_target ?t (pkt ! (off + 1)) = target mod 256"
    using assms(5) pointer_target_low [OF unat_u8_bounds(1)] by simp
  have eight: "(8 :: nat) = Suc 7" by simp
  show ?thesis
    unfolding dnss_copy_name_def dnss_cmp_name_def eight copy_loop.simps cmp_loop.simps
    using high ptr target assms(1) by (simp add: Let_def)
qed

definition long_message :: bytes where
  "long_message = replicate 256 0 @ wire_labels [str ''a''] @ [0, 1]"

theorem dns_pointer_truncated_witness:
  "dnss_fill_name long_message (name_text [str ''a'']) = Some [0xC1, 0]
    \<and> dnss_copy_name (long_message @ [0xC1, 0]) 260 262 64 = Some (0, [])"
proof
  show "dnss_fill_name long_message (name_text [str ''a'']) = Some [0xC1, 0]" by code_simp
  have n: "length (long_message @ [0xC1, 0]) = 262" "(long_message @ [0xC1, 0]) ! 260 = 0xC1"
    "(long_message @ [0xC1, 0]) ! (260 + 1) = 0"
    by (simp_all add: long_message_def str_def wire_label_def nth_append)
  have "dnss_copy_name (long_message @ [0xC1, 0]) 260 262 64 = copy_loop 7 (long_message @ [0xC1, 0]) (256 mod 256) 262 64 []"
    using dns_pointer_truncated [of 260 262 "long_message @ [0xC1, 0]" 256] n by simp
  also have "\<dots> = Some (0, [])" by code_simp
  finally show "dnss_copy_name (long_message @ [0xC1, 0]) 260 262 64 = Some (0, [])" .
qed

end
