(* ===== verification/AxmlCode.thy ===== *)
theory AxmlCode
  imports CString
begin

text \<open>
  The character coding of the agent's XML parser (\<^verbatim>\<open>libayla/xml_encode.c\<close>, \<^verbatim>\<open>libayla/xml_decode.c\<close>).  The
  encoder fills a buffer of its own, of which the room left is a number, or none when \<^verbatim>\<open>dest\<close> is NULL.  The
  decoder is called with the same buffer as source and destination, so it works on one memory with two
  positions; an access outside the memory is \<^term>\<open>None\<close>.
\<close>

section \<open>The encoder\<close>

definition xml_add_to_dest :: "nat option \<Rightarrow> bytes \<Rightarrow> u8 \<Rightarrow> (nat option \<times> bytes) option" where
  "xml_add_to_dest room out c =
     (case room of
        None \<Rightarrow> Some (None, out @ [c])
      | Some r \<Rightarrow> if r < 1 then None else Some (Some (r - 1), out @ [c]))"

definition decimal2 :: "nat \<Rightarrow> bytes" where
  "decimal2 n = (if n < 10 then [word_of_nat (0x30 + n)] else [word_of_nat (0x30 + n div 10), word_of_nat (0x30 + n mod 10)])"

text \<open>The escape of a character that has one.\<close>

definition xml_esc :: "u8 \<Rightarrow> bytes option" where
  "xml_esc c =
     (if c = of_char (CHR ''&'') then Some (str ''&amp;'')
      else if c = of_char (CHR ''<'') then Some (str ''&lt;'')
      else if c = of_char (CHR ''>'') then Some (str ''&gt;'')
      else if c = 0x22 then Some (str ''&quot;'')
      else if c = 0x27 then Some (str ''&apos;'')
      else if c < 0x20 then Some (str ''&#'' @ decimal2 (unat c) @ str '';'')
      else None)"

definition read_extra :: "u8 \<Rightarrow> nat" where
  "read_extra c = (if c < 0xe0 then 1 else if c < 0xf0 then 2 else if c < 0xf8 then 3 else if c < 0xfc then 4 else 5)"

text \<open>The label \<open>finish\<close>: the result, the contents of \<^verbatim>\<open>dest\<close> and the number of bytes consumed.\<close>

definition enc_finish :: "nat option \<Rightarrow> bytes \<Rightarrow> nat \<Rightarrow> int \<times> bytes \<times> nat" where
  "enc_finish room out used =
     (case room of
        None \<Rightarrow> (int (length out), out, used)
      | Some r \<Rightarrow> if r < 1 then (- 1, out, used) else (int (length out), out @ [0], used))"

definition dest_ok :: "nat option \<Rightarrow> nat \<Rightarrow> bool" where
  "dest_ok room n = (case room of None \<Rightarrow> True | Some r \<Rightarrow> r > n)"

definition dest_minus :: "nat option \<Rightarrow> nat \<Rightarrow> nat option" where
  "dest_minus room n = map_option (\<lambda>r. r - n) room"

fun enc_loop :: "bytes \<Rightarrow> nat option \<Rightarrow> nat \<Rightarrow> bytes \<Rightarrow> nat \<Rightarrow> int \<times> bytes \<times> nat" where
  "enc_loop [] room extra out used =
     (if extra > 0 then (- 1, out, used) else enc_finish room out used)"
| "enc_loop (c # src) room extra out used =
     (if \<not> dest_ok room 1 then
        (if extra > 0 then (- 1, out, used) else enc_finish room out used)
      else if extra > 0 then
        (if c \<le> 0x7f then (- 1, out, used)
         else
           (case xml_add_to_dest room out c of
              None \<Rightarrow> (- 1, out, used)
            | Some (room, out) \<Rightarrow> enc_loop src room (extra - 1) out (used + 1)))
      else
        (case xml_esc c of
           Some esc \<Rightarrow>
             if \<not> dest_ok room (length esc + 1) then enc_finish room out used
             else enc_loop src (dest_minus room (length esc)) 0 (out @ esc) (used + 1)
         | None \<Rightarrow>
             if c \<le> 0x7f then
               (case xml_add_to_dest room out c of
                  None \<Rightarrow> enc_finish room out used
                | Some (room, out) \<Rightarrow> enc_loop src room 0 out (used + 1))
             else if \<not> dest_ok room (read_extra c + 2) then enc_finish room out used
             else
               (case xml_add_to_dest room out c of
                  None \<Rightarrow> enc_finish room out used
                | Some (room, out) \<Rightarrow> enc_loop src room (read_extra c) out (used + 1))))"

definition xml_encode :: "nat option \<Rightarrow> bytes \<Rightarrow> int \<times> bytes \<times> nat" where
  "xml_encode room src = enc_loop src room 0 [] 0"

section \<open>The decoder\<close>

text \<open>The search for the semicolon of an escape; \<open>Inl\<close> when it is missing, else the position behind it.\<close>

function find_semi :: "bytes \<Rightarrow> nat \<Rightarrow> nat \<Rightarrow> (unit + nat \<times> nat) option" where
  "find_semi mem s src_len =
     (if src_len = 0 then Some (Inl ())
      else if s < length mem then
        (if mem ! s = 0 then Some (Inl ())
         else if mem ! s = of_char (CHR '';'') then Some (Inr (s + 1, src_len - 1))
         else find_semi mem (s + 1) (src_len - 1))
      else None)"
  by pat_completeness auto

termination
  by (relation "measure (\<lambda>(mem, s, src_len). src_len)") auto

declare find_semi.simps [simp del]

text \<open>Writes to the destination; \<open>None\<close> when one is outside the memory.\<close>

definition mem_put :: "bytes \<Rightarrow> nat \<Rightarrow> u8 \<Rightarrow> bytes option" where
  "mem_put mem d c = (if d < length mem then Some (mem[d := c]) else None)"

fun mem_puts :: "bytes \<Rightarrow> nat \<Rightarrow> bytes \<Rightarrow> bytes option" where
  "mem_puts mem d [] = Some mem"
| "mem_puts mem d (c # cs) = Option.bind (mem_put mem d c) (\<lambda>mem. mem_puts mem (d + 1) cs)"

text \<open>The bytes of a character number above 127: the first one, and the middle ones.\<close>

definition utf_extra :: "u32 \<Rightarrow> nat" where
  "utf_extra val = (if val \<le> 0x7ff then 1 else if val \<le> 0xffff then 2 else if val \<le> 0x1fffff then 3 else if val \<le> 0x3ffffff then 4 else 5)"

definition utf_head :: "u32 \<Rightarrow> u8" where
  "utf_head val =
     (if val \<le> 0x7ff then ucast (0xc0 OR drop_bit 6 val)
      else if val \<le> 0xffff then ucast (0xe0 OR drop_bit 12 val)
      else if val \<le> 0x1fffff then ucast (0xf0 OR drop_bit 18 val)
      else if val \<le> 0x3ffffff then ucast (0xf8 OR drop_bit 24 val)
      else ucast (0xfc OR drop_bit 30 val))"

definition utf_middle :: "u32 \<Rightarrow> bytes" where
  "utf_middle val = map (\<lambda>c. ucast (0x80 OR (drop_bit (6 * c) val AND 0x3f))) (rev [1..<utf_extra val])"

definition utf_final :: "u32 \<Rightarrow> u8" where
  "utf_final val = ucast (0x80 OR (val AND 0x3f))"

text \<open>
  What an escape between \<open>&\<close> and \<open>;\<close> stands for: an error, a character, or a number to be written in
  UTF-8.
\<close>

datatype escape = Bad_escape | Esc_char u8 | Esc_utf u32

definition xml_unescape :: "bytes \<Rightarrow> escape" where
  "xml_unescape esc =
     (if esc = str ''amp'' then Esc_char (of_char (CHR ''&''))
      else if esc = str ''lt'' then Esc_char (of_char (CHR ''<''))
      else if esc = str ''gt'' then Esc_char (of_char (CHR ''>''))
      else if esc = str ''quot'' then Esc_char 0x22
      else if esc = str ''apos'' then Esc_char 0x27
      else if cchar esc 0 = of_char (CHR ''#'') then
        (let (val, n) = strtoul 10 (drop 1 esc)
         in if cchar (drop 1 esc) n \<noteq> 0 \<or> val > 0x7fffffff then Bad_escape
            else if val \<le> 127 then Esc_char (ucast val) else Esc_utf val)
      else Bad_escape)"

text \<open>
  What is stored for it: an error return (\<open>Inl\<close>), or the memory and the number of bytes.  The first byte of
  a multi-byte character is stored before the room is checked.
\<close>

fun put_escape :: "bytes \<Rightarrow> nat \<Rightarrow> nat \<Rightarrow> escape \<Rightarrow> (bytes + bytes \<times> nat) option" where
  "put_escape mem d dest_len Bad_escape = Some (Inl mem)"
| "put_escape mem d dest_len (Esc_char c) =
     (case mem_put mem d c of None \<Rightarrow> None | Some mem \<Rightarrow> Some (Inr (mem, 1)))"
| "put_escape mem d dest_len (Esc_utf val) =
     (case mem_put mem d (utf_head val) of
        None \<Rightarrow> None
      | Some mem \<Rightarrow>
          if dest_len \<le> utf_extra val then Some (Inl mem)
          else
            (case mem_puts mem (d + 1) (utf_middle val @ [utf_final val]) of
               None \<Rightarrow> None
             | Some mem \<Rightarrow> Some (Inr (mem, utf_extra val + 1))))"

text \<open>
  The main loop: memory, destination and room, source and \<open>src_len\<close>, and the length so far.  The result is
  the value returned, the memory, and the position that is stored in \<^verbatim>\<open>*leftover\<close>.
\<close>

definition dec_finish :: "bytes \<Rightarrow> nat \<Rightarrow> nat \<Rightarrow> nat \<Rightarrow> nat option \<Rightarrow> (int \<times> bytes \<times> nat option) option" where
  "dec_finish mem d dest_len len left =
     (if dest_len \<le> 0 then Some (- 2, mem, left)
      else Option.bind (mem_put mem d 0) (\<lambda>mem. Some (int len, mem, left)))"

lemma find_semi_after: "find_semi mem s n = Some (Inr (s', n')) \<Longrightarrow> s < s' \<and> s' \<le> length mem"
  by (induction mem s n rule: find_semi.induct) (subst (asm) (2) find_semi.simps, auto split: if_splits)

lemma mem_put_length: "mem_put mem d c = Some mem' \<Longrightarrow> length mem' = length mem"
  by (auto simp: mem_put_def split: if_splits)

lemma mem_puts_length: "mem_puts mem d cs = Some mem' \<Longrightarrow> length mem' = length mem"
  by (induction mem d cs rule: mem_puts.induct) (auto simp: Option.bind_eq_Some_conv dest: mem_put_length)

lemma put_escape_length: "put_escape mem d dest_len esc = Some (Inr (mem', n)) \<Longrightarrow> length mem' = length mem"
  by (induction mem d dest_len esc rule: put_escape.induct)
    (auto split: option.splits if_splits dest!: mem_put_length mem_puts_length)

function dec_loop :: "bytes \<Rightarrow> nat \<Rightarrow> nat \<Rightarrow> nat \<Rightarrow> nat \<Rightarrow> nat \<Rightarrow> (int \<times> bytes \<times> nat option) option" where
  "dec_loop mem d dest_len s src_len len =
     (if src_len > 0 \<and> dest_len > 1 then
        (if s < length mem then
           (if mem ! s = 0 then dec_finish mem d dest_len len None
            else if mem ! s = of_char (CHR ''&'') then
              (case find_semi mem (s + 1) src_len of
                 None \<Rightarrow> None
               | Some (Inl u) \<Rightarrow> dec_finish mem d dest_len len (Some s)
               | Some (Inr (s', src_len')) \<Rightarrow>
                   (let mem1 = mem[s' - 1 := 0]
                    in case put_escape mem1 d dest_len (xml_unescape (cstr (drop (s + 1) mem1))) of
                         None \<Rightarrow> None
                       | Some (Inl mem2) \<Rightarrow> Some (- 2, mem2, None)
                       | Some (Inr (mem2, n)) \<Rightarrow> dec_loop mem2 (d + n) (dest_len - n) s' src_len' (len + n)))
            else
              (case mem_put mem d (mem ! s) of
                 None \<Rightarrow> None
               | Some mem1 \<Rightarrow> dec_loop mem1 (d + 1) (dest_len - 1) (s + 1) src_len (len + 1)))
         else None)
      else dec_finish mem d dest_len len None)"
  by pat_completeness auto

termination
  by (relation "measure (\<lambda>(mem, d, dest_len, s, src_len, len). length mem - s)")
    (auto dest!: find_semi_after mem_put_length put_escape_length)

declare dec_loop.simps [simp del]

definition xml_decode :: "bytes \<Rightarrow> nat \<Rightarrow> nat \<Rightarrow> nat \<Rightarrow> nat \<Rightarrow> (int \<times> bytes \<times> nat option) option" where
  "xml_decode mem dest dest_len src src_len = dec_loop mem dest dest_len src src_len 0"

section \<open>What the encoder computes\<close>

text \<open>Multi-byte characters have their bytes, judged by the first one.\<close>

fun utf_shape :: "nat \<Rightarrow> bytes \<Rightarrow> bool" where
  "utf_shape extra [] = (extra = 0)"
| "utf_shape extra (c # cs) =
     (if extra > 0 then c > 0x7f \<and> utf_shape (extra - 1) cs
      else utf_shape (if c \<le> 0x7f then 0 else read_extra c) cs)"

definition escape_char :: "u8 \<Rightarrow> bytes" where
  "escape_char c = (case xml_esc c of Some e \<Rightarrow> e | None \<Rightarrow> [c])"

definition xml_escape :: "bytes \<Rightarrow> bytes" where
  "xml_escape src = concat (map escape_char src)"

lemma xml_escape_simps [simp]: "xml_escape [] = []" "xml_escape (c # cs) = escape_char c @ xml_escape cs"
  by (simp_all add: xml_escape_def)

text \<open>The shape of an escape, and what the decoder makes of it.\<close>

abbreviation amp :: u8 where "amp \<equiv> 0x26"
abbreviation semi :: u8 where "semi \<equiv> 0x3B"

lemma decimal2_all:
  "\<forall>n \<in> set [0..<32]. decimal2 n \<noteq> [] \<and> list_all (is_digit 10) (decimal2 n) \<and> digits_value 10 (decimal2 n) = n
    \<and> 0 \<notin> set (decimal2 n) \<and> semi \<notin> set (decimal2 n)"
  by code_simp

lemma unescape_number:
  assumes "n < 32"
  shows "xml_unescape (0x23 # decimal2 n) = Esc_char (word_of_nat n)"
proof -
  have d: "decimal2 n \<noteq> []" "list_all (is_digit 10) (decimal2 n)" "digits_value 10 (decimal2 n) = n"
    using decimal2_all assms by simp_all
  have "strtoul 10 (decimal2 n) = (word_of_nat n, length (decimal2 n))"
    using strtoul_decimal [OF d(1,2), of "[]"] d(3) assms by simp
  moreover have "unat (word_of_nat n :: u32) = n" using assms by (simp add: unat_of_nat take_bit_eq_mod)
  then have "\<not> (word_of_nat n :: u32) > 0x7fffffff" "(word_of_nat n :: u32) \<le> 127"
    using assms by (simp_all add: word_less_nat_alt word_le_nat_alt)
  moreover have "ucast (word_of_nat n :: u32) = (word_of_nat n :: u8)"
    using assms by (simp add: word_unat_eq_iff unsigned_ucast_eq unat_of_nat take_bit_eq_mod)
  moreover have "cchar (decimal2 n) (length (decimal2 n)) = 0" by (simp add: cchar_def)
  ultimately show ?thesis by (simp add: xml_unescape_def str_def)
qed

definition named_escapes :: "(u8 \<times> string) list" where
  "named_escapes = [(amp, ''amp''), (0x3C, ''lt''), (0x3E, ''gt''), (0x22, ''quot''), (0x27, ''apos'')]"

lemma unescape_named: "(c, nm) \<in> set named_escapes \<Longrightarrow>
    xml_unescape (str nm) = Esc_char c \<and> 0 \<notin> set (str nm) \<and> semi \<notin> set (str nm) \<and> c \<le> 0x7f"
  by (auto simp: named_escapes_def xml_unescape_def str_def)

lemma xml_esc_cases:
  "xml_esc c = (case map_of named_escapes c of
     Some nm \<Rightarrow> Some (amp # str nm @ [semi])
   | None \<Rightarrow> if c < 0x20 then Some (amp # (0x23 # decimal2 (unat c)) @ [semi]) else None)"
  by (simp add: xml_esc_def named_escapes_def str_def)

lemma esc_none: "xml_esc c = None \<Longrightarrow> c \<noteq> 0 \<and> c \<noteq> amp"
  by (auto simp: xml_esc_def split: if_splits)

lemma esc_some:
  assumes "xml_esc c = Some e"
  shows "\<exists>nm. e = amp # nm @ [semi] \<and> 0 \<notin> set nm \<and> semi \<notin> set nm \<and> xml_unescape nm = Esc_char c \<and> c \<le> 0x7f"
proof (cases "map_of named_escapes c")
  case (Some nm)
  then show ?thesis
    using assms unescape_named [OF map_of_SomeD [OF Some]] by (intro exI [of _ "str nm"]) (simp add: xml_esc_cases)
next
  case None
  then have c: "c < 0x20" and e: "e = amp # (0x23 # decimal2 (unat c)) @ [semi]"
    using assms by (auto simp: xml_esc_cases split: if_splits)
  have n: "unat c < 32" using c by (simp add: word_less_nat_alt)
  have "c \<le> 0x7f" using c by (rule order_less_imp_le [OF order_less_le_trans]) simp
  then show ?thesis
    using e n decimal2_all unescape_number [OF n] by (intro exI [of _ "0x23 # decimal2 (unat c)"]) simp
qed

lemma escape_char_length: "1 \<le> length (escape_char c)"
  using esc_some [of c] by (auto simp: escape_char_def split: option.split)

lemma escape_high: "c > 0x7f \<Longrightarrow> escape_char c = [c]"
  using esc_some [of c] by (cases "xml_esc c") (auto simp: escape_char_def)

lemma utf_shape_length: "utf_shape extra src \<Longrightarrow> extra \<le> length (xml_escape src)"
  by (induction extra src rule: utf_shape.induct) (auto simp: escape_high split: if_splits)

definition room_ok :: "nat option \<Rightarrow> nat \<Rightarrow> bool" where
  "room_ok room n = (case room of None \<Rightarrow> True | Some r \<Rightarrow> n + 2 \<le> r)"

lemma enc_loop_full:
  assumes "utf_shape extra src" "room_ok room (length (xml_escape src))"
  shows "enc_loop src room extra out used
    = (int (length (out @ xml_escape src)), out @ xml_escape src @ (if room = None then [] else [0]), used + length src)"
  using assms
proof (induction src arbitrary: room extra out used)
  case Nil
  then show ?case by (auto simp: enc_finish_def room_ok_def split: option.split)
next
  case (Cons c src)
  define n where "n = length (xml_escape src)"
  have ok: "dest_ok room 1" and ok_n: "room_ok room (length (escape_char c) + n)"
    using Cons.prems(2) escape_char_length [of c] by (auto simp: room_ok_def dest_ok_def n_def split: option.splits)
  have minus: "dest_minus room (length (escape_char c)) = None \<longleftrightarrow> room = None"
    "room_ok (dest_minus room (length (escape_char c))) n"
    using ok_n by (auto simp: room_ok_def dest_minus_def split: option.splits)
  have add: "xml_add_to_dest room out c = Some (dest_minus room 1, out @ [c])"
    using ok by (auto simp: xml_add_to_dest_def dest_ok_def dest_minus_def split: option.split)
  note IH = Cons.IH [OF _ minus(2) [unfolded n_def]]
  show ?case
  proof (cases "extra > 0")
    case True
    then have "c > 0x7f" "utf_shape (extra - 1) src" using Cons.prems(1) by simp_all
    then show ?thesis
      using IH [of "extra - 1" "out @ [c]" "used + 1"] True ok add minus(1)
      by (simp add: escape_high not_le)
  next
    case False
    show ?thesis
    proof (cases "xml_esc c")
      case (Some e)
      then have "c \<le> 0x7f" using esc_some by blast
      then have "utf_shape 0 src" using Cons.prems(1) False by simp
      moreover have "dest_ok room (length e + 1)"
        using ok_n Some by (auto simp: dest_ok_def room_ok_def escape_char_def split: option.splits)
      ultimately show ?thesis
        using IH [of 0 "out @ e" "used + 1"] False ok minus(1) Some by (simp add: escape_char_def)
    next
      case None
      then have char: "escape_char c = [c]" by (simp add: escape_char_def)
      show ?thesis
      proof (cases "c \<le> 0x7f")
        case True
        then have "utf_shape 0 src" using Cons.prems(1) False by simp
        then show ?thesis using IH [of 0 "out @ [c]" "used + 1"] True False ok add minus(1) None char by simp
      next
        case high: False
        then have shape: "utf_shape (read_extra c) src" using Cons.prems(1) False by simp
        then have "dest_ok room (read_extra c + 2)"
          using utf_shape_length [OF shape] ok_n char by (auto simp: dest_ok_def room_ok_def n_def split: option.splits)
        then show ?thesis
          using IH [OF shape, of "out @ [c]" "used + 1"] high False ok add minus(1) None char by simp
      qed
    qed
  qed
qed

section \<open>Decoding an encoded string in place\<close>

lemma find_semi_found:
  assumes "0 \<notin> set nm" "semi \<notin> set nm" "length nm < n"
  shows "find_semi (a @ nm @ semi # b) (length a) n = Some (Inr (length a + length nm + 1, n - length nm - 1))"
  using assms
proof (induction nm arbitrary: a n)
  case Nil
  then show ?case by (subst find_semi.simps) (simp add: nth_append)
next
  case (Cons c nm)
  have "find_semi ((a @ [c]) @ nm @ semi # b) (length (a @ [c])) (n - 1)
      = Some (Inr (length (a @ [c]) + length nm + 1, n - 1 - length nm - 1))"
    using Cons.prems by (intro Cons.IH) simp_all
  then show ?case using Cons.prems by (subst find_semi.simps) (auto simp: nth_append)
qed

lemma write_front: "\<exists>junk2. (pre @ junk @ x # rest)[length pre := c] = (pre @ [c]) @ junk2 @ rest \<and> length junk2 = length junk"
proof (cases junk)
  case Nil
  then show ?thesis by (intro exI [of _ "[]"]) (simp add: list_update_append)
next
  case (Cons j junk')
  then show ?thesis by (intro exI [of _ "junk' @ [x]"]) (simp add: list_update_append)
qed

lemma dec_escape:
  assumes "0 < src_len" "1 < dest_len" "s < length mem" "mem ! s = amp" "d < length mem"
    and "find_semi mem (s + 1) src_len = Some (Inr (s', src_len'))"
    and "mem[s' - 1 := 0] = mem1" "xml_unescape (cstr (drop (s + 1) mem1)) = Esc_char c"
  shows "dec_loop mem d dest_len s src_len len = dec_loop (mem1[d := c]) (d + 1) (dest_len - 1) s' src_len' (len + 1)"
proof -
  have "mem_put mem1 d c = Some (mem1[d := c])" using assms(5,7) by (auto simp: mem_put_def)
  then show ?thesis using assms by (subst dec_loop.simps) (simp add: Let_def)
qed

lemma dec_loop_escaped:
  assumes "length src < dest_len" "length (xml_escape src) \<le> src_len"
  shows "\<exists>junk'. dec_loop (pre @ junk @ xml_escape src @ 0 # post) (length pre) dest_len (length pre + length junk) src_len len
    = Some (int (len + length src), pre @ src @ 0 # junk' @ post, None)"
  using assms
proof (induction src arbitrary: pre junk dest_len src_len len)
  case Nil
  obtain junk2 where w: "(pre @ junk @ 0 # post)[length pre := 0] = (pre @ [0]) @ junk2 @ post"
    using write_front [of pre junk 0 post 0] by blast
  show ?case
    using Nil w by (subst dec_loop.simps) (auto simp: nth_append dec_finish_def mem_put_def)
next
  case (Cons c src)
  let ?mem = "pre @ junk @ xml_escape (c # src) @ 0 # post"
  let ?s = "length pre + length junk"
  have d: "\<not> dest_len \<le> 1" "length src < dest_len - 1" using Cons.prems by simp_all
  show ?case
  proof (cases "xml_esc c")
    case None
    then have char: "escape_char c = [c]" "c \<noteq> 0" "c \<noteq> amp" using esc_none [of c] by (simp_all add: escape_char_def)
    obtain junk2 where w: "?mem[length pre := c] = (pre @ [c]) @ junk2 @ xml_escape src @ 0 # post" "length junk2 = length junk"
      using write_front [of pre junk c "xml_escape src @ 0 # post" c] char(1) by auto
    have "\<exists>junk'. dec_loop ((pre @ [c]) @ junk2 @ xml_escape src @ 0 # post) (length (pre @ [c])) (dest_len - 1)
        (length (pre @ [c]) + length junk2) src_len (len + 1)
      = Some (int (len + 1 + length src), (pre @ [c]) @ src @ 0 # junk' @ post, None)"
      using Cons.prems char d by (intro Cons.IH) simp_all
    moreover have "dec_loop ?mem (length pre) dest_len ?s src_len len
        = dec_loop ((pre @ [c]) @ junk2 @ xml_escape src @ 0 # post) (length (pre @ [c])) (dest_len - 1)
            (length (pre @ [c]) + length junk2) src_len (len + 1)"
      using Cons.prems d char w by (subst dec_loop.simps) (simp add: nth_append mem_put_def)
    ultimately show ?thesis by auto
  next
    case (Some e)
    then obtain nm where nm: "e = amp # nm @ [semi]" "0 \<notin> set nm" "semi \<notin> set nm" "xml_unescape nm = Esc_char c"
      using esc_some by blast
    have esc: "escape_char c = e" using Some by (simp add: escape_char_def)
    have mem: "?mem = pre @ junk @ amp # nm @ semi # xml_escape src @ 0 # post" by (simp add: esc nm(1))
    have find: "find_semi ?mem (?s + 1) src_len = Some (Inr (?s + 1 + length nm + 1, src_len - length nm - 1))"
      using find_semi_found [OF nm(2,3), of src_len "pre @ junk @ [amp]" "xml_escape src @ 0 # post"] Cons.prems(2)
      by (simp add: mem esc nm(1))
    let ?mem1 = "pre @ junk @ amp # nm @ 0 # xml_escape src @ 0 # post"
    have mem1: "?mem[?s + 1 + length nm := 0] = ?mem1"
      unfolding mem by (simp add: list_update_append)
    have name: "cstr (drop (?s + 1) ?mem1) = nm" by (simp add: cstr_front nm(2))
    obtain junk2 where w: "?mem1[length pre := c] = (pre @ [c]) @ junk2 @ xml_escape src @ 0 # post"
      "length junk2 = length junk + length nm + 1"
      using write_front [of pre "junk @ amp # nm" 0 "xml_escape src @ 0 # post" c] by auto
    have "\<exists>junk'. dec_loop ((pre @ [c]) @ junk2 @ xml_escape src @ 0 # post) (length (pre @ [c])) (dest_len - 1)
        (length (pre @ [c]) + length junk2) (src_len - length nm - 1) (len + 1)
      = Some (int (len + 1 + length src), (pre @ [c]) @ src @ 0 # junk' @ post, None)"
      using Cons.prems d esc nm(1) by (intro Cons.IH) simp_all
    moreover have "dec_loop ?mem (length pre) dest_len ?s src_len len
        = dec_loop (?mem1[length pre := c]) (length pre + 1) (dest_len - 1) (?s + 1 + length nm + 1) (src_len - length nm - 1) (len + 1)"
      by (rule dec_escape [OF _ _ _ _ _ find])
        (use Cons.prems(2) d mem1 name nm(4) in \<open>simp_all add: esc nm(1) nth_append\<close>)
    ultimately show ?thesis unfolding w(1) by (auto simp: w(2) add.commute add.left_commute)
  qed
qed

section \<open>The decoder stays inside its string\<close>

lemma digits_value_bound: "digits_value 10 ds < 10 ^ length ds" if "list_all (is_digit 10) ds"
  using that
proof (induction ds rule: rev_induct)
  case (snoc c ds)
  have "the (c_digit 10 c) < 10"
    using snoc.prems by (auto simp: is_digit_def c_digit_def Let_def split: if_splits)
  moreover have "digits_value 10 ds < 10 ^ length ds" using snoc by simp
  ultimately show ?case by (simp add: digits_value_def)
qed (simp add: digits_value_def)

lemma small_negative:
  assumes "0 < v" "v < 100"
  shows "(- word_of_nat v :: u32) > 0x7fffffff"
proof -
  have "(- word_of_nat v :: u32) = word_of_int (- int v)" by simp
  then have "uint (- word_of_nat v :: u32) = (- int v) mod 2 ^ 32" by (simp only: uint_word_of_int) simp
  also have "\<dots> = 2 ^ 32 - int v"
    using assms by (simp add: zmod_zminus1_eq_if)
  finally show ?thesis using assms by (simp add: word_less_def)
qed

lemma strtoul_big_length:
  assumes "strtoul 10 s = (val, n)" "\<not> val \<le> 127" "\<not> val > 0x7fffffff"
  shows "3 \<le> length s"
proof (rule ccontr)
  assume short: "\<not> 3 \<le> length s"
  obtain neg v n' where num: "c_number 10 s = ((neg, v), n')" by (metis surj_pair)
  define ds where "ds = takeWhile (is_digit 10) (drop (length (takeWhile c_isspace s)
    + snd (c_sign (drop (length (takeWhile c_isspace s)) s))) s)"
  have "list_all (is_digit 10) ds" by (auto simp: ds_def list_all_iff dest: set_takeWhileD)
  then have "digits_value 10 ds < 10 ^ length ds" by (rule digits_value_bound)
  also have "length ds \<le> 2"
    unfolding ds_def by (rule le_trans [OF length_takeWhile_le]) (use short in simp)
  then have "(10 :: nat) ^ length ds \<le> 10 ^ 2" by (rule power_increasing) simp
  finally have "digits_value 10 ds < 100" by simp
  then have v: "v < 100"
    using num by (auto simp: c_number_def Let_def ds_def split: prod.splits if_splits)
  then have "val = (if neg then - word_of_nat v else word_of_nat v)"
    using assms(1) num by (simp add: strtoul_def)
  moreover have "(word_of_nat v :: u32) \<le> 127"
    using v by (simp add: word_le_nat_alt unat_of_nat take_bit_eq_mod)
  moreover have "(- word_of_nat v :: u32) > 0x7fffffff" if "0 < v"
    using small_negative [OF that v] .
  ultimately show False using assms(2,3) by (cases "v = 0") (auto split: if_splits)
qed

lemma unescape_utf_length:
  assumes "xml_unescape esc = Esc_utf val"
  shows "4 \<le> length esc"
proof -
  obtain v n where "strtoul 10 (drop 1 esc) = (v, n)" by (metis surj_pair)
  moreover from this have "\<not> v \<le> 127" "\<not> v > 0x7fffffff"
    using assms by (auto simp: xml_unescape_def split: if_splits)
  ultimately have "3 \<le> length (drop 1 esc)" by (rule strtoul_big_length)
  then show ?thesis by simp
qed

text \<open>The search ends at a semicolon, with no NUL before it.\<close>

lemma find_semi_result:
  "find_semi mem s n = Some (Inr (s', n')) \<Longrightarrow>
     s < s' \<and> s' \<le> length mem \<and> mem ! (s' - 1) = semi \<and> (\<forall>i. s \<le> i \<and> i < s' \<longrightarrow> mem ! i \<noteq> 0)"
proof (induction mem s n rule: find_semi.induct)
  case (1 mem s n)
  have c: "n \<noteq> 0" "s < length mem" "mem ! s \<noteq> 0"
    using "1.prems" by (subst (asm) find_semi.simps, auto split: if_splits)+
  show ?case
  proof (cases "mem ! s = semi")
    case True
    then have "s' = s + 1" using "1.prems" c by (subst (asm) find_semi.simps) simp
    then show ?thesis using True c by (auto simp: less_Suc_eq le_less)
  next
    case False
    then have "find_semi mem (s + 1) (n - 1) = Some (Inr (s', n'))"
      using "1.prems" c by (subst (asm) find_semi.simps) simp
    then have "s + 1 < s' \<and> s' \<le> length mem \<and> mem ! (s' - 1) = semi \<and> (\<forall>i. s + 1 \<le> i \<and> i < s' \<longrightarrow> mem ! i \<noteq> 0)"
      using "1.IH" c False by simp
    moreover have "i = s \<or> s + 1 \<le> i" if "s \<le> i" for i using that by linarith
    ultimately show ?thesis using c(3) by (metis Suc_eq_plus1 Suc_lessD)
  qed
qed

text \<open>
  Every store of the decoder is behind the destination and before the position it has read up to; so it
  changes nothing outside the string, and what is left of the string is unchanged when it is read.
\<close>

definition changed_in :: "nat \<Rightarrow> nat \<Rightarrow> bytes \<Rightarrow> bytes \<Rightarrow> bool" where
  "changed_in a b m m' \<longleftrightarrow> length m' = length m \<and> (\<forall>i. i < a \<or> b \<le> i \<longrightarrow> m' ! i = m ! i)"

lemma changed_in_refl [simp]: "changed_in a b m m"
  by (simp add: changed_in_def)

lemma changed_in_trans: "changed_in a b m m' \<Longrightarrow> changed_in a' b' m' m'' \<Longrightarrow> a \<le> a' \<Longrightarrow> b \<le> b' \<Longrightarrow> changed_in a b' m m''"
  by (simp add: changed_in_def)

lemma changed_in_update: "a \<le> i \<Longrightarrow> i < b \<Longrightarrow> changed_in a b m (m[i := c])"
  by (auto simp: changed_in_def nth_list_update)

lemma mem_put_in: "a \<le> d \<Longrightarrow> d < b \<Longrightarrow> b \<le> length m \<Longrightarrow> \<exists>m'. mem_put m d c = Some m' \<and> changed_in a b m m'"
  by (simp add: mem_put_def changed_in_update)

lemma mem_puts_in:
  "a \<le> d \<Longrightarrow> d + length cs \<le> b \<Longrightarrow> b \<le> length m \<Longrightarrow> \<exists>m'. mem_puts m d cs = Some m' \<and> changed_in a b m m'"
proof (induction cs arbitrary: d m)
  case (Cons c cs)
  obtain m1 where m1: "mem_put m d c = Some m1" "changed_in a b m m1"
    using mem_put_in [of a d b m c] Cons.prems by auto
  obtain m2 where "mem_puts m1 (d + 1) cs = Some m2" "changed_in a b m1 m2"
    using Cons.IH [of "d + 1" m1] Cons.prems m1(2) by (auto simp: changed_in_def)
  then show ?case using m1 changed_in_trans [OF m1(2)] by auto
qed simp

lemma dec_finish_safe:
  assumes "a \<le> d" "d \<le> z" "z < length mem" "mem ! z = 0"
  shows "\<exists>r mem'. dec_finish mem d dest_len len left = Some (r, mem', left) \<and> changed_in a (z + 1) mem mem' \<and> mem' ! z = 0"
proof (cases "dest_len = 0")
  case False
  moreover have "mem_put mem d 0 = Some (mem[d := 0])" "changed_in a (z + 1) mem (mem[d := 0])"
    using assms by (simp_all add: mem_put_def changed_in_update)
  moreover have "mem[d := 0] ! z = 0" using assms by (simp add: nth_list_update)
  ultimately show ?thesis by (simp add: dec_finish_def)
qed (use assms(4) in \<open>simp add: dec_finish_def\<close>)

lemma utf_sizes: "length (utf_middle val @ [utf_final val]) = utf_extra val" "utf_extra val \<le> 5"
  by (simp_all add: utf_middle_def utf_extra_def)

lemma find_semi_defined:
  "s \<le> z \<Longrightarrow> z < length mem \<Longrightarrow> mem ! z = 0 \<Longrightarrow> find_semi mem s n \<noteq> None"
proof (induction mem s n rule: find_semi.induct)
  case (1 mem s n)
  then have "mem ! s \<noteq> 0 \<Longrightarrow> s + 1 \<le> z" by (metis Suc_eq_plus1 Suc_leI le_neq_implies_less)
  then show ?case using 1 by (subst find_semi.simps) auto
qed

lemma takeWhile_stops: "i < length xs \<Longrightarrow> \<not> P (xs ! i) \<Longrightarrow> length (takeWhile P xs) \<le> i"
  by (metis nth_mem not_less set_takeWhileD takeWhile_nth)

lemma escape_room:
  assumes "xml_unescape (cstr (drop (s + 1) mem)) = Esc_utf val" "s < e" "e < length mem" "mem ! e = 0"
  shows "s + 5 \<le> e"
proof -
  have "length (cstr (drop (s + 1) mem)) \<le> e - (s + 1)"
    unfolding cstr_def by (rule takeWhile_stops) (use assms in simp_all)
  then show ?thesis using unescape_utf_length [OF assms(1)] by simp
qed

lemma put_escape_safe:
  assumes "a \<le> d" "d < z" "z \<le> length mem" "\<And>val. esc = Esc_utf val \<Longrightarrow> d + 5 < z"
  shows "\<exists>mem'. changed_in a z mem mem' \<and>
    (put_escape mem d dest_len esc = Some (Inl mem')
      \<or> (\<exists>n. put_escape mem d dest_len esc = Some (Inr (mem', n)) \<and> 0 < n \<and> n \<le> 6 \<and> (n = 1 \<or> (\<exists>val. esc = Esc_utf val))))"
proof (cases esc)
  case Bad_escape
  then show ?thesis by (intro exI [of _ mem]) simp
next
  case (Esc_char c)
  then show ?thesis using mem_put_in [OF assms(1-3), of c] by auto
next
  case (Esc_utf val)
  obtain m1 where m1: "mem_put mem d (utf_head val) = Some m1" "changed_in a z mem m1"
    using mem_put_in [OF assms(1-3)] by blast
  then obtain m2 where m2: "mem_puts m1 (d + 1) (utf_middle val @ [utf_final val]) = Some m2" "changed_in a z m1 m2"
    using mem_puts_in [of a "d + 1" "utf_middle val @ [utf_final val]" z m1] assms Esc_utf utf_sizes [of val]
    by (auto simp: changed_in_def)
  then have "changed_in a z mem m2" using changed_in_trans [OF m1(2) m2(2)] by simp
  then show ?thesis using m1 m2 Esc_utf utf_sizes(2) [of val] by auto
qed

lemma dec_loop_safe:
  assumes "a \<le> d" "d \<le> s" "s \<le> z" "z < length mem" "mem ! z = 0"
  shows "\<exists>r mem' left. dec_loop mem d dest_len s src_len len = Some (r, mem', left) \<and> changed_in a (z + 1) mem mem'
    \<and> mem' ! z = 0 \<and> (\<forall>p. left = Some p \<longrightarrow> p \<le> z)"
  using assms
proof (induction "length mem - s" arbitrary: mem d dest_len s src_len len rule: less_induct)
  case less
  let ?ok = "\<lambda>m res. \<exists>r mem' left. res = Some (r, mem', left) \<and> changed_in a (z + 1) m mem' \<and> mem' ! z = 0
    \<and> (\<forall>p. left = Some p \<longrightarrow> p \<le> z)"
  note prems = less.prems
  have finish: "?ok mem (dec_finish mem d dest_len len lo)" if "lo = None \<or> lo = Some s" for lo
    using dec_finish_safe [of a d z mem dest_len len lo] prems that by auto
  have step: "?ok mem (dec_loop mem' d' dl' s' sl' len')"
    if "changed_in a z mem mem'" "s < s'" "s' \<le> z" "a \<le> d'" "d' \<le> s'" for mem' d' dl' s' sl' len'
  proof -
    have "length mem' = length mem" "mem' ! z = 0" using that(1) prems(5) by (simp_all add: changed_in_def)
    then have "?ok mem' (dec_loop mem' d' dl' s' sl' len')"
      using that prems(4) by (intro less.hyps) simp_all
    then show ?thesis using changed_in_trans [OF that(1)] by fastforce
  qed
  show ?case
  proof (cases "src_len > 0 \<and> dest_len > 1 \<and> mem ! s \<noteq> 0")
    case False
    then show ?thesis using finish prems by (subst dec_loop.simps) auto
  next
    case go: True
    then have s: "s < z" "s < length mem" using prems by (metis le_neq_implies_less, simp)
    show ?thesis
    proof (cases "mem ! s = amp")
      case False
      obtain m1 where m1: "mem_put mem d (mem ! s) = Some m1" "changed_in a z mem m1"
        using mem_put_in [of a d z mem "mem ! s"] prems s by auto
      show ?thesis
        using step [OF m1(2), of "s + 1" "d + 1" "dest_len - 1" src_len "len + 1"] go False s prems m1(1)
        by (subst dec_loop.simps) simp
    next
      case escape: True
      obtain res where res: "find_semi mem (s + 1) src_len = Some res"
        using find_semi_defined [of "s + 1" z mem src_len] prems s by auto
      show ?thesis
      proof (cases res)
        case (Inl u)
        then show ?thesis using finish [of "Some s"] go s escape res by (subst dec_loop.simps) simp
      next
        case (Inr p)
        obtain s' sl' where p: "p = (s', sl')" by (cases p)
        have semi: "s + 1 < s'" "s' \<le> length mem" "\<forall>i. s + 1 \<le> i \<and> i < s' \<longrightarrow> mem ! i \<noteq> 0"
          using find_semi_result [of mem "s + 1" src_len s' sl'] res Inr p by auto
        have s'z: "s' \<le> z" using semi(3) prems(5) s(1) by (metis Suc_eq_plus1 Suc_leI not_le_imp_less)
        define m1 where "m1 = mem[s' - 1 := 0]"
        let ?esc = "xml_unescape (cstr (drop (s + 1) m1))"
        have m1: "changed_in a z mem m1" "length m1 = length mem"
          unfolding m1_def using semi s'z prems by (simp_all add: changed_in_update)
        have room: "d + 5 < s'" if "?esc = Esc_utf val" for val
        proof -
          have "s + 5 \<le> s' - 1"
            by (rule escape_room [OF that]) (use semi(1,2) in \<open>simp_all add: m1_def\<close>)
          then show ?thesis using semi(1) prems(2) by linarith
        qed
        obtain m2 where m2: "changed_in a z m1 m2"
          "put_escape m1 d dest_len ?esc = Some (Inl m2) \<or> (\<exists>n. put_escape m1 d dest_len ?esc = Some (Inr (m2, n))
             \<and> 0 < n \<and> n \<le> 6 \<and> (n = 1 \<or> (\<exists>val. ?esc = Esc_utf val)))"
          using put_escape_safe [of a d z m1 ?esc dest_len] room s'z prems s m1(2) by fastforce
        have in2: "changed_in a z mem m2" "changed_in a (z + 1) mem m2"
          using changed_in_trans [OF m1(1) m2(1)] by (simp_all add: changed_in_def)
        then have "m2 ! z = 0" using prems(5) by (simp add: changed_in_def)
        have stored: "d + n \<le> s'" if "n \<le> 6" "n = 1 \<or> (\<exists>val. ?esc = Esc_utf val)" for n
          using that room semi(1) prems(2) by fastforce
        have code: "dec_loop mem d dest_len s src_len len =
            (case put_escape m1 d dest_len ?esc of
               None \<Rightarrow> None
             | Some (Inl mem2) \<Rightarrow> Some (- 2, mem2, None)
             | Some (Inr (mem2, n)) \<Rightarrow> dec_loop mem2 (d + n) (dest_len - n) s' sl' (len + n))"
          using go s escape res Inr p by (subst dec_loop.simps) (simp add: Let_def m1_def)
        from m2(2) show ?thesis
        proof
          assume "put_escape m1 d dest_len ?esc = Some (Inl m2)"
          then show ?thesis using code in2(2) \<open>m2 ! z = 0\<close> by simp
        next
          assume "\<exists>n. put_escape m1 d dest_len ?esc = Some (Inr (m2, n)) \<and> 0 < n \<and> n \<le> 6
            \<and> (n = 1 \<or> (\<exists>val. ?esc = Esc_utf val))"
          then obtain n where n: "put_escape m1 d dest_len ?esc = Some (Inr (m2, n))" "d + n \<le> s'"
            using stored by blast
          show ?thesis unfolding code n(1)
            using step [OF in2(1) _ s'z _ n(2)] semi(1) prems(1) by simp
        qed
      qed
    qed
  qed
qed

section \<open>A buffer that is too small\<close>

text \<open>
  \<open>enc_part\<close>: the encoder stopped after the first \<open>k\<close> bytes of \<open>src\<close>, between two characters, at the end or
  with fewer than seven bytes of the \<open>r\<close> left.
\<close>

definition enc_part :: "bytes \<Rightarrow> nat \<Rightarrow> nat \<Rightarrow> bytes \<Rightarrow> nat \<Rightarrow> int \<times> bytes \<times> nat \<Rightarrow> bool" where
  "enc_part src r extra out used res \<longleftrightarrow>
     (\<exists>k \<le> length src. res = (int (length (out @ xml_escape (take k src))), out @ xml_escape (take k src) @ [0], used + k)
        \<and> utf_shape extra (take k src) \<and> length (xml_escape (take k src)) < r
        \<and> (k < length src \<longrightarrow> r < length (xml_escape (take k src)) + 8))"

lemma enc_part_stop: "0 < r \<Longrightarrow> r < 8 \<or> src = [] \<Longrightarrow> enc_part src r 0 out used (enc_finish (Some r) out used)"
  unfolding enc_part_def enc_finish_def by (rule exI [of _ 0]) auto

lemma enc_part_step:
  assumes "enc_part src (r - length (escape_char c)) extra' (out @ escape_char c) (used + 1) res"
    and "length (escape_char c) \<le> r" "\<And>ks. utf_shape extra' ks \<Longrightarrow> utf_shape extra (c # ks)"
  shows "enc_part (c # src) r extra out used res"
proof -
  obtain k where k: "k \<le> length src" "res = (int (length ((out @ escape_char c) @ xml_escape (take k src))),
      (out @ escape_char c) @ xml_escape (take k src) @ [0], used + 1 + k)"
    "utf_shape extra' (take k src)" "length (xml_escape (take k src)) < r - length (escape_char c)"
    "k < length src \<longrightarrow> r - length (escape_char c) < length (xml_escape (take k src)) + 8"
    using assms(1) unfolding enc_part_def by blast
  show ?thesis
    unfolding enc_part_def take_Suc_Cons
    by (rule exI [of _ "Suc k"]) (use k(1,2,4,5) assms(2) assms(3) [OF k(3)] in \<open>auto simp del: utf_shape.simps\<close>)
qed

lemma esc_all_length: "\<forall>n \<in> set [0..<256]. length (escape_char (word_of_nat n)) \<le> 6"
  by code_simp

lemma enc_loop_part:
  assumes "utf_shape extra src" "extra + 1 < r \<or> extra = 0 \<and> 0 < r"
  shows "enc_part src r extra out used (enc_loop src (Some r) extra out used)"
  using assms
proof (induction src arbitrary: r extra out used)
  case Nil
  then show ?case using enc_part_stop [of r "[]" out used] by auto
next
  case (Cons c src)
  note IH = Cons.IH and prems = Cons.prems
  have len: "length (escape_char c) \<le> 6" using u8_all_cases [OF esc_all_length] .
  have stop: "enc_part (c # src) r 0 out used (enc_finish (Some r) out used)" if "r < 8"
    using that prems(2) by (intro enc_part_stop) auto
  have add: "xml_add_to_dest (Some r) out c = Some (Some (r - 1), out @ [c])"
    using prems(2) by (auto simp: xml_add_to_dest_def)
  show ?case
  proof (cases "extra > 0")
    case True
    then have c: "escape_char c = [c]" "c > 0x7f" "utf_shape (extra - 1) src" "extra + 1 < r"
      using prems by (simp_all add: escape_high)
    have "enc_part src (r - 1) (extra - 1) (out @ [c]) (used + 1) (enc_loop src (Some (r - 1)) (extra - 1) (out @ [c]) (used + 1))"
      using c True by (intro IH) auto
    then have "enc_part (c # src) r extra out used (enc_loop src (Some (r - 1)) (extra - 1) (out @ [c]) (used + 1))"
      by (intro enc_part_step [of src r c "extra - 1"]) (use c True in auto)
    moreover have "\<not> c \<le> 0x7f" using c(2) by (simp only: not_le)
    ultimately show ?thesis using True c(4) add by (simp add: dest_ok_def)
  next
    case extra: False
    show ?thesis
    proof (cases "r > 1")
      case False
      then show ?thesis using stop extra by (simp add: dest_ok_def)
    next
      case r: True
      show ?thesis
      proof (cases "xml_esc c")
        case (Some e)
        then have e: "escape_char c = e" "c \<le> 0x7f" using esc_some [OF Some] by (auto simp: escape_char_def)
        have "enc_part (c # src) r 0 out used (enc_loop src (Some (r - length e)) 0 (out @ e) (used + 1))" if "r > length e + 1"
          by (rule enc_part_step [of src r c 0, unfolded e(1)]) (use that e prems extra in \<open>auto intro!: IH\<close>)
        then show ?thesis using Some e r extra stop len by (auto simp: dest_ok_def dest_minus_def)
      next
        case None
        then have e: "escape_char c = [c]" by (simp add: escape_char_def)
        show ?thesis
        proof (cases "c \<le> 0x7f")
          case True
          have "enc_part (c # src) r 0 out used (enc_loop src (Some (r - 1)) 0 (out @ [c]) (used + 1))"
            by (rule enc_part_step [of src r c 0, unfolded e]) (use e prems extra True r in \<open>auto intro!: IH\<close>)
          then show ?thesis using None True add r extra by (simp add: dest_ok_def)
        next
          case high: False
          have "enc_part (c # src) r 0 out used (enc_loop src (Some (r - 1)) (read_extra c) (out @ [c]) (used + 1))"
            if "r > read_extra c + 2"
            by (rule enc_part_step [of src r c "read_extra c", unfolded e]) (use e prems extra high that in \<open>auto intro!: IH\<close>)
          moreover have "read_extra c + 2 < 8" by (simp add: read_extra_def)
          ultimately show ?thesis using None high add r extra stop by (simp add: dest_ok_def)
        qed
      qed
    qed
  qed
qed

section \<open>Correctness\<close>

text \<open>
  C17. Coding characters.  A string whose multi-byte characters are complete is encoded, in a buffer that
  exceeds the encoding by two bytes, with every special character escaped; and decoding the encoding in place,
  as the parser does, gives the string back, changing nothing behind the terminator of the encoding.
\<close>

theorem axml_code_roundtrip:
  assumes "utf_shape 0 src" "length (xml_escape src) + 2 \<le> room"
  shows "\<exists>e. xml_encode (Some room) src = (int (length e), e @ [0], length src)
    \<and> xml_encode None src = (int (length e), e, length src)
    \<and> (\<forall>pre post dest_len src_len. length src < dest_len \<and> length e \<le> src_len \<longrightarrow>
        (\<exists>junk. xml_decode (pre @ e @ 0 # post) (length pre) dest_len (length pre) src_len
          = Some (int (length src), pre @ src @ 0 # junk @ post, None)))"
proof -
  have "xml_encode (Some room) src = (int (length (xml_escape src)), xml_escape src @ [0], length src)"
    using enc_loop_full [OF assms(1), of "Some room" "[]" 0] assms(2) by (simp add: xml_encode_def room_ok_def)
  moreover have "xml_encode None src = (int (length (xml_escape src)), xml_escape src, length src)"
    using enc_loop_full [OF assms(1), of None "[]" 0] by (simp add: xml_encode_def room_ok_def)
  moreover have "\<exists>junk. xml_decode (pre @ xml_escape src @ 0 # post) (length pre) dest_len (length pre) src_len
      = Some (int (length src), pre @ src @ 0 # junk @ post, None)"
    if "length src < dest_len \<and> length (xml_escape src) \<le> src_len" for pre post dest_len src_len
    using dec_loop_escaped [of src dest_len src_len pre "[]" post 0] that by (simp add: xml_decode_def)
  ultimately show ?thesis by blast
qed

definition sample_text :: bytes where
  "sample_text = str ''a<b'' @ [0xC3, 0xA9, 7]"

lemma sample_text_facts: "utf_shape 0 sample_text" "length (xml_escape sample_text) = 12" "length sample_text = 6"
  by code_simp+

theorem axml_code_roundtrip_witness:
  "\<exists>e. xml_encode (Some 14) sample_text = (int (length e), e @ [0], 6)
    \<and> (\<exists>junk. xml_decode ([1] @ e @ 0 # [2]) 1 100 1 100 = Some (6, [1] @ sample_text @ 0 # junk @ [2], None))"
proof -
  obtain e where e: "xml_encode (Some 14) sample_text = (int (length e), e @ [0], 6)"
    "\<forall>pre post dest_len src_len. 6 < dest_len \<and> length e \<le> src_len \<longrightarrow>
      (\<exists>junk. xml_decode (pre @ e @ 0 # post) (length pre) dest_len (length pre) src_len
        = Some (6, pre @ sample_text @ 0 # junk @ post, None))"
    using axml_code_roundtrip [of sample_text 14] sample_text_facts by auto
  moreover have "fst (xml_encode (Some 14) sample_text) = 12" by code_simp
  ultimately have "length e = 12" by simp
  then show ?thesis
    using e(1) e(2) [THEN spec [where x = "[1]"], THEN spec [where x = "[2]"], THEN spec [where x = 100], THEN spec [where x = 100]]
    by (intro exI [of _ e]) simp
qed

text \<open>
  A small buffer.  For a string whose multi-byte characters are complete, whatever the room, the encoder
  stores a terminated encoding of a part of the string that does not cut a character (where the comment above
  the function promises the result -1), reports how many bytes of the string it stands for, never stores behind the
  room, and gives up only with fewer than seven bytes to spare.
\<close>

theorem axml_encode_fits:
  assumes "utf_shape 0 src" "0 < room"
  shows "\<exists>k e. xml_encode (Some room) src = (int (length e), e @ [0], k) \<and> k \<le> length src
    \<and> e = xml_escape (take k src) \<and> utf_shape 0 (take k src) \<and> length (e @ [0]) \<le> room
    \<and> (k < length src \<longrightarrow> room < length (e @ [0]) + 7)"
  using enc_loop_part [of 0 src room "[]" 0] assms by (auto simp: xml_encode_def enc_part_def)

theorem axml_encode_fits_witness:
  "xml_encode (Some 9) sample_text = (6, xml_escape (take 3 sample_text) @ [0], 3)
    \<and> (\<exists>k e. xml_encode (Some 9) sample_text = (int (length e), e @ [0], k) \<and> k \<le> 6
        \<and> e = xml_escape (take k sample_text) \<and> utf_shape 0 (take k sample_text) \<and> length (e @ [0]) \<le> 9
        \<and> (k < 6 \<longrightarrow> 9 < length (e @ [0]) + 7))"
proof
  show "xml_encode (Some 9) sample_text = (6, xml_escape (take 3 sample_text) @ [0], 3)" by code_simp
qed (use axml_encode_fits [of sample_text 9] sample_text_facts in simp)

text \<open>
  C37. Decoding in place is safe.  On any terminated string, whatever escapes it contains and whatever lengths
  are given, the decoder returns, reads nothing behind the terminator, changes nothing outside the string and
  leaves it terminated.
\<close>

theorem axml_decode_safe:
  assumes "a \<le> z" "z < length mem" "mem ! z = 0"
  shows "\<exists>r mem' left. xml_decode mem a dest_len a src_len = Some (r, mem', left)
    \<and> length mem' = length mem \<and> take a mem' = take a mem \<and> drop (z + 1) mem' = drop (z + 1) mem \<and> mem' ! z = 0"
proof -
  obtain r mem' left where r: "xml_decode mem a dest_len a src_len = Some (r, mem', left)" "changed_in a (z + 1) mem mem'"
      "mem' ! z = 0"
    using dec_loop_safe [OF order_refl order_refl assms, of dest_len src_len 0] by (auto simp: xml_decode_def)
  then have m: "length mem' = length mem" "\<forall>i < a. mem' ! i = mem ! i" "\<forall>i \<ge> z + 1. mem' ! i = mem ! i"
    by (simp_all add: changed_in_def)
  then have "take a mem' = take a mem" by (intro nth_equalityI) simp_all
  moreover have "drop (z + 1) mem' = drop (z + 1) mem" using m by (intro nth_equalityI) simp_all
  ultimately show ?thesis using r(1,3) m(1) by simp
qed

definition sample_escapes :: bytes where
  "sample_escapes = str ''x&#300;&#30'' @ [0, 9]"

lemma sample_escapes_facts:
  "length sample_escapes = 13" "sample_escapes ! 11 = 0" "take 1 sample_escapes = str ''x''" "drop 12 sample_escapes = [9]"
  by code_simp+

theorem axml_decode_safe_witness:
  "\<exists>r mem' left. xml_decode sample_escapes 1 65535 1 65535 = Some (r, mem', left)
    \<and> length mem' = 13 \<and> take 1 mem' = str ''x'' \<and> drop 12 mem' = [9] \<and> mem' ! 11 = 0"
  using axml_decode_safe [of 1 11 sample_escapes 65535 65535] sample_escapes_facts by simp

end
