(* ===== verification/AxmlParse.thy ===== *)
theory AxmlParse
  imports AxmlCode
begin

text \<open>
  The agent's XML parser (\<^verbatim>\<open>libayla/xml.c\<close>, \<^verbatim>\<open>ayla/xml.h\<close>): a machine that is fed the document in pieces.
  It keeps the names and texts of the open elements in one buffer, pointers to them in \<^verbatim>\<open>argv\<close>, and a stack
  with one entry for each open element.  At the end of an element the handler of its tag is called with
  the texts.  A pointer into the buffer is its offset, or \<^term>\<open>None\<close> for NULL; an access outside one of
  the arrays, or through NULL, makes the step undefined (\<^term>\<open>None\<close>).  The handlers are a parameter: they
  are told the number of the handler, whether the text is partial, and the arguments, and they update a
  state of their own; they do not change the parser.
\<close>

section \<open>State\<close>

abbreviation XML_ARGS :: nat where "XML_ARGS \<equiv> 20"
abbreviation XML_MAX_DEPTH :: nat where "XML_MAX_DEPTH \<equiv> 6"
abbreviation XML_MAX_TEXT :: nat where "XML_MAX_TEXT \<equiv> 800"

text \<open>Tables of tags: name, the two flags, the table for the tags inside, and the handler.\<close>

datatype axml_tag = Axml_tag (atag_name: bytes) (atag_keep_ws: bool) (atag_partial: bool)
  (atag_subtags: "axml_tag list option") (atag_parse: "nat option")

datatype axml_parse_state =
  XS_IDLE | XS_TEXT_SKIP | XS_TEXT_START | XS_TEXT | XS_TAG_START | XS_TAG_QUEST | XS_TAG_BANG | XS_TAG_SLASH
  | XS_TAG_MID | XS_TAG_GT | XS_END_TAG_MID | XS_DONE | XS_ERROR

record axml_tag_state =
  ts_list :: "axml_tag list option"
  ts_keep_ws :: bool
  ts_give_partial :: bool
  ts_arg_base :: nat

record axml_state =
  ax_depth :: nat
  ax_argc :: nat
  ax_bytes :: u16
  ax_textp :: nat
  ax_state :: axml_parse_state
  ax_argv :: "nat option list"
  ax_stack :: "axml_tag_state list"
  ax_text :: bytes
  ax_is_partial :: bool

definition axml_parse_init :: "axml_tag list option \<Rightarrow> axml_state" where
  "axml_parse_init table =
     (let zero = \<lparr>ts_list = None, ts_keep_ws = False, ts_give_partial = False, ts_arg_base = 0\<rparr>
      in \<lparr>ax_depth = 0, ax_argc = 0, ax_bytes = 0, ax_textp = 0, ax_state = XS_TEXT_SKIP,
          ax_argv = Some 0 # replicate (XML_ARGS - 1) None,
          ax_stack = zero\<lparr>ts_list := table\<rparr> # replicate (XML_MAX_DEPTH - 1) zero,
          ax_text = replicate XML_MAX_TEXT 0, ax_is_partial = False\<rparr>)"

text \<open>A handler: number, partial or not, arguments and its state; the result and the new state.\<close>

type_synonym 'e axml_handler = "nat \<Rightarrow> bool \<Rightarrow> bytes list \<Rightarrow> 'e \<Rightarrow> int \<times> 'e"

text \<open>
  What a byte does: the parser goes on, stops because a handler cannot accept more, or fails.
\<close>

datatype 'a axml_outcome = Go 'a | Wait 'a | Fail 'a

section \<open>Steps\<close>

definition axml_tag_find :: "axml_tag list option \<Rightarrow> bytes \<Rightarrow> axml_tag option" where
  "axml_tag_find table name =
     (case table of None \<Rightarrow> None | Some tags \<Rightarrow> find (\<lambda>tag. atag_name tag = name) tags)"

definition axml_putc :: "u8 \<Rightarrow> axml_state \<Rightarrow> axml_state option" where
  "axml_putc byte st =
     (if ax_textp st \<ge> XML_MAX_TEXT - 1 then None
      else Some (st\<lparr>ax_text := (ax_text st)[ax_textp st := byte], ax_textp := ax_textp st + 1\<rparr>))"

definition axml_put_arg :: "nat \<Rightarrow> axml_state \<Rightarrow> axml_state option" where
  "axml_put_arg arg st =
     (if ax_argc st \<ge> XML_ARGS then None
      else Some (st\<lparr>ax_argv := (ax_argv st)[ax_argc st := Some arg], ax_argc := ax_argc st + 1\<rparr>))"

definition axml_ws :: "u8 \<Rightarrow> bool" where
  "axml_ws byte \<longleftrightarrow> byte = 0x20 \<or> byte = 0x09 \<or> byte = 0x0A \<or> byte = 0x0D"

text \<open>The string at an offset: it must end inside the buffer.\<close>

definition text_string :: "bytes \<Rightarrow> nat option \<Rightarrow> bytes option" where
  "text_string text ptr =
     (case ptr of None \<Rightarrow> None | Some p \<Rightarrow> if 0 \<in> set (drop p text) then Some (string_at text p) else None)"

definition arg_ptr :: "axml_state \<Rightarrow> nat \<Rightarrow> nat option" where
  "arg_ptr st i = (if i < length (ax_argv st) then ax_argv st ! i else None)"

definition arg_string :: "axml_state \<Rightarrow> nat \<Rightarrow> bytes option" where
  "arg_string st i = text_string (ax_text st) (arg_ptr st i)"

definition stack_at :: "axml_state \<Rightarrow> nat \<Rightarrow> axml_tag_state option" where
  "stack_at st d = (if d < length (ax_stack st) then Some (ax_stack st ! d) else None)"

text \<open>
  Decoding the arguments in place; \<open>Inl\<close> is a bad encoding, which an incomplete escape is, too, unless
  there is one argument only.
\<close>

fun axml_decode_args :: "bytes \<Rightarrow> nat \<Rightarrow> nat option list \<Rightarrow> nat option \<Rightarrow> (unit + bytes \<times> nat option) option" where
  "axml_decode_args text argc [] left = Some (Inr (text, left))"
| "axml_decode_args text argc (None # argv) left = None"
| "axml_decode_args text argc (Some arg # argv) left =
     (case xml_decode text arg 0xFFFF arg 0xFFFF of
        None \<Rightarrow> None
      | Some (rc, text, left) \<Rightarrow>
          if rc < 0 then Some (Inl ())
          else if left \<noteq> None \<and> argc \<noteq> 1 then Some (Inl ())
          else axml_decode_args text argc argv left)"

definition axml_args :: "axml_state \<Rightarrow> nat \<Rightarrow> nat option list" where
  "axml_args st base = take (ax_argc st - base) (drop base (ax_argv st))"

fun strings_of :: "bytes \<Rightarrow> nat option list \<Rightarrow> bytes list option" where
  "strings_of text [] = Some []"
| "strings_of text (p # ps) =
     (case (text_string text p, strings_of text ps) of (Some s, Some ss) \<Rightarrow> Some (s # ss) | _ \<Rightarrow> None)"

text \<open>
  The call of a handler: the arguments are decoded (after a failure only \<open>XS_ERROR\<close> matters, and the rest of
  the state is kept); an incomplete escape at the end is an error
  (\<open>partial\<close> false), or is cut off and returned, to be put before the next text.
\<close>

datatype 'e axml_call = Call_failed | Called axml_state int 'e bytes

definition axml_call_tag :: "'e axml_handler \<Rightarrow> nat \<Rightarrow> bool \<Rightarrow> nat \<Rightarrow> axml_state \<Rightarrow> 'e \<Rightarrow> 'e axml_call option" where
  "axml_call_tag h n partial base st e =
     (case axml_decode_args (ax_text st) (ax_argc st - base) (axml_args st base) None of
        None \<Rightarrow> None
      | Some (Inl u) \<Rightarrow> Some Call_failed
      | Some (Inr (text, left)) \<Rightarrow>
          (let leftover = (case left of None \<Rightarrow> [] | Some p \<Rightarrow> string_at text p);
               text = (case left of None \<Rightarrow> text | Some p \<Rightarrow> text[p := 0]);
               st = st\<lparr>ax_text := text\<rparr>
           in if left \<noteq> None \<and> \<not> partial then Some Call_failed
              else if length leftover \<ge> 9 then None
              else
                (case strings_of text (axml_args st base) of
                   None \<Rightarrow> None
                 | Some args \<Rightarrow>
                     (let st = st\<lparr>ax_is_partial := partial\<rparr>; (rc, e) = h n partial args e
                      in Some (Called st rc e leftover)))))"

text \<open>\<open>xml_putc\<close> where the result is not looked at.\<close>

definition axml_putc_try :: "u8 \<Rightarrow> axml_state \<Rightarrow> axml_state" where
  "axml_putc_try byte st = (case axml_putc byte st of None \<Rightarrow> st | Some st \<Rightarrow> st)"

abbreviation fail :: "axml_state \<Rightarrow> 'e \<Rightarrow> (axml_state \<times> 'e) axml_outcome option" where
  "fail st e \<equiv> Some (Fail (st\<lparr>ax_state := XS_ERROR\<rparr>, e))"

abbreviation go :: "axml_parse_state \<Rightarrow> axml_state \<Rightarrow> 'e \<Rightarrow> (axml_state \<times> 'e) axml_outcome option" where
  "go s st e \<equiv> Some (Go (st\<lparr>ax_state := s\<rparr>, e))"

definition ws_skipped :: "axml_tag_state \<Rightarrow> u8 \<Rightarrow> bool" where
  "ws_skipped ts byte \<longleftrightarrow> axml_ws byte \<and> \<not> ts_keep_ws ts"

text \<open>The state \<open>XS_TEXT_START\<close>.\<close>

definition axml_text_start :: "axml_tag_state \<Rightarrow> u8 \<Rightarrow> axml_state \<Rightarrow> 'e \<Rightarrow> (axml_state \<times> 'e) axml_outcome option" where
  "axml_text_start ts byte st e =
     (if byte = 0x3C then go XS_TAG_START st e
      else if ws_skipped ts byte then go XS_TEXT_START st e
      else
        (case axml_put_arg (ax_textp st) st of
           None \<Rightarrow> fail st e
         | Some st \<Rightarrow>
             (case axml_putc byte st of
                None \<Rightarrow> fail st e
              | Some st \<Rightarrow> go XS_TEXT st e)))"

text \<open>
  The state \<open>XS_TEXT\<close>.  When the buffer has no room for the end tag, the text collected so far is given to
  the handler, if it wants partial text, and the buffer is used again from the start of the text.
\<close>

definition text_end :: "axml_state \<Rightarrow> axml_state" where
  "text_end st = st\<lparr>ax_text := (ax_text st)[ax_textp st := 0], ax_textp := ax_textp st + 1\<rparr>"

definition axml_partial :: "'e axml_handler \<Rightarrow> axml_tag_state \<Rightarrow> bytes \<Rightarrow> axml_state \<Rightarrow> 'e \<Rightarrow> 'e axml_call option" where
  "axml_partial h ts name st e =
     (if \<not> ts_give_partial ts then Some Call_failed
      else if ax_textp st \<ge> length (ax_text st) then None
      else
        (let st = text_end st
         in if ax_depth st = 0 then Some Call_failed
            else
              (case stack_at st (ax_depth st - 1) of
                 None \<Rightarrow> None
               | Some parent \<Rightarrow>
                   (case Option.bind (axml_tag_find (ts_list parent) name) atag_parse of
                      Some n \<Rightarrow> axml_call_tag h n True (ts_arg_base ts) st e
                    | None \<Rightarrow> Some (Called st 0 e [])))))"

definition axml_text_byte :: "'e axml_handler \<Rightarrow> axml_tag_state \<Rightarrow> u8 \<Rightarrow> axml_state \<Rightarrow> 'e
    \<Rightarrow> (axml_state \<times> 'e) axml_outcome option" where
  "axml_text_byte h ts byte st e =
     (if byte = 0x3C then
        (case axml_putc 0 st of None \<Rightarrow> fail st e | Some st \<Rightarrow> go XS_TAG_START st e)
      else if ws_skipped ts byte then go XS_TEXT st e
      else if ax_argc st < 2 then None
      else
        (case arg_string st (ax_argc st - 2) of
           None \<Rightarrow> None
         | Some name \<Rightarrow>
             if int (ax_textp st) \<ge> int XML_MAX_TEXT - int (length name) - 4 then
               (case axml_partial h ts name st e of
                  None \<Rightarrow> None
                | Some Call_failed \<Rightarrow> fail st e
                | Some (Called st rc e leftover) \<Rightarrow>
                    (case arg_ptr st (ax_argc st - 1) of
                       None \<Rightarrow> None
                     | Some p \<Rightarrow>
                         (let st = axml_putc_try byte (fold axml_putc_try leftover (st\<lparr>ax_textp := p\<rparr>))
                          in if rc = - 1 then Some (Wait (st, e)) else go XS_TEXT st e)))
             else go XS_TEXT (axml_putc_try byte st) e))"

text \<open>The states of a start tag.\<close>

definition axml_tag_mid :: "axml_tag_state \<Rightarrow> u8 \<Rightarrow> axml_state \<Rightarrow> 'e \<Rightarrow> (axml_state \<times> 'e) axml_outcome option" where
  "axml_tag_mid ts byte st e =
     (if byte = 0x20 then
        (case axml_putc 0 st of None \<Rightarrow> fail st e | Some st \<Rightarrow> go XS_TAG_MID st e)
      else if byte = 0x2F then go XS_TAG_GT st e
      else if byte = 0x3E then
        (case axml_putc 0 st of
           None \<Rightarrow> fail st e
         | Some st \<Rightarrow>
             if ax_argc st < 1 then None
             else
               (case arg_string st (ax_argc st - 1) of
                  None \<Rightarrow> None
                | Some name \<Rightarrow>
                    (let tag = axml_tag_find (ts_list ts) name
                     in if ax_depth st \<ge> XML_MAX_DEPTH then fail st e
                        else if ax_depth st + 1 \<ge> length (ax_stack st) then None
                        else
                          (let d = ax_depth st + 1;
                               ts1 = (case tag of
                                 Some t \<Rightarrow> \<lparr>ts_list = atag_subtags t, ts_keep_ws = atag_keep_ws t,
                                   ts_give_partial = atag_partial t, ts_arg_base = ax_argc st\<rparr>
                               | None \<Rightarrow> \<lparr>ts_list = None, ts_keep_ws = False, ts_give_partial = False,
                                   ts_arg_base = ax_argc st\<rparr>)
                           in go XS_TEXT_START (st\<lparr>ax_depth := d, ax_stack := (ax_stack st)[d := ts1]\<rparr>) e))))
      else
        (case axml_putc byte st of None \<Rightarrow> fail st e | Some st \<Rightarrow> go XS_TAG_MID st e))"

definition axml_tag_start :: "axml_tag_state \<Rightarrow> u8 \<Rightarrow> axml_state \<Rightarrow> 'e \<Rightarrow> (axml_state \<times> 'e) axml_outcome option" where
  "axml_tag_start ts byte st e =
     (if byte = 0x21 then go XS_TAG_BANG st e
      else if byte = 0x3F then go XS_TAG_QUEST st e
      else if byte = 0x2F then go XS_TAG_SLASH st e
      else
        (case axml_putc 0 st of
           None \<Rightarrow> fail st e
         | Some st \<Rightarrow>
             (case axml_put_arg (ax_textp st) st of
                None \<Rightarrow> fail st e
              | Some st \<Rightarrow> axml_tag_mid ts byte st e)))"

text \<open>
  The states of an end tag.  \<open>axml_pop\<close> is what follows when the name is right and the depth is decreased:
  the handler of the tag is called, and the arguments of the element are dropped.
\<close>

definition axml_end_call :: "'e axml_handler \<Rightarrow> nat \<Rightarrow> bytes \<Rightarrow> axml_tag_state \<Rightarrow> axml_state \<Rightarrow> 'e \<Rightarrow> 'e axml_call option" where
  "axml_end_call h base name parent st e =
     (case Option.bind (axml_tag_find (ts_list parent) name) atag_parse of
        Some n \<Rightarrow> axml_call_tag h n False base st e
      | None \<Rightarrow> Some (Called st 0 e []))"

definition axml_pop :: "'e axml_handler \<Rightarrow> nat \<Rightarrow> bytes \<Rightarrow> axml_state \<Rightarrow> 'e \<Rightarrow> (axml_state \<times> 'e) axml_outcome option" where
  "axml_pop h base name st e =
     (case stack_at st (ax_depth st) of
        None \<Rightarrow> None
      | Some parent \<Rightarrow>
          (case axml_end_call h base name parent st e of
             None \<Rightarrow> None
           | Some Call_failed \<Rightarrow> fail st e
           | Some (Called st rc e leftover) \<Rightarrow>
               (case arg_ptr st (base - 1) of
                  None \<Rightarrow> None
                | Some p \<Rightarrow>
                    (let st = st\<lparr>ax_argc := base - 1, ax_textp := p,
                           ax_state := (if ax_depth st = 0 then XS_DONE else XS_TEXT_START)\<rparr>
                     in if rc = - 1 then Some (Wait (st, e)) else Some (Go (st, e))))))"

definition axml_end_tag :: "'e axml_handler \<Rightarrow> axml_tag_state \<Rightarrow> axml_state \<Rightarrow> 'e
    \<Rightarrow> (axml_state \<times> 'e) axml_outcome option" where
  "axml_end_tag h ts st e =
     (if ax_argc st < 1 \<or> ts_arg_base ts < 1 then None
      else
        (let st = st\<lparr>ax_argc := ax_argc st - 1\<rparr>
         in case (arg_string st (ax_argc st), arg_string st (ts_arg_base ts - 1)) of
              (Some name, Some open_name) \<Rightarrow>
                if name \<noteq> open_name then fail st e
                else if ax_depth st = 0 then fail st e
                else axml_pop h (ts_arg_base ts) name (st\<lparr>ax_depth := ax_depth st - 1\<rparr>) e
            | _ \<Rightarrow> None))"

definition axml_end_tag_mid :: "'e axml_handler \<Rightarrow> axml_tag_state \<Rightarrow> u8 \<Rightarrow> axml_state \<Rightarrow> 'e
    \<Rightarrow> (axml_state \<times> 'e) axml_outcome option" where
  "axml_end_tag_mid h ts byte st e =
     (case axml_putc (if byte = 0x3E then 0 else byte) st of
        None \<Rightarrow> fail st e
      | Some st \<Rightarrow> if byte = 0x3E then axml_end_tag h ts st e else go XS_END_TAG_MID st e)"

definition axml_tag_slash :: "'e axml_handler \<Rightarrow> axml_tag_state \<Rightarrow> u8 \<Rightarrow> axml_state \<Rightarrow> 'e
    \<Rightarrow> (axml_state \<times> 'e) axml_outcome option" where
  "axml_tag_slash h ts byte st e =
     (case axml_putc 0 st of
        None \<Rightarrow> fail st e
      | Some st \<Rightarrow>
          (case axml_put_arg (ax_textp st) st of
             None \<Rightarrow> fail st e
           | Some st \<Rightarrow> axml_end_tag_mid h ts byte st e))"

text \<open>One byte.\<close>

definition axml_byte :: "'e axml_handler \<Rightarrow> u8 \<Rightarrow> axml_state \<Rightarrow> 'e \<Rightarrow> (axml_state \<times> 'e) axml_outcome option" where
  "axml_byte h byte st e =
     (case stack_at st (ax_depth st) of
        None \<Rightarrow> None
      | Some ts \<Rightarrow>
          (case ax_state st of
             XS_TEXT_START \<Rightarrow> axml_text_start ts byte st e
           | XS_TEXT \<Rightarrow> axml_text_byte h ts byte st e
           | XS_TEXT_SKIP \<Rightarrow> if byte = 0x3C then go XS_TAG_START st e else go XS_TEXT_SKIP st e
           | XS_TAG_START \<Rightarrow> axml_tag_start ts byte st e
           | XS_TAG_MID \<Rightarrow> axml_tag_mid ts byte st e
           | XS_TAG_GT \<Rightarrow>
               if byte \<noteq> 0x3E then fail st e
               else if ax_depth st = 0 then go XS_DONE st e else go XS_TEXT_START st e
           | XS_TAG_SLASH \<Rightarrow> axml_tag_slash h ts byte st e
           | XS_END_TAG_MID \<Rightarrow> axml_end_tag_mid h ts byte st e
           | XS_TAG_BANG \<Rightarrow> if byte = 0x3E then go XS_TEXT_START st e else go XS_TAG_BANG st e
           | XS_TAG_QUEST \<Rightarrow> if byte = 0x3E then go XS_TEXT_START st e else go XS_TAG_QUEST st e
           | XS_DONE \<Rightarrow> if ws_skipped ts byte then go XS_DONE st e else fail st e
           | XS_IDLE \<Rightarrow> fail st e
           | XS_ERROR \<Rightarrow> fail st e))"

text \<open>The loop over the bytes of a piece; the result is the number of bytes used, or -1.\<close>

fun axml_loop :: "'e axml_handler \<Rightarrow> bytes \<Rightarrow> nat \<Rightarrow> axml_state \<Rightarrow> 'e \<Rightarrow> (int \<times> axml_state \<times> 'e) option" where
  "axml_loop h [] used st e = Some (int used, st, e)"
| "axml_loop h (byte # buf) used st e =
     (case axml_byte h byte st e of
        None \<Rightarrow> None
      | Some (Fail (st, e)) \<Rightarrow> Some (- 1, st, e)
      | Some (Wait (st, e)) \<Rightarrow> Some (int (used + 1), st, e)
      | Some (Go (st, e)) \<Rightarrow> axml_loop h buf (used + 1) st e)"

definition axml_parse :: "'e axml_handler \<Rightarrow> axml_state \<Rightarrow> bytes \<Rightarrow> 'e \<Rightarrow> (int \<times> axml_state \<times> 'e) option" where
  "axml_parse h st buf e = axml_loop h buf 0 (st\<lparr>ax_bytes := ax_bytes st + 1\<rparr>) e"

section \<open>The invariant\<close>

text \<open>
  The arrays have their sizes, the last byte of the buffer is never used, every argument points into the
  buffer, and the arguments of an element begin behind its name, which lies behind those of the elements
  around it.
\<close>

definition arg_bases_ok :: "axml_state \<Rightarrow> bool" where
  "arg_bases_ok st \<longleftrightarrow>
     ts_arg_base (ax_stack st ! 0) = 0
     \<and> (\<forall>k < ax_depth st. ts_arg_base (ax_stack st ! k) < ts_arg_base (ax_stack st ! Suc k))
     \<and> ts_arg_base (ax_stack st ! ax_depth st) \<le> ax_argc st"

definition axml_buffers_ok :: "axml_state \<Rightarrow> bool" where
  "axml_buffers_ok st \<longleftrightarrow>
     length (ax_text st) = XML_MAX_TEXT \<and> length (ax_argv st) = XML_ARGS \<and> length (ax_stack st) = XML_MAX_DEPTH
     \<and> ax_text st ! (XML_MAX_TEXT - 1) = 0 \<and> ax_argc st \<le> XML_ARGS \<and> ax_depth st < XML_MAX_DEPTH
     \<and> (\<forall>i < ax_argc st. \<exists>p < XML_MAX_TEXT. ax_argv st ! i = Some p)"

definition axml_arrays_ok :: "axml_state \<Rightarrow> bool" where
  "axml_arrays_ok st \<longleftrightarrow> axml_buffers_ok st \<and> ax_textp st < XML_MAX_TEXT"

definition axml_inv :: "axml_state \<Rightarrow> bool" where
  "axml_inv st \<longleftrightarrow> axml_arrays_ok st \<and> arg_bases_ok st
     \<and> (ax_state st \<in> {XS_TEXT, XS_TAG_MID, XS_END_TAG_MID} \<longrightarrow> ts_arg_base (ax_stack st ! ax_depth st) < ax_argc st)"

fun outcome_state :: "(axml_state \<times> 'e) axml_outcome \<Rightarrow> axml_state" where
  "outcome_state (Go (st, e)) = st"
| "outcome_state (Wait (st, e)) = st"
| "outcome_state (Fail (st, e)) = st"

text \<open>\<open>step_ok\<close>: a step is defined and keeps the invariant.\<close>

definition step_ok :: "(axml_state \<times> 'e) axml_outcome option \<Rightarrow> bool" where
  "step_ok res \<longleftrightarrow> (\<exists>out. res = Some out \<and> axml_inv (outcome_state out))"

lemma step_ok_simps [simp]:
  "step_ok (Some (Go (st, e))) = axml_inv st" "step_ok (Some (Wait (st, e))) = axml_inv st"
  "step_ok (Some (Fail (st, e))) = axml_inv st"
  by (simp_all add: step_ok_def)

lemma inv_state [simp]:
  "axml_arrays_ok (st\<lparr>ax_state := s\<rparr>) = axml_arrays_ok st" "arg_bases_ok (st\<lparr>ax_state := s\<rparr>) = arg_bases_ok st"
  by (simp_all add: axml_arrays_ok_def axml_buffers_ok_def arg_bases_ok_def)

text \<open>The pieces of the invariant that a step needs: \<open>inv_part st n\<close> has \<open>n\<close> arguments behind the name.\<close>

definition inv_part :: "nat \<Rightarrow> axml_state \<Rightarrow> bool" where
  "inv_part n st \<longleftrightarrow> axml_arrays_ok st \<and> arg_bases_ok st \<and> ts_arg_base (ax_stack st ! ax_depth st) + n \<le> ax_argc st"

lemma inv_part_go:
  "inv_part n st \<Longrightarrow> s \<in> {XS_TEXT, XS_TAG_MID, XS_END_TAG_MID} \<longrightarrow> 0 < n \<Longrightarrow> axml_inv (st\<lparr>ax_state := s\<rparr>)"
  by (auto simp: axml_inv_def inv_part_def)

lemma axml_inv_part: "axml_inv st \<Longrightarrow> inv_part (if ax_state st \<in> {XS_TEXT, XS_TAG_MID, XS_END_TAG_MID} then 1 else 0) st"
  by (auto simp: axml_inv_def inv_part_def arg_bases_ok_def)

lemma inv_part_0: "inv_part n st \<Longrightarrow> inv_part 0 st"
  by (simp add: inv_part_def)

lemma putc_part:
  assumes "inv_part n st" "axml_putc c st = Some st'"
  shows "inv_part n st'" "ax_argc st' = ax_argc st" "ax_depth st' = ax_depth st" "ax_stack st' = ax_stack st"
    "ax_state st' = ax_state st" "ax_argv st' = ax_argv st"
  using assms by (auto simp: inv_part_def axml_arrays_ok_def axml_buffers_ok_def arg_bases_ok_def axml_putc_def nth_list_update split: if_splits)

lemma put_arg_part:
  assumes "inv_part n st" "axml_put_arg (ax_textp st) st = Some st'"
  shows "inv_part (Suc n) st'" "ax_argc st' = Suc (ax_argc st)" "ax_depth st' = ax_depth st" "ax_stack st' = ax_stack st"
    "ax_state st' = ax_state st"
  using assms
  by (auto simp: inv_part_def axml_arrays_ok_def axml_buffers_ok_def arg_bases_ok_def axml_put_arg_def nth_list_update less_Suc_eq split: if_splits)

lemma putc_try_part: "inv_part n st \<Longrightarrow> inv_part n (axml_putc_try c st)"
  using putc_part(1) by (auto simp: axml_putc_try_def split: option.split)

lemma putc_tries_part: "inv_part n st \<Longrightarrow> inv_part n (fold axml_putc_try cs st)"
  by (induction cs arbitrary: st) (simp_all add: putc_try_part)

lemma text_string_defined:
  "length text = XML_MAX_TEXT \<Longrightarrow> text ! (XML_MAX_TEXT - 1) = 0 \<Longrightarrow> p < XML_MAX_TEXT \<Longrightarrow> text_string text (Some p) = Some (string_at text p)"
proof -
  assume t: "length text = XML_MAX_TEXT" "text ! (XML_MAX_TEXT - 1) = 0" "p < XML_MAX_TEXT"
  then have "drop p text ! (799 - p) = 0" "799 - p < length (drop p text)" by simp_all
  then have "0 \<in> set (drop p text)" by (metis nth_mem)
  then show ?thesis by (simp add: text_string_def)
qed

lemma arg_defined:
  assumes "axml_buffers_ok st" "i < ax_argc st"
  shows "\<exists>p s. arg_ptr st i = Some p \<and> p < XML_MAX_TEXT \<and> arg_string st i = Some s"
proof -
  obtain p where "ax_argv st ! i = Some p" "p < XML_MAX_TEXT" "i < length (ax_argv st)"
    using assms by (auto simp: axml_buffers_ok_def)
  then show ?thesis
    using assms(1) text_string_defined [of "ax_text st" p] by (simp add: arg_ptr_def arg_string_def axml_buffers_ok_def)
qed

lemma fail_ok: "inv_part n st \<Longrightarrow> step_ok (fail st e)"
  by (auto intro: inv_part_go [OF inv_part_0])

lemma go_ok: "inv_part n st \<Longrightarrow> s \<notin> {XS_TEXT, XS_TAG_MID, XS_END_TAG_MID} \<or> 0 < n \<Longrightarrow> step_ok (go s st e)"
  using inv_part_go [of n st s] by auto

lemma putc_ok:
  assumes "inv_part n st" "s \<notin> {XS_TEXT, XS_TAG_MID, XS_END_TAG_MID} \<or> 0 < n"
  shows "step_ok (case axml_putc byte st of None \<Rightarrow> fail st e | Some st \<Rightarrow> go s st e)"
proof (cases "axml_putc byte st")
  case (Some st1)
  then show ?thesis using go_ok [OF putc_part(1) [OF assms(1) Some], of s e] assms(2) by simp
qed (use fail_ok [OF assms(1), of e] in simp)

lemma text_start_ok:
  assumes "inv_part n st"
  shows "step_ok (axml_text_start ts byte st e)"
proof (cases "axml_put_arg (ax_textp st) st")
  case None
  then show ?thesis
    using fail_ok [OF assms, of e] go_ok [OF assms, of _ e] by (simp add: axml_text_start_def del: step_ok_simps)
next
  case (Some st1)
  have "step_ok (case axml_putc byte st1 of None \<Rightarrow> fail st1 e | Some st \<Rightarrow> go XS_TEXT st e)"
    by (rule putc_ok [OF put_arg_part(1) [OF assms Some]]) simp
  then show ?thesis
    using Some go_ok [OF assms, of _ e] by (simp add: axml_text_start_def del: step_ok_simps)
qed

section \<open>Steps that are undefined\<close>

text \<open>An incomplete escape of nine bytes or more, at the end of a partial text, does not fit into \<^verbatim>\<open>leftover\<close>.\<close>

definition long_leftover :: "axml_state \<Rightarrow> nat \<Rightarrow> bool" where
  "long_leftover st base =
     (case axml_decode_args (ax_text st) (ax_argc st - base) (axml_args st base) None of
        Some (Inr (text, Some p)) \<Rightarrow> 9 \<le> length (string_at text p)
      | _ \<Rightarrow> False)"

text \<open>
  The hazards: text outside every element, a start tag inside five elements, an end tag outside every
  element, and a long incomplete escape.
\<close>

definition axml_hazard :: "u8 \<Rightarrow> axml_state \<Rightarrow> bool" where
  "axml_hazard byte st \<longleftrightarrow>
     (ax_state st = XS_TEXT \<and> ax_argc st < 2)
     \<or> (ax_state st \<in> {XS_TAG_START, XS_TAG_MID} \<and> byte = 0x3E \<and> ax_depth st = XML_MAX_DEPTH - 1)
     \<or> (ax_state st \<in> {XS_TAG_SLASH, XS_END_TAG_MID} \<and> byte = 0x3E \<and> ax_depth st = 0)
     \<or> (ax_state st = XS_TEXT \<and> ts_give_partial (ax_stack st ! ax_depth st)
        \<and> long_leftover (text_end st) (ts_arg_base (ax_stack st ! ax_depth st)))"

definition text_ok :: "bytes \<Rightarrow> bool" where
  "text_ok buf \<longleftrightarrow> length buf = XML_MAX_TEXT \<and> buf ! (XML_MAX_TEXT - 1) = 0"

lemma decode_args_ok:
  assumes "text_ok buf" "\<forall>q \<in> set argv. \<exists>p < XML_MAX_TEXT. q = Some p"
    and "\<forall>p. left = Some p \<longrightarrow> p < XML_MAX_TEXT"
  shows "axml_decode_args buf argc argv left = Some (Inl ())
    \<or> (\<exists>buf' left'. axml_decode_args buf argc argv left = Some (Inr (buf', left')) \<and> text_ok buf'
        \<and> (\<forall>p. left' = Some p \<longrightarrow> p < XML_MAX_TEXT))"
  using assms
proof (induction buf argc argv left rule: axml_decode_args.induct)
  case (3 buf argc arg argv left)
  then have arg: "arg \<le> 799" "799 < length buf" "buf ! 799 = 0" by (auto simp: text_ok_def)
  obtain rc buf' left' where d: "xml_decode buf arg 0xFFFF arg 0xFFFF = Some (rc, buf', left')" "text_ok buf'"
    "\<forall>p. left' = Some p \<longrightarrow> p \<le> 799"
    using dec_loop_safe [OF order_refl order_refl arg, of "0xFFFF" "0xFFFF" 0] "3.prems"(1)
    by (auto simp: xml_decode_def changed_in_def text_ok_def)
  then have left: "\<forall>p. left' = Some p \<longrightarrow> p < XML_MAX_TEXT" by auto
  show ?case
  proof (cases "rc < 0 \<or> left' \<noteq> None \<and> argc \<noteq> 1")
    case True
    then show ?thesis using d(1) by auto
  next
    case False
    then show ?thesis using "3.IH" [OF d(1) refl refl] d left "3.prems"(2) by auto
  qed
qed auto

lemma strings_of_defined:
  "text_ok buf \<Longrightarrow> \<forall>q \<in> set argv. \<exists>p < XML_MAX_TEXT. q = Some p \<Longrightarrow> \<exists>ss. strings_of buf argv = Some ss"
  by (induction argv) (auto simp: text_ok_def text_string_defined)

lemma args_pointers:
  assumes "axml_buffers_ok st"
  shows "\<forall>q \<in> set (axml_args st base). \<exists>p < XML_MAX_TEXT. q = Some p"
proof
  fix q
  assume "q \<in> set (axml_args st base)"
  then obtain i where "i < ax_argc st - base" "i < length (drop base (ax_argv st))" "q = drop base (ax_argv st) ! i"
    by (auto simp: axml_args_def in_set_conv_nth)
  then have "base + i < ax_argc st" "q = ax_argv st ! (base + i)" by simp_all
  then show "\<exists>p < XML_MAX_TEXT. q = Some p" using assms by (auto simp: axml_buffers_ok_def)
qed

text \<open>The call of a handler, when the incomplete escape is short enough.\<close>

definition same_but_text :: "axml_state \<Rightarrow> axml_state \<Rightarrow> bool" where
  "same_but_text st st' \<longleftrightarrow>
     (\<exists>buf partial. st' = st\<lparr>ax_text := buf, ax_is_partial := partial\<rparr> \<and> text_ok buf)"

lemma call_tag_ok:
  assumes "axml_buffers_ok st" "partial \<longrightarrow> \<not> long_leftover st base"
  shows "axml_call_tag h n partial base st e = Some Call_failed
    \<or> (\<exists>st' rc e' lo. axml_call_tag h n partial base st e = Some (Called st' rc e' lo) \<and> same_but_text st st')"
proof -
  have buf: "text_ok (ax_text st)" using assms(1) by (simp add: axml_buffers_ok_def text_ok_def)
  note ptrs = args_pointers [OF assms(1), of base]
  consider (bad) "axml_decode_args (ax_text st) (ax_argc st - base) (axml_args st base) None = Some (Inl ())"
    | (ok) buf left where "axml_decode_args (ax_text st) (ax_argc st - base) (axml_args st base) None = Some (Inr (buf, left))"
      "text_ok buf" "\<forall>p. left = Some p \<longrightarrow> p < XML_MAX_TEXT"
    using decode_args_ok [OF buf ptrs, where left = None and argc = "ax_argc st - base"] by blast
  then show ?thesis
  proof cases
    case bad
    then show ?thesis by (simp add: axml_call_tag_def)
  next
    case ok
    define buf' where "buf' = (case left of None \<Rightarrow> buf | Some p \<Rightarrow> buf[p := 0])"
    have buf': "text_ok buf'" using ok(2,3) by (auto simp: buf'_def text_ok_def nth_list_update split: option.split)
    then obtain ss where ss: "strings_of buf' (axml_args st base) = Some ss" using strings_of_defined ptrs by blast
    have args: "axml_args (st\<lparr>ax_text := b\<rparr>) base = axml_args st base" for b by (simp add: axml_args_def)
    have short: "\<not> length (case left of None \<Rightarrow> [] | Some p \<Rightarrow> string_at buf p) \<ge> 9" if "left = None \<or> partial"
      using assms(2) ok(1) that by (auto simp: long_leftover_def split: option.splits)
    obtain rc e' where h: "h n partial ss e = (rc, e')" by (cases "h n partial ss e")
    show ?thesis
    proof (cases "left \<noteq> None \<and> \<not> partial")
      case True
      then show ?thesis using ok(1) by (simp add: axml_call_tag_def)
    next
      case False
      then have "axml_call_tag h n partial base st e
          = Some (Called (st\<lparr>ax_text := buf', ax_is_partial := partial\<rparr>) rc e'
              (case left of None \<Rightarrow> [] | Some p \<Rightarrow> string_at buf p))"
        using ok(1) ss short h by (auto simp: axml_call_tag_def Let_def args buf'_def)
      then show ?thesis using buf' by (auto simp: same_but_text_def)
    qed
  qed
qed

lemma same_but_text_part:
  "same_but_text st st' \<Longrightarrow> inv_part n st \<Longrightarrow> inv_part n st' \<and> ax_argc st' = ax_argc st \<and> ax_argv st' = ax_argv st
    \<and> ax_depth st' = ax_depth st \<and> ax_stack st' = ax_stack st"
  by (auto simp: same_but_text_def inv_part_def axml_arrays_ok_def axml_buffers_ok_def arg_bases_ok_def text_ok_def)

section \<open>Every other step is defined\<close>

lemma inv_partD:
  assumes "inv_part n st"
  shows "axml_buffers_ok st" "ax_textp st < XML_MAX_TEXT" "stack_at st (ax_depth st) = Some (ax_stack st ! ax_depth st)"
    "0 < ax_depth st \<Longrightarrow> stack_at st (ax_depth st - 1) = Some (ax_stack st ! (ax_depth st - 1))"
    "ts_arg_base (ax_stack st ! ax_depth st) + n \<le> ax_argc st"
  using assms by (auto simp: inv_part_def axml_arrays_ok_def axml_buffers_ok_def stack_at_def)

lemma text_end_part:
  assumes "inv_part n st"
  shows "axml_buffers_ok (text_end st)" "ax_textp st < length (ax_text st)"
    "same_but_text (text_end st) st' \<Longrightarrow> p < XML_MAX_TEXT \<Longrightarrow> inv_part n (st'\<lparr>ax_textp := p\<rparr>)"
  using assms
  by (auto simp: text_end_def same_but_text_def text_ok_def inv_part_def axml_arrays_ok_def axml_buffers_ok_def
      arg_bases_ok_def nth_list_update)

lemma text_end_depth: "ax_depth (text_end st) = ax_depth st"
  by (simp add: text_end_def)

text \<open>Partial text: the result of the call is a state in which the text begins again.\<close>

lemma partial_ok:
  assumes "inv_part n st" "ts = ax_stack st ! ax_depth st"
    and "ts_give_partial ts \<Longrightarrow> \<not> long_leftover (text_end st) (ts_arg_base ts)"
  shows "axml_partial h ts name st e = Some Call_failed
    \<or> (\<exists>st' rc e' lo. axml_partial h ts name st e = Some (Called st' rc e' lo)
        \<and> ax_argc st' = ax_argc st \<and> axml_buffers_ok st' \<and> (\<forall>p < XML_MAX_TEXT. inv_part n (st'\<lparr>ax_textp := p\<rparr>)))"
proof (cases "ts_give_partial ts \<and> ax_depth st \<noteq> 0")
  case False
  then show ?thesis using text_end_part(2) [OF assms(1)] by (auto simp: axml_partial_def Let_def text_end_depth)
next
  case True
  let ?tag = "Option.bind (axml_tag_find (ts_list (ax_stack st ! (ax_depth st - 1))) name) atag_parse"
  have kept: "ax_argc st' = ax_argc st \<and> axml_buffers_ok st' \<and> (\<forall>p < XML_MAX_TEXT. inv_part n (st'\<lparr>ax_textp := p\<rparr>))"
    if "same_but_text (text_end st) st'" for st'
    using that text_end_part(1) [OF assms(1)] text_end_part(3) [OF assms(1) that]
    by (auto simp: same_but_text_def text_end_def axml_buffers_ok_def text_ok_def)
  have refl: "same_but_text (text_end st) (text_end st)"
    using text_end_part(1) [OF assms(1)]
    by (auto simp: same_but_text_def axml_buffers_ok_def text_ok_def
        intro!: exI [of _ "ax_text (text_end st)"] exI [of _ "ax_is_partial (text_end st)"])
  have stack: "stack_at (text_end st) (ax_depth st - 1) = Some (ax_stack st ! (ax_depth st - 1))"
    using inv_partD(4) [OF assms(1)] True by (simp add: text_end_def stack_at_def split: if_splits)
  have code: "axml_partial h ts name st e = (case ?tag of
      Some k \<Rightarrow> axml_call_tag h k True (ts_arg_base ts) (text_end st) e | None \<Rightarrow> Some (Called (text_end st) 0 e []))"
    using True text_end_part(2) [OF assms(1)] stack by (simp add: axml_partial_def Let_def text_end_depth)
  show ?thesis
  proof (cases ?tag)
    case None
    then show ?thesis using code kept [OF refl] by simp
  next
    case (Some k)
    then show ?thesis
      using code call_tag_ok [OF text_end_part(1) [OF assms(1)], of True "ts_arg_base ts" h k e] assms(3) True kept
      by auto
  qed
qed

lemma text_byte_ok:
  assumes "inv_part 1 st" "ts = ax_stack st ! ax_depth st" "2 \<le> ax_argc st"
    and "ts_give_partial ts \<Longrightarrow> \<not> long_leftover (text_end st) (ts_arg_base ts)"
  shows "step_ok (axml_text_byte h ts byte st e)"
proof -
  note fails = fail_ok [OF assms(1)]
  obtain name where name: "arg_string st (ax_argc st - 2) = Some name"
    using arg_defined [OF inv_partD(1) [OF assms(1)], of "ax_argc st - 2"] assms(3) by auto
  have lt: "step_ok (case axml_putc 0 st of None \<Rightarrow> fail st e | Some st \<Rightarrow> go XS_TAG_START st e)"
    by (rule putc_ok [OF assms(1)]) simp
  have ws: "step_ok (go XS_TEXT st e)" "step_ok (go XS_TEXT (axml_putc_try byte st) e)"
    using go_ok [OF assms(1), of XS_TEXT e] go_ok [OF putc_try_part [OF assms(1)], of XS_TEXT byte e] by simp_all
  have call: "axml_partial h ts name st e = Some Call_failed
    \<or> (\<exists>st' rc e' lo. axml_partial h ts name st e = Some (Called st' rc e' lo)
        \<and> ax_argc st' = ax_argc st \<and> axml_buffers_ok st' \<and> (\<forall>p < XML_MAX_TEXT. inv_part 1 (st'\<lparr>ax_textp := p\<rparr>)))"
    by (rule partial_ok [OF assms(1,2)]) (rule assms(4))
  have room: "step_ok (case axml_partial h ts name st e of None \<Rightarrow> None | Some Call_failed \<Rightarrow> fail st e
      | Some (Called st rc e leftover) \<Rightarrow>
          (case arg_ptr st (ax_argc st - 1) of
             None \<Rightarrow> None
           | Some p \<Rightarrow>
               (let st = axml_putc_try byte (fold axml_putc_try leftover (st\<lparr>ax_textp := p\<rparr>))
                in if rc = - 1 then Some (Wait (st, e)) else go XS_TEXT st e)))"
    using call
  proof (elim disjE exE conjE)
    fix st' rc e' lo
    assume call: "axml_partial h ts name st e = Some (Called st' rc e' lo)"
      and st': "ax_argc st' = ax_argc st" "axml_buffers_ok st'" "\<forall>p < XML_MAX_TEXT. inv_part 1 (st'\<lparr>ax_textp := p\<rparr>)"
    obtain p where p: "arg_ptr st' (ax_argc st' - 1) = Some p" "p < XML_MAX_TEXT"
      using arg_defined [OF st'(2), of "ax_argc st' - 1"] assms(3) st'(1) by auto
    let ?st = "axml_putc_try byte (fold axml_putc_try lo (st'\<lparr>ax_textp := p\<rparr>))"
    have "inv_part 1 ?st" using st'(3) p(2) by (intro putc_try_part putc_tries_part) simp
    then have "axml_inv ?st" "axml_inv (?st\<lparr>ax_state := XS_TEXT\<rparr>)"
      by (auto simp: axml_inv_def inv_part_def)
    then show ?thesis using call p(1) by (simp add: Let_def)
  qed (use fails [of e] in simp)
  show ?thesis
    using lt ws room name assms(3) by (simp add: axml_text_byte_def del: step_ok_simps)
qed

lemma tag_mid_ok:
  assumes "inv_part 1 st" "\<not> (byte = 0x3E \<and> ax_depth st = XML_MAX_DEPTH - 1)"
  shows "step_ok (axml_tag_mid ts byte st e)"
proof (cases "byte = 0x3E")
  case False
  have "step_ok (case axml_putc c st of None \<Rightarrow> fail st e | Some st \<Rightarrow> go XS_TAG_MID st e)" for c
    by (rule putc_ok [OF assms(1)]) simp
  moreover have "step_ok (go XS_TAG_GT st e)" by (rule go_ok [OF assms(1)]) simp
  ultimately show ?thesis using False by (simp add: axml_tag_mid_def del: step_ok_simps)
next
  case True
  show ?thesis
  proof (cases "axml_putc 0 st")
    case None
    then show ?thesis using fail_ok [OF assms(1), of e] True by (simp add: axml_tag_mid_def del: step_ok_simps)
  next
    case (Some st1)
    note st1 = putc_part [OF assms(1) Some]
    have argc: "\<not> ax_argc st1 < 1" using inv_partD(5) [OF st1(1)] by simp
    obtain name where name: "arg_string st1 (ax_argc st1 - 1) = Some name"
      using arg_defined [OF inv_partD(1) [OF st1(1)], of "ax_argc st1 - 1"] argc by auto
    have depth: "\<not> ax_depth st1 + 1 \<ge> length (ax_stack st1)" "\<not> ax_depth st1 \<ge> XML_MAX_DEPTH"
      using st1(1,3) assms(2) True by (auto simp: inv_part_def axml_arrays_ok_def axml_buffers_ok_def)
    have push: "axml_inv (st1\<lparr>ax_depth := ax_depth st1 + 1, ax_stack := (ax_stack st1)[ax_depth st1 + 1 := t],
        ax_state := XS_TEXT_START\<rparr>)" if "ts_arg_base t = ax_argc st1" for t
      using st1(1) depth that
      by (auto simp: axml_inv_def inv_part_def axml_arrays_ok_def axml_buffers_ok_def arg_bases_ok_def nth_list_update less_Suc_eq)
    show ?thesis
      using True Some argc name depth push by (simp add: axml_tag_mid_def Let_def split: option.split)
  qed
qed

lemma put_arg_ok:
  assumes "inv_part n st" "\<And>st'. inv_part 1 st' \<Longrightarrow> ax_depth st' = ax_depth st \<Longrightarrow> ax_stack st' = ax_stack st \<Longrightarrow> step_ok (next st')"
  shows "step_ok (case axml_putc 0 st of None \<Rightarrow> fail st e
    | Some st \<Rightarrow> (case axml_put_arg (ax_textp st) st of None \<Rightarrow> fail st e | Some st \<Rightarrow> next st))"
proof (cases "axml_putc 0 st")
  case (Some st1)
  note st1 = putc_part [OF assms(1) Some]
  show ?thesis
  proof (cases "axml_put_arg (ax_textp st1) st1")
    case None
    then show ?thesis using Some fail_ok [OF st1(1), of e] by (simp del: step_ok_simps)
  next
    case (Some st2)
    note st2 = put_arg_part [OF inv_part_0 [OF st1(1)] Some]
    have "step_ok (next st2)" by (rule assms(2)) (use st1 st2 in simp_all)
    then show ?thesis using Some \<open>axml_putc 0 st = Some st1\<close> by (simp del: step_ok_simps)
  qed
qed (use fail_ok [OF assms(1), of e] in simp)

lemma tag_start_ok:
  assumes "inv_part n st" "\<not> (byte = 0x3E \<and> ax_depth st = XML_MAX_DEPTH - 1)"
  shows "step_ok (axml_tag_start ts byte st e)"
proof -
  have "step_ok (go s st e)" if "s \<in> {XS_TAG_BANG, XS_TAG_QUEST, XS_TAG_SLASH}" for s
    by (rule go_ok [OF assms(1)]) (use that in auto)
  moreover have "step_ok (case axml_putc 0 st of None \<Rightarrow> fail st e
      | Some st \<Rightarrow> (case axml_put_arg (ax_textp st) st of None \<Rightarrow> fail st e | Some st \<Rightarrow> axml_tag_mid ts byte st e))"
    by (rule put_arg_ok [OF assms(1)], rule tag_mid_ok) (use assms(2) in simp_all)
  ultimately show ?thesis by (simp add: axml_tag_start_def del: step_ok_simps)
qed

lemma end_call_ok:
  assumes "inv_part 0 st"
  shows "axml_end_call h base name parent st e = Some Call_failed
    \<or> (\<exists>st' rc e' lo. axml_end_call h base name parent st e = Some (Called st' rc e' lo) \<and> inv_part 0 st'
        \<and> ax_argv st' = ax_argv st \<and> ax_argc st' = ax_argc st \<and> ax_depth st' = ax_depth st \<and> ax_stack st' = ax_stack st)"
proof (cases "Option.bind (axml_tag_find (ts_list parent) name) atag_parse")
  case None
  then show ?thesis using assms by (simp add: axml_end_call_def)
next
  case (Some n)
  then show ?thesis
    using call_tag_ok [OF inv_partD(1) [OF assms], of False base h n e] same_but_text_part [OF _ assms]
    by (auto simp: axml_end_call_def)
qed

lemma pop_ok:
  assumes "inv_part 0 st" "ts_arg_base (ax_stack st ! ax_depth st) < base" "base \<le> ax_argc st"
  shows "step_ok (axml_pop h base name st e)"
proof -
  let ?call = "axml_end_call h base name (ax_stack st ! ax_depth st) st e"
  have drop: "axml_inv (st'\<lparr>ax_argc := base - 1, ax_textp := p, ax_state := s\<rparr>)"
    if "inv_part 0 st'" "p < XML_MAX_TEXT" "s \<in> {XS_DONE, XS_TEXT_START}" "ax_argc st' = ax_argc st"
      "ax_depth st' = ax_depth st" "ax_stack st' = ax_stack st" for st' p s
    using that assms(2,3)
    by (auto simp: axml_inv_def inv_part_def axml_arrays_ok_def axml_buffers_ok_def arg_bases_ok_def)
  have "base - 1 < ax_argc st" using assms(2,3) by linarith
  then obtain p where p: "arg_ptr st (base - 1) = Some p" "p < XML_MAX_TEXT"
    using arg_defined [OF inv_partD(1) [OF assms(1)]] by blast
  from end_call_ok [OF assms(1), of h base name "ax_stack st ! ax_depth st" e] show ?thesis
  proof (elim disjE exE conjE)
    fix st' rc e' lo
    assume call: "?call = Some (Called st' rc e' lo)" and st': "inv_part 0 st'" "ax_argv st' = ax_argv st"
      "ax_argc st' = ax_argc st" "ax_depth st' = ax_depth st" "ax_stack st' = ax_stack st"
    have "arg_ptr st' (base - 1) = Some p" using p(1) st'(2) by (simp add: arg_ptr_def split: if_splits)
    then show ?thesis
      using call inv_partD(3) [OF assms(1)] drop [OF st'(1) p(2) _ st'(3-5)] by (simp add: axml_pop_def Let_def)
  next
    assume "?call = Some Call_failed"
    then show ?thesis
      using inv_partD(3) [OF assms(1)] fail_ok [OF assms(1), of e] by (simp add: axml_pop_def del: step_ok_simps)
  qed
qed

lemma end_tag_ok:
  assumes "inv_part 1 st" "ts = ax_stack st ! ax_depth st" "ax_depth st \<noteq> 0"
  shows "step_ok (axml_end_tag h ts st e)"
proof -
  let ?base = "ts_arg_base ts" and ?d = "ax_depth st - 1"
  have all: "\<forall>k < ax_depth st. ts_arg_base (ax_stack st ! k) < ts_arg_base (ax_stack st ! Suc k)"
    using assms(1) by (simp add: inv_part_def arg_bases_ok_def)
  have "Suc ?d = ax_depth st" using assms(3) by simp
  then have bases: "ts_arg_base (ax_stack st ! ?d) < ?base" "?base < ax_argc st"
    using all [rule_format, of ?d] inv_partD(5) [OF assms(1)] assms(2) by simp_all
  define st1 where "st1 = st\<lparr>ax_argc := ax_argc st - 1\<rparr>"
  have same: "arg_string st1 i = arg_string st i" for i by (simp add: st1_def arg_string_def arg_ptr_def)
  obtain name where name: "arg_string st1 (ax_argc st1) = Some name"
    using arg_defined [OF inv_partD(1) [OF assms(1)], of "ax_argc st - 1"] bases unfolding same by (auto simp: st1_def)
  have "?base - 1 < ax_argc st" using bases by linarith
  then obtain open_name where open_name: "arg_string st1 (?base - 1) = Some open_name"
    using arg_defined [OF inv_partD(1) [OF assms(1)]] unfolding same by blast
  have parts: "inv_part 0 st1" "inv_part 0 (st1\<lparr>ax_depth := ?d\<rparr>)"
    using assms(1) bases assms(2)
    by (auto simp: st1_def inv_part_def axml_arrays_ok_def axml_buffers_ok_def arg_bases_ok_def)
  have "step_ok (axml_pop h ?base name (st1\<lparr>ax_depth := ?d\<rparr>) e)"
    by (rule pop_ok [OF parts(2)]) (use bases in \<open>simp_all add: st1_def\<close>)
  moreover have "axml_end_tag h ts st e = (if name \<noteq> open_name then fail st1 e
      else axml_pop h ?base name (st1\<lparr>ax_depth := ?d\<rparr>) e)"
    using bases name open_name assms(3) by (simp add: axml_end_tag_def Let_def st1_def)
  ultimately show ?thesis
    using fail_ok [OF parts(1), of e] by (cases "name = open_name") (simp_all del: step_ok_simps)
qed

lemma end_tag_mid_ok:
  assumes "inv_part 1 st" "ts = ax_stack st ! ax_depth st" "\<not> (byte = 0x3E \<and> ax_depth st = 0)"
  shows "step_ok (axml_end_tag_mid h ts byte st e)"
proof (cases "axml_putc (if byte = 0x3E then 0 else byte) st")
  case None
  then show ?thesis using fail_ok [OF assms(1), of e] by (simp add: axml_end_tag_mid_def del: step_ok_simps)
next
  case (Some st1)
  note st1 = putc_part [OF assms(1) Some]
  have "step_ok (axml_end_tag h ts st1 e)" if "byte = 0x3E"
    by (rule end_tag_ok [OF st1(1)]) (use st1 assms that in simp_all)
  then show ?thesis
    using Some go_ok [OF st1(1), of XS_END_TAG_MID e] by (simp add: axml_end_tag_mid_def del: step_ok_simps)
qed

lemma tag_slash_ok:
  assumes "inv_part n st" "ts = ax_stack st ! ax_depth st" "\<not> (byte = 0x3E \<and> ax_depth st = 0)"
  shows "step_ok (axml_tag_slash h ts byte st e)"
  unfolding axml_tag_slash_def
  by (rule put_arg_ok [OF assms(1)], rule end_tag_mid_ok) (use assms(2,3) in simp_all)

lemma byte_ok:
  assumes "axml_inv st" "\<not> axml_hazard byte st"
  shows "step_ok (axml_byte h byte st e)"
proof -
  have p0: "inv_part 0 st" using axml_inv_part [OF assms(1)] by (rule inv_part_0)
  have p1: "inv_part 1 st" if "ax_state st \<in> {XS_TEXT, XS_TAG_MID, XS_END_TAG_MID}"
    using axml_inv_part [OF assms(1)] that by simp
  have simple: "step_ok (go s st e)" if "s \<notin> {XS_TEXT, XS_TAG_MID, XS_END_TAG_MID}" for s
    by (rule go_ok [OF p0]) (use that in simp)
  let ?ts = "ax_stack st ! ax_depth st"
  have code: "axml_byte h byte st e = (case ax_state st of
             XS_TEXT_START \<Rightarrow> axml_text_start ?ts byte st e
           | XS_TEXT \<Rightarrow> axml_text_byte h ?ts byte st e
           | XS_TEXT_SKIP \<Rightarrow> if byte = 0x3C then go XS_TAG_START st e else go XS_TEXT_SKIP st e
           | XS_TAG_START \<Rightarrow> axml_tag_start ?ts byte st e
           | XS_TAG_MID \<Rightarrow> axml_tag_mid ?ts byte st e
           | XS_TAG_GT \<Rightarrow>
               if byte \<noteq> 0x3E then fail st e
               else if ax_depth st = 0 then go XS_DONE st e else go XS_TEXT_START st e
           | XS_TAG_SLASH \<Rightarrow> axml_tag_slash h ?ts byte st e
           | XS_END_TAG_MID \<Rightarrow> axml_end_tag_mid h ?ts byte st e
           | XS_TAG_BANG \<Rightarrow> if byte = 0x3E then go XS_TEXT_START st e else go XS_TAG_BANG st e
           | XS_TAG_QUEST \<Rightarrow> if byte = 0x3E then go XS_TEXT_START st e else go XS_TAG_QUEST st e
           | XS_DONE \<Rightarrow> if ws_skipped ?ts byte then go XS_DONE st e else fail st e
           | XS_IDLE \<Rightarrow> fail st e
           | XS_ERROR \<Rightarrow> fail st e)"
    using inv_partD(3) [OF p0] by (simp add: axml_byte_def)
  note fails = fail_ok [OF p0, of e]
  show ?thesis
  proof (cases "ax_state st")
    case XS_TEXT
    then have "step_ok (axml_text_byte h ?ts byte st e)"
      using assms(2) p1 by (intro text_byte_ok) (auto simp: axml_hazard_def)
    then show ?thesis using code XS_TEXT by simp
  next
    case XS_TAG_MID
    then have "step_ok (axml_tag_mid ?ts byte st e)"
      using assms(2) p1 by (intro tag_mid_ok) (auto simp: axml_hazard_def)
    then show ?thesis using code XS_TAG_MID by simp
  next
    case XS_END_TAG_MID
    then have "step_ok (axml_end_tag_mid h ?ts byte st e)"
      using assms(2) p1 by (intro end_tag_mid_ok) (auto simp: axml_hazard_def)
    then show ?thesis using code XS_END_TAG_MID by simp
  next
    case XS_TAG_START
    then have "step_ok (axml_tag_start ?ts byte st e)"
      using assms(2) by (intro tag_start_ok [OF p0]) (auto simp: axml_hazard_def)
    then show ?thesis using code XS_TAG_START by simp
  next
    case XS_TAG_SLASH
    then have "step_ok (axml_tag_slash h ?ts byte st e)"
      using assms(2) by (intro tag_slash_ok [OF p0]) (auto simp: axml_hazard_def)
    then show ?thesis using code XS_TAG_SLASH by simp
  next
    case XS_TEXT_START
    then show ?thesis using code text_start_ok [OF p0] by simp
  qed (use code simple fails in \<open>simp_all del: step_ok_simps\<close>)
qed

text \<open>No hazard on the way through a piece of input.\<close>

fun hazard_free :: "'e axml_handler \<Rightarrow> bytes \<Rightarrow> axml_state \<Rightarrow> 'e \<Rightarrow> bool" where
  "hazard_free h [] st e = True"
| "hazard_free h (byte # buf) st e =
     (\<not> axml_hazard byte st \<and>
      (case axml_byte h byte st e of Some (Go (st, e)) \<Rightarrow> hazard_free h buf st e | _ \<Rightarrow> True))"

lemma loop_ok:
  assumes "axml_inv st" "hazard_free h buf st e"
  shows "\<exists>r st' e'. axml_loop h buf used st e = Some (r, st', e') \<and> axml_inv st' \<and> - 1 \<le> r \<and> r \<le> int (used + length buf)"
  using assms
proof (induction buf arbitrary: used st e)
  case (Cons byte buf)
  obtain out where out: "axml_byte h byte st e = Some out" "axml_inv (outcome_state out)"
    using byte_ok [OF Cons.prems(1), of byte h e] Cons.prems(2) by (auto simp: step_ok_def)
  show ?case
  proof (cases out)
    case (Go p)
    obtain st1 e1 where p: "p = (st1, e1)" by (cases p)
    show ?thesis using Cons.IH [of st1 e1 "used + 1"] Cons.prems(2) out Go p by auto
  qed (use out in \<open>auto split: prod.split\<close>)
qed simp

lemma axml_init_ok: "axml_inv (axml_parse_init table)"
  by (auto simp: axml_inv_def axml_arrays_ok_def axml_buffers_ok_def arg_bases_ok_def axml_parse_init_def Let_def)

section \<open>Input in pieces\<close>

text \<open>The count of calls has no effect.\<close>

definition with_count :: "u16 \<Rightarrow> axml_state \<Rightarrow> axml_state" where
  "with_count n st = st\<lparr>ax_bytes := n\<rparr>"

fun outcome_count :: "u16 \<Rightarrow> (axml_state \<times> 'e) axml_outcome \<Rightarrow> (axml_state \<times> 'e) axml_outcome" where
  "outcome_count n (Go (st, e)) = Go (with_count n st, e)"
| "outcome_count n (Wait (st, e)) = Wait (with_count n st, e)"
| "outcome_count n (Fail (st, e)) = Fail (with_count n st, e)"

lemma with_count_simps [simp]:
  "ax_state (with_count n st) = ax_state st" "ax_depth (with_count n st) = ax_depth st" "ax_argc (with_count n st) = ax_argc st"
  "ax_textp (with_count n st) = ax_textp st" "ax_argv (with_count n st) = ax_argv st" "ax_stack (with_count n st) = ax_stack st"
  "ax_text (with_count n st) = ax_text st"
  "with_count n (with_count m st) = with_count n st"
  "(with_count n st)\<lparr>ax_state := s\<rparr> = with_count n (st\<lparr>ax_state := s\<rparr>)"
  "(with_count n st)\<lparr>ax_depth := d\<rparr> = with_count n (st\<lparr>ax_depth := d\<rparr>)"
  "(with_count n st)\<lparr>ax_argc := d\<rparr> = with_count n (st\<lparr>ax_argc := d\<rparr>)"
  "(with_count n st)\<lparr>ax_textp := d\<rparr> = with_count n (st\<lparr>ax_textp := d\<rparr>)"
  "(with_count n st)\<lparr>ax_stack := k\<rparr> = with_count n (st\<lparr>ax_stack := k\<rparr>)"
  "(with_count n st)\<lparr>ax_text := b\<rparr> = with_count n (st\<lparr>ax_text := b\<rparr>)"
  "(with_count n st)\<lparr>ax_argv := a\<rparr> = with_count n (st\<lparr>ax_argv := a\<rparr>)"
  "(with_count n st)\<lparr>ax_is_partial := q\<rparr> = with_count n (st\<lparr>ax_is_partial := q\<rparr>)"
  by (simp_all add: with_count_def)

lemma count_helpers [simp]:
  "arg_ptr (with_count n st) i = arg_ptr st i" "arg_string (with_count n st) i = arg_string st i"
  "stack_at (with_count n st) d = stack_at st d" "axml_args (with_count n st) base = axml_args st base"
  "text_end (with_count n st) = with_count n (text_end st)"
  "axml_putc c (with_count n st) = map_option (with_count n) (axml_putc c st)"
  "axml_put_arg p (with_count n st) = map_option (with_count n) (axml_put_arg p st)"
  by (simp_all add: arg_ptr_def arg_string_def stack_at_def axml_args_def text_end_def axml_putc_def axml_put_arg_def)

lemma count_putc_try [simp]: "axml_putc_try c (with_count n st) = with_count n (axml_putc_try c st)"
  by (simp add: axml_putc_try_def split: option.split)

lemma count_putc_tries [simp]: "fold axml_putc_try cs (with_count n st) = with_count n (fold axml_putc_try cs st)"
  by (induction cs arbitrary: st) simp_all

fun call_count :: "u16 \<Rightarrow> 'e axml_call \<Rightarrow> 'e axml_call" where
  "call_count n Call_failed = Call_failed"
| "call_count n (Called st r e lo) = Called (with_count n st) r e lo"

lemma count_call_tag [simp]:
  "axml_call_tag h k part base (with_count n st) e = map_option (call_count n) (axml_call_tag h k part base st e)"
  by (auto simp: axml_call_tag_def Let_def axml_args_def split: option.splits sum.splits prod.splits)

lemma count_calls [simp]:
  "axml_partial h ts name (with_count n st) e = map_option (call_count n) (axml_partial h ts name st e)"
  "axml_end_call h base name parent (with_count n st) e = map_option (call_count n) (axml_end_call h base name parent st e)"
  by (simp_all add: axml_partial_def axml_end_call_def Let_def split: option.split)

lemma count_text_start: "axml_text_start ts c (with_count n st) e = map_option (outcome_count n) (axml_text_start ts c st e)"
  by (simp add: axml_text_start_def split: option.split)

lemma count_text_byte: "axml_text_byte h ts c (with_count n st) e = map_option (outcome_count n) (axml_text_byte h ts c st e)"
  by (auto simp: axml_text_byte_def Let_def split: option.splits axml_call.splits)

lemma count_tag_mid: "axml_tag_mid ts c (with_count n st) e = map_option (outcome_count n) (axml_tag_mid ts c st e)"
  by (simp add: axml_tag_mid_def Let_def split: option.split)

lemma count_tag_start: "axml_tag_start ts c (with_count n st) e = map_option (outcome_count n) (axml_tag_start ts c st e)"
  by (simp add: axml_tag_start_def count_tag_mid split: option.split)

lemma count_pop: "axml_pop h base name (with_count n st) e = map_option (outcome_count n) (axml_pop h base name st e)"
  by (auto simp: axml_pop_def Let_def split: option.splits axml_call.splits)

lemma count_end_tag: "axml_end_tag h ts (with_count n st) e = map_option (outcome_count n) (axml_end_tag h ts st e)"
proof -
  have same: "arg_string ((with_count n st)\<lparr>ax_argc := k\<rparr>) i = arg_string st i" "arg_string (st\<lparr>ax_argc := k\<rparr>) i = arg_string st i" for k i
    by (simp_all add: arg_string_def arg_ptr_def)
  show ?thesis
    using count_pop [of h "ts_arg_base ts" _ n "st\<lparr>ax_argc := ax_argc st - 1, ax_depth := ax_depth st - 1\<rparr>" e]
    by (simp add: axml_end_tag_def Let_def same split: option.split)
qed

lemma count_end_tag_mid: "axml_end_tag_mid h ts c (with_count n st) e = map_option (outcome_count n) (axml_end_tag_mid h ts c st e)"
  by (simp add: axml_end_tag_mid_def count_end_tag split: option.split)

lemma count_tag_slash: "axml_tag_slash h ts c (with_count n st) e = map_option (outcome_count n) (axml_tag_slash h ts c st e)"
  by (simp add: axml_tag_slash_def count_end_tag_mid split: option.split)

lemma count_byte: "axml_byte h c (with_count n st) e = map_option (outcome_count n) (axml_byte h c st e)"
  by (simp add: axml_byte_def count_text_start count_text_byte count_tag_mid count_tag_start count_end_tag_mid count_tag_slash
      split: option.split axml_parse_state.split)

lemma count_loop:
  "axml_loop h buf used (with_count n st) e = map_option (\<lambda>(r, st, e). (r, with_count n st, e)) (axml_loop h buf used st e)"
  by (induction buf arbitrary: used st e) (simp_all add: count_byte split: option.split axml_outcome.split prod.split)

lemma loop_used:
  "axml_loop h buf (used + k) st e = map_option (\<lambda>(r, st, e). (if r < 0 then r else r + int k, st, e)) (axml_loop h buf used st e)"
proof (induction buf arbitrary: used st e)
  case (Cons c buf)
  have k: "used + k + 1 = (used + 1) + k" by simp
  show ?case unfolding axml_loop.simps k Cons.IH by (simp split: option.split axml_outcome.split prod.split)
qed simp

text \<open>A piece that is read to its end, with no handler that asks to wait.\<close>

fun reads_on :: "'e axml_handler \<Rightarrow> bytes \<Rightarrow> axml_state \<Rightarrow> 'e \<Rightarrow> (axml_state \<times> 'e) option" where
  "reads_on h [] st e = Some (st, e)"
| "reads_on h (c # buf) st e =
     (case axml_byte h c st e of Some (Go (st, e)) \<Rightarrow> reads_on h buf st e | _ \<Rightarrow> None)"

lemma loop_append:
  "reads_on h as st e = Some (st1, e1) \<Longrightarrow> axml_loop h (as @ bs) used st e = axml_loop h bs (used + length as) st1 e1"
  by (induction as arbitrary: used st e) (auto split: option.splits axml_outcome.splits prod.splits)

text \<open>Handlers that never ask to wait.\<close>

definition handlers_accept :: "'e axml_handler \<Rightarrow> bool" where
  "handlers_accept h \<longleftrightarrow> (\<forall>n partial args e. fst (h n partial args e) \<noteq> - 1)"

lemma accept_call:
  assumes "handlers_accept h"
  shows "axml_call_tag h n partial base st e \<noteq> Some (Called st' (- 1) e' lo)"
  using assms unfolding handlers_accept_def
  by (auto simp: axml_call_tag_def Let_def split: option.split sum.split prod.split) (metis fst_conv)+

lemma accept_calls:
  assumes "handlers_accept h"
  shows "axml_partial h ts name st e \<noteq> Some (Called st' (- 1) e' lo)" "axml_end_call h base name parent st e \<noteq> Some (Called st' (- 1) e' lo)"
  using accept_call [OF assms] by (auto simp: axml_partial_def axml_end_call_def Let_def split: option.split)

lemma accept_pop:
  assumes "handlers_accept h"
  shows "axml_pop h base name st e \<noteq> Some (Wait p)"
  using accept_calls(2) [OF assms] by (auto simp: axml_pop_def Let_def split: option.splits axml_call.splits)

lemma accept_byte:
  assumes "handlers_accept h"
  shows "axml_byte h c st e \<noteq> Some (Wait p)"
proof -
  have start: "axml_text_start ts c st e \<noteq> Some (Wait p)" for ts c st by (simp add: axml_text_start_def split: option.split)
  have txt_byte: "axml_text_byte h ts c st e \<noteq> Some (Wait p)" for ts c st
    using accept_calls [OF assms] by (auto simp: axml_text_byte_def Let_def split: option.splits axml_call.splits)
  have mid: "axml_tag_mid ts c st e \<noteq> Some (Wait p)" for ts c st by (simp add: axml_tag_mid_def Let_def split: option.split)
  have tag: "axml_tag_start ts c st e \<noteq> Some (Wait p)" for ts c st by (simp add: axml_tag_start_def mid split: option.split)
  have close: "axml_end_tag_mid h ts c st e \<noteq> Some (Wait p)" for ts c st
    using accept_pop [OF assms] by (simp add: axml_end_tag_mid_def axml_end_tag_def Let_def split: option.split)
  have slash: "axml_tag_slash h ts c st e \<noteq> Some (Wait p)" for ts c st by (simp add: axml_tag_slash_def close split: option.split)
  show ?thesis
    by (simp add: axml_byte_def start txt_byte mid tag close slash split: option.split axml_parse_state.split)
qed

lemma loop_reads_on:
  assumes "handlers_accept h" "axml_loop h as used st e = Some (r, st1, e1)" "r \<noteq> - 1"
  shows "reads_on h as st e = Some (st1, e1)"
  using assms(2,3)
proof (induction as arbitrary: used st e)
  case (Cons c as)
  then show ?case using accept_byte [OF assms(1)] by (auto split: option.splits axml_outcome.splits prod.splits)
qed simp

lemma parse_with_count: "axml_parse h st buf e = axml_loop h buf 0 (with_count (ax_bytes st + 1) st) e"
  by (simp add: axml_parse_def with_count_def)

lemma loop_count: "axml_loop h buf used (with_count n st) e = Some (r, st1, e1) \<Longrightarrow> with_count n st1 = st1"
  by (auto simp: count_loop)

lemma hazard_count [simp]: "axml_hazard c (with_count n st) = axml_hazard c st"
  by (simp add: axml_hazard_def long_leftover_def)

lemma hazard_free_count: "hazard_free h buf (with_count n st) e = hazard_free h buf st e"
  by (induction buf arbitrary: st e) (simp_all add: count_byte split: option.split axml_outcome.split prod.split)

lemma inv_count: "axml_inv (with_count n st) = axml_inv st"
  by (simp add: axml_inv_def axml_arrays_ok_def axml_buffers_ok_def arg_bases_ok_def with_count_def)

section \<open>The parser\<close>

definition record_calls :: "(nat \<times> bytes list) list axml_handler" where
  "record_calls n partial args calls = (0, calls @ [(n, args)])"

lemma record_calls_accept: "handlers_accept record_calls"
  by (simp add: handlers_accept_def record_calls_def)

text \<open>C36.  The parser may be fed the document in pieces: unless a handler asks to wait, parsing two pieces one
  after the other has the same effect as parsing them at once, but for the count of calls.\<close>

theorem axml_parse_pieces:
  assumes "handlers_accept h" "axml_parse h st as e = Some (r, st1, e1)" "r \<noteq> - 1"
  shows "axml_parse h st (as @ bs) e
    = (case axml_parse h st1 bs e1 of
         None \<Rightarrow> None
       | Some (r2, st2, e2) \<Rightarrow> Some (if r2 < 0 then r2 else r2 + int (length as), st2\<lparr>ax_bytes := ax_bytes st1\<rparr>, e2))"
proof -
  let ?n = "ax_bytes st + 1"
  have first: "axml_loop h as 0 (with_count ?n st) e = Some (r, st1, e1)" using assms(2) by (simp add: parse_with_count)
  have st1: "with_count ?n st1 = st1" by (rule loop_count [OF first])
  then have n: "ax_bytes st1 = ?n" by (metis axml_state.select_convs(3) axml_state.surjective axml_state.update_convs(3) with_count_def)
  have "axml_parse h st (as @ bs) e = axml_loop h bs (0 + length as) (with_count ?n st1) e1"
    using loop_append [OF loop_reads_on [OF assms(1) first assms(3)]] st1 by (simp add: parse_with_count)
  also have "\<dots> = map_option (\<lambda>(r2, st2, e2). (if r2 < 0 then r2 else r2 + int (length as), with_count ?n st2, e2)) (axml_parse h st1 bs e1)"
    unfolding loop_used parse_with_count count_loop by (cases "axml_loop h bs 0 st1 e1") auto
  finally show ?thesis unfolding n by (cases "axml_parse h st1 bs e1") (auto simp: with_count_def)
qed

lemma axml_parse_pieces_witness:
  "axml_parse record_calls (axml_parse_init None) (str '' <'' @ str ''a>'') []
    = (case axml_parse record_calls ((axml_parse_init None)\<lparr>ax_state := XS_TAG_START, ax_bytes := 1\<rparr>) (str ''a>'') [] of
         None \<Rightarrow> None
       | Some (r2, st2, e2) \<Rightarrow> Some (if r2 < 0 then r2 else r2 + int (length (str '' <'')), st2\<lparr>ax_bytes := 1\<rparr>, e2))"
proof -
  have "axml_parse record_calls (axml_parse_init None) (str '' <'') []
      = Some (2, (axml_parse_init None)\<lparr>ax_state := XS_TAG_START, ax_bytes := 1\<rparr>, [])"
    by (simp add: axml_parse_def str_def axml_byte_def axml_parse_init_def stack_at_def Let_def)
  moreover have "ax_bytes ((axml_parse_init None)\<lparr>ax_state := XS_TAG_START, ax_bytes := 1\<rparr>) = 1" by simp
  moreover have "(2::int) \<noteq> - 1" by simp
  ultimately show ?thesis
    using axml_parse_pieces [OF record_calls_accept, of "axml_parse_init None" "str '' <''" "[]" 2
        "(axml_parse_init None)\<lparr>ax_state := XS_TAG_START, ax_bytes := 1\<rparr>" "[]" "str ''a>''"]
    by metis
qed

text \<open>C34.  The parser stays inside its buffers: it starts in a state that satisfies the invariant, and on any
  piece of input without one of the bytes that \<^term>\<open>axml_hazard\<close> names (the end of a tag where no element is
  open, text behind no element, a tag nested too deep), every access is inside its array, the invariant holds
  afterwards, and the result is the number of bytes used or -1.\<close>

theorem axml_parse_safe:
  assumes "axml_inv st" "hazard_free h buf st e"
  shows "axml_inv (axml_parse_init table) \<and>
    (\<exists>r st' e'. axml_parse h st buf e = Some (r, st', e') \<and> axml_inv st' \<and> - 1 \<le> r \<and> r \<le> int (length buf))"
  using loop_ok [of "with_count (ax_bytes st + 1) st" h buf e 0] assms axml_init_ok [of table]
  by (simp add: parse_with_count inv_count hazard_free_count)

lemma axml_parse_safe_witness:
  "axml_inv (axml_parse_init None) \<and>
    (\<exists>r st' e'. axml_parse record_calls (axml_parse_init None) (str ''<a>'') [] = Some (r, st', e') \<and> axml_inv st' \<and> - 1 \<le> r \<and> r \<le> 3)"
proof -
  have "hazard_free record_calls (str ''<a>'') (axml_parse_init None) []" by code_simp
  from axml_parse_safe [OF axml_init_ok this, of None] show ?thesis by (simp add: str_def)
qed

end
