(* ===== verification/AxmlDoc.thy ===== *)
theory AxmlDoc
  imports AxmlParse
begin

text \<open>
  What the agent's XML parser does with a well-formed document: it calls the handlers of the elements, inner
  elements first, each with the decoded texts of its element.
\<close>

section \<open>Documents\<close>

text \<open>
  An element has a name, attributes (which the parser ignores), its first text, its children, and the text
  that follows it.  A text is given as it stands in the document and as its value.
\<close>

datatype xelem = XElem (xe_name: bytes) (xe_attr: bytes) (xe_raw: bytes) (xe_val: bytes) (xe_kids: "xelem list")
  (xe_tail: bytes) (xe_tail_val: bytes)

fun xe_render :: "xelem \<Rightarrow> bytes" where
  "xe_render (XElem n a r v kids tr tv) =
     0x3C # n @ a @ 0x3E # r @ concat (map (\<lambda>k. xe_render k @ xe_tail k) kids) @ [0x3C, 0x2F] @ n @ [0x3E]"

text \<open>White space is dropped everywhere in a text, unless the tag keeps it.\<close>

definition ws_strip :: "bool \<Rightarrow> bytes \<Rightarrow> bytes" where
  "ws_strip keep raw = (if keep then raw else filter (\<lambda>c. \<not> axml_ws c) raw)"

definition text_arg :: "bool \<Rightarrow> bytes \<Rightarrow> bytes \<Rightarrow> bytes list" where
  "text_arg keep raw v = (if ws_strip keep raw = [] then [] else [v])"

text \<open>The table and the flag for what is inside an element.\<close>

definition inner_table :: "axml_tag list option \<Rightarrow> bytes \<Rightarrow> axml_tag list option" where
  "inner_table table n = (case axml_tag_find table n of Some t \<Rightarrow> atag_subtags t | None \<Rightarrow> None)"

definition inner_keep :: "axml_tag list option \<Rightarrow> bytes \<Rightarrow> bool" where
  "inner_keep table n = (case axml_tag_find table n of Some t \<Rightarrow> atag_keep_ws t | None \<Rightarrow> False)"

definition body_args :: "bool \<Rightarrow> bytes \<Rightarrow> bytes \<Rightarrow> xelem list \<Rightarrow> bytes list" where
  "body_args keep r v kids = text_arg keep r v @ concat (map (\<lambda>k. text_arg keep (xe_tail k) (xe_tail_val k)) kids)"

text \<open>The effect of a document on the state of the handlers.\<close>

fun elem_calls :: "'e axml_handler \<Rightarrow> axml_tag list option \<Rightarrow> xelem \<Rightarrow> 'e \<Rightarrow> 'e"
and kids_calls :: "'e axml_handler \<Rightarrow> axml_tag list option \<Rightarrow> xelem list \<Rightarrow> 'e \<Rightarrow> 'e" where
  "elem_calls h table (XElem n a r v kids tr tv) e =
     (let e = kids_calls h (inner_table table n) kids e
      in case Option.bind (axml_tag_find table n) atag_parse of
           Some k \<Rightarrow> snd (h k False (body_args (inner_keep table n) r v kids) e)
         | None \<Rightarrow> e)"
| "kids_calls h table [] e = e"
| "kids_calls h table (x # xs) e = kids_calls h table xs (elem_calls h table x e)"

text \<open>
  Which documents: names and attributes without the bytes that end them, texts that are encodings, and room
  for everything in the buffer, the arguments and the stack.  \<open>p\<close> is the position in the buffer, \<open>k\<close> the
  number of arguments, \<open>q\<close> the length of the last one.
\<close>

definition name_ok :: "bytes \<Rightarrow> bool" where
  "name_ok n \<longleftrightarrow> n \<noteq> [] \<and> hd n \<notin> {0x21, 0x3F} \<and> (\<forall>c \<in> set n. c \<notin> {0, 0x20, 0x2F, 0x3E})"

definition attr_ok :: "bytes \<Rightarrow> bool" where
  "attr_ok a \<longleftrightarrow> (a = [] \<or> hd a = 0x20) \<and> (\<forall>c \<in> set a. c \<notin> {0x2F, 0x3E})"

definition text_fits :: "bool \<Rightarrow> bytes \<Rightarrow> bytes \<Rightarrow> nat \<times> nat \<times> nat \<Rightarrow> (nat \<times> nat \<times> nat) option" where
  "text_fits keep raw v = (\<lambda>(p, k, q).
     (let s = ws_strip keep raw; n = length s
      in if 0x3C \<in> set raw then None
         else if s = [] then Some (p, k, q)
         else if s = xml_escape v \<and> 0 \<notin> set v \<and> k < XML_ARGS \<and> p + n + q + 4 \<le> XML_MAX_TEXT \<and> p + n + 1 < XML_MAX_TEXT
           then Some (p + n + 1, k + 1, n)
         else None))"

fun elem_fits :: "axml_tag list option \<Rightarrow> nat \<Rightarrow> nat \<Rightarrow> nat \<Rightarrow> xelem \<Rightarrow> bool"
and kids_fits :: "axml_tag list option \<Rightarrow> bool \<Rightarrow> nat \<Rightarrow> nat \<times> nat \<times> nat \<Rightarrow> xelem list \<Rightarrow> (nat \<times> nat \<times> nat) option" where
  "elem_fits table d p k (XElem n a r v kids tr tv) =
     (name_ok n \<and> attr_ok a \<and> d + 1 < XML_MAX_DEPTH \<and> k < XML_ARGS \<and> p + length n + length a + 2 < XML_MAX_TEXT \<and>
      (case Option.bind (text_fits (inner_keep table n) r v (p + length n + length a + 2, k + 1, length n))
              (\<lambda>pkq. kids_fits (inner_table table n) (inner_keep table n) (d + 1) pkq kids) of
         None \<Rightarrow> False
       | Some (p', k', q') \<Rightarrow> k' < XML_ARGS \<and> p' + length n + 2 < XML_MAX_TEXT))"
| "kids_fits table keep d pkq [] = Some pkq"
| "kids_fits table keep d (p, k, q) (x # xs) =
     (if elem_fits table d p k x then
        Option.bind (text_fits keep (xe_tail x) (xe_tail_val x) (p + 1, k, q)) (\<lambda>pkq. kids_fits table keep d pkq xs)
      else None)"

section \<open>Runs\<close>

definition axml_runs :: "'e axml_handler \<Rightarrow> bytes \<Rightarrow> axml_state \<Rightarrow> 'e \<Rightarrow> axml_state \<Rightarrow> 'e \<Rightarrow> bool" where
  "axml_runs h bs st e st' e' \<longleftrightarrow>
     (\<forall>rest used. axml_loop h (bs @ rest) used st e = axml_loop h rest (used + length bs) st' e')"

lemma axml_runs_Nil [simp]: "axml_runs h [] st e st e"
  by (simp add: axml_runs_def)

lemma axml_runs_trans: "axml_runs h as st e st1 e1 \<Longrightarrow> axml_runs h bs st1 e1 st2 e2 \<Longrightarrow> axml_runs h (as @ bs) st e st2 e2"
  by (simp add: axml_runs_def add.assoc)

lemma axml_runs_byte: "axml_byte h b st e = Some (Go (st', e')) \<Longrightarrow> axml_runs h [b] st e st' e'"
  by (simp add: axml_runs_def)

lemma axml_runs_Cons: "axml_byte h b st e = Some (Go (st1, e1)) \<Longrightarrow> axml_runs h bs st1 e1 st2 e2 \<Longrightarrow> axml_runs h (b # bs) st e st2 e2"
  using axml_runs_trans [OF axml_runs_byte] by fastforce

text \<open>
  \<open>rep st s C P S\<close>: the parser is in state \<open>s\<close>, the buffer holds \<open>C\<close>, the arguments are at \<open>P\<close>, and \<open>S\<close> is the
  stack up to its top.
\<close>

definition rep :: "axml_state \<Rightarrow> axml_parse_state \<Rightarrow> bytes \<Rightarrow> nat list \<Rightarrow> axml_tag_state list \<Rightarrow> bool" where
  "rep st s C P S \<longleftrightarrow>
     ax_state st = s \<and> ax_textp st = length C \<and> take (length C) (ax_text st) = C \<and> length (ax_text st) = XML_MAX_TEXT
     \<and> ax_text st ! (XML_MAX_TEXT - 1) = 0
     \<and> ax_argc st = length P \<and> take (length P) (ax_argv st) = map Some P \<and> length (ax_argv st) = XML_ARGS
     \<and> S \<noteq> [] \<and> ax_depth st = length S - 1 \<and> take (length S) (ax_stack st) = S \<and> length (ax_stack st) = XML_MAX_DEPTH"

lemma rep_state: "rep st s C P S \<Longrightarrow> rep (st\<lparr>ax_state := s'\<rparr>) s' C P S"
  by (simp add: rep_def)

lemma rep_putc:
  assumes "rep st s C P S" "length C + 1 < XML_MAX_TEXT"
  shows "\<exists>st'. axml_putc c st = Some st' \<and> rep st' s (C @ [c]) P S"
proof -
  have "take (length C + 1) ((ax_text st)[length C := c]) = C @ [c]"
    using assms by (auto simp: rep_def take_Suc_conv_app_nth)
  moreover have "(ax_text st)[length C := c] ! 799 = ax_text st ! 799" using assms(2) by simp
  ultimately show ?thesis using assms by (auto simp: axml_putc_def rep_def)
qed

lemma rep_put_arg:
  assumes "rep st s C P S" "length P < XML_ARGS"
  shows "\<exists>st'. axml_put_arg (ax_textp st) st = Some st' \<and> rep st' s C (P @ [length C]) S"
proof -
  have "take (length P + 1) ((ax_argv st)[length P := Some (length C)]) = map Some P @ [Some (length C)]"
    using assms by (auto simp: rep_def take_Suc_conv_app_nth)
  then show ?thesis using assms by (auto simp: axml_put_arg_def rep_def)
qed

lemma stack_top:
  assumes "S \<noteq> []" "take (length S) X = S"
  shows "length S \<le> length X" "X ! (length S - 1) = last S"
proof -
  show "length S \<le> length X" using assms(2) by (metis length_take min.cobounded1)
  show "X ! (length S - 1) = last S"
    using assms by (metis last_conv_nth nth_take diff_less length_greater_0_conv zero_less_one)
qed

lemma rep_top: "rep st s C P S \<Longrightarrow> stack_at st (ax_depth st) = Some (last S)"
  using stack_top [of S "ax_stack st"] by (cases S) (auto simp: stack_at_def rep_def)

lemma rep_byte:
  assumes "rep st s C P S"
  shows "axml_byte h b st e = (case s of
             XS_TEXT_START \<Rightarrow> axml_text_start (last S) b st e
           | XS_TEXT \<Rightarrow> axml_text_byte h (last S) b st e
           | XS_TEXT_SKIP \<Rightarrow> if b = 0x3C then go XS_TAG_START st e else go XS_TEXT_SKIP st e
           | XS_TAG_START \<Rightarrow> axml_tag_start (last S) b st e
           | XS_TAG_MID \<Rightarrow> axml_tag_mid (last S) b st e
           | XS_TAG_GT \<Rightarrow>
               if b \<noteq> 0x3E then fail st e
               else if ax_depth st = 0 then go XS_DONE st e else go XS_TEXT_START st e
           | XS_TAG_SLASH \<Rightarrow> axml_tag_slash h (last S) b st e
           | XS_END_TAG_MID \<Rightarrow> axml_end_tag_mid h (last S) b st e
           | XS_TAG_BANG \<Rightarrow> if b = 0x3E then go XS_TEXT_START st e else go XS_TAG_BANG st e
           | XS_TAG_QUEST \<Rightarrow> if b = 0x3E then go XS_TEXT_START st e else go XS_TAG_QUEST st e
           | XS_DONE \<Rightarrow> if ws_skipped (last S) b then go XS_DONE st e else fail st e
           | XS_IDLE \<Rightarrow> fail st e
           | XS_ERROR \<Rightarrow> fail st e)"
proof -
  have "ax_state st = s" using assms by (simp add: rep_def)
  then show ?thesis using rep_top [OF assms] by (simp add: axml_byte_def)
qed

text \<open>A terminated string in the part of the buffer that is known.\<close>

definition str_in :: "bytes \<Rightarrow> nat \<Rightarrow> bytes \<Rightarrow> bool" where
  "str_in C p s \<longleftrightarrow> p \<le> length C \<and> 0 \<notin> set s \<and> (\<exists>rest. drop p C = s @ 0 # rest)"

lemma str_in_append: "str_in C p s \<Longrightarrow> str_in (C @ D) p s"
  by (auto simp: str_in_def)

lemma str_in_here: "0 \<notin> set s \<Longrightarrow> str_in (C @ s @ 0 # D) (length C) s"
  by (auto simp: str_in_def)

lemma str_in_string:
  assumes "str_in C p s" "take (length C) buf = C"
  shows "text_string buf (Some p) = Some s"
proof -
  obtain rest where p: "p \<le> length C" "0 \<notin> set s" "drop p C = s @ 0 # rest" using assms(1) by (auto simp: str_in_def)
  have "drop p buf = drop p (C @ drop (length C) buf)" using assms(2) by (metis append_take_drop_id)
  also have "\<dots> = s @ 0 # (rest @ drop (length C) buf)" using p(1,3) by simp
  finally have d: "drop p buf = s @ 0 # (rest @ drop (length C) buf)" .
  show ?thesis unfolding text_string_def string_at_def option.case d by (simp add: cstr_front [OF p(2)])
qed

lemma rep_arg_ptr:
  assumes "rep st t C P S" "i < length P"
  shows "arg_ptr st i = Some (P ! i)"
proof -
  have P: "take (length P) (ax_argv st) = map Some P" using assms(1) by (simp add: rep_def)
  then have "length P \<le> length (ax_argv st)" by (metis length_map length_take min.cobounded1 min_def)
  moreover have "ax_argv st ! i = Some (P ! i)"
    using arg_cong [OF P, of "\<lambda>l. l ! i"] assms(2) by simp
  ultimately show ?thesis using assms(2) by (simp add: arg_ptr_def)
qed

lemma rep_arg:
  assumes "rep st t C P S" "i < length P" "str_in C (P ! i) s"
  shows "arg_string st i = Some s"
  using rep_arg_ptr [OF assms(1,2)] str_in_string [OF assms(3)] assms(1) by (simp add: arg_string_def rep_def)

lemma rep_putc_try:
  "rep st s C P S \<Longrightarrow> length C + 1 < XML_MAX_TEXT \<Longrightarrow> rep (axml_putc_try c st) s (C @ [c]) P S"
  using rep_putc [of st s C P S c] by (auto simp: axml_putc_try_def)

section \<open>Texts\<close>

text \<open>The last argument is a string of a given length.\<close>

definition last_string :: "bytes \<Rightarrow> nat list \<Rightarrow> nat \<Rightarrow> bool" where
  "last_string C P q \<longleftrightarrow> P \<noteq> [] \<and> (\<exists>s. str_in C (last P) s \<and> length s = q)"

lemma ws_strip_simps [simp]:
  "ws_strip keep [] = []" "ws_strip keep (c # cs) = (if axml_ws c \<and> \<not> keep then ws_strip keep cs else c # ws_strip keep cs)"
  by (simp_all add: ws_strip_def)

lemma text_rest_runs:
  assumes "rep st XS_TEXT (C @ w) (P @ [length C]) S" "last_string C P q" "0x3C \<notin> set raw"
    and "length C + length w + length (ws_strip (ts_keep_ws (last S)) raw) + q + 4 \<le> XML_MAX_TEXT"
    and "length C + length w + length (ws_strip (ts_keep_ws (last S)) raw) + 1 < XML_MAX_TEXT"
  shows "\<exists>st'. axml_runs h (raw @ [0x3C]) st e st' e
    \<and> rep st' XS_TAG_START (C @ w @ ws_strip (ts_keep_ws (last S)) raw @ [0]) (P @ [length C]) S"
  using assms
proof (induction raw arbitrary: st w)
  case Nil
  obtain st1 where st1: "axml_putc 0 st = Some st1" "rep st1 XS_TEXT ((C @ w) @ [0]) (P @ [length C]) S"
    using rep_putc [OF Nil(1)] Nil(5) by auto
  have "axml_byte h 0x3C st e = Some (Go (st1\<lparr>ax_state := XS_TAG_START\<rparr>, e))"
    using rep_byte [OF Nil(1), of h "0x3C" e] st1(1) by (simp add: axml_text_byte_def)
  then show ?case using rep_state [OF st1(2)] axml_runs_byte by fastforce
next
  case (Cons c raw)
  have c: "c \<noteq> 0x3C" "0x3C \<notin> set raw" using Cons.prems(3) by auto
  show ?case
  proof (cases "ws_skipped (last S) c")
    case True
    then have strip: "ws_strip (ts_keep_ws (last S)) (c # raw) = ws_strip (ts_keep_ws (last S)) raw"
      by (simp add: ws_skipped_def)
    have "axml_byte h c st e = Some (Go (st\<lparr>ax_state := XS_TEXT\<rparr>, e))"
      using rep_byte [OF Cons.prems(1), of h c e] c True by (simp add: axml_text_byte_def)
    moreover obtain st' where "axml_runs h (raw @ [0x3C]) (st\<lparr>ax_state := XS_TEXT\<rparr>) e st' e"
      "rep st' XS_TAG_START (C @ w @ ws_strip (ts_keep_ws (last S)) raw @ [0]) (P @ [length C]) S"
      using Cons.IH [OF rep_state [OF Cons.prems(1)] Cons.prems(2) c(2)] Cons.prems(4,5) strip by auto
    ultimately show ?thesis unfolding strip using axml_runs_Cons by fastforce
  next
    case False
    then have strip: "ws_strip (ts_keep_ws (last S)) (c # raw) = c # ws_strip (ts_keep_ws (last S)) raw"
      by (auto simp: ws_skipped_def)
    obtain s where s: "P \<noteq> []" "str_in C (last P) s" "length s = q" using Cons.prems(2) by (auto simp: last_string_def)
    let ?i = "length P - 1"
    have i: "?i < length (P @ [length C])" "(P @ [length C]) ! ?i = last P"
      using s(1) by (simp_all add: nth_append last_conv_nth)
    have arg: "arg_string st ?i = Some s"
      using rep_arg [OF Cons.prems(1) i(1)] str_in_append [OF s(2)] unfolding i(2) by blast
    have argc: "ax_argc st = length P + 1" "ax_textp st = length C + length w"
      using Cons.prems(1) by (simp_all add: rep_def)
    have "axml_byte h c st e = Some (Go ((axml_putc_try c st)\<lparr>ax_state := XS_TEXT\<rparr>, e))"
      using rep_byte [OF Cons.prems(1), of h c e] c False arg argc s Cons.prems(4) strip
      by (simp add: axml_text_byte_def)
    moreover have "rep ((axml_putc_try c st)\<lparr>ax_state := XS_TEXT\<rparr>) XS_TEXT (C @ (w @ [c])) (P @ [length C]) S"
      using rep_state [OF rep_putc_try [OF Cons.prems(1)]] Cons.prems(5) strip by simp
    then obtain st' where "axml_runs h (raw @ [0x3C]) ((axml_putc_try c st)\<lparr>ax_state := XS_TEXT\<rparr>) e st' e"
      "rep st' XS_TAG_START (C @ (w @ [c]) @ ws_strip (ts_keep_ws (last S)) raw @ [0]) (P @ [length C]) S"
      using Cons.IH [of _ "w @ [c]", OF _ Cons.prems(2) c(2)] Cons.prems(4,5) strip by auto
    ultimately show ?thesis unfolding strip using axml_runs_Cons by fastforce
  qed
qed

text \<open>A text, with the \<open><\<close> behind it.\<close>

definition text_part :: "bool \<Rightarrow> bytes \<Rightarrow> bytes" where
  "text_part keep raw = (if ws_strip keep raw = [] then [] else ws_strip keep raw @ [0])"

definition text_ptr :: "bool \<Rightarrow> bytes \<Rightarrow> bytes \<Rightarrow> nat list" where
  "text_ptr keep raw C = (if ws_strip keep raw = [] then [] else [length C])"

lemma text_start_runs:
  assumes "rep st XS_TEXT_START C P S" "last_string C P q" "0x3C \<notin> set raw" "length P < XML_ARGS \<or> ws_strip (ts_keep_ws (last S)) raw = []"
    and "length C + length (ws_strip (ts_keep_ws (last S)) raw) + q + 4 \<le> XML_MAX_TEXT \<or> ws_strip (ts_keep_ws (last S)) raw = []"
    and "length C + length (ws_strip (ts_keep_ws (last S)) raw) + 1 < XML_MAX_TEXT \<or> ws_strip (ts_keep_ws (last S)) raw = []"
  shows "\<exists>st'. axml_runs h (raw @ [0x3C]) st e st' e
    \<and> rep st' XS_TAG_START (C @ text_part (ts_keep_ws (last S)) raw) (P @ text_ptr (ts_keep_ws (last S)) raw C) S"
  using assms
proof (induction raw arbitrary: st)
  case Nil
  have "axml_byte h 0x3C st e = Some (Go (st\<lparr>ax_state := XS_TAG_START\<rparr>, e))"
    using rep_byte [OF Nil(1), of h "0x3C" e] by (simp add: axml_text_start_def)
  then show ?case using rep_state [OF Nil(1)] axml_runs_byte by (fastforce simp: text_part_def text_ptr_def)
next
  case (Cons c raw)
  have c: "c \<noteq> 0x3C" "0x3C \<notin> set raw" using Cons.prems(3) by auto
  show ?case
  proof (cases "ws_skipped (last S) c")
    case True
    then have strip: "ws_strip (ts_keep_ws (last S)) (c # raw) = ws_strip (ts_keep_ws (last S)) raw"
      by (simp add: ws_skipped_def)
    have "axml_byte h c st e = Some (Go (st\<lparr>ax_state := XS_TEXT_START\<rparr>, e))"
      using rep_byte [OF Cons.prems(1), of h c e] c True by (simp add: axml_text_start_def)
    moreover obtain st' where "axml_runs h (raw @ [0x3C]) (st\<lparr>ax_state := XS_TEXT_START\<rparr>) e st' e"
      "rep st' XS_TAG_START (C @ text_part (ts_keep_ws (last S)) raw) (P @ text_ptr (ts_keep_ws (last S)) raw C) S"
      using Cons.IH [OF rep_state [OF Cons.prems(1)] Cons.prems(2) c(2)] Cons.prems(4-6) unfolding strip by blast
    ultimately show ?thesis unfolding text_part_def text_ptr_def strip using axml_runs_Cons by fastforce
  next
    case False
    then have strip: "ws_strip (ts_keep_ws (last S)) (c # raw) = c # ws_strip (ts_keep_ws (last S)) raw"
      by (auto simp: ws_skipped_def)
    obtain st1 where st1: "axml_put_arg (ax_textp st) st = Some st1" "rep st1 XS_TEXT_START C (P @ [length C]) S"
      using rep_put_arg [OF Cons.prems(1)] Cons.prems(4) strip by auto
    obtain st2 where st2: "axml_putc c st1 = Some st2" "rep st2 XS_TEXT_START (C @ [c]) (P @ [length C]) S"
      using rep_putc [OF st1(2)] Cons.prems(6) strip by auto
    have "axml_byte h c st e = Some (Go (st2\<lparr>ax_state := XS_TEXT\<rparr>, e))"
      using rep_byte [OF Cons.prems(1), of h c e] c False st1(1) st2(1) by (simp add: axml_text_start_def)
    moreover obtain st' where "axml_runs h (raw @ [0x3C]) (st2\<lparr>ax_state := XS_TEXT\<rparr>) e st' e"
      "rep st' XS_TAG_START (C @ [c] @ ws_strip (ts_keep_ws (last S)) raw @ [0]) (P @ [length C]) S"
      using text_rest_runs [OF rep_state [OF st2(2)] Cons.prems(2) c(2), where h = h and e = e] Cons.prems(5,6) strip by auto
    ultimately show ?thesis unfolding text_part_def text_ptr_def strip using axml_runs_Cons by fastforce
  qed
qed

section \<open>Tags\<close>

definition inner_state :: "axml_tag list option \<Rightarrow> bytes \<Rightarrow> nat \<Rightarrow> axml_tag_state" where
  "inner_state table n base =
     (case axml_tag_find table n of
        Some t \<Rightarrow> \<lparr>ts_list = atag_subtags t, ts_keep_ws = atag_keep_ws t, ts_give_partial = atag_partial t, ts_arg_base = base\<rparr>
      | None \<Rightarrow> \<lparr>ts_list = None, ts_keep_ws = False, ts_give_partial = False, ts_arg_base = base\<rparr>)"

lemma inner_state_fields [simp]:
  "ts_list (inner_state table n base) = inner_table table n" "ts_keep_ws (inner_state table n base) = inner_keep table n"
  "ts_arg_base (inner_state table n base) = base"
  by (simp_all add: inner_state_def inner_table_def inner_keep_def split: option.split)

definition blank_nul :: "u8 \<Rightarrow> u8" where
  "blank_nul c = (if c = 0x20 then 0 else c)"

lemma tag_mid_runs:
  assumes "rep st XS_TAG_MID C P S" "\<forall>c \<in> set cs. c \<notin> {0x2F, 0x3E}" "length C + length cs < XML_MAX_TEXT - 1"
  shows "\<exists>st'. axml_runs h cs st e st' e \<and> rep st' XS_TAG_MID (C @ map blank_nul cs) P S"
  using assms
proof (induction cs arbitrary: st C)
  case Nil
  then show ?case by (intro exI [of _ st]) simp
next
  case (Cons c cs)
  obtain st1 where st1: "axml_putc (blank_nul c) st = Some st1" "rep st1 XS_TAG_MID (C @ [blank_nul c]) P S"
    using rep_putc [OF Cons.prems(1)] Cons.prems(3) by fastforce
  have "axml_byte h c st e = Some (Go (st1\<lparr>ax_state := XS_TAG_MID\<rparr>, e))"
    using rep_byte [OF Cons.prems(1), of h c e] Cons.prems(2) st1(1)
    by (cases "c = 0x20") (simp_all add: axml_tag_mid_def blank_nul_def)
  moreover obtain st' where "axml_runs h cs (st1\<lparr>ax_state := XS_TAG_MID\<rparr>) e st' e"
    "rep st' XS_TAG_MID ((C @ [blank_nul c]) @ map blank_nul cs) P S"
    using Cons.IH [OF rep_state [OF st1(2)]] Cons.prems(2,3) by auto
  ultimately show ?case using axml_runs_Cons by fastforce
qed

text \<open>The first byte of a name puts a NUL and an argument; the same holds for an end tag.\<close>

lemma rep_new_arg:
  assumes "rep st s C P S" "length C + 1 < XML_MAX_TEXT" "length P < XML_ARGS"
  shows "\<exists>st1 st2. axml_putc 0 st = Some st1 \<and> axml_put_arg (ax_textp st1) st1 = Some st2
    \<and> rep st2 s (C @ [0]) (P @ [length C + 1]) S"
  using rep_putc [OF assms(1,2), of 0] rep_put_arg [of _ s "C @ [0]" P S] assms(3) by fastforce

definition tag_text :: "bytes \<Rightarrow> bytes \<Rightarrow> bytes" where
  "tag_text n a = 0 # n @ map blank_nul a @ [0]"

lemma tag_name_string:
  assumes "name_ok n" "attr_ok a"
  shows "str_in (C @ tag_text n a) (length C + 1) n"
proof -
  have "0 \<notin> set n" using assms(1) by (auto simp: name_ok_def)
  moreover have "\<exists>rest. map blank_nul a @ [0] = 0 # rest"
    using assms(2) by (cases a) (auto simp: attr_ok_def blank_nul_def)
  ultimately show ?thesis by (auto simp: str_in_def tag_text_def)
qed

lemma name_blank: "name_ok n \<Longrightarrow> map blank_nul n = n"
  by (rule map_idI) (auto simp: name_ok_def blank_nul_def)

text \<open>A start tag up to its last byte, at any depth.\<close>

lemma tag_open_runs:
  assumes "rep st XS_TAG_START C P S" "name_ok n" "attr_ok a" "length P < XML_ARGS"
    and "length C + length n + length a + 2 < XML_MAX_TEXT"
  shows "\<exists>st'. axml_runs h (n @ a) st e st' e \<and> rep st' XS_TAG_MID (C @ 0 # n @ map blank_nul a) (P @ [length C + 1]) S"
proof -
  obtain c n' where n: "n = c # n'" using assms(2) by (cases n) (auto simp: name_ok_def)
  have c: "c \<notin> {0x21, 0x3F, 0, 0x20, 0x2F, 0x3E}" using assms(2) n by (auto simp: name_ok_def)
  obtain st1 st2 where st2: "axml_putc 0 st = Some st1" "axml_put_arg (ax_textp st1) st1 = Some st2"
    "rep st2 XS_TAG_START (C @ [0]) (P @ [length C + 1]) S"
    using rep_new_arg [OF assms(1)] assms(4,5) by auto
  obtain st3 where st3: "axml_putc c st2 = Some st3" "rep st3 XS_TAG_START ((C @ [0]) @ [c]) (P @ [length C + 1]) S"
    using rep_putc [OF st2(3), of c] assms(5) n by auto
  have first: "axml_byte h c st e = Some (Go (st3\<lparr>ax_state := XS_TAG_MID\<rparr>, e))"
    using rep_byte [OF assms(1), of h c e] st2(1,2) st3(1) c by (simp add: axml_tag_start_def axml_tag_mid_def)
  have "\<forall>c \<in> set (n' @ a). c \<notin> {0x2F, 0x3E}" using assms(2,3) n by (auto simp: name_ok_def attr_ok_def)
  then obtain st4 where st4: "axml_runs h (n' @ a) (st3\<lparr>ax_state := XS_TAG_MID\<rparr>) e st4 e"
    "rep st4 XS_TAG_MID (((C @ [0]) @ [c]) @ map blank_nul (n' @ a)) (P @ [length C + 1]) S"
    using tag_mid_runs [OF rep_state [OF st3(2)], where cs = "n' @ a" and h = h and e = e] assms(5) n by auto
  have "axml_runs h (n @ a) st e st4 e" using axml_runs_Cons [OF first st4(1)] n by simp
  then show ?thesis using st4(2) n name_blank [OF assms(2)] by auto
qed

lemma start_tag_runs:
  assumes "rep st XS_TAG_START C P S" "name_ok n" "attr_ok a" "length P < XML_ARGS" "length S < XML_MAX_DEPTH"
    and "length C + length n + length a + 2 < XML_MAX_TEXT"
  shows "\<exists>st'. axml_runs h (n @ a @ [0x3E]) st e st' e
    \<and> rep st' XS_TEXT_START (C @ tag_text n a) (P @ [length C + 1]) (S @ [inner_state (ts_list (last S)) n (length P + 1)])"
proof -
  obtain st4 where st4: "axml_runs h (n @ a) st e st4 e"
    "rep st4 XS_TAG_MID (C @ 0 # n @ map blank_nul a) (P @ [length C + 1]) S"
    using tag_open_runs [OF assms(1-4,6), of h e] by (elim exE conjE) (rule that)
  obtain st5 where st5: "axml_putc 0 st4 = Some st5" "rep st5 XS_TAG_MID (C @ tag_text n a) (P @ [length C + 1]) S"
    using rep_putc [OF st4(2), of 0] assms(6) by (auto simp: tag_text_def)
  have fields: "ax_argc st5 = length P + 1" "ax_depth st5 = length S - 1" "length (ax_stack st5) = 6"
    "take (length S) (ax_stack st5) = S" "S \<noteq> []"
    using st5(2) by (simp_all add: rep_def)
  have name: "arg_string st5 (length P) = Some n"
    using rep_arg [OF st5(2), of "length P" n] tag_name_string [OF assms(2,3)] by simp
  define st6 where "st6 = st5\<lparr>ax_depth := length S, ax_stack := (ax_stack st5)[length S := inner_state (ts_list (last S)) n (length P + 1)]\<rparr>"
  have "axml_byte h 0x3E st4 e = go XS_TEXT_START st6 e"
    using rep_byte [OF st4(2), of h "0x3E" e] st5(1) fields name assms(5)
    by (simp add: axml_tag_mid_def Let_def st6_def inner_state_def split: option.split)
  moreover have "take (Suc (length S)) (ax_stack st6) = S @ [inner_state (ts_list (last S)) n (length P + 1)]"
    using fields assms(5) by (simp add: st6_def take_Suc_conv_app_nth)
  then have "rep (st6\<lparr>ax_state := XS_TEXT_START\<rparr>) XS_TEXT_START (C @ tag_text n a) (P @ [length C + 1])
      (S @ [inner_state (ts_list (last S)) n (length P + 1)])"
    using st5(2) fields by (simp add: rep_def st6_def)
  ultimately have "axml_runs h ((n @ a) @ [0x3E]) st e (st6\<lparr>ax_state := XS_TEXT_START\<rparr>) e"
    by (intro axml_runs_trans [OF st4(1)] axml_runs_byte) simp
  then show ?thesis
    using \<open>rep (st6\<lparr>ax_state := XS_TEXT_START\<rparr>) _ _ _ _\<close> by (intro exI [of _ "st6\<lparr>ax_state := XS_TEXT_START\<rparr>"]) simp
qed

section \<open>The texts of an element in the buffer\<close>

text \<open>
  Behind the name of an element lie its texts, encoded, each with a NUL, and one NUL for each child.
\<close>

fun segs_bytes :: "bytes option list \<Rightarrow> bytes" where
  "segs_bytes [] = []"
| "segs_bytes (None # segs) = 0 # segs_bytes segs"
| "segs_bytes (Some v # segs) = xml_escape v @ 0 # segs_bytes segs"

fun segs_ptrs :: "nat \<Rightarrow> bytes option list \<Rightarrow> nat list" where
  "segs_ptrs p [] = []"
| "segs_ptrs p (None # segs) = segs_ptrs (p + 1) segs"
| "segs_ptrs p (Some v # segs) = p # segs_ptrs (p + length (xml_escape v) + 1) segs"

fun segs_vals :: "bytes option list \<Rightarrow> bytes list" where
  "segs_vals [] = []"
| "segs_vals (None # segs) = segs_vals segs"
| "segs_vals (Some v # segs) = v # segs_vals segs"

lemma segs_append [simp]:
  "segs_bytes (as @ bs) = segs_bytes as @ segs_bytes bs"
  "segs_ptrs p (as @ bs) = segs_ptrs p as @ segs_ptrs (p + length (segs_bytes as)) bs"
  "segs_vals (as @ bs) = segs_vals as @ segs_vals bs"
proof -
  show "segs_bytes (as @ bs) = segs_bytes as @ segs_bytes bs" by (induction as rule: segs_bytes.induct) simp_all
  show "segs_ptrs p (as @ bs) = segs_ptrs p as @ segs_ptrs (p + length (segs_bytes as)) bs"
    by (induction p as rule: segs_ptrs.induct) (simp_all add: add.commute add.left_commute)
  show "segs_vals (as @ bs) = segs_vals as @ segs_vals bs" by (induction as rule: segs_vals.induct) simp_all
qed

lemma escape_length: "length v \<le> length (xml_escape v)"
proof (induction v)
  case (Cons c v)
  then show ?case using escape_char_length [of c] by simp
qed simp

lemma decode_in_place:
  assumes "length (pre @ xml_escape v @ 0 # post) \<le> 0xFFFF"
  shows "\<exists>junk. xml_decode (pre @ xml_escape v @ 0 # post) (length pre) 0xFFFF (length pre) 0xFFFF
      = Some (int (length v), pre @ v @ 0 # junk @ post, None) \<and> length v + length junk = length (xml_escape v)"
proof -
  let ?mem = "pre @ xml_escape v @ 0 # post" and ?z = "length pre + length (xml_escape v)"
  have "length v < 0xFFFF" "length (xml_escape v) \<le> 0xFFFF" using assms escape_length [of v] by simp_all
  then obtain junk where junk: "xml_decode ?mem (length pre) 0xFFFF (length pre) 0xFFFF
      = Some (int (length v), pre @ v @ 0 # junk @ post, None)"
    using dec_loop_escaped [of v "0xFFFF" "0xFFFF" pre "[]" post 0] by (auto simp: xml_decode_def)
  have "length (pre @ v @ 0 # junk @ post) = length ?mem"
    using dec_loop_safe [of "length pre" "length pre" "length pre" ?z ?mem "0xFFFF" "0xFFFF" 0] junk
    by (auto simp: xml_decode_def changed_in_def nth_append)
  then show ?thesis using junk by auto
qed

lemma decode_segs:
  assumes "\<forall>v. Some v \<in> set segs \<longrightarrow> 0 \<notin> set v" "length (pre @ segs_bytes segs @ post) \<le> 0xFFFF"
  shows "\<exists>buf. axml_decode_args (pre @ segs_bytes segs @ post) argc (map Some (segs_ptrs (length pre) segs)) None
      = Some (Inr (pre @ buf @ post, None)) \<and> length buf = length (segs_bytes segs)
    \<and> strings_of (pre @ buf @ post) (map Some (segs_ptrs (length pre) segs)) = Some (segs_vals segs)"
  using assms
proof (induction segs arbitrary: pre rule: segs_bytes.induct)
  case 1
  then show ?case by simp
next
  case (2 segs)
  obtain buf where "axml_decode_args ((pre @ [0]) @ segs_bytes segs @ post) argc (map Some (segs_ptrs (length (pre @ [0])) segs)) None
      = Some (Inr ((pre @ [0]) @ buf @ post, None)) \<and> length buf = length (segs_bytes segs)
    \<and> strings_of ((pre @ [0]) @ buf @ post) (map Some (segs_ptrs (length (pre @ [0])) segs)) = Some (segs_vals segs)"
    using "2.IH" [of "pre @ [0]"] "2.prems" by auto
  then show ?case by (intro exI [of _ "0 # buf"]) simp
next
  case (3 v segs)
  obtain junk where junk: "xml_decode (pre @ xml_escape v @ 0 # segs_bytes segs @ post) (length pre) 0xFFFF (length pre) 0xFFFF
      = Some (int (length v), pre @ v @ 0 # junk @ segs_bytes segs @ post, None)" "length v + length junk = length (xml_escape v)"
    using decode_in_place [of pre v "segs_bytes segs @ post"] "3.prems"(2) by auto
  let ?pre = "pre @ v @ 0 # junk"
  obtain buf where buf: "axml_decode_args (?pre @ segs_bytes segs @ post) argc (map Some (segs_ptrs (length ?pre) segs)) None
      = Some (Inr (?pre @ buf @ post, None))" "length buf = length (segs_bytes segs)"
    "strings_of (?pre @ buf @ post) (map Some (segs_ptrs (length ?pre) segs)) = Some (segs_vals segs)"
    using "3.IH" [of ?pre] "3.prems" junk(2) by auto
  have len: "length ?pre = length pre + length (xml_escape v) + 1" using junk(2) by simp
  have "0 \<notin> set v" using "3.prems"(1) by simp
  then have "text_string (?pre @ buf @ post) (Some (length pre)) = Some v"
    by (intro str_in_string [of "?pre @ buf @ post"]) (auto simp: str_in_def)
  then show ?case
    using junk(1) buf unfolding len
    by (intro exI [of _ "v @ 0 # junk @ buf"]) (use junk(2) in simp)
qed

section \<open>End tags\<close>

definition end_effect :: "'e axml_handler \<Rightarrow> axml_tag list option \<Rightarrow> bytes \<Rightarrow> bytes list \<Rightarrow> 'e \<Rightarrow> 'e" where
  "end_effect h table n args e =
     (case Option.bind (axml_tag_find table n) atag_parse of Some k \<Rightarrow> snd (h k False args e) | None \<Rightarrow> e)"

text \<open>The call of the handler, and dropping the arguments of the element.\<close>

lemma pop_runs:
  assumes buf: "ax_text st = pre @ segs_bytes segs @ post" "length (ax_text st) = XML_MAX_TEXT" "ax_text st ! (XML_MAX_TEXT - 1) = 0" "post \<noteq> []"
    and argv: "axml_args st base = map Some (segs_ptrs (length pre) segs)" "ax_argc st - base = length (segs_ptrs (length pre) segs)"
    and P: "take base (ax_argv st) = map Some (P @ [p])" "length (ax_argv st) = XML_ARGS" "base = length P + 1"
    and S: "S \<noteq> []" "ax_depth st = length S - 1" "take (length S) (ax_stack st) = S" "length (ax_stack st) = XML_MAX_DEPTH"
    and C: "take p pre = C" "p = length C"
    and vals: "\<forall>v. Some v \<in> set segs \<longrightarrow> 0 \<notin> set v" and rc: "\<forall>k args e. fst (h k False args e) \<noteq> - 1"
  shows "\<exists>st'. axml_pop h base name st e = Some (Go (st', end_effect h (ts_list (last S)) name (segs_vals segs) e))
    \<and> rep st' (if length S = 1 then XS_DONE else XS_TEXT_START) C P S"
proof -
  let ?tag = "Option.bind (axml_tag_find (ts_list (last S)) name) atag_parse"
  have stack: "stack_at st (ax_depth st) = Some (last S)"
    using stack_top [OF S(1,3)] S by (cases S) (auto simp: stack_at_def)
  obtain buf where buf': "axml_decode_args (ax_text st) (ax_argc st - base) (axml_args st base) None = Some (Inr (pre @ buf @ post, None))"
    "length buf = length (segs_bytes segs)" "strings_of (pre @ buf @ post) (axml_args st base) = Some (segs_vals segs)"
    using decode_segs [OF vals, of pre post "ax_argc st - base"] buf(1,2) argv(1) by auto
  have "length pre + length (segs_bytes segs) \<le> XML_MAX_TEXT - 1" using buf by (cases post) simp_all
  then have "\<not> XML_MAX_TEXT - 1 - length pre < length (segs_bytes segs)" "\<not> XML_MAX_TEXT - 1 < length pre" by linarith+
  then have last: "(pre @ buf @ post) ! (XML_MAX_TEXT - 1) = 0"
    using buf(1,3) buf'(2) by (simp add: nth_append)
  have len: "length (pre @ buf @ post) = XML_MAX_TEXT" using buf(1,2) buf'(2) by simp
  have pre: "take p (pre @ tl) = C" for tl
  proof -
    have "p \<le> length pre" using C by (metis length_take min.cobounded1 min_def order_refl)
    then show ?thesis using C(1) by simp
  qed
  have here: "take p (ax_text st) = C" unfolding buf(1) by (rule pre)
  have ptr: "arg_ptr st (base - 1) = Some p" "take (length P) (ax_argv st) = map Some P"
  proof -
    have "ax_argv st ! (base - 1) = Some p"
      using arg_cong [OF P(1), of "\<lambda>l. l ! length P"] P(3) by (simp add: nth_append)
    moreover have "base \<le> XML_ARGS" using arg_cong [OF P(1), of length] P(2,3) by simp
    ultimately show "arg_ptr st (base - 1) = Some p" using P(2,3) by (simp add: arg_ptr_def)
    show "take (length P) (ax_argv st) = map Some P"
      using arg_cong [OF P(1), of "take (length P)"] P(3) by (simp add: min_def)
  qed
  have pop: "rep (st1\<lparr>ax_argc := base - 1, ax_textp := p, ax_state := s\<rparr>) s C P S"
    if "st1 = st\<lparr>ax_text := b, ax_is_partial := part\<rparr>" "take p b = C" "length b = XML_MAX_TEXT" "b ! (XML_MAX_TEXT - 1) = 0" for st1 b part s
    using that S P(2,3) C(2) ptr(2) by (simp add: rep_def)
  show ?thesis
  proof (cases ?tag)
    case None
    let ?st = "st\<lparr>ax_argc := base - 1, ax_textp := p, ax_state := (if ax_depth st = 0 then XS_DONE else XS_TEXT_START)\<rparr>"
    have "axml_pop h base name st e = Some (Go (?st, end_effect h (ts_list (last S)) name (segs_vals segs) e))"
      using stack None ptr(1) by (simp add: axml_pop_def axml_end_call_def end_effect_def Let_def)
    moreover have "rep ?st (if ax_depth st = 0 then XS_DONE else XS_TEXT_START) C P S"
      by (rule pop [where b = "ax_text st" and part = "ax_is_partial st", OF _ here buf(2,3)]) simp
    moreover have "ax_depth st = 0 \<longleftrightarrow> length S = 1" using S(1,2) by (cases S) auto
    ultimately show ?thesis by auto
  next
    case (Some k)
    obtain r e' where h: "h k False (segs_vals segs) e = (r, e')" "r \<noteq> - 1" using rc by (metis fst_conv surj_pair)
    let ?st1 = "st\<lparr>ax_text := pre @ buf @ post, ax_is_partial := False\<rparr>"
    let ?st = "?st1\<lparr>ax_argc := base - 1, ax_textp := p, ax_state := (if ax_depth st = 0 then XS_DONE else XS_TEXT_START)\<rparr>"
    have same_ptr: "arg_ptr (st\<lparr>ax_text := b, ax_is_partial := c\<rparr>) i = arg_ptr st i" for b c i by (simp add: arg_ptr_def)
    have args: "axml_args (st\<lparr>ax_text := b\<rparr>) base = axml_args st base" for b by (simp add: axml_args_def)
    have "axml_call_tag h k False base st e = Some (Called ?st1 r e' [])"
      using buf'(1,3) h(1) by (simp add: axml_call_tag_def Let_def args)
    then have "axml_pop h base name st e = Some (Go (?st, end_effect h (ts_list (last S)) name (segs_vals segs) e))"
      using stack Some ptr(1) h by (simp add: axml_pop_def axml_end_call_def end_effect_def Let_def same_ptr)
    moreover have "rep ?st (if ax_depth st = 0 then XS_DONE else XS_TEXT_START) C P S"
      using pop [OF refl pre len last] by simp
    moreover have "ax_depth st = 0 \<longleftrightarrow> length S = 1" using S(1,2) by (cases S) auto
    ultimately show ?thesis by auto
  qed
qed

lemma end_mid_runs:
  assumes "rep st XS_END_TAG_MID C P S" "0x3E \<notin> set cs" "length C + length cs < XML_MAX_TEXT"
  shows "\<exists>st'. axml_runs h cs st e st' e \<and> rep st' XS_END_TAG_MID (C @ cs) P S"
  using assms
proof (induction cs arbitrary: st C)
  case Nil
  then show ?case by (intro exI [of _ st]) simp
next
  case (Cons c cs)
  obtain st1 where st1: "axml_putc c st = Some st1" "rep st1 XS_END_TAG_MID (C @ [c]) P S"
    using rep_putc [OF Cons.prems(1)] Cons.prems(3) by fastforce
  have "axml_byte h c st e = Some (Go (st1\<lparr>ax_state := XS_END_TAG_MID\<rparr>, e))"
    using rep_byte [OF Cons.prems(1), of h c e] Cons.prems(2) st1(1) by (auto simp: axml_end_tag_mid_def)
  moreover obtain st' where "axml_runs h cs (st1\<lparr>ax_state := XS_END_TAG_MID\<rparr>) e st' e" "rep st' XS_END_TAG_MID ((C @ [c]) @ cs) P S"
    using Cons.IH [OF rep_state [OF st1(2)]] Cons.prems(2,3) by auto
  ultimately show ?case using axml_runs_Cons by fastforce
qed

text \<open>The end tag of an element at its beginning, up to the last byte.\<close>

lemma end_name_runs:
  assumes "rep st XS_TAG_START C P S" "name_ok n" "length P < XML_ARGS" "length C + length n + 1 < XML_MAX_TEXT"
  shows "\<exists>st'. axml_runs h (0x2F # n) st e st' e \<and> rep st' XS_END_TAG_MID (C @ 0 # n) (P @ [length C + 1]) S"
proof -
  obtain c n' where n: "n = c # n'" using assms(2) by (cases n) (auto simp: name_ok_def)
  have c: "c \<noteq> 0x3E" "0x3E \<notin> set n'" using assms(2) n by (auto simp: name_ok_def)
  have slash: "axml_byte h 0x2F st e = Some (Go (st\<lparr>ax_state := XS_TAG_SLASH\<rparr>, e))"
    using rep_byte [OF assms(1), of h "0x2F" e] by (simp add: axml_tag_start_def)
  note st0 = rep_state [OF assms(1), of XS_TAG_SLASH]
  obtain st1 st2 where st2: "axml_putc 0 (st\<lparr>ax_state := XS_TAG_SLASH\<rparr>) = Some st1" "axml_put_arg (ax_textp st1) st1 = Some st2"
    "rep st2 XS_TAG_SLASH (C @ [0]) (P @ [length C + 1]) S"
    using rep_new_arg [OF st0] assms(3,4) by auto
  obtain st3 where st3: "axml_putc c st2 = Some st3" "rep st3 XS_TAG_SLASH ((C @ [0]) @ [c]) (P @ [length C + 1]) S"
    using rep_putc [OF st2(3), of c] assms(4) n by auto
  have first: "axml_byte h c (st\<lparr>ax_state := XS_TAG_SLASH\<rparr>) e = Some (Go (st3\<lparr>ax_state := XS_END_TAG_MID\<rparr>, e))"
    using rep_byte [OF st0, of h c e] st2(1,2) st3(1) c by (simp add: axml_tag_slash_def axml_end_tag_mid_def)
  obtain st4 where st4: "axml_runs h n' (st3\<lparr>ax_state := XS_END_TAG_MID\<rparr>) e st4 e"
    "rep st4 XS_END_TAG_MID (((C @ [0]) @ [c]) @ n') (P @ [length C + 1]) S"
    using end_mid_runs [OF rep_state [OF st3(2)] c(2), where h = h and e = e] assms(4) n by auto
  have "axml_runs h (0x2F # c # n') st e st4 e"
    by (rule axml_runs_Cons [OF slash axml_runs_Cons [OF first st4(1)]])
  then show ?thesis using st4(2) n by auto
qed

lemma end_tag_runs:
  fixes C n a segs P S
  defines "pre \<equiv> C @ tag_text n a"
  assumes st: "rep st XS_TAG_START (pre @ segs_bytes segs) (P @ (length C + 1) # segs_ptrs (length pre) segs)
      (S @ [inner_state (ts_list (last S)) n (length P + 1)])"
    and ok: "S \<noteq> []" "name_ok n" "attr_ok a" "\<forall>v. Some v \<in> set segs \<longrightarrow> 0 \<notin> set v"
    and room: "length P + 1 + length (segs_ptrs (length pre) segs) < XML_ARGS" "length (pre @ segs_bytes segs) + length n + 2 < XML_MAX_TEXT"
    and rc: "\<forall>k args e. fst (h k False args e) \<noteq> - 1"
  shows "\<exists>st'. axml_runs h (0x2F # n @ [0x3E]) st e st' (end_effect h (ts_list (last S)) n (segs_vals segs) e)
    \<and> rep st' (if length S = 1 then XS_DONE else XS_TEXT_START) (C @ [0]) P S"
proof -
  let ?Q = "segs_ptrs (length pre) segs" and ?ts = "inner_state (ts_list (last S)) n (length P + 1)"
  let ?C = "pre @ segs_bytes segs" and ?P = "P @ (length C + 1) # segs_ptrs (length pre) segs"
  obtain st1 where st1: "axml_runs h (0x2F # n) st e st1 e"
    "rep st1 XS_END_TAG_MID (?C @ 0 # n) (?P @ [length ?C + 1]) (S @ [?ts])"
    using end_name_runs [OF st ok(2), where h = h and e = e] room by auto
  obtain st2 where st2: "axml_putc 0 st1 = Some st2"
    "rep st2 XS_END_TAG_MID ((?C @ 0 # n) @ [0]) (?P @ [length ?C + 1]) (S @ [?ts])"
    using rep_putc [OF st1(2), of 0] room(2) by auto
  define st3 where "st3 = st2\<lparr>ax_argc := ax_argc st2 - 1\<rparr>"
  define st4 where "st4 = st3\<lparr>ax_depth := length S - 1\<rparr>"
  have argc: "ax_argc st2 = length P + 1 + length ?Q + 1" "ax_depth st2 = length S" using st2(2) by (simp_all add: rep_def)
  have same: "arg_string st3 i = arg_string st2 i" for i by (simp add: st3_def arg_string_def arg_ptr_def)
  have "0 \<notin> set n" using ok(2) by (auto simp: name_ok_def)
  then have "str_in (?C @ 0 # n @ [0]) (length ?C + 1) n" by (auto simp: str_in_def)
  moreover have "(?P @ [length ?C + 1]) ! (length P + 1 + length ?Q) = length ?C + 1" by (simp add: nth_append)
  ultimately have name: "arg_string st3 (ax_argc st3) = Some n"
    using rep_arg [OF st2(2), of "length P + 1 + length ?Q" n] argc unfolding same by (simp add: st3_def)
  have "str_in (?C @ 0 # n @ [0]) (length C + 1) n"
    using str_in_append [OF tag_name_string [OF ok(2,3)], of C "segs_bytes segs @ 0 # n @ [0]"] by (simp add: pre_def)
  moreover have "(?P @ [length ?C + 1]) ! length P = length C + 1" by (simp add: nth_append)
  ultimately have open_name: "arg_string st3 (length P) = Some n"
    using rep_arg [OF st2(2), of "length P" n] unfolding same by simp
  have buffer: "ax_text st4 = pre @ segs_bytes segs @ (0 # n @ [0] @ drop (length ((?C @ 0 # n) @ [0])) (ax_text st2))"
  proof -
    have "take (length ((?C @ 0 # n) @ [0])) (ax_text st2) = (?C @ 0 # n) @ [0]" using st2(2) unfolding rep_def by blast
    then show ?thesis
      using append_take_drop_id [of "length ((?C @ 0 # n) @ [0])" "ax_text st2"]
      by (simp add: st3_def st4_def del: length_append append_take_drop_id)
  qed
  have argv: "take (length (?P @ [length ?C + 1])) (ax_argv st4) = map Some (?P @ [length ?C + 1])"
    using st2(2) unfolding rep_def st3_def st4_def by simp
  have args: "axml_args st4 (length P + 1) = map Some ?Q" "take (length P + 1) (ax_argv st4) = map Some (P @ [length C + 1])"
  proof -
    have "axml_args st4 (length P + 1) = drop (length P + 1) (take (length P + 1 + length ?Q) (ax_argv st4))"
      using argc by (simp add: axml_args_def st3_def st4_def take_drop add.commute)
    also have "take (length P + 1 + length ?Q) (ax_argv st4)
        = take (length P + 1 + length ?Q) (take (length (?P @ [length ?C + 1])) (ax_argv st4))" by (simp add: min_def)
    also have "\<dots> = map Some ?P" unfolding argv by simp
    finally show "axml_args st4 (length P + 1) = map Some ?Q" by simp
    have "take (length P + 1) (ax_argv st4) = take (length P + 1) (take (length (?P @ [length ?C + 1])) (ax_argv st4))"
      by (simp add: min_def)
    then show "take (length P + 1) (ax_argv st4) = map Some (P @ [length C + 1])" unfolding argv by simp
  qed
  have fields: "length (ax_text st4) = XML_MAX_TEXT" "ax_text st4 ! (XML_MAX_TEXT - 1) = 0" "length (ax_argv st4) = XML_ARGS"
    "take (length S) (ax_stack st4) = S" "length (ax_stack st4) = XML_MAX_DEPTH"
  proof -
    have "take (length (S @ [?ts])) (ax_stack st2) = S @ [?ts]" using st2(2) unfolding rep_def by blast
    then have "take (length S) (take (length (S @ [?ts])) (ax_stack st2)) = S" by simp
    then show "take (length S) (ax_stack st4) = S" by (simp add: st3_def st4_def min_def)
  qed (use st2(2) in \<open>simp_all add: rep_def st3_def st4_def\<close>)
  have "\<exists>st'. axml_pop h (length P + 1) n st4 e = Some (Go (st', end_effect h (ts_list (last S)) n (segs_vals segs) e))
      \<and> rep st' (if length S = 1 then XS_DONE else XS_TEXT_START) (C @ [0]) P S"
    by (rule pop_runs [where pre = pre and segs = segs and P = P and p = "length C + 1" and st = st4 and base = "length P + 1" and S = S and C = "C @ [0]" and h = h, OF buffer fields(1,2) _ args(1) _ args(2) fields(3) _ ok(1) _ fields(4,5) _ _ ok(4) rc])
      (use argc in \<open>simp_all add: st3_def st4_def pre_def tag_text_def\<close>)
  then obtain st' where st': "axml_pop h (length P + 1) n st4 e = Some (Go (st', end_effect h (ts_list (last S)) n (segs_vals segs) e))"
    "rep st' (if length S = 1 then XS_DONE else XS_TEXT_START) (C @ [0]) P S" by blast
  have "axml_end_tag h ?ts st2 e = axml_pop h (length P + 1) n st4 e"
    using argc name open_name ok(1) by (simp add: axml_end_tag_def Let_def st4_def flip: st3_def) (simp add: st3_def)
  then have "axml_byte h 0x3E st1 e = Some (Go (st', end_effect h (ts_list (last S)) n (segs_vals segs) e))"
    using rep_byte [OF st1(2), of h "0x3E" e] st2(1) st'(1) by (simp add: axml_end_tag_mid_def)
  then have "axml_runs h ((0x2F # n) @ [0x3E]) st e st' (end_effect h (ts_list (last S)) n (segs_vals segs) e)"
    by (intro axml_runs_trans [OF st1(1)] axml_runs_byte)
  then show ?thesis using st'(2) by auto
qed

section \<open>Elements\<close>

definition text_seg :: "bool \<Rightarrow> bytes \<Rightarrow> bytes \<Rightarrow> bytes option list" where
  "text_seg keep raw v = (if ws_strip keep raw = [] then [] else [Some v])"

definition kids_segs :: "bool \<Rightarrow> xelem list \<Rightarrow> bytes option list" where
  "kids_segs keep kids = concat (map (\<lambda>k. None # text_seg keep (xe_tail k) (xe_tail_val k)) kids)"

lemma kids_segs_simps [simp]:
  "kids_segs keep [] = []"
  "kids_segs keep (x # xs) = None # text_seg keep (xe_tail x) (xe_tail_val x) @ kids_segs keep xs"
  by (simp_all add: kids_segs_def)

lemma segs_vals_text: "segs_vals (text_seg keep raw v) = text_arg keep raw v"
  by (simp add: text_seg_def text_arg_def)

lemma segs_vals_body: "segs_vals (text_seg keep r v @ kids_segs keep kids) = body_args keep r v kids"
proof -
  have "segs_vals (kids_segs keep kids) = concat (map (\<lambda>k. text_arg keep (xe_tail k) (xe_tail_val k)) kids)"
    by (induction kids) (simp_all add: segs_vals_text)
  then show ?thesis by (simp add: body_args_def segs_vals_text)
qed

lemma escape_char_no_nul: "0 \<notin> set (escape_char c)"
proof (cases "xml_esc c")
  case None
  then show ?thesis using esc_none [OF None] by (simp add: escape_char_def)
next
  case (Some e)
  obtain nm where "e = amp # nm @ [semi]" "0 \<notin> set nm" using esc_some [OF Some] by blast
  then show ?thesis using Some by (simp add: escape_char_def)
qed

lemma escape_no_nul: "0 \<notin> set (xml_escape v)"
  by (induction v) (simp_all add: escape_char_no_nul)

lemma text_runs:
  assumes "rep st XS_TEXT_START C P S" "last_string C P q" "ts_keep_ws (last S) = keep"
    and "text_fits keep raw v (length C, length P, q) = Some (p', k', q')"
  shows "\<exists>st' C' P'. axml_runs h (raw @ [0x3C]) st e st' e \<and> rep st' XS_TAG_START C' P' S
    \<and> C' = C @ segs_bytes (text_seg keep raw v) \<and> P' = P @ segs_ptrs (length C) (text_seg keep raw v)
    \<and> length C' = p' \<and> length P' = k' \<and> last_string C' P' q' \<and> (\<forall>u. Some u \<in> set (text_seg keep raw v) \<longrightarrow> 0 \<notin> set u)"
proof -
  let ?s = "ws_strip keep raw"
  have raw: "0x3C \<notin> set raw" using assms(4) by (auto simp: text_fits_def split: if_splits)
  show ?thesis
  proof (cases "?s = []")
    case True
    have "(p', k', q') = (length C, length P, q)" using assms(4) raw True by (simp add: text_fits_def)
    then show ?thesis
      using text_start_runs [OF assms(1,2) raw, of h e] assms(2,3) True
      by (simp add: text_seg_def text_part_def text_ptr_def)
  next
    case False
    have fits: "?s = xml_escape v" "0 \<notin> set v" "length P < XML_ARGS" "length C + length ?s + q + 4 \<le> XML_MAX_TEXT"
      "length C + length ?s + 1 < XML_MAX_TEXT" "p' = length C + length ?s + 1" "k' = length P + 1" "q' = length ?s"
      using assms(4) raw False by (auto simp: text_fits_def Let_def split: if_splits)
    have "str_in (C @ ?s @ [0]) (length C) ?s" using escape_no_nul [of v] fits(1) by (auto simp: str_in_def)
    then have "last_string (C @ ?s @ [0]) (P @ [length C]) q'" using fits(8) by (auto simp: last_string_def)
    then show ?thesis
      using text_start_runs [OF assms(1,2) raw, of h e] assms(3) False fits
      by (simp add: text_seg_def text_part_def text_ptr_def)
  qed
qed

text \<open>The run over one element, whose \<open><\<close> was read already.\<close>

definition elem_runs :: "'e axml_handler \<Rightarrow> xelem \<Rightarrow> bool" where
  "elem_runs h x \<longleftrightarrow> (\<forall>st C P S e. rep st XS_TAG_START C P S \<longrightarrow> elem_fits (ts_list (last S)) (length S - 1) (length C) (length P) x
     \<longrightarrow> (\<exists>st'. axml_runs h (tl (xe_render x)) st e st' (elem_calls h (ts_list (last S)) x e)
           \<and> rep st' (if length S = 1 then XS_DONE else XS_TEXT_START) (C @ [0]) P S))"

lemma elem_runsD:
  "elem_runs h x \<Longrightarrow> rep st XS_TAG_START C P S \<Longrightarrow> elem_fits (ts_list (last S)) (length S - 1) (length C) (length P) x
    \<Longrightarrow> \<exists>st'. axml_runs h (tl (xe_render x)) st e st' (elem_calls h (ts_list (last S)) x e)
      \<and> rep st' (if length S = 1 then XS_DONE else XS_TEXT_START) (C @ [0]) P S"
  unfolding elem_runs_def by blast

lemma last_string_append: "last_string C P q \<Longrightarrow> last_string (C @ D) P q"
  using str_in_append by (fastforce simp: last_string_def)

lemma kids_runs:
  assumes "\<forall>x \<in> set kids. elem_runs h x" "rep st XS_TAG_START C P S" "last_string C P q" "1 < length S" "ts_keep_ws (last S) = keep"
    and "kids_fits (ts_list (last S)) keep (length S - 1) (length C, length P, q) kids = Some (p', k', q')"
  shows "\<exists>st' C' P'. axml_runs h (concat (map (\<lambda>x. tl (xe_render x) @ xe_tail x @ [0x3C]) kids)) st e st' (kids_calls h (ts_list (last S)) kids e)
    \<and> rep st' XS_TAG_START C' P' S \<and> C' = C @ segs_bytes (kids_segs keep kids) \<and> P' = P @ segs_ptrs (length C) (kids_segs keep kids)
    \<and> length C' = p' \<and> length P' = k' \<and> (\<forall>u. Some u \<in> set (kids_segs keep kids) \<longrightarrow> 0 \<notin> set u)"
  using assms
proof (induction kids arbitrary: st C P q e)
  case Nil
  then show ?case by (intro exI [of _ st]) simp
next
  case (Cons x kids)
  let ?t = "ts_list (last S)"
  let ?rest = "\<lambda>pkq. kids_fits ?t keep (length S - 1) pkq kids"
  have fits: "elem_fits ?t (length S - 1) (length C) (length P) x" using Cons.prems(6) by (simp split: if_splits)
  have "Option.bind (text_fits keep (xe_tail x) (xe_tail_val x) (length C + 1, length P, q)) ?rest = Some (p', k', q')"
    using Cons.prems(6) fits by (simp only: kids_fits.simps if_True)
  then obtain pkq where pkq: "text_fits keep (xe_tail x) (xe_tail_val x) (length C + 1, length P, q) = Some pkq"
    "?rest pkq = Some (p', k', q')" unfolding bind_eq_Some_conv by blast
  then obtain p1 k1 q1 where fit: "text_fits keep (xe_tail x) (xe_tail_val x) (length (C @ [0]), length P, q) = Some (p1, k1, q1)"
    and rest: "kids_fits ?t keep (length S - 1) (p1, k1, q1) kids = Some (p', k', q')"
    by (cases pkq) simp
  obtain st1 where st1: "axml_runs h (tl (xe_render x)) st e st1 (elem_calls h ?t x e)" "rep st1 XS_TEXT_START (C @ [0]) P S"
    using elem_runsD [OF _ Cons.prems(2) fits, of h e] Cons.prems(1,4) by auto
  obtain st2 C2 P2 where st2: "axml_runs h (xe_tail x @ [0x3C]) st1 (elem_calls h ?t x e) st2 (elem_calls h ?t x e)"
    "rep st2 XS_TAG_START C2 P2 S" "C2 = (C @ [0]) @ segs_bytes (text_seg keep (xe_tail x) (xe_tail_val x))"
    "P2 = P @ segs_ptrs (length (C @ [0])) (text_seg keep (xe_tail x) (xe_tail_val x))" "length C2 = p1" "length P2 = k1"
    "last_string C2 P2 q1" "\<forall>u. Some u \<in> set (text_seg keep (xe_tail x) (xe_tail_val x)) \<longrightarrow> 0 \<notin> set u"
    using text_runs [OF st1(2) last_string_append [OF Cons.prems(3)] Cons.prems(5) fit, of h "elem_calls h ?t x e"] by blast
  obtain st3 C3 P3 where st3: "axml_runs h (concat (map (\<lambda>x. tl (xe_render x) @ xe_tail x @ [0x3C]) kids)) st2 (elem_calls h ?t x e) st3
      (kids_calls h ?t kids (elem_calls h ?t x e))"
    "rep st3 XS_TAG_START C3 P3 S" "C3 = C2 @ segs_bytes (kids_segs keep kids)" "P3 = P2 @ segs_ptrs (length C2) (kids_segs keep kids)"
    "length C3 = p'" "length P3 = k'" "\<forall>u. Some u \<in> set (kids_segs keep kids) \<longrightarrow> 0 \<notin> set u"
    using Cons.IH [OF _ st2(2,7) Cons.prems(4,5), of "elem_calls h ?t x e"] Cons.prems(1) rest st2(5,6) by auto
  have C3: "C3 = C @ segs_bytes (kids_segs keep (x # kids))" using st3(3) st2(3) by simp
  have P3: "P3 = P @ segs_ptrs (length C) (kids_segs keep (x # kids))" using st3(4) st2(3,4) by simp
  have "axml_runs h ((tl (xe_render x) @ xe_tail x @ [0x3C]) @ concat (map (\<lambda>x. tl (xe_render x) @ xe_tail x @ [0x3C]) kids)) st e st3
      (kids_calls h ?t kids (elem_calls h ?t x e))"
    by (intro axml_runs_trans [OF axml_runs_trans [OF st1(1) st2(1)] st3(1)])
  then show ?case
    using st3(2,5,6,7) st2(8) C3 P3 by (intro exI [of _ st3] exI [of _ C3] exI [of _ P3]) auto
qed

lemma render_kids:
  "concat (map (\<lambda>k. xe_render k @ xe_tail k) kids) @ [0x3C] = 0x3C # concat (map (\<lambda>x. tl (xe_render x) @ xe_tail x @ [0x3C]) kids)"
proof (induction kids)
  case (Cons x kids)
  have "xe_render x = 0x3C # tl (xe_render x)" by (cases x) simp
  then show ?case using Cons by simp
qed simp

lemma elem_run:
  assumes "handlers_accept h"
  shows "elem_runs h x"
proof (induction x)
  case (XElem n a r v kids tr tv)
  show ?case
    unfolding elem_runs_def
  proof (intro allI impI)
    fix st :: axml_state and C P and S :: "axml_tag_state list" and e :: 'a
    let ?t = "ts_list (last S)"
    let ?keep = "inner_keep ?t n" and ?in = "inner_table ?t n" and ?C1 = "C @ tag_text n a" and ?P1 = "P @ [length C + 1]"
    let ?S1 = "S @ [inner_state ?t n (length P + 1)]" and ?segs = "text_seg (inner_keep ?t n) r v @ kids_segs (inner_keep ?t n) kids"
    assume st: "rep st XS_TAG_START C P S" and fits: "elem_fits ?t (length S - 1) (length C) (length P) (XElem n a r v kids tr tv)"
    have S: "S \<noteq> []" "length ?S1 - 1 = length S" using st by (simp_all add: rep_def)
    have ok: "name_ok n" "attr_ok a" "length S < XML_MAX_DEPTH" "length P < XML_ARGS" "length C + length n + length a + 2 < XML_MAX_TEXT"
      using fits S(1) by (cases S; simp)+
    have C1: "length ?C1 = length C + length n + length a + 2" by (simp add: tag_text_def)
    have "length S - 1 + 1 = length S" using S(1) by (cases S) simp_all
    then have inside: "case Option.bind (text_fits ?keep r v (length C + length n + length a + 2, length P + 1, length n))
        (\<lambda>pkq. kids_fits ?in ?keep (length S) pkq kids) of None \<Rightarrow> False
      | Some (p', k', q') \<Rightarrow> k' < XML_ARGS \<and> p' + length n + 2 < XML_MAX_TEXT"
      using fits by (simp only: elem_fits.simps)
    obtain p1 k1 q1 p2 k2 q2 where fit: "text_fits ?keep r v (length ?C1, length ?P1, length n) = Some (p1, k1, q1)"
      and kids: "kids_fits ?in ?keep (length ?S1 - 1) (p1, k1, q1) kids = Some (p2, k2, q2)"
      and room: "k2 < XML_ARGS" "p2 + length n + 2 < XML_MAX_TEXT"
    proof (cases "Option.bind (text_fits ?keep r v (length C + length n + length a + 2, length P + 1, length n))
        (\<lambda>pkq. kids_fits ?in ?keep (length S) pkq kids)")
      case (Some pkq)
      obtain p2 k2 q2 where pkq: "pkq = (p2, k2, q2)" by (cases pkq)
      obtain pkq1 where "text_fits ?keep r v (length C + length n + length a + 2, length P + 1, length n) = Some pkq1"
        "kids_fits ?in ?keep (length S) pkq1 kids = Some pkq"
        using Some unfolding bind_eq_Some_conv by blast
      then have "text_fits ?keep r v (length ?C1, length ?P1, length n) = Some pkq1"
        "kids_fits ?in ?keep (length ?S1 - 1) pkq1 kids = Some pkq"
        unfolding C1 S(2) by simp_all
      then show thesis using that inside Some pkq by (cases pkq1) (simp del: kids_fits.simps)
    qed (use inside in simp)
    obtain st1 where st1: "axml_runs h (n @ a @ [0x3E]) st e st1 e" "rep st1 XS_TEXT_START ?C1 ?P1 ?S1"
      using start_tag_runs [OF st ok(1,2,4,3,5), of h e] by blast
    have "last_string ?C1 ?P1 (length n)" using tag_name_string [OF ok(1,2)] by (auto simp: last_string_def)
    then obtain st2 C2 P2 where st2: "axml_runs h (r @ [0x3C]) st1 e st2 e" "rep st2 XS_TAG_START C2 P2 ?S1"
      "C2 = ?C1 @ segs_bytes (text_seg ?keep r v)" "P2 = ?P1 @ segs_ptrs (length ?C1) (text_seg ?keep r v)"
      "length C2 = p1" "length P2 = k1" "last_string C2 P2 q1" "\<forall>u. Some u \<in> set (text_seg ?keep r v) \<longrightarrow> 0 \<notin> set u"
      using text_runs [OF st1(2) _ _ fit, of h e] by auto
    obtain st3 C3 P3 where st3: "axml_runs h (concat (map (\<lambda>x. tl (xe_render x) @ xe_tail x @ [0x3C]) kids)) st2 e st3 (kids_calls h ?in kids e)"
      "rep st3 XS_TAG_START C3 P3 ?S1" "C3 = C2 @ segs_bytes (kids_segs ?keep kids)" "P3 = P2 @ segs_ptrs (length C2) (kids_segs ?keep kids)"
      "length C3 = p2" "length P3 = k2" "\<forall>u. Some u \<in> set (kids_segs ?keep kids) \<longrightarrow> 0 \<notin> set u"
      using kids_runs [of kids h st2 C2 P2 ?S1 q1 ?keep p2 k2 q2 e] XElem.IH st2(2,5,6,7) S kids by auto
    have C3: "C3 = ?C1 @ segs_bytes ?segs" "P3 = P @ (length C + 1) # segs_ptrs (length ?C1) ?segs"
      using st3(3,4) st2(3,4) by (simp_all add: add.assoc)
    have "length P + 1 + length (segs_ptrs (length ?C1) ?segs) < XML_ARGS" "length (?C1 @ segs_bytes ?segs) + length n + 2 < XML_MAX_TEXT"
      using room st3(5,6) unfolding C3 by simp_all
    moreover have "\<forall>u. Some u \<in> set ?segs \<longrightarrow> 0 \<notin> set u" using st2(8) st3(7) by auto
    ultimately obtain st4 where st4: "axml_runs h (0x2F # n @ [0x3E]) st3 (kids_calls h ?in kids e) st4
        (end_effect h ?t n (segs_vals ?segs) (kids_calls h ?in kids e))"
      "rep st4 (if length S = 1 then XS_DONE else XS_TEXT_START) (C @ [0]) P S"
      using end_tag_runs [OF st3(2) [unfolded C3] S(1) ok(1,2), of h "kids_calls h ?in kids e"] assms
      unfolding handlers_accept_def by blast
    have render: "tl (xe_render (XElem n a r v kids tr tv)) = (n @ a @ [0x3E]) @ (r @ [0x3C])
        @ concat (map (\<lambda>x. tl (xe_render x) @ xe_tail x @ [0x3C]) kids) @ (0x2F # n @ [0x3E])"
      using render_kids [of kids] by simp
    have calls: "end_effect h ?t n (segs_vals ?segs) (kids_calls h ?in kids e) = elem_calls h ?t (XElem n a r v kids tr tv) e"
      by (simp add: end_effect_def segs_vals_body Let_def del: segs_append)
    have "axml_runs h (tl (xe_render (XElem n a r v kids tr tv))) st e st4 (elem_calls h ?t (XElem n a r v kids tr tv) e)"
      unfolding render calls [symmetric] by (intro axml_runs_trans [OF st1(1)] axml_runs_trans [OF st2(1)] axml_runs_trans [OF st3(1)] st4(1))
    then show "\<exists>st'. axml_runs h (tl (xe_render (XElem n a r v kids tr tv))) st e st' (elem_calls h ?t (XElem n a r v kids tr tv) e)
        \<and> rep st' (if length S = 1 then XS_DONE else XS_TEXT_START) (C @ [0]) P S"
      using st4(2) by blast
  qed
qed

section \<open>Whole documents\<close>

lemma skip_runs: "rep st XS_TEXT_SKIP C P S \<Longrightarrow> 0x3C \<notin> set skip \<Longrightarrow>
    \<exists>st'. axml_runs h (skip @ [0x3C]) st e st' e \<and> rep st' XS_TAG_START C P S"
proof (induction skip arbitrary: st)
  case Nil
  then show ?case
    using rep_byte [OF Nil(1), of h "0x3C" e] rep_state [OF Nil(1), of XS_TAG_START] axml_runs_byte by fastforce
next
  case (Cons c skip)
  have "axml_byte h c st e = Some (Go (st\<lparr>ax_state := XS_TEXT_SKIP\<rparr>, e))"
    using rep_byte [OF Cons.prems(1), of h c e] Cons.prems(2) by simp
  then show ?case using Cons.IH [OF rep_state [OF Cons.prems(1)]] Cons.prems(2) axml_runs_Cons by fastforce
qed

lemma done_runs: "rep st XS_DONE C P S \<Longrightarrow> \<not> ts_keep_ws (last S) \<Longrightarrow> \<forall>c \<in> set trail. axml_ws c \<Longrightarrow>
    \<exists>st'. axml_runs h trail st e st' e \<and> rep st' XS_DONE C P S"
proof (induction trail arbitrary: st)
  case Nil
  then show ?case by (intro exI [of _ st]) simp
next
  case (Cons c trail)
  have "axml_byte h c st e = Some (Go (st\<lparr>ax_state := XS_DONE\<rparr>, e))"
    using rep_byte [OF Cons.prems(1), of h c e] Cons.prems(2,3) by (simp add: ws_skipped_def)
  then show ?case using Cons.IH [OF rep_state [OF Cons.prems(1)]] Cons.prems(2,3) axml_runs_Cons by fastforce
qed

abbreviation bottom :: "axml_tag list option \<Rightarrow> axml_tag_state" where
  "bottom table \<equiv> \<lparr>ts_list = table, ts_keep_ws = False, ts_give_partial = False, ts_arg_base = 0\<rparr>"

lemma rep_init: "rep ((axml_parse_init table)\<lparr>ax_bytes := n\<rparr>) XS_TEXT_SKIP [] [] [bottom table]"
  by (simp add: rep_def axml_parse_init_def Let_def)

lemma document_runs:
  assumes "handlers_accept h" "elem_fits table 0 0 0 x" "0x3C \<notin> set skip" "\<forall>c \<in> set trail. axml_ws c"
  shows "\<exists>st'. axml_runs h (skip @ xe_render x @ trail) ((axml_parse_init table)\<lparr>ax_bytes := n\<rparr>) e st' (elem_calls h table x e)
    \<and> rep st' XS_DONE [0] [] [bottom table]"
proof -
  obtain st1 where st1: "axml_runs h (skip @ [0x3C]) ((axml_parse_init table)\<lparr>ax_bytes := n\<rparr>) e st1 e" "rep st1 XS_TAG_START [] [] [bottom table]"
    using skip_runs [OF rep_init assms(3), where h = h and e = e] by blast
  obtain st2 where st2: "axml_runs h (tl (xe_render x)) st1 e st2 (elem_calls h table x e)" "rep st2 XS_DONE [0] [] [bottom table]"
    using elem_runsD [OF elem_run [OF assms(1)] st1(2), of x e] assms(2) by auto
  obtain st3 where st3: "axml_runs h trail st2 (elem_calls h table x e) st3 (elem_calls h table x e)" "rep st3 XS_DONE [0] [] [bottom table]"
    using done_runs [OF st2(2) _ assms(4), of h "elem_calls h table x e"] by auto
  have doc: "skip @ xe_render x @ trail = (skip @ [0x3C]) @ tl (xe_render x) @ trail" by (cases x) simp
  have "axml_runs h (skip @ xe_render x @ trail) ((axml_parse_init table)\<lparr>ax_bytes := n\<rparr>) e st3 (elem_calls h table x e)"
    unfolding doc by (rule axml_runs_trans [OF st1(1) axml_runs_trans [OF st2(1) st3(1)]])
  then show ?thesis using st3(2) by blast
qed

text \<open>C12.  A document that is an element of the kind described by \<^term>\<open>xe_render\<close> (start tags, end tags and texts in
  the form that the encoder gives them, with no empty-element tag, no slash in an attribute and no comment
  inside), with anything but a \<open><\<close> before it and white space behind it, and with room for it, is parsed to its end: all the input is used, the parser is
  done, and the handlers of the elements have been called, inner elements first, each with the decoded
  texts of its element.\<close>

theorem axml_parse_document:
  assumes "handlers_accept h" "elem_fits table 0 0 0 x" "0x3C \<notin> set skip" "\<forall>c \<in> set trail. axml_ws c"
  shows "\<exists>st. axml_parse h (axml_parse_init table) (skip @ xe_render x @ trail) e
      = Some (int (length (skip @ xe_render x @ trail)), st, elem_calls h table x e) \<and> ax_state st = XS_DONE"
proof -
  obtain st where st: "axml_runs h (skip @ xe_render x @ trail) ((axml_parse_init table)\<lparr>ax_bytes := ax_bytes (axml_parse_init table) + 1\<rparr>) e
      st (elem_calls h table x e)" "rep st XS_DONE [0] [] [bottom table]"
    using document_runs [OF assms] by blast
  have "axml_parse h (axml_parse_init table) ((skip @ xe_render x @ trail) @ []) e
      = axml_loop h [] (0 + length (skip @ xe_render x @ trail)) st (elem_calls h table x e)"
    using st(1) unfolding axml_runs_def axml_parse_def by blast
  then show ?thesis using st(2) by (simp add: rep_def)
qed

lemma axml_parse_document_witness:
  "let x = XElem (str ''a'') (str '' k=1'') (str ''p &amp; q'') (str ''p&q'')
      [XElem (str ''b'') [] (str ''1'') (str ''1'') [] (str ''z'') (str ''z'')] [] [];
       table = Some [Axml_tag (str ''a'') False False (Some [Axml_tag (str ''b'') False False None (Some 2)]) (Some 1)]
   in \<exists>st. axml_parse record_calls (axml_parse_init table) (str ''?'' @ xe_render x @ [0x0A]) []
      = Some (int (length (str ''?'' @ xe_render x @ [0x0A])), st, [(2, [str ''1'']), (1, [str ''p&q'', str ''z''])])
      \<and> ax_state st = XS_DONE"
proof -
  let ?x = "XElem (str ''a'') (str '' k=1'') (str ''p &amp; q'') (str ''p&q'')
      [XElem (str ''b'') [] (str ''1'') (str ''1'') [] (str ''z'') (str ''z'')] [] []"
  let ?table = "Some [Axml_tag (str ''a'') False False (Some [Axml_tag (str ''b'') False False None (Some 2)]) (Some 1)]"
  have "elem_fits ?table 0 0 0 ?x" by code_simp
  moreover have "elem_calls record_calls ?table ?x [] = [(2, [str ''1'']), (1, [str ''p&q'', str ''z''])]" by code_simp
  moreover have "0x3C \<notin> set (str ''?'')" by code_simp
  moreover have "\<forall>c \<in> set [0x0A]. axml_ws c" by (simp add: axml_ws_def)
  ultimately show ?thesis
    using axml_parse_document [OF record_calls_accept, of ?table ?x "str ''?''" "[0x0A]" "[]"] unfolding Let_def by metis
qed

section \<open>Documents that the parser does not survive\<close>

lemma undefined_byte: "axml_runs h bs st e st' e' \<Longrightarrow> axml_byte h b st' e' = None \<Longrightarrow> axml_loop h (bs @ b # rest) used st e = None"
  by (simp add: axml_runs_def)

text \<open>Start tags, given as names and attributes.\<close>

definition open_tags :: "(bytes \<times> bytes) list \<Rightarrow> bytes" where
  "open_tags ts = concat (map (\<lambda>(n, a). 0x3C # n @ a @ [0x3E]) ts)"

definition tags_size :: "(bytes \<times> bytes) list \<Rightarrow> nat" where
  "tags_size ts = sum_list (map (\<lambda>(n, a). length n + length a + 2) ts)"

lemma open_tags_simps [simp]:
  "open_tags [] = []" "open_tags ((n, a) # ts) = (0x3C # n @ a @ [0x3E]) @ open_tags ts"
  "tags_size [] = 0" "tags_size ((n, a) # ts) = length n + length a + 2 + tags_size ts"
  by (simp_all add: open_tags_def tags_size_def)

lemma rep_lt:
  assumes "rep st s C P S" "s = XS_TEXT_SKIP \<or> s = XS_TEXT_START"
  shows "\<exists>st'. axml_runs h [0x3C] st e st' e \<and> rep st' XS_TAG_START C P S"
proof -
  have "axml_byte h 0x3C st e = Some (Go (st\<lparr>ax_state := XS_TAG_START\<rparr>, e))"
    using rep_byte [OF assms(1), of h "0x3C" e] assms(2) by (auto simp: axml_text_start_def)
  then show ?thesis
    using rep_state [OF assms(1), of XS_TAG_START] by (intro exI [of _ "st\<lparr>ax_state := XS_TAG_START\<rparr>"] conjI axml_runs_byte)
qed

lemma open_tags_runs:
  assumes "rep st s C P S" "s = XS_TEXT_SKIP \<or> s = XS_TEXT_START" "\<forall>(n, a) \<in> set ts. name_ok n \<and> attr_ok a"
    and "length S + length ts \<le> XML_MAX_DEPTH" "length P + length ts \<le> XML_ARGS" "length C + tags_size ts < XML_MAX_TEXT"
  shows "\<exists>st' s' C' P' S'. axml_runs h (open_tags ts) st e st' e \<and> rep st' s' C' P' S' \<and> (s' = XS_TEXT_SKIP \<or> s' = XS_TEXT_START)
    \<and> length S' = length S + length ts \<and> length P' = length P + length ts \<and> length C' = length C + tags_size ts"
  using assms
proof (induction ts arbitrary: st s C P S)
  case Nil
  then show ?case by (intro exI [of _ st] exI [of _ s]) auto
next
  case (Cons t ts)
  obtain n a where t: "t = (n, a)" by (cases t)
  obtain st1 where st1: "axml_runs h [0x3C] st e st1 e" "rep st1 XS_TAG_START C P S"
    using rep_lt [OF Cons.prems(1,2), of h e] by (elim exE conjE) (rule that)
  obtain st2 where st2: "axml_runs h (n @ a @ [0x3E]) st1 e st2 e"
    "rep st2 XS_TEXT_START (C @ tag_text n a) (P @ [length C + 1]) (S @ [inner_state (ts_list (last S)) n (length P + 1)])"
    using start_tag_runs [OF st1(2), of n a h e] Cons.prems(3-6) t by auto
  have len: "length (C @ tag_text n a) = length C + (length n + length a + 2)" by (simp add: tag_text_def)
  obtain st' s' C' P' S' where st': "axml_runs h (open_tags ts) st2 e st' e" "rep st' s' C' P' S'" "s' = XS_TEXT_SKIP \<or> s' = XS_TEXT_START"
    "length S' = length S + 1 + length ts" "length P' = length P + 1 + length ts" "length C' = length C + (length n + length a + 2) + tags_size ts"
    using Cons.IH [OF st2(2), unfolded len] Cons.prems(3-6) t by auto
  have "axml_runs h (open_tags (t # ts)) st e st' e"
    using axml_runs_trans [OF axml_runs_trans [OF st1(1) st2(1)] st'(1)] t by simp
  then show ?case using st'(2-6) t by (intro exI [of _ st'] exI [of _ s'] exI [of _ C'] exI [of _ P'] exI [of _ S']) simp
qed

text \<open>Inside \<^verbatim>\<open><?\<close> and \<^verbatim>\<open>>\<close>.\<close>

lemma quest_runs: "rep st XS_TAG_QUEST C P S \<Longrightarrow> 0x3E \<notin> set w \<Longrightarrow>
    \<exists>st'. axml_runs h w st e st' e \<and> rep st' XS_TAG_QUEST C P S"
proof (induction w arbitrary: st)
  case Nil
  then show ?case by (intro exI [of _ st]) simp
next
  case (Cons c w)
  have "axml_byte h c st e = Some (Go (st\<lparr>ax_state := XS_TAG_QUEST\<rparr>, e))"
    using rep_byte [OF Cons.prems(1), of h c e] Cons.prems(2) by auto
  then show ?case using Cons.IH [OF rep_state [OF Cons.prems(1)]] Cons.prems(2) axml_runs_Cons by fastforce
qed

lemma start_undefined:
  assumes "rep st s C P S" "s = XS_TEXT_SKIP \<or> s = XS_TEXT_START" "name_ok n" "attr_ok a" "length S = XML_MAX_DEPTH" "length P < XML_ARGS"
    and "length C + length n + length a + 2 < XML_MAX_TEXT"
  shows "\<exists>st'. axml_runs h (0x3C # n @ a) st e st' e \<and> axml_byte h 0x3E st' e = None"
proof -
  obtain st1 where st1: "axml_runs h [0x3C] st e st1 e" "rep st1 XS_TAG_START C P S" using rep_lt [OF assms(1,2), of h e] by (elim exE conjE) (rule that)
  obtain st2 where st2: "axml_runs h (n @ a) st1 e st2 e" "rep st2 XS_TAG_MID (C @ 0 # n @ map blank_nul a) (P @ [length C + 1]) S"
    using tag_open_runs [OF st1(2) assms(3,4,6,7), of h e] by (elim exE conjE) (rule that)
  obtain st3 where st3: "axml_putc 0 st2 = Some st3" "rep st3 XS_TAG_MID (C @ tag_text n a) (P @ [length C + 1]) S"
    using rep_putc [OF st2(2), of 0] assms(7) by (auto simp: tag_text_def)
  have "ax_depth st3 = 5" "length (ax_stack st3) = 6" using st3(2) assms(5) by (simp_all add: rep_def)
  then have "axml_byte h 0x3E st2 e = None"
    using rep_byte [OF st2(2), of h "0x3E" e] st3(1) by (simp add: axml_tag_mid_def Let_def split: option.split)
  then show ?thesis using axml_runs_trans [OF st1(1) st2(1)] by auto
qed

text \<open>C35.  The parser is not safe on any input: behind anything without a \<open><\<close>, the end tag of any name makes it read
  before its array of arguments, as do two bytes of text after an instruction, and the last of six nested
  start tags, whatever their names and attributes, makes it write behind its stack.\<close>

theorem axml_parse_undefined:
  assumes "0x3C \<notin> set skip" "name_ok n" "length n \<le> 790"
    and "0x3E \<notin> set w" "c \<noteq> 0x3C" "d \<noteq> 0x3C" "\<not> axml_ws c" "\<not> axml_ws d"
    and "length ts = XML_MAX_DEPTH" "\<forall>(n, a) \<in> set ts. name_ok n \<and> attr_ok a" "tags_size ts < XML_MAX_TEXT"
  shows "axml_parse h (axml_parse_init table) (skip @ [0x3C, 0x2F] @ n @ 0x3E # rest) e = None
    \<and> axml_parse h (axml_parse_init table) (skip @ [0x3C, 0x3F] @ w @ 0x3E # c # d # rest) e = None
    \<and> axml_parse h (axml_parse_init table) (open_tags ts @ rest) e = None"
proof (intro conjI)
  let ?st = "(axml_parse_init table)\<lparr>ax_bytes := ax_bytes (axml_parse_init table) + 1\<rparr>"
  obtain st1 where st1: "axml_runs h (skip @ [0x3C]) ?st e st1 e" "rep st1 XS_TAG_START [] [] [bottom table]"
    using skip_runs [OF rep_init assms(1), where h = h and e = e] by blast
  obtain st2 where st2: "axml_runs h (0x2F # n) st1 e st2 e" "rep st2 XS_END_TAG_MID ([] @ 0 # n) ([] @ [length ([] :: bytes) + 1]) [bottom table]"
    using end_name_runs [OF st1(2) assms(2), of h e] assms(3) by auto
  obtain st3 where "axml_putc 0 st2 = Some st3" "rep st3 XS_END_TAG_MID (([] @ 0 # n) @ [0]) ([] @ [length ([] :: bytes) + 1]) [bottom table]"
    using rep_putc [OF st2(2), of 0] assms(3) by auto
  then have "axml_byte h 0x3E st2 e = None"
    using rep_byte [OF st2(2), of h "0x3E" e] by (simp add: axml_end_tag_mid_def axml_end_tag_def)
  from undefined_byte [OF axml_runs_trans [OF st1(1) st2(1)] this]
  show "axml_parse h (axml_parse_init table) (skip @ [0x3C, 0x2F] @ n @ 0x3E # rest) e = None"
    by (simp add: axml_parse_def)
  have q: "axml_runs h [0x3F] st1 e (st1\<lparr>ax_state := XS_TAG_QUEST\<rparr>) e"
    using rep_byte [OF st1(2), of h "0x3F" e] by (intro axml_runs_byte) (simp add: axml_tag_start_def)
  obtain st4 where st4: "axml_runs h w (st1\<lparr>ax_state := XS_TAG_QUEST\<rparr>) e st4 e" "rep st4 XS_TAG_QUEST [] [] [bottom table]"
    using quest_runs [OF rep_state [OF st1(2)] assms(4), where h = h and e = e] by blast
  have gt: "axml_runs h [0x3E] st4 e (st4\<lparr>ax_state := XS_TEXT_START\<rparr>) e"
    using rep_byte [OF st4(2), of h "0x3E" e] by (intro axml_runs_byte) simp
  note st5 = rep_state [OF st4(2), of XS_TEXT_START]
  obtain st6 where st6: "axml_put_arg (ax_textp (st4\<lparr>ax_state := XS_TEXT_START\<rparr>)) (st4\<lparr>ax_state := XS_TEXT_START\<rparr>) = Some st6"
    "rep st6 XS_TEXT_START [] [0] [bottom table]"
    using rep_put_arg [OF st5] by auto
  obtain st7 where st7: "axml_putc c st6 = Some st7" "rep st7 XS_TEXT_START [c] [0] [bottom table]"
    using rep_putc [OF st6(2), of c] by auto
  have first: "axml_runs h [c] (st4\<lparr>ax_state := XS_TEXT_START\<rparr>) e (st7\<lparr>ax_state := XS_TEXT\<rparr>) e"
    using rep_byte [OF st5, of h c e] st6(1) st7(1) assms(5,7) by (intro axml_runs_byte) (simp add: axml_text_start_def ws_skipped_def)
  have "ax_argc (st7\<lparr>ax_state := XS_TEXT\<rparr>) = 1" using st7(2) by (simp add: rep_def)
  then have "axml_byte h d (st7\<lparr>ax_state := XS_TEXT\<rparr>) e = None"
    using rep_byte [OF rep_state [OF st7(2), of XS_TEXT], of h d e] assms(6,8) by (simp add: axml_text_byte_def ws_skipped_def)
  from undefined_byte [OF axml_runs_trans [OF axml_runs_trans [OF axml_runs_trans [OF axml_runs_trans [OF st1(1) q] st4(1)] gt] first] this]
  show "axml_parse h (axml_parse_init table) (skip @ [0x3C, 0x3F] @ w @ 0x3E # c # d # rest) e = None"
    by (simp add: axml_parse_def)
  obtain us n' a' where ts: "ts = us @ [(n', a')]"
    using assms(9) by (cases ts rule: rev_cases) auto
  have size: "tags_size ts = tags_size us + (length n' + length a' + 2)" "open_tags ts = open_tags us @ 0x3C # n' @ a' @ [0x3E]"
    by (simp_all add: ts tags_size_def open_tags_def)
  obtain st8 s C P S where st8: "axml_runs h (open_tags us) ?st e st8 e" "rep st8 s C P S" "s = XS_TEXT_SKIP \<or> s = XS_TEXT_START"
    "length S = 6" "length P = 5" "length C = tags_size us"
    using open_tags_runs [OF rep_init [where table = table and n = "ax_bytes (axml_parse_init table) + 1"], where ts = us and h = h and e = e] assms(9-11) size(1) by (auto simp: ts)
  obtain st9 where st9: "axml_runs h (0x3C # n' @ a') st8 e st9 e" "axml_byte h 0x3E st9 e = None"
    using start_undefined [OF st8(2,3), of n' a' h e] st8(4-6) assms(10,11) size(1) by (auto simp: ts)
  from undefined_byte [OF axml_runs_trans [OF st8(1) st9(1)] st9(2)]
  show "axml_parse h (axml_parse_init table) (open_tags ts @ rest) e = None"
    by (simp add: axml_parse_def size(2))
qed

lemma axml_parse_undefined_witness:
  "axml_parse record_calls (axml_parse_init None) (str '' </a>'') [] = None
    \<and> axml_parse record_calls (axml_parse_init None) (str '' <?x?>ab'') [] = None
    \<and> axml_parse record_calls (axml_parse_init None) (str ''<a><a><a><a><a><a>'') [] = None"
proof -
  have "name_ok (str ''a'')" "attr_ok []" by (simp_all add: name_ok_def attr_ok_def str_def)
  moreover have "0x3C \<notin> set (str '' '')" "0x3E \<notin> set (str ''x?'')" "tags_size (replicate 6 (str ''a'', [])) < XML_MAX_TEXT" by code_simp+
  ultimately have "axml_parse record_calls (axml_parse_init None) (str '' '' @ [0x3C, 0x2F] @ str ''a'' @ 0x3E # []) [] = None
    \<and> axml_parse record_calls (axml_parse_init None) (str '' '' @ [0x3C, 0x3F] @ str ''x?'' @ 0x3E # 0x61 # 0x62 # []) [] = None
    \<and> axml_parse record_calls (axml_parse_init None) (open_tags (replicate 6 (str ''a'', [])) @ []) [] = None"
    by (intro axml_parse_undefined) (simp_all add: axml_ws_def str_def)
  moreover have "open_tags (replicate 6 (str ''a'', [])) = str ''<a><a><a><a><a><a>''" by code_simp
  ultimately show ?thesis by (simp add: str_def)
qed

end
