(* ===== verification/DateText.thy ===== *)
theory DateText
  imports CString Clock
begin

text \<open>
  Dates as text: \<open>clock_fmt\<close> and \<open>clock_parse\<close> of \<^verbatim>\<open>libayla/clock_fmt.c\<close> and the parser of the HTTP header
  \<^verbatim>\<open>Date\<close>, \<^verbatim>\<open>libayla/parse_date.c\<close>.  A string is given without its terminator; a position in it stands for
  the pointer \<^verbatim>\<open>errptr\<close>.
\<close>

section \<open>The code\<close>

definition strtoul_at :: "bytes \<Rightarrow> nat \<Rightarrow> nat \<times> nat" where
  "strtoul_at s p = (let (v, n) = strtoul 10 (drop p s) in (unat v, p + n))"

text \<open>\<open>%d\<close> of a number that is not negative.\<close>

fun decimal :: "nat \<Rightarrow> bytes" where
  "decimal n = (if n < 10 then [word_of_nat (0x30 + n)] else decimal (n div 10) @ [word_of_nat (0x30 + n mod 10)])"

declare decimal.simps [simp del]

abbreviation dash :: u8 where "dash \<equiv> 0x2D"
abbreviation colon :: u8 where "colon \<equiv> 0x3A"
abbreviation letter_T :: u8 where "letter_T \<equiv> 0x54"

text \<open>What \<open>snprintf\<close> stores in a buffer of \<open>len\<close> bytes, without the terminator.\<close>

definition clock_fmt :: "nat \<Rightarrow> nat \<Rightarrow> bytes" where
  "clock_fmt len time =
     (let clk = clock_fill_details time
      in take (len - 1)
        (decimal (clk_year clk) @ dash # decimal (clk_month clk) @ dash # decimal (clk_days clk) @ letter_T #
         decimal (clk_hour clk) @ colon # decimal (clk_min clk) @ colon # decimal (clk_sec clk)))"

text \<open>The seconds of a date, or 0 when the month has no such day.\<close>

definition parse_mdays :: "nat list" where
  "parse_mdays = [31, 28, 31, 30, 31, 30, 31, 31, 30, 31, 30, 31]"

definition clock_parse_time :: "nat \<Rightarrow> nat \<Rightarrow> nat \<Rightarrow> nat \<Rightarrow> nat \<Rightarrow> nat \<Rightarrow> nat" where
  "clock_parse_time year month day hour minute second =
     (let t = mul32 (year - CLOCK_EPOCH) 365;
          t = add32 t ((year - 1) div 4 - (CLOCK_EPOCH - 1) div 4);
          is_leap = clock_is_leap year;
          t = (if is_leap \<noteq> 0 \<and> month > 2 then add32 t 1 else t);
          t = foldl (\<lambda>t i. add32 t (parse_mdays ! (i - 1))) t [1..<month]
      in if day > (if month = 2 \<and> is_leap \<noteq> 0 then 29 else parse_mdays ! (month - 1)) then 0
         else
           (let t = add32 t (day - 1);
                t = add32 (mul32 t 24) hour;
                t = add32 (mul32 t 60) minute
            in add32 (mul32 t 60) second))"

definition clock_parse :: "bytes \<Rightarrow> nat" where
  "clock_parse s =
     (let (year, p) = strtoul_at s 0
      in if cchar s p \<noteq> dash \<or> p \<noteq> 4 \<or> year < CLOCK_EPOCH then 0
         else let (month, p) = strtoul_at s (p + 1)
      in if cchar s p \<noteq> dash \<or> p \<noteq> 7 \<or> month < 1 \<or> month > 12 then 0
         else let (day, p) = strtoul_at s (p + 1)
      in if cchar s p \<noteq> letter_T \<or> p \<noteq> 10 \<or> day < 1 then 0
         else let (hour, p) = strtoul_at s (p + 1)
      in if cchar s p \<noteq> colon \<or> p \<noteq> 13 \<or> hour \<ge> 24 then 0
         else let (minute, p) = strtoul_at s (p + 1)
      in if cchar s p \<noteq> colon \<or> p \<noteq> 16 \<or> minute \<ge> 60 then 0
         else let (second, p) = strtoul_at s (p + 1)
      in if cchar s p \<noteq> 0 \<or> p \<noteq> 19 \<or> second \<ge> 60 then 0
         else clock_parse_time year month day hour minute second)"

definition date_months :: "bytes list" where
  "date_months = map str
     [''Jan'', ''Feb'', ''Mar'', ''Apr'', ''May'', ''Jun'', ''Jul'', ''Aug'', ''Sep'', ''Oct'', ''Nov'', ''Dec'']"

fun date_month :: "bytes \<Rightarrow> nat \<Rightarrow> bytes list \<Rightarrow> nat" where
  "date_month s month [] = month"
| "date_month s month (name # names) = (if s = name then month else date_month s (month + 1) names)"

text \<open>Hours, minutes and seconds, two characters each; \<open>i\<close> counts the fields.\<close>

fun hms_loop :: "bytes \<Rightarrow> nat \<Rightarrow> nat \<Rightarrow> nat list option" where
  "hms_loop s 0 i = (if cchar s (3 * i - 1) \<noteq> 0 then None else Some [])"
| "hms_loop s (Suc n) i =
     (let (v, p) = strtoul_at s (3 * i)
      in if p \<noteq> 3 * i + 2 then None
         else if i < 2 \<and> cchar s p \<noteq> colon then None
         else map_option (Cons v) (hms_loop s n (i + 1)))"

text \<open>\<^term>\<open>None\<close> is the result -1, with \<^verbatim>\<open>*timep = 0\<close>.\<close>

definition parse_http_date :: "bytes list \<Rightarrow> nat option" where
  "parse_http_date argv =
     (if length argv \<noteq> 6 \<or> argv ! 5 \<noteq> str ''GMT'' then None
      else if length (argv ! 0) \<noteq> 4 \<or> argv ! 0 ! 3 \<noteq> 0x2C then None
      else
        let (day, p) = strtoul_at (argv ! 1) 0
        in if p \<noteq> length (argv ! 1) then None
           else
             let month = date_month (argv ! 2) 1 date_months; (year, p) = strtoul_at (argv ! 3) 0
             in if p \<noteq> length (argv ! 3) then None
                else
                  (case hms_loop (argv ! 4) 3 0 of
                     Some [h, m, s] \<Rightarrow> clock_ints_to_time year month day h m s
                   | _ \<Rightarrow> None))"

section \<open>Digits\<close>

definition digit_string :: "bytes \<Rightarrow> nat \<Rightarrow> bool" where
  "digit_string ds v \<longleftrightarrow> ds \<noteq> [] \<and> list_all (is_digit 10) ds \<and> digits_value 10 ds = v \<and> v < 2 ^ 32"

lemma strtoul_at_digits:
  assumes "digit_string ds v" "drop p s = ds @ rest" "rest = [] \<or> \<not> is_digit 10 (hd rest)"
  shows "strtoul_at s p = (v, p + length ds)"
  using assms strtoul_decimal [of ds rest]
  by (simp add: strtoul_at_def digit_string_def unat_of_nat take_bit_eq_mod)

lemma strtoul_here:
  assumes "digit_string ds v" "rest = [] \<or> \<not> is_digit 10 (hd rest)"
  shows "strtoul_at (pre @ ds @ rest) (length pre) = (v, length pre + length ds)"
  by (rule strtoul_at_digits [OF assms(1) _ assms(2)]) simp

lemma digit_all:
  "\<forall>n \<in> set [0..<10]. is_digit 10 (word_of_nat (0x30 + n)) \<and> c_digit 10 (word_of_nat (0x30 + n)) = Some n"
  by code_simp

lemma digit_of: "n < 10 \<Longrightarrow> is_digit 10 (word_of_nat (0x30 + n)) \<and> c_digit 10 (word_of_nat (0x30 + n)) = Some n"
  using digit_all by simp

lemma digits_value_snoc: "digits_value 10 (ds @ [c]) = digits_value 10 ds * 10 + the (c_digit 10 c)"
  by (simp add: digits_value_def)

lemma decimal_digits: "n < 2 ^ 32 \<Longrightarrow> digit_string (decimal n) n"
proof (induction n rule: decimal.induct)
  case (1 n)
  show ?case
  proof (cases "n < 10")
    case True
    then show ?thesis
      using digit_of [OF True] digits_value_snoc [of "[]"] "1.prems"
      by (simp add: decimal.simps [of n] digit_string_def) (simp add: digits_value_def)
  next
    case False
    define c :: u8 where "c = word_of_nat (0x30 + n mod 10)"
    have "n mod 10 < 10" by simp
    from digit_of [OF this] have c: "is_digit 10 c" "c_digit 10 c = Some (n mod 10)" unfolding c_def by blast+
    have n: "decimal n = decimal (n div 10) @ [c]" using False by (simp add: decimal.simps [of n] c_def)
    have "digit_string (decimal (n div 10)) (n div 10)" using 1 False by simp
    then show ?thesis
      using c "1.prems" unfolding n digit_string_def digits_value_snoc by simp
  qed
qed

lemma decimal_length: "n < 10 ^ k \<Longrightarrow> 0 < k \<Longrightarrow> length (decimal n) \<le> k"
proof (induction n arbitrary: k rule: decimal.induct)
  case (1 n)
  show ?case
  proof (cases "n < 10")
    case True
    then show ?thesis using "1.prems" by (simp add: decimal.simps [of n])
  next
    case False
    then obtain j where j: "k = Suc j" "0 < j" using "1.prems" by (cases k; cases "k - 1") auto
    have "n div 10 < 10 ^ j" using "1.prems" j by (simp add: less_mult_imp_div_less mult.commute)
    from "1.IH" [OF False this j(2)] show ?thesis using False j by (simp add: decimal.simps [of n])
  qed
qed

lemma decimal_short: "10 ^ k \<le> n \<Longrightarrow> k < length (decimal n)"
proof (induction n arbitrary: k rule: decimal.induct)
  case (1 n)
  show ?case
  proof (cases "n < 10")
    case True
    have "10 * 1 \<le> 10 * (10::nat) ^ j" for j by (intro mult_le_mono2) simp
    then have "(10::nat) \<le> 10 ^ Suc j" for j by simp
    then have "k \<noteq> Suc j" for j using "1.prems" True by (metis leD order_trans)
    then have "k = 0" by (metis nat.exhaust)
    then show ?thesis by (simp add: decimal.simps [of n])
  next
    case False
    show ?thesis
    proof (cases k)
      case (Suc j)
      have "10 ^ j \<le> n div 10" using "1.prems" Suc by (simp add: less_eq_div_iff_mult_less_eq mult.commute)
      from "1.IH" [OF False this] show ?thesis using False Suc by (simp add: decimal.simps [of n])
    qed (simp add: decimal.simps [of n])
  qed
qed

lemma decimal_length_2: "n < 100 \<Longrightarrow> length (decimal n) = 2 \<longleftrightarrow> 10 \<le> n"
  using decimal_length [of n 2] decimal_short [of 1 n] decimal_length [of n 1] by fastforce

lemma decimal_length_4: "1000 \<le> n \<Longrightarrow> n < 10000 \<Longrightarrow> length (decimal n) = 4"
  using decimal_length [of n 4] decimal_short [of 3 n] by simp

section \<open>Parsing\<close>

lemma separators: "\<not> is_digit 10 dash" "\<not> is_digit 10 letter_T" "\<not> is_digit 10 colon"
  by code_simp+

definition date_text :: "bytes \<Rightarrow> bytes \<Rightarrow> bytes \<Rightarrow> bytes \<Rightarrow> bytes \<Rightarrow> bytes \<Rightarrow> bytes" where
  "date_text Y M D H I S = Y @ dash # M @ dash # D @ letter_T # H @ colon # I @ colon # S"

lemma cchar_at: "cchar (a @ c # b) (length a) = c"
  by (simp add: cchar_def nth_append)

text \<open>What \<open>clock_parse\<close> does with numbers between the right separators.\<close>

lemma clock_parse_text:
  assumes "digit_string Y y" "digit_string M m" "digit_string D d" "digit_string H h" "digit_string I mi" "digit_string S s"
  shows "clock_parse (date_text Y M D H I S)
    = (if length Y = 4 \<and> length M = 2 \<and> length D = 2 \<and> length H = 2 \<and> length I = 2 \<and> length S = 2
          \<and> CLOCK_EPOCH \<le> y \<and> 1 \<le> m \<and> m \<le> 12 \<and> 1 \<le> d \<and> h < 24 \<and> mi < 60 \<and> s < 60
       then clock_parse_time y m d h mi s else 0)"
proof -
  let ?t = "date_text Y M D H I S"
  let ?p1 = "length Y" let ?p2 = "?p1 + 1 + length M" let ?p3 = "?p2 + 1 + length D" let ?p4 = "?p3 + 1 + length H"
  let ?p5 = "?p4 + 1 + length I" let ?p6 = "?p5 + 1 + length S"
  have v: "strtoul_at ?t 0 = (y, ?p1)" "strtoul_at ?t (?p1 + 1) = (m, ?p2)" "strtoul_at ?t (?p2 + 1) = (d, ?p3)"
    "strtoul_at ?t (?p3 + 1) = (h, ?p4)" "strtoul_at ?t (?p4 + 1) = (mi, ?p5)" "strtoul_at ?t (?p5 + 1) = (s, ?p6)"
    using strtoul_here [OF assms(1), of "dash # M @ dash # D @ letter_T # H @ colon # I @ colon # S" "[]"] strtoul_here [OF assms(2), of "dash # D @ letter_T # H @ colon # I @ colon # S" "Y @ [dash]"]
      strtoul_here [OF assms(3), of "letter_T # H @ colon # I @ colon # S" "Y @ dash # M @ [dash]"] strtoul_here [OF assms(4), of "colon # I @ colon # S" "Y @ dash # M @ dash # D @ [letter_T]"]
      strtoul_here [OF assms(5), of "colon # S" "Y @ dash # M @ dash # D @ letter_T # H @ [colon]"]
      strtoul_here [OF assms(6), of "[]" "Y @ dash # M @ dash # D @ letter_T # H @ colon # I @ [colon]"]
    by (simp_all add: separators date_text_def add.assoc)
  have c: "cchar ?t ?p1 = dash" "cchar ?t ?p2 = dash" "cchar ?t ?p3 = letter_T" "cchar ?t ?p4 = colon" "cchar ?t ?p5 = colon"
    "cchar ?t ?p6 = 0"
    using cchar_at [of Y dash] cchar_at [of "Y @ dash # M" dash] cchar_at [of "Y @ dash # M @ dash # D" letter_T]
      cchar_at [of "Y @ dash # M @ dash # D @ letter_T # H" colon] cchar_at [of "Y @ dash # M @ dash # D @ letter_T # H @ colon # I" colon]
    by (simp_all add: date_text_def cchar_def add.assoc)
  show ?thesis
    unfolding clock_parse_def v c Let_def prod.case by auto
qed

section \<open>The time\<close>

text \<open>The leap days before a year as \<open>clock_parse\<close> counts them: 2100 is one of them.\<close>

lemma quarter_count:
  assumes "CLOCK_EPOCH \<le> y" "y \<le> 2105"
  shows "(y - CLOCK_EPOCH) * 365 + ((y - 1) div 4 - (CLOCK_EPOCH - 1) div 4) = days_to_year y + (if y > 2100 then 1 else 0)"
proof -
  define S where "S = (\<Sum>k = CLOCK_EPOCH..<y. clock_is_leap k)"
  have c: "(y - 1) div 100 = (if y \<le> 2000 then 19 else if y \<le> 2100 then 20 else 21)"
    "(y - 1) div 400 = (if y \<le> 2000 then 4 else 5)" using assms by auto
  have "(y - 1) div 4 = 492 + S + (if y > 2100 then 1 else 0)"
    using leap_count [OF assms(1)] unfolding c S_def [symmetric] by (auto split: if_splits)
  then show ?thesis using days_to_year_split [OF assms(1)] by (simp add: S_def)
qed

lemma months_fold:
  assumes "1 \<le> m" "m \<le> 12" "t \<le> 100000"
  shows "foldl (\<lambda>t i. add32 t (parse_mdays ! (i - 1))) (if clock_is_leap y \<noteq> 0 \<and> m > 2 then add32 t 1 else t) [1..<m]
    = t + days_to_month y m"
  using month_cases [OF assms(1,2)] leap_cases [of y] assms(3)
  by (elim insertE disjE; simp add: parse_mdays_def days_to_month_table days_to_month_1 upt_rec add32_exact)

lemma parse_time_valid:
  assumes v: "valid_date y m d" and y: "y \<le> 2105" and hms: "h < 24" "mi < 60" "s < 60"
  shows "clock_parse_time y m d h mi s
      = day_number y m d * ONE_DAY + h * 3600 + mi * 60 + s + (if y > 2100 then ONE_DAY else 0)"
    and "clock_ints_to_time y m d h mi s = Some (day_number y m d * ONE_DAY + h * 3600 + mi * 60 + s)"
proof -
  have range: "CLOCK_EPOCH \<le> y" "1 \<le> m" "m \<le> 12" "1 \<le> d" "d \<le> mdays_of (clock_is_leap y) m"
    using v by (simp_all add: valid_date_def)
  let ?l = "if y > 2100 then 1 else 0 :: nat"
  have "day_number y m d < days_to_year (Suc y)"
    using year_day_bound [OF v] days_to_year_Suc [OF range(1)] by (simp add: day_number_def)
  also have "days_to_year (Suc y) \<le> 49673"
    using days_to_year_mono [of "Suc y" 2106] y days_to_2106 by simp
  finally have n: "day_number y m d < 49673" .
  have small: "days_to_year y \<le> 49673" using n by (simp add: day_number_def)
  have "(y - CLOCK_EPOCH) * 365 \<le> 135 * 365" using y by (intro mult_le_mono1) simp
  then have "(y - CLOCK_EPOCH) * 365 < 4294967296" "(y - CLOCK_EPOCH) * 365 + ((y - 1) div 4 - (CLOCK_EPOCH - 1) div 4) < 4294967296"
    using quarter_count [OF range(1) y] small by auto
  then have t1: "add32 (mul32 (y - CLOCK_EPOCH) 365) ((y - 1) div 4 - (CLOCK_EPOCH - 1) div 4) = days_to_year y + ?l"
    using quarter_count [OF range(1) y] by (simp add: mul32_exact add32_exact)
  have t2: "foldl (\<lambda>t i. add32 t (parse_mdays ! (i - 1)))
      (if clock_is_leap y \<noteq> 0 \<and> m > 2 then add32 (days_to_year y + ?l) 1 else days_to_year y + ?l) [1..<m]
    = days_to_year y + ?l + days_to_month y m"
    by (rule months_fold [OF range(2,3)]) (use small in simp)
  have day: "\<not> d > (if m = 2 \<and> clock_is_leap y \<noteq> 0 then 29 else parse_mdays ! (m - 1))"
  proof -
    have "parse_mdays = clock_mdays" by (simp add: parse_mdays_def clock_mdays_def)
    moreover have "clock_mdays ! 1 = 28" by (simp add: clock_mdays_def)
    ultimately show ?thesis using range(2,3,5) leap_cases [of y] by (auto simp: mdays_of_def split: if_splits)
  qed
  have t3: "add32 (days_to_year y + ?l + days_to_month y m) (d - 1) = day_number y m d + ?l"
    using n by (simp add: add32_exact day_number_def)
  have "add32 (mul32 (day_number y m d + ?l) 24) h = (day_number y m d + ?l) * 24 + h"
    using n hms by (simp add: add32_exact mul32_exact)
  moreover have "add32 (mul32 ((day_number y m d + ?l) * 24 + h) 60) mi = (day_number y m d + ?l) * 1440 + h * 60 + mi"
    using n hms by (simp add: add32_exact mul32_exact)
  moreover have "add32 (mul32 ((day_number y m d + ?l) * 1440 + h * 60 + mi) 60) s
      = (day_number y m d + ?l) * ONE_DAY + h * 3600 + mi * 60 + s"
    using n hms by (simp add: add32_exact mul32_exact)
  ultimately show "clock_parse_time y m d h mi s
      = day_number y m d * ONE_DAY + h * 3600 + mi * 60 + s + (if y > 2100 then ONE_DAY else 0)"
    unfolding clock_parse_time_def Let_def t1 t2 if_not_P [OF day] t3 by simp
  show "clock_ints_to_time y m d h mi s = Some (day_number y m d * ONE_DAY + h * 3600 + mi * 60 + s)"
    by (rule ints_to_time_exact [OF v]) (use n hms y in simp_all)
qed

lemma parse_time_no_day:
  assumes "1 \<le> m" "m \<le> 12" "mdays_of (clock_is_leap y) m < d"
  shows "clock_parse_time y m d h mi s = 0" "clock_ints_to_time y m d h mi s = None"
proof -
  have "d > (if m = 2 \<and> clock_is_leap y \<noteq> 0 then 29 else parse_mdays ! (m - 1))"
    using assms leap_cases [of y] by (auto simp: mdays_of_def clock_mdays_def parse_mdays_def split: if_splits)
  then show "clock_parse_time y m d h mi s = 0" by (simp add: clock_parse_time_def Let_def)
  have "(d > 28 \<and> m = 2 \<and> (d > 29 \<or> clock_is_leap y = 0)) \<or> (d > 28 \<and> m \<noteq> 2 \<and> d > clock_mdays ! (m - 1))"
    using month_cases [OF assms(1,2)] leap_cases [of y] assms(3)
    by (elim insertE disjE) (simp_all add: mdays_table clock_mdays_def)
  then show "clock_ints_to_time y m d h mi s = None" by (auto simp: clock_ints_to_time_def Let_def)
qed

section \<open>The parsers\<close>

text \<open>C29.  \<open>clock_parse\<close> of a date with four digits for the year and two for each other number is the time that
  \<open>clock_ints_to_time\<close> gives for its numbers, or 0 when there is no such time, up to the year 2100; in the
  years 2101 to 2105 it is one day late.\<close>

theorem clock_parse_correct:
  assumes "digit_string Y y" "digit_string M m" "digit_string D d" "digit_string H h" "digit_string I mi" "digit_string S s"
    and "length Y = 4" "length M = 2" "length D = 2" "length H = 2" "length I = 2" "length S = 2"
    and "y \<le> 2105" "h \<noteq> 24"
  shows "clock_parse (date_text Y M D H I S)
    = (case clock_ints_to_time y m d h mi s of None \<Rightarrow> 0 | Some t \<Rightarrow> if y \<le> 2100 then t else t + ONE_DAY)"
proof (cases "CLOCK_EPOCH \<le> y \<and> 1 \<le> m \<and> m \<le> 12 \<and> 1 \<le> d \<and> h < 24 \<and> mi < 60 \<and> s < 60")
  case False
  have "clock_ints_to_time y m d h mi s = None" using False assms(14) by (auto simp: clock_ints_to_time_def)
  then show ?thesis using clock_parse_text [OF assms(1-6)] False by auto
next
  case True
  show ?thesis
  proof (cases "d \<le> mdays_of (clock_is_leap y) m")
    case False
    then show ?thesis using clock_parse_text [OF assms(1-6)] assms(7-12) True parse_time_no_day [of m y d] by simp
  next
    case d: True
    then have "valid_date y m d" using True by (simp add: valid_date_def)
    from parse_time_valid [OF this assms(13)] show ?thesis
      using clock_parse_text [OF assms(1-6)] assms(7-12) True by simp
  qed
qed

lemma sample_digits: "n < 10 ^ 4 \<Longrightarrow> digit_string (decimal n) n"
  by (rule decimal_digits) simp

lemma clock_parse_correct_witness:
  "clock_parse (date_text (decimal 2016) (decimal 12) (decimal 31) (decimal 23) (decimal 59) (decimal 58))
    = (case clock_ints_to_time 2016 12 31 23 59 58 of None \<Rightarrow> 0 | Some t \<Rightarrow> if (2016::nat) \<le> 2100 then t else t + ONE_DAY)"
  by (rule clock_parse_correct; (rule sample_digits)?) (simp_all add: decimal_length_2 decimal_length_4)

text \<open>C30.  \<open>clock_fmt\<close> does not pad: up to the year 2100 \<open>clock_parse\<close> reads back what it writes when month, day, hour,
  minute and second have two digits each, and gives 0 otherwise.\<close>

theorem clock_fmt_parse:
  assumes "t < 4133980800"
  shows "clock_parse (clock_fmt 20 t)
    = (let c = clock_fill_details t
       in if 10 \<le> clk_month c \<and> 10 \<le> clk_days c \<and> 10 \<le> clk_hour c \<and> 10 \<le> clk_min c \<and> 10 \<le> clk_sec c then t else 0)"
proof -
  obtain y m d where v: "valid_date y m d" and n: "day_number y m d = t div ONE_DAY"
    and c: "clock_fill_details t = clock_details t y m d"
    by (rule fill_details_is [of t]) (use assms in simp)
  let ?h = "t mod ONE_DAY div 3600" and ?mi = "t mod 3600 div 60" and ?s = "t mod 60"
  have y: "y \<le> 2100"
  proof (rule ccontr)
    assume "\<not> y \<le> 2100"
    then have "days_to_year 2101 \<le> days_to_year y" by (intro days_to_year_mono) simp
    moreover have "days_to_year 2101 = 47847" using leap_count [of 2101] by (simp add: days_to_year_split)
    moreover have "t div ONE_DAY < 47847" using assms by (simp add: less_mult_imp_div_less)
    ultimately show False using n by (simp add: day_number_def)
  qed
  have range: "CLOCK_EPOCH \<le> y" "1 \<le> m" "m \<le> 12" "1 \<le> d" "d \<le> 31"
    using v valid_days_le_31 [OF v] by (simp_all add: valid_date_def)
  have clock: "?h < 24" "?mi < 60" "?s < 60" by (simp_all add: less_mult_imp_div_less)
  have fields: "clk_year (clock_fill_details t) = y" "clk_month (clock_fill_details t) = m" "clk_days (clock_fill_details t) = d"
    "clk_hour (clock_fill_details t) = ?h" "clk_min (clock_fill_details t) = ?mi" "clk_sec (clock_fill_details t) = ?s"
    by (simp_all add: c clock_details_def Let_def)
  let ?text = "date_text (decimal y) (decimal m) (decimal d) (decimal ?h) (decimal ?mi) (decimal ?s)"
  have two: "length (decimal k) \<le> 2" if "k < 100" for k using decimal_length [of k 2] that by simp
  have "length (decimal y) = 4" using decimal_length_4 [of y] y range(1) by simp
  then have "length ?text \<le> 19"
    using two [of m] two [of d] two [of ?h] two [of ?mi] two [of ?s] range clock by (simp add: date_text_def)
  then have fmt: "clock_fmt 20 t = ?text"
    unfolding clock_fmt_def Let_def fields date_text_def [symmetric] by simp
  have digits: "digit_string (decimal k) k" if "k < 10000" for k by (rule decimal_digits) (use that in simp)
  have "clock_parse ?text = (if 10 \<le> m \<and> 10 \<le> d \<and> 10 \<le> ?h \<and> 10 \<le> ?mi \<and> 10 \<le> ?s then clock_parse_time y m d ?h ?mi ?s else 0)"
    using clock_parse_text [of "decimal y" y "decimal m" m "decimal d" d "decimal ?h" ?h "decimal ?mi" ?mi "decimal ?s" ?s]
      digits range clock y \<open>length (decimal y) = 4\<close> decimal_length_2
    by simp
  moreover have "clock_parse_time y m d ?h ?mi ?s = t"
  proof -
    have "t div ONE_DAY * ONE_DAY + ?h * 3600 + ?mi * 60 + ?s = t"
      using hms(4) [of t] div_mult_mod_eq [of t ONE_DAY] by linarith
    then show ?thesis using parse_time_valid(1) [OF v _ clock] y n by simp
  qed
  ultimately show ?thesis unfolding fmt Let_def fields by simp
qed

lemma clock_fmt_parse_witness:
  "clock_parse (clock_fmt 20 1483228799)
    = (let c = clock_fill_details 1483228799
       in if 10 \<le> clk_month c \<and> 10 \<le> clk_days c \<and> 10 \<le> clk_hour c \<and> 10 \<le> clk_min c \<and> 10 \<le> clk_sec c then 1483228799 else 0)"
  by (rule clock_fmt_parse) simp

text \<open> The parser of the \<^verbatim>\<open>Date\<close> header gives the time of \<open>clock_ints_to_time\<close> for the numbers in the header.\<close>

theorem parse_http_date_correct:
  assumes "digit_string D d" "digit_string Y y" "digit_string H h" "digit_string I mi" "digit_string S s"
    and "length H = 2" "length I = 2" "length S = 2" "length day_name = 3" "1 \<le> m" "m \<le> 12"
  shows "parse_http_date [day_name @ [0x2C], D, date_months ! (m - 1), Y, H @ colon # I @ colon # S, str ''GMT'']
    = clock_ints_to_time y m d h mi s"
proof -
  have n: "strtoul_at D 0 = (d, length D)" "strtoul_at Y 0 = (y, length Y)"
    using strtoul_here [OF assms(1), of "[]" "[]"] strtoul_here [OF assms(2), of "[]" "[]"] by simp_all
  let ?t = "H @ colon # I @ colon # S"
  have t: "strtoul_at ?t 0 = (h, 2)" "strtoul_at ?t 3 = (mi, 5)" "strtoul_at ?t 6 = (s, 8)"
    using strtoul_here [OF assms(3), of "colon # I @ colon # S" "[]"] strtoul_here [OF assms(4), of "colon # S" "H @ [colon]"]
      strtoul_here [OF assms(5), of "[]" "H @ colon # I @ [colon]"] assms(6-8) separators
    by simp_all
  have c: "cchar ?t 2 = colon" "cchar ?t 5 = colon" "cchar ?t 8 = 0"
    using cchar_at [of H colon] cchar_at [of "H @ colon # I" colon] assms(6-8) by (simp_all add: cchar_def)
  have months: "\<forall>k \<in> set [1..<13]. date_month (date_months ! (k - 1)) 1 date_months = k" by code_simp
  have month: "date_month (date_months ! (m - 1)) 1 date_months = m"
    by (rule months [rule_format]) (use assms(10,11) in auto)
  have "hms_loop ?t 3 0 = Some [h, mi, s]"
    using t c by (simp add: eval_nat_numeral)
  then show ?thesis
    using n month assms(9) by (simp add: parse_http_date_def Let_def nth_append)
qed

lemma parse_http_date_correct_witness:
  "parse_http_date [str ''Sun'' @ [0x2C], decimal 6, date_months ! (11 - 1), decimal 1994,
      decimal 10 @ colon # decimal 49 @ colon # decimal 37, str ''GMT''] = clock_ints_to_time 1994 11 6 10 49 37"
  by (rule parse_http_date_correct; (rule sample_digits)?) (simp_all add: decimal_length_2 str_def)

end
