(* ===== verification/ConfTree.thy ===== *)
theory ConfTree
  imports Main "HOL-Library.Sublist"
begin

text \<open>
  The index of the configuration (\<^verbatim>\<open>libayla/conf.c\<close>): a tree with one level for each token of a name.  The
  children of a node are a list, sorted by token, which the code links through \<^verbatim>\<open>sib\<close>.  A node holds the
  offset of the last value of its name in the configuration file, and that of the last factory value;
  \<^term>\<open>None\<close> stands for \<^verbatim>\<open>CONF_OFF_INV\<close>.
\<close>

section \<open>The code\<close>

type_synonym conf_token = nat

datatype conf_node = Conf_node (cn_token: conf_token) (cn_off: "nat option") (cn_fact: "nat option") (cn_child: "conf_node list")

text \<open>
  \<open>conf_tree_add\<close>: the walk along a level, the new node, and what is done with the node of the name.  The last
  three arguments of the function are constant: the offset, whether the name is a factory one, and whether
  it is deleted.
\<close>

definition conf_found :: "nat \<Rightarrow> bool \<Rightarrow> conf_node \<Rightarrow> conf_node" where
  "conf_found off fac node = Conf_node (cn_token node) (Some off) (if fac then Some off else cn_fact node) (cn_child node)"

function conf_tree_add :: "conf_token list \<Rightarrow> nat \<Rightarrow> bool \<Rightarrow> bool \<Rightarrow> conf_node list \<Rightarrow> conf_node list" where
  "conf_tree_add [] off fac del nodes = nodes"
| "conf_tree_add (token # path) off fac del [] =
     (if path = [] then (if del then [] else [conf_found off fac (Conf_node token None None [])])
      else [Conf_node token None None (conf_tree_add path off fac del [])])"
| "conf_tree_add (token # path) off fac del (node # nodes) =
     (if token = cn_token node then
        (if path = [] then (if del then nodes else conf_found off fac node # nodes)
         else Conf_node token (cn_off node) (cn_fact node) (conf_tree_add path off fac del (cn_child node)) # nodes)
      else if token < cn_token node then
        (if path = [] then (if del then node # nodes else conf_found off fac (Conf_node token None None []) # node # nodes)
         else Conf_node token None None (conf_tree_add path off fac del []) # node # nodes)
      else node # conf_tree_add (token # path) off fac del nodes)"
  by pat_completeness auto
termination
  by (relation "measures [\<lambda>(path, off, fac, del, nodes). length path, \<lambda>(path, off, fac, del, nodes). length nodes]") auto

text \<open>
  \<open>conf_tree_lookup\<close>: \<open>path\<close> is the rest of the array of tokens, and \<open>plen\<close> the number of those that
  belong to the name.  At a node without a value the search goes on below it with a length of 0, so that
  the tokens behind the name are read, too; \<^term>\<open>None\<close> is a read behind the array.
\<close>

fun conf_tree_lookup :: "conf_node list \<Rightarrow> conf_token list \<Rightarrow> int \<Rightarrow> bool \<Rightarrow> conf_node option option" where
  "conf_tree_lookup [] path plen del = Some None"
| "conf_tree_lookup (node # nodes) [] plen del = None"
| "conf_tree_lookup (Conf_node tok off fac child # nodes) (token # path) plen del =
     (if tok > token then Some None
      else if tok \<noteq> token then conf_tree_lookup nodes (token # path) plen del
      else if plen = 1 \<and> (del \<or> off \<noteq> None) then Some (Some (Conf_node tok off fac child))
      else conf_tree_lookup child path (plen - 1) del)"

section \<open>The map that a tree represents\<close>

fun tree_ok :: "conf_node list \<Rightarrow> bool" and node_ok :: "conf_node \<Rightarrow> bool" where
  "tree_ok [] = True"
| "tree_ok (n # ns) = (node_ok n \<and> (\<forall>m \<in> set ns. cn_token n < cn_token m) \<and> tree_ok ns)"
| "node_ok (Conf_node token off fac child) = (tree_ok child \<and> (off = None \<longrightarrow> fac = None))"

definition tree_find :: "conf_node list \<Rightarrow> conf_token \<Rightarrow> conf_node option" where
  "tree_find nodes token = find (\<lambda>n. cn_token n = token) nodes"

lemma tree_find_simps [simp]:
  "tree_find [] t = None" "tree_find (n # ns) t = (if cn_token n = t then Some n else tree_find ns t)"
  by (simp_all add: tree_find_def)

text \<open>The node of a name, and the offsets of its values.\<close>

fun tree_node :: "conf_node list \<Rightarrow> conf_token list \<Rightarrow> conf_node option" where
  "tree_node nodes [] = None"
| "tree_node nodes [t] = tree_find nodes t"
| "tree_node nodes (t # ts) = Option.bind (tree_find nodes t) (\<lambda>n. tree_node (cn_child n) ts)"

definition tree_map :: "conf_node list \<Rightarrow> conf_token list \<Rightarrow> (nat \<times> nat option) option" where
  "tree_map nodes p = Option.bind (tree_node nodes p) (\<lambda>n. map_option (\<lambda>off. (off, cn_fact n)) (cn_off n))"

lemma tree_map_simps [simp]:
  "tree_map nodes [] = None"
  "tree_map nodes [t] = Option.bind (tree_find nodes t) (\<lambda>n. map_option (\<lambda>off. (off, cn_fact n)) (cn_off n))"
  "tree_map nodes (t # u # us) = Option.bind (tree_find nodes t) (\<lambda>n. tree_map (cn_child n) (u # us))"
  by (cases "tree_find nodes t"; simp add: tree_map_def)+

section \<open>Adding\<close>

text \<open>The node of the first token after an addition.\<close>

definition start_node :: "conf_node list \<Rightarrow> conf_token \<Rightarrow> conf_node" where
  "start_node nodes t = (case tree_find nodes t of Some n \<Rightarrow> n | None \<Rightarrow> Conf_node t None None [])"

lemma tree_find_token: "tree_find nodes t = Some n \<Longrightarrow> cn_token n = t \<and> n \<in> set nodes"
  by (induction nodes) (auto split: if_splits)

lemma start_token [simp]: "cn_token (start_node nodes t) = t"
  using tree_find_token by (auto simp: start_node_def split: option.split)

lemma tree_find_less: "\<forall>m \<in> set nodes. t < cn_token m \<Longrightarrow> tree_find nodes t = None"
  by (induction nodes) auto

lemma add_tokens: "m \<in> set (conf_tree_add (t # path) off fac del nodes) \<Longrightarrow> cn_token m = t \<or> cn_token m \<in> cn_token ` set nodes"
  by (induction nodes) (auto simp: conf_found_def split: if_splits)

lemma add_find:
  assumes "tree_ok nodes"
  shows "tree_find (conf_tree_add (t # path) off fac del nodes) t' =
    (if t' \<noteq> t then tree_find nodes t'
     else if path = [] then (if del then None else Some (conf_found off fac (start_node nodes t)))
     else Some (Conf_node t (cn_off (start_node nodes t)) (cn_fact (start_node nodes t))
       (conf_tree_add path off fac del (cn_child (start_node nodes t)))))"
  using assms
proof (induction nodes)
  case (Cons n nodes)
  have "tree_find nodes t = None" if "t \<le> cn_token n"
    using Cons.prems that by (intro tree_find_less) auto
  then show ?case using Cons by (auto simp: start_node_def conf_found_def)
qed (auto simp: start_node_def conf_found_def)

lemma tree_ok_node: "tree_ok nodes \<Longrightarrow> n \<in> set nodes \<Longrightarrow> node_ok n"
  by (induction nodes) auto

lemma node_ok_iff: "node_ok n \<longleftrightarrow> tree_ok (cn_child n) \<and> (cn_off n = None \<longrightarrow> cn_fact n = None)"
  by (cases n) simp

lemma add_ok: "tree_ok nodes \<Longrightarrow> tree_ok (conf_tree_add path off fac del nodes)"
proof (induction path off fac del nodes rule: conf_tree_add.induct)
  case (2 token path off fac del)
  then show ?case by (simp add: conf_found_def)
next
  case (3 token path off fac del node nodes)
  show ?case
  proof (cases "token = cn_token node \<or> token < cn_token node")
    case True
    then show ?thesis using 3 by (auto simp: conf_found_def node_ok_iff)
  next
    case False
    then have "tree_ok (conf_tree_add (token # path) off fac del nodes)" using 3 by simp
    moreover have "cn_token node < cn_token m" if "m \<in> set (conf_tree_add (token # path) off fac del nodes)" for m
      using add_tokens [OF that] False "3.prems" by auto
    ultimately show ?thesis using False "3.prems" by simp
  qed
qed simp

lemma start_child: "tree_ok nodes \<Longrightarrow> tree_ok (cn_child (start_node nodes t))"
  using tree_find_token tree_ok_node by (fastforce simp: start_node_def node_ok_iff split: option.split)

lemma tree_map_start:
  "tree_map nodes [t] = map_option (\<lambda>off. (off, cn_fact (start_node nodes t))) (cn_off (start_node nodes t))"
  "tree_map nodes (t # u # us) = tree_map (cn_child (start_node nodes t)) (u # us)"
proof -
  have "tree_map [] p = None" for p by (cases "([] :: conf_node list, p)" rule: tree_node.cases) simp_all
  then show "tree_map nodes [t] = map_option (\<lambda>off. (off, cn_fact (start_node nodes t))) (cn_off (start_node nodes t))"
    "tree_map nodes (t # u # us) = tree_map (cn_child (start_node nodes t)) (u # us)"
    by (simp_all add: start_node_def split: option.split)
qed

text \<open>The map after an addition: the name gets a value, or the name and all names below it lose theirs.\<close>

definition map_add_value :: "conf_token list \<Rightarrow> nat \<Rightarrow> bool \<Rightarrow> bool \<Rightarrow> (conf_token list \<Rightarrow> (nat \<times> nat option) option)
    \<Rightarrow> conf_token list \<Rightarrow> (nat \<times> nat option) option" where
  "map_add_value path off fac del m q =
     (if del then (if prefix path q then None else m q)
      else if q = path then Some (off, if fac then Some off else Option.bind (m path) snd)
      else m q)"

lemma add_map:
  "tree_ok nodes \<Longrightarrow> path \<noteq> [] \<Longrightarrow> tree_map (conf_tree_add path off fac del nodes) q = map_add_value path off fac del (tree_map nodes) q"
proof (induction path arbitrary: nodes q)
  case (Cons t path)
  let ?add = "conf_tree_add (t # path) off fac del nodes" and ?s = "start_node nodes t"
  show ?case
  proof (cases q)
    case Nil
    then show ?thesis by (simp add: map_add_value_def)
  next
    case q: (Cons t' q')
    show ?thesis
    proof (cases "t' = t")
      case False
      then show ?thesis
        using add_find [OF Cons.prems(1), of t path off fac del t'] q by (cases q') (auto simp: map_add_value_def)
    next
      case same: True
      show ?thesis
      proof (cases "path = []")
        case True
        have "Option.bind (map_option (\<lambda>off. (off, cn_fact ?s)) (cn_off ?s)) snd = cn_fact ?s"
          using Cons.prems(1) tree_find_token tree_ok_node
          by (cases "cn_off ?s") (fastforce simp: start_node_def node_ok_iff split: option.splits)+
        then show ?thesis
          using add_find [OF Cons.prems(1), of t path off fac del t] True q same tree_map_start [of nodes t]
          by (cases q') (auto simp: map_add_value_def conf_found_def)
      next
        case False
        have "tree_map (conf_tree_add path off fac del (cn_child ?s)) q'
            = map_add_value path off fac del (tree_map (cn_child ?s)) q'"
          by (rule Cons.IH [OF start_child [OF Cons.prems(1)] False])
        then show ?thesis
          using add_find [OF Cons.prems(1), of t path off fac del t] False q same tree_map_start [of nodes t]
          by (cases q'; cases path) (auto simp: map_add_value_def)
      qed
    qed
  qed
qed simp

section \<open>Lookup\<close>

text \<open>Trees of bounded depth.\<close>

fun depth_le :: "nat \<Rightarrow> conf_node list \<Rightarrow> bool" where
  "depth_le 0 nodes \<longleftrightarrow> nodes = []"
| "depth_le (Suc k) nodes \<longleftrightarrow> (\<forall>n \<in> set nodes. depth_le k (cn_child n))"

lemma depth_Nil [simp]: "depth_le k []"
  by (cases k) simp_all

lemma add_depth: "depth_le k nodes \<Longrightarrow> length path \<le> k \<Longrightarrow> depth_le k (conf_tree_add path off fac del nodes)"
proof (induction path off fac del nodes arbitrary: k rule: conf_tree_add.induct)
  case (2 token path off fac del)
  then show ?case by (cases k) (auto simp: conf_found_def)
next
  case (3 token path off fac del node nodes)
  then obtain j where k: "k = Suc j" by (cases k) auto
  show ?case
  proof (cases "token = cn_token node \<or> token < cn_token node")
    case False
    have "depth_le k (conf_tree_add (token # path) off fac del nodes)"
      by (rule "3.IH"(3)) (use False "3.prems" k in auto)
    then show ?thesis using False "3.prems" k by auto
  qed (use 3 k in \<open>auto simp: conf_found_def\<close>)
qed simp

text \<open>One level of the search.\<close>

lemma lookup_level:
  assumes "tree_ok nodes"
  shows "conf_tree_lookup nodes (t # path) plen del =
    (case tree_find nodes t of None \<Rightarrow> Some None
     | Some n \<Rightarrow> if plen = 1 \<and> (del \<or> cn_off n \<noteq> None) then Some (Some n) else conf_tree_lookup (cn_child n) path (plen - 1) del)"
  using assms
proof (induction nodes)
  case (Cons n nodes)
  obtain tok off fac child where n: "n = Conf_node tok off fac child" by (cases n)
  have "tree_find nodes t = None" if "t \<le> tok" using Cons.prems that n by (intro tree_find_less) auto
  then show ?case using Cons n by auto
qed simp

text \<open>With a length of 0 or less nothing is found, and what is read behind the name does not matter.\<close>

lemma lookup_behind:
  "tree_ok nodes \<Longrightarrow> depth_le k nodes \<Longrightarrow> k \<le> length path \<Longrightarrow> plen \<le> 0 \<Longrightarrow> conf_tree_lookup nodes path plen del = Some None"
proof (induction path arbitrary: k nodes plen)
  case (Cons t path)
  show ?case
  proof (cases "tree_find nodes t")
    case (Some n)
    then obtain j where j: "k = Suc j" using Cons.prems(2) by (cases k) auto
    have n: "n \<in> set nodes" using tree_find_token [OF Some] by simp
    have "conf_tree_lookup (cn_child n) path (plen - 1) del = Some None"
      by (rule Cons.IH [of _ j]) (use Cons.prems n j tree_ok_node [OF Cons.prems(1) n] in \<open>auto simp: node_ok_iff\<close>)
    then show ?thesis using Some Cons.prems(4) lookup_level [OF Cons.prems(1)] by simp
  qed (use lookup_level [OF Cons.prems(1)] in simp)
qed simp

lemma lookup_node:
  assumes "tree_ok nodes" "depth_le k nodes" "k \<le> length (path @ extra)" "path \<noteq> []"
  shows "conf_tree_lookup nodes (path @ extra) (int (length path)) del
    = Some (case tree_node nodes path of None \<Rightarrow> None | Some n \<Rightarrow> if del \<or> cn_off n \<noteq> None then Some n else None)"
  using assms
proof (induction path arbitrary: k nodes)
  case (Cons t path)
  show ?case
  proof (cases "tree_find nodes t")
    case None
    then show ?thesis using lookup_level [OF Cons.prems(1)] by (cases path) simp_all
  next
    case (Some n)
    then obtain j where j: "k = Suc j" using Cons.prems(2) by (cases k) auto
    have n: "n \<in> set nodes" using tree_find_token [OF Some] by simp
    have child: "tree_ok (cn_child n)" "depth_le j (cn_child n)" "j \<le> length (path @ extra)"
      using Cons.prems n j tree_ok_node [OF Cons.prems(1) n] by (auto simp: node_ok_iff)
    show ?thesis
    proof (cases "path = []")
      case True
      have "conf_tree_lookup (cn_child n) extra 0 d = Some None" for d
        by (rule lookup_behind [of _ j]) (use child True in simp_all)
      then show ?thesis using Some True lookup_level [OF Cons.prems(1)] by simp
    next
      case False
      then have "int (length (t # path)) \<noteq> 1" "int (length (t # path)) - 1 = int (length path)" by simp_all
      moreover have "tree_node nodes (t # path) = tree_node (cn_child n) path" using Some False by (cases path) simp_all
      ultimately show ?thesis
        using Some Cons.IH [OF child False] lookup_level [OF Cons.prems(1), of t "path @ extra" "int (length (t # path))" del]
        by simp
    qed
  qed
qed simp

section \<open>A sequence of additions\<close>

text \<open>A pair in the file: its name, its offset, whether it is a factory value, and whether it deletes the name.\<close>

record conf_pair =
  cp_path :: "conf_token list"
  cp_off :: nat
  cp_fact :: bool
  cp_del :: bool

definition conf_index :: "conf_pair list \<Rightarrow> conf_node list" where
  "conf_index pairs = foldl (\<lambda>tree c. conf_tree_add (cp_path c) (cp_off c) (cp_fact c) (cp_del c) tree) [] pairs"

definition conf_values :: "conf_pair list \<Rightarrow> conf_token list \<Rightarrow> (nat \<times> nat option) option" where
  "conf_values pairs = foldl (\<lambda>m c. map_add_value (cp_path c) (cp_off c) (cp_fact c) (cp_del c) m) (\<lambda>p. None) pairs"

lemma conf_index_snoc:
  "conf_index (pairs @ [c]) = conf_tree_add (cp_path c) (cp_off c) (cp_fact c) (cp_del c) (conf_index pairs)"
  by (simp add: conf_index_def)

lemma conf_values_snoc:
  "conf_values (pairs @ [c]) = map_add_value (cp_path c) (cp_off c) (cp_fact c) (cp_del c) (conf_values pairs)"
  by (simp add: conf_values_def)

lemma tree_map_Nil: "tree_map [] p = None"
  by (cases "([] :: conf_node list, p)" rule: tree_node.cases) simp_all

lemma conf_index_ok:
  assumes "\<forall>c \<in> set pairs. cp_path c \<noteq> [] \<and> length (cp_path c) \<le> k"
  shows "tree_ok (conf_index pairs) \<and> depth_le k (conf_index pairs) \<and> tree_map (conf_index pairs) = conf_values pairs"
  using assms
proof (induction pairs rule: rev_induct)
  case Nil
  then show ?case by (simp add: conf_index_def conf_values_def tree_map_Nil fun_eq_iff)
next
  case (snoc c pairs)
  then have IH: "tree_ok (conf_index pairs)" "depth_le k (conf_index pairs)" "tree_map (conf_index pairs) = conf_values pairs"
    and c: "cp_path c \<noteq> []" "length (cp_path c) \<le> k" by auto
  show ?case
    using add_ok [OF IH(1)] add_depth [OF IH(2) c(2)] add_map [OF IH(1) c(1)] IH(3)
    by (auto simp: conf_index_snoc conf_values_snoc fun_eq_iff)
qed

text \<open>The value of a name is that of the last pair that concerns it.\<close>

definition cp_matches :: "conf_token list \<Rightarrow> conf_pair \<Rightarrow> bool" where
  "cp_matches p c \<longleftrightarrow> (if cp_del c then prefix (cp_path c) p else cp_path c = p)"

definition last_match :: "conf_pair list \<Rightarrow> conf_token list \<Rightarrow> conf_pair option" where
  "last_match pairs p = find (cp_matches p) (rev pairs)"

lemma conf_values_last:
  "map_option fst (conf_values pairs p)
    = (case last_match pairs p of None \<Rightarrow> None | Some c \<Rightarrow> if cp_del c then None else Some (cp_off c))"
proof (induction pairs rule: rev_induct)
  case Nil
  then show ?case by (simp add: conf_values_def last_match_def)
next
  case (snoc c pairs)
  then show ?case
    by (auto simp: conf_values_snoc map_add_value_def last_match_def cp_matches_def)
qed

text \<open> After any sequence of additions and deletions of names that fit the array of tokens, the search in the index
  stays inside that array, although it reads behind the name, and finds the offset of the last value of a name,
  unless the name or one above it was deleted later.\<close>

theorem conf_tree_correct:
  assumes "\<forall>c \<in> set pairs. cp_path c \<noteq> [] \<and> length (cp_path c) \<le> length (path @ extra)" "path \<noteq> []"
  shows "\<exists>res. conf_tree_lookup (conf_index pairs) (path @ extra) (int (length path)) False = Some res
    \<and> Option.bind res cn_off
      = (case last_match pairs path of None \<Rightarrow> None | Some c \<Rightarrow> if cp_del c then None else Some (cp_off c))"
proof -
  have ok: "tree_ok (conf_index pairs)" "depth_le (length (path @ extra)) (conf_index pairs)" "tree_map (conf_index pairs) = conf_values pairs"
    using conf_index_ok [OF assms(1)] by auto
  let ?res = "case tree_node (conf_index pairs) path of None \<Rightarrow> None | Some n \<Rightarrow> if False \<or> cn_off n \<noteq> None then Some n else None"
  have "Option.bind ?res cn_off = map_option fst (tree_map (conf_index pairs) path)"
    by (cases "tree_node (conf_index pairs) path") (auto simp: tree_map_def)
  then show ?thesis
    using lookup_node [OF ok(1,2) order_refl assms(2), of False] conf_values_last [of pairs path] unfolding ok(3) by metis
qed

lemma conf_tree_correct_witness:
  "\<exists>res. conf_tree_lookup (conf_index [\<lparr>cp_path = [3, 7], cp_off = 0, cp_fact = True, cp_del = False\<rparr>,
        \<lparr>cp_path = [3], cp_off = 9, cp_fact = False, cp_del = True\<rparr>,
        \<lparr>cp_path = [3, 7], cp_off = 18, cp_fact = False, cp_del = False\<rparr>]) ([3, 7] @ [1]) (int (length [3, 7::nat])) False = Some res
    \<and> Option.bind res cn_off
      = (case last_match [\<lparr>cp_path = [3, 7], cp_off = 0, cp_fact = True, cp_del = False\<rparr>,
        \<lparr>cp_path = [3], cp_off = 9, cp_fact = False, cp_del = True\<rparr>,
        \<lparr>cp_path = [3, 7], cp_off = 18, cp_fact = False, cp_del = False\<rparr>] [3, 7]
         of None \<Rightarrow> None | Some c \<Rightarrow> if cp_del c then None else Some (cp_off c))"
  by (rule conf_tree_correct) simp_all

end
