(* ===== verification/ConfTlv.thy ===== *)
theory ConfTlv
  imports Utf8
begin

text \<open>
  Type-length-value items of the configuration (\<^verbatim>\<open>libayla/conf.c\<close>, \<^verbatim>\<open>ayla/tlv.h\<close>): writing them, reading
  integers of any width from them, and names as sequences of tokens in UTF-8.  Integers are stored in the byte
  order of the processor, which is little-endian.  What a function does to \<^verbatim>\<open>conf_state.error\<close> is part of its
  result: \<^term>\<open>None\<close> leaves it.
\<close>

section \<open>Types\<close>

datatype conf_error = CONF_ERR_LEN | CONF_ERR_UTF8 | CONF_ERR_PATH | CONF_ERR_TYPE | CONF_ERR_RANGE | CONF_ERR_PERM

abbreviation ATLV_INT :: u8 where "ATLV_INT \<equiv> 0x02"
abbreviation ATLV_UINT :: u8 where "ATLV_UINT \<equiv> 0x03"
abbreviation ATLV_UTF8 :: u8 where "ATLV_UTF8 \<equiv> 0x05"
abbreviation ATLV_CONF :: u8 where "ATLV_CONF \<equiv> 0x06"
abbreviation ATLV_BOOL :: u8 where "ATLV_BOOL \<equiv> 0x0f"
abbreviation ATLV_CONF_FACTORY :: u8 where "ATLV_CONF_FACTORY \<equiv> 0x1a"
abbreviation ATLV_DELETE :: u8 where "ATLV_DELETE \<equiv> 0x1b"
abbreviation ATLV_FILE :: u8 where "ATLV_FILE \<equiv> 0x80"
abbreviation ATLV_RESERVED :: u8 where "ATLV_RESERVED \<equiv> 0xff"

record conf_tlv =
  tlv_type :: u8
  tlv_len :: u8
  tlv_val :: bytes

section \<open>Writing\<close>

text \<open>\<open>tlv_put\<close>: \<^term>\<open>None\<close> is the result -1, with \<^verbatim>\<open>CONF_ERR_LEN\<close> and a cleared buffer.\<close>

definition tlv_put :: "nat \<Rightarrow> u8 \<Rightarrow> bytes \<Rightarrow> bytes option" where
  "tlv_put buflen type val =
     (let len = length val
      in if (len > 0xff \<and> type \<noteq> ATLV_FILE) \<or> len > 0x7eff \<or> buflen < 2 + len then None
         else Some ((type OR word_of_nat (len div 256)) # word_of_nat len # val))"

definition le16 :: "u16 \<Rightarrow> bytes" where
  "le16 v = [ucast v, ucast (drop_bit 8 v)]"

definition le32 :: "u32 \<Rightarrow> bytes" where
  "le32 v = [ucast v, ucast (drop_bit 8 v), ucast (drop_bit 16 v), ucast (drop_bit 24 v)]"

definition tlv_put_int :: "nat \<Rightarrow> s32 \<Rightarrow> bytes option" where
  "tlv_put_int buflen val =
     (if sint val \<le> 127 \<and> sint val \<ge> - 128 then tlv_put buflen ATLV_INT [ucast val]
      else if sint val \<le> 32767 \<and> sint val \<ge> - 32768 then tlv_put buflen ATLV_INT (le16 (ucast val))
      else tlv_put buflen ATLV_INT (le32 val))"

definition tlv_put_uint :: "nat \<Rightarrow> u32 \<Rightarrow> bytes option" where
  "tlv_put_uint buflen val =
     (if val \<le> 0xff then tlv_put buflen ATLV_UINT [ucast val]
      else if val \<le> 0xffff then tlv_put buflen ATLV_UINT (le16 (ucast val))
      else tlv_put buflen ATLV_UINT (le32 val))"

section \<open>Reading\<close>

definition conf_tlv_len :: "conf_tlv \<Rightarrow> nat" where
  "conf_tlv_len tlv =
     (if tlv_type tlv AND ATLV_FILE \<noteq> 0
      then unat (tlv_len tlv) OR (unat (tlv_type tlv AND NOT ATLV_FILE) * 256)
      else unat (tlv_len tlv))"

definition of_le16 :: "bytes \<Rightarrow> u16" where
  "of_le16 b = ucast (cchar b 0) OR push_bit 8 (ucast (cchar b 1))"

definition of_le32 :: "bytes \<Rightarrow> u32" where
  "of_le32 b = ucast (cchar b 0) OR push_bit 8 (ucast (cchar b 1)) OR push_bit 16 (ucast (cchar b 2)) OR push_bit 24 (ucast (cchar b 3))"

definition conf_get_int_common :: "conf_tlv \<Rightarrow> s32 \<times> conf_error option" where
  "conf_get_int_common tlv =
     (if tlv_len tlv = 4 then (of_le32 (tlv_val tlv), None)
      else if tlv_len tlv = 2 then (scast (of_le16 (tlv_val tlv)), None)
      else if tlv_len tlv = 1 then (scast (cchar (tlv_val tlv) 0), None)
      else (0, Some CONF_ERR_LEN))"

definition conf_get_uint_common :: "conf_tlv \<Rightarrow> u32 \<times> conf_error option" where
  "conf_get_uint_common tlv =
     (if tlv_len tlv = 4 then (of_le32 (tlv_val tlv), None)
      else if tlv_len tlv = 2 then (ucast (of_le16 (tlv_val tlv)), None)
      else if tlv_len tlv = 1 then (ucast (cchar (tlv_val tlv) 0), None)
      else (0, Some CONF_ERR_LEN))"

definition conf_get_s32 :: "conf_tlv \<Rightarrow> s32 \<times> conf_error option" where
  "conf_get_s32 tlv = (if tlv_type tlv \<noteq> ATLV_INT then (0, Some CONF_ERR_TYPE) else conf_get_int_common tlv)"

definition conf_get_u32 :: "conf_tlv \<Rightarrow> u32 \<times> conf_error option" where
  "conf_get_u32 tlv = (if tlv_type tlv \<noteq> ATLV_UINT then (0, Some CONF_ERR_TYPE) else conf_get_uint_common tlv)"

text \<open>The narrow getters; an error of the wide one stays.\<close>

definition conf_get_s16 :: "conf_tlv \<Rightarrow> s16 \<times> conf_error option" where
  "conf_get_s16 tlv =
     (let (tval, err) = conf_get_s32 tlv; val = (ucast tval :: 16 word)
      in if scast val \<noteq> tval then (0, Some CONF_ERR_RANGE) else (val, err))"

definition conf_get_u16 :: "conf_tlv \<Rightarrow> u16 \<times> conf_error option" where
  "conf_get_u16 tlv =
     (let (tval, err) = conf_get_u32 tlv; val = (ucast tval :: u16)
      in if ucast val \<noteq> tval then (0, Some CONF_ERR_RANGE) else (val, err))"

definition conf_get_s8 :: "conf_tlv \<Rightarrow> 8 word \<times> conf_error option" where
  "conf_get_s8 tlv =
     (let (tval, err) = conf_get_s32 tlv; val = (ucast tval :: 8 word)
      in if scast val \<noteq> tval then (0, Some CONF_ERR_RANGE) else (val, err))"

definition conf_get_u8 :: "conf_tlv \<Rightarrow> u8 \<times> conf_error option" where
  "conf_get_u8 tlv =
     (let (tval, err) = conf_get_u32 tlv; val = (ucast tval :: u8)
      in if ucast val \<noteq> tval then (0, Some CONF_ERR_RANGE) else (val, err))"

definition conf_get_bit :: "conf_tlv \<Rightarrow> u8 \<times> conf_error option" where
  "conf_get_bit tlv =
     (let (val, err) = (if tlv_type tlv = ATLV_BOOL then (cchar (tlv_val tlv) 0, None) else conf_get_u8 tlv)
      in if val > 1 then (0, Some CONF_ERR_RANGE) else (val, err))"

definition conf_get_int32 :: "conf_tlv \<Rightarrow> s32 \<times> conf_error option" where
  "conf_get_int32 tlv =
     (if tlv_type tlv = ATLV_INT then conf_get_int_common tlv
      else if tlv_type tlv = ATLV_UINT then
        (let (value, err) = conf_get_uint_common tlv
         in if sint value < 0 then (0, Some CONF_ERR_RANGE) else (value, err))
      else (0, Some CONF_ERR_TYPE))"

text \<open>
  \<open>conf_get\<close> copies a value of the expected type into a buffer of \<open>len\<close> bytes, with a NUL behind it when there
  is room.
\<close>

definition conf_get :: "conf_tlv \<Rightarrow> u8 \<Rightarrow> nat \<Rightarrow> nat \<times> bytes \<times> conf_error option" where
  "conf_get tlv type len =
     (let dlen = unat (tlv_len tlv)
      in if type = ATLV_FILE \<and> tlv_type tlv AND ATLV_FILE \<noteq> 0 \<or> tlv_type tlv = type then
           (let dlen = (if type = ATLV_FILE \<and> tlv_type tlv AND ATLV_FILE \<noteq> 0
                        then dlen OR (unat (tlv_type tlv AND NOT ATLV_FILE) * 256) else dlen)
            in if dlen > len then (0, [], Some CONF_ERR_LEN)
               else (dlen, take dlen (tlv_val tlv) @ (if dlen < len then [0] else []), None))
         else (0, [], Some CONF_ERR_TYPE))"

section \<open>Names\<close>

abbreviation (input) CONF_PATH_MAX :: nat where "CONF_PATH_MAX \<equiv> 16"

definition utf8_put_wchar :: "u32 \<Rightarrow> bytes option" where
  "utf8_put_wchar val =
     (if val > 0x10ffff then None
      else if val \<ge> 0x10000 then
        Some [0xf0 + (ucast (drop_bit 18 val) AND 7), 0x80 + (ucast (drop_bit 12 val) AND 0x3f),
              0x80 + (ucast (drop_bit 6 val) AND 0x3f), 0x80 + (ucast val AND 0x3f)]
      else if val \<ge> 0x800 then
        Some [0xe0 + (ucast (drop_bit 12 val) AND 0xf), 0x80 + (ucast (drop_bit 6 val) AND 0x3f), 0x80 + (ucast val AND 0x3f)]
      else if val \<ge> 0x80 then
        Some [0xc0 + (ucast (drop_bit 6 val) AND 0x1f), 0x80 + (ucast val AND 0x3f)]
      else Some [ucast val])"

fun utf8_put_wchars :: "nat list \<Rightarrow> bytes option" where
  "utf8_put_wchars [] = Some []"
| "utf8_put_wchars (t # ts) =
     (case utf8_put_wchar (word_of_nat t) of
        None \<Rightarrow> None
      | Some b \<Rightarrow> map_option (\<lambda>bs. b @ bs) (utf8_put_wchars ts))"

text \<open>A token is an enumeration of one byte on this processor; \<^term>\<open>None\<close> is the result -1.\<close>

definition conf_get_tokens :: "nat \<Rightarrow> bytes \<Rightarrow> nat list option" where
  "conf_get_tokens argc_max name =
     (case utf8_gets CONF_PATH_MAX name of
        None \<Rightarrow> None
      | Some token \<Rightarrow>
          if length token > argc_max then None
          else if \<exists>t \<in> set token. t > 0xff then None
          else Some (map unat token))"

section \<open>Integers\<close>

text \<open>The item that a reader finds in what was written.\<close>

definition tlv_of :: "bytes \<Rightarrow> conf_tlv" where
  "tlv_of buf = \<lparr>tlv_type = cchar buf 0, tlv_len = cchar buf 1, tlv_val = drop 2 buf\<rparr>"

lemma of_le16 [simp]: "of_le16 (le16 v) = v"
  unfolding of_le16_def le16_def
  by (rule bit_word_eqI) (auto simp: bit_simps cchar_def)

lemma of_le32 [simp]: "of_le32 (le32 v) = v"
proof (rule bit_word_eqI)
  fix n
  assume "n < LENGTH(32)"
  then consider "n < 8" | "8 \<le> n" "n < 16" | "16 \<le> n" "n < 24" | "24 \<le> n" "n < 32" by fastforce
  then show "bit (of_le32 (le32 v)) n = bit v n"
    by cases (auto simp: of_le32_def le32_def bit_simps cchar_def)
qed

lemma tlv_put_small:
  assumes "length val \<le> 0xff" "2 + length val \<le> room"
  shows "tlv_put room type val = Some (type # word_of_nat (length val) # val)"
  using assms by (simp add: tlv_put_def Let_def)

lemma tlv_of_put [simp]: "tlv_of (type # len # val) = \<lparr>tlv_type = type, tlv_len = len, tlv_val = val\<rparr>"
  by (simp add: tlv_of_def)

lemma sint_scast_down:
  assumes "- (2 ^ (LENGTH('b) - 1)) \<le> sint v" "sint v < 2 ^ (LENGTH('b) - 1)" "LENGTH('b::len) \<le> LENGTH('a)"
  shows "scast (ucast (v :: 'a::len word) :: 'b word) = v"
proof -
  have narrow: "ucast (word_of_int k :: 'a word) = (word_of_int k :: 'b word)" for k
    using assms(3) by transfer (simp add: min_absorb1)
  have "(ucast v :: 'b word) = word_of_int (sint v)" using narrow [of "sint v"] by simp
  then have "sint (ucast v :: 'b word) = signed_take_bit (LENGTH('b) - Suc 0) (sint v)" by (simp only: sint_sbintrunc' One_nat_def)
  also have "\<dots> = sint v" using assms(1,2) by (simp add: signed_take_bit_int_eq_self)
  finally show ?thesis by (simp add: scast_eq)
qed

text \<open>What an integer item of a value is.\<close>

definition int_item :: "s32 \<Rightarrow> conf_tlv" where
  "int_item v = tlv_of (the (tlv_put_int 6 v))"

definition uint_item :: "u32 \<Rightarrow> conf_tlv" where
  "uint_item v = tlv_of (the (tlv_put_uint 6 v))"

lemma put_int_read:
  "conf_get_s32 (int_item v) = (v, None)" "tlv_type (int_item v) = ATLV_INT"
proof -
  have one: "sint v \<le> 127 \<Longrightarrow> - 128 \<le> sint v \<Longrightarrow> scast (ucast v :: 8 word) = v"
    using sint_scast_down [where ?'b = 8, of v] by simp
  have two: "sint v \<le> 32767 \<Longrightarrow> - 32768 \<le> sint v \<Longrightarrow> scast (ucast v :: 16 word) = v"
    using sint_scast_down [where ?'b = 16, of v] by simp
  show "conf_get_s32 (int_item v) = (v, None)" "tlv_type (int_item v) = ATLV_INT"
    using one two of_le16 [of "ucast v"] of_le32 [of v]
    by (auto simp: int_item_def tlv_put_int_def tlv_put_small conf_get_s32_def conf_get_int_common_def le16_def le32_def)
qed

lemma put_uint_read:
  "conf_get_u32 (uint_item v) = (v, None)" "tlv_type (uint_item v) = ATLV_UINT"
proof -
  have one: "v \<le> 0xff \<Longrightarrow> ucast (ucast v :: u8) = v"
    by (simp add: word_unat_eq_iff unat_ucast_u32 unat_ucast_u8 word_le_nat_alt)
  have two: "v \<le> 0xffff \<Longrightarrow> ucast (ucast v :: u16) = v"
    by (simp add: word_unat_eq_iff unsigned_ucast_eq unsigned_take_bit_eq word_le_nat_alt take_bit_nat_eq_self)
  show "conf_get_u32 (uint_item v) = (v, None)" "tlv_type (uint_item v) = ATLV_UINT"
    using one two of_le16 [of "ucast v"] of_le32 [of v]
    by (auto simp: uint_item_def tlv_put_uint_def tlv_put_small conf_get_u32_def conf_get_uint_common_def le16_def le32_def)
qed

text \<open>The range of a narrow integer, and the results of the narrow getters.\<close>

lemma sint_scast_up: "sint (scast v :: s32) = sint v" if "LENGTH('a) \<le> 32" for v :: "'a::len word"
proof -
  have "sint (scast v :: s32) = signed_take_bit 31 (sint v)" by (simp add: signed_scast_eq)
  also have "\<dots> = sint v"
  proof (rule signed_take_bit_int_eq_self)
    have "(2::int) ^ (LENGTH('a) - 1) \<le> 2 ^ 31" using that by (intro power_increasing) simp_all
    then show "- (2 ^ 31) \<le> sint v" "sint v < 2 ^ 31"
      using sint_greater_eq [of v] sint_less [of v] by simp_all
  qed
  finally show ?thesis .
qed

lemma scast_down_iff:
  assumes "LENGTH('b) \<le> 32"
  shows "scast (ucast (v :: s32) :: 'b::len word) = v
    \<longleftrightarrow> - (2 ^ (LENGTH('b) - 1)) \<le> sint v \<and> sint v < 2 ^ (LENGTH('b) - 1)"
proof
  assume "scast (ucast v :: 'b word) = v"
  then have "sint v = sint (ucast v :: 'b word)" using sint_scast_up [OF assms, of "ucast v"] by simp
  then show "- (2 ^ (LENGTH('b) - 1)) \<le> sint v \<and> sint v < 2 ^ (LENGTH('b) - 1)"
    using sint_greater_eq [of "ucast v :: 'b word"] sint_less [of "ucast v :: 'b word"] by simp
qed (use sint_scast_down [where ?'b = 'b and v = v] assms in auto)

lemma ucast_down_u16_iff: "ucast (ucast (v :: u32) :: u16) = v \<longleftrightarrow> v \<le> 0xffff"
  by (auto simp: word_unat_eq_iff unsigned_ucast_eq unsigned_take_bit_eq word_le_nat_alt take_bit_nat_eq_self_iff)

lemma ucast_down_u8_iff: "ucast (ucast (v :: u32) :: u8) = v \<longleftrightarrow> v \<le> 0xff"
  by (auto simp: word_unat_eq_iff unsigned_ucast_eq unsigned_take_bit_eq word_le_nat_alt take_bit_nat_eq_self_iff)

text \<open> A signed integer is stored in as few bytes as it needs, and each getter gives it back, or 0 and a range
  error when it does not fit the type of the getter.\<close>

theorem conf_int_roundtrip:
  "conf_get_s32 (int_item v) = (v, None) \<and> conf_get_int32 (int_item v) = (v, None)
    \<and> conf_get_s16 (int_item v)
        = (if - 32768 \<le> sint v \<and> sint v \<le> 32767 then (ucast v, None) else (0, Some CONF_ERR_RANGE))
    \<and> conf_get_s8 (int_item v) = (if - 128 \<le> sint v \<and> sint v \<le> 127 then (ucast v, None) else (0, Some CONF_ERR_RANGE))
    \<and> unat (tlv_len (int_item v)) = (if - 128 \<le> sint v \<and> sint v \<le> 127 then 1 else if - 32768 \<le> sint v \<and> sint v \<le> 32767 then 2 else 4)
    \<and> conf_get_u32 (int_item v) = (0, Some CONF_ERR_TYPE)"
proof (intro conjI)
  note r = put_int_read [of v]
  show "conf_get_s32 (int_item v) = (v, None)" by (rule r(1))
  show "conf_get_int32 (int_item v) = (v, None)" using r by (simp add: conf_get_int32_def conf_get_s32_def)
  show "conf_get_s16 (int_item v)
        = (if - 32768 \<le> sint v \<and> sint v \<le> 32767 then (ucast v, None) else (0, Some CONF_ERR_RANGE))"
    using scast_down_iff [where ?'b = 16, of v] by (auto simp: conf_get_s16_def r)
  show "conf_get_s8 (int_item v) = (if - 128 \<le> sint v \<and> sint v \<le> 127 then (ucast v, None) else (0, Some CONF_ERR_RANGE))"
    using scast_down_iff [where ?'b = 8, of v] by (auto simp: conf_get_s8_def r)
  show "unat (tlv_len (int_item v))
      = (if - 128 \<le> sint v \<and> sint v \<le> 127 then 1 else if - 32768 \<le> sint v \<and> sint v \<le> 32767 then 2 else 4)"
    by (auto simp: int_item_def tlv_put_int_def tlv_put_small le16_def le32_def)
  show "conf_get_u32 (int_item v) = (0, Some CONF_ERR_TYPE)" using r(2) by (simp add: conf_get_u32_def)
qed

theorem conf_uint_roundtrip:
  "conf_get_u32 (uint_item v) = (v, None)
    \<and> conf_get_u16 (uint_item v) = (if v \<le> 0xffff then (ucast v, None) else (0, Some CONF_ERR_RANGE))
    \<and> conf_get_u8 (uint_item v) = (if v \<le> 0xff then (ucast v, None) else (0, Some CONF_ERR_RANGE))
    \<and> conf_get_int32 (uint_item v) = (if v < 0x80000000 then (v, None) else (0, Some CONF_ERR_RANGE))"
proof -
  have u: "0 \<le> uint v" "uint v < 4294967296" using uint_bounded [of v] by simp_all
  have "uint v div 2147483648 = 1" if "\<not> uint v < 2147483648"
    using that u(2) int_div_pos_eq [of "uint v" 2147483648 1 "uint v - 2147483648"] by simp
  then have "uint v div 2147483648 = (if uint v < 2147483648 then 0 else 1)" using u(1) by simp
  then have "bit (uint v) 31 = (\<not> uint v < 2147483648)" by (simp add: bit_iff_odd)
  then have "sint v < 0 \<longleftrightarrow> \<not> v < 0x80000000"
    by (simp add: sint_uint word_less_def)
  then show ?thesis
    using put_uint_read [of v] ucast_down_u16_iff [of v] ucast_down_u8_iff [of v]
    by (auto simp: conf_get_u16_def conf_get_u8_def conf_get_int32_def conf_get_u32_def)
qed

section \<open>Names\<close>

lemma put_wchar_all:
  "\<forall>n \<in> set [0..<256]. utf8_put_wchar (word_of_nat n) = utf8_encode 4 (word_of_nat n)"
  by code_simp

lemma token_word: "t \<le> 0xff \<Longrightarrow> unat (word_of_nat t :: u32) = t \<and> (word_of_nat t :: u32) \<le> 0xff \<and> (word_of_nat t :: u32) \<le> MAX_UTF8"
  by (simp add: unat_of_nat take_bit_eq_mod word_le_nat_alt)

lemma put_token:
  assumes "t \<le> 0xff"
  shows "utf8_put_wchar (word_of_nat t) = Some (the (utf8_encode 4 (word_of_nat t)))"
proof -
  have "utf8_put_wchar (word_of_nat t) = utf8_encode 4 (word_of_nat t)"
    by (rule put_wchar_all [rule_format]) (use assms in simp)
  then show ?thesis using encode_total [of "word_of_nat t"] token_word [OF assms] by auto
qed

lemma put_tokens:
  "\<forall>t \<in> set path. t \<le> 0xff \<Longrightarrow> utf8_put_wchars path = Some (concat (map (\<lambda>t. the (utf8_encode 4 (word_of_nat t))) path))"
  by (induction path) (simp_all add: put_token)

lemma tokens_roundtrip:
  assumes "length path \<le> CONF_PATH_MAX" "length path \<le> argc_max" "\<forall>t \<in> set path. t \<le> 0xff"
  shows "conf_get_tokens argc_max (the (utf8_put_wchars path)) = Some path"
proof -
  let ?w = "map (word_of_nat :: nat \<Rightarrow> u32) path"
  have "utf8_gets CONF_PATH_MAX (the (utf8_put_wchars path)) = Some ?w"
    unfolding utf8_gets_exact put_tokens [OF assms(3)] using assms token_word by (auto simp: list_all_iff comp_def)
  moreover have "map unat ?w = path" using assms(3) token_word by (auto simp: comp_def intro: map_idI)
  moreover have "\<not> (\<exists>t \<in> set ?w. t > 0xff)" using assms(3) token_word by (auto simp: not_less)
  ultimately show ?thesis using assms(2) by (simp add: conf_get_tokens_def)
qed

end
