(* ===== verification/ConfLog.thy ===== *)
theory ConfLog
  imports ConfTlv ConfTree Crc
begin

text \<open>
  The configuration in the flash (\<^verbatim>\<open>libayla/conf.c\<close>, \<^verbatim>\<open>arch/ameba/conf_flash.c\<close>): a file is the bytes of its area,
  with a head of 16 bytes; behind it is a log of pairs, each a value item followed by a name item with a
  CRC over both.  The rest is erased, which reads as \<^verbatim>\<open>0xff\<close>.  A value is changed by a pair at the end.
  Offsets in the log are numbers, counted from the end of the head; reads wrap around at 32 bits as in the
  code, where the invalid offset can reach them.  What a write makes of a byte of the flash is a parameter.
\<close>

section \<open>The flash file\<close>

abbreviation (input) CONF_MAGIC :: u8 where "CONF_MAGIC \<equiv> 0xc1"
abbreviation (input) CONF_VERSION :: u8 where "CONF_VERSION \<equiv> 1"

definition conf_flash_raw_read :: "bytes \<Rightarrow> nat \<Rightarrow> nat \<Rightarrow> bytes option" where
  "conf_flash_raw_read flash offset len =
     (if (offset + len) mod 2 ^ 32 > length flash then None else Some (take len (drop offset flash)))"

definition conf_flash_erased :: "bytes \<Rightarrow> bool" where
  "conf_flash_erased buf \<longleftrightarrow> (\<forall>b \<in> set buf. b = 0xff)"

text \<open>The fields of a head.\<close>

definition head_len :: "bytes \<Rightarrow> u32" where
  "head_len head = of_le32 (drop 4 head)"

definition head_data_len :: "bytes \<Rightarrow> u32" where
  "head_data_len head = of_le32 (drop 8 head)"

text \<open>\<open>conf_flash_read_head\<close>; \<^term>\<open>None\<close> is the result -1.\<close>

definition conf_flash_read_head :: "bytes \<Rightarrow> nat \<Rightarrow> bytes option" where
  "conf_flash_read_head flash offset =
     (case conf_flash_raw_read flash offset 16 of
        None \<Rightarrow> None
      | Some head \<Rightarrow>
          (let found =
             (if cchar head 0 \<noteq> CONF_MAGIC then
                (if conf_flash_erased head then None
                 else let entry = unat (head_len head AND NOT 1 AND 0xfff);
                          head = (if offset + entry \<ge> 16 \<and> offset + entry < length flash
                                  then conf_flash_raw_read flash (offset + entry - 16) 16 else Some head)
                      in case head of
                           None \<Rightarrow> None
                         | Some head \<Rightarrow> if cchar head 0 \<noteq> CONF_MAGIC then None else Some (head, head_data_len head + 8))
              else Some (head, head_data_len head + 16))
           in case found of
                None \<Rightarrow> None
              | Some (head, min_len) \<Rightarrow>
                  if cchar head 1 \<noteq> CONF_VERSION then None
                  else if head_len head < min_len then None
                  else Some head))"

definition conf_flash_read :: "bytes \<Rightarrow> nat \<Rightarrow> nat \<Rightarrow> bytes option" where
  "conf_flash_read flash offset len =
     (if length flash = 0 \<or> length flash < 16 then None
      else case conf_flash_read_head flash 0 of
        None \<Rightarrow> None
      | Some head \<Rightarrow> conf_flash_raw_read flash ((16 + offset) mod 2 ^ 32) len)"

text \<open>
  Writing: \<open>prog\<close> gives the byte of the flash after a write, from the byte before and the one written.
  \<^term>\<open>None\<close> is the result -1, without a write.
\<close>

type_synonym flash_prog = "u8 \<Rightarrow> u8 \<Rightarrow> u8"

definition conf_flash_raw_write :: "flash_prog \<Rightarrow> bytes \<Rightarrow> nat \<Rightarrow> bytes \<Rightarrow> bytes option" where
  "conf_flash_raw_write prog flash pos buf =
     (if pos + length buf > length flash then None
      else Some (take pos flash @ map2 prog (drop pos flash) buf @ drop (pos + length buf) flash))"

definition conf_flash_write_head :: "flash_prog \<Rightarrow> bytes \<Rightarrow> u8 \<Rightarrow> bytes option" where
  "conf_flash_write_head prog flash gen_id =
     (if 16 > length flash then None
      else conf_flash_raw_write prog flash 0
        ([CONF_MAGIC, CONF_VERSION, 0, (gen_id AND 0x7f) OR 0x80] @ le32 (word_of_nat (length flash))
          @ le32 (word_of_nat (length flash - 16)) @ [0, 0, 0, 0]))"

definition conf_flash_write_blk :: "flash_prog \<Rightarrow> bytes \<Rightarrow> nat \<Rightarrow> bytes \<Rightarrow> bytes option" where
  "conf_flash_write_blk prog flash offset v =
     (if offset + length v > length flash then None
      else conf_flash_raw_write prog flash (offset + 16) v)"

section \<open>Reading the log\<close>

text \<open>
  \<open>conf_tlv_read\<close>: the data is read in pieces of the size of the buffer, all of them to its start.  A buffer has
  room for \<open>Suc room\<close> bytes behind the two of the head of an item.  The result is the item, the offset behind
  it, and the CRC.
\<close>

function conf_tlv_data :: "bytes \<Rightarrow> nat \<Rightarrow> nat \<Rightarrow> nat \<Rightarrow> bytes \<Rightarrow> u8 \<Rightarrow> (bytes \<times> nat \<times> u8) option" where
  "conf_tlv_data flash coff len room buf crc =
     (if len = 0 then Some (buf, coff, crc)
      else let tlen = min len (Suc room)
           in case conf_flash_read flash coff tlen of
                None \<Rightarrow> None
              | Some data \<Rightarrow> conf_tlv_data flash (coff + tlen) (len - tlen) room (data @ drop tlen buf) (crc8 data crc))"
  by pat_completeness auto
termination
  by (relation "measure (\<lambda>(flash, coff, len, room, buf, crc). len)") auto

declare conf_tlv_data.simps [simp del]

definition conf_tlv_read :: "bool \<Rightarrow> bytes \<Rightarrow> nat \<Rightarrow> nat \<Rightarrow> u8 \<Rightarrow> (conf_tlv \<times> nat \<times> u8) option" where
  "conf_tlv_read id_file flash off room crc =
     (if off + 2 + 16 > length flash then None
      else case conf_flash_read flash off 2 of
        None \<Rightarrow> None
      | Some h \<Rightarrow>
          (let tlv = \<lparr>tlv_type = cchar h 0, tlv_len = cchar h 1, tlv_val = []\<rparr>
           in if tlv_type tlv = ATLV_RESERVED then (if id_file then Some (tlv, off + 1, crc) else None)
              else case conf_tlv_data flash (off + 2) (conf_tlv_len tlv) room [] (crc8 h crc) of
                     None \<Rightarrow> None
                   | Some (buf, coff, crc) \<Rightarrow> Some (tlv\<lparr>tlv_val := buf\<rparr>, coff, crc)))"

lemma tlv_data_bounds:
  "conf_tlv_data flash coff len room buf crc = Some (buf', coff', crc') \<Longrightarrow> coff \<le> coff'"
  by (induction flash coff len room buf crc rule: conf_tlv_data.induct)
    (subst (asm) conf_tlv_data.simps, fastforce simp: Let_def split: if_splits option.splits)

lemma tlv_read_bounds:
  "conf_tlv_read id_file flash off room crc = Some (tlv, off', crc') \<Longrightarrow> off < off' \<and> off + 18 \<le> length flash"
  by (fastforce simp: conf_tlv_read_def Let_def split: if_splits option.splits dest: tlv_data_bounds)

text \<open>
  \<open>conf_next_tlv\<close>: the next valid pair from an offset on, with the offsets of its value and behind it, or the
  end, with the offset for further writes.  The buffers have 400 and 66 bytes.
\<close>

datatype conf_next = Next_end nat | Next_pair nat nat conf_tlv conf_tlv

abbreviation (input) CONF_VAL_MAX :: nat where "CONF_VAL_MAX \<equiv> 400"
abbreviation (input) CRC8_INIT :: u8 where "CRC8_INIT \<equiv> 0xff"

function conf_next_tlv :: "bool \<Rightarrow> bytes \<Rightarrow> nat \<Rightarrow> conf_next" where
  "conf_next_tlv id_file flash coff =
     (case conf_tlv_read id_file flash coff 397 CRC8_INIT of
        None \<Rightarrow> Next_end coff
      | Some (val, coff2, cr) \<Rightarrow>
          if tlv_type val = ATLV_RESERVED then conf_next_tlv id_file flash coff2
          else case conf_tlv_read id_file flash coff2 63 cr of
                 None \<Rightarrow> Next_end coff2
               | Some (name, coff3, cr) \<Rightarrow>
                   if tlv_type name \<noteq> ATLV_CONF \<and> tlv_type name \<noteq> ATLV_CONF_FACTORY then conf_next_tlv id_file flash coff2
                   else if cr \<noteq> 0 then conf_next_tlv id_file flash coff3
                   else Next_pair coff coff3 name val)"
  by pat_completeness auto
termination
  by (relation "measure (\<lambda>(id_file, flash, coff). length flash - coff)")
    (auto dest!: tlv_read_bounds split: if_splits)

declare conf_next_tlv.simps [simp del]

lemma next_tlv_bounds:
  "conf_next_tlv id_file flash coff = Next_pair off next name val \<Longrightarrow> coff < next \<and> coff < length flash"
proof (induction id_file flash coff rule: conf_next_tlv.induct)
  case (1 id_file flash coff)
  obtain val' coff2 cr where r1: "conf_tlv_read id_file flash coff 397 CRC8_INIT = Some (val', coff2, cr)"
    using "1.prems" by (cases "conf_tlv_read id_file flash coff 397 CRC8_INIT") (auto simp: conf_next_tlv.simps)
  note b1 = tlv_read_bounds [OF r1]
  show ?case
  proof (cases "tlv_type val' = ATLV_RESERVED")
    case True
    then show ?thesis using "1.IH"(1) [OF r1 refl refl] "1.prems" r1 b1 by (fastforce simp: conf_next_tlv.simps [of _ _ coff])
  next
    case False
    then obtain name' coff3 cr' where r2: "conf_tlv_read id_file flash coff2 63 cr = Some (name', coff3, cr')"
      using "1.prems" r1 by (cases "conf_tlv_read id_file flash coff2 63 cr") (auto simp: conf_next_tlv.simps [of _ _ coff])
    note b2 = tlv_read_bounds [OF r2]
    show ?thesis
      using "1.IH"(2) [OF r1 refl refl False r2 refl refl] "1.IH"(3) [OF r1 refl refl False r2 refl refl] "1.prems" r1 r2 b1 b2 False
      by (fastforce simp: conf_next_tlv.simps [of _ _ coff] split: if_splits)
  qed
qed

text \<open>The tokens of a name item (the CRC is its last byte), and \<open>conf_tree_add\<close> of it.\<close>

definition name_tokens :: "conf_tlv \<Rightarrow> nat list option" where
  "name_tokens name = conf_get_tokens CONF_PATH_MAX (take (unat (tlv_len name) - 1) (tlv_val name))"

definition conf_tree_add_tlv :: "conf_node list \<Rightarrow> conf_tlv \<Rightarrow> nat \<Rightarrow> bool \<Rightarrow> conf_node list" where
  "conf_tree_add_tlv tree name off del =
     (case name_tokens name of
        None \<Rightarrow> tree
      | Some path \<Rightarrow> conf_tree_add path off (tlv_type name = ATLV_CONF_FACTORY) del tree)"

text \<open>
  The loop of \<open>conf_load_new\<close>: the index, and the end of the log.  The index is kept, as the agent is built with
  \<^verbatim>\<open>FLASH_CONF_CACHE\<close>.
\<close>

function conf_load_new :: "bool \<Rightarrow> bytes \<Rightarrow> nat \<Rightarrow> conf_node list \<Rightarrow> conf_node list \<times> nat" where
  "conf_load_new id_file flash off tree =
     (case conf_next_tlv id_file flash off of
        Next_end off \<Rightarrow> (tree, off)
      | Next_pair off next name val \<Rightarrow>
          conf_load_new id_file flash next (conf_tree_add_tlv tree name off (tlv_type val = ATLV_DELETE)))"
  by pat_completeness auto
termination
  by (relation "measure (\<lambda>(id_file, flash, off, tree). length flash - off)") (auto dest!: next_tlv_bounds)

declare conf_load_new.simps [simp del]

section \<open>Searching the log\<close>

text \<open>
  \<open>conf_find_tlv\<close>: the last pair that matches a name, and the last factory pair that does, \<^term>\<open>None\<close> when there is
  none.  A deletion matches the names below its own, too; with \<^verbatim>\<open>CONF_FIND_PREFIX\<close> a value matches the
  names above it.
\<close>

abbreviation CONF_FIND_FACTORY :: u8 where "CONF_FIND_FACTORY \<equiv> 1"
abbreviation CONF_FIND_FIRST :: u8 where "CONF_FIND_FIRST \<equiv> 2"
abbreviation CONF_FIND_PREFIX :: u8 where "CONF_FIND_PREFIX \<equiv> 4"

definition tlv_matches :: "conf_tlv \<Rightarrow> u8 \<Rightarrow> conf_tlv \<Rightarrow> conf_tlv \<Rightarrow> bool" where
  "tlv_matches cmp type name val =
     (if tlv_len name > tlv_len cmp then
        \<not> (type AND CONF_FIND_PREFIX = 0 \<or> tlv_type val = ATLV_DELETE)
        \<and> take (unat (tlv_len cmp) - 1) (tlv_val name) = take (unat (tlv_len cmp) - 1) (tlv_val cmp)
      else
        \<not> (tlv_type val \<noteq> ATLV_DELETE \<and> tlv_len name \<noteq> tlv_len cmp)
        \<and> take (unat (tlv_len name) - 1) (tlv_val name) = take (unat (tlv_len name) - 1) (tlv_val cmp))"

function conf_find_tlv :: "bool \<Rightarrow> bytes \<Rightarrow> conf_tlv \<Rightarrow> u8 \<Rightarrow> nat \<Rightarrow> nat \<Rightarrow> nat option \<Rightarrow> nat option \<Rightarrow> nat option \<times> nat option" where
  "conf_find_tlv id_file flash cmp type off eoff soff fact_off =
     (if off \<ge> eoff then (soff, fact_off)
      else case conf_next_tlv id_file flash off of
        Next_end _ \<Rightarrow> (soff, fact_off)
      | Next_pair prev_off next name val \<Rightarrow>
          if \<not> tlv_matches cmp type name val
             \<or> (tlv_type name \<noteq> ATLV_CONF_FACTORY \<and> type AND CONF_FIND_FACTORY \<noteq> 0)
          then conf_find_tlv id_file flash cmp type next eoff soff fact_off
          else let fact_off = (if tlv_type name = ATLV_CONF_FACTORY then Some prev_off else fact_off)
               in if type AND CONF_FIND_FIRST \<noteq> 0 then (Some prev_off, fact_off)
                  else conf_find_tlv id_file flash cmp type next eoff (Some prev_off) fact_off)"
  by pat_completeness auto
termination
  by (relation "measure (\<lambda>(id_file, flash, cmp, type, off, eoff, soff, fact_off). length flash - off)") (auto dest!: next_tlv_bounds)

declare conf_find_tlv.simps [simp del]

section \<open>Changing a value\<close>

record conf_store =
  cs_flash :: bytes
  cs_off :: nat
  cs_tree :: "conf_node list"
  cs_error :: "conf_error option"

abbreviation (input) MAX_S32 :: nat where "MAX_S32 \<equiv> 0x7fffffff"

text \<open>The offset that stands for none.\<close>

definition conf_off :: "nat option \<Rightarrow> nat" where
  "conf_off off = (case off of None \<Rightarrow> 2 ^ 32 - 1 | Some off \<Rightarrow> off)"

definition conf_tlv_compare :: "bytes \<Rightarrow> nat \<Rightarrow> conf_tlv \<Rightarrow> bool" where
  "conf_tlv_compare flash off val =
     (let tlen = conf_tlv_len val
      in if tlen > CONF_VAL_MAX then False
         else case conf_flash_read flash off 2 of
           None \<Rightarrow> False
         | Some old \<Rightarrow>
             if cchar old 0 = tlv_type val \<and> cchar old 1 = tlv_len val then
               (if tlen = 0 then True
                else case conf_flash_read flash (off + 2) tlen of
                  None \<Rightarrow> False
                | Some p \<Rightarrow> p = take tlen (tlv_val val))
             else False)"

definition tlv_bytes :: "conf_tlv \<Rightarrow> bytes" where
  "tlv_bytes tlv = tlv_type tlv # tlv_len tlv # tlv_val tlv"

text \<open>
  \<open>conf_put_name_val\<close>: the value that the name has, in the index or, when there is none, in the log
  (the outer \<^term>\<open>None\<close> is a read behind the array of tokens); whether the value is the same; and the pair
  that is written, with the index kept up to date.
\<close>

definition conf_put_find :: "bool \<Rightarrow> nat list \<Rightarrow> nat \<Rightarrow> conf_tlv \<Rightarrow> bool \<Rightarrow> conf_store \<Rightarrow> (nat \<times> nat option) option option" where
  "conf_put_find id_file array plen name del st =
     (if cs_tree st \<noteq> [] \<and> \<not> id_file then
        map_option (map_option (\<lambda>node. (conf_off (cn_off node), cn_fact node))) (conf_tree_lookup (cs_tree st) array (int plen) del)
      else case conf_find_tlv id_file (cs_flash st) name (if del then CONF_FIND_PREFIX else 0) 0 MAX_S32 None None of
        (None, _) \<Rightarrow> Some None
      | (Some off, fact_off) \<Rightarrow> Some (Some (off, fact_off)))"

definition conf_put_same :: "bytes \<Rightarrow> bool \<Rightarrow> conf_tlv \<Rightarrow> (nat \<times> nat option) option \<Rightarrow> bool" where
  "conf_put_same flash fac val found =
     (case found of
        None \<Rightarrow> tlv_type val = ATLV_DELETE
      | Some (off, fact_off) \<Rightarrow>
          if fac then
            tlv_type val \<noteq> ATLV_DELETE
            \<and> (fact_off = None \<or> conf_tlv_compare flash (conf_off fact_off) val)
            \<and> (conf_off fact_off = off \<or> conf_tlv_compare flash off val)
          else conf_tlv_compare flash off val)"

definition put_blk :: "flash_prog \<Rightarrow> bytes \<Rightarrow> nat \<Rightarrow> bytes \<Rightarrow> bytes" where
  "put_blk prog flash off v = (case conf_flash_write_blk prog flash off v of None \<Rightarrow> flash | Some flash \<Rightarrow> flash)"

definition conf_put_write :: "flash_prog \<Rightarrow> conf_tlv \<Rightarrow> conf_tlv \<Rightarrow> conf_store \<Rightarrow> conf_store" where
  "conf_put_write prog name val st =
     (let tlen = conf_tlv_len val + 2;
          value = take tlen (tlv_bytes val);
          crc = crc8 value CRC8_INIT;
          flash = put_blk prog (cs_flash st) (cs_off st) value;
          off = cs_off st + tlen;
          namebuf = tlv_bytes name;
          namebuf = namebuf @ [crc8 namebuf crc];
          flash = put_blk prog flash off namebuf;
          off = off + length namebuf
      in st\<lparr>cs_flash := flash, cs_off := off\<rparr>)"

definition conf_name :: "bool \<Rightarrow> bytes \<Rightarrow> conf_tlv" where
  "conf_name fac utf8 =
     \<lparr>tlv_type = (if fac then ATLV_CONF_FACTORY else ATLV_CONF), tlv_len = word_of_nat (length utf8 + 1), tlv_val = utf8\<rparr>"

definition conf_put_name_val :: "flash_prog \<Rightarrow> bool \<Rightarrow> bool \<Rightarrow> bool \<Rightarrow> nat list \<Rightarrow> nat \<Rightarrow> conf_tlv \<Rightarrow> conf_store \<Rightarrow> conf_store option" where
  "conf_put_name_val prog id_file fac show_conf array plen val st =
     (case utf8_put_wchars (take plen array) of
        None \<Rightarrow> Some (st\<lparr>cs_error := Some CONF_ERR_UTF8\<rparr>)
      | Some utf8 \<Rightarrow>
          (let name = conf_name fac utf8; del = (tlv_type val = ATLV_DELETE)
           in case conf_put_find id_file array plen name del st of
                None \<Rightarrow> None
              | Some found \<Rightarrow>
                  if conf_put_same (cs_flash st) fac val found \<or> show_conf then Some st
                  else let tree = (if cs_tree st \<noteq> [] \<and> \<not> id_file
                                   then conf_tree_add_tlv (cs_tree st) name (cs_off st) del else cs_tree st)
                       in Some ((conf_put_write prog name val st)\<lparr>cs_tree := tree\<rparr>)))"

section \<open>Reading a value\<close>

text \<open>\<open>conf_item_find\<close> (the outer \<^term>\<open>None\<close> is a read behind the array of tokens) and \<open>conf_file_read\<close>.
  Without the index the tokens are copied as bytes to the name that is searched: a token has one byte, as small
  enumerations have in the calling convention of the processor.\<close>

definition conf_item_find :: "bool \<Rightarrow> nat list \<Rightarrow> nat \<Rightarrow> u8 \<Rightarrow> conf_store \<Rightarrow> (conf_tlv \<times> nat) option option" where
  "conf_item_find id_file tokens ntokens type st =
     (let found =
        (if cs_tree st \<noteq> [] then map_option (map_option (\<lambda>node. conf_off (cn_off node))) (conf_tree_lookup (cs_tree st) tokens (int ntokens) False)
         else Some (fst (conf_find_tlv id_file (cs_flash st)
           \<lparr>tlv_type = ATLV_CONF, tlv_len = word_of_nat (ntokens + 1), tlv_val = map word_of_nat (take ntokens tokens)\<rparr>
           0 0 MAX_S32 None None)))
      in case found of
           None \<Rightarrow> None
         | Some None \<Rightarrow> Some None
         | Some (Some soff) \<Rightarrow>
             (case conf_flash_read (cs_flash st) soff 2 of
                None \<Rightarrow> Some None
              | Some h \<Rightarrow>
                  (let tlv = \<lparr>tlv_type = cchar h 0, tlv_len = cchar h 1, tlv_val = []\<rparr>
                   in if type \<noteq> tlv_type tlv \<and> tlv_type tlv AND ATLV_FILE \<noteq> type then Some None
                      else Some (Some (tlv, soff)))))"

definition conf_file_read :: "bool \<Rightarrow> nat list \<Rightarrow> nat \<Rightarrow> u8 \<Rightarrow> nat \<Rightarrow> nat \<Rightarrow> conf_store \<Rightarrow> bytes option option" where
  "conf_file_read id_file tokens ntokens type offset len st =
     (case conf_item_find id_file tokens ntokens type st of
        None \<Rightarrow> None
      | Some None \<Rightarrow> Some None
      | Some (Some (tlv, file_off)) \<Rightarrow>
          (let data_len = conf_tlv_len tlv
           in if offset \<ge> data_len then Some None
              else let tlen = data_len - offset;
                       tlen = (if len < tlen then len else tlen)
                   in Some (conf_flash_read (cs_flash st) (file_off + 2 + offset) tlen)))"

end
