(* ===== verification/ConfStore.thy ===== *)
theory ConfStore
  imports ConfLog
begin

text \<open>
  The log of the configuration as a sequence of items, and what the functions of \<^verbatim>\<open>libayla/conf.c\<close> make of it:
  loading gives back what was written, also after a loss of power between the two writes of a pair, and a
  value that was put is read back while the others stay.
\<close>

section \<open>A log as a sequence of items\<close>

text \<open>A pair, or a value whose name was not written.\<close>

datatype log_item = Log_orphan conf_tlv | Log_pair bool "nat list" conf_tlv

definition tlv_wf :: "conf_tlv \<Rightarrow> bool" where
  "tlv_wf tlv \<longleftrightarrow> length (tlv_val tlv) = conf_tlv_len tlv \<and> tlv_type tlv \<noteq> ATLV_RESERVED"

definition val_ok :: "conf_tlv \<Rightarrow> bool" where
  "val_ok val \<longleftrightarrow> tlv_wf val \<and> tlv_type val \<noteq> ATLV_CONF \<and> tlv_type val \<noteq> ATLV_CONF_FACTORY"

definition path_ok :: "nat list \<Rightarrow> bool" where
  "path_ok path \<longleftrightarrow> path \<noteq> [] \<and> length path \<le> CONF_PATH_MAX \<and> (\<forall>t \<in> set path. t \<le> 0xff)"

definition path_name :: "bool \<Rightarrow> nat list \<Rightarrow> conf_tlv" where
  "path_name fac path = conf_name fac (the (utf8_put_wchars path))"

definition name_bytes :: "bool \<Rightarrow> nat list \<Rightarrow> conf_tlv \<Rightarrow> bytes" where
  "name_bytes fac path val =
     tlv_bytes (path_name fac path) @ [crc8 (tlv_bytes (path_name fac path)) (crc8 (tlv_bytes val) CRC8_INIT)]"

fun item_bytes :: "log_item \<Rightarrow> bytes" where
  "item_bytes (Log_orphan val) = tlv_bytes val"
| "item_bytes (Log_pair fac path val) = tlv_bytes val @ name_bytes fac path val"

fun item_ok :: "log_item \<Rightarrow> bool" where
  "item_ok (Log_orphan val) = val_ok val"
| "item_ok (Log_pair fac path val) = (val_ok val \<and> path_ok path)"

definition log_bytes :: "log_item list \<Rightarrow> bytes" where
  "log_bytes items = concat (map item_bytes items)"

lemma log_bytes_simps [simp]:
  "log_bytes [] = []" "log_bytes (i # is) = item_bytes i @ log_bytes is" "log_bytes (xs @ ys) = log_bytes xs @ log_bytes ys"
  by (simp_all add: log_bytes_def)

text \<open>The pairs of a log that starts at an offset.\<close>

fun log_pairs :: "nat \<Rightarrow> log_item list \<Rightarrow> conf_pair list" where
  "log_pairs off [] = []"
| "log_pairs off (Log_orphan val # items) = log_pairs (off + length (tlv_bytes val)) items"
| "log_pairs off (Log_pair fac path val # items) =
     \<lparr>cp_path = path, cp_off = off, cp_fact = fac, cp_del = (tlv_type val = ATLV_DELETE)\<rparr>
       # log_pairs (off + length (item_bytes (Log_pair fac path val))) items"

lemma log_pairs_append: "log_pairs off (xs @ ys) = log_pairs off xs @ log_pairs (off + length (log_bytes xs)) ys"
  by (induction off xs rule: log_pairs.induct) (simp_all add: add.assoc)

section \<open>Reading items\<close>

lemma crc8_append: "crc8 (xs @ ys) c = crc8 ys (crc8 xs c)"
  by (induction xs arbitrary: c) (simp_all add: Let_def)

lemma crc8_self: "crc8 (xs @ [crc8 xs c]) c = 0"
  by (simp add: crc8_append crc8_table_def)

text \<open>A file with a valid head; the last byte of it is 0.\<close>

definition head_valid :: "bytes \<Rightarrow> bool" where
  "head_valid flash \<longleftrightarrow> 16 \<le> length flash \<and> length flash < 2 ^ 31 \<and> cchar flash 0 = CONF_MAGIC \<and> cchar flash 15 = 0
    \<and> conf_flash_read_head flash 0 \<noteq> None"

lemma flash_read:
  assumes "head_valid flash" "16 + off + len \<le> length flash"
  shows "conf_flash_read flash off len = Some (take len (drop (16 + off) flash))"
  using assms by (auto simp: conf_flash_read_def head_valid_def conf_flash_raw_read_def split: option.split)

lemma tlv_data:
  assumes "head_valid flash" "16 + coff + len \<le> length flash"
  shows "\<exists>buf'. conf_tlv_data flash coff len room buf crc = Some (buf', coff + len, crc8 (take len (drop (16 + coff) flash)) crc)
    \<and> (buf = [] \<and> len \<le> Suc room \<longrightarrow> buf' = take len (drop (16 + coff) flash))"
  using assms
proof (induction flash coff len room buf crc rule: conf_tlv_data.induct)
  case (1 flash coff len room buf crc)
  show ?case
  proof (cases "len = 0")
    case True
    then show ?thesis by (simp add: conf_tlv_data.simps)
  next
    case False
    define n where "n = min len (Suc room)"
    have n: "n \<le> len" "16 + coff + n \<le> length flash" "n \<noteq> 0" using "1.prems" False by (auto simp: n_def)
    note rd = flash_read [OF "1.prems"(1) n(2)]
    obtain buf' where IH: "conf_tlv_data flash (coff + n) (len - n) room (take n (drop (16 + coff) flash) @ drop n buf)
          (crc8 (take n (drop (16 + coff) flash)) crc)
        = Some (buf', coff + n + (len - n), crc8 (take (len - n) (drop (16 + (coff + n)) flash)) (crc8 (take n (drop (16 + coff) flash)) crc))"
      using "1.IH" [OF False n_def rd "1.prems"(1)] n "1.prems"(2) by auto
    have "take n (drop (16 + coff) flash) @ take (len - n) (drop (16 + (coff + n)) flash) = take len (drop (16 + coff) flash)"
      using n(1) take_add [of n "len - n" "drop (16 + coff) flash"] by (simp add: ac_simps)
    then have *: "conf_tlv_data flash coff len room buf crc = Some (buf', coff + len, crc8 (take len (drop (16 + coff) flash)) crc)"
      using IH False rd n(1) by (subst conf_tlv_data.simps) (simp add: Let_def crc8_append [symmetric] flip: n_def)
    moreover have "buf' = take len (drop (16 + coff) flash)" if "buf = []" "len \<le> Suc room"
      using that IH by (simp add: n_def min_absorb1 conf_tlv_data.simps [of _ _ 0])
    ultimately show ?thesis by blast
  qed
qed

lemma drop_length: "drop n xs = ys @ zs \<Longrightarrow> ys \<noteq> [] \<Longrightarrow> n + length ys \<le> length xs"
  by (metis append_take_drop_id diff_is_0_eq drop_eq_Nil length_append length_drop le_add_diff_inverse nat_le_linear
      append_is_Nil_conv le_add1 add_le_cancel_left)

lemma tlv_read_item:
  assumes "head_valid flash" "drop (16 + off) flash = tlv_bytes tlv @ rest" "tlv_wf tlv"
  shows "\<exists>v. conf_tlv_read id_file flash off room crc
      = Some (tlv\<lparr>tlv_val := v\<rparr>, off + length (tlv_bytes tlv), crc8 (tlv_bytes tlv) crc)
    \<and> (length (tlv_val tlv) \<le> Suc room \<longrightarrow> v = tlv_val tlv)"
proof -
  let ?n = "length (tlv_val tlv)"
  have n: "16 + (off + 2) + ?n \<le> length flash"
    using drop_length [OF assms(2)] by (simp add: tlv_bytes_def)
  have h: "conf_flash_read flash off 2 = Some [tlv_type tlv, tlv_len tlv]"
    using flash_read [OF assms(1), of off 2] n assms(2) by (simp add: tlv_bytes_def numeral_2_eq_2)
  have "drop (16 + (off + 2)) flash = tlv_val tlv @ rest"
    using assms(2) drop_drop [of 2 "16 + off" flash] by (simp add: tlv_bytes_def ac_simps)
  then obtain v where v: "conf_tlv_data flash (off + 2) ?n room [] (crc8 [tlv_type tlv, tlv_len tlv] crc)
      = Some (v, off + 2 + ?n, crc8 (tlv_val tlv) (crc8 [tlv_type tlv, tlv_len tlv] crc))" "?n \<le> Suc room \<longrightarrow> v = tlv_val tlv"
    using tlv_data [OF assms(1) n, of room "[]" "crc8 [tlv_type tlv, tlv_len tlv] crc"] by auto
  have len: "conf_tlv_len \<lparr>tlv_type = tlv_type tlv, tlv_len = tlv_len tlv, tlv_val = []\<rparr> = ?n"
    using assms(3) by (simp add: tlv_wf_def conf_tlv_len_def)
  have "crc8 (tlv_val tlv) (crc8 [tlv_type tlv, tlv_len tlv] crc) = crc8 (tlv_bytes tlv) crc"
    using crc8_append [of "[tlv_type tlv, tlv_len tlv]" "tlv_val tlv"] by (simp add: tlv_bytes_def)
  then have "conf_tlv_read id_file flash off room crc
      = Some (tlv\<lparr>tlv_val := v\<rparr>, off + length (tlv_bytes tlv), crc8 (tlv_bytes tlv) crc)"
    using h v(1) len n assms(3) by (cases tlv) (simp add: conf_tlv_read_def tlv_wf_def tlv_bytes_def)
  then show ?thesis using v(2) by blast
qed

text \<open>Where the flash is erased, the log ends.\<close>

lemma tlv_read_end:
  assumes "head_valid flash" "conf_flash_erased (drop (16 + off) flash)"
  shows "conf_tlv_read False flash off room crc = None"
proof (cases "off + 2 + 16 > length flash")
  case False
  then have "conf_flash_read flash off 2 = Some (take 2 (drop (16 + off) flash))"
    using flash_read [OF assms(1), of off 2] by simp
  moreover have "cchar (take 2 (drop (16 + off) flash)) 0 = 0xff"
    using False assms(2) nth_mem [of 0 "drop (16 + off) flash"] by (auto simp: cchar_def conf_flash_erased_def simp del: nth_mem)
  ultimately show ?thesis by (simp add: conf_tlv_read_def)
qed (simp add: conf_tlv_read_def)

section \<open>Names\<close>

lemma encode_token_bound: "t \<le> 0xff \<Longrightarrow> length (the (utf8_encode 4 (word_of_nat t))) \<le> 2"
proof -
  have "\<forall>n \<in> set [0..<256]. length (the (utf8_put_wchar (word_of_nat n))) \<le> 2" by code_simp
  then show "t \<le> 0xff \<Longrightarrow> length (the (utf8_encode 4 (word_of_nat t))) \<le> 2"
    using put_wchar_all by fastforce
qed

lemma concat_bound: "\<forall>x \<in> set xs. length (f x) \<le> b \<Longrightarrow> length (concat (map f xs)) \<le> b * length xs"
  by (induction xs) auto

lemma name_facts:
  assumes "path_ok path"
  shows "utf8_put_wchars path = Some (tlv_val (path_name fac path))"
    and "length (tlv_val (path_name fac path)) \<le> 32"
    and "unat (tlv_len (path_name fac path)) = Suc (length (tlv_val (path_name fac path)))"
    and "tlv_type (path_name fac path) = (if fac then ATLV_CONF_FACTORY else ATLV_CONF)"
    and "conf_get_tokens CONF_PATH_MAX (tlv_val (path_name fac path)) = Some path"
proof -
  have t: "\<forall>t \<in> set path. t \<le> 0xff" "length path \<le> 16" using assms by (auto simp: path_ok_def)
  note put = put_tokens [OF t(1)]
  show "utf8_put_wchars path = Some (tlv_val (path_name fac path))" using put by (simp add: path_name_def conf_name_def)
  have "length (the (utf8_put_wchars path)) \<le> 2 * length path"
    unfolding put using concat_bound [of path "\<lambda>t. the (utf8_encode 4 (word_of_nat t))" 2] t(1) encode_token_bound by auto
  then show b: "length (tlv_val (path_name fac path)) \<le> 32" using t(2) by (simp add: path_name_def conf_name_def)
  show "unat (tlv_len (path_name fac path)) = Suc (length (tlv_val (path_name fac path)))"
    using b by (simp add: path_name_def conf_name_def unat_word_ariths unat_of_nat take_bit_eq_mod)
  show "tlv_type (path_name fac path) = (if fac then ATLV_CONF_FACTORY else ATLV_CONF)" by (simp add: path_name_def conf_name_def)
  show "conf_get_tokens CONF_PATH_MAX (tlv_val (path_name fac path)) = Some path"
    using tokens_roundtrip [of path 16] t by (simp add: path_name_def conf_name_def)
qed

lemma name_len: "path_ok path \<Longrightarrow> conf_tlv_len (path_name fac path) = Suc (length (tlv_val (path_name fac path)))"
  using name_facts(3,4) [of path fac] by (auto simp: conf_tlv_len_def)

text \<open>The name item of a pair, with its CRC.\<close>

definition name_item :: "bool \<Rightarrow> nat list \<Rightarrow> conf_tlv \<Rightarrow> conf_tlv" where
  "name_item fac path val =
     (path_name fac path)\<lparr>tlv_val := tlv_val (path_name fac path)
        @ [crc8 (tlv_bytes (path_name fac path)) (crc8 (tlv_bytes val) CRC8_INIT)]\<rparr>"

lemma name_item_bytes: "tlv_bytes (name_item fac path val) = name_bytes fac path val"
  by (simp add: name_item_def name_bytes_def tlv_bytes_def)

lemma name_item_facts:
  assumes "path_ok path"
  shows "tlv_wf (name_item fac path val)" "length (tlv_val (name_item fac path val)) \<le> 64"
    "name_tokens (name_item fac path val) = Some path"
    "tlv_type (name_item fac path val) = (if fac then ATLV_CONF_FACTORY else ATLV_CONF)"
proof -
  note n = name_facts [OF assms, of fac]
  have "conf_tlv_len (name_item fac path val) = conf_tlv_len (path_name fac path)"
    by (simp add: conf_tlv_len_def name_item_def)
  then show "tlv_wf (name_item fac path val)"
    using n(4) name_len [OF assms, of fac] by (auto simp: tlv_wf_def name_item_def)
  show "length (tlv_val (name_item fac path val)) \<le> 64" using n(2) by (simp add: name_item_def)
  show "name_tokens (name_item fac path val) = Some path" using n(3,5) by (simp add: name_tokens_def name_item_def)
  show "tlv_type (name_item fac path val) = (if fac then ATLV_CONF_FACTORY else ATLV_CONF)"
    using n(4) by (simp add: name_item_def)
qed

section \<open>Loading\<close>

lemma next_pair:
  assumes "head_valid flash" "drop (16 + off) flash = item_bytes (Log_pair fac path val) @ rest" "val_ok val" "path_ok path"
  shows "\<exists>v. conf_next_tlv id_file flash off
    = Next_pair off (off + length (item_bytes (Log_pair fac path val))) (name_item fac path val) (val\<lparr>tlv_val := v\<rparr>)"
proof -
  let ?name = "name_item fac path val" and ?off2 = "off + length (tlv_bytes val)"
  have val: "tlv_wf val" "tlv_type val \<noteq> ATLV_RESERVED" using assms(3) by (auto simp: val_ok_def tlv_wf_def)
  obtain v where r1: "conf_tlv_read id_file flash off 397 CRC8_INIT = Some (val\<lparr>tlv_val := v\<rparr>, ?off2, crc8 (tlv_bytes val) CRC8_INIT)"
    using tlv_read_item [OF assms(1) _ val(1), of off "name_bytes fac path val @ rest" id_file 397 CRC8_INIT] assms(2) by auto
  have "drop (16 + ?off2) flash = tlv_bytes ?name @ rest"
    using assms(2) drop_drop [of "length (tlv_bytes val)" "16 + off" flash] by (simp add: name_item_bytes ac_simps)
  from tlv_read_item [OF assms(1) this name_item_facts(1) [OF assms(4)], of id_file 63 "crc8 (tlv_bytes val) CRC8_INIT"]
  have r2: "conf_tlv_read id_file flash ?off2 63 (crc8 (tlv_bytes val) CRC8_INIT)
      = Some (?name, ?off2 + length (name_bytes fac path val), crc8 (name_bytes fac path val) (crc8 (tlv_bytes val) CRC8_INIT))"
    using name_item_facts(2) [OF assms(4), of fac val] by (auto simp: name_item_bytes)
  have crc: "crc8 (name_bytes fac path val) (crc8 (tlv_bytes val) CRC8_INIT) = 0"
    by (simp only: name_bytes_def crc8_self)
  have type: "tlv_type ?name = ATLV_CONF \<or> tlv_type ?name = ATLV_CONF_FACTORY"
    using name_item_facts(4) [OF assms(4)] by simp
  have "conf_next_tlv id_file flash off = Next_pair off (?off2 + length (name_bytes fac path val)) ?name (val\<lparr>tlv_val := v\<rparr>)"
    using r1 r2 crc type val(2) by (subst conf_next_tlv.simps) auto
  then show ?thesis by (auto simp: add.assoc)
qed

lemma next_end:
  assumes "head_valid flash" "conf_flash_erased (drop (16 + off) flash)"
  shows "conf_next_tlv False flash off = Next_end off"
  using tlv_read_end [OF assms] by (subst conf_next_tlv.simps) simp

text \<open>A value without a name is passed over.\<close>

lemma next_orphan_end:
  assumes "head_valid flash" "drop (16 + off) flash = tlv_bytes val @ rest" "conf_flash_erased rest" "val_ok val"
  shows "conf_next_tlv False flash off = Next_end (off + length (tlv_bytes val))"
proof -
  have val: "tlv_wf val" "tlv_type val \<noteq> ATLV_RESERVED" using assms(4) by (auto simp: val_ok_def tlv_wf_def)
  obtain v where r1: "conf_tlv_read False flash off 397 CRC8_INIT
      = Some (val\<lparr>tlv_val := v\<rparr>, off + length (tlv_bytes val), crc8 (tlv_bytes val) CRC8_INIT)"
    using tlv_read_item [OF assms(1,2) val(1)] by blast
  have "drop (16 + (off + length (tlv_bytes val))) flash = rest"
    using assms(2) drop_drop [of "length (tlv_bytes val)" "16 + off" flash] by (simp add: ac_simps)
  then have "conf_tlv_read False flash (off + length (tlv_bytes val)) 63 c = None" for c
    using tlv_read_end [OF assms(1)] assms(3) by simp
  then show ?thesis using r1 val(2) by (subst conf_next_tlv.simps) simp
qed

lemma next_orphan:
  assumes "head_valid flash" "drop (16 + off) flash = tlv_bytes val @ tlv_bytes val2 @ rest" "val_ok val" "val_ok val2"
  shows "conf_next_tlv False flash off = conf_next_tlv False flash (off + length (tlv_bytes val))"
proof -
  have val: "tlv_wf val" "tlv_type val \<noteq> ATLV_RESERVED" "tlv_wf val2" using assms(3,4) by (auto simp: val_ok_def tlv_wf_def)
  obtain v where r1: "conf_tlv_read False flash off 397 CRC8_INIT
      = Some (val\<lparr>tlv_val := v\<rparr>, off + length (tlv_bytes val), crc8 (tlv_bytes val) CRC8_INIT)"
    using tlv_read_item [OF assms(1,2) val(1)] by blast
  have "drop (16 + (off + length (tlv_bytes val))) flash = tlv_bytes val2 @ rest"
    using assms(2) drop_drop [of "length (tlv_bytes val)" "16 + off" flash] by (simp add: ac_simps)
  from tlv_read_item [OF assms(1) this val(3)] obtain v2 c where
    "conf_tlv_read False flash (off + length (tlv_bytes val)) 63 (crc8 (tlv_bytes val) CRC8_INIT)
      = Some (val2\<lparr>tlv_val := v2\<rparr>, off + length (tlv_bytes val) + length (tlv_bytes val2), c)" by blast
  then show ?thesis using r1 val(2) assms(4) by (subst conf_next_tlv.simps) (simp add: val_ok_def)
qed

definition add_pairs :: "conf_pair list \<Rightarrow> conf_node list \<Rightarrow> conf_node list" where
  "add_pairs pairs tree = foldl (\<lambda>tree c. conf_tree_add (cp_path c) (cp_off c) (cp_fact c) (cp_del c) tree) tree pairs"

lemma item_value: "item_ok i \<Longrightarrow> \<exists>val2 rest. item_bytes i = tlv_bytes val2 @ rest \<and> val_ok val2"
  by (cases i) auto

lemma load_items:
  assumes "head_valid flash" "drop (16 + off) flash = log_bytes items @ rest" "conf_flash_erased rest" "\<forall>i \<in> set items. item_ok i"
  shows "conf_load_new False flash off tree = (add_pairs (log_pairs off items) tree, off + length (log_bytes items))"
  using assms(2,4)
proof (induction items arbitrary: off tree)
  case Nil
  then show ?case using next_end [OF assms(1)] assms(3) by (subst conf_load_new.simps) (simp add: add_pairs_def)
next
  case (Cons i items)
  have next_log: "drop (16 + (off + length (item_bytes i))) flash = log_bytes items @ rest"
    using Cons.prems(1) drop_drop [of "length (item_bytes i)" "16 + off" flash] by (simp add: ac_simps)
  have ok: "item_ok i" "\<forall>i \<in> set items. item_ok i" using Cons.prems(2) by simp_all
  note IH = Cons.IH [OF next_log ok(2)]
  show ?case
  proof (cases i)
    case (Log_pair fac path val)
    with ok(1) have ok': "val_ok val" "path_ok path" by simp_all
    obtain v where n: "conf_next_tlv False flash off
        = Next_pair off (off + length (item_bytes i)) (name_item fac path val) (val\<lparr>tlv_val := v\<rparr>)"
      using next_pair [OF assms(1) _ ok', of off fac "log_bytes items @ rest" False] Cons.prems(1) Log_pair by auto
    have "conf_tree_add_tlv tree (name_item fac path val) off del = conf_tree_add path off fac del tree" for tree del
      using name_item_facts(3,4) [OF ok'(2)] by (simp add: conf_tree_add_tlv_def)
    then show ?thesis using n IH Log_pair by (subst conf_load_new.simps) (simp add: add_pairs_def add.assoc)
  next
    case (Log_orphan val)
    with ok(1) have ok': "val_ok val" by simp
    show ?thesis
    proof (cases items)
      case Nil
      then show ?thesis using next_orphan_end [OF assms(1) _ assms(3) ok', of off] Cons.prems(1) Log_orphan
        by (subst conf_load_new.simps) (simp add: add_pairs_def)
    next
      case (Cons j js)
      obtain val2 rest2 where j: "item_bytes j = tlv_bytes val2 @ rest2" "val_ok val2"
        using item_value [of j] ok(2) Cons by auto
      have "conf_next_tlv False flash off = conf_next_tlv False flash (off + length (tlv_bytes val))"
        using next_orphan [OF assms(1) _ ok' j(2), of off "rest2 @ log_bytes js @ rest"] Cons.prems(1) Log_orphan Cons j(1) by simp
      then have "conf_load_new False flash off tree = conf_load_new False flash (off + length (tlv_bytes val)) tree"
        by (simp add: conf_load_new.simps [of False flash off] conf_load_new.simps [of False flash "off + length (tlv_bytes val)"])
      then show ?thesis using IH Log_orphan by (simp add: add.assoc)
    qed
  qed
qed

section \<open>The values of a log\<close>

definition put_value :: "nat list \<Rightarrow> conf_tlv \<Rightarrow> (nat list \<Rightarrow> conf_tlv option) \<Rightarrow> nat list \<Rightarrow> conf_tlv option" where
  "put_value path val m q =
     (if tlv_type val = ATLV_DELETE then (if prefix path q then None else m q)
      else if q = path then Some val else m q)"

fun item_map :: "log_item \<Rightarrow> (nat list \<Rightarrow> conf_tlv option) \<Rightarrow> nat list \<Rightarrow> conf_tlv option" where
  "item_map (Log_orphan val) m = m"
| "item_map (Log_pair fac path val) m = put_value path val m"

definition log_map :: "log_item list \<Rightarrow> nat list \<Rightarrow> conf_tlv option" where
  "log_map items = foldl (\<lambda>m i. item_map i m) (\<lambda>q. None) items"

lemma log_map_simps [simp]:
  "log_map [] = (\<lambda>q. None)" "log_map (items @ [i]) = item_map i (log_map items)"
  by (simp_all add: log_map_def)

text \<open>A value at an offset of a log.\<close>

definition value_at :: "log_item list \<Rightarrow> nat \<Rightarrow> conf_tlv \<Rightarrow> bool" where
  "value_at items off val \<longleftrightarrow> (\<exists>rest. drop off (log_bytes items) = tlv_bytes val @ rest) \<and> val_ok val"

lemma value_at_append: "value_at items off val \<Longrightarrow> value_at (items @ js) off val"
proof -
  assume at: "value_at items off val"
  then obtain rest where r: "drop off (log_bytes items) = tlv_bytes val @ rest" by (auto simp: value_at_def)
  then have "off \<le> length (log_bytes items)" using drop_length [OF r] by (simp add: tlv_bytes_def)
  then show ?thesis using at r by (simp add: value_at_def)
qed

lemma value_at_end: "val_ok val \<Longrightarrow> value_at (items @ [Log_pair fac path val]) (length (log_bytes items)) val"
  by (simp add: value_at_def)

lemma values_map:
  assumes "\<forall>i \<in> set items. item_ok i"
  shows "case conf_values (log_pairs 0 items) q of
      None \<Rightarrow> log_map items q = None
    | Some (off, fo) \<Rightarrow> \<exists>val. log_map items q = Some val \<and> tlv_type val \<noteq> ATLV_DELETE \<and> value_at items off val"
  using assms
proof (induction items rule: rev_induct)
  case Nil
  then show ?case by (simp add: conf_values_def)
next
  case (snoc i items)
  then have IH: "case conf_values (log_pairs 0 items) q of
      None \<Rightarrow> log_map items q = None
    | Some (off, fo) \<Rightarrow> \<exists>val. log_map items q = Some val \<and> tlv_type val \<noteq> ATLV_DELETE \<and> value_at (items @ [i]) off val"
    using value_at_append by (fastforce split: option.splits)
  show ?case
  proof (cases i)
    case (Log_orphan val)
    then show ?thesis using IH by (auto simp: log_pairs_append split: option.splits)
  next
    case (Log_pair fac path val)
    then have "value_at (items @ [i]) (length (log_bytes items)) val" using value_at_end snoc.prems by simp
    then show ?thesis
      using IH Log_pair by (auto simp: log_pairs_append conf_values_snoc map_add_value_def put_value_def split: option.splits)
  qed
qed

section \<open>Searching the log\<close>

lemma token_shape:
  assumes "t \<le> 0xff"
  shows "\<exists>b bs. the (utf8_put_wchar (word_of_nat t)) = b # bs \<and> length bs = (if b < 0x80 then 0 else 1)"
proof -
  have "\<forall>n \<in> set [0..<256]. (case the (utf8_put_wchar (word_of_nat n)) of [] \<Rightarrow> False
      | b # bs \<Rightarrow> length bs = (if b < 0x80 then 0 else 1))" by code_simp
  then have "case the (utf8_put_wchar (word_of_nat t)) of [] \<Rightarrow> False | b # bs \<Rightarrow> length bs = (if b < 0x80 then 0 else 1)"
    by (rule bspec) (use assms in simp)
  then show ?thesis by (cases "the (utf8_put_wchar (word_of_nat t))") simp_all
qed

definition name_of :: "nat list \<Rightarrow> bytes" where
  "name_of path = concat (map (\<lambda>t. the (utf8_put_wchar (word_of_nat t))) path)"

lemma name_of_simps [simp]: "name_of [] = []" "name_of (t # ts) = the (utf8_put_wchar (word_of_nat t)) @ name_of ts"
  by (simp_all add: name_of_def)

lemma name_of_put: "\<forall>t \<in> set path. t \<le> 0xff \<Longrightarrow> utf8_put_wchars path = Some (name_of path)"
  by (induction path) (simp_all add: put_token)

lemma token_inj:
  assumes "t \<le> 0xff" "u \<le> 0xff" "the (utf8_put_wchar (word_of_nat t)) = the (utf8_put_wchar (word_of_nat u))"
  shows "t = u"
  using tokens_roundtrip [of "[t]" 16] tokens_roundtrip [of "[u]" 16] assms name_of_put [of "[t]"] name_of_put [of "[u]"] by simp

text \<open>No encoding of a token begins another one, so that prefixes of names are prefixes of paths.\<close>

lemma name_prefix:
  "\<forall>t \<in> set p. t \<le> 0xff \<Longrightarrow> \<forall>t \<in> set q. t \<le> 0xff \<Longrightarrow> prefix (name_of p) (name_of q) \<longleftrightarrow> prefix p q"
proof (induction p arbitrary: q)
  case (Cons t p)
  obtain b bs where t: "the (utf8_put_wchar (word_of_nat t)) = b # bs" "length bs = (if b < 0x80 then 0 else 1)"
    using token_shape [of t] Cons.prems(1) by auto
  show ?case
  proof (cases q)
    case q: (Cons u q')
    obtain c cs where u: "the (utf8_put_wchar (word_of_nat u)) = c # cs" "length cs = (if c < 0x80 then 0 else 1)"
      using token_shape [of u] Cons.prems(2) q by auto
    show ?thesis
    proof
      assume "prefix (name_of (t # p)) (name_of q)"
      then obtain z where "b # bs @ name_of p @ z = c # cs @ name_of q'" using t(1) u(1) q by (auto simp: prefix_def)
      then have "b # bs = c # cs" "name_of p @ z = name_of q'" using t(2) u(2) by auto
      then have "t = u" "prefix (name_of p) (name_of q')"
        using token_inj [of t u] t(1) u(1) Cons.prems q by (auto simp: prefix_def) metis
      then show "prefix (t # p) q" using Cons q by simp
    next
      assume "prefix (t # p) q"
      then show "prefix (name_of (t # p)) (name_of q)" using q by (auto simp: prefix_def name_of_def)
    qed
  qed (use t in simp)
qed simp

text \<open>The entries of a log that the search compares, and its result as a fold.\<close>

fun log_entries :: "nat \<Rightarrow> log_item list \<Rightarrow> (nat \<times> bool \<times> nat list \<times> conf_tlv) list" where
  "log_entries off [] = []"
| "log_entries off (Log_orphan val # items) = log_entries (off + length (tlv_bytes val)) items"
| "log_entries off (Log_pair fac path val # items) =
     (off, fac, path, val) # log_entries (off + length (item_bytes (Log_pair fac path val))) items"

lemma log_entries_append: "log_entries off (xs @ ys) = log_entries off xs @ log_entries (off + length (log_bytes xs)) ys"
  by (induction off xs rule: log_entries.induct) (simp_all add: add.assoc)

definition path_matches :: "u8 \<Rightarrow> nat list \<Rightarrow> nat list \<Rightarrow> conf_tlv \<Rightarrow> bool" where
  "path_matches type path p val \<longleftrightarrow>
     (if tlv_type val = ATLV_DELETE then prefix p path else p = path \<or> type = CONF_FIND_PREFIX \<and> prefix path p)"

definition find_step :: "u8 \<Rightarrow> nat list \<Rightarrow> nat option \<times> nat option \<Rightarrow> nat \<times> bool \<times> nat list \<times> conf_tlv \<Rightarrow> nat option \<times> nat option" where
  "find_step type path sf e =
     (case e of (off, fac, p, val) \<Rightarrow>
        if path_matches type path p val then (Some off, if fac then Some off else snd sf) else sf)"

lemma find_step_simp [simp]:
  "find_step type path sf (off, fac, p, val)
     = (if path_matches type path p val then (Some off, if fac then Some off else snd sf) else sf)"
  by (simp add: find_step_def)

lemma path_matches_simps [simp]:
  "tlv_type val = ATLV_DELETE \<Longrightarrow> path_matches type path p val \<longleftrightarrow> prefix p path"
  "tlv_type val \<noteq> ATLV_DELETE \<Longrightarrow> path_matches 0 path p val \<longleftrightarrow> p = path"
  "tlv_type val \<noteq> ATLV_DELETE \<Longrightarrow> path_matches CONF_FIND_PREFIX path p val \<longleftrightarrow> prefix path p"
  by (auto simp: path_matches_def)

lemma prefix_take: "prefix xs ys \<longleftrightarrow> take (length xs) ys = xs"
  by (metis append_eq_conv_conj prefix_def take_is_prefix)

lemma name_of_path: "path_ok path \<Longrightarrow> tlv_val (path_name fac path) = name_of path"
  using name_of_put [of path] by (simp add: path_name_def conf_name_def path_ok_def)

lemma name_of_eq:
  assumes "path_ok p" "path_ok q" "length (name_of p) = length (name_of q)"
  shows "prefix p q \<longleftrightarrow> p = q"
proof
  assume "prefix p q"
  then have "prefix (name_of p) (name_of q)" using name_prefix [of p q] assms(1,2) by (simp add: path_ok_def)
  then have "name_of p = name_of q" using assms(3) by (auto simp: prefix_def)
  then have "prefix (name_of q) (name_of p)" by simp
  then have "prefix q p" using name_prefix [of q p] assms(1,2) by (simp add: path_ok_def)
  then show "p = q" using \<open>prefix p q\<close> by (rule prefix_order.antisym [rotated])
qed simp

lemma matches_path:
  assumes ok: "path_ok p" "path_ok path" and type: "type \<in> {0, CONF_FIND_PREFIX}"
  shows "tlv_matches (path_name g path) type (name_item fac p val0) (val\<lparr>tlv_val := v\<rparr>) \<longleftrightarrow> path_matches type path p val"
proof -
  let ?np = "name_of p" and ?nq = "name_of path"
  have len: "unat (tlv_len (path_name g path)) = Suc (length ?nq)" "unat (tlv_len (name_item fac p val0)) = Suc (length ?np)"
    using name_facts(3) [OF ok(2), of g] name_facts(3) [OF ok(1), of fac] ok by (simp_all add: name_item_def name_of_path)
  have less: "tlv_len (path_name g path) < tlv_len (name_item fac p val0) \<longleftrightarrow> length ?nq < length ?np"
    unfolding word_less_nat_alt len by simp
  have eq: "tlv_len (path_name g path) = tlv_len (name_item fac p val0) \<longleftrightarrow> length ?nq = length ?np"
    unfolding word_unat_eq_iff len by simp
  have vals: "tlv_val (path_name g path) = ?nq" "\<exists>c. tlv_val (name_item fac p val0) = ?np @ [c]"
    using ok by (simp_all add: name_item_def name_of_path)
  then obtain c where c: "tlv_val (name_item fac p val0) = ?np @ [c]" by blast
  have pre: "prefix (name_of x) (name_of y) \<longleftrightarrow> prefix x y" if "path_ok x" "path_ok y" for x y
    using that by (intro name_prefix) (simp_all add: path_ok_def)
  have short: "prefix x y \<Longrightarrow> length (name_of x) \<le> length (name_of y)" if "path_ok x" "path_ok y" for x y
    using pre [OF that] prefix_length_le by blast
  have and4: "type AND CONF_FIND_PREFIX = 0 \<longleftrightarrow> type \<noteq> CONF_FIND_PREFIX" using type by auto
  show ?thesis
  proof (cases "length ?nq < length ?np")
    case True
    have "take (length ?nq) (?np @ [c]) = ?nq \<longleftrightarrow> prefix path p"
      using True pre [OF ok(2,1)] by (simp add: prefix_take)
    moreover have "\<not> prefix p path" "p \<noteq> path" using short [OF ok] True by auto
    ultimately show ?thesis
      using True less vals(1) c len by (auto simp: tlv_matches_def path_matches_def and4)
  next
    case False
    have "tlv_matches (path_name g path) type (name_item fac p val0) (val\<lparr>tlv_val := v\<rparr>)
        \<longleftrightarrow> (tlv_type val = ATLV_DELETE \<or> length ?np = length ?nq) \<and> take (length ?np) ?nq = ?np"
      using False less eq by (simp add: tlv_matches_def vals(1) c len) argo
    also have "take (length ?np) ?nq = ?np \<longleftrightarrow> prefix p path" using pre [OF ok] by (simp add: prefix_take)
    finally have code: "tlv_matches (path_name g path) type (name_item fac p val0) (val\<lparr>tlv_val := v\<rparr>)
        \<longleftrightarrow> (tlv_type val = ATLV_DELETE \<or> length ?np = length ?nq) \<and> prefix p path" .
    have same: "length ?np = length ?nq \<and> prefix p path \<longleftrightarrow> p = path" using name_of_eq [OF ok] by blast
    have "p = path" if "prefix path p"
      using that short [OF ok(2,1) that] False name_of_eq [OF ok(2,1)] by (simp add: not_less le_antisym)
    then have "path_matches type path p val \<longleftrightarrow> (if tlv_type val = ATLV_DELETE then prefix p path else p = path)"
      by (auto simp: path_matches_def)
    then show ?thesis unfolding code using same by argo
  qed
qed

lemma next_item:
  assumes "head_valid flash" "drop (16 + off) flash = log_bytes (Log_orphan val # items) @ rest" "conf_flash_erased rest"
    "\<forall>i \<in> set (Log_orphan val # items). item_ok i"
  shows "conf_next_tlv False flash off = (if items = [] then Next_end (off + length (tlv_bytes val))
    else conf_next_tlv False flash (off + length (tlv_bytes val)))"
proof (cases items)
  case Nil
  then show ?thesis using next_orphan_end [OF assms(1) _ assms(3), of off val] assms(2,4) by simp
next
  case (Cons j js)
  obtain val2 rest2 where j: "item_bytes j = tlv_bytes val2 @ rest2" "val_ok val2"
    using item_value [of j] assms(4) Cons by auto
  then show ?thesis
    using next_orphan [OF assms(1) _ _ j(2), of off val "rest2 @ log_bytes js @ rest"] assms(2,4) Cons by simp
qed

lemma find_items:
  assumes head: "head_valid flash" and path: "path_ok path" and type: "type \<in> {0, CONF_FIND_PREFIX}"
    and log: "drop (16 + off) flash = log_bytes items @ rest" "conf_flash_erased rest" "\<forall>i \<in> set items. item_ok i"
  shows "conf_find_tlv False flash (path_name g path) type off MAX_S32 s f = foldl (find_step type path) (s, f) (log_entries off items)"
  using log(1,3)
proof (induction items arbitrary: off s f)
  case Nil
  then show ?case using next_end [OF head] log(2) by (subst conf_find_tlv.simps) simp
next
  case (Cons i items)
  have next_log: "drop (16 + (off + length (item_bytes i))) flash = log_bytes items @ rest"
    using Cons.prems(1) drop_drop [of "length (item_bytes i)" "16 + off" flash] by (simp add: ac_simps)
  have ok: "item_ok i" "\<forall>i \<in> set items. item_ok i" using Cons.prems(2) by simp_all
  note IH = Cons.IH [OF next_log ok(2)]
  have "item_bytes i \<noteq> []" by (cases i) (simp_all add: tlv_bytes_def)
  then have room: "off < MAX_S32"
    using drop_length [OF Cons.prems(1) [unfolded log_bytes_simps append_assoc]] head by (auto simp: head_valid_def)
  show ?case
  proof (cases i)
    case (Log_pair fac p val)
    with ok(1) have ok': "val_ok val" "path_ok p" by simp_all
    obtain v where n: "conf_next_tlv False flash off
        = Next_pair off (off + length (item_bytes i)) (name_item fac p val) (val\<lparr>tlv_val := v\<rparr>)"
      using next_pair [OF head _ ok', of off fac "log_bytes items @ rest" False] Cons.prems(1) Log_pair by auto
    have "type AND CONF_FIND_FACTORY = 0" "type AND CONF_FIND_FIRST = 0" using type by auto
    then show ?thesis
      using room n IH matches_path [OF ok'(2) path type, of g fac val v val] name_item_facts(4) [OF ok'(2), of fac val] Log_pair
      by (subst conf_find_tlv.simps) simp
  next
    case (Log_orphan val)
    note nx = next_item [OF head _ log(2), of off val items]
    show ?thesis
    proof (cases "items = []")
      case True
      then show ?thesis using room nx Cons.prems Log_orphan by (subst conf_find_tlv.simps) simp
    next
      case False
      then obtain j js where j: "items = j # js" by (cases items) auto
      have "item_bytes j \<noteq> []" by (cases j) (simp_all add: tlv_bytes_def)
      then have "off + length (item_bytes i) < MAX_S32"
        using drop_length [OF next_log [unfolded j log_bytes_simps append_assoc]] head by (auto simp: head_valid_def)
      then have "conf_find_tlv False flash (path_name g path) type off MAX_S32 s f
          = conf_find_tlv False flash (path_name g path) type (off + length (tlv_bytes val)) MAX_S32 s f"
        using room nx Cons.prems Log_orphan False
        by (simp add: conf_find_tlv.simps [of False flash _ _ off] conf_find_tlv.simps [of False flash _ _ "off + length (tlv_bytes val)"])
      then show ?thesis using IH Log_orphan by simp
    qed
  qed
qed

text \<open>What the search finds is the value of the name, or a deletion after which there is none.\<close>

lemma find_value:
  assumes "\<forall>i \<in> set items. item_ok i"
  shows "case foldl (find_step 0 path) (None, None) (log_entries 0 items) of
      (None, f) \<Rightarrow> log_map items path = None
    | (Some off, f) \<Rightarrow> \<exists>val. value_at items off val
        \<and> log_map items path = (if tlv_type val = ATLV_DELETE then None else Some val)"
  using assms
proof (induction items rule: rev_induct)
  case (snoc i items)
  let ?r = "foldl (find_step 0 path) (None, None) (log_entries 0 items)"
  have IH: "case ?r of (None, f) \<Rightarrow> log_map items path = None
    | (Some off, f) \<Rightarrow> \<exists>val. value_at (items @ [i]) off val
        \<and> log_map items path = (if tlv_type val = ATLV_DELETE then None else Some val)"
    using snoc value_at_append by (fastforce split: option.splits prod.splits)
  show ?case
  proof (cases i)
    case (Log_orphan val)
    then show ?thesis using IH by (auto simp: log_entries_append split: option.splits prod.splits)
  next
    case (Log_pair fac p val)
    then have at: "value_at (items @ [i]) (length (log_bytes items)) val" using value_at_end snoc.prems by simp
    obtain so f where r: "?r = (so, f)" by (cases ?r)
    show ?thesis
      using IH at Log_pair unfolding r
      by (cases "tlv_type val = ATLV_DELETE"; cases so) (auto simp: log_entries_append put_value_def r)
  qed
qed simp

lemma find_below:
  assumes "\<forall>i \<in> set items. item_ok i"
  shows "case foldl (find_step CONF_FIND_PREFIX path) (None, None) (log_entries 0 items) of
      (None, f) \<Rightarrow> \<forall>q. prefix path q \<longrightarrow> log_map items q = None
    | (Some off, f) \<Rightarrow> \<exists>val. value_at items off val
        \<and> (tlv_type val = ATLV_DELETE \<longrightarrow> (\<forall>q. prefix path q \<longrightarrow> log_map items q = None))"
  using assms
proof (induction items rule: rev_induct)
  case (snoc i items)
  let ?r = "foldl (find_step CONF_FIND_PREFIX path) (None, None) (log_entries 0 items)"
  have IH: "case ?r of (None, f) \<Rightarrow> \<forall>q. prefix path q \<longrightarrow> log_map items q = None
    | (Some off, f) \<Rightarrow> \<exists>val. value_at (items @ [i]) off val
        \<and> (tlv_type val = ATLV_DELETE \<longrightarrow> (\<forall>q. prefix path q \<longrightarrow> log_map items q = None))"
    using snoc value_at_append by (fastforce split: option.splits prod.splits)
  show ?case
  proof (cases i)
    case (Log_orphan val)
    then show ?thesis using IH by (auto simp: log_entries_append split: option.splits prod.splits)
  next
    case (Log_pair fac p val)
    then have at: "value_at (items @ [i]) (length (log_bytes items)) val" using value_at_end snoc.prems by simp
    have put: "log_map (items @ [i]) q = None"
      if "\<forall>q. prefix path q \<longrightarrow> log_map items q = None" "prefix path q" "\<not> path_matches CONF_FIND_PREFIX path p val" for q
      using that Log_pair by (cases "tlv_type val = ATLV_DELETE") (auto simp: put_value_def)
    have del: "log_map (items @ [i]) q = None" if "tlv_type val = ATLV_DELETE" "prefix p path" "prefix path q" for q
      using that Log_pair prefix_order.trans by (auto simp: put_value_def)
    show ?thesis
    proof (cases "path_matches CONF_FIND_PREFIX path p val")
      case True
      then show ?thesis using at del Log_pair
        by (cases "tlv_type val = ATLV_DELETE") (auto simp: log_entries_append simp del: log_map_simps)
    next
      case False
      then show ?thesis
        using IH put Log_pair by (auto simp: log_entries_append simp del: log_map_simps split: option.splits prod.splits)
    qed
  qed
qed simp

end
