(* ===== verification/ConfKeep.thy ===== *)
theory ConfKeep
  imports ConfStore
begin

text \<open>
  The configuration as a store of values: runs of the functions of \<^verbatim>\<open>libayla/conf.c\<close> that put, delete and load
  values, with a loss of power between the two writes of a pair, refine a map from names to values.
\<close>

section \<open>Writing\<close>

text \<open>What the flash does with an erased byte.\<close>

definition prog_ok :: "flash_prog \<Rightarrow> bool" where
  "prog_ok prog \<longleftrightarrow> (\<forall>b. prog 0xff b = b)"

lemma map2_erased: "prog_ok prog \<Longrightarrow> conf_flash_erased xs \<Longrightarrow> length v \<le> length xs \<Longrightarrow> map2 prog xs v = v"
proof (induction xs arbitrary: v)
  case (Cons x xs)
  then show ?case by (cases v) (auto simp: prog_ok_def conf_flash_erased_def)
qed simp

lemma erased_drop: "conf_flash_erased xs \<Longrightarrow> conf_flash_erased (drop n xs)"
  by (auto simp: conf_flash_erased_def dest: in_set_dropD)

text \<open>A log in the flash, with erased bytes behind it.\<close>

definition flash_log :: "bytes \<Rightarrow> log_item list \<Rightarrow> bool" where
  "flash_log flash items \<longleftrightarrow> head_valid flash \<and> (\<forall>i \<in> set items. item_ok i)
     \<and> (\<exists>rest. drop 16 flash = log_bytes items @ rest \<and> conf_flash_erased rest)"

lemma read_head:
  assumes "16 \<le> length flash" "length flash < 2 ^ 31" "cchar flash 0 = CONF_MAGIC"
  shows "conf_flash_read_head flash 0 =
    (let head = take 16 flash in if cchar head 1 \<noteq> CONF_VERSION \<or> head_len head < head_data_len head + 16 then None else Some head)"
proof -
  have "cchar (take 16 flash) 0 = CONF_MAGIC" using assms by (simp add: cchar_def split: if_splits)
  then show ?thesis using assms by (simp add: conf_flash_read_head_def conf_flash_raw_read_def)
qed

lemma head_valid_cong:
  assumes "head_valid flash" "length flash' = length flash" "take 16 flash' = take 16 flash"
  shows "head_valid flash'"
proof -
  have n: "cchar flash' i = cchar flash i" if "i < 16" for i
    using that assms nth_take [of i 16 flash] nth_take [of i 16 flash'] by (simp add: cchar_def)
  have "conf_flash_read_head flash' 0 \<noteq> None"
    using assms n [of 0] read_head [of flash] read_head [of flash'] by (simp add: head_valid_def)
  then show ?thesis using assms n [of 0] n [of 15] by (simp add: head_valid_def)
qed

lemma flash_append:
  assumes "flash_log flash items" "prog_ok prog" "16 + length (log_bytes items) + length v \<le> length flash"
  shows "length (put_blk prog flash (length (log_bytes items)) v) = length flash
    \<and> head_valid (put_blk prog flash (length (log_bytes items)) v)
    \<and> (\<exists>rest. drop 16 (put_blk prog flash (length (log_bytes items)) v) = log_bytes items @ v @ rest \<and> conf_flash_erased rest)"
proof -
  let ?n = "length (log_bytes items)"
  obtain rest where r: "drop 16 flash = log_bytes items @ rest" "conf_flash_erased rest"
    using assms(1) by (auto simp: flash_log_def)
  have n: "?n + 16 + length v \<le> length flash" "?n + length v \<le> length flash" "16 \<le> length flash" using assms(3) by linarith+
  have rest: "rest = drop (?n + 16) flash"
    using r(1) drop_drop [of ?n 16 flash] by simp
  have "length v \<le> length rest" using n rest by simp
  then have v: "map2 prog (drop (?n + 16) flash) v = v" using map2_erased [OF assms(2) r(2)] rest by simp
  have put: "put_blk prog flash ?n v = take (?n + 16) flash @ v @ drop (?n + 16 + length v) flash"
    using n v by (simp add: put_blk_def conf_flash_write_blk_def conf_flash_raw_write_def)
  have len: "length (put_blk prog flash ?n v) = length flash" unfolding put using n by simp
  have "take 16 (put_blk prog flash ?n v) = take 16 flash" unfolding put using n by simp
  then have "head_valid (put_blk prog flash ?n v)"
    using head_valid_cong [OF _ len] assms(1) by (simp add: flash_log_def)
  moreover have "drop 16 (take (?n + 16) flash) = log_bytes items"
    using r(1) take_drop [of ?n 16 flash] by (simp add: add.commute)
  then have "drop 16 (put_blk prog flash ?n v) = log_bytes items @ v @ drop (?n + 16 + length v) flash"
    unfolding put using n by simp
  moreover have "drop (?n + 16 + length v) flash = drop (length v) rest" unfolding rest by (simp add: ac_simps)
  ultimately show ?thesis using len erased_drop [OF r(2)] by (metis (no_types))
qed

lemma flash_log_append:
  assumes "flash_log flash items" "prog_ok prog" "item_ok i" "16 + length (log_bytes items) + length (item_bytes i) \<le> length flash"
  shows "flash_log (put_blk prog flash (length (log_bytes items)) (item_bytes i)) (items @ [i])"
  using flash_append [OF assms(1,2,4)] assms(1,3) by (auto simp: flash_log_def)

text \<open>The two writes of a pair are one.\<close>

lemma flash_log_pair:
  assumes "flash_log flash items" "prog_ok prog" "val_ok val" "path_ok path"
    and "16 + length (log_bytes items) + length (item_bytes (Log_pair fac path val)) \<le> length flash"
  shows "flash_log (put_blk prog (put_blk prog flash (length (log_bytes items)) (tlv_bytes val))
      (length (log_bytes items) + length (tlv_bytes val)) (name_bytes fac path val)) (items @ [Log_pair fac path val])"
proof -
  let ?o = "Log_orphan val" and ?f = "put_blk prog flash (length (log_bytes items)) (tlv_bytes val)"
  have log: "flash_log ?f (items @ [?o])" "length ?f = length flash"
    using flash_log_append [OF assms(1,2), of ?o] flash_append [OF assms(1,2), of "tlv_bytes val"] assms(3,5) by simp_all
  have "length (log_bytes (items @ [?o])) = length (log_bytes items) + length (tlv_bytes val)" by simp
  with flash_append [OF log(1) assms(2), of "name_bytes fac path val"] log(2) assms(5)
  have "head_valid (put_blk prog ?f (length (log_bytes items) + length (tlv_bytes val)) (name_bytes fac path val))
    \<and> (\<exists>rest. drop 16 (put_blk prog ?f (length (log_bytes items) + length (tlv_bytes val)) (name_bytes fac path val))
        = log_bytes (items @ [?o]) @ name_bytes fac path val @ rest \<and> conf_flash_erased rest)"
    by simp
  then show ?thesis using assms(1,3,4) by (auto simp: flash_log_def)
qed

section \<open>The representation of a map\<close>

text \<open>The index is not in use when it is empty.\<close>

definition conf_rep :: "conf_store \<Rightarrow> log_item list \<Rightarrow> bool" where
  "conf_rep st items \<longleftrightarrow> flash_log (cs_flash st) items \<and> cs_off st = length (log_bytes items)
     \<and> (cs_tree st = [] \<or> tree_ok (cs_tree st) \<and> depth_le CONF_PATH_MAX (cs_tree st)
          \<and> tree_map (cs_tree st) = conf_values (log_pairs 0 items))"

definition conf_boot :: "bytes \<Rightarrow> conf_store" where
  "conf_boot flash = (let (tree, off) = conf_load_new False flash 0 []
     in \<lparr>cs_flash = flash, cs_off = off, cs_tree = tree, cs_error = None\<rparr>)"

lemma pairs_ok: "\<forall>i \<in> set items. item_ok i \<Longrightarrow> c \<in> set (log_pairs off items) \<Longrightarrow> path_ok (cp_path c)"
  by (induction off items rule: log_pairs.induct) auto

lemma index_rep:
  assumes "\<forall>i \<in> set items. item_ok i"
  shows "tree_ok (conf_index (log_pairs 0 items)) \<and> depth_le CONF_PATH_MAX (conf_index (log_pairs 0 items))
    \<and> tree_map (conf_index (log_pairs 0 items)) = conf_values (log_pairs 0 items)"
  by (rule conf_index_ok) (use pairs_ok [OF assms] in \<open>auto simp: path_ok_def\<close>)

lemma boot_index:
  assumes "flash_log flash items"
  shows "conf_load_new False flash 0 [] = (conf_index (log_pairs 0 items), length (log_bytes items))"
  using assms load_items [of flash 0 items _ "[]"] by (auto simp: flash_log_def conf_index_def add_pairs_def)

lemma boot_rep: "flash_log flash items \<Longrightarrow> conf_rep (conf_boot flash) items"
  using index_rep [of items] boot_index [of flash items] by (auto simp: conf_rep_def conf_boot_def flash_log_def)

section \<open>Putting a value\<close>

lemma value_in_flash:
  assumes "flash_log flash items" "value_at items off val"
  shows "\<exists>rest. drop (16 + off) flash = tlv_bytes val @ rest" "val_ok val" "off < 2 ^ 31"
proof -
  obtain r1 where r1: "drop off (log_bytes items) = tlv_bytes val @ r1" "val_ok val" using assms(2) by (auto simp: value_at_def)
  obtain r2 where r2: "drop 16 flash = log_bytes items @ r2" using assms(1) by (auto simp: flash_log_def)
  have "off \<le> length (log_bytes items)" using drop_length [OF r1(1)] by (simp add: tlv_bytes_def)
  then have at: "drop (16 + off) flash = tlv_bytes val @ r1 @ r2"
    using r1(1) r2 drop_drop [of off 16 flash] by (simp add: add.commute)
  then show "\<exists>rest. drop (16 + off) flash = tlv_bytes val @ rest" by blast
  have "16 + off + length (tlv_bytes val) \<le> length flash" by (rule drop_length [OF at]) (simp add: tlv_bytes_def)
  then show "val_ok val" "off < 2 ^ 31" using r1(2) assms(1) by (auto simp: flash_log_def head_valid_def)
qed

lemma flash_bytes:
  assumes "head_valid flash" "drop (16 + off) flash = tlv_bytes v @ rest"
  shows "conf_flash_read flash off 2 = Some [tlv_type v, tlv_len v]"
    and "n + m \<le> length (tlv_val v) \<Longrightarrow> conf_flash_read flash (off + 2 + n) m = Some (take m (drop n (tlv_val v)))"
proof -
  have len: "16 + off + (2 + length (tlv_val v)) \<le> length flash"
    using drop_length [OF assms(2)] by (simp add: tlv_bytes_def)
  show "conf_flash_read flash off 2 = Some [tlv_type v, tlv_len v]"
    using flash_read [OF assms(1), of off 2] len assms(2) by (simp add: tlv_bytes_def numeral_2_eq_2)
  assume nm: "n + m \<le> length (tlv_val v)"
  have "drop (16 + (off + 2 + n)) flash = drop n (tlv_val v) @ rest"
    using assms(2) nm drop_drop [of "2 + n" "16 + off" flash] by (simp add: tlv_bytes_def ac_simps)
  then show "conf_flash_read flash (off + 2 + n) m = Some (take m (drop n (tlv_val v)))"
    using flash_read [OF assms(1), of "off + 2 + n" m] len nm by simp
qed

text \<open>The comparison finds equal values only.\<close>

lemma compare_value:
  assumes "flash_log flash items" "value_at items off v" "val_ok val" "conf_tlv_compare flash off val"
  shows "v = val"
proof -
  obtain rest where at: "drop (16 + off) flash = tlv_bytes v @ rest" using value_in_flash(1) [OF assms(1,2)] by blast
  have head: "head_valid flash" using assms(1) by (simp add: flash_log_def)
  have v: "tlv_wf v" "tlv_wf val" using value_in_flash(2) [OF assms(1,2)] assms(3) by (simp_all add: val_ok_def)
  note rd = flash_bytes [OF head at]
  have eq: "tlv_type v = tlv_type val" "tlv_len v = tlv_len val"
    using assms(4) rd(1) by (auto simp: conf_tlv_compare_def Let_def split: if_splits)
  then have len: "conf_tlv_len v = conf_tlv_len val" by (simp add: conf_tlv_len_def)
  then have l: "length (tlv_val v) = length (tlv_val val)" using v by (simp add: tlv_wf_def)
  have "tlv_val v = tlv_val val"
    using assms(4) rd(1) rd(2) [of 0 "conf_tlv_len val"] eq l v
    by (auto simp: conf_tlv_compare_def Let_def tlv_wf_def split: if_splits)
  then show ?thesis using eq by (cases v; cases val) simp
qed

lemma compare_invalid:
  assumes "head_valid flash" "tlv_type val = ATLV_DELETE"
  shows "\<not> conf_tlv_compare flash (conf_off None) val"
proof -
  have "conf_flash_read flash (2 ^ 32 - 1) 2 = (if 17 > length flash then None else Some (take 2 (drop 15 flash)))"
    using assms(1) by (auto simp: conf_flash_read_def head_valid_def conf_flash_raw_read_def split: option.split)
  moreover have "cchar (take 2 (drop 15 flash)) 0 = 0" if "17 \<le> length flash"
    using assms(1) that by (simp add: head_valid_def cchar_def)
  ultimately show ?thesis using assms(2) by (auto simp: conf_tlv_compare_def conf_off_def Let_def split: if_splits)
qed

lemma same_compare:
  assumes "conf_put_same flash fac val (Some (off, f))" "off < 2 ^ 31"
  shows "conf_tlv_compare flash off val" "fac \<Longrightarrow> tlv_type val \<noteq> ATLV_DELETE"
  using assms by (auto simp: conf_put_same_def conf_off_def split: if_splits option.splits)

lemma tree_none_below: "tree_node nodes p = None \<Longrightarrow> p \<noteq> [] \<Longrightarrow> prefix p q \<Longrightarrow> tree_map nodes q = None"
proof (induction nodes p arbitrary: q rule: tree_node.induct)
  case (2 nodes t)
  then obtain q' where "q = t # q'" by (cases q) auto
  then show ?case using 2 by (cases q') simp_all
next
  case (3 nodes t u us)
  then obtain q' where q: "q = t # u # q'" "prefix us q'" by (cases q; cases "tl q") (auto simp: Cons_prefix_Cons)
  show ?case
  proof (cases "tree_find nodes t")
    case (Some n)
    then show ?thesis using 3 q by simp
  qed (use q in simp)
qed simp

text \<open>When nothing is written, the map has the value already.\<close>

lemma put_found:
  assumes rep: "conf_rep st items" and ok: "val_ok val" "path_ok path" and array: "length (path @ extra) = CONF_PATH_MAX"
  shows "\<exists>found. conf_put_find False (path @ extra) (length path) (path_name fac path) (tlv_type val = ATLV_DELETE) st = Some found
    \<and> (conf_put_same (cs_flash st) fac val found \<longrightarrow> put_value path val (log_map items) = log_map items)"
proof -
  have log: "flash_log (cs_flash st) items" "head_valid (cs_flash st)" "\<forall>i \<in> set items. item_ok i"
    using rep by (auto simp: conf_rep_def flash_log_def)
  have ne: "path \<noteq> []" using ok(2) by (simp add: path_ok_def)
  let ?del = "tlv_type val = ATLV_DELETE" and ?m = "log_map items"
  have keep: "put_value path val ?m = ?m"
    if "?del \<Longrightarrow> \<forall>q. prefix path q \<longrightarrow> ?m q = None" "\<not> ?del \<Longrightarrow> ?m path = Some val"
    using that by (auto simp: put_value_def fun_eq_iff)
  have at: "v = val" if "value_at items off v" "conf_put_same (cs_flash st) fac val (Some (off, f))" for off v f
    using compare_value [OF log(1) that(1) ok(1) same_compare(1) [OF that(2) value_in_flash(3) [OF log(1) that(1)]]] .
  show ?thesis
  proof (cases "cs_tree st = []")
    case False
    then have tree: "tree_ok (cs_tree st)" "depth_le CONF_PATH_MAX (cs_tree st)" "tree_map (cs_tree st) = conf_values (log_pairs 0 items)"
      using rep by (auto simp: conf_rep_def)
    have look: "conf_tree_lookup (cs_tree st) (path @ extra) (int (length path)) ?del
        = Some (case tree_node (cs_tree st) path of None \<Rightarrow> None | Some n \<Rightarrow> if ?del \<or> cn_off n \<noteq> None then Some n else None)"
      by (rule lookup_node [OF tree(1,2) _ ne]) (use array in simp)
    show ?thesis
    proof (cases "tree_node (cs_tree st) path")
      case None
      have "?m q = None" if "prefix path q" for q
        using tree_none_below [OF None ne that] tree(3) values_map [OF log(3), of q] by (simp split: option.splits)
      then show ?thesis using False look None keep by (auto simp: conf_put_find_def conf_put_same_def)
    next
      case (Some n)
      show ?thesis
      proof (cases "cn_off n")
        case None
        have "\<not> conf_put_same (cs_flash st) fac val (Some (conf_off None, cn_fact n))" if ?del
          using compare_invalid [OF log(2) that] that by (simp add: conf_put_same_def)
        then show ?thesis using False look Some None by (auto simp: conf_put_find_def conf_put_same_def)
      next
        case off: (Some off)
        have "tree_map (cs_tree st) path = Some (off, cn_fact n)" using Some off by (simp add: tree_map_def)
        then obtain v where v: "?m path = Some v" "tlv_type v \<noteq> ATLV_DELETE" "value_at items off v"
          using tree(3) values_map [OF log(3), of path] by auto
        have "put_value path val ?m = ?m" if "conf_put_same (cs_flash st) fac val (Some (off, cn_fact n))"
          using at [OF v(3) that] v(1,2) keep by auto
        then show ?thesis using False look Some off by (auto simp: conf_put_find_def conf_off_def)
      qed
    qed
  next
    case True
    obtain rest where r: "drop (16 + 0) (cs_flash st) = log_bytes items @ rest" "conf_flash_erased rest"
      using log(1) by (auto simp: flash_log_def)
    let ?t = "if ?del then CONF_FIND_PREFIX else 0"
    let ?r = "foldl (find_step ?t path) (None, None) (log_entries 0 items)"
    have find: "conf_find_tlv False (cs_flash st) (path_name fac path) ?t 0 MAX_S32 None None = ?r"
      by (rule find_items [OF log(2) ok(2) _ r log(3)]) simp
    obtain so f where so: "?r = (so, f)" by (cases ?r)
    have code: "conf_put_find False (path @ extra) (length path) (path_name fac path) ?del st
        = Some (case so of None \<Rightarrow> None | Some off \<Rightarrow> Some (off, f))"
      using True find so by (auto simp: conf_put_find_def split: option.split)
    have "put_value path val ?m = ?m" if same: "conf_put_same (cs_flash st) fac val (case so of None \<Rightarrow> None | Some off \<Rightarrow> Some (off, f))"
    proof (cases so)
      case None
      then have del: ?del using same by (simp add: conf_put_same_def)
      then show ?thesis using find_below [OF log(3), of path] so None keep by simp
    next
      case (Some off)
      show ?thesis
      proof (cases ?del)
        case True
        then obtain v where "value_at items off v" "tlv_type v = ATLV_DELETE \<longrightarrow> (\<forall>q. prefix path q \<longrightarrow> ?m q = None)"
          using find_below [OF log(3), of path] so Some by auto
        then show ?thesis using at [of off v f] same Some True keep by auto
      next
        case False
        then obtain v where "value_at items off v" "?m path = (if tlv_type v = ATLV_DELETE then None else Some v)"
          using find_value [OF log(3), of path] so Some by auto
        then show ?thesis using at [of off v f] same Some False keep by auto
      qed
    qed
    then show ?thesis using code by blast
  qed
qed

lemma put_writes:
  assumes rep: "conf_rep st items" and prog: "prog_ok prog" and ok: "val_ok val" "path_ok path"
    and room: "16 + cs_off st + length (item_bytes (Log_pair fac path val)) \<le> length (cs_flash st)"
  shows "conf_rep ((conf_put_write prog (path_name fac path) val st)\<lparr>cs_tree := if cs_tree st \<noteq> []
      then conf_tree_add_tlv (cs_tree st) (path_name fac path) (cs_off st) (tlv_type val = ATLV_DELETE) else cs_tree st\<rparr>)
    (items @ [Log_pair fac path val])"
proof -
  have log: "flash_log (cs_flash st) items" "cs_off st = length (log_bytes items)" using rep by (simp_all add: conf_rep_def)
  have len: "conf_tlv_len val + 2 = length (tlv_bytes val)" using ok(1) by (simp add: val_ok_def tlv_wf_def tlv_bytes_def)
  have code: "conf_put_write prog (path_name fac path) val st = st\<lparr>
      cs_flash := put_blk prog (put_blk prog (cs_flash st) (length (log_bytes items)) (tlv_bytes val))
        (length (log_bytes items) + length (tlv_bytes val)) (name_bytes fac path val),
      cs_off := length (log_bytes (items @ [Log_pair fac path val]))\<rparr>"
    unfolding conf_put_write_def len Let_def log(2) by (simp add: name_bytes_def add.assoc)
  have "flash_log (put_blk prog (put_blk prog (cs_flash st) (length (log_bytes items)) (tlv_bytes val))
        (length (log_bytes items) + length (tlv_bytes val)) (name_bytes fac path val)) (items @ [Log_pair fac path val])"
    by (rule flash_log_pair [OF log(1) prog ok]) (use room log(2) in simp)
  moreover have "tree_ok tree' \<and> depth_le CONF_PATH_MAX tree' \<and> tree_map tree' = conf_values (log_pairs 0 (items @ [Log_pair fac path val]))"
    if "cs_tree st \<noteq> []" "tree' = conf_tree_add_tlv (cs_tree st) (path_name fac path) (cs_off st) (tlv_type val = ATLV_DELETE)" for tree'
  proof -
    have tree: "tree_ok (cs_tree st)" "depth_le CONF_PATH_MAX (cs_tree st)" "tree_map (cs_tree st) = conf_values (log_pairs 0 items)"
      using rep that(1) by (auto simp: conf_rep_def)
    have p: "path \<noteq> []" "length path \<le> CONF_PATH_MAX" using ok(2) by (simp_all add: path_ok_def)
    have "name_tokens (path_name fac path) = Some path"
      using name_facts(3,5) [OF ok(2), of fac] by (simp add: name_tokens_def)
    then have "tree' = conf_tree_add path (cs_off st) fac (tlv_type val = ATLV_DELETE) (cs_tree st)"
      using that(2) name_facts(4) [OF ok(2), of fac] by (simp add: conf_tree_add_tlv_def)
    then show ?thesis
      using add_ok [OF tree(1)] add_depth [OF tree(2) p(2)] add_map [OF tree(1) p(1)] tree(3) log(2)
      by (simp add: log_pairs_append conf_values_snoc fun_eq_iff)
  qed
  ultimately show ?thesis unfolding code conf_rep_def by simp
qed

lemma put_rep:
  assumes rep: "conf_rep st items" and prog: "prog_ok prog" and ok: "val_ok val" "path_ok path"
    and array: "length (path @ extra) = CONF_PATH_MAX"
    and room: "16 + cs_off st + length (item_bytes (Log_pair fac path val)) \<le> length (cs_flash st)"
  shows "\<exists>st' items'. conf_put_name_val prog False fac False (path @ extra) (length path) val st = Some st'
    \<and> conf_rep st' items' \<and> log_map items' = put_value path val (log_map items)"
proof -
  obtain found where found: "conf_put_find False (path @ extra) (length path) (path_name fac path) (tlv_type val = ATLV_DELETE) st = Some found"
    "conf_put_same (cs_flash st) fac val found \<longrightarrow> put_value path val (log_map items) = log_map items"
    using put_found [OF rep ok array] by blast
  have name: "utf8_put_wchars (take (length path) (path @ extra)) = Some (tlv_val (path_name fac path))"
    "conf_name fac (tlv_val (path_name fac path)) = path_name fac path"
    using name_facts(1) [OF ok(2), of fac] by (simp_all add: path_name_def conf_name_def)
  show ?thesis
  proof (cases "conf_put_same (cs_flash st) fac val found")
    case True
    then have "conf_put_name_val prog False fac False (path @ extra) (length path) val st = Some st"
      using found(1) name by (simp add: conf_put_name_val_def Let_def)
    then show ?thesis using rep found(2) True by auto
  next
    case False
    then have "conf_put_name_val prog False fac False (path @ extra) (length path) val st
        = Some ((conf_put_write prog (path_name fac path) val st)\<lparr>cs_tree := if cs_tree st \<noteq> []
            then conf_tree_add_tlv (cs_tree st) (path_name fac path) (cs_off st) (tlv_type val = ATLV_DELETE) else cs_tree st\<rparr>)"
      using found(1) name by (simp add: conf_put_name_val_def Let_def)
    then show ?thesis using put_writes [OF rep prog ok room] by (intro exI conjI) (assumption+, simp)
  qed
qed

section \<open>Reading a value\<close>

text \<open>What \<^verbatim>\<open>conf_file_read\<close> gives of a value, for a type, an offset and a length.\<close>

definition value_read :: "conf_tlv \<Rightarrow> u8 \<Rightarrow> nat \<Rightarrow> nat \<Rightarrow> bytes option" where
  "value_read val type off len =
     (if type \<noteq> tlv_type val \<and> tlv_type val AND ATLV_FILE \<noteq> type then None
      else if off \<ge> length (tlv_val val) then None
      else Some (take len (drop off (tlv_val val))))"

definition read_at :: "bytes \<Rightarrow> nat \<Rightarrow> u8 \<Rightarrow> nat \<Rightarrow> nat \<Rightarrow> bytes option" where
  "read_at flash soff type off len =
     (case conf_flash_read flash soff 2 of
        None \<Rightarrow> None
      | Some h \<Rightarrow>
          (let tlv = \<lparr>tlv_type = cchar h 0, tlv_len = cchar h 1, tlv_val = []\<rparr>
           in if type \<noteq> tlv_type tlv \<and> tlv_type tlv AND ATLV_FILE \<noteq> type then None
              else if off \<ge> conf_tlv_len tlv then None
              else conf_flash_read flash (soff + 2 + off) (if len < conf_tlv_len tlv - off then len else conf_tlv_len tlv - off)))"

lemma read_at_value:
  assumes "flash_log flash items" "value_at items soff val"
  shows "read_at flash soff type off len = value_read val type off len"
proof -
  obtain rest where at: "drop (16 + soff) flash = tlv_bytes val @ rest" using value_in_flash(1) [OF assms] by blast
  have head: "head_valid flash" using assms(1) by (simp add: flash_log_def)
  have l: "conf_tlv_len \<lparr>tlv_type = tlv_type val, tlv_len = tlv_len val, tlv_val = []\<rparr> = length (tlv_val val)"
    using value_in_flash(2) [OF assms] by (simp add: val_ok_def tlv_wf_def conf_tlv_len_def)
  have "conf_flash_read flash (soff + 2 + off) (if len < length (tlv_val val) - off then len else length (tlv_val val) - off)
      = Some (take len (drop off (tlv_val val)))" if "off < length (tlv_val val)"
    using flash_bytes(2) [OF head at, of off "if len < length (tlv_val val) - off then len else length (tlv_val val) - off"] that
    by (auto simp: take_all)
  then show ?thesis
    using flash_bytes(1) [OF head at] l
    by (cases "off < length (tlv_val val)"; cases "len < length (tlv_val val) - off") (simp_all add: read_at_def value_read_def)
qed

lemma file_read_found:
  assumes "cs_tree st \<noteq> [] \<Longrightarrow> map_option (map_option (\<lambda>node. conf_off (cn_off node))) (conf_tree_lookup (cs_tree st) tokens (int n) False) = Some soff"
    and "cs_tree st = [] \<Longrightarrow> fst (conf_find_tlv id_file (cs_flash st) \<lparr>tlv_type = ATLV_CONF, tlv_len = word_of_nat (n + 1),
        tlv_val = map word_of_nat (take n tokens)\<rparr> 0 0 MAX_S32 None None) = soff"
  shows "conf_file_read id_file tokens n type off len st
    = Some (case soff of None \<Rightarrow> None | Some soff \<Rightarrow> read_at (cs_flash st) soff type off len)"
proof -
  define found where "found = (if cs_tree st \<noteq> []
      then map_option (map_option (\<lambda>node. conf_off (cn_off node))) (conf_tree_lookup (cs_tree st) tokens (int n) False)
      else Some (fst (conf_find_tlv id_file (cs_flash st) \<lparr>tlv_type = ATLV_CONF, tlv_len = word_of_nat (n + 1),
        tlv_val = map word_of_nat (take n tokens)\<rparr> 0 0 MAX_S32 None None)))"
  have "found = Some soff" using assms by (simp add: found_def)
  moreover have "conf_item_find id_file tokens n type st = (case found of
             None \<Rightarrow> None
           | Some None \<Rightarrow> Some None
           | Some (Some soff) \<Rightarrow>
               (case conf_flash_read (cs_flash st) soff 2 of
                  None \<Rightarrow> Some None
                | Some h \<Rightarrow>
                    (let tlv = \<lparr>tlv_type = cchar h 0, tlv_len = cchar h 1, tlv_val = []\<rparr>
                     in if type \<noteq> tlv_type tlv \<and> tlv_type tlv AND ATLV_FILE \<noteq> type then Some None
                        else Some (Some (tlv, soff)))))"
    unfolding conf_item_find_def found_def Let_def ..
  ultimately show ?thesis
    by (cases soff; cases "conf_flash_read (cs_flash st) (the soff) 2") (simp_all add: conf_file_read_def read_at_def Let_def)
qed

lemma ascii_name:
  assumes "path_ok q" "\<forall>t \<in> set q. t < 0x80"
  shows "\<lparr>tlv_type = ATLV_CONF, tlv_len = word_of_nat (length q + 1), tlv_val = map word_of_nat q\<rparr> = path_name False q"
proof -
  have "\<forall>n \<in> set [0..<128]. the (utf8_put_wchar (word_of_nat n)) = [word_of_nat n]" by code_simp
  then have "name_of q = map word_of_nat q" using assms(2) by (induction q) (auto simp: name_of_def)
  then show ?thesis using name_of_put [of q] assms(1) by (simp add: path_name_def conf_name_def path_ok_def)
qed

lemma read_rep:
  assumes rep: "conf_rep st items" and ok: "path_ok q" "length (q @ extra) = CONF_PATH_MAX" and type: "type \<notin> {0, ATLV_DELETE}"
    and use: "cs_tree st \<noteq> [] \<or> (\<forall>t \<in> set q. t < 0x80)"
  shows "conf_file_read False (q @ extra) (length q) type off len st
    = Some (case log_map items q of None \<Rightarrow> None | Some val \<Rightarrow> value_read val type off len)"
proof -
  have log: "flash_log (cs_flash st) items" "head_valid (cs_flash st)" "\<forall>i \<in> set items. item_ok i"
    using rep by (auto simp: conf_rep_def flash_log_def)
  have ne: "q \<noteq> []" using ok(1) by (simp add: path_ok_def)
  show ?thesis
  proof (cases "cs_tree st = []")
    case False
    then have tree: "tree_ok (cs_tree st)" "depth_le CONF_PATH_MAX (cs_tree st)" "tree_map (cs_tree st) = conf_values (log_pairs 0 items)"
      using rep by (auto simp: conf_rep_def)
    let ?soff = "map_option fst (tree_map (cs_tree st) q)"
    have "conf_tree_lookup (cs_tree st) (q @ extra) (int (length q)) False
        = Some (case tree_node (cs_tree st) q of None \<Rightarrow> None | Some n \<Rightarrow> if False \<or> cn_off n \<noteq> None then Some n else None)"
      by (rule lookup_node [OF tree(1,2) _ ne]) (use ok(2) in simp)
    then have look: "map_option (map_option (\<lambda>node. conf_off (cn_off node))) (conf_tree_lookup (cs_tree st) (q @ extra) (int (length q)) False) = Some ?soff"
      by (cases "tree_node (cs_tree st) q") (auto simp: tree_map_def conf_off_def)
    have "conf_file_read False (q @ extra) (length q) type off len st
        = Some (case ?soff of None \<Rightarrow> None | Some soff \<Rightarrow> read_at (cs_flash st) soff type off len)"
      by (rule file_read_found) (use look False in auto)
    also have "\<dots> = Some (case log_map items q of None \<Rightarrow> None | Some val \<Rightarrow> value_read val type off len)"
      using values_map [OF log(3), of q] tree(3) read_at_value [OF log(1)] by (auto split: option.splits)
    finally show ?thesis .
  next
    case True
    obtain rest where r: "drop (16 + 0) (cs_flash st) = log_bytes items @ rest" "conf_flash_erased rest"
      using log(1) by (auto simp: flash_log_def)
    let ?r = "foldl (find_step 0 q) (None, None) (log_entries 0 items)"
    have "conf_find_tlv False (cs_flash st) (path_name False q) 0 0 MAX_S32 None None = ?r"
      by (rule find_items [OF log(2) ok(1) _ r log(3)]) simp
    then have find: "fst (conf_find_tlv False (cs_flash st) \<lparr>tlv_type = ATLV_CONF, tlv_len = word_of_nat (length q + 1),
        tlv_val = map word_of_nat (take (length q) (q @ extra))\<rparr> 0 0 MAX_S32 None None) = fst ?r"
      using ascii_name [OF ok(1)] use True by simp
    obtain so f where so: "?r = (so, f)" by (cases ?r)
    have "conf_file_read False (q @ extra) (length q) type off len st
        = Some (case so of None \<Rightarrow> None | Some soff \<Rightarrow> read_at (cs_flash st) soff type off len)"
      by (rule file_read_found) (use find so True in auto)
    also have "\<dots> = Some (case log_map items q of None \<Rightarrow> None | Some val \<Rightarrow> value_read val type off len)"
    proof (cases so)
      case None
      then show ?thesis using find_value [OF log(3), of q] so by simp
    next
      case (Some soff)
      then obtain val where v: "value_at items soff val" "log_map items q = (if tlv_type val = ATLV_DELETE then None else Some val)"
        using find_value [OF log(3), of q] so by auto
      have "value_read val type off len = None" if "tlv_type val = ATLV_DELETE"
        using type that by (auto simp: value_read_def)
      then show ?thesis using read_at_value [OF log(1) v(1)] v(2) Some by auto
    qed
    finally show ?thesis .
  qed
qed

section \<open>Runs\<close>

text \<open>
  The file when it is made, and the index then: \<open>conf_tree_init\<close> adds one node without a value, so that the
  index is in use.
\<close>

definition conf_tree_init :: "conf_node list" where
  "conf_tree_init = [Conf_node 3 None None []]"

lemma of_le32_append: "of_le32 (le32 v @ rest) = v"
  using of_le32 [of v] by (simp add: of_le32_def le32_def)

lemma flash_format:
  assumes "prog_ok prog" "16 \<le> n" "n < 2 ^ 31" "conf_flash_write_head prog (replicate n 0xff) gen = Some flash"
  shows "flash_log flash []" "length flash = n"
proof -
  let ?head = "[CONF_MAGIC, CONF_VERSION, 0, (gen AND 0x7f) OR 0x80] @ le32 (word_of_nat n) @ le32 (word_of_nat (n - 16)) @ [0, 0, 0, 0]"
  have len: "length ?head = 16" by (simp add: le32_def)
  have er: "conf_flash_erased (replicate n 0xff)" by (simp add: conf_flash_erased_def)
  have raw: "conf_flash_raw_write prog (replicate n 0xff) 0 head = Some (head @ drop (length head) (replicate n 0xff))"
    if "length head = 16" for head
    using map2_erased [OF assms(1) er, of head] assms(2) that by (simp add: conf_flash_raw_write_def)
  have "conf_flash_write_head prog (replicate n 0xff) gen = conf_flash_raw_write prog (replicate n 0xff) 0 ?head"
    using assms(2) unfolding conf_flash_write_head_def by (simp only: length_replicate if_not_P [OF leD])
  then have "flash = ?head @ drop (length ?head) (replicate n 0xff)" using raw [OF len] assms(4) by (simp only: option.inject)
  then have flash: "flash = ?head @ replicate (n - 16) 0xff" unfolding len by (simp only: drop_replicate)
  show n: "length flash = n" unfolding flash using len assms(2) by (simp del: append_Cons)
  have t: "take 16 flash = ?head" "drop 16 flash = replicate (n - 16) 0xff"
    unfolding flash using len by (simp_all del: append_Cons)
  have "head_len ?head = word_of_nat n" "head_data_len ?head = word_of_nat (n - 16)"
    using of_le32_append [of "word_of_nat n"] of_le32_append [of "word_of_nat (n - 16)" "[0, 0, 0, 0]"]
    by (simp_all add: head_len_def head_data_len_def le32_def)
  moreover have "word_of_nat (n - 16) + 16 = (word_of_nat n :: u32)" using assms(2) by (simp add: of_nat_diff)
  moreover have "cchar flash 0 = CONF_MAGIC" "cchar flash 15 = 0" by (simp_all add: flash le32_def)
  ultimately have "head_valid flash"
    using read_head [of flash] assms(2,3) n t(1) by (simp add: head_valid_def)
  then show "flash_log flash []" using t(2) by (simp add: flash_log_def conf_flash_erased_def)
qed

text \<open>
  A run makes a file, puts and deletes values (with room for the pair, in an array of 16 tokens), and starts
  anew from the flash, in any order; the power may be lost after the value of a pair was written, and before its
  name is.  The map is what the file should hold.
\<close>

inductive conf_run :: "flash_prog \<Rightarrow> conf_store \<Rightarrow> (nat list \<Rightarrow> conf_tlv option) \<Rightarrow> bool" for prog where
  run_format: "16 \<le> n \<Longrightarrow> n < 2 ^ 31 \<Longrightarrow> conf_flash_write_head prog (replicate n 0xff) gen = Some flash
    \<Longrightarrow> conf_run prog \<lparr>cs_flash = flash, cs_off = 0, cs_tree = conf_tree_init, cs_error = None\<rparr> (\<lambda>q. None)"
| run_put: "conf_run prog st m \<Longrightarrow> val_ok val \<Longrightarrow> path_ok path \<Longrightarrow> length (path @ extra) = CONF_PATH_MAX
    \<Longrightarrow> 16 + cs_off st + length (tlv_bytes val) + length (name_bytes fac path val) \<le> length (cs_flash st)
    \<Longrightarrow> conf_put_name_val prog False fac False (path @ extra) (length path) val st = Some st'
    \<Longrightarrow> conf_run prog st' (put_value path val m)"
| run_boot: "conf_run prog st m \<Longrightarrow> conf_run prog (conf_boot (cs_flash st)) m"
| run_power_loss: "conf_run prog st m \<Longrightarrow> val_ok val \<Longrightarrow> 16 + cs_off st + length (tlv_bytes val) \<le> length (cs_flash st)
    \<Longrightarrow> conf_run prog (conf_boot (put_blk prog (cs_flash st) (cs_off st) (tlv_bytes val))) m"

lemma run_rep:
  assumes "prog_ok prog" "conf_run prog st m"
  shows "\<exists>items. conf_rep st items \<and> log_map items = m"
  using assms(2)
proof (induction rule: conf_run.induct)
  case (run_format n gen flash)
  have "tree_map conf_tree_init q = None" for q
    by (cases q; cases "tl q") (simp_all add: conf_tree_init_def tree_map_Nil)
  then have "tree_map conf_tree_init = conf_values (log_pairs 0 [])" by (simp add: conf_values_def fun_eq_iff)
  then show ?case
    using flash_format(1) [OF assms(1) run_format]
    by (intro exI [of _ "[]"]) (simp add: conf_rep_def conf_tree_init_def eval_nat_numeral)
next
  case (run_put st m val path extra fac st')
  then show ?case using put_rep [of st _ prog val path extra fac] assms(1) by (auto simp: add.assoc)
next
  case (run_boot st m)
  then show ?case using boot_rep by (auto simp: conf_rep_def)
next
  case (run_power_loss st m val)
  then obtain items where items: "conf_rep st items" "log_map items = m" by blast
  then have "flash_log (put_blk prog (cs_flash st) (cs_off st) (tlv_bytes val)) (items @ [Log_orphan val])"
    using flash_log_append [of "cs_flash st" items prog "Log_orphan val"] assms(1) run_power_loss(2,3) by (simp add: conf_rep_def)
  then show ?case using boot_rep items(2) by (intro exI [of _ "items @ [Log_orphan val]"]) simp
qed

text \<open>C26.  In every run, reading a name gives what the map has for it, and a value or a deletion that fits behind the log
  can be put, with no read behind the array of tokens, and changes the map as it should.  (A name whose tokens need
  two bytes is not found while the index is empty.)\<close>

theorem conf_store_refines:
  assumes "prog_ok prog" "conf_run prog st m"
  shows "(\<forall>q extra type off len. path_ok q \<longrightarrow> length (q @ extra) = CONF_PATH_MAX \<longrightarrow> type \<notin> {0, ATLV_DELETE}
      \<longrightarrow> cs_tree st \<noteq> [] \<or> (\<forall>t \<in> set q. t < 0x80)
      \<longrightarrow> conf_file_read False (q @ extra) (length q) type off len st
            = Some (case m q of None \<Rightarrow> None | Some val \<Rightarrow> value_read val type off len))
    \<and> (\<forall>val path extra fac. val_ok val \<longrightarrow> path_ok path \<longrightarrow> length (path @ extra) = CONF_PATH_MAX
      \<longrightarrow> 16 + cs_off st + length (tlv_bytes val) + length (name_bytes fac path val) \<le> length (cs_flash st)
      \<longrightarrow> (\<exists>st'. conf_put_name_val prog False fac False (path @ extra) (length path) val st = Some st'
            \<and> conf_run prog st' (put_value path val m)))"
proof -
  obtain items where items: "conf_rep st items" "log_map items = m" using run_rep [OF assms] by blast
  show ?thesis
  proof (intro conjI allI impI)
    fix val path extra fac
    assume put: "val_ok val" "path_ok path" "length (path @ extra) = CONF_PATH_MAX"
      "16 + cs_off st + length (tlv_bytes val) + length (name_bytes fac path val) \<le> length (cs_flash st)"
    then obtain st' where "conf_put_name_val prog False fac False (path @ extra) (length path) val st = Some st'"
      using put_rep [OF items(1) assms(1) put(1-3), of fac] by (auto simp: add.assoc)
    then show "\<exists>st'. conf_put_name_val prog False fac False (path @ extra) (length path) val st = Some st'
        \<and> conf_run prog st' (put_value path val m)"
      using run_put [OF assms(2) put] by blast
  qed (use read_rep [OF items(1)] items(2) in blast)
qed

text \<open>The flash of the example clears bits.\<close>

definition and_prog :: flash_prog where
  "and_prog old new = old AND new"

lemma and_prog_ok: "prog_ok and_prog"
proof -
  have "(0xff :: u8) = - 1" by simp
  then have "(0xff :: u8) AND b = b" for b by (simp only: and.left_neutral)
  then show ?thesis by (simp add: prog_ok_def and_prog_def)
qed

definition sample_value :: conf_tlv where
  "sample_value = \<lparr>tlv_type = ATLV_UTF8, tlv_len = 2, tlv_val = str ''hi''\<rparr>"

lemma sample_value_ok: "val_ok sample_value" "path_ok [3, 5]" "length ([3, 5] @ replicate 14 0) = CONF_PATH_MAX"
  "length (tlv_bytes sample_value) + length (name_bytes fac [3, 5] sample_value) = 9"
proof -
  show "val_ok sample_value" by (simp add: val_ok_def tlv_wf_def sample_value_def conf_tlv_len_def str_def)
  show p: "path_ok [3, 5]" by (simp add: path_ok_def)
  have "name_of [3, 5] = [3, 5]" by code_simp
  then have "length (tlv_val (path_name fac [3, 5])) = 2" using name_of_path [OF p, of fac] by simp
  then show "length (tlv_bytes sample_value) + length (name_bytes fac [3, 5] sample_value) = 9"
    by (simp add: tlv_bytes_def name_bytes_def sample_value_def str_def)
qed simp

lemma sample_run:
  "\<exists>flash. conf_flash_write_head and_prog (replicate 64 0xff) 1 = Some flash \<and> length flash = 64
    \<and> conf_run and_prog \<lparr>cs_flash = flash, cs_off = 0, cs_tree = conf_tree_init, cs_error = None\<rparr> (\<lambda>q. None)"
proof -
  have "\<exists>flash. conf_flash_write_head and_prog (replicate 64 0xff) 1 = Some flash"
    by (simp add: conf_flash_write_head_def conf_flash_raw_write_def le32_def)
  then obtain flash where f: "conf_flash_write_head and_prog (replicate 64 0xff) 1 = Some flash" by blast
  have n: "(16 :: nat) \<le> 64" "(64 :: nat) < 2 ^ 31" by simp_all
  show ?thesis using f run_format [OF n f] flash_format(2) [OF and_prog_ok n f] by blast
qed

lemma conf_store_refines_witness:
  "\<exists>flash st'. conf_flash_write_head and_prog (replicate 64 0xff) 1 = Some flash
    \<and> conf_put_name_val and_prog False False False ([3, 5] @ replicate 14 0) (length [3 :: nat, 5]) sample_value
        \<lparr>cs_flash = flash, cs_off = 0, cs_tree = conf_tree_init, cs_error = None\<rparr> = Some st'
    \<and> conf_file_read False ([3, 5] @ replicate 14 0) (length [3 :: nat, 5]) ATLV_UTF8 0 10 (conf_boot (cs_flash st')) = Some (Some (str ''hi''))"
proof -
  obtain flash where flash: "conf_flash_write_head and_prog (replicate 64 0xff) 1 = Some flash" "length flash = 64"
    "conf_run and_prog \<lparr>cs_flash = flash, cs_off = 0, cs_tree = conf_tree_init, cs_error = None\<rparr> (\<lambda>q. None)"
    using sample_run by blast
  from conf_store_refines [OF and_prog_ok flash(3), THEN conjunct2, rule_format, OF sample_value_ok(1-3), of False]
  obtain st' where st': "conf_put_name_val and_prog False False False ([3, 5] @ replicate 14 0) (length [3 :: nat, 5]) sample_value
        \<lparr>cs_flash = flash, cs_off = 0, cs_tree = conf_tree_init, cs_error = None\<rparr> = Some st'"
    "conf_run and_prog st' (put_value [3, 5] sample_value (\<lambda>q. None))"
    using flash(2) sample_value_ok(4) [of False] by auto
  from conf_store_refines [OF and_prog_ok run_boot [OF st'(2)], THEN conjunct1, rule_format, OF sample_value_ok(2,3), of ATLV_UTF8 0 10]
  have "conf_file_read False ([3, 5] @ replicate 14 0) (length [3 :: nat, 5]) ATLV_UTF8 0 10 (conf_boot (cs_flash st'))
      = Some (value_read sample_value ATLV_UTF8 0 10)"
    by (simp add: put_value_def sample_value_def)
  moreover have "value_read sample_value ATLV_UTF8 0 10 = Some (str ''hi'')"
    by (simp add: value_read_def sample_value_def str_def)
  ultimately show ?thesis using flash(1) st'(1) by auto
qed

text \<open>C27.  In every run, loading the file again finds the end of the log where the next pair is written, with the rest of
  the file erased, and makes an index with the values of the one in use.\<close>

theorem conf_reload_correct:
  assumes "prog_ok prog" "conf_run prog st m"
  shows "\<exists>tree. conf_load_new False (cs_flash st) 0 [] = (tree, cs_off st)
    \<and> conf_flash_erased (drop (16 + cs_off st) (cs_flash st))
    \<and> (cs_tree st \<noteq> [] \<longrightarrow> tree_map tree = tree_map (cs_tree st))"
proof -
  obtain items where items: "conf_rep st items" using run_rep [OF assms] by blast
  then obtain rest where r: "flash_log (cs_flash st) items" "cs_off st = length (log_bytes items)"
    "drop 16 (cs_flash st) = log_bytes items @ rest" "conf_flash_erased rest"
    by (auto simp: conf_rep_def flash_log_def)
  have "drop (16 + cs_off st) (cs_flash st) = rest"
    using r(2,3) drop_drop [of "length (log_bytes items)" 16 "cs_flash st"] by (simp add: add.commute)
  moreover have "\<forall>i \<in> set items. item_ok i" using r(1) by (simp add: flash_log_def)
  ultimately show ?thesis
    using boot_index [OF r(1)] index_rep [of items] items r(2,4) by (auto simp: conf_rep_def)
qed

lemma conf_reload_correct_witness:
  "\<exists>flash tree. conf_flash_write_head and_prog (replicate 64 0xff) 1 = Some flash \<and> conf_load_new False flash 0 [] = (tree, 0)
    \<and> tree_map tree = tree_map conf_tree_init"
proof -
  obtain flash where flash: "conf_flash_write_head and_prog (replicate 64 0xff) 1 = Some flash"
    "conf_run and_prog \<lparr>cs_flash = flash, cs_off = 0, cs_tree = conf_tree_init, cs_error = None\<rparr> (\<lambda>q. None)"
    using sample_run by blast
  show ?thesis using flash(1) conf_reload_correct [OF and_prog_ok flash(2)] by (auto simp: conf_tree_init_def)
qed

section \<open>Factory values\<close>

lemma compare_self:
  assumes "flash_log flash items" "value_at items off v" "conf_tlv_len v \<le> CONF_VAL_MAX"
  shows "conf_tlv_compare flash off v"
proof -
  obtain rest where at: "drop (16 + off) flash = tlv_bytes v @ rest" using value_in_flash(1) [OF assms(1,2)] by blast
  have head: "head_valid flash" using assms(1) by (simp add: flash_log_def)
  have v: "length (tlv_val v) = conf_tlv_len v" using value_in_flash(2) [OF assms(1,2)] by (simp add: val_ok_def tlv_wf_def)
  note rd = flash_bytes [OF head at]
  show ?thesis using rd(1) rd(2) [of 0 "conf_tlv_len v"] v assms(3) by (simp add: conf_tlv_compare_def Let_def)
qed

text \<open>C28.  A value that was saved, but never as a factory value, cannot be made one: saving the same value as a factory
  value changes nothing, neither in the flash nor in the index, so that it is lost at a factory reset.\<close>

theorem conf_factory_not_saved:
  assumes "prog_ok prog" "conf_run prog st m" "path_ok path" "length (path @ extra) = CONF_PATH_MAX"
    and "tree_map (cs_tree st) path = Some (off, None)" "m path = Some val" "conf_tlv_len val \<le> CONF_VAL_MAX"
  shows "conf_put_name_val prog False True False (path @ extra) (length path) val st = Some st"
proof -
  obtain items where items: "conf_rep st items" "log_map items = m" using run_rep [OF assms(1,2)] by blast
  have use: "cs_tree st \<noteq> []" using assms(5) by (auto simp: tree_map_Nil)
  have log: "flash_log (cs_flash st) items" "\<forall>i \<in> set items. item_ok i" using items(1) by (auto simp: conf_rep_def flash_log_def)
  have tree: "tree_ok (cs_tree st)" "depth_le CONF_PATH_MAX (cs_tree st)" "tree_map (cs_tree st) = conf_values (log_pairs 0 items)"
    using items(1) use by (auto simp: conf_rep_def)
  have v: "tlv_type val \<noteq> ATLV_DELETE" "value_at items off val"
    using values_map [OF log(2), of path] tree(3) assms(5,6) items(2) by auto
  have ne: "path \<noteq> []" using assms(3) by (simp add: path_ok_def)
  obtain n where n: "tree_node (cs_tree st) path = Some n" "cn_off n = Some off" "cn_fact n = None"
    using assms(5) by (cases "tree_node (cs_tree st) path") (auto simp: tree_map_def)
  have "conf_tree_lookup (cs_tree st) (path @ extra) (int (length path)) False = Some (Some n)"
    using lookup_node [OF tree(1,2) _ ne, of extra False] assms(4) n by simp
  then have "conf_put_find False (path @ extra) (length path) name False st = Some (Some (off, None))" for name
    using use n by (simp add: conf_put_find_def conf_off_def)
  moreover have "conf_put_same (cs_flash st) True val (Some (off, None))"
    using v(1) compare_self [OF log(1) v(2) assms(7)] by (simp add: conf_put_same_def)
  ultimately show ?thesis
    using name_facts(1) [OF assms(3), of True] v(1) by (simp add: conf_put_name_val_def Let_def)
qed

lemma conf_factory_not_saved_witness:
  "\<exists>flash st'. conf_flash_write_head and_prog (replicate 64 0xff) 1 = Some flash
    \<and> conf_put_name_val and_prog False False False ([3, 5] @ replicate 14 0) (length [3 :: nat, 5]) sample_value
        \<lparr>cs_flash = flash, cs_off = 0, cs_tree = conf_tree_init, cs_error = None\<rparr> = Some st'
    \<and> conf_put_name_val and_prog False True False ([3, 5] @ replicate 14 0) (length [3 :: nat, 5]) sample_value st' = Some st'"
proof -
  obtain flash where flash: "conf_flash_write_head and_prog (replicate 64 0xff) 1 = Some flash" "length flash = 64"
    "conf_run and_prog \<lparr>cs_flash = flash, cs_off = 0, cs_tree = conf_tree_init, cs_error = None\<rparr> (\<lambda>q. None)"
    using sample_run by blast
  let ?st = "\<lparr>cs_flash = flash, cs_off = 0, cs_tree = conf_tree_init, cs_error = None\<rparr>"
  have room: "16 + cs_off ?st + length (tlv_bytes sample_value) + length (name_bytes False [3, 5] sample_value) \<le> length (cs_flash ?st)"
    using flash(2) sample_value_ok(4) [of False] by simp
  have "conf_tree_lookup conf_tree_init ([3, 5] @ replicate 14 0) (int (length [3 :: nat, 5])) False = Some None"
    by (simp add: conf_tree_init_def)
  then have find: "conf_put_find False ([3, 5] @ replicate 14 0) (length [3 :: nat, 5]) name False ?st = Some None" for name
    by (simp add: conf_put_find_def conf_tree_init_def)
  have name: "utf8_put_wchars [3, 5] = Some (tlv_val (path_name False [3, 5]))"
    "conf_name False (tlv_val (path_name False [3, 5])) = path_name False [3, 5]"
    using name_facts(1) [OF sample_value_ok(2), of False] by (simp_all add: path_name_def conf_name_def)
  have tokens: "name_tokens (path_name False [3, 5]) = Some [3, 5]"
    using name_facts(3,5) [OF sample_value_ok(2), of False] by (simp add: name_tokens_def)
  obtain st' where put: "conf_put_name_val and_prog False False False ([3, 5] @ replicate 14 0) (length [3 :: nat, 5]) sample_value ?st = Some st'"
    "cs_tree st' = conf_tree_add_tlv conf_tree_init (path_name False [3, 5]) 0 False"
    using find name by (simp add: conf_put_name_val_def conf_put_same_def Let_def sample_value_def conf_tree_init_def)
  have run: "conf_run and_prog st' (put_value [3, 5] sample_value (\<lambda>q. None))"
    by (rule run_put [OF flash(3) sample_value_ok(1-3) room put(1)])
  have tree: "tree_map (cs_tree st') [3, 5] = Some (0, None)"
    using put(2) tokens name_facts(4) [OF sample_value_ok(2), of False]
    by (simp add: conf_tree_add_tlv_def conf_tree_init_def conf_found_def)
  have "conf_put_name_val and_prog False True False ([3, 5] @ replicate 14 0) (length [3 :: nat, 5]) sample_value st' = Some st'"
    by (rule conf_factory_not_saved [OF and_prog_ok run sample_value_ok(2,3) tree])
      (simp_all add: put_value_def sample_value_def conf_tlv_len_def)
  then show ?thesis using flash(1) put(1) by blast
qed

end
