(* ===== verification/Spec2Isabelle.thy ===== *)
theory Spec2Isabelle
  imports Base64 Crc Uri Utf8 Json CString Parse JsmnGet Clock ClockMove ClockLocal Timer Http SchedEval SchedDays SchedDaily SchedValue Sched TcmHeap Dhcps DhcpsMsg DhcpsLease
    XmlStr XmlNode XmlTree XmlQuery XmlDump XmlTag XmlParse XmlAttr XmlForest XmlDoc DnsName AxmlCode AxmlParse AxmlDoc DateText
    ConfTree ConfTlv ConfLog ConfStore ConfKeep
begin

text \<open>
  A verification of parts of the RTL8710BX software kit: of the Ayla device agent
  (\<^verbatim>\<open>component/common/application/ayla/libayla\<close>, with the utility library \<^verbatim>\<open>libayla\<close> and the agent
  \<^verbatim>\<open>libada\<close>), of the DHCP server of its access-point mode (\<^verbatim>\<open>component/common/network/dhcp\<close>) and of the
  allocator of its fast memory (\<^verbatim>\<open>component/os/os_dep\<close>), and of its XML library
  (\<^verbatim>\<open>component/common/utilities/xml.c\<close>).

  \<^bold>\<open>The program.\<close>  The agent connects a device to a service.  It parses HTTP headers (\<^verbatim>\<open>http.c\<close>) and
  JSON bodies (the third-party parser jsmn, through \<^verbatim>\<open>jsmn_get.c\<close>), formats JSON, URIs and binary
  values (\<^verbatim>\<open>json_format_string.c\<close>, \<^verbatim>\<open>uri_encode.c\<close>, \<^verbatim>\<open>base64.c\<close>), drives everything from a timer queue
  (\<^verbatim>\<open>timer.c\<close>), and runs schedules: \<^verbatim>\<open>sched.c\<close> holds a table of schedules, asks \<^verbatim>\<open>schedeval.c\<close> for the
  next event of each, which it finds with the calendar of \<^verbatim>\<open>clock_utils.c\<close>, fires the actions that are
  due and sets a timer for the next event.  The DHCP server gives addresses to the clients of the
  device's access point.  The allocator is used by the drivers and the operating system.  The names in
  the messages of the agent's DNS responder are written and read by \<^verbatim>\<open>dnss_util.c\<close>.  The settings of the
  agent are kept in the flash by \<^verbatim>\<open>conf.c\<close>, as a log of values and names over \<^verbatim>\<open>arch/ameba/conf_flash.c\<close> with
  an index in memory.  The service's XML is read byte by byte by the agent's own parser (\<^verbatim>\<open>libayla/xml.c\<close>,
  \<^verbatim>\<open>xml_encode.c\<close>, \<^verbatim>\<open>xml_decode.c\<close>).  The XML library of the kit builds, parses, searches and writes documents
  for applications.

  \<^bold>\<open>Theories.\<close>  State is passed explicitly, in records with one field per static variable or member; a
  machine integer is a word, or a number with the wrap-around written out; an error return is an
  option or a sum; a loop that may not end, an assertion that fails and what C leaves undefined are
  \<^term>\<open>None\<close>.
  \<^item> \<open>Prelude\<close>: the machine types, C strings, arithmetic.  \<open>CString\<close>: the functions of the C library
    that the code uses on strings and numbers.
  \<^item> \<open>Base64\<close>, \<open>Uri\<close>, \<open>Utf8\<close>, \<open>Json\<close> (\<^verbatim>\<open>base64.c\<close>, \<^verbatim>\<open>uri_*.c\<close>, \<^verbatim>\<open>utf8.c\<close>, \<^verbatim>\<open>json_format_string.c\<close>): codecs, with
    their round trips, what they accept, and their bounds.  \<open>Crc\<close> (\<^verbatim>\<open>crc.c\<close>, \<^verbatim>\<open>crc16.c\<close>, \<^verbatim>\<open>crc8.c\<close>): the table
    routines are the bitwise definitions.
  \<^item> \<open>Parse\<close> (\<^verbatim>\<open>parse_hex.c\<close>, \<^verbatim>\<open>parse_mac.c\<close>, \<^verbatim>\<open>format_mac.c\<close>, \<^verbatim>\<open>parse_argv.c\<close>, \<^verbatim>\<open>cmd_handle.c\<close> and small
    functions): text parsers against reference definitions on lists; command dispatch.
  \<^item> \<open>JsmnGet\<close> (\<^verbatim>\<open>jsmn_get.c\<close>, \<^verbatim>\<open>jsmn_iterate.c\<close>): lookup in the token array of an object is lookup in the
    object, and where it is not.
  \<^item> \<open>Timer\<close> (\<^verbatim>\<open>timer.c\<close>, \<^verbatim>\<open>timer.h\<close>): the linked list in a store represents a queue in the order of the
    deadlines on the circular clock; a locale for queues of timers is interpreted on it.
  \<^item> \<open>Http\<close> (\<^verbatim>\<open>http.c\<close>): the parser as a machine that takes bytes; an invariant of every step gives memory
    safety, a frame lemma that input may come in pieces, and a run over a well-formed header its result.
  \<^item> \<open>Clock\<close>, \<open>ClockMove\<close>, \<open>ClockLocal\<close> (\<^verbatim>\<open>clock_utils.c\<close>): conversion between seconds and dates, steps by a day
    and a month, daylight saving.  \<open>DateText\<close> (\<^verbatim>\<open>clock_fmt.c\<close>, \<^verbatim>\<open>parse_date.c\<close>): dates as text, and what is read back.
  \<^item> \<open>ConfTlv\<close> (\<^verbatim>\<open>conf.c\<close>): items, their integers and the tokens of names.  \<open>ConfTree\<close> (\<^verbatim>\<open>conf_tree_add\<close>,
    \<^verbatim>\<open>conf_tree_lookup\<close>): the index is a map from paths to offsets.  \<open>ConfLog\<close> (\<^verbatim>\<open>conf_flash.c\<close>, and the functions of
    \<^verbatim>\<open>conf.c\<close> that load, search, put and read): the flash area is a list of bytes; what a write makes of a byte is
    the parameter \<open>prog\<close>, of which \<open>prog_ok\<close> says that an erased byte takes the value written.  \<open>ConfStore\<close>: the log
    as a list of items; \<open>conf_run\<close> in \<open>ConfKeep\<close>: runs of formatting, putting, restarting and losing power between
    the two writes of a pair, which refine a map from paths to values.
  \<^item> \<open>SchedEval\<close> (\<^verbatim>\<open>schedeval.c\<close>): the interpreter of schedule values, its searches and jumps as mutually
    dependent functions.  \<open>SchedDays\<close>, \<open>SchedDaily\<close>, \<open>SchedValue\<close>: the days that masks describe, the range
    of a daily schedule, a value on which it does not end.  \<open>Sched\<close> (\<^verbatim>\<open>sched.c\<close>): the table of schedules,
    the pending actions, and the run over all schedules, which ends when every evaluation progresses.
  \<^item> \<open>TcmHeap\<close> (\<^verbatim>\<open>tcm_heap.c\<close>): the free list in a store of cells represents a list of chunks; allocation and
    release refine operations on it; a locale states what a client of an allocator may rely on.
  \<^item> \<open>Dhcps\<close> (\<^verbatim>\<open>dhcps.c\<close>, \<^verbatim>\<open>dhcps.h\<close>): the DHCP server.  \<open>DhcpsMsg\<close>: the meaning of options, the contents of
    replies, the memory that is written.  \<open>DhcpsLease\<close>: the table of addresses over transactions.
  \<^item> \<open>DnsName\<close> (\<^verbatim>\<open>dnss_util.c\<close>): domain names in messages, against a relation that says what a message means.
  \<^item> \<open>AxmlCode\<close> (\<^verbatim>\<open>xml_encode.c\<close>, \<^verbatim>\<open>xml_decode.c\<close>): escaping, and decoding in place.  \<open>AxmlParse\<close> (\<^verbatim>\<open>libayla/xml.c\<close>):
    the parser as a machine that takes bytes, with its safety on input that avoids the accesses it does not guard.
    \<open>AxmlDoc\<close>: its run over documents, and documents on which it leaves its arrays.  A handler of a tag is an
    argument of the model that gives its result; the text after a failed decoding, which nothing reads, is not kept.
  \<^item> \<open>XmlStr\<close>, \<open>XmlNode\<close>, \<open>XmlTree\<close>, \<open>XmlQuery\<close>, \<open>XmlDump\<close>, \<open>XmlTag\<close>, \<open>XmlParse\<close>, \<open>XmlAttr\<close>, \<open>XmlForest\<close>, \<open>XmlDoc\<close>
    (\<^verbatim>\<open>xml.c\<close>): nodes live in a store and point to parent, child and siblings; \<open>xrep\<close> relates a store to a
    tree.  Constructors, adding, deleting, copying, parsing and attributes act on the store; the searches
    and the writer follow \<^verbatim>\<open>child\<close> and \<^verbatim>\<open>next\<close> only and are functions of the represented tree.  The
    allocator is the parameter \<open>new\<close>, which gives an address that is not in use.  \<open>XmlForest\<close> shows that
    every reachable store is a forest of correctly linked documents; \<open>XmlDoc\<close> holds the properties.

  \<^bold>\<open>Bounds.\<close>  The theorems on dates hold up to the year 2105, where 32-bit seconds end; those on
  schedules for times five days before that.  The searches of \<^verbatim>\<open>schedeval.c\<close> are functions with a proof of
  termination or partial functions, with theorems that they return; no fuel is used, but for the
  lists read back from a store, which have at most as many elements as the heap has bytes, and for the
  recursion of \<^verbatim>\<open>xml.c\<close> over nodes, for which the theorems give fuel that is enough (two or three times the
  number of nodes).  Names of DNS messages are read in the eight steps of the code.

  \<^bold>\<open>Not modelled.\<close>  Third-party code (lwip, mbed TLS, PolarSSL, FreeRTOS, FatFs, jsmn, cJSON, CoAP, MQTT):
  where the code calls it, its results are parameters.  Drivers, HAL and media code, whose meaning is
  that of hardware registers or of libraries delivered as binaries.  The parts of the agent that are
  sequences of network calls (\<^verbatim>\<open>client.c\<close>, \<^verbatim>\<open>lan.c\<close>, \<^verbatim>\<open>notify.c\<close>, \<^verbatim>\<open>dnss.c\<close>), and logging, command lines and
  self tests.  Of \<^verbatim>\<open>conf.c\<close>, the copy of a full area to the other one, the choice between the areas, files written in
  pieces, and the walk over the components that save their settings.  Handlers of the parsers are not assumed to
  change the parser that calls them.
\<close>

end
